(* ===== verification/Prelude.thy ===== *)
theory Prelude
  imports Main "HOL-Library.Word"
begin

text \<open>
  Shared vocabulary of the development: the machine integer types of \<^verbatim>\<open>src/src/utils/base.h\<close>,
  the \<open>errno\<close> values the library sets, the outcome of a C call, the little-endian
  representation of the integers that reach a byte stream, the few \<open>string.h\<close> functions
  the code uses, and generic lemmas on lists and words.
\<close>

unbundle bit_operations_syntax

section \<open>Machine integers\<close>

text \<open>The typedefs of \<^verbatim>\<open>base.h\<close>. Signed integers are words read with \<open>sint\<close>.\<close>

type_synonym u8 = "8 word"
type_synonym u16 = "16 word"
type_synonym u32 = "32 word"
type_synonym u64 = "64 word"
type_synonym i32 = "32 word"
type_synonym byte = u8

section \<open>Outcomes of a call\<close>

text \<open>
  The error numbers the library sets or tests. \<open>ENONE\<close> stands for a call that returns \<open>-1\<close>
  and leaves \<open>errno\<close> as it was.
\<close>

datatype errno =
  ENONE | EAGAIN | EPIPE | EBADF | EINVAL | EPROTO | EFBIG | ECONNREFUSED | EADDRINUSE
  | EMFILE | EEXIST | ENOENT | ENOMEM | EPERM | EOPNOTSUPP | EWOULDBLOCK | EINTR | ECONNABORTED
  | EOTHER

text \<open>
  \<open>Ok x\<close>: the call returns with \<open>x\<close>. \<open>Err e\<close>: it returns \<open>-1\<close> with \<open>errno = e\<close>.
  \<open>Bug\<close>: a \<open>BUG_ON\<close> fires, the process aborts. \<open>Undef\<close>: the C code leaves defined
  behaviour (a write outside an allocated block, a null dereference).
\<close>

datatype 'a cres = Ok 'a | Err errno | Bug | Undef

definition cbind :: "'a cres \<Rightarrow> ('a \<Rightarrow> 'b cres) \<Rightarrow> 'b cres" where
  "cbind r f = (case r of Ok x \<Rightarrow> f x | Err e \<Rightarrow> Err e | Bug \<Rightarrow> Bug | Undef \<Rightarrow> Undef)"

lemma cbind_simps [simp]:
  "cbind (Ok x) f = f x" "cbind (Err e) f = Err e" "cbind Bug f = Bug" "cbind Undef f = Undef"
  by (simp_all add: cbind_def)

text \<open>\<open>deref\<close> follows a pointer.\<close>

definition deref :: "'a option \<Rightarrow> 'a cres" where
  "deref x = (case x of None \<Rightarrow> Undef | Some y \<Rightarrow> Ok y)"

lemma deref_simps [simp]: "deref None = Undef" "deref (Some y) = Ok y"
  by (simp_all add: deref_def)

lemma cbind_eq_Ok: "cbind r f = Ok y \<longleftrightarrow> (\<exists>x. r = Ok x \<and> f x = Ok y)"
  by (cases r) simp_all

definition returns :: "'a cres \<Rightarrow> bool" where
  "returns r \<longleftrightarrow> r \<noteq> Bug \<and> r \<noteq> Undef"

lemma returns_simps [simp]:
  "returns (Ok x)" "returns (Err e)" "\<not> returns Bug" "\<not> returns Undef"
  by (simp_all add: returns_def)

section \<open>Collections of facts\<close>

named_theorems invs \<open>operations keep the invariant of their component\<close>
named_theorems absfn \<open>an operation commutes with the abstraction function\<close>

section \<open>Lists\<close>

text \<open>\<open>memcpy\<close> of \<open>src\<close> into the block \<open>dst\<close> at an offset. A copy that would run past the
  block makes the list longer: the invariants of the clients exclude it.\<close>

definition memcpy_at :: "'a list \<Rightarrow> nat \<Rightarrow> 'a list \<Rightarrow> 'a list" where
  "memcpy_at dst off src = take off dst @ src @ drop (off + length src) dst"

lemma length_memcpy_at [simp]:
  "off + length src \<le> length dst \<Longrightarrow> length (memcpy_at dst off src) = length dst"
  by (simp add: memcpy_at_def)

lemma take_memcpy_at:
  "off \<le> length dst \<Longrightarrow> take (off + length src) (memcpy_at dst off src) = take off dst @ src"
  by (simp add: memcpy_at_def)

lemma take_memcpy_at_0 [simp]: "take (length src) (memcpy_at dst 0 src) = src"
  by (simp add: memcpy_at_def)

lemma take_drop_split: "n \<le> m \<Longrightarrow> take n xs @ drop n (take m xs) = take m xs"
  by (metis append_take_drop_id min.absorb1 take_take)

lemma nth_append_length_Cons [simp]: "(xs @ x # ys) ! length xs = x"
  by (simp add: nth_append)

lemma take_append_Cons_length [simp]: "take (length xs) (xs @ ys) = xs"
  by simp

lemma sum_list_map_remove_nth:
  "i < length xs \<Longrightarrow>
   sum_list (map f xs) = f (xs ! i) + sum_list (map f (take i xs @ drop (Suc i) xs))"
  for f :: "'a \<Rightarrow> 'b :: comm_monoid_add"
proof -
  assume "i < length xs"
  then have "xs = take i xs @ xs ! i # drop (Suc i) xs"
    by (rule id_take_nth_drop)
  then have "sum_list (map f xs) = sum_list (map f (take i xs @ xs ! i # drop (Suc i) xs))"
    by simp
  then show ?thesis by (simp add: add.left_commute)
qed

section \<open>C strings\<close>

text \<open>
  A C string is the list of its characters before the terminating NUL. \<open>strstr_at\<close> and
  \<open>strchr_at\<close> give the offset of the pointer that \<open>strstr\<close> and \<open>strchr\<close> return,
  \<open>None\<close> for the null pointer.
\<close>

definition is_prefix :: "'a list \<Rightarrow> 'a list \<Rightarrow> bool" where
  "is_prefix p s \<longleftrightarrow> take (length p) s = p"

fun strstr_at :: "string \<Rightarrow> string \<Rightarrow> nat option" where
  "strstr_at [] needle = (if needle = [] then Some 0 else None)"
| "strstr_at (c # cs) needle =
     (if is_prefix needle (c # cs) then Some 0 else map_option Suc (strstr_at cs needle))"

fun strchr_at :: "string \<Rightarrow> char \<Rightarrow> nat option" where
  "strchr_at [] ch = None"
| "strchr_at (c # cs) ch = (if c = ch then Some 0 else map_option Suc (strchr_at cs ch))"

lemma is_prefix_append [simp]: "is_prefix p (p @ s)"
  by (simp add: is_prefix_def)

lemma is_prefixE: "is_prefix p s \<Longrightarrow> \<exists>t. s = p @ t"
  by (metis append_take_drop_id is_prefix_def)

lemma strstr_at_Some:
  "strstr_at s n = Some i \<Longrightarrow> i + length n \<le> length s \<and> take (length n) (drop i s) = n"
proof (induction s arbitrary: i)
  case Nil
  then show ?case by (simp split: if_splits)
next
  case (Cons c cs)
  show ?case
  proof (cases "is_prefix n (c # cs)")
    case True
    then obtain t where "c # cs = n @ t" by (auto dest: is_prefixE)
    then have "length n \<le> length (c # cs)" by (metis length_append le_add1)
    with True Cons.prems show ?thesis by (simp add: is_prefix_def)
  next
    case False
    with Cons.prems obtain j where "strstr_at cs n = Some j" "i = Suc j" by auto
    with Cons.IH show ?thesis by simp
  qed
qed

lemma strchr_at_Some: "strchr_at s c = Some i \<Longrightarrow> i < length s \<and> s ! i = c \<and> c \<notin> set (take i s)"
  by (induction s arbitrary: i) (auto split: if_splits)

lemma strchr_at_None: "strchr_at s c = None \<longleftrightarrow> c \<notin> set s"
  by (induction s) auto

section \<open>Little-endian integers\<close>

definition le16 :: "u16 \<Rightarrow> byte list" where
  "le16 w = [ucast w, ucast (drop_bit 8 w)]"

definition le32 :: "u32 \<Rightarrow> byte list" where
  "le32 w = [ucast w, ucast (drop_bit 8 w), ucast (drop_bit 16 w), ucast (drop_bit 24 w)]"

definition of_le16 :: "byte list \<Rightarrow> u16" where
  "of_le16 bs = (ucast (bs ! 0) OR push_bit 8 (ucast (bs ! 1)))"

definition of_le32 :: "byte list \<Rightarrow> u32" where
  "of_le32 bs = (ucast (bs ! 0) OR push_bit 8 (ucast (bs ! 1)) OR
                 push_bit 16 (ucast (bs ! 2)) OR push_bit 24 (ucast (bs ! 3)))"

lemma length_le [simp]: "length (le16 w) = 2" "length (le32 v) = 4"
  by (simp_all add: le16_def le32_def)

lemma of_le16_append [simp]: "of_le16 (le16 w @ r) = w"
  by (rule bit_eqI)
     (auto simp: of_le16_def le16_def bit_simps nth_append less_diff_conv
           split: if_splits)

lemma of_le32_append [simp]: "of_le32 (le32 w @ r) = w"
proof (rule bit_word_eqI)
  fix n :: nat
  assume "n < LENGTH(32)"
  then consider "n < 8" | "8 \<le> n" "n < 16" | "16 \<le> n" "n < 24" | "24 \<le> n" "n < 32"
    by fastforce
  then show "bit (of_le32 (le32 w @ r)) n = bit w n"
    by cases (auto simp: of_le32_def le32_def bit_simps less_diff_conv)
qed

section \<open>Signed and unsigned readings\<close>

lemma sint_nonneg_bit: "0 \<le> sint w \<longleftrightarrow> \<not> bit w 31" for w :: i32
  using bit_last_iff [of w] by (auto simp: not_less)

lemma nonneg_unat_less: "0 \<le> sint w \<Longrightarrow> unat w < 2 ^ 31" for w :: i32
proof -
  assume "0 \<le> sint w"
  then have "take_bit 31 w = w"
    by (intro bit_word_eqI) (auto simp: sint_nonneg_bit bit_simps less_Suc_eq numeral_eq_Suc)
  then have "unat w = take_bit 31 (unat w)" by (metis unsigned_take_bit_eq)
  then show ?thesis by (metis take_bit_nat_less_exp)
qed

lemma unat_less_nonneg: "unat w < 2 ^ 31 \<Longrightarrow> 0 \<le> sint w \<and> sint w = int (unat w)" for w :: i32
proof -
  assume less: "unat w < 2 ^ 31"
  then have "take_bit 31 (unat w) = unat w" by (simp add: take_bit_nat_eq_self)
  then have "\<not> bit (unat w) 31" by (metis bit_take_bit_iff less_irrefl)
  then have nb: "\<not> bit w 31" by (simp add: bit_unsigned_iff)
  then have "0 \<le> sint w" by (simp add: sint_nonneg_bit)
  moreover have "int (unat w) < int (2 ^ 31)" using less by (simp only: of_nat_less_iff)
  then have "uint w < 2 ^ 31" by simp
  then have "take_bit 31 (uint w) = uint w" by (simp add: take_bit_int_eq_self)
  then have "sint w = int (unat w)"
    using nb signed_take_bit_eq_if_positive [of "uint w" 31]
    by (simp add: sint_uint bit_unsigned_iff)
  ultimately show ?thesis by simp
qed

lemma unat_of_nat_32: "n < 2 ^ 32 \<Longrightarrow> unat (of_nat n :: u32) = n"
  by (simp add: unsigned_of_nat take_bit_nat_eq_self)

lemma unat_of_int_32: "0 \<le> i \<Longrightarrow> i < 2 ^ 32 \<Longrightarrow> unat (of_int i :: u32) = nat i"
  using unat_of_nat_32 [of "nat i"] by simp

lemma uint_int_unat: "uint w = int (unat w)"
  by simp

end
