(* ===== verification/ListHead.thy ===== *)
theory ListHead
  imports Prelude
begin

text \<open>
  The intrusive doubly linked lists of \<^verbatim>\<open>src/src/utils/list.h\<close>, on an explicit memory: a
  \<open>list_head\<close> lives at an address, the memory maps addresses to \<open>list_head\<close>s, and every
  operation is the sequence of pointer writes of the C code, so the cases where two of its
  arguments are the same node (the empty list) are covered. \<open>ring\<close> relates a list head in
  memory to the list of its entries; each operation is shown to be the list operation it
  stands for, and to leave the nodes of other lists alone. The rest of the development
  represents a \<open>list_head\<close> by the list of its entries and rests on this theory.
\<close>

section \<open>Memory and operations\<close>

type_synonym addr = nat

record list_head =
  nxt :: addr
  prv :: addr

type_synonym mem = "addr \<Rightarrow> list_head"

definition set_nxt :: "addr \<Rightarrow> addr \<Rightarrow> mem \<Rightarrow> mem" where
  "set_nxt p v h = h(p := (h p)\<lparr>nxt := v\<rparr>)"

definition set_prv :: "addr \<Rightarrow> addr \<Rightarrow> mem \<Rightarrow> mem" where
  "set_prv p v h = h(p := (h p)\<lparr>prv := v\<rparr>)"

definition LIST_POISON1 :: addr where "LIST_POISON1 = 0x00100100"
definition LIST_POISON2 :: addr where "LIST_POISON2 = 0x00200200"

definition INIT_LIST_HEAD :: "addr \<Rightarrow> mem \<Rightarrow> mem" where
  "INIT_LIST_HEAD ptr h = set_prv ptr ptr (set_nxt ptr ptr h)"

text \<open>\<open>__list_add\<close>: the four pointer writes in the source's order.\<close>

definition list_add_between :: "addr \<Rightarrow> addr \<Rightarrow> addr \<Rightarrow> mem \<Rightarrow> mem" where
  "list_add_between node prev next h =
     (let h = set_prv next node h;
          h = set_nxt node next h;
          h = set_prv node prev h
      in set_nxt prev node h)"

definition list_add :: "addr \<Rightarrow> addr \<Rightarrow> mem \<Rightarrow> mem" where
  "list_add node head h = list_add_between node head (nxt (h head)) h"

definition list_add_tail :: "addr \<Rightarrow> addr \<Rightarrow> mem \<Rightarrow> mem" where
  "list_add_tail node head h = list_add_between node (prv (h head)) head h"

text \<open>\<open>__list_del\<close>.\<close>

definition list_unlink :: "addr \<Rightarrow> addr \<Rightarrow> mem \<Rightarrow> mem" where
  "list_unlink prev next h = set_nxt prev next (set_prv next prev h)"

definition list_del :: "addr \<Rightarrow> mem \<Rightarrow> mem" where
  "list_del entry h =
     (let h = list_unlink (prv (h entry)) (nxt (h entry)) h;
          h = set_nxt entry LIST_POISON1 h
      in set_prv entry LIST_POISON2 h)"

definition list_del_init :: "addr \<Rightarrow> mem \<Rightarrow> mem" where
  "list_del_init entry h =
     INIT_LIST_HEAD entry (list_unlink (prv (h entry)) (nxt (h entry)) h)"

definition list_move :: "addr \<Rightarrow> addr \<Rightarrow> mem \<Rightarrow> mem" where
  "list_move entry head h =
     list_add entry head (list_unlink (prv (h entry)) (nxt (h entry)) h)"

definition list_move_tail :: "addr \<Rightarrow> addr \<Rightarrow> mem \<Rightarrow> mem" where
  "list_move_tail entry head h =
     list_add_tail entry head (list_unlink (prv (h entry)) (nxt (h entry)) h)"

definition list_empty :: "addr \<Rightarrow> mem \<Rightarrow> bool" where
  "list_empty head h \<longleftrightarrow> nxt (h head) = head"

definition attached :: "addr \<Rightarrow> mem \<Rightarrow> bool" where
  "attached head h \<longleftrightarrow> \<not> list_empty head h"

text \<open>\<open>__list_splice\<close>: the entries of \<open>head1\<close> go to the front of \<open>head2\<close>.\<close>

definition list_splice_raw :: "addr \<Rightarrow> addr \<Rightarrow> mem \<Rightarrow> mem" where
  "list_splice_raw head1 head2 h =
     (let first = nxt (h head1); last = prv (h head1); at = nxt (h head2);
          h = set_prv first head2 h;
          h = set_nxt head2 first h;
          h = set_nxt last at h
      in set_prv at last h)"

definition list_splice :: "addr \<Rightarrow> addr \<Rightarrow> mem \<Rightarrow> mem" where
  "list_splice head1 head2 h =
     (if list_empty head1 h then h
      else INIT_LIST_HEAD head1 (list_splice_raw head1 head2 h))"

text \<open>
  The loops \<open>walk_each\<close> and \<open>walk_each_prev\<close>: the nodes visited, in order. On memory that is
  not a ring the C loop may run forever; the fuel makes that \<open>None\<close>.
\<close>

fun walk_each :: "nat \<Rightarrow> addr \<Rightarrow> addr \<Rightarrow> mem \<Rightarrow> addr list option" where
  "walk_each 0 pos head h = None"
| "walk_each (Suc n) pos head h =
     (if pos = head then Some []
      else map_option (Cons pos) (walk_each n (nxt (h pos)) head h))"

fun walk_each_prev :: "nat \<Rightarrow> addr \<Rightarrow> addr \<Rightarrow> mem \<Rightarrow> addr list option" where
  "walk_each_prev 0 pos head h = None"
| "walk_each_prev (Suc n) pos head h =
     (if pos = head then Some []
      else map_option (Cons pos) (walk_each_prev n (prv (h pos)) head h))"

section \<open>Rings\<close>

text \<open>\<open>links h zs\<close>: consecutive nodes of \<open>zs\<close> point at each other.\<close>

fun links :: "mem \<Rightarrow> addr list \<Rightarrow> bool" where
  "links h (p # q # zs) \<longleftrightarrow> nxt (h p) = q \<and> prv (h q) = p \<and> links h (q # zs)"
| "links h _ \<longleftrightarrow> True"

definition ring :: "mem \<Rightarrow> addr \<Rightarrow> addr list \<Rightarrow> bool" where
  "ring h head xs \<longleftrightarrow> distinct (head # xs) \<and> links h (head # xs @ [head])"

lemma nxt_set [simp]:
  "nxt (set_nxt p v h q) = (if q = p then v else nxt (h q))"
  "nxt (set_prv p v h q) = nxt (h q)"
  "prv (set_prv p v h q) = (if q = p then v else prv (h q))"
  "prv (set_nxt p v h q) = prv (h q)"
  by (simp_all add: set_nxt_def set_prv_def)

lemma set_other [simp]: "q \<noteq> p \<Longrightarrow> set_nxt p v h q = h q" "q \<noteq> p \<Longrightarrow> set_prv p v h q = h q"
  by (simp_all add: set_nxt_def set_prv_def)

lemma links_append:
  "links h (us @ p # q # vs) \<longleftrightarrow> links h (us @ [p]) \<and> links h (p # q # vs)"
proof (induction us)
  case (Cons u us)
  then show ?case by (cases us) simp_all
qed simp

lemma links_frame:
  assumes "links h zs"
    and "\<And>q. q \<in> set (butlast zs) \<Longrightarrow> nxt (h' q) = nxt (h q)"
    and "\<And>q. q \<in> set (tl zs) \<Longrightarrow> prv (h' q) = prv (h q)"
  shows "links h' zs"
  using assms by (induction h zs rule: links.induct) auto

text \<open>Inserting between two neighbours, and cutting an entry out.\<close>

lemma links_insert:
  assumes "links h (us @ p # q # vs)" and "n \<notin> set (us @ p # q # vs)"
    and "p \<notin> set us" "p \<notin> set (butlast (q # vs))" "q \<notin> set (tl (us @ [p]))" "q \<notin> set vs"
  shows "links (list_add_between n p q h) (us @ p # n # q # vs)"
proof -
  have "links h (us @ [p])" "links h (q # vs)"
    using assms(1) by (simp_all add: links_append)
  moreover have "set (tl (us @ [p])) \<subseteq> set (us @ [p])" "set (butlast (q # vs)) \<subseteq> set (q # vs)"
    by (cases us) (auto dest: in_set_butlastD)
  ultimately have "links (list_add_between n p q h) (us @ [p])"
    "links (list_add_between n p q h) (q # vs)"
    using assms(2-) by (auto elim!: links_frame simp: list_add_between_def Let_def)
  then show ?thesis
    using assms(2) by (auto simp: links_append list_add_between_def Let_def)
qed

lemma links_unlink:
  assumes "links h (us @ p # n # q # vs)" and "n \<notin> set (us @ p # q # vs)"
    and "p \<notin> set us" "p \<notin> set (butlast (q # vs))" "q \<notin> set (tl (us @ [p]))" "q \<notin> set vs"
  shows "links (list_unlink p q h) (us @ p # q # vs)"
proof -
  have "links h (us @ [p])" "links h (q # vs)"
    using assms(1) by (simp_all add: links_append)
  then have "links (list_unlink p q h) (us @ [p])" "links (list_unlink p q h) (q # vs)"
    using assms(2-) by (auto elim!: links_frame simp: list_unlink_def)
  then show ?thesis
    by (simp add: links_append list_unlink_def)
qed

lemma ring_empty_iff: "ring h head [] \<longleftrightarrow> nxt (h head) = head \<and> prv (h head) = head"
  by (auto simp: ring_def)

lemma links_last: "links h (a # xs @ [b]) \<Longrightarrow> prv (h b) = last (a # xs)"
  by (induction xs arbitrary: a) auto

lemma ring_nxt_head: "ring h head xs \<Longrightarrow> nxt (h head) = hd (xs @ [head])"
  by (cases xs) (auto simp: ring_def)

lemma ring_prv_head: "ring h head xs \<Longrightarrow> prv (h head) = last (head # xs)"
  by (simp only: ring_def links_last)

lemma ring_frame:
  assumes "ring h head xs" and "\<And>q. q \<in> set (head # xs) \<Longrightarrow> h' q = h q"
  shows "ring h' head xs"
proof -
  have "set (butlast (head # xs @ [head])) \<subseteq> set (head # xs)" by (auto simp: butlast_append)
  with assms show ?thesis
    unfolding ring_def by (auto elim!: links_frame simp: butlast_append)
qed

text \<open>The general form of \<open>list_add\<close> and \<open>list_add_tail\<close>, and of the deletions.\<close>

lemma ring_insert:
  assumes "ring h head (xs @ ys)" and "n \<notin> set (head # xs @ ys)"
  shows "ring (list_add_between n (last (head # xs)) (hd (ys @ [head])) h) head (xs @ n # ys)"
proof -
  define us p q vs where "us = butlast (head # xs)" and "p = last (head # xs)"
    and "q = hd (ys @ [head])" and "vs = tl (ys @ [head])"
  have up: "head # xs = us @ [p]" and qv: "ys @ [head] = q # vs"
    by (auto simp: us_def p_def q_def vs_def)
  have d: "distinct (head # xs @ ys)" using assms(1) by (simp add: ring_def)
  have full: "head # (xs @ ys) @ [head] = us @ p # q # vs"
    using up qv by (metis append_Cons append_assoc append_Nil)
  have "set (butlast (q # vs)) = set ys" "set (tl (us @ [p])) = set xs"
    by (simp_all flip: up qv)
  moreover have "p \<in> set (head # xs)" "q \<in> set (ys @ [head])" using up qv by simp_all
  moreover have "distinct (us @ [p])" "distinct (q # vs)" using d by (auto simp flip: up qv)
  ultimately have "links (list_add_between n p q h) (us @ p # n # q # vs)"
    using assms d by (intro links_insert) (auto simp: ring_def simp flip: full)
  moreover have "head # (xs @ n # ys) @ [head] = us @ p # n # q # vs"
    using up qv by (metis append_Cons append_assoc append_Nil)
  ultimately show ?thesis
    unfolding ring_def p_def [symmetric] q_def [symmetric]
    using assms(2) d by (auto simp del: last.simps)
qed

lemma ring_unlink:
  assumes "ring h head (xs @ n # ys)"
  shows "ring (list_unlink (prv (h n)) (nxt (h n)) h) head (xs @ ys)"
    and "prv (h n) = last (head # xs)" and "nxt (h n) = hd (ys @ [head])"
proof -
  define us p q vs where "us = butlast (head # xs)" and "p = last (head # xs)"
    and "q = hd (ys @ [head])" and "vs = tl (ys @ [head])"
  have up: "head # xs = us @ [p]" and qv: "ys @ [head] = q # vs"
    by (auto simp: us_def p_def q_def vs_def)
  have d: "distinct (head # xs @ n # ys)" using assms by (simp add: ring_def)
  have full: "head # (xs @ n # ys) @ [head] = us @ p # n # q # vs"
    using up qv by (metis append_Cons append_assoc append_Nil)
  have l: "links h (us @ p # n # q # vs)"
    using assms by (simp add: ring_def flip: full)
  then show pn: "prv (h n) = last (head # xs)" "nxt (h n) = hd (ys @ [head])"
    unfolding p_def [symmetric] q_def [symmetric] by (auto simp: links_append)
  have "set (butlast (q # vs)) = set ys" "set (tl (us @ [p])) = set xs"
    by (simp_all flip: up qv)
  moreover have "p \<in> set (head # xs)" "q \<in> set (ys @ [head])" using up qv by simp_all
  moreover have "distinct (us @ [p])" "distinct (q # vs)" using d by (auto simp flip: up qv)
  moreover have "set (us @ p # q # vs) = set (head # xs) \<union> set (ys @ [head])"
    unfolding up qv by auto
  ultimately have "links (list_unlink p q h) (us @ p # q # vs)"
    using l d by (intro links_unlink) auto
  moreover have "head # (xs @ ys) @ [head] = us @ p # q # vs"
    using up qv by (metis append_Cons append_assoc append_Nil)
  ultimately show "ring (list_unlink (prv (h n)) (nxt (h n)) h) head (xs @ ys)"
    unfolding ring_def pn p_def [symmetric] q_def [symmetric]
    using d by (auto simp del: last.simps)
qed

section \<open>The operations as list operations\<close>

lemma ring_INIT_LIST_HEAD [absfn]: "ring (INIT_LIST_HEAD head h) head []"
  by (simp add: ring_empty_iff INIT_LIST_HEAD_def)

lemma ring_list_add [absfn]:
  "ring h head xs \<Longrightarrow> n \<notin> set (head # xs) \<Longrightarrow> ring (list_add n head h) head (n # xs)"
  using ring_insert [of h head "[]" xs n] by (simp add: list_add_def ring_nxt_head)

lemma ring_list_add_tail [absfn]:
  "ring h head xs \<Longrightarrow> n \<notin> set (head # xs) \<Longrightarrow> ring (list_add_tail n head h) head (xs @ [n])"
  using ring_insert [of h head xs "[]" n] by (simp add: list_add_tail_def ring_prv_head)

lemma list_empty_iff: "ring h head xs \<Longrightarrow> list_empty head h \<longleftrightarrow> xs = []"
  by (cases xs) (auto simp: list_empty_def ring_def)

lemma ring_remove1:
  assumes "ring h head xs" "n \<in> set xs"
  shows "ring (list_unlink (prv (h n)) (nxt (h n)) h) head (remove1 n xs)"
proof -
  obtain us vs where xs: "xs = us @ n # vs" "n \<notin> set us"
    using assms(2) by (auto dest: split_list_first)
  then have "remove1 n xs = us @ vs" by (simp add: remove1_append)
  then show ?thesis using ring_unlink(1) assms(1) xs by metis
qed

lemma ring_distinct: "ring h head xs \<Longrightarrow> distinct (head # xs)"
  by (simp add: ring_def)

lemma not_in_remove1: "ring h head xs \<Longrightarrow> n \<in> set xs \<Longrightarrow> n \<notin> set (head # remove1 n xs)"
  by (auto dest: ring_distinct)

lemma neighbours_in_ring:
  assumes "ring h head xs" "n \<in> set xs"
  shows "prv (h n) \<in> set (head # xs)" "nxt (h n) \<in> set (head # xs)"
proof -
  obtain us vs where xs: "xs = us @ n # vs" using assms(2) by (auto dest: split_list)
  have "last (head # us) \<in> set (head # us)" "hd (vs @ [head]) \<in> set (vs @ [head])"
    by (rule last_in_set, simp, cases vs) auto
  then show "prv (h n) \<in> set (head # xs)" "nxt (h n) \<in> set (head # xs)"
    using ring_unlink(2,3) [of h head us n vs] assms(1) unfolding xs by auto
qed

text \<open>An operation on one ring writes only its own nodes.\<close>

lemma list_unlink_other: "q \<notin> {p, n} \<Longrightarrow> list_unlink p n h q = h q"
  by (simp add: list_unlink_def)

lemma INIT_other: "q \<noteq> p \<Longrightarrow> INIT_LIST_HEAD p h q = h q"
  by (simp add: INIT_LIST_HEAD_def)

lemma list_add_between_other: "q \<notin> {n, p, r} \<Longrightarrow> list_add_between n p r h q = h q"
  by (simp add: list_add_between_def Let_def)

lemma list_del_init_other:
  assumes "ring h head xs" "n \<in> set xs" "q \<notin> set (head # xs)"
  shows "list_del_init n h q = h q"
proof -
  have "q \<noteq> n" "q \<noteq> prv (h n)" "q \<noteq> nxt (h n)"
    using neighbours_in_ring [OF assms(1,2)] assms(2,3) by (metis list.set_intros(2))+
  then show ?thesis by (simp add: list_del_init_def INIT_other list_unlink_other)
qed

lemma list_add_tail_other:
  assumes "ring h head xs" "q \<notin> set (n # head # xs)"
  shows "list_add_tail n head h q = h q"
proof -
  have "last (head # xs) \<in> set (head # xs)" by (rule last_in_set) simp
  then have "q \<noteq> prv (h head)" using assms by (metis ring_prv_head list.set_intros(2))
  then show ?thesis using assms by (simp add: list_add_tail_def list_add_between_other)
qed

lemma ring_list_del_init [absfn]:
  assumes "ring h head xs" "n \<in> set xs"
  shows "ring (list_del_init n h) head (remove1 n xs)" and "ring (list_del_init n h) n []"
proof -
  have "q \<noteq> n" if "q \<in> set (head # remove1 n xs)" for q
    using that not_in_remove1 [OF assms] by metis
  then show "ring (list_del_init n h) head (remove1 n xs)"
    using ring_remove1 [OF assms] by (auto simp: list_del_init_def INIT_other elim!: ring_frame)
  show "ring (list_del_init n h) n []"
    by (simp add: list_del_init_def ring_INIT_LIST_HEAD)
qed

lemma ring_list_del [absfn]:
  assumes "ring h head xs" "n \<in> set xs"
  shows "ring (list_del n h) head (remove1 n xs)"
proof -
  have "q \<noteq> n" if "q \<in> set (head # remove1 n xs)" for q
    using that not_in_remove1 [OF assms] by metis
  then show ?thesis
    using ring_remove1 [OF assms] by (auto simp: list_del_def Let_def elim!: ring_frame)
qed

lemma ring_list_move_tail [absfn]:
  "ring h head xs \<Longrightarrow> n \<in> set xs \<Longrightarrow> ring (list_move_tail n head h) head (remove1 n xs @ [n])"
  unfolding list_move_tail_def
  by (rule ring_list_add_tail) (use ring_remove1 not_in_remove1 in blast)+

lemma ring_list_move [absfn]:
  "ring h head xs \<Longrightarrow> n \<in> set xs \<Longrightarrow> ring (list_move n head h) head (n # remove1 n xs)"
  unfolding list_move_def
  by (rule ring_list_add) (use ring_remove1 not_in_remove1 in blast)+

text \<open>Moving an entry to the tail of another list.\<close>

lemma ring_list_move_tail_other [absfn]:
  assumes "ring h a xs" "n \<in> set xs" "ring h b ys" "set (a # xs) \<inter> set (b # ys) = {}"
  shows "ring (list_move_tail n b h) a (remove1 n xs)"
    and "ring (list_move_tail n b h) b (ys @ [n])"
proof -
  let ?h = "list_unlink (prv (h n)) (nxt (h n)) h"
  have "?h q = h q" if "q \<in> set (b # ys)" for q
    using neighbours_in_ring [OF assms(1,2)] that assms(4) by (intro list_unlink_other) auto
  then have b: "ring ?h b ys" using assms(3) by (rule ring_frame [rotated]) auto
  moreover have "n \<notin> set (b # ys)" using assms(2,4) by auto
  ultimately show "ring (list_move_tail n b h) b (ys @ [n])"
    unfolding list_move_tail_def by (rule ring_list_add_tail)
  have "list_add_tail n b ?h q = ?h q" if "q \<in> set (a # remove1 n xs)" for q
  proof (rule list_add_tail_other [OF b])
    have "q \<noteq> n" using that not_in_remove1 [OF assms(1,2)] by metis
    then show "q \<notin> set (n # b # ys)"
      using that assms(4) set_remove1_subset [of n xs] by auto
  qed
  with ring_remove1 [OF assms(1,2)] show "ring (list_move_tail n b h) a (remove1 n xs)"
    unfolding list_move_tail_def by (rule ring_frame)
qed

text \<open>Splicing: the entries of the first list end up, in order, before those of the second.\<close>

lemma links_join: "links h (us @ [p]) \<Longrightarrow> links h (q # vs) \<Longrightarrow> nxt (h p) = q \<Longrightarrow> prv (h q) = p \<Longrightarrow>
  links h (us @ p # q # vs)"
  by (simp add: links_append)

lemma ring_list_splice [absfn]:
  assumes "ring h a xs" "ring h b ys" "set (a # xs) \<inter> set (b # ys) = {}"
  shows "ring (list_splice a b h) a []" and "ring (list_splice a b h) b (xs @ ys)"
proof -
  show "ring (list_splice a b h) a []"
    using assms(1) list_empty_iff [OF assms(1)]
    by (auto simp: list_splice_def ring_INIT_LIST_HEAD)
  show "ring (list_splice a b h) b (xs @ ys)"
  proof (cases xs rule: rev_cases)
    case Nil
    then show ?thesis using assms list_empty_iff [OF assms(1)] by (simp add: list_splice_def)
  next
    case (snoc us l)
    define f t where "f = hd (us @ [l])" and "t = tl (us @ [l])"
    define q vs where "q = hd (ys @ [b])" and "vs = tl (ys @ [b])"
    have ft: "us @ [l] = f # t" and qv: "ys @ [b] = q # vs"
      by (simp_all add: f_def t_def q_def vs_def)
    let ?h = "list_splice a b h"
    have raw: "?h = INIT_LIST_HEAD a (list_splice_raw a b h)"
      using list_empty_iff [OF assms(1)] snoc by (simp add: list_splice_def)
    have nx: "nxt (h a) = f" "prv (h a) = l" "nxt (h b) = q"
      using assms(1,2) snoc by (auto simp: ring_nxt_head ring_prv_head f_def q_def hd_append)
    have d: "distinct (a # us @ [l])" "distinct (b # ys)" using assms snoc by (auto simp: ring_def)
    have lx: "links h (us @ [l])"
      using assms(1) snoc links_append [of h "a # us" l a "[]"]
      by (cases us) (auto simp: ring_def)
    have ly: "links h (q # vs)"
      using assms(2) qv by (cases ys) (auto simp: ring_def)
    have mem: "set (f # t) = set xs" "set (q # vs) = set (b # ys)"
      using snoc by (auto simp flip: ft qv)
    have fb: "set (butlast (us @ [l])) = set us" "set (tl (us @ [l])) = set t"
      "set (butlast (q # vs)) = set ys" by (auto simp: t_def simp flip: qv)
    have df: "distinct (f # t)" "distinct (q # vs)" using d by (auto simp flip: ft qv)
    have inx: "l \<in> set xs" "f \<in> set xs" "q \<in> set (b # ys)" using mem snoc by auto
    have "links ?h (us @ [l])"
      using lx by (rule links_frame)
        (use d df inx mem fb assms(3) snoc in
          \<open>auto simp: raw list_splice_raw_def Let_def nx INIT_LIST_HEAD_def\<close>)
    moreover have "links ?h (q # vs)"
      using ly by (rule links_frame)
        (use d df inx mem fb assms(3) snoc in
          \<open>auto simp: raw list_splice_raw_def Let_def nx INIT_LIST_HEAD_def\<close>)
    moreover have "nxt (?h l) = q" "prv (?h q) = l" "nxt (?h b) = f" "prv (?h f) = b"
      using d df inx mem assms(3) snoc
      by (auto simp: raw list_splice_raw_def Let_def nx INIT_LIST_HEAD_def)
    ultimately have "links ?h (us @ l # q # vs)" "nxt (?h b) = f" "prv (?h f) = b"
      by (simp_all add: links_join)
    moreover have "us @ l # q # vs = f # t @ ys @ [b]"
      using ft qv by (metis append_Cons append_assoc append_Nil)
    ultimately have "links ?h (b # f # t @ ys @ [b])" by simp
    moreover have "xs @ ys = f # t @ ys" using snoc ft by simp
    ultimately show ?thesis
      using d assms(3) snoc by (auto simp: ring_def)
  qed
qed

text \<open>The loops visit the entries, each once and in order, and stop.\<close>

lemma walk_each_links:
  "links h (p # zs @ [head]) \<Longrightarrow> head \<notin> set (p # zs) \<Longrightarrow> length zs + 1 < n \<Longrightarrow>
   walk_each n p head h = Some (p # zs)"
proof (induction zs arbitrary: p n)
  case Nil
  then obtain m where "n = Suc (Suc m)" by (auto simp: less_iff_Suc_add)
  with Nil show ?case by simp
next
  case (Cons z zs)
  then obtain m where "n = Suc m" by (cases n) auto
  with Cons show ?case by simp
qed

theorem walk_each_ring:
  "ring h head xs \<Longrightarrow> length xs < n \<Longrightarrow> walk_each n (nxt (h head)) head h = Some xs"
proof (cases xs)
  case Nil
  then show "ring h head xs \<Longrightarrow> length xs < n \<Longrightarrow> ?thesis"
    by (cases n) (auto simp: ring_def)
next
  case (Cons x zs)
  then show "ring h head xs \<Longrightarrow> length xs < n \<Longrightarrow> ?thesis"
    by (auto simp: ring_def intro!: walk_each_links)
qed

section \<open>Programs over a list\<close>

datatype list_cmd = AddHead addr | AddTail addr | Del addr | DelInit addr | MoveHead addr | MoveTail addr

fun list_exec :: "addr \<Rightarrow> list_cmd \<Rightarrow> mem \<Rightarrow> mem" where
  "list_exec head (AddHead n) h = list_add n head h"
| "list_exec head (AddTail n) h = list_add_tail n head h"
| "list_exec head (Del n) h = list_del n h"
| "list_exec head (DelInit n) h = list_del_init n h"
| "list_exec head (MoveHead n) h = list_move n head h"
| "list_exec head (MoveTail n) h = list_move_tail n head h"

fun cmd_ok :: "addr \<Rightarrow> list_cmd \<Rightarrow> addr list \<Rightarrow> bool" where
  "cmd_ok head (AddHead n) xs = (n \<notin> set (head # xs))"
| "cmd_ok head (AddTail n) xs = (n \<notin> set (head # xs))"
| "cmd_ok head (Del n) xs = (n \<in> set xs)"
| "cmd_ok head (DelInit n) xs = (n \<in> set xs)"
| "cmd_ok head (MoveHead n) xs = (n \<in> set xs)"
| "cmd_ok head (MoveTail n) xs = (n \<in> set xs)"

fun cmd_list :: "list_cmd \<Rightarrow> addr list \<Rightarrow> addr list" where
  "cmd_list (AddHead n) xs = n # xs"
| "cmd_list (AddTail n) xs = xs @ [n]"
| "cmd_list (Del n) xs = remove1 n xs"
| "cmd_list (DelInit n) xs = remove1 n xs"
| "cmd_list (MoveHead n) xs = n # remove1 n xs"
| "cmd_list (MoveTail n) xs = remove1 n xs @ [n]"

fun cmds_ok :: "addr \<Rightarrow> list_cmd list \<Rightarrow> addr list \<Rightarrow> bool" where
  "cmds_ok head [] xs = True"
| "cmds_ok head (c # cs) xs = (cmd_ok head c xs \<and> cmds_ok head cs (cmd_list c xs))"

lemma ring_list_exec: "ring h head xs \<Longrightarrow> cmd_ok head c xs \<Longrightarrow> ring (list_exec head c h) head (cmd_list c xs)"
  by (cases c) (auto simp: ring_list_add ring_list_add_tail ring_list_del ring_list_del_init
                           ring_list_move ring_list_move_tail)

lemma ring_list_execs:
  "ring h head xs \<Longrightarrow> cmds_ok head cs xs \<Longrightarrow>
   ring (fold (list_exec head) cs h) head (fold cmd_list cs xs)"
  by (induction cs arbitrary: h xs) (auto simp: ring_list_exec)

text \<open>C28. The pointer surgery of \<^verbatim>\<open>list.h\<close> is the list operation it stands for: after any sequence of
  insertions of detached nodes, deletions and moves, the heap holds exactly the list the same
  sequence of list operations gives, and the iteration macro visits its nodes in order and stops.\<close>

theorem list_ops_refine:
  assumes "ring h head xs" "cmds_ok head cs xs" "length (fold cmd_list cs xs) < n"
  shows "ring (fold (list_exec head) cs h) head (fold cmd_list cs xs) \<and>
    walk_each n (nxt (fold (list_exec head) cs h head)) head (fold (list_exec head) cs h) =
      Some (fold cmd_list cs xs)"
  using ring_list_execs [OF assms(1,2)] walk_each_ring assms(3) by simp

theorem list_ops_refine_witness:
  "ring (fold (list_exec 1) [AddHead 2, AddTail 3, MoveTail 2, DelInit 3] (INIT_LIST_HEAD 1 (\<lambda>_. \<lparr>nxt = 0, prv = 0\<rparr>)))
     1 [2]"
  using list_ops_refine [OF ring_INIT_LIST_HEAD, of 1 "[AddHead 2, AddTail 3, MoveTail 2, DelInit 3]" 2
      "\<lambda>_. \<lparr>nxt = 0, prv = 0\<rparr>"] by simp

text \<open>\<open>list_splice\<close> moves all entries of one list, in order, to the front of the other and leaves
  the first empty.\<close>

theorem list_splice_refines:
  assumes "ring h a xs" "ring h b ys" "set (a # xs) \<inter> set (b # ys) = {}"
  shows "ring (list_splice a b h) a [] \<and> ring (list_splice a b h) b (xs @ ys)"
  using ring_list_splice [OF assms] by blast

theorem list_splice_refines_witness:
  "ring (list_splice 1 2 (list_add 3 1 (INIT_LIST_HEAD 2 (INIT_LIST_HEAD 1 (\<lambda>_. \<lparr>nxt = 0, prv = 0\<rparr>))))) 2 [3]"
proof -
  let ?h = "INIT_LIST_HEAD 2 (INIT_LIST_HEAD 1 (\<lambda>_. \<lparr>nxt = 0, prv = 0\<rparr>))"
  have e: "ring ?h 1 []" "ring ?h 2 []"
    by (simp_all add: ring_empty_iff INIT_LIST_HEAD_def set_nxt_def set_prv_def)
  have "ring (list_add 3 1 ?h) 1 [3]" using ring_list_add [OF e(1), of 3] by simp
  moreover have "ring (list_add 3 1 ?h) 2 []"
    using e by (simp add: ring_empty_iff list_add_def list_add_between_def INIT_LIST_HEAD_def
        set_nxt_def set_prv_def Let_def)
  ultimately show ?thesis using list_splice_refines [of "list_add 3 1 ?h" 1 "[3]" 2 "[]"] by simp
qed

end
