(* ===== verification/Hlist.thy ===== *)
theory Hlist
  imports ListHead
begin

text \<open>
  The rest of \<^verbatim>\<open>src/src/utils/list.h\<close>: walks that are safe against the removal of the entry they are at, and
  the lists with a single pointer as their head. A node of those points back to the pointer that points to it,
  which is the head's or that of another node: a slot.
\<close>

section \<open>Safe walks\<close>

text \<open>\<open>walk_each_s\<close> and \<open>walk_each_entry_s\<close> with the body \<open>f\<close>: the entries visited, and the memory at the end. The next
  entry is read before the body runs.\<close>

fun walk_each_s :: "nat \<Rightarrow> (addr \<Rightarrow> mem \<Rightarrow> mem) \<Rightarrow> addr \<Rightarrow> addr \<Rightarrow> addr \<Rightarrow> mem \<Rightarrow> (addr list \<times> mem) option" where
  "walk_each_s 0 f pos n head h = None"
| "walk_each_s (Suc k) f pos n head h =
     (if pos = head then Some ([], h)
      else let h = f pos h
           in map_option (map_prod (Cons pos) id) (walk_each_s k f n (nxt (h n)) head h))"

definition walk_list_s :: "nat \<Rightarrow> (addr \<Rightarrow> mem \<Rightarrow> mem) \<Rightarrow> addr \<Rightarrow> mem \<Rightarrow> (addr list \<times> mem) option" where
  "walk_list_s k f head h = walk_each_s k f (nxt (h head)) (nxt (h (nxt (h head)))) head h"

definition unlink_if :: "(addr \<Rightarrow> bool) \<Rightarrow> addr \<Rightarrow> mem \<Rightarrow> mem" where
  "unlink_if P pos h = (if P pos then list_del_init pos h else h)"

lemma ring_next:
  assumes "ring h head (us @ x # vs)"
  shows "nxt (h x) = hd (vs @ [head])"
proof -
  have "links h ((head # us) @ x # vs @ [head])" using assms by (simp add: ring_def)
  then show ?thesis by (cases vs) (use links_append [of h "head # us" x] in \<open>auto simp del: links.simps(1), simp_all\<close>)
qed

lemma walk_each_s_ok:
  assumes "ring h head (us @ vs)" "length vs < k" "distinct (us @ vs)"
  shows "\<exists>h'. walk_each_s k (unlink_if P) (hd (vs @ [head])) (nxt (h (hd (vs @ [head])))) head h = Some (vs, h') \<and>
    ring h' head (us @ filter (\<lambda>x. \<not> P x) vs)"
  using assms
proof (induction vs arbitrary: us h k)
  case Nil
  then show ?case by (cases k) auto
next
  case (Cons x vs)
  from Cons.prems(2) obtain k' where k: "k = Suc k'" "length vs < k'" by (cases k) auto
  have nx: "nxt (h x) = hd (vs @ [head])" using Cons.prems(1) by (rule ring_next)
  have x: "x \<noteq> head" using ring_distinct [OF Cons.prems(1)] by auto
  let ?h = "unlink_if P x h" and ?us = "us @ (if P x then [] else [x])"
  have "remove1 x (us @ x # vs) = us @ vs" using Cons.prems(3) by (simp add: remove1_append)
  then have r: "ring ?h head (?us @ vs)"
    using Cons.prems(1) ring_list_del_init [OF Cons.prems(1), of x] by (auto simp: unlink_if_def)
  have "distinct (?us @ vs)" using Cons.prems(3) by auto
  from Cons.IH [OF r k(2) this] obtain h' where
    w: "walk_each_s k' (unlink_if P) (hd (vs @ [head])) (nxt (?h (hd (vs @ [head])))) head ?h = Some (vs, h')"
      "ring h' head (?us @ filter (\<lambda>x. \<not> P x) vs)" by blast
  then show ?case using x by (auto simp: k(1) nx Let_def)
qed

text \<open>A walk that unlinks some of the entries visits all of them, in order, and leaves the others.\<close>

lemma walk_list_s_ok:
  assumes "ring h head xs" "length xs < k"
  shows "\<exists>h'. walk_list_s k (unlink_if P) head h = Some (xs, h') \<and> ring h' head (filter (\<lambda>x. \<not> P x) xs)"
  using walk_each_s_ok [of h head "[]" xs k P] assms ring_nxt_head [OF assms(1)] ring_distinct [OF assms(1)]
  by (simp add: walk_list_s_def)

section \<open>Lists with a single pointer as head\<close>

datatype hslot = HFirst addr | HNext addr

record hlist_node =
  hnext :: "addr option"
  pprev :: "hslot option"

record hmem =
  hfirst :: "addr \<Rightarrow> addr option"
  hnode :: "addr \<Rightarrow> hlist_node"

definition HLIST_POISON1 :: addr where "HLIST_POISON1 = 0x00100100"
definition HLIST_POISON2 :: addr where "HLIST_POISON2 = 0x00200200"

fun read_slot :: "hslot \<Rightarrow> hmem \<Rightarrow> addr option" where
  "read_slot (HFirst a) h = hfirst h a"
| "read_slot (HNext a) h = hnext (hnode h a)"

fun write_slot :: "hslot \<Rightarrow> addr option \<Rightarrow> hmem \<Rightarrow> hmem" where
  "write_slot (HFirst a) v h = h\<lparr>hfirst := (hfirst h)(a := v)\<rparr>"
| "write_slot (HNext a) v h = h\<lparr>hnode := (hnode h)(a := (hnode h a)\<lparr>hnext := v\<rparr>)\<rparr>"

definition set_pprev :: "addr \<Rightarrow> hslot option \<Rightarrow> hmem \<Rightarrow> hmem" where
  "set_pprev a s h = h\<lparr>hnode := (hnode h)(a := (hnode h a)\<lparr>pprev := s\<rparr>)\<rparr>"

definition INIT_HLIST_HEAD :: "addr \<Rightarrow> hmem \<Rightarrow> hmem" where
  "INIT_HLIST_HEAD ptr h = write_slot (HFirst ptr) None h"

definition INIT_HLIST_NODE :: "addr \<Rightarrow> hmem \<Rightarrow> hmem" where
  "INIT_HLIST_NODE ptr h = set_pprev ptr None (write_slot (HNext ptr) None h)"

definition hlist_unhashed :: "addr \<Rightarrow> hmem \<Rightarrow> bool" where
  "hlist_unhashed node h \<longleftrightarrow> pprev (hnode h node) = None"

definition hlist_empty :: "addr \<Rightarrow> hmem \<Rightarrow> bool" where
  "hlist_empty head h \<longleftrightarrow> hfirst h head = None"

text \<open>\<open>__hlist_del\<close>; writing through a null pointer is undefined.\<close>

definition hlist_unlink :: "addr \<Rightarrow> hmem \<Rightarrow> hmem cres" where
  "hlist_unlink node h =
     (case pprev (hnode h node) of
        None \<Rightarrow> Undef
      | Some pp \<Rightarrow>
          let nx = hnext (hnode h node);
              h = write_slot pp nx h
          in Ok (case nx of None \<Rightarrow> h | Some y \<Rightarrow> set_pprev y (Some pp) h))"

definition hlist_del :: "addr \<Rightarrow> hmem \<Rightarrow> hmem cres" where
  "hlist_del node h =
     cbind (hlist_unlink node h) (\<lambda>h.
       Ok (set_pprev node (Some (HNext HLIST_POISON2)) (write_slot (HNext node) (Some HLIST_POISON1) h)))"

definition hlist_del_init :: "addr \<Rightarrow> hmem \<Rightarrow> hmem cres" where
  "hlist_del_init node h =
     (if pprev (hnode h node) \<noteq> None then cbind (hlist_unlink node h) (\<lambda>h. Ok (INIT_HLIST_NODE node h)) else Ok h)"

definition hlist_add_head :: "addr \<Rightarrow> addr \<Rightarrow> hmem \<Rightarrow> hmem" where
  "hlist_add_head node head h =
     (let frst = hfirst h head;
          h = write_slot (HNext node) frst h;
          h = (case frst of None \<Rightarrow> h | Some y \<Rightarrow> set_pprev y (Some (HNext node)) h);
          h = write_slot (HFirst head) (Some node) h
      in set_pprev node (Some (HFirst head)) h)"

definition hlist_add_before :: "addr \<Rightarrow> addr \<Rightarrow> hmem \<Rightarrow> hmem cres" where
  "hlist_add_before node nx h =
     (let h = set_pprev node (pprev (hnode h nx)) h;
          h = write_slot (HNext node) (Some nx) h;
          h = set_pprev nx (Some (HNext node)) h
      in case pprev (hnode h node) of None \<Rightarrow> Undef | Some pp \<Rightarrow> Ok (write_slot pp (Some node) h))"

definition hlist_add_after :: "addr \<Rightarrow> addr \<Rightarrow> hmem \<Rightarrow> hmem" where
  "hlist_add_after node prev h =
     (let h = write_slot (HNext node) (hnext (hnode h prev)) h;
          h = (case hnext (hnode h node) of None \<Rightarrow> h | Some y \<Rightarrow> set_pprev y (Some (HNext node)) h);
          h = set_pprev node (Some (HNext prev)) h
      in write_slot (HNext prev) (Some node) h)"

text \<open>\<open>hwalk_each\<close>: the nodes visited.\<close>

fun hwalk_each :: "nat \<Rightarrow> addr option \<Rightarrow> hmem \<Rightarrow> addr list option" where
  "hwalk_each 0 pos h = None"
| "hwalk_each (Suc n) pos h =
     (case pos of None \<Rightarrow> Some [] | Some a \<Rightarrow> map_option (Cons a) (hwalk_each n (hnext (hnode h a)) h))"

section \<open>The list of a head\<close>

fun hseg :: "hmem \<Rightarrow> hslot \<Rightarrow> addr list \<Rightarrow> bool" where
  "hseg h s [] \<longleftrightarrow> True"
| "hseg h s (x # xs) \<longleftrightarrow> read_slot s h = Some x \<and> pprev (hnode h x) = Some s \<and> hseg h (HNext x) xs"

fun end_slot :: "hslot \<Rightarrow> addr list \<Rightarrow> hslot" where
  "end_slot s [] = s"
| "end_slot s (x # xs) = end_slot (HNext x) xs"

definition hring :: "hmem \<Rightarrow> addr \<Rightarrow> addr list \<Rightarrow> bool" where
  "hring h head xs \<longleftrightarrow> hseg h (HFirst head) xs \<and> read_slot (end_slot (HFirst head) xs) h = None \<and> distinct xs"

lemma hseg_append: "hseg h s (us @ vs) \<longleftrightarrow> hseg h s us \<and> hseg h (end_slot s us) vs"
  by (induction us arbitrary: s) auto

lemma end_slot_append [simp]: "end_slot s (us @ vs) = end_slot (end_slot s us) vs"
  by (induction us arbitrary: s) auto

lemma end_slot_cases: "us = [] \<and> end_slot s us = s \<or> (\<exists>x\<in>set us. end_slot s us = HNext x)"
proof (induction us arbitrary: s)
  case (Cons x xs)
  show ?case using Cons.IH [of "HNext x"] by auto
qed simp

lemma hseg_frame:
  "hseg h s xs \<Longrightarrow> read_slot s h' = read_slot s h \<Longrightarrow> (\<And>x. x \<in> set xs \<Longrightarrow> hnode h' x = hnode h x) \<Longrightarrow> hseg h' s xs"
proof (induction xs arbitrary: s)
  case (Cons x xs)
  have "hseg h' (HNext x) xs" by (rule Cons.IH) (use Cons.prems in auto)
  with Cons.prems show ?case by auto
qed simp

lemma slot_simps [simp]:
  "read_slot s (write_slot s' v h) = (if s = s' then v else read_slot s h)"
  "read_slot s (set_pprev a p h) = read_slot s h"
  "pprev (hnode (write_slot s' v h) x) = pprev (hnode h x)"
  "pprev (hnode (set_pprev a p h) x) = (if x = a then p else pprev (hnode h x))"
  by (cases s; cases s'; auto simp: set_pprev_def)+

text \<open>Segments by what their slots and nodes say.\<close>

lemma hseg_cong:
  "(\<And>t. t \<in> insert s (HNext ` set (butlast xs)) \<Longrightarrow> read_slot t h' = read_slot t h) \<Longrightarrow>
   (\<And>x. x \<in> set xs \<Longrightarrow> pprev (hnode h' x) = pprev (hnode h x)) \<Longrightarrow> hseg h s xs \<Longrightarrow> hseg h' s xs"
proof (induction xs arbitrary: s)
  case (Cons x xs)
  have "hseg h' (HNext x) xs"
  proof (cases xs)
    case (Cons y ys)
    show ?thesis by (rule Cons.IH) (use Cons.prems Cons in auto)
  qed simp
  with Cons.prems show ?case by auto
qed simp

text \<open>Linking \<open>n\<close> behind a slot: what the three ways of adding a node do.\<close>

definition hlink :: "addr \<Rightarrow> hslot \<Rightarrow> hmem \<Rightarrow> hmem" where
  "hlink n s h =
     (let nx = read_slot s h;
          h = set_pprev n (Some s) (write_slot (HNext n) nx h);
          h = (case nx of None \<Rightarrow> h | Some y \<Rightarrow> set_pprev y (Some (HNext n)) h)
      in write_slot s (Some n) h)"

lemma hlink_slot:
  "s \<noteq> HNext n \<Longrightarrow> read_slot t (hlink n s h) = (if t = s then Some n else if t = HNext n then read_slot s h else read_slot t h)"
  by (auto simp: hlink_def Let_def simp del: read_slot.simps write_slot.simps split: option.split)

lemma hlink_pprev:
  "read_slot s h \<noteq> Some n \<Longrightarrow> pprev (hnode (hlink n s h) x) =
     (if x = n then Some s else if read_slot s h = Some x then Some (HNext n) else pprev (hnode h x))"
  by (auto simp: hlink_def Let_def simp del: read_slot.simps write_slot.simps split: option.split)

lemma hmem_eqI: "(\<And>t. read_slot t h = read_slot t h') \<Longrightarrow> (\<And>x. pprev (hnode h x) = pprev (hnode h' x)) \<Longrightarrow> h = h'" for h h' :: hmem
proof -
  assume s: "\<And>t. read_slot t h = read_slot t h'" and p: "\<And>x. pprev (hnode h x) = pprev (hnode h' x)"
  have "hfirst h x = hfirst h' x" "hnode h x = hnode h' x" for x using s [of "HFirst x"] s [of "HNext x"] p [of x] by simp_all
  then show ?thesis by (intro hmem.equality) auto
qed

lemmas hread = read_slot.simps [symmetric]

lemma hlist_add_head_link: "hfirst h head \<noteq> Some n \<Longrightarrow> hlist_add_head n head h = hlink n (HFirst head) h"
  unfolding hlist_add_head_def hlink_def Let_def hread
  by (rule hmem_eqI) (auto simp del: read_slot.simps write_slot.simps split: option.split)

lemma hlist_add_after_link:
  "hnext (hnode h p) \<noteq> Some n \<Longrightarrow> n \<noteq> p \<Longrightarrow> hlist_add_after n p h = hlink n (HNext p) h"
  unfolding hlist_add_after_def hlink_def Let_def hread
  by (rule hmem_eqI) (auto simp del: read_slot.simps write_slot.simps split: option.split)

lemma hlist_add_before_link:
  assumes "pprev (hnode h x) = Some s" "read_slot s h = Some x" "n \<noteq> x" "s \<noteq> HNext n"
  shows "hlist_add_before n x h = Ok (hlink n s h)"
proof -
  have "hlist_add_before n x h =
    Ok (write_slot s (Some n) (set_pprev x (Some (HNext n)) (write_slot (HNext n) (Some x) (set_pprev n (Some s) h))))"
    using assms by (simp add: hlist_add_before_def Let_def del: read_slot.simps write_slot.simps)
  also have "write_slot s (Some n) (set_pprev x (Some (HNext n)) (write_slot (HNext n) (Some x) (set_pprev n (Some s) h))) = hlink n s h"
    unfolding hlink_def Let_def using assms
    by (intro hmem_eqI) (auto simp del: read_slot.simps write_slot.simps)
  finally show ?thesis .
qed

lemma end_slot_fresh: "n \<notin> set us \<Longrightarrow> s \<noteq> HNext n \<Longrightarrow> end_slot s us \<noteq> HNext n"
  using end_slot_cases [of us s] by auto

lemma end_slot_inj:
  "distinct us \<Longrightarrow> t \<in> insert (HFirst head) (HNext ` set (butlast us)) \<Longrightarrow> us \<noteq> [] \<Longrightarrow> end_slot (HFirst head) us \<noteq> t"
proof -
  assume d: "distinct us" and t: "t \<in> insert (HFirst head) (HNext ` set (butlast us))" and ne: "us \<noteq> []"
  from ne obtain ws w where us: "us = ws @ [w]" by (cases us rule: rev_cases) auto
  then show ?thesis using d t by auto
qed

lemma hring_link:
  assumes r: "hring h head (us @ vs)" and n: "n \<notin> set (us @ vs)"
  shows "hring (hlink n (end_slot (HFirst head) us) h) head (us @ n # vs)"
proof -
  let ?s = "end_slot (HFirst head) us" and ?h = "hlink n (end_slot (HFirst head) us) h"
  have h: "hseg h (HFirst head) us" "hseg h ?s vs" "read_slot (end_slot ?s vs) h = None" "distinct (us @ vs)"
    using r by (auto simp: hring_def hseg_append)
  have s: "?s \<noteq> HNext n" using n by (intro end_slot_fresh) auto
  note s' = s [symmetric]
  have nx: "read_slot ?s h = (case vs of [] \<Rightarrow> None | y # _ \<Rightarrow> Some y)" using h(2,3) by (cases vs) auto
  then have nn: "read_slot ?s h \<noteq> Some n" using n by (auto split: list.splits)
  have us: "hseg ?h (HFirst head) us"
  proof (cases "us = []")
    case False
    show ?thesis
    proof (rule hseg_cong [OF _ _ h(1)])
      fix t assume t: "t \<in> insert (HFirst head) (HNext ` set (butlast us))"
      have "t \<noteq> ?s" using end_slot_inj [OF _ t False] h(4) by auto
      moreover have "t \<noteq> HNext n" using t n by (auto dest: in_set_butlastD)
      ultimately show "read_slot t ?h = read_slot t h" by (simp add: hlink_slot [OF s])
    next
      fix x assume "x \<in> set us"
      then show "pprev (hnode ?h x) = pprev (hnode h x)" using n nx h(4) by (auto simp: hlink_pprev [OF nn] split: list.splits)
    qed
  qed simp
  have slot: "read_slot (HNext x) ?h = read_slot (HNext x) h" if "x \<in> set vs" for x
    using that n h(4) end_slot_cases [of us "HFirst head"] by (auto simp: hlink_slot [OF s] simp del: read_slot.simps)
  have vs: "hseg ?h (HNext n) vs \<and> read_slot (end_slot (HNext n) vs) ?h = None"
  proof (cases vs)
    case Nil
    then show ?thesis using h(3) s' by (simp add: hlink_slot [OF s] del: read_slot.simps)
  next
    case (Cons y ys)
    have y: "read_slot ?s h = Some y" "hseg h (HNext y) ys" using h(2) Cons by simp_all
    have "hseg ?h (HNext y) ys"
    proof (rule hseg_cong [OF _ _ y(2)])
      show "read_slot t ?h = read_slot t h" if "t \<in> insert (HNext y) (HNext ` set (butlast ys))" for t
        using that slot Cons by (auto dest: in_set_butlastD simp del: read_slot.simps)
      show "pprev (hnode ?h x) = pprev (hnode h x)" if "x \<in> set ys" for x
        using that n h(4) Cons y(1) by (auto simp: hlink_pprev [OF nn])
    qed
    moreover have "read_slot (end_slot (HNext y) ys) ?h = None"
      using end_slot_cases [of ys "HNext y"] slot h(3) Cons by (auto simp del: read_slot.simps)
    ultimately show ?thesis using Cons y(1) n s' by (simp add: hlink_slot [OF s] hlink_pprev [OF nn] del: read_slot.simps)
  qed
  have "hseg ?h ?s [n]" using s s' by (simp add: hlink_slot [OF s] hlink_pprev [OF nn] del: read_slot.simps)
  then show ?thesis using us vs n h(4) by (simp add: hring_def hseg_append)
qed

lemma hring_cong:
  assumes "hring h head xs" "\<And>t. t \<in> insert (HFirst head) (HNext ` set xs) \<Longrightarrow> read_slot t h' = read_slot t h"
    "\<And>x. x \<in> set xs \<Longrightarrow> pprev (hnode h' x) = pprev (hnode h x)"
  shows "hring h' head xs"
proof -
  have "hseg h' (HFirst head) xs"
    by (rule hseg_cong [of _ _ h' h]) (use assms in \<open>auto simp: hring_def dest: in_set_butlastD simp del: read_slot.simps\<close>)
  moreover have "read_slot (end_slot (HFirst head) xs) h' = None"
    using end_slot_cases [of xs "HFirst head"] assms(1,2) by (auto simp: hring_def simp del: read_slot.simps)
  ultimately show ?thesis using assms(1) by (simp add: hring_def)
qed

lemma hring_unlink:
  assumes r: "hring h head (us @ n # vs)"
  shows "\<exists>h'. hlist_unlink n h = Ok h' \<and> hring h' head (us @ vs)"
proof -
  let ?s = "end_slot (HFirst head) us"
  have h: "hseg h (HFirst head) us" "read_slot ?s h = Some n" "pprev (hnode h n) = Some ?s" "hseg h (HNext n) vs"
    "read_slot (end_slot (HNext n) vs) h = None" "distinct (us @ n # vs)"
    using r by (auto simp: hring_def hseg_append)
  define h' where "h' = (case read_slot (HNext n) h of None \<Rightarrow> write_slot ?s (read_slot (HNext n) h) h
    | Some y \<Rightarrow> set_pprev y (Some ?s) (write_slot ?s (read_slot (HNext n) h) h))"
  have ok: "hlist_unlink n h = Ok h'" unfolding hlist_unlink_def hread h'_def by (simp add: h(3) Let_def del: read_slot.simps)
  have slot: "read_slot t h' = (if t = ?s then read_slot (HNext n) h else read_slot t h)" for t
    by (simp add: h'_def del: read_slot.simps write_slot.simps split: option.split)
  have pp: "pprev (hnode h' x) = (if read_slot (HNext n) h = Some x then Some ?s else pprev (hnode h x))" for x
    by (simp add: h'_def del: read_slot.simps write_slot.simps split: option.split)
  have nx: "read_slot (HNext n) h = (case vs of [] \<Rightarrow> None | y # _ \<Rightarrow> Some y)" using h(4,5) by (cases vs) auto
  have us: "hseg h' (HFirst head) us"
  proof (cases "us = []")
    case False
    show ?thesis
    proof (rule hseg_cong [OF _ _ h(1)])
      fix t assume t: "t \<in> insert (HFirst head) (HNext ` set (butlast us))"
      have "t \<noteq> ?s" using end_slot_inj [OF _ t False] h(6) by auto
      then show "read_slot t h' = read_slot t h" by (simp add: slot)
    next
      fix x assume "x \<in> set us"
      then show "pprev (hnode h' x) = pprev (hnode h x)" using nx h(6) by (auto simp: pp split: list.splits)
    qed
  qed simp
  have same: "read_slot (HNext x) h' = read_slot (HNext x) h" if "x \<in> set vs" for x
    using that h(6) end_slot_cases [of us "HFirst head"] by (auto simp: slot simp del: read_slot.simps)
  have "hseg h' ?s vs \<and> read_slot (end_slot ?s vs) h' = None"
  proof (cases vs)
    case Nil
    then show ?thesis using h(5) by (simp add: slot del: read_slot.simps)
  next
    case (Cons y ys)
    have y: "read_slot (HNext n) h = Some y" "hseg h (HNext y) ys" using h(4) Cons by simp_all
    have "hseg h' (HNext y) ys"
    proof (rule hseg_cong [OF _ _ y(2)])
      show "read_slot t h' = read_slot t h" if "t \<in> insert (HNext y) (HNext ` set (butlast ys))" for t
        using that same Cons by (auto dest: in_set_butlastD simp del: read_slot.simps)
      show "pprev (hnode h' x) = pprev (hnode h x)" if "x \<in> set ys" for x
        using that h(6) Cons y(1) by (auto simp: pp)
    qed
    moreover have "read_slot (end_slot (HNext y) ys) h' = None"
      using end_slot_cases [of ys "HNext y"] same h(5) Cons by (auto simp del: read_slot.simps)
    ultimately show ?thesis using Cons y(1) by (simp add: slot pp del: read_slot.simps)
  qed
  then have "hring h' head (us @ vs)" using us h(6) by (simp add: hring_def hseg_append)
  then show ?thesis using ok by blast
qed

text \<open>The operations on the list of a head.\<close>

lemma hring_add_head: "hring h head xs \<Longrightarrow> n \<notin> set xs \<Longrightarrow> hring (hlist_add_head n head h) head (n # xs)"
proof -
  assume r: "hring h head xs" and n: "n \<notin> set xs"
  have "hfirst h head \<noteq> Some n" using r n by (cases xs) (auto simp: hring_def)
  then show ?thesis using hring_link [of h head "[]" xs n] r n by (simp add: hlist_add_head_link)
qed

lemma hring_add_after:
  assumes r: "hring h head (us @ p # vs)" and n: "n \<notin> set (us @ p # vs)"
  shows "hring (hlist_add_after n p h) head (us @ p # n # vs)"
proof -
  have "hnext (hnode h p) \<noteq> Some n" using r n by (cases vs) (auto simp: hring_def hseg_append)
  then show ?thesis using hring_link [of h head "us @ [p]" vs n] r n by (auto simp: hlist_add_after_link)
qed

lemma hring_add_before:
  assumes r: "hring h head (us @ x # vs)" and n: "n \<notin> set (us @ x # vs)"
  shows "\<exists>h'. hlist_add_before n x h = Ok h' \<and> hring h' head (us @ n # x # vs)"
proof -
  let ?s = "end_slot (HFirst head) us"
  have "pprev (hnode h x) = Some ?s" "read_slot ?s h = Some x" using r by (auto simp: hring_def hseg_append)
  moreover have "?s \<noteq> HNext n" using n by (intro end_slot_fresh) auto
  ultimately have "hlist_add_before n x h = Ok (hlink n ?s h)" using n by (intro hlist_add_before_link) auto
  then show ?thesis using hring_link [of h head us "x # vs" n] r n by auto
qed

lemma hring_node_out: "hring h head xs \<Longrightarrow> n \<notin> set xs \<Longrightarrow> hring (set_pprev n p (write_slot (HNext n) v h)) head xs"
  by (rule hring_cong) (auto simp del: read_slot.simps write_slot.simps)

lemma hring_del:
  assumes r: "hring h head (us @ n # vs)"
  shows "\<exists>h'. hlist_del n h = Ok h' \<and> hring h' head (us @ vs)"
    "\<exists>h'. hlist_del_init n h = Ok h' \<and> hring h' head (us @ vs) \<and> hlist_unhashed n h'"
proof -
  from hring_unlink [OF r] obtain h' where h': "hlist_unlink n h = Ok h'" "hring h' head (us @ vs)" by blast
  have n: "n \<notin> set (us @ vs)" "pprev (hnode h n) \<noteq> None" using r by (auto simp: hring_def hseg_append)
  show "\<exists>h'. hlist_del n h = Ok h' \<and> hring h' head (us @ vs)"
    using h' hring_node_out [OF h'(2) n(1)] by (simp add: hlist_del_def del: write_slot.simps)
  show "\<exists>h'. hlist_del_init n h = Ok h' \<and> hring h' head (us @ vs) \<and> hlist_unhashed n h'"
    using h' n(2) hring_node_out [OF h'(2) n(1)]
    by (simp add: hlist_del_init_def INIT_HLIST_NODE_def hlist_unhashed_def del: write_slot.simps)
qed

lemma hwalk_seg: "hseg h s xs \<Longrightarrow> read_slot (end_slot s xs) h = None \<Longrightarrow> length xs < k \<Longrightarrow> hwalk_each k (read_slot s h) h = Some xs"
proof (induction xs arbitrary: s k)
  case (Cons x xs)
  then obtain k' where "k = Suc k'" by (cases k) auto
  then show ?case using Cons.IH [of "HNext x" k'] Cons.prems by simp
qed (simp add: gr0_conv_Suc, auto)

section \<open>Properties\<close>

text \<open>Uses of a list, in memory and on the list of its nodes.\<close>

datatype hcmd = HAddHead addr | HAddBefore addr addr | HAddAfter addr addr | HDel addr | HDelInit addr

fun hlist_exec :: "addr \<Rightarrow> hcmd \<Rightarrow> hmem \<Rightarrow> hmem cres" where
  "hlist_exec head (HAddHead n) h = Ok (hlist_add_head n head h)"
| "hlist_exec head (HAddBefore n x) h = hlist_add_before n x h"
| "hlist_exec head (HAddAfter n x) h = Ok (hlist_add_after n x h)"
| "hlist_exec head (HDel n) h = hlist_del n h"
| "hlist_exec head (HDelInit n) h = hlist_del_init n h"

fun hlist_execs :: "addr \<Rightarrow> hcmd list \<Rightarrow> hmem \<Rightarrow> hmem cres" where
  "hlist_execs head [] h = Ok h"
| "hlist_execs head (c # cs) h = cbind (hlist_exec head c h) (hlist_execs head cs)"

fun hcmd_ok :: "hcmd \<Rightarrow> addr list \<Rightarrow> bool" where
  "hcmd_ok (HAddHead n) xs \<longleftrightarrow> n \<notin> set xs"
| "hcmd_ok (HAddBefore n x) xs \<longleftrightarrow> n \<notin> set xs \<and> x \<in> set xs"
| "hcmd_ok (HAddAfter n x) xs \<longleftrightarrow> n \<notin> set xs \<and> x \<in> set xs"
| "hcmd_ok (HDel n) xs \<longleftrightarrow> n \<in> set xs"
| "hcmd_ok (HDelInit n) xs \<longleftrightarrow> n \<in> set xs"

fun hcmd_list :: "hcmd \<Rightarrow> addr list \<Rightarrow> addr list" where
  "hcmd_list (HAddHead n) xs = n # xs"
| "hcmd_list (HAddBefore n x) xs = concat (map (\<lambda>y. if y = x then [n, y] else [y]) xs)"
| "hcmd_list (HAddAfter n x) xs = concat (map (\<lambda>y. if y = x then [y, n] else [y]) xs)"
| "hcmd_list (HDel n) xs = remove1 n xs"
| "hcmd_list (HDelInit n) xs = remove1 n xs"

fun hcmds_ok :: "hcmd list \<Rightarrow> addr list \<Rightarrow> bool" where
  "hcmds_ok [] xs \<longleftrightarrow> True"
| "hcmds_ok (c # cs) xs \<longleftrightarrow> hcmd_ok c xs \<and> hcmds_ok cs (hcmd_list c xs)"

lemma concat_once:
  "distinct (us @ x # vs) \<Longrightarrow> concat (map (\<lambda>y. if y = x then zs else [y]) (us @ x # vs)) = us @ zs @ vs"
proof -
  have "concat (map (\<lambda>y. if y = x then zs else [y]) ws) = ws" if "x \<notin> set ws" for ws
    using that by (induction ws) auto
  then show "distinct (us @ x # vs) \<Longrightarrow> ?thesis" by simp
qed

lemma hlist_exec_ok:
  assumes "hring h head xs" "hcmd_ok c xs"
  shows "\<exists>h'. hlist_exec head c h = Ok h' \<and> hring h' head (hcmd_list c xs)"
proof -
  have d: "distinct xs" using assms(1) by (simp add: hring_def)
  have at: "\<exists>us vs. xs = us @ x # vs" if "x \<in> set xs" for x using that by (rule split_list)
  show ?thesis
  proof (cases c)
    case (HAddHead n)
    then show ?thesis using assms hring_add_head by simp
  next
    case (HAddBefore n x)
    then obtain us vs where xs: "xs = us @ x # vs" using assms(2) at [of x] by auto
    have "concat (map (\<lambda>y. if y = x then [n, y] else [y]) xs) = us @ n # x # vs"
      using concat_once [of us x vs "[n, x]"] d xs by (simp cong: if_cong)
    then show ?thesis using hring_add_before [of h head us x vs n] HAddBefore assms xs by simp
  next
    case (HAddAfter n x)
    then obtain us vs where xs: "xs = us @ x # vs" using assms(2) at [of x] by auto
    have "concat (map (\<lambda>y. if y = x then [y, n] else [y]) xs) = us @ x # n # vs"
      using concat_once [of us x vs "[x, n]"] d xs by (simp cong: if_cong)
    then show ?thesis using hring_add_after [of h head us x vs n] HAddAfter assms xs by simp
  next
    case (HDel n)
    then obtain us vs where xs: "xs = us @ n # vs" using assms(2) at [of n] by auto
    then show ?thesis using hring_del(1) [of h head us n vs] HDel assms d by (simp add: remove1_append)
  next
    case (HDelInit n)
    then obtain us vs where xs: "xs = us @ n # vs" using assms(2) at [of n] by auto
    then show ?thesis using hring_del(2) [of h head us n vs] HDelInit assms d by (auto simp: remove1_append)
  qed
qed

lemma hlist_execs_ok:
  "hring h head xs \<Longrightarrow> hcmds_ok cs xs \<Longrightarrow> \<exists>h'. hlist_execs head cs h = Ok h' \<and> hring h' head (fold hcmd_list cs xs)"
proof (induction cs arbitrary: h xs)
  case (Cons c cs)
  from hlist_exec_ok [OF Cons.prems(1), of c] Cons.prems(2) obtain h1 where
    h1: "hlist_exec head c h = Ok h1" "hring h1 head (hcmd_list c xs)" by auto
  from Cons.IH [OF h1(2)] Cons.prems(2) h1(1) show ?case by auto
qed simp

text \<open>C39. The lists with a single pointer as head, in memory, are lists: after any sequence of insertions of nodes that
  are not in the list and removals of nodes that are, from an initialised head, no null pointer was written through,
  and a walk over the list visits the nodes that the same insertions and removals leave on a list, in order; the
  head is empty when there are none.\<close>

theorem hlist_ops_refine:
  assumes "hcmds_ok cs []" "length (fold hcmd_list cs []) < k"
  shows "\<exists>h'. hlist_execs head cs (INIT_HLIST_HEAD head h) = Ok h' \<and>
    hwalk_each k (hfirst h' head) h' = Some (fold hcmd_list cs []) \<and>
    (hlist_empty head h' \<longleftrightarrow> fold hcmd_list cs [] = [])"
proof -
  have "hring (INIT_HLIST_HEAD head h) head []" by (simp add: hring_def INIT_HLIST_HEAD_def)
  from hlist_execs_ok [OF this assms(1)] obtain h' where
    r: "hlist_execs head cs (INIT_HLIST_HEAD head h) = Ok h'" "hring h' head (fold hcmd_list cs [])" by blast
  have "hwalk_each k (hfirst h' head) h' = Some (fold hcmd_list cs [])"
    using hwalk_seg [of h' "HFirst head"] r(2) assms(2) by (simp add: hring_def)
  moreover have "hlist_empty head h' \<longleftrightarrow> fold hcmd_list cs [] = []"
    using r(2) by (cases "fold hcmd_list cs []") (auto simp: hlist_empty_def hring_def)
  ultimately show ?thesis using r(1) by blast
qed

theorem hlist_ops_refine_witness:
  "\<exists>h'. hlist_execs 1 [HAddHead 10, HAddHead 11, HAddAfter 12 11, HAddBefore 13 11, HDelInit 11, HDel 10]
      (INIT_HLIST_HEAD 1 \<lparr>hfirst = (\<lambda>_. Some 99), hnode = (\<lambda>_. \<lparr>hnext = None, pprev = None\<rparr>)\<rparr>) = Ok h' \<and>
    hwalk_each 5 (hfirst h' 1) h' = Some [13, 12]"
  using hlist_ops_refine [of "[HAddHead 10, HAddHead 11, HAddAfter 12 11, HAddBefore 13 11, HDelInit 11, HDel 10]" 5 1
    "\<lparr>hfirst = (\<lambda>_. Some 99), hnode = (\<lambda>_. \<lparr>hnext = None, pprev = None\<rparr>)\<rparr>"]
  by (auto simp del: hlist_execs.simps)

end
