(* ===== verification/Crc16.thy ===== *)
theory Crc16
  imports Prelude
begin

text \<open>
  The table-driven checksum of \<^verbatim>\<open>src/src/utils/crc16.c\<close>: the table, the byte loop, and the
  proof that they compute the bit-serial CRC with the polynomial \<open>x^16 + x^12 + x^5 + 1\<close>.
\<close>

section \<open>The code\<close>

definition crc16table :: "u16 list" where
  "crc16table = [
     0x0000, 0x1021, 0x2042, 0x3063, 0x4084, 0x50a5, 0x60c6, 0x70e7,
     0x8108, 0x9129, 0xa14a, 0xb16b, 0xc18c, 0xd1ad, 0xe1ce, 0xf1ef,
     0x1231, 0x0210, 0x3273, 0x2252, 0x52b5, 0x4294, 0x72f7, 0x62d6,
     0x9339, 0x8318, 0xb37b, 0xa35a, 0xd3bd, 0xc39c, 0xf3ff, 0xe3de,
     0x2462, 0x3443, 0x0420, 0x1401, 0x64e6, 0x74c7, 0x44a4, 0x5485,
     0xa56a, 0xb54b, 0x8528, 0x9509, 0xe5ee, 0xf5cf, 0xc5ac, 0xd58d,
     0x3653, 0x2672, 0x1611, 0x0630, 0x76d7, 0x66f6, 0x5695, 0x46b4,
     0xb75b, 0xa77a, 0x9719, 0x8738, 0xf7df, 0xe7fe, 0xd79d, 0xc7bc,
     0x48c4, 0x58e5, 0x6886, 0x78a7, 0x0840, 0x1861, 0x2802, 0x3823,
     0xc9cc, 0xd9ed, 0xe98e, 0xf9af, 0x8948, 0x9969, 0xa90a, 0xb92b,
     0x5af5, 0x4ad4, 0x7ab7, 0x6a96, 0x1a71, 0x0a50, 0x3a33, 0x2a12,
     0xdbfd, 0xcbdc, 0xfbbf, 0xeb9e, 0x9b79, 0x8b58, 0xbb3b, 0xab1a,
     0x6ca6, 0x7c87, 0x4ce4, 0x5cc5, 0x2c22, 0x3c03, 0x0c60, 0x1c41,
     0xedae, 0xfd8f, 0xcdec, 0xddcd, 0xad2a, 0xbd0b, 0x8d68, 0x9d49,
     0x7e97, 0x6eb6, 0x5ed5, 0x4ef4, 0x3e13, 0x2e32, 0x1e51, 0x0e70,
     0xff9f, 0xefbe, 0xdfdd, 0xcffc, 0xbf1b, 0xaf3a, 0x9f59, 0x8f78,
     0x9188, 0x81a9, 0xb1ca, 0xa1eb, 0xd10c, 0xc12d, 0xf14e, 0xe16f,
     0x1080, 0x00a1, 0x30c2, 0x20e3, 0x5004, 0x4025, 0x7046, 0x6067,
     0x83b9, 0x9398, 0xa3fb, 0xb3da, 0xc33d, 0xd31c, 0xe37f, 0xf35e,
     0x02b1, 0x1290, 0x22f3, 0x32d2, 0x4235, 0x5214, 0x6277, 0x7256,
     0xb5ea, 0xa5cb, 0x95a8, 0x8589, 0xf56e, 0xe54f, 0xd52c, 0xc50d,
     0x34e2, 0x24c3, 0x14a0, 0x0481, 0x7466, 0x6447, 0x5424, 0x4405,
     0xa7db, 0xb7fa, 0x8799, 0x97b8, 0xe75f, 0xf77e, 0xc71d, 0xd73c,
     0x26d3, 0x36f2, 0x0691, 0x16b0, 0x6657, 0x7676, 0x4615, 0x5634,
     0xd94c, 0xc96d, 0xf90e, 0xe92f, 0x99c8, 0x89e9, 0xb98a, 0xa9ab,
     0x5844, 0x4865, 0x7806, 0x6827, 0x18c0, 0x08e1, 0x3882, 0x28a3,
     0xcb7d, 0xdb5c, 0xeb3f, 0xfb1e, 0x8bf9, 0x9bd8, 0xabbb, 0xbb9a,
     0x4a75, 0x5a54, 0x6a37, 0x7a16, 0x0af1, 0x1ad0, 0x2ab3, 0x3a92,
     0xfd2e, 0xed0f, 0xdd6c, 0xcd4d, 0xbdaa, 0xad8b, 0x9de8, 0x8dc9,
     0x7c26, 0x6c07, 0x5c64, 0x4c45, 0x3ca2, 0x2c83, 0x1ce0, 0x0cc1,
     0xef1f, 0xff3e, 0xcf5d, 0xdf7c, 0xaf9b, 0xbfba, 0x8fd9, 0x9ff8,
     0x6e17, 0x7e36, 0x4e55, 0x5e74, 0x2e93, 0x3eb2, 0x0ed1, 0x1ef0]"

text \<open>One round of the loop, and the loop. \<open>char\<close> may be signed; the mask makes the sign
  extension of the byte irrelevant.\<close>

definition crc16_round :: "u16 \<Rightarrow> byte \<Rightarrow> u16" where
  "crc16_round crc c =
     push_bit 8 crc XOR crc16table ! unat ((drop_bit 8 crc XOR scast c) AND 0x00FF)"

fun crc16_loop :: "u16 \<Rightarrow> byte list \<Rightarrow> u16" where
  "crc16_loop crc [] = crc"
| "crc16_loop crc (c # cs) = crc16_loop (crc16_round crc c) cs"

definition crc16 :: "byte list \<Rightarrow> u16" where
  "crc16 buf = crc16_loop 0 buf"

section \<open>The bit-serial reference\<close>

definition crc_bit :: "u16 \<Rightarrow> u16" where
  "crc_bit r = push_bit 1 r XOR (if bit r 15 then 0x1021 else 0)"

definition crc_byte :: "u16 \<Rightarrow> byte \<Rightarrow> u16" where
  "crc_byte r c = (crc_bit ^^ 8) (r XOR push_bit 8 (ucast c))"

definition crc_spec :: "byte list \<Rightarrow> u16" where
  "crc_spec buf = fold (\<lambda>c r. crc_byte r c) buf 0"

section \<open>Equivalence\<close>

lemma crc_bit_0 [simp]: "crc_bit 0 = 0"
  by (simp add: crc_bit_def)

lemma crc_bit_xor: "crc_bit (a XOR b) = crc_bit a XOR crc_bit b"
  by (auto simp: crc_bit_def push_bit_xor bit_simps ac_simps)

lemma crc_bits_xor: "(crc_bit ^^ n) (a XOR b) = (crc_bit ^^ n) a XOR (crc_bit ^^ n) b"
  by (induction n) (simp_all add: crc_bit_xor)

lemma crc_bit_step: "\<not> bit r 15 \<Longrightarrow> crc_bit r = push_bit (Suc 0) r"
  by (simp add: crc_bit_def)

lemma crc_bits_low:
  "n \<le> 8 \<Longrightarrow> (\<And>i. 8 \<le> i \<Longrightarrow> \<not> bit a i) \<Longrightarrow> (crc_bit ^^ n) a = push_bit n a"
proof (induction n)
  case (Suc n)
  then have "(crc_bit ^^ n) a = push_bit n a" by simp
  moreover have "\<not> bit (push_bit n a) 15" using Suc.prems by (simp add: bit_simps)
  ultimately show ?case by (simp add: crc_bit_step add.commute)
qed simp

lemma crc16table_length: "length crc16table = 256"
  by (simp add: crc16table_def)

lemma crc_bits_8:
  "(crc_bit ^^ 8) r = crc_bit (crc_bit (crc_bit (crc_bit (crc_bit (crc_bit (crc_bit (crc_bit r)))))))"
  by (simp add: numeral_eq_Suc)

fun table_ok :: "u16 \<Rightarrow> u16 list \<Rightarrow> bool" where
  "table_ok i [] = True"
| "table_ok i (t # ts) = ((crc_bit ^^ 8) (256 * i) = t \<and> table_ok (i + 1) ts)"

lemma table_ok_nth:
  "table_ok j ts \<Longrightarrow> i < length ts \<Longrightarrow> ts ! i = (crc_bit ^^ 8) (256 * (j + of_nat i))"
  by (induction ts arbitrary: i j) (auto simp: nth_Cons' ac_simps elim: less_SucE)

lemma crc16table_ok: "table_ok 0 crc16table"
  by (simp add: crc16table_def crc_bits_8 crc_bit_def)

lemma crc16table_nth:
  "i < 256 \<Longrightarrow> crc16table ! i = (crc_bit ^^ 8) (push_bit 8 (of_nat i))"
  using table_ok_nth [OF crc16table_ok, of i]
  by (simp add: crc16table_length push_bit_eq_mult mult.commute)

lemma byte_mask: "(0x00FF :: u16) = mask 8"
  by (simp add: mask_eq_exp_minus_1)

lemma crc16_round_byte: "crc16_round r c = crc_byte r c"
proof -
  let ?i = "(drop_bit 8 r XOR scast c) AND mask 8 :: u16"
  have "?i < 2 ^ 8" by (rule and_mask_less') simp
  then have i: "unat ?i < 256" by (simp add: word_less_nat_alt)
  have split: "r XOR push_bit 8 (ucast c) = (r AND mask 8) XOR push_bit 8 ?i"
    by (rule bit_word_eqI) (auto simp: bit_simps)
  have "(crc_bit ^^ 8) (r AND mask 8) = push_bit 8 (r AND mask 8)"
    by (rule crc_bits_low) (auto simp: bit_simps)
  also have "\<dots> = push_bit 8 r"
    by (rule bit_word_eqI) (auto simp: bit_simps)
  finally have low: "(crc_bit ^^ 8) (r AND mask 8) = push_bit 8 r" .
  have "(crc_bit ^^ 8) (push_bit 8 ?i) = crc16table ! unat ?i"
    using crc16table_nth [OF i] by simp
  then show ?thesis
    by (simp only: crc16_round_def crc_byte_def byte_mask split crc_bits_xor low)
qed

lemma crc16_loop_fold: "crc16_loop r cs = fold (\<lambda>c r. crc_byte r c) cs r"
  by (induction cs arbitrary: r) (simp_all add: crc16_round_byte)

lemma crc16_loop_append: "crc16_loop r (xs @ ys) = crc16_loop (crc16_loop r xs) ys"
  by (induction xs arbitrary: r) simp_all

text \<open>C25. \<open>crc16\<close>, table look-ups included, is the bit-serial CRC-16 with polynomial
  0x1021, most significant bit first and initial value 0.\<close>

theorem crc16_is_bit_serial: "crc16 buf = crc_spec buf"
  by (simp add: crc16_def crc_spec_def crc16_loop_fold)

end
