(* ===== verification/Interfaces.thy ===== *)
theory Interfaces
  imports Prelude
begin

text \<open>
  The contracts between components, each a locale: what a client of a queue, of a byte
  buffer, of a descriptor table or of a load balancer relies on. The client's lemmas are
  proved here once; the theory of the component that provides the operations interprets the
  locale on the model of its code.
\<close>

section \<open>First-in first-out queues\<close>

datatype 'a fifo_op = Enq 'a | Deq

fun fifo_run ::
  "('a \<Rightarrow> 'q \<Rightarrow> 'q) \<Rightarrow> ('q \<Rightarrow> ('a \<times> 'q) option) \<Rightarrow> 'a fifo_op list \<Rightarrow> 'q \<Rightarrow> 'a list \<times> 'q" where
  "fifo_run enq deq [] q = ([], q)"
| "fifo_run enq deq (Enq x # ops) q = fifo_run enq deq ops (enq x q)"
| "fifo_run enq deq (Deq # ops) q =
     (case deq q of
        None \<Rightarrow> fifo_run enq deq ops q
      | Some (x, q') \<Rightarrow> let (out, r) = fifo_run enq deq ops q' in (x # out, r))"

fun enqueued :: "'a fifo_op list \<Rightarrow> 'a list" where
  "enqueued [] = []"
| "enqueued (Enq x # ops) = x # enqueued ops"
| "enqueued (Deq # ops) = enqueued ops"

text \<open>The answers of a queue, one for each \<open>Deq\<close>, and what the contract makes them on the list of the
  elements: the oldest element, or none exactly when there is none.\<close>

fun fifo_answers ::
  "('a \<Rightarrow> 'q \<Rightarrow> 'q) \<Rightarrow> ('q \<Rightarrow> ('a \<times> 'q) option) \<Rightarrow> 'a fifo_op list \<Rightarrow> 'q \<Rightarrow> 'a option list \<times> 'q" where
  "fifo_answers enq deq [] q = ([], q)"
| "fifo_answers enq deq (Enq x # ops) q = fifo_answers enq deq ops (enq x q)"
| "fifo_answers enq deq (Deq # ops) q =
     (case deq q of
        None \<Rightarrow> let (a, r) = fifo_answers enq deq ops q in (None # a, r)
      | Some (x, q') \<Rightarrow> let (a, r) = fifo_answers enq deq ops q' in (Some x # a, r))"

fun list_answers :: "'a fifo_op list \<Rightarrow> 'a list \<Rightarrow> 'a option list \<times> 'a list" where
  "list_answers [] xs = ([], xs)"
| "list_answers (Enq x # ops) xs = list_answers ops (xs @ [x])"
| "list_answers (Deq # ops) [] = (let (a, r) = list_answers ops [] in (None # a, r))"
| "list_answers (Deq # ops) (x # xs) = (let (a, r) = list_answers ops xs in (Some x # a, r))"

locale fifo =
  fixes elems :: "'q \<Rightarrow> 'a list"
    and ok :: "'q \<Rightarrow> bool"
    and enq :: "'a \<Rightarrow> 'q \<Rightarrow> 'q"
    and deq :: "'q \<Rightarrow> ('a \<times> 'q) option"
  assumes ok_enq: "ok q \<Longrightarrow> ok (enq x q)"
    and elems_enq: "ok q \<Longrightarrow> elems (enq x q) = elems q @ [x]"
    and deq_None: "ok q \<Longrightarrow> deq q = None \<Longrightarrow> elems q = []"
    and deq_Some: "ok q \<Longrightarrow> deq q = Some (x, q') \<Longrightarrow> elems q = x # elems q' \<and> ok q'"
begin

text \<open>Whatever the interleaving of the operations, what comes out followed by what is left is
  what was there followed by what went in: nothing is lost, invented or reordered.\<close>

lemma run_conserves:
  "ok q \<Longrightarrow> fifo_run enq deq ops q = (out, q') \<Longrightarrow>
   out @ elems q' = elems q @ enqueued ops \<and> ok q'"
proof (induction ops arbitrary: q out q' rule: enqueued.induct)
  case 1
  then show ?case by simp
next
  case (2 x ops)
  have "out @ elems q' = elems (enq x q) @ enqueued ops \<and> ok q'"
    using 2(1) [OF ok_enq [OF 2(2)]] 2(3) by simp
  then show ?case using elems_enq [OF 2(2)] by simp
next
  case (3 ops)
  show ?case
  proof (cases "deq q")
    case None
    with 3 deq_None show ?thesis by auto
  next
    case (Some p)
    then obtain x r where p: "deq q = Some (x, r)" by (cases p) auto
    with deq_Some 3(2) have r: "elems q = x # elems r" "ok r" by auto
    obtain o1 r1 where o1: "fifo_run enq deq ops r = (o1, r1)" by (cases "fifo_run enq deq ops r")
    with 3(3) p have "out = x # o1" "q' = r1" by auto
    with 3(1) [OF r(2) o1] r show ?thesis by simp
  qed
qed

lemma run_answers:
  "ok q \<Longrightarrow> fifo_answers enq deq ops q = (a, q') \<Longrightarrow> list_answers ops (elems q) = (a, elems q') \<and> ok q'"
proof (induction ops arbitrary: q a q')
  case (Cons op ops)
  show ?case
  proof (cases op)
    case (Enq x)
    with Cons.IH [OF ok_enq [OF Cons.prems(1)]] Cons.prems elems_enq show ?thesis by simp
  next
    case Deq
    then show ?thesis
    proof (cases "deq q")
      case None
      obtain b s where b: "fifo_answers enq deq ops q = (b, s)" by fastforce
      with Cons.IH [OF Cons.prems(1)] Cons.prems None Deq deq_None show ?thesis by auto
    next
      case (Some p)
      then obtain x r where p: "deq q = Some (x, r)" by (cases p) auto
      with deq_Some [OF Cons.prems(1)] have r: "elems q = x # elems r" "ok r" by auto
      obtain b s where b: "fifo_answers enq deq ops r = (b, s)" by fastforce
      with Cons.IH [OF r(2)] Cons.prems p r Deq show ?thesis by auto
    qed
  qed
qed simp

lemma run_drains:
  "ok q \<Longrightarrow> length ops = length (elems q) \<Longrightarrow> set ops \<subseteq> {Deq} \<Longrightarrow>
   fst (fifo_run enq deq ops q) = elems q"
proof (induction ops arbitrary: q)
  case (Cons a ops)
  then obtain x r where p: "deq q = Some (x, r)" 
    using deq_None [OF Cons.prems(1)] Cons.prems(2) by (cases "deq q") auto
  with deq_Some Cons.prems(1) have r: "elems q = x # elems r" "ok r" by auto
  then have "fst (fifo_run enq deq ops r) = elems r" using Cons by simp
  with Cons.prems p r show ?case by (auto split: prod.splits)
qed simp

end

section \<open>Byte queues\<close>

fun put_all :: "('b \<Rightarrow> byte list \<Rightarrow> nat \<times> 'b) \<Rightarrow> 'b \<Rightarrow> byte list list \<Rightarrow> nat \<times> 'b" where
  "put_all put b [] = (0, b)"
| "put_all put b (c # cs) =
     (let (k, b') = put b c; (n, b'') = put_all put b' cs in (k + n, b''))"

fun get_all :: "('b \<Rightarrow> nat \<Rightarrow> (nat \<times> byte list) \<times> 'b) \<Rightarrow> 'b \<Rightarrow> nat list \<Rightarrow> byte list \<times> 'b" where
  "get_all get b [] = ([], b)"
| "get_all get b (n # ns) =
     (let ((k, d), b') = get b n; (ds, b'') = get_all get b' ns in (d @ ds, b''))"

locale byte_queue =
  fixes bytes :: "'b \<Rightarrow> byte list"
    and ok :: "'b \<Rightarrow> bool"
    and peek :: "'b \<Rightarrow> nat \<Rightarrow> nat \<times> byte list"
    and get :: "'b \<Rightarrow> nat \<Rightarrow> (nat \<times> byte list) \<times> 'b"
    and put :: "'b \<Rightarrow> byte list \<Rightarrow> nat \<times> 'b"
  assumes peek: "ok b \<Longrightarrow> peek b n = (min n (length (bytes b)), take n (bytes b))"
    and get: "ok b \<Longrightarrow> get b n = ((k, d), b') \<Longrightarrow>
      k = min n (length (bytes b)) \<and> d = take n (bytes b) \<and> bytes b' = drop n (bytes b) \<and> ok b'"
    and put: "ok b \<Longrightarrow> put b c = (k, b') \<Longrightarrow>
      k \<le> length c \<and> bytes b' = bytes b @ take k c \<and> ok b'"
begin

lemma put_all_bytes:
  "ok b \<Longrightarrow> put_all put b cs = (k, b') \<Longrightarrow> k = length (concat cs) \<Longrightarrow>
   bytes b' = bytes b @ concat cs \<and> ok b'"
proof (induction cs arbitrary: b k b')
  case (Cons c cs)
  obtain k1 b1 where p: "put b c = (k1, b1)" by (cases "put b c")
  obtain k2 b2 where r: "put_all put b1 cs = (k2, b2)" by (cases "put_all put b1 cs")
  have le: "ok b1 \<Longrightarrow> put_all put b1 cs = (k2, b2) \<Longrightarrow> k2 \<le> length (concat cs)"
    for b1 k2 b2 cs
  proof (induction cs arbitrary: b1 k2 b2)
    case (Cons d ds)
    obtain j1 d1 where q: "put b1 d = (j1, d1)" by (cases "put b1 d")
    obtain j2 d2 where s: "put_all put d1 ds = (j2, d2)" by (cases "put_all put d1 ds")
    from put [OF Cons.prems(1) q] have "j1 \<le> length d" "ok d1" by auto
    with Cons.IH [OF \<open>ok d1\<close> s] Cons.prems q s show ?case by auto
  qed simp
  from put [OF Cons.prems(1) p] have b1: "k1 \<le> length c" "bytes b1 = bytes b @ take k1 c" "ok b1"
    by auto
  moreover have "k = k1 + k2" "b' = b2" using Cons.prems(2) p r by auto
  moreover have "k2 \<le> length (concat cs)" using le [OF b1(3) r] .
  ultimately show ?case using Cons.IH [OF b1(3) r] Cons.prems(3) by auto
qed simp

lemma get_all_bytes:
  "ok b \<Longrightarrow> get_all get b ns = (d, b') \<Longrightarrow>
   d = take (sum_list ns) (bytes b) \<and> bytes b' = drop (sum_list ns) (bytes b) \<and> ok b'"
proof (induction ns arbitrary: b d b')
  case (Cons n ns)
  obtain k1 d1 b1 where g: "get b n = ((k1, d1), b1)" by (cases "get b n") auto
  obtain d2 b2 where r: "get_all get b1 ns = (d2, b2)" by (cases "get_all get b1 ns")
  from get [OF Cons.prems(1) g]
  have "d1 = take n (bytes b)" "bytes b1 = drop n (bytes b)" "ok b1" by auto
  moreover have "d = d1 @ d2" "b' = b2" using Cons.prems(2) g r by auto
  ultimately show ?case using Cons.IH [OF _ r] by (auto simp: take_add add.commute)
qed simp

text \<open>However the bytes are cut into writes and reads, they come out as they went in.\<close>

lemma put_then_get:
  assumes "ok b" "bytes b = []" "put_all put b cs = (length (concat cs), b1)"
    and "get_all get b1 ns = (d, b2)" "sum_list ns = length (concat cs)"
  shows "d = concat cs \<and> bytes b2 = []"
  using put_all_bytes [OF assms(1,3)] get_all_bytes [OF _ assms(4)] assms(2,5) by auto

end

end
