(* ===== verification/Bufio.thy ===== *)
theory Bufio
  imports Interfaces
begin

text \<open>
  The paged byte buffer of \<^verbatim>\<open>src/src/utils/bufio.c\<close> and \<^verbatim>\<open>bufio.h\<close>. A page keeps the 64-bit
  \<open>start\<close> and \<open>end\<close> of the C struct with their wrap-around arithmetic and the whole
  4096-byte block with its \<open>memcpy\<close> and \<open>memmove\<close>; the list of pages stands for
  \<open>page_head\<close>. \<open>bio_bytes\<close> abstracts a buffer to the bytes it holds, and every operation
  is shown to be the operation on byte strings it stands for. The byte counts of a call
  (\<open>int64_t sz\<close>) are naturals: the callers pass sizes of objects.
\<close>

section \<open>Pages\<close>

definition PAGE_SIZE :: nat where "PAGE_SIZE = 4096"

record bio_page =
  bp_start :: u64
  bp_end :: u64
  bp_page :: "byte list"

record bio =
  bsize :: nat
  pno :: int
  page_head :: "bio_page list"

definition bio_init :: bio where
  "bio_init = \<lparr>bsize = 0, pno = 0, page_head = []\<rparr>"

definition bio_size :: "bio \<Rightarrow> nat" where
  "bio_size b = bsize b"

definition bio_empty :: "bio \<Rightarrow> bool" where
  "bio_empty b \<longleftrightarrow> bsize b = 0"

definition bio_first :: "bio \<Rightarrow> bio_page option" where
  "bio_first b = (case page_head b of [] \<Rightarrow> None | bp # _ \<Rightarrow> Some bp)"

definition bio_last :: "bio \<Rightarrow> bio_page option" where
  "bio_last b = (if page_head b = [] then None else Some (last (page_head b)))"

text \<open>\<open>mem_zalloc\<close> of a page: all fields and all bytes are 0.\<close>

definition bio_page_new :: bio_page where
  "bio_page_new = \<lparr>bp_start = 0, bp_end = 0, bp_page = replicate PAGE_SIZE 0\<rparr>"

definition bio_page_empty :: "bio_page \<Rightarrow> bool" where
  "bio_page_empty bp \<longleftrightarrow> bp_end bp = bp_start bp"

definition bio_page_full :: "bio_page \<Rightarrow> bool" where
  "bio_page_full bp \<longleftrightarrow> bp_end bp - bp_start bp = of_nat PAGE_SIZE"

text \<open>The bytes a page copy, read or write moves: the clipped \<open>sz\<close> of the C code.\<close>

definition page_avail :: "bio_page \<Rightarrow> nat" where
  "page_avail bp = unat (bp_end bp - bp_start bp)"

definition page_room :: "bio_page \<Rightarrow> nat" where
  "page_room bp = unat (of_nat PAGE_SIZE - (bp_end bp - bp_start bp))"

definition bio_page_copy :: "bio_page \<Rightarrow> nat \<Rightarrow> nat \<times> byte list" where
  "bio_page_copy bp sz =
     (let sz = (if page_avail bp > sz then sz else page_avail bp)
      in (sz, take sz (drop (unat (bp_start bp)) (bp_page bp))))"

definition bio_page_read :: "bio_page \<Rightarrow> nat \<Rightarrow> nat \<times> byte list \<times> bio_page" where
  "bio_page_read bp sz =
     (let sz = (if page_avail bp > sz then sz else page_avail bp);
          data = take sz (drop (unat (bp_start bp)) (bp_page bp));
          start = bp_start bp + of_nat sz;
          moved = memcpy_at (bp_page bp) 0
                    (take (unat (bp_end bp - start)) (drop (unat start) (bp_page bp)))
      in (sz, data, \<lparr>bp_start = 0, bp_end = bp_end bp - start, bp_page = moved\<rparr>))"

definition bio_page_write :: "bio_page \<Rightarrow> byte list \<Rightarrow> nat \<times> bio_page" where
  "bio_page_write bp buff =
     (let sz = (if page_room bp > length buff then length buff else page_room bp)
      in (sz, bp\<lparr>bp_page := memcpy_at (bp_page bp) (unat (bp_end bp)) (take sz buff),
                bp_end := bp_end bp + of_nat sz\<rparr>))"

section \<open>Buffers\<close>

definition bio_reset :: "bio \<Rightarrow> bio" where
  "bio_reset b = b\<lparr>page_head := []\<rparr>"

definition bio_destroy :: "bio \<Rightarrow> bio" where
  "bio_destroy b = bio_reset b"

text \<open>Adding a page; the flag is whether \<open>mem_zalloc\<close> finds memory.\<close>

definition bio_expand_one_page :: "bool \<Rightarrow> bio \<Rightarrow> bio option" where
  "bio_expand_one_page alloc b =
     (if \<not> alloc then None
      else Some (b\<lparr>pno := pno b + 1, page_head := page_head b @ [bio_page_new]\<rparr>))"

definition bio_shrink_one_page :: "bio \<Rightarrow> bio option" where
  "bio_shrink_one_page b =
     (if page_head b = [] then None
      else Some (b\<lparr>pno := pno b - 1, page_head := butlast (page_head b)\<rparr>))"

text \<open>The loop of \<open>bio_copy\<close>: it breaks when the bytes asked for are there.\<close>

fun bio_copy_loop :: "bio_page list \<Rightarrow> nat \<Rightarrow> nat \<times> byte list" where
  "bio_copy_loop [] sz = (0, [])"
| "bio_copy_loop (bp # bps) sz =
     (let (k, d) = bio_page_copy bp sz
      in if k = sz then (k, d)
         else let (k', d') = bio_copy_loop bps (sz - k) in (k + k', d @ d'))"

definition bio_copy :: "bio \<Rightarrow> nat \<Rightarrow> nat \<times> byte list" where
  "bio_copy b sz = bio_copy_loop (page_head b) sz"

lemma page_read_measure:
  assumes "bio_page_read bp n = (k, d, bp')" and "\<not> bio_page_empty bp'" and "0 < n"
  shows "n - k < n"
proof (cases "page_avail bp > n")
  case True
  with assms show ?thesis by (auto simp: bio_page_read_def Let_def)
next
  case False
  then have "bp_end bp' = bp_start bp'"
    using assms(1) by (auto simp: bio_page_read_def Let_def page_avail_def)
  with assms(2) show ?thesis by (simp add: bio_page_empty_def)
qed

text \<open>The loop of \<open>bio_read\<close>: \<open>n\<close> is \<open>sz - nbytes\<close>. A drained page is freed.\<close>

function bio_read_loop :: "bio_page list \<Rightarrow> nat \<Rightarrow> nat \<times> byte list \<times> bio_page list" where
  "bio_read_loop [] n = (0, [], [])"
| "bio_read_loop (bp # bps) n =
     (if n = 0 then (0, [], bp # bps)
      else let (k, d, bp') = bio_page_read bp n;
               pages = (if bio_page_empty bp' then bps else bp' # bps);
               (k', d', rest) = bio_read_loop pages (n - k)
           in (k + k', d @ d', rest))"
  by pat_completeness auto
termination
  by (relation "measures [\<lambda>(ps, n). length ps, \<lambda>(ps, n). n]")
     (auto dest: page_read_measure [OF sym])

definition bio_read :: "bio \<Rightarrow> nat \<Rightarrow> (nat \<times> byte list) \<times> bio" where
  "bio_read b sz =
     (let (k, d, pages) = bio_read_loop (page_head b) sz
      in ((k, d), b\<lparr>page_head := pages, bsize := bsize b - k\<rparr>))"

definition is_time_to_expand :: "bio \<Rightarrow> bool" where
  "is_time_to_expand b \<longleftrightarrow> page_head b = [] \<or> bio_page_full (last (page_head b))"

lemma page_write_progress:
  assumes "\<not> bio_page_full bp" "buff \<noteq> []" "bio_page_write bp buff = (k, bp')"
  shows "0 < k"
proof -
  have "0 < page_room bp"
    using assms(1) by (auto simp: page_room_def bio_page_full_def unat_gt_0)
  with assms(2,3) show ?thesis by (auto simp: bio_page_write_def Let_def split: if_splits)
qed

lemma new_page_not_full: "\<not> bio_page_full bio_page_new"
  by (simp add: bio_page_full_def bio_page_new_def PAGE_SIZE_def)

text \<open>
  The loop of \<open>bio_write\<close>. \<open>mem\<close> is the number of pages the allocator can still give;
  the loop breaks when a page is needed and there is none.
\<close>

definition write_last :: "bio \<Rightarrow> byte list \<Rightarrow> nat \<times> bio" where
  "write_last b buff =
     (let (k, bp) = bio_page_write (last (page_head b)) buff
      in (k, b\<lparr>page_head := butlast (page_head b) @ [bp]\<rparr>))"

definition bio_write_step :: "nat \<Rightarrow> bio \<Rightarrow> (nat \<times> bio) option" where
  "bio_write_step mem b =
     (if is_time_to_expand b
      then map_option (\<lambda>b'. (mem - 1, b')) (bio_expand_one_page (0 < mem) b)
      else Some (mem, b))"

lemma write_step_progress:
  assumes "bio_write_step mem b = Some (mem', b')" "buff \<noteq> []" "write_last b' buff = (k, b'')"
  shows "0 < k"
proof -
  have "\<not> bio_page_full (last (page_head b'))"
    using assms(1) new_page_not_full
    by (auto simp: bio_write_step_def is_time_to_expand_def bio_expand_one_page_def
             split: if_splits)
  with assms(2,3) show ?thesis
    by (auto simp: write_last_def split: prod.splits dest: page_write_progress)
qed

function bio_write_loop :: "nat \<Rightarrow> bio \<Rightarrow> byte list \<Rightarrow> nat \<times> bio" where
  "bio_write_loop mem b buff =
     (if buff = [] then (0, b)
      else case bio_write_step mem b of
             None \<Rightarrow> (0, b)
           | Some (mem', b') \<Rightarrow>
               let (k, b'') = write_last b' buff;
                   (k', b''') = bio_write_loop mem' b'' (drop k buff)
               in (k + k', b'''))"
  by pat_completeness auto
termination
  by (relation "measure (\<lambda>(mem, b, buff). length buff)")
     (auto dest: write_step_progress [OF _ _ sym])

declare bio_write_loop.simps [simp del]

definition bio_write :: "nat \<Rightarrow> bio \<Rightarrow> byte list \<Rightarrow> nat \<times> bio" where
  "bio_write mem b buff =
     (let (k, b') = bio_write_loop mem b buff in (k, b'\<lparr>bsize := bsize b' + k\<rparr>))"

text \<open>
  The result of one call of the underlying stream: an error, or the bytes the kernel hands
  over. The stream is the list of the results it will give; when the list is used up it
  answers \<open>EAGAIN\<close>. A result longer than the caller's buffer is handed over in parts.
\<close>

type_synonym stream = "(errno + byte list) list"

fun stream_read :: "nat \<Rightarrow> stream \<Rightarrow> (errno + byte list) \<times> stream" where
  "stream_read sz [] = (Inl EAGAIN, [])"
| "stream_read sz (Inl e # rs) = (Inl e, rs)"
| "stream_read sz (Inr bs # rs) =
     (if length bs \<le> sz then (Inr bs, rs) else (Inr (take sz bs), Inr (drop sz bs) # rs))"

fun stream_weight :: "stream \<Rightarrow> nat" where
  "stream_weight [] = 0"
| "stream_weight (Inl e # rs) = Suc (stream_weight rs)"
| "stream_weight (Inr bs # rs) = Suc (length bs) + stream_weight rs"

lemma stream_read_weight:
  "0 < sz \<Longrightarrow> stream_read sz rs = (Inr bs, rs') \<Longrightarrow> stream_weight rs' < stream_weight rs"
  by (cases "(sz, rs)" rule: stream_read.cases) (auto split: if_splits)

text \<open>
  The loop of \<open>bio_prefetch\<close>: the errno that ends it, the sum, the buffer. A call
  \<open>bio_write\<close> may store less than was read only when memory runs out; \<open>mem\<close> is the page
  budget as in \<open>bio_write\<close>, here for each call.
\<close>

function bio_prefetch_loop :: "nat \<Rightarrow> bio \<Rightarrow> stream \<Rightarrow> errno \<times> nat \<times> bio \<times> stream" where
  "bio_prefetch_loop mem b rs =
     (case stream_read PAGE_SIZE rs of
        (Inl e, rs') \<Rightarrow> (e, 0, b, rs')
      | (Inr bs, rs') \<Rightarrow>
          let (k, b') = bio_write mem b bs;
              (e, sum, b'', rs'') = bio_prefetch_loop mem b' rs'
          in (e, k + sum, b'', rs''))"
  by pat_completeness auto
termination
  by (relation "measure (\<lambda>(mem, b, rs). stream_weight rs)")
     (auto simp: PAGE_SIZE_def intro!: stream_read_weight [of 4096, OF _ sym])

declare bio_prefetch_loop.simps [simp del]

text \<open>\<open>bio_prefetch\<close>: \<open>Inl\<close> the errno of a \<open>-1\<close>, \<open>Inr\<close> the sum.\<close>

definition bio_prefetch :: "nat \<Rightarrow> bio \<Rightarrow> stream \<Rightarrow> (errno + nat) \<times> bio \<times> stream" where
  "bio_prefetch mem b rs =
     (let (e, sum, b', rs') = bio_prefetch_loop mem b rs
      in (if e \<noteq> EAGAIN \<and> sum = 0 then Inl e else Inr sum, b', rs'))"

text \<open>
  \<open>bio_flush\<close>: the sink is the list of its answers, an error or the number of bytes it
  takes; used up, it answers \<open>EAGAIN\<close>. The \<open>BUG_ON\<close> compares what the sink took with what
  \<open>bio_read\<close> drops. The loop runs while there are pages.
\<close>

fun bio_flush_loop :: "bio \<Rightarrow> (errno + nat) list \<Rightarrow> (errno option \<times> nat \<times> byte list \<times> bio) cres" where
  "bio_flush_loop b [] =
     (if page_head b = [] then Ok (None, 0, [], b) else Ok (Some EAGAIN, 0, [], b))"
| "bio_flush_loop b (r # rs) =
     (if page_head b = [] then Ok (None, 0, [], b)
      else case r of
             Inl e \<Rightarrow> Ok (Some e, 0, [], b)
           | Inr n \<Rightarrow>
               let out = take n (snd (bio_copy b PAGE_SIZE)); ((k, _), b') = bio_read b n
               in if k \<noteq> n then Bug
                  else cbind (bio_flush_loop b' rs)
                         (\<lambda>(e, sum, out', b''). Ok (e, n + sum, out @ out', b'')))"

definition bio_flush :: "bio \<Rightarrow> (errno + nat) list \<Rightarrow> ((errno + nat) \<times> byte list \<times> bio) cres" where
  "bio_flush b rs =
     cbind (bio_flush_loop b rs) (\<lambda>(e, sum, out, b').
       Ok (case e of
             Some err \<Rightarrow> if err \<noteq> EAGAIN \<and> sum = 0 then Inl err else Inr sum
           | None \<Rightarrow> Inr sum, out, b'))"

section \<open>Abstraction to byte strings\<close>

definition page_bytes :: "bio_page \<Rightarrow> byte list" where
  "page_bytes bp = take (page_avail bp) (drop (unat (bp_start bp)) (bp_page bp))"

definition bio_bytes :: "bio \<Rightarrow> byte list" where
  "bio_bytes b = concat (map page_bytes (page_head b))"

text \<open>The invariant: reads compact their page, so every page starts at 0; the block keeps its
  4096 bytes, no copy runs past it; \<open>bsize\<close> counts the bytes.\<close>

definition page_ok :: "bio_page \<Rightarrow> bool" where
  "page_ok bp \<longleftrightarrow> bp_start bp = 0 \<and> unat (bp_end bp) \<le> PAGE_SIZE \<and> length (bp_page bp) = PAGE_SIZE"

definition bio_ok :: "bio \<Rightarrow> bool" where
  "bio_ok b \<longleftrightarrow> list_all page_ok (page_head b) \<and> bsize b = length (bio_bytes b)"

lemma page_okD:
  "page_ok bp \<Longrightarrow> bp_start bp = 0" "page_ok bp \<Longrightarrow> length (bp_page bp) = PAGE_SIZE"
  "page_ok bp \<Longrightarrow> unat (bp_end bp) \<le> PAGE_SIZE"
  by (simp_all add: page_ok_def)

lemma length_page_bytes [simp]: "page_ok bp \<Longrightarrow> length (page_bytes bp) = page_avail bp"
  by (simp add: page_bytes_def page_ok_def page_avail_def)

lemma page_bytes_0: "bp_start bp = 0 \<Longrightarrow> page_bytes bp = take (unat (bp_end bp)) (bp_page bp)"
  by (simp add: page_bytes_def page_avail_def)

lemma page_ok_new [simp, invs]: "page_ok bio_page_new"
  by (simp add: page_ok_def bio_page_new_def)

lemma page_bytes_new [simp]: "page_bytes bio_page_new = []"
  by (simp add: page_bytes_0 bio_page_new_def)

lemma page_bytes_Nil: "page_ok bp \<Longrightarrow> page_bytes bp = [] \<longleftrightarrow> bio_page_empty bp"
  by (auto simp: page_bytes_0 page_ok_def bio_page_empty_def PAGE_SIZE_def unat_eq_0)

lemma unat_of_nat_page: "n \<le> PAGE_SIZE \<Longrightarrow> unat (of_nat n :: u64) = n"
  by (simp add: unat_of_nat PAGE_SIZE_def)

lemma page_copy [absfn]:
  "page_ok bp \<Longrightarrow>
   bio_page_copy bp sz = (min sz (length (page_bytes bp)), take sz (page_bytes bp))"
  by (auto simp: bio_page_copy_def Let_def page_bytes_def page_ok_def page_avail_def min_def)

lemma page_read [absfn]:
  assumes ok: "page_ok bp" and r: "bio_page_read bp sz = (k, d, bp')"
  shows "k = min sz (length (page_bytes bp))" "d = take sz (page_bytes bp)"
    "page_bytes bp' = drop sz (page_bytes bp)" "page_ok bp'"
proof -
  define n where "n = unat (bp_end bp)"
  have n: "n \<le> PAGE_SIZE" "length (bp_page bp) = PAGE_SIZE" "page_avail bp = n"
    using ok by (auto simp: page_ok_def n_def page_avail_def)
  have k: "k = min sz n" using r n by (auto simp: bio_page_read_def Let_def min_def)
  then show "k = min sz (length (page_bytes bp))" using ok n by simp
  have e: "unat (bp_end bp - of_nat k) = n - k"
    using k n by (simp add: n_def unat_sub_if' unat_of_nat_page)
  have bp': "bp' = \<lparr>bp_start = 0, bp_end = bp_end bp - of_nat k,
      bp_page = memcpy_at (bp_page bp) 0 (take (n - k) (drop k (bp_page bp)))\<rparr>"
    and d: "d = take k (bp_page bp)"
    using r ok n k e by (auto simp: bio_page_read_def Let_def min_def page_ok_def unat_of_nat_page)
  show "d = take sz (page_bytes bp)"
    using d k ok by (auto simp: page_bytes_0 page_ok_def n_def min.commute)
  have l: "length (take (n - k) (drop k (bp_page bp))) = n - k" using n k by simp
  show "page_ok bp'" using n k ok e by (auto simp: page_ok_def bp')
  have "page_bytes bp' = take (n - k) (drop k (bp_page bp))"
    using e l take_memcpy_at_0 [of "take (n - k) (drop k (bp_page bp))" "bp_page bp"]
    by (simp add: page_bytes_0 bp')
  then show "page_bytes bp' = drop sz (page_bytes bp)"
    using k ok by (auto simp: page_bytes_0 page_ok_def drop_take min_def simp flip: n_def)
qed

lemma page_write [absfn]:
  assumes ok: "page_ok bp" and w: "bio_page_write bp buff = (k, bp')"
  shows "k = min (length buff) (PAGE_SIZE - length (page_bytes bp))"
    "page_bytes bp' = page_bytes bp @ take k buff" "page_ok bp'"
proof -
  define n where "n = unat (bp_end bp)"
  have n: "n \<le> PAGE_SIZE" "length (bp_page bp) = PAGE_SIZE" "page_avail bp = n"
    using ok by (auto simp: page_ok_def n_def page_avail_def)
  have room: "page_room bp = PAGE_SIZE - n"
    using ok n by (simp add: page_room_def page_ok_def unat_sub_if' unat_of_nat_page n_def)
  show k: "k = min (length buff) (PAGE_SIZE - length (page_bytes bp))"
    using w ok n room by (auto simp: bio_page_write_def Let_def min_def)
  then have kn: "k \<le> PAGE_SIZE - n" "k \<le> length buff" using ok n by auto
  have e: "unat (bp_end bp + of_nat k) = n + k"
    using kn n by (simp add: n_def unat_word_ariths unat_of_nat_page PAGE_SIZE_def)
  have bp': "bp' = bp\<lparr>bp_page := memcpy_at (bp_page bp) n (take k buff), bp_end := bp_end bp + of_nat k\<rparr>"
    using w by (auto simp: bio_page_write_def Let_def n_def)
  show "page_ok bp'" using kn n ok e by (auto simp: page_ok_def bp')
  have "take (n + k) (memcpy_at (bp_page bp) n (take k buff)) = take n (bp_page bp) @ take k buff"
    using take_memcpy_at [of n "bp_page bp" "take k buff"] kn n by (simp add: min.absorb2)
  then show "page_bytes bp' = page_bytes bp @ take k buff"
    using ok e by (simp add: page_bytes_0 page_ok_def bp' flip: n_def)
qed

section \<open>Buffers are byte queues\<close>

lemma bio_init_ok [simp, invs]: "bio_ok bio_init" "bio_bytes bio_init = []"
  by (simp_all add: bio_ok_def bio_init_def bio_bytes_def)

lemma bio_copy_loop:
  "list_all page_ok ps \<Longrightarrow> bio_copy_loop ps sz =
     (min sz (length (concat (map page_bytes ps))), take sz (concat (map page_bytes ps)))"
proof (induction ps arbitrary: sz)
  case (Cons p ps)
  then show ?case by (auto simp: page_copy split: prod.splits)
qed simp

lemma bio_copy_bytes [absfn]:
  "bio_ok b \<Longrightarrow> bio_copy b sz = (min sz (length (bio_bytes b)), take sz (bio_bytes b))"
  by (simp add: bio_copy_def bio_ok_def bio_bytes_def bio_copy_loop)

lemma bio_read_loop:
  "list_all page_ok ps \<Longrightarrow> bio_read_loop ps n = (k, d, ps') \<Longrightarrow>
     k = min n (length (concat (map page_bytes ps))) \<and> d = take n (concat (map page_bytes ps)) \<and>
     concat (map page_bytes ps') = drop n (concat (map page_bytes ps)) \<and> list_all page_ok ps'"
proof (induction ps n arbitrary: k d ps' rule: bio_read_loop.induct)
  case (1 n)
  then show ?case by simp
next
  case (2 bp bps n)
  show ?case
  proof (cases "n = 0")
    case True
    with 2(2,3) show ?thesis by auto
  next
    case False
    obtain k1 d1 bp1 where r: "bio_page_read bp n = (k1, d1, bp1)" by (cases "bio_page_read bp n") auto
    define pages where "pages = (if bio_page_empty bp1 then bps else bp1 # bps)"
    obtain k2 d2 rest where l: "bio_read_loop pages (n - k1) = (k2, d2, rest)"
      by (cases "bio_read_loop pages (n - k1)") auto
    have eq: "k = k1 + k2" "d = d1 @ d2" "ps' = rest"
      using 2(3) False r l by (auto simp: pages_def)
    have ok: "page_ok bp" "list_all page_ok bps" using 2(2) by auto
    note pr = page_read [OF ok(1) r]
    have pages: "list_all page_ok pages"
      "concat (map page_bytes pages) = page_bytes bp1 @ concat (map page_bytes bps)"
      using pr(4) ok(2) page_bytes_Nil [OF pr(4)] by (auto simp: pages_def)
    have IH: "k2 = min (n - k1) (length (concat (map page_bytes pages)))"
      "d2 = take (n - k1) (concat (map page_bytes pages))"
      "concat (map page_bytes rest) = drop (n - k1) (concat (map page_bytes pages))"
      "list_all page_ok rest"
      using 2(1) [OF False r [symmetric] refl refl pages_def pages(1) l] by auto
    show ?thesis
      unfolding eq using IH pr pages by (auto simp: min_def)
  qed
qed

lemma bio_read_bytes [absfn]:
  assumes "bio_ok b" "bio_read b sz = ((k, d), b')"
  shows "k = min sz (length (bio_bytes b))" "d = take sz (bio_bytes b)"
    "bio_bytes b' = drop sz (bio_bytes b)" "bio_ok b'"
  using assms bio_read_loop [of "page_head b" sz]
  by (auto simp: bio_read_def bio_ok_def bio_bytes_def split: prod.splits)

lemma write_last_bytes:
  assumes "page_head b \<noteq> []" "list_all page_ok (page_head b)" "write_last b buff = (k, b')"
  shows "k \<le> length buff" "bio_bytes b' = bio_bytes b @ take k buff"
    "list_all page_ok (page_head b')" "bsize b' = bsize b"
proof -
  obtain ps bp where ps: "page_head b = ps @ [bp]" using assms(1) by (cases "page_head b" rule: rev_cases) auto
  obtain bp' where w: "bio_page_write bp buff = (k, bp')" "b' = b\<lparr>page_head := ps @ [bp']\<rparr>"
    using assms(3) ps by (auto simp: write_last_def split: prod.splits)
  have "page_ok bp" "list_all page_ok ps" using assms(2) ps by auto
  with page_write [OF _ w(1)] show "k \<le> length buff" "bio_bytes b' = bio_bytes b @ take k buff"
    "list_all page_ok (page_head b')" "bsize b' = bsize b"
    by (auto simp: w(2) bio_bytes_def ps)
qed

lemma bio_write_step_ok:
  assumes "bio_write_step mem b = Some (mem', b')" "list_all page_ok (page_head b)"
  shows "page_head b' \<noteq> []" "list_all page_ok (page_head b')" "bio_bytes b' = bio_bytes b"
    "bsize b' = bsize b"
  using assms
  by (auto simp: bio_write_step_def bio_expand_one_page_def is_time_to_expand_def bio_bytes_def
           split: if_splits)

lemma bio_write_loop_bytes:
  "list_all page_ok (page_head b) \<Longrightarrow> bio_write_loop mem b buff = (k, b') \<Longrightarrow>
     k \<le> length buff \<and> bio_bytes b' = bio_bytes b @ take k buff \<and>
     list_all page_ok (page_head b') \<and> bsize b' = bsize b"
proof (induction mem b buff arbitrary: k b' rule: bio_write_loop.induct)
  case (1 mem b buff)
  show ?case
  proof (cases "buff = [] \<or> bio_write_step mem b = None")
    case True
    with 1(2,3) show ?thesis
      by (auto simp: bio_write_loop.simps [of mem b buff] split: if_splits)
  next
    case False
    then obtain mem1 b1 where s: "bio_write_step mem b = Some (mem1, b1)" by auto
    obtain k1 b2 where w: "write_last b1 buff = (k1, b2)" by (cases "write_last b1 buff") auto
    obtain k2 b3 where l: "bio_write_loop mem1 b2 (drop k1 buff) = (k2, b3)"
      by (cases "bio_write_loop mem1 b2 (drop k1 buff)") auto
    have eq: "k = k1 + k2" "b' = b3"
      using 1(3) False s w l by (auto simp: bio_write_loop.simps [of mem b buff])
    note st = bio_write_step_ok [OF s 1(2)]
    note wl = write_last_bytes [OF st(1,2) w]
    have "k2 \<le> length (drop k1 buff) \<and> bio_bytes b3 = bio_bytes b2 @ take k2 (drop k1 buff) \<and>
      list_all page_ok (page_head b3) \<and> bsize b3 = bsize b2"
      using 1(1) [OF _ s refl w [symmetric] refl wl(3) l] False by auto
    then show ?thesis
      unfolding eq using wl st by (auto simp: take_add)
  qed
qed

lemma bio_write_bytes [absfn]:
  assumes "bio_ok b" "bio_write mem b buff = (k, b')"
  shows "k \<le> length buff" "bio_bytes b' = bio_bytes b @ take k buff" "bio_ok b'"
proof -
  obtain b1 where l: "bio_write_loop mem b buff = (k, b1)" "b' = b1\<lparr>bsize := bsize b1 + k\<rparr>"
    using assms(2) by (auto simp: bio_write_def split: prod.splits)
  have "list_all page_ok (page_head b)" using assms(1) by (simp add: bio_ok_def)
  from bio_write_loop_bytes [OF this l(1)] assms(1)
  show "k \<le> length buff" "bio_bytes b' = bio_bytes b @ take k buff" "bio_ok b'"
    by (auto simp: bio_ok_def l(2) bio_bytes_def)
qed

text \<open>Enough pages for the bytes to come make every write complete.\<close>

lemma write_last_full_or_done:
  assumes "page_head b \<noteq> []" "list_all page_ok (page_head b)" "write_last b buff = (k, b')"
    "k < length buff"
  shows "length (page_bytes (last (page_head b))) + k = PAGE_SIZE"
proof -
  obtain ps bp where ps: "page_head b = ps @ [bp]" using assms(1) by (cases "page_head b" rule: rev_cases) auto
  then have "bio_page_write bp buff = (k, last (page_head b'))" "page_ok bp"
    using assms(2,3) by (auto simp: write_last_def split: prod.splits)
  with page_write(1) [of bp buff k "last (page_head b')"] assms(4) page_okD(3) [of bp]
  show ?thesis by (auto simp: ps page_ok_def page_avail_def)
qed

lemma bio_write_loop_complete:
  "list_all page_ok (page_head b) \<Longrightarrow> length buff \<le> mem * PAGE_SIZE \<Longrightarrow>
   fst (bio_write_loop mem b buff) = length buff"
proof (induction mem b buff rule: bio_write_loop.induct)
  case (1 mem b buff)
  show ?case
  proof (cases "buff = []")
    case True
    then show ?thesis by (simp add: bio_write_loop.simps)
  next
    case False
    with 1(3) have "0 < mem" by (cases mem) auto
    then have "bio_write_step mem b \<noteq> None"
      by (simp add: bio_write_step_def bio_expand_one_page_def)
    then obtain mem1 b1 where s: "bio_write_step mem b = Some (mem1, b1)" by auto
    obtain k1 b2 where w: "write_last b1 buff = (k1, b2)" by (cases "write_last b1 buff") auto
    note st = bio_write_step_ok [OF s 1(2)]
    note wl = write_last_bytes [OF st(1,2) w]
    have "length (drop k1 buff) \<le> mem1 * PAGE_SIZE"
    proof (cases "is_time_to_expand b")
      case True
      then have m: "mem = Suc mem1" and "last (page_head b1) = bio_page_new"
        using s \<open>0 < mem\<close> by (auto simp: bio_write_step_def bio_expand_one_page_def)
      with write_last_full_or_done [OF st(1,2) w] have "k1 < length buff \<Longrightarrow> k1 = PAGE_SIZE" by simp
      with 1(3) m show ?thesis by (cases "k1 < length buff") auto
    next
      case no: False
      then show ?thesis using 1(3) s by (auto simp: bio_write_step_def)
    qed
    then have "fst (bio_write_loop mem1 b2 (drop k1 buff)) = length (drop k1 buff)"
      using 1(1) [OF False s refl w [symmetric] refl wl(3)] by simp
    then show ?thesis
      using False s w wl(1) by (auto simp: bio_write_loop.simps [of mem b buff] split: prod.splits)
  qed
qed

lemma bio_write_complete:
  "bio_ok b \<Longrightarrow> length buff \<le> mem * PAGE_SIZE \<Longrightarrow> fst (bio_write mem b buff) = length buff"
  using bio_write_loop_complete [of b buff mem]
  by (auto simp: bio_write_def bio_ok_def split: prod.splits)

section \<open>The buffer as a byte queue, prefetch and flush\<close>

interpretation bioq: byte_queue bio_bytes bio_ok bio_copy bio_read "bio_write mem"
proof
  fix b k d b' n c
  show "bio_ok b \<Longrightarrow> bio_copy b n = (min n (length (bio_bytes b)), take n (bio_bytes b))"
    by (rule bio_copy_bytes)
  show "bio_ok b \<Longrightarrow> bio_read b n = ((k, d), b') \<Longrightarrow>
      k = min n (length (bio_bytes b)) \<and> d = take n (bio_bytes b) \<and>
      bio_bytes b' = drop n (bio_bytes b) \<and> bio_ok b'"
    by (blast dest: bio_read_bytes)
  show "bio_ok b \<Longrightarrow> bio_write mem b c = (k, b') \<Longrightarrow>
      k \<le> length c \<and> bio_bytes b' = bio_bytes b @ take k c \<and> bio_ok b'"
    by (blast dest: bio_write_bytes)
qed

text \<open>The bytes a stream hands over before its first error.\<close>

fun stream_bytes :: "stream \<Rightarrow> byte list" where
  "stream_bytes [] = []"
| "stream_bytes (Inl e # rs) = []"
| "stream_bytes (Inr bs # rs) = bs @ stream_bytes rs"

fun stream_error :: "stream \<Rightarrow> errno" where
  "stream_error [] = EAGAIN"
| "stream_error (Inl e # rs) = e"
| "stream_error (Inr bs # rs) = stream_error rs"

lemma stream_read_bytes:
  "stream_read n rs = (Inr bs, rs') \<Longrightarrow>
   stream_bytes rs = bs @ stream_bytes rs' \<and> stream_error rs = stream_error rs' \<and> length bs \<le> n"
  by (cases "(n, rs)" rule: stream_read.cases) (auto split: if_splits)

lemma stream_read_error:
  "stream_read n rs = (Inl e, rs') \<Longrightarrow> stream_bytes rs = [] \<and> stream_error rs = e"
  by (cases "(n, rs)" rule: stream_read.cases) (auto split: if_splits)

lemma bio_prefetch_loop_bytes:
  "bio_ok b \<Longrightarrow> 0 < mem \<Longrightarrow> bio_prefetch_loop mem b rs = (e, tot, b', rs') \<Longrightarrow>
   e = stream_error rs \<and> tot = length (stream_bytes rs) \<and>
   bio_bytes b' = bio_bytes b @ stream_bytes rs \<and> bio_ok b'"
proof (induction mem b rs arbitrary: e tot b' rs' rule: bio_prefetch_loop.induct)
  case (1 mem b rs)
  obtain r rs1 where r: "stream_read PAGE_SIZE rs = (r, rs1)" by (cases "stream_read PAGE_SIZE rs")
  show ?case
  proof (cases r)
    case (Inl e1)
    with 1 r stream_read_error [of PAGE_SIZE rs e1] show ?thesis
      by (simp add: bio_prefetch_loop.simps)
  next
    case (Inr bs)
    note sr = stream_read_bytes [OF r [unfolded Inr]]
    obtain k b1 where w: "bio_write mem b bs = (k, b1)" by (cases "bio_write mem b bs")
    obtain e2 s2 b2 rs2 where l: "bio_prefetch_loop mem b1 rs1 = (e2, s2, b2, rs2)"
      by (cases "bio_prefetch_loop mem b1 rs1") auto
    have eq: "e = e2" "tot = k + s2" "b' = b2"
      using 1(4) r Inr w l by (simp_all add: bio_prefetch_loop.simps [of mem b rs])
    have "length bs \<le> mem * PAGE_SIZE" using sr 1(3) by (cases mem) auto
    then have "k = length bs" using bio_write_complete [OF 1(2), of bs mem] w by simp
    then have b1: "bio_bytes b1 = bio_bytes b @ bs" "bio_ok b1"
      using bio_write_bytes [OF 1(2) w] by auto
    have "e2 = stream_error rs1 \<and> s2 = length (stream_bytes rs1) \<and>
      bio_bytes b2 = bio_bytes b1 @ stream_bytes rs1 \<and> bio_ok b2"
      using 1(1) [OF r [symmetric] Inr w [symmetric] refl b1(2) 1(3)] l by blast
    then show ?thesis using eq sr b1 \<open>k = length bs\<close> by simp
  qed
qed

text \<open>\<open>bio_prefetch\<close> takes everything the stream has before its first error, and reports an
  error only when it took nothing and the error is not \<open>EAGAIN\<close>.\<close>

lemma bio_prefetch_bytes:
  assumes "bio_ok b" "0 < mem" "bio_prefetch mem b rs = (r, b', rs')"
  shows "bio_bytes b' = bio_bytes b @ stream_bytes rs" "bio_ok b'"
    "r = (if stream_error rs \<noteq> EAGAIN \<and> stream_bytes rs = [] then Inl (stream_error rs)
          else Inr (length (stream_bytes rs)))"
  using assms bio_prefetch_loop_bytes [OF assms(1,2), of rs]
  by (auto simp: bio_prefetch_def split: prod.splits if_splits)

text \<open>\<open>bio_flush\<close> hands its bytes over in order, and its \<open>BUG_ON\<close> cannot fire while the sink
  takes no more than it was given.\<close>

fun sink_ok :: "bio \<Rightarrow> (errno + nat) list \<Rightarrow> bool" where
  "sink_ok b [] = True"
| "sink_ok b (Inl e # rs) = True"
| "sink_ok b (Inr n # rs) =
     (n \<le> fst (bio_copy b PAGE_SIZE) \<and> sink_ok (snd (bio_read b n)) rs)"

lemma bio_flush_loop_bytes:
  "bio_ok b \<Longrightarrow> sink_ok b rs \<Longrightarrow>
   \<exists>e tot out b'. bio_flush_loop b rs = Ok (e, tot, out, b') \<and> bio_ok b' \<and>
     bio_bytes b = out @ bio_bytes b' \<and> tot = length out"
proof (induction b rs rule: bio_flush_loop.induct)
  case (1 b)
  then show ?case by auto
next
  case (2 b r rs)
  show ?case
  proof (cases "page_head b = [] \<or> (\<exists>e. r = Inl e)")
    case True
    with 2 show ?thesis by auto
  next
    case False
    then obtain n where r: "r = Inr n" by (cases r) auto
    obtain k d b1 where g: "bio_read b n = ((k, d), b1)" by (cases "bio_read b n") auto
    note rd = bio_read_bytes [OF 2(2) g]
    have n: "n \<le> min PAGE_SIZE (length (bio_bytes b))"
      using 2(3) bio_copy_bytes [OF 2(2)] by (simp add: r)
    then have k: "k = n" using rd(1) by simp
    have "sink_ok b1 rs" using 2(3) g by (simp add: r)
    with 2(1) [OF _ r refl refl g [symmetric] refl _ rd(4)] False k
    obtain e tot out b2 where l: "bio_flush_loop b1 rs = Ok (e, tot, out, b2)" "bio_ok b2"
      "bio_bytes b1 = out @ bio_bytes b2" "tot = length out"
      by blast
    have "take n (snd (bio_copy b PAGE_SIZE)) = take n (bio_bytes b)"
      using bio_copy_bytes [OF 2(2)] n by (simp add: min.absorb1)
    moreover have "bio_bytes b = take n (bio_bytes b) @ out @ bio_bytes b2"
      using rd(3) l(3) by (metis append_take_drop_id)
    ultimately show ?thesis using False r g k l n by auto
  qed
qed

section \<open>Properties\<close>

text \<open>C23. The paged buffer is a byte queue: bytes written in any pieces and read in any pieces come
  out complete and in order, across page boundaries, and the buffer is empty after that.\<close>

theorem bio_pieces:
  assumes "bio_ok b" "bio_bytes b = []" "put_all (bio_write mem) b cs = (length (concat cs), b1)"
    and "get_all bio_read b1 ns = (d, b2)" "sum_list ns = length (concat cs)"
  shows "d = concat cs \<and> bio_bytes b2 = []"
  using assms by (rule bioq.put_then_get)

theorem bio_pieces_witness:
  "\<exists>b1 b2. put_all (bio_write 1) bio_init [[1], [2, 3]] = (3, b1) \<and>
     get_all bio_read b1 [2, 1] = ([1, 2, 3], b2)"
proof -
  obtain k b1 where w1: "bio_write 1 bio_init [1] = (k, b1)" by fastforce
  obtain l b2 where w2: "bio_write 1 b1 [2, 3] = (l, b2)" by fastforce
  have "k = 1" using bio_write_complete [of bio_init "[1]" 1] w1 by (simp add: PAGE_SIZE_def)
  moreover have "l = 2"
    using bio_write_complete [OF bio_write_bytes(3) [OF bio_init_ok(1) w1], of "[2, 3]" 1] w2
    by (simp add: PAGE_SIZE_def)
  ultimately have put: "put_all (bio_write 1) bio_init [[1], [2, 3]] = (length (concat [[1], [2, 3 :: byte]]), b2)"
    using w1 w2 by simp
  obtain d b3 where get: "get_all bio_read b2 [2, 1] = (d, b3)" by (cases "get_all bio_read b2 [2, 1]")
  from bio_pieces [OF bio_init_ok put get] get put show ?thesis by auto
qed

text \<open>C24. \<open>bio_prefetch\<close> appends everything the stream delivers before its first error, across
  any sequence of short reads, and answers \<open>-1\<close> exactly when that is nothing and the error is
  not \<open>EAGAIN\<close>.\<close>

theorem bio_prefetch_takes_all:
  assumes "bio_ok b" "0 < mem" "bio_prefetch mem b rs = (r, b', rs')"
  shows "bio_bytes b' = bio_bytes b @ stream_bytes rs \<and> bio_ok b' \<and>
    r = (if stream_error rs \<noteq> EAGAIN \<and> stream_bytes rs = [] then Inl (stream_error rs)
         else Inr (length (stream_bytes rs)))"
  using bio_prefetch_bytes [OF assms] by blast

theorem bio_prefetch_takes_all_witness:
  "\<exists>b' rs'. bio_prefetch 1 bio_init [Inr [1, 2], Inr [3], Inl EPIPE] = (Inr 3, b', rs') \<and>
     bio_bytes b' = [1, 2, 3]"
proof -
  obtain r b' rs' where p: "bio_prefetch 1 bio_init [Inr [1, 2], Inr [3], Inl EPIPE] = (r, b', rs')"
    by (cases "bio_prefetch 1 bio_init [Inr [1, 2], Inr [3], Inl EPIPE]") auto
  from bio_prefetch_takes_all [OF bio_init_ok(1) _ p] p show ?thesis by simp
qed

text \<open>\<open>bio_flush\<close> to a sink that takes no more than it is offered never fires its \<open>BUG_ON\<close>;
  what went out is a prefix of the buffer, in order, and the rest is still there.\<close>

theorem bio_flush_prefix:
  assumes "bio_ok b" "sink_ok b rs"
  shows "\<exists>r out b'. bio_flush b rs = Ok (r, out, b') \<and> bio_ok b' \<and>
    bio_bytes b = out @ bio_bytes b' \<and> (\<forall>n. r = Inr n \<longrightarrow> n = length out) \<and> (\<forall>e. r = Inl e \<longrightarrow> out = [])"
  using bio_flush_loop_bytes [OF assms] by (auto simp: bio_flush_def split: option.splits)

theorem bio_flush_prefix_witness:
  "\<exists>r out b'. bio_flush (snd (bio_write 1 bio_init [1, 2])) [Inr 1] = Ok (r, out, b')"
proof -
  obtain k b where w: "bio_write 1 bio_init [1, 2] = (k, b)" by fastforce
  have "k = 2" using bio_write_complete [of bio_init "[1, 2]" 1] w by (simp add: PAGE_SIZE_def)
  with bio_write_bytes [OF bio_init_ok(1) w] have b: "bio_ok b" "bio_bytes b = [1, 2]" by simp_all
  then have "sink_ok b [Inr 1]" by (simp add: bio_copy_bytes PAGE_SIZE_def)
  from bio_flush_prefix [OF b(1) this] w show ?thesis by auto
qed

end
