(* ===== verification/Msgbuf.thy ===== *)
theory Msgbuf
  imports Bufio Crc16
begin

text \<open>
  Messages, \<^verbatim>\<open>src/src/msgbuf/msgbuf.c\<close> and \<^verbatim>\<open>msgbuf.h\<close>: the frame header with its bit fields, the
  tree of control messages, the operations behind \<open>uctl\<close>, the scatter list a sender hands to
  the kernel and its bookkeeping, and the deserializer on a byte buffer. \<open>item\<close> and
  \<open>cmsg_head\<close> are the lists of \<open>ListHead\<close>; here the children of a message are a list.
  The allocator is a parameter: \<open>alloc n\<close> is whether \<open>mem_zalloc\<close> of \<open>n\<close> bytes succeeds.
\<close>

section \<open>The frame\<close>

definition MSGBUF_SUBNUMMARK :: nat where "MSGBUF_SUBNUMMARK = 0xf"
definition MSGBUF_CMSGLENMARK :: nat where "MSGBUF_CMSGLENMARK = 0xfff"

record msghdr =
  checksum :: u16
  cmsg_num :: "4 word"
  cmsg_length :: "12 word"
  ulen :: u32

datatype msgbuf =
  Msgbuf (soff: u32) (frame: msghdr) (ubase: "byte list") (cmsg_head: "msgbuf list")

text \<open>\<open>sizeof (struct msghdr)\<close> and \<open>sizeof (struct msgbuf)\<close> on a 64-bit target: the fields of \<open>struct
  msgbuf\<close>, and with them the place of \<open>ubase\<close>, end at byte 44, and four bytes of padding follow.\<close>

definition sizeof_msghdr :: nat where "sizeof_msghdr = 8"
definition sizeof_msgbuf :: nat where "sizeof_msgbuf = 48"
definition offsetof_ubase :: nat where "offsetof_ubase = 44"

text \<open>The memory image of the frame: \<open>cmsg_num\<close> is the low four bits of the second halfword.\<close>

definition msghdr_bytes :: "msghdr \<Rightarrow> byte list" where
  "msghdr_bytes f =
     le16 (checksum f) @ le16 (ucast (cmsg_num f) OR push_bit 4 (ucast (cmsg_length f))) @
     le32 (ulen f)"

definition msghdr_of_bytes :: "byte list \<Rightarrow> msghdr" where
  "msghdr_of_bytes bs =
     (let w = of_le16 (drop 2 bs)
      in \<lparr>checksum = of_le16 bs, cmsg_num = ucast w, cmsg_length = ucast (drop_bit 4 w),
          ulen = of_le32 (drop 4 bs)\<rparr>)"

definition msgbuf_len :: "msgbuf \<Rightarrow> u32" where
  "msgbuf_len m = of_nat sizeof_msghdr + ulen (frame m)"

fun msgbuf_lens :: "msgbuf \<Rightarrow> u32" where
  "msgbuf_lens (Msgbuf s f u cs) =
     fold (\<lambda>l iovlen. iovlen + l) (map msgbuf_lens cs) (msgbuf_len (Msgbuf s f u cs))"

text \<open>The bytes that start at \<open>msgbuf_base\<close>: the frame and the payload behind it.\<close>

definition msgbuf_base :: "msgbuf \<Rightarrow> byte list" where
  "msgbuf_base m = msghdr_bytes (frame m) @ ubase m"

section \<open>Allocation\<close>

text \<open>
  \<open>int size\<close> is added to \<open>sizeof (struct msgbuf)\<close> and the sum passed to \<open>mem_zalloc (uint32_t)\<close>,
  so it wraps at \<open>2^32\<close>: a size above \<open>2^32 - 49\<close> gets a block shorter than the structure. The
  fields are written next, the last of them, \<open>ulen\<close>, up to byte 44; the block of 44 to 47 bytes that the last four
  sizes get holds them all, but no byte of the payload the header announces.
\<close>

definition msgbuf_alloc :: "(nat \<Rightarrow> bool) \<Rightarrow> i32 \<Rightarrow> msgbuf option cres" where
  "msgbuf_alloc alloc sz =
     (let n = unat (of_nat sizeof_msgbuf + sz)
      in if \<not> alloc n then Ok None
         else if n < offsetof_ubase then Undef
         else Ok (Some (Msgbuf 0
                \<lparr>checksum = crc16 (le32 sz), cmsg_num = 0, cmsg_length = 0, ulen = sz\<rparr>
                (replicate (n - sizeof_msgbuf) 0) [])))"

definition ualloc :: "(nat \<Rightarrow> bool) \<Rightarrow> i32 \<Rightarrow> msgbuf option cres" where
  "ualloc alloc sz = msgbuf_alloc alloc sz"

text \<open>\<open>msgbuf_free\<close>: the sizes it hands to \<open>mem_free (uint32_t)\<close>, in order, children first.\<close>

fun msgbuf_free :: "msgbuf \<Rightarrow> nat list" where
  "msgbuf_free (Msgbuf s f u cs) =
     concat (map msgbuf_free cs) @ [unat (of_nat sizeof_msgbuf + ulen f)]"

definition ufree :: "msgbuf \<Rightarrow> nat list" where
  "ufree m = msgbuf_free m"

definition usize :: "msgbuf \<Rightarrow> i32" where
  "usize m = ulen (frame m)"

section \<open>Control messages: uctl\<close>

text \<open>
  A child is named by its place in \<open>cmsg_head\<close>. What an operation stores through \<open>optval\<close> is
  a number, or a pointer: to the \<open>ubase\<close> of a child, or to the start of its \<open>struct
  msgbuf\<close>, 44 bytes before.
\<close>

datatype uptr = UbasePtr nat | StructPtr nat

fun set_cmsgs :: "msgbuf list \<Rightarrow> msgbuf \<Rightarrow> msgbuf" where
  "set_cmsgs cs (Msgbuf s f u _) = Msgbuf s f u cs"

fun upd_frame :: "(msghdr \<Rightarrow> msghdr) \<Rightarrow> msgbuf \<Rightarrow> msgbuf" where
  "upd_frame g (Msgbuf s f u cs) = Msgbuf s (g f) u cs"

fun upd_ubase :: "(byte list \<Rightarrow> byte list) \<Rightarrow> msgbuf \<Rightarrow> msgbuf" where
  "upd_ubase g (Msgbuf s f u cs) = Msgbuf s f (g u) cs"

definition sub_msgbuf_num :: "msgbuf \<Rightarrow> int" where
  "sub_msgbuf_num m = uint (cmsg_num (frame m))"

definition sub_msgbuf_first :: "msgbuf \<Rightarrow> uptr cres" where
  "sub_msgbuf_first m = (if cmsg_head m \<noteq> [] then Ok (UbasePtr 0) else Err ENONE)"

text \<open>
  \<open>sub_msgbuf_next\<close>: \<open>cont_of\<close> subtracts the offset of \<open>ubase\<close> from the address of the
  next \<open>item\<close> and \<open>frame.ubase\<close> adds it again, so the pointer stored is the address of
  the next \<open>struct msgbuf\<close>; and it is stored through \<open>optval\<close>, the payload of \<open>cur\<close>, behind
  which the block has the four bytes of padding. \<open>item_addr\<close> gives the address of a child's \<open>item\<close>.
\<close>

definition le64 :: "u64 \<Rightarrow> byte list" where
  "le64 w = le32 (ucast w) @ le32 (ucast (drop_bit 32 w))"

definition sub_msgbuf_next :: "(nat \<Rightarrow> u64) \<Rightarrow> msgbuf \<Rightarrow> nat \<Rightarrow> (msgbuf \<times> uptr) cres" where
  "sub_msgbuf_next item_addr m cur =
     (if Suc cur < length (cmsg_head m)
      then if length (ubase (cmsg_head m ! cur)) < 4 then Undef
           else Ok (set_cmsgs ((cmsg_head m)[cur :=
                       upd_ubase (\<lambda>u. memcpy_at u 0 (take (length u) (le64 (item_addr (Suc cur)))))
                         (cmsg_head m ! cur)]) m,
                    StructPtr (Suc cur))
      else Err ENONE)"

definition sub_msgbuf_tail :: "msgbuf \<Rightarrow> uptr cres" where
  "sub_msgbuf_tail m =
     (if cmsg_head m \<noteq> [] then Ok (UbasePtr (length (cmsg_head m) - 1)) else Err ENONE)"

definition sub_msgbuf_add :: "msgbuf \<Rightarrow> msgbuf \<Rightarrow> msgbuf cres" where
  "sub_msgbuf_add m new =
     (if unat (cmsg_num (frame m)) = MSGBUF_SUBNUMMARK \<or>
         unat (ucast (cmsg_length (frame m)) + msgbuf_lens new) > MSGBUF_CMSGLENMARK
      then Err EFBIG
      else Ok (set_cmsgs (cmsg_head m @ [new])
             (upd_frame (\<lambda>f. f\<lparr>cmsg_num := cmsg_num f + 1,
                               cmsg_length := cmsg_length f + ucast (msgbuf_lens new)\<rparr>) m)))"

text \<open>\<open>sub_msgbuf_rm\<close>: the bit fields wrap. They promote to non-negative \<open>int\<close>s, so the
  condition of its \<open>BUG_ON\<close> is written out and never holds.\<close>

definition sub_msgbuf_rm :: "msgbuf \<Rightarrow> nat \<Rightarrow> (msgbuf \<times> msgbuf) cres" where
  "sub_msgbuf_rm m i =
     (let rm = cmsg_head m ! i;
          m' = set_cmsgs (take i (cmsg_head m) @ drop (Suc i) (cmsg_head m))
             (upd_frame (\<lambda>f. f\<lparr>cmsg_num := cmsg_num f - 1,
                               cmsg_length := cmsg_length f - ucast (msgbuf_lens rm)\<rparr>) m)
      in if uint (cmsg_num (frame m')) < 0 \<or> uint (cmsg_length (frame m')) < 0 then Bug
         else Ok (m', rm))"

definition sub_msgbuf_switch :: "msgbuf \<Rightarrow> msgbuf \<Rightarrow> msgbuf \<times> msgbuf" where
  "sub_msgbuf_switch src dst =
     (set_cmsgs [] (upd_frame (\<lambda>f. f\<lparr>cmsg_num := 0, cmsg_length := 0\<rparr>) src),
      set_cmsgs (cmsg_head src @ cmsg_head dst)
        (upd_frame (\<lambda>f. f\<lparr>cmsg_num := cmsg_num (frame src),
                          cmsg_length := cmsg_length (frame src)\<rparr>) dst))"

text \<open>\<open>memcpy\<close> of a negative number of bytes runs past every block.\<close>

definition ubufdup :: "(nat \<Rightarrow> bool) \<Rightarrow> msgbuf \<Rightarrow> msgbuf option cres" where
  "ubufdup alloc m =
     cbind (ualloc alloc (usize m)) (\<lambda>dest.
       case dest of
         None \<Rightarrow> Ok None
       | Some d \<Rightarrow>
           if sint (usize m) < 0 then Undef
           else Ok (Some (upd_ubase (\<lambda>u. memcpy_at u 0 (take (unat (usize m)) (ubase m))) d)))"

text \<open>The loop of \<open>sub_msgbuf_copy\<close>: a refused \<open>sub_msgbuf_add\<close> is ignored, a failed
  \<open>ubufdup\<close> is a null pointer that \<open>sub_msgbuf_add\<close> follows.\<close>

fun sub_msgbuf_copy_walk :: "(nat \<Rightarrow> bool) \<Rightarrow> msgbuf list \<Rightarrow> msgbuf \<Rightarrow> msgbuf cres" where
  "sub_msgbuf_copy_walk alloc [] dest = Ok dest"
| "sub_msgbuf_copy_walk alloc (c # cs) dest =
     cbind (ubufdup alloc c) (\<lambda>d.
       case d of
         None \<Rightarrow> Undef
       | Some new \<Rightarrow>
           (case sub_msgbuf_add dest new of
              Ok dest' \<Rightarrow> sub_msgbuf_copy_walk alloc cs dest'
            | Err _ \<Rightarrow> sub_msgbuf_copy_walk alloc cs dest
            | Bug \<Rightarrow> Bug
            | Undef \<Rightarrow> Undef))"

definition sub_msgbuf_copy :: "(nat \<Rightarrow> bool) \<Rightarrow> msgbuf \<Rightarrow> msgbuf \<Rightarrow> msgbuf cres" where
  "sub_msgbuf_copy alloc src dest = sub_msgbuf_copy_walk alloc (cmsg_head src) dest"

text \<open>
  \<open>uctl\<close>, the bounds test on \<open>opt\<close> and the table \<open>msgbuf_vfptr\<close>, whose first entry is null.
  \<open>optval\<close> is what the operation reads through the pointer; a value of another kind than the
  operation expects is memory of another type.
\<close>

datatype optval = NoVal | ChildVal nat | BufVal msgbuf
datatype outval = NoOut | IntOut int | PtrOut uptr | BufOut msgbuf

definition uctl ::
  "(nat \<Rightarrow> bool) \<Rightarrow> (nat \<Rightarrow> u64) \<Rightarrow> msgbuf \<Rightarrow> int \<Rightarrow> optval \<Rightarrow> (msgbuf \<times> outval) cres" where
  "uctl alloc item_addr m opt v =
     (if opt < 0 \<or> opt \<ge> 9 then Err EINVAL
      else if opt = 1 then Ok (m, IntOut (sub_msgbuf_num m))
      else if opt = 2 then cbind (sub_msgbuf_first m) (\<lambda>p. Ok (m, PtrOut p))
      else if opt = 4 then cbind (sub_msgbuf_tail m) (\<lambda>p. Ok (m, PtrOut p))
      else case v of
        NoVal \<Rightarrow> Undef
      | ChildVal i \<Rightarrow>
          if i \<ge> length (cmsg_head m) then Undef
          else if opt = 3 then cbind (sub_msgbuf_next item_addr m i) (\<lambda>(m', p). Ok (m', PtrOut p))
          else if opt = 6 then cbind (sub_msgbuf_rm m i) (\<lambda>(m', r). Ok (m', BufOut r))
          else Undef
      | BufVal w \<Rightarrow>
          if opt = 5 then cbind (sub_msgbuf_add m w) (\<lambda>m'. Ok (m', NoOut))
          else if opt = 7 then (case sub_msgbuf_switch m w of (m', w') \<Rightarrow> Ok (m', BufOut w'))
          else if opt = 8 then cbind (sub_msgbuf_copy alloc m w) (\<lambda>w'. Ok (m, BufOut w'))
          else Undef)"

section \<open>Sending: scatter lists\<close>

text \<open>
  \<open>msgbuf_serialize\<close>: the segments it installs, at most \<open>n\<close>. A segment is the bytes
  between \<open>iov_base\<close> and \<open>iov_base + iov_len\<close>. The children are walked with the
  recursive call as an argument.
\<close>

definition own_iov :: "msgbuf \<Rightarrow> byte list" where
  "own_iov m = take (unat (msgbuf_len m - soff m)) (drop (unat (soff m)) (msgbuf_base m))"

fun serialize_walk ::
  "(int \<Rightarrow> byte list list cres) list \<Rightarrow> byte list list \<Rightarrow> int \<Rightarrow> byte list list cres" where
  "serialize_walk [] installed n = Ok installed"
| "serialize_walk (f # fs) installed n =
     cbind (f (n - int (length installed))) (\<lambda>r.
       let installed' = installed @ r
       in if int (length installed') > n then Bug
          else if int (length installed') = n then Ok installed'
          else serialize_walk fs installed' n)"

fun msgbuf_serialize :: "msgbuf \<Rightarrow> int \<Rightarrow> byte list list cres" where
  "msgbuf_serialize (Msgbuf s f u cs) n =
     (if n < 0 then Bug
      else if n = 0 then Ok []
      else let iov = own_iov (Msgbuf s f u cs)
           in serialize_walk (map msgbuf_serialize cs)
                (if 0 < msgbuf_len (Msgbuf s f u cs) - s then [iov] else []) n)"

text \<open>
  \<open>__msgbuf_install_iovs\<close>: the value returned, the message with its new offsets, what is left
  of \<open>*length\<close>.
\<close>

fun install_walk ::
  "(int \<Rightarrow> (int \<times> msgbuf \<times> int) cres) list \<Rightarrow> msgbuf list \<Rightarrow> int \<Rightarrow> int \<Rightarrow>
   (int \<times> msgbuf list \<times> int) cres" where
  "install_walk (f # fs) (c # cs) installed len =
     cbind (f len) (\<lambda>(k, c', len').
       if len' = 0 then Ok (installed + k, c' # cs, len')
       else cbind (install_walk fs cs (installed + k) len')
              (\<lambda>(r, cs', len''). Ok (r, c' # cs', len'')))"
| "install_walk _ cs installed len = Ok (installed, cs, len)"

fun install_iovs :: "msgbuf \<Rightarrow> int \<Rightarrow> (int \<times> msgbuf \<times> int) cres" where
  "install_iovs (Msgbuf s f u cs) len =
     (let left = msgbuf_len (Msgbuf s f u cs) - s;
          diff = (if len > uint left then left else of_int len) :: u32;
          s' = s + diff;
          len' = len - uint diff
      in if len' = 0 then Ok (uint s', Msgbuf s' f u cs, len')
         else if len' < 0 then Bug
         else cbind (install_walk (map install_iovs cs) cs (uint s') len')
                (\<lambda>(r, cs', len''). Ok (r, Msgbuf s' f u cs', len'')))"

text \<open>\<open>msgbuf_install_iovs\<close>: whether the whole message has been sent (the return value 0).
  The comparison is between an \<open>i64\<close> and the 32-bit sum of the lengths.\<close>

definition msgbuf_install_iovs :: "msgbuf \<Rightarrow> int \<Rightarrow> (bool \<times> msgbuf \<times> int) cres" where
  "msgbuf_install_iovs m len =
     cbind (install_iovs m len) (\<lambda>(k, m', len').
       Ok (k = uint (msgbuf_len m' + ucast (cmsg_length (frame m'))), m', len'))"

section \<open>Receiving: the deserializer\<close>

definition msgbuf_recv_finish :: "bio \<Rightarrow> bool" where
  "msgbuf_recv_finish b \<longleftrightarrow>
     (if bsize b < sizeof_msghdr then False
      else let f = msghdr_of_bytes (snd (bio_copy b sizeof_msghdr));
               m = Msgbuf 0 f [] []
           in \<not> bsize b < unat (msgbuf_len m + ucast (cmsg_length f)))"

text \<open>\<open>extract_msgbuf\<close>: a failed allocation is a null pointer that \<open>msgbuf_len\<close> follows. What is read is written over
  the frame and the payload of the new message; it may be shorter than the frame.\<close>

definition extract_msgbuf :: "(nat \<Rightarrow> bool) \<Rightarrow> bio \<Rightarrow> (msgbuf \<times> bio) cres" where
  "extract_msgbuf alloc b =
     (let f = msghdr_of_bytes (snd (bio_copy b sizeof_msghdr))
      in cbind (msgbuf_alloc alloc (ulen f)) (\<lambda>p.
           case p of
             None \<Rightarrow> Undef
           | Some m \<Rightarrow>
               if bsize b < unat (msgbuf_len m) then Err ENONE
               else let ((nbytes, d), b') = bio_read b (unat (msgbuf_len m));
                        mem = memcpy_at (msghdr_bytes (frame m) @ ubase m) 0 d;
                        m' = Msgbuf 0 (msghdr_of_bytes mem) (drop sizeof_msghdr mem) []
                    in if nbytes \<noteq> unat (msgbuf_len m') then Bug else Ok (m', b')))"

text \<open>
  \<open>msgbuf_deserialize\<close>. The fuel bounds the depth of the recursion, \<open>None\<close> when it is used
  up. Any error of a child is a \<open>BUG_ON\<close>.
\<close>

fun deserialize_cmsgs ::
  "(bio \<Rightarrow> (msgbuf \<times> bio) cres option) \<Rightarrow> nat \<Rightarrow> bio \<Rightarrow> (msgbuf list \<times> bio) cres option" where
  "deserialize_cmsgs rec 0 b = Some (Ok ([], b))"
| "deserialize_cmsgs rec (Suc sno) b =
     (case rec b of
        None \<Rightarrow> None
      | Some (Ok (s, b')) \<Rightarrow>
          map_option (\<lambda>r. cbind r (\<lambda>(cs, b''). Ok (s # cs, b''))) (deserialize_cmsgs rec sno b')
      | Some (Err e) \<Rightarrow> Some Bug
      | Some Bug \<Rightarrow> Some Bug
      | Some Undef \<Rightarrow> Some Undef)"

fun msgbuf_deserialize :: "nat \<Rightarrow> (nat \<Rightarrow> bool) \<Rightarrow> bio \<Rightarrow> (msgbuf \<times> bio) cres option" where
  "msgbuf_deserialize 0 alloc b = None"
| "msgbuf_deserialize (Suc n) alloc b =
     (if \<not> msgbuf_recv_finish b then Some (Err EAGAIN)
      else case extract_msgbuf alloc b of
             Ok (m, b') \<Rightarrow>
               map_option (\<lambda>r. cbind r (\<lambda>(cs, b''). Ok (set_cmsgs cs m, b'')))
                 (deserialize_cmsgs (msgbuf_deserialize n alloc) (unat (cmsg_num (frame m))) b')
           | Err e \<Rightarrow> Some Bug
           | Bug \<Rightarrow> Some Bug
           | Undef \<Rightarrow> Some Undef)"

text \<open>\<open>msgbuf_md5\<close>: the three functions of \<^verbatim>\<open>md5.c\<close> are arguments.\<close>

fun md5_walk :: "('st \<Rightarrow> byte list \<Rightarrow> 'st) \<Rightarrow> msgbuf \<Rightarrow> 'st \<Rightarrow> 'st" where
  "md5_walk md5_process (Msgbuf s f u cs) st =
     fold (\<lambda>g st. g st) (map (md5_walk md5_process) cs)
       (md5_process st (msgbuf_base (Msgbuf s f u cs)))"

definition msgbuf_md5 :: "'st \<Rightarrow> ('st \<Rightarrow> byte list \<Rightarrow> 'st) \<Rightarrow> ('st \<Rightarrow> byte list) \<Rightarrow> msgbuf \<Rightarrow> byte list" where
  "msgbuf_md5 md5_init md5_process md5_done m = md5_done (md5_walk md5_process m md5_init)"

section \<open>The frame header on the wire\<close>

lemma length_msghdr_bytes [simp]: "length (msghdr_bytes f) = 8"
  by (simp add: msghdr_bytes_def)

lemma bits_num: "ucast (ucast a OR push_bit 4 (ucast b :: u16)) = (a :: 4 word)"
  by (rule bit_word_eqI) (auto simp: bit_simps)

lemma bits_length:
  "ucast (drop_bit 4 (ucast (a :: 4 word)) OR drop_bit 4 (push_bit 4 (ucast b :: u16))) = (b :: 12 word)"
  by (rule bit_word_eqI) (auto simp: bit_simps dest: bit_imp_le_length)

lemma msghdr_of_bytes_append [simp]: "msghdr_of_bytes (msghdr_bytes f @ r) = f"
proof -
  have "drop 2 (msghdr_bytes f @ r) =
      le16 (ucast (cmsg_num f) OR push_bit 4 (ucast (cmsg_length f))) @ le32 (ulen f) @ r"
    by (simp add: msghdr_bytes_def)
  moreover have "drop 4 (msghdr_bytes f @ r) = le32 (ulen f) @ r"
    by (simp add: msghdr_bytes_def)
  moreover have "of_le16 (msghdr_bytes f @ r) = checksum f"
    by (simp add: msghdr_bytes_def)
  ultimately show ?thesis
    by (simp add: msghdr_of_bytes_def Let_def bits_num bits_length)
qed

lemma msghdr_of_bytes_id [simp]: "msghdr_of_bytes (msghdr_bytes f) = f"
  using msghdr_of_bytes_append [of f "[]"] by simp

section \<open>Well-formed messages\<close>

text \<open>The bytes of a message on the wire: its frame, its payload, its children.\<close>

fun wire :: "msgbuf \<Rightarrow> byte list" where
  "wire (Msgbuf s f u cs) = msgbuf_base (Msgbuf s f u cs) @ concat (map wire cs)"

definition wires :: "msgbuf list \<Rightarrow> byte list" where
  "wires ms = concat (map wire ms)"

lemma wires_simps [simp]: "wires [] = []" "wires (m # ms) = wire m @ wires ms"
  "wires (ms @ ns) = wires ms @ wires ns"
  by (simp_all add: wires_def)

lemma wire_eq: "wire m = msgbuf_base m @ wires (cmsg_head m)"
  by (cases m) (simp add: wires_def)

lemma length_wires: "length (wires ms) = (\<Sum>c\<leftarrow>ms. length (wire c))"
  by (simp add: wires_def length_concat comp_def)

text \<open>
  What \<open>msgbuf_alloc\<close> establishes and the control operations are to keep: the payload has
  the announced length, a positive \<open>int\<close>; the counters agree with the children.
\<close>

fun wf_msg :: "msgbuf \<Rightarrow> bool" where
  "wf_msg (Msgbuf s f u cs) \<longleftrightarrow>
     length u = unat (ulen f) \<and> unat (ulen f) < 2 ^ 31 \<and> unat (cmsg_num f) = length cs \<and>
     unat (cmsg_length f) = (\<Sum>c\<leftarrow>cs. length (wire c)) \<and> list_all wf_msg cs"

lemma wf_msg_iff:
  "wf_msg m \<longleftrightarrow> length (ubase m) = unat (ulen (frame m)) \<and> unat (ulen (frame m)) < 2 ^ 31 \<and>
     unat (cmsg_num (frame m)) = length (cmsg_head m) \<and>
     unat (cmsg_length (frame m)) = length (wires (cmsg_head m)) \<and> list_all wf_msg (cmsg_head m)"
  by (cases m) (simp add: length_wires)

lemma unat_12: "unat (w :: 12 word) < 4096" and unat_4: "unat (v :: 4 word) < 16"
  using unsigned_less [of w, where 'a = nat] unsigned_less [of v, where 'a = nat] by simp_all

lemma unat_ucast_32: "unat (ucast (w :: 12 word) :: u32) = unat w"
  using unat_12 [of w] by (simp add: unsigned_ucast_eq take_bit_nat_eq_self)

lemma length_msgbuf_base: "wf_msg m \<Longrightarrow> length (msgbuf_base m) = 8 + unat (ulen (frame m))"
  by (simp add: msgbuf_base_def wf_msg_iff)

lemma unat_msgbuf_len: "unat (ulen (frame m)) < 2 ^ 31 \<Longrightarrow> unat (msgbuf_len m) = 8 + unat (ulen (frame m))"
  by (simp add: msgbuf_len_def sizeof_msghdr_def unat_word_ariths)

lemma length_wire:
  "wf_msg m \<Longrightarrow>
   length (wire m) = unat (msgbuf_len m) + unat (cmsg_length (frame m)) \<and> length (wire m) < 2 ^ 31 + 4104"
  using length_msgbuf_base [of m] unat_msgbuf_len [of m] unat_12 [of "cmsg_length (frame m)"]
  by (simp add: wire_eq wf_msg_iff)

lemma unat_fold_add:
  "unat w + sum_list (map unat ws) < 2 ^ 32 \<Longrightarrow>
   unat (fold (\<lambda>l a. a + l) ws (w :: u32)) = unat w + sum_list (map unat ws)"
proof (induction ws arbitrary: w)
  case (Cons v vs)
  then have "unat (w + v) = unat w + unat v" by (simp add: unat_word_ariths)
  with Cons.IH [of "w + v"] Cons.prems show ?case by simp
qed simp

lemma unat_msgbuf_lens: "wf_msg m \<Longrightarrow> unat (msgbuf_lens m) = length (wire m)"
proof (induction m)
  case (Msgbuf s f u cs)
  let ?m = "Msgbuf s f u cs"
  have IH: "unat (msgbuf_lens c) = length (wire c)" if "c \<in> set cs" for c
    using Msgbuf.IH [OF that] Msgbuf.prems that by (simp add: list_all_iff)
  then have eq: "map unat (map msgbuf_lens cs) = map (length \<circ> wire) cs" by simp
  have "unat (msgbuf_len ?m) + sum_list (map unat (map msgbuf_lens cs)) = length (wire ?m)"
    using length_wire [OF Msgbuf.prems] Msgbuf.prems by (simp only: eq) (simp add: comp_def)
  with length_wire [OF Msgbuf.prems] unat_fold_add [of "msgbuf_len ?m" "map msgbuf_lens cs"]
  show ?case by simp
qed

lemma msgbuf_alloc_Some:
  assumes "msgbuf_alloc alloc sz = Ok (Some m)"
  shows "unat sz < 2 ^ 32 - 48 \<or> 2 ^ 32 - 4 \<le> unat sz" "soff m = 0" "cmsg_head m = []" "ulen (frame m) = sz"
    "checksum (frame m) = crc16 (le32 sz)" "unat sz < 2 ^ 31 \<Longrightarrow> wf_msg m"
    "unat (msgbuf_len m) = (if unat sz < 2 ^ 32 - 48 then 8 + unat sz else unat sz + 8 - 2 ^ 32)"
    "ubase m = replicate (if unat sz < 2 ^ 32 - 48 then unat sz else 0) 0"
proof -
  define n where "n = unat (of_nat sizeof_msgbuf + sz)"
  have n: "\<not> n < 44" and m: "m = Msgbuf 0
      \<lparr>checksum = crc16 (le32 sz), cmsg_num = 0, cmsg_length = 0, ulen = sz\<rparr> (replicate (n - 48) 0) []"
    using assms by (auto simp: msgbuf_alloc_def sizeof_msgbuf_def offsetof_ubase_def n_def Let_def split: if_splits)
  have nm: "n = (48 + unat sz) mod 2 ^ 32" by (simp add: n_def sizeof_msgbuf_def unat_word_ariths)
  have u: "unat sz < 2 ^ 32" using unsigned_less [of sz, where 'a = nat] by simp
  show l: "unat sz < 2 ^ 32 - 48 \<or> 2 ^ 32 - 4 \<le> unat sz"
  proof (rule ccontr)
    assume c: "\<not> (unat sz < 2 ^ 32 - 48 \<or> 2 ^ 32 - 4 \<le> unat sz)"
    then have "(48 + unat sz) mod 2 ^ 32 = 48 + unat sz - 2 ^ 32" using u by (subst mod_if) (simp add: less_imp_diff_less)
    with n nm have "44 \<le> 48 + unat sz - 2 ^ 32" by linarith
    with c show False by linarith
  qed
  have k: "n - 48 = (if unat sz < 2 ^ 32 - 48 then unat sz else 0)"
  proof (cases "unat sz < 2 ^ 32 - 48")
    case False
    then have "(48 + unat sz) mod 2 ^ 32 = 48 + unat sz - 2 ^ 32" using u by (subst mod_if) (simp add: less_imp_diff_less)
    with nm u False show ?thesis by simp
  qed (use nm in simp)
  show "soff m = 0" "cmsg_head m = []" "ulen (frame m) = sz" "checksum (frame m) = crc16 (le32 sz)"
    "ubase m = replicate (if unat sz < 2 ^ 32 - 48 then unat sz else 0) 0"
    by (simp_all only: m k msgbuf.sel msghdr.select_convs)
  then show "unat sz < 2 ^ 31 \<Longrightarrow> wf_msg m" by (simp add: m k)
  have "unat (msgbuf_len m) = (8 + unat sz) mod 2 ^ 32" by (simp add: m msgbuf_len_def sizeof_msghdr_def unat_word_ariths)
  also have "\<dots> = (if unat sz < 2 ^ 32 - 48 then 8 + unat sz else unat sz + 8 - 2 ^ 32)"
  proof (cases "unat sz < 2 ^ 32 - 48")
    case False
    then have "2 ^ 32 - 4 \<le> unat sz" using l by blast
    with False u show ?thesis by (subst mod_if) (simp add: less_imp_diff_less)
  qed simp
  finally show "unat (msgbuf_len m) = (if unat sz < 2 ^ 32 - 48 then 8 + unat sz else unat sz + 8 - 2 ^ 32)" .
qed

lemma msgbuf_alloc_frame:
  "msgbuf_alloc alloc sz = Ok (Some m) \<Longrightarrow> frame m = \<lparr>checksum = crc16 (le32 sz), cmsg_num = 0, cmsg_length = 0, ulen = sz\<rparr>"
  by (auto simp: msgbuf_alloc_def Let_def split: if_splits)

lemma sint_less_zero_iff: "sint (w :: i32) < 0 \<longleftrightarrow> 2 ^ 31 \<le> unat w"
proof -
  have "sint w < 0 \<longleftrightarrow> bit w 31" using bit_last_iff [of w] by simp
  also have "\<dots> \<longleftrightarrow> 2 ^ 31 \<le> unat w"
  proof -
    have "unat w < 2 ^ 32" using unsigned_less [of w, where 'a = nat] by simp
    then have "unat w div 2 ^ 31 < 2" by simp
    then have "odd (unat w div 2 ^ 31) \<longleftrightarrow> unat w div 2 ^ 31 \<noteq> 0" by (cases "unat w div 2 ^ 31") auto
    then have "odd (unat w div 2 ^ 31) \<longleftrightarrow> 2 ^ 31 \<le> unat w" by (simp add: div_eq_0_iff not_less)
    moreover have "bit w 31 = bit (unat w) 31" by (simp add: bit_unsigned_iff)
    ultimately show ?thesis by (simp add: bit_iff_odd)
  qed
  finally show ?thesis .
qed

lemma msgbuf_alloc_total:
  assumes "unat sz < 2 ^ 31" "\<And>n. alloc n"
  shows "\<exists>m. msgbuf_alloc alloc sz = Ok (Some m)"
proof -
  have "\<not> unat (of_nat sizeof_msgbuf + sz) < offsetof_ubase"
    using assms(1) by (simp add: sizeof_msgbuf_def offsetof_ubase_def unat_word_ariths)
  then show ?thesis using assms(2) by (simp add: msgbuf_alloc_def Let_def)
qed

section \<open>Control operations keep messages well formed\<close>

lemma msgbuf_sel [simp]:
  "cmsg_head (set_cmsgs cs m) = cs" "frame (set_cmsgs cs m) = frame m"
  "ubase (set_cmsgs cs m) = ubase m" "soff (set_cmsgs cs m) = soff m"
  "cmsg_head (upd_frame g m) = cmsg_head m" "frame (upd_frame g m) = g (frame m)"
  "ubase (upd_frame g m) = ubase m" "soff (upd_frame g m) = soff m"
  "cmsg_head (upd_ubase h m) = cmsg_head m" "frame (upd_ubase h m) = frame m"
  "ubase (upd_ubase h m) = h (ubase m)" "soff (upd_ubase h m) = soff m"
  by (cases m; simp)+

text \<open>When \<open>SADD\<close> refuses: at 15 children, or when the total would pass 4095 bytes.\<close>

lemma sub_msgbuf_add_cases:
  assumes "wf_msg m" "wf_msg new"
  shows "sub_msgbuf_add m new =
    (if length (cmsg_head m) = 15 \<or> length (wires (cmsg_head m)) + length (wire new) > 4095
     then Err EFBIG
     else Ok (set_cmsgs (cmsg_head m @ [new])
            (upd_frame (\<lambda>f. f\<lparr>cmsg_num := cmsg_num f + 1,
                              cmsg_length := cmsg_length f + ucast (msgbuf_lens new)\<rparr>) m)))"
proof -
  let ?cl = "cmsg_length (frame m)"
  have len: "unat ?cl = length (wires (cmsg_head m))" "unat (cmsg_num (frame m)) = length (cmsg_head m)"
    using assms(1) by (auto simp: wf_msg_iff)
  have "unat (ucast ?cl :: u32) = unat ?cl"
    by (rule unat_ucast_32)
  moreover have "unat ?cl < 4096" "unat (msgbuf_lens new) < 2 ^ 31 + 4104"
    using unat_12 unat_msgbuf_lens [OF assms(2)] length_wire [OF assms(2)] by auto
  ultimately have "unat (ucast ?cl + msgbuf_lens new) = unat ?cl + unat (msgbuf_lens new)"
    by (simp add: unat_word_ariths)
  then show ?thesis
    using len unat_msgbuf_lens [OF assms(2)]
    by (auto simp: sub_msgbuf_add_def MSGBUF_SUBNUMMARK_def MSGBUF_CMSGLENMARK_def)
qed

lemma unat_ucast_12: "unat (w :: u32) < 4096 \<Longrightarrow> unat (ucast w :: 12 word) = unat w"
  by (simp add: unsigned_ucast_eq take_bit_nat_eq_self)

lemma sub_msgbuf_add_wf [invs]:
  assumes "wf_msg m" "wf_msg new" "sub_msgbuf_add m new = Ok m'"
  shows "wf_msg m'" "cmsg_head m' = cmsg_head m @ [new]" "ubase m' = ubase m" "soff m' = soff m"
proof -
  from assms have c: "length (cmsg_head m) \<noteq> 15"
      "length (wires (cmsg_head m)) + length (wire new) \<le> 4095"
    and m': "m' = set_cmsgs (cmsg_head m @ [new])
            (upd_frame (\<lambda>f. f\<lparr>cmsg_num := cmsg_num f + 1,
                              cmsg_length := cmsg_length f + ucast (msgbuf_lens new)\<rparr>) m)"
    by (auto simp: sub_msgbuf_add_cases split: if_splits)
  have w: "unat (cmsg_num (frame m)) = length (cmsg_head m)"
    "unat (cmsg_length (frame m)) = length (wires (cmsg_head m))"
    using assms(1) by (auto simp: wf_msg_iff)
  have "unat (ucast (msgbuf_lens new) :: 12 word) = length (wire new)"
    using unat_ucast_12 [of "msgbuf_lens new"] unat_msgbuf_lens [OF assms(2)] c by simp
  then have l: "unat (cmsg_length (frame m) + ucast (msgbuf_lens new)) =
      length (wires (cmsg_head m)) + length (wire new)"
    using w c by (simp add: unat_word_ariths)
  have "unat (cmsg_num (frame m) + 1) = Suc (length (cmsg_head m))"
    using w c unat_4 [of "cmsg_num (frame m)"] by (simp add: unat_word_ariths)
  with l assms(1,2) show "wf_msg m'" by (auto simp: m' wf_msg_iff)
  show "cmsg_head m' = cmsg_head m @ [new]" "ubase m' = ubase m" "soff m' = soff m"
    by (simp_all add: m')
qed

lemma sub_msgbuf_rm_wf [invs]:
  assumes wf: "wf_msg m" and i: "i < length (cmsg_head m)"
  shows "\<exists>m'. sub_msgbuf_rm m i = Ok (m', cmsg_head m ! i) \<and> wf_msg m' \<and> wf_msg (cmsg_head m ! i) \<and>
    cmsg_head m' = take i (cmsg_head m) @ drop (Suc i) (cmsg_head m)"
proof -
  let ?cs = "cmsg_head m" and ?f = "frame m"
  let ?rm = "?cs ! i" and ?rest = "take i (cmsg_head m) @ drop (Suc i) (cmsg_head m)"
  have w: "unat (cmsg_num ?f) = length ?cs" "unat (cmsg_length ?f) = length (wires ?cs)"
    "list_all wf_msg ?cs" using wf by (auto simp: wf_msg_iff)
  then have rm: "wf_msg ?rm" using i by (simp add: list_all_length)
  have split: "length (wires ?cs) = length (wire ?rm) + length (wires ?rest)"
    using sum_list_map_remove_nth [OF i, of "length \<circ> wire"]
    unfolding length_wires by (simp add: comp_def)
  then have "unat (msgbuf_lens ?rm) < 4096"
    using unat_msgbuf_lens [OF rm] w unat_12 [of "cmsg_length ?f"] by simp
  then have "unat (ucast (msgbuf_lens ?rm) :: 12 word) = length (wire ?rm)"
    using unat_ucast_12 unat_msgbuf_lens [OF rm] by simp
  then have l: "unat (cmsg_length ?f - ucast (msgbuf_lens ?rm)) = length (wires ?rest)"
    using split w by (simp add: unat_sub_if' del: wires_simps)
  have n: "unat (cmsg_num ?f - 1) = length ?rest"
    using w i by (simp add: unat_sub_if')
  have all: "list_all wf_msg ?rest"
    using w(3) by (auto simp: list_all_iff dest: in_set_takeD in_set_dropD)
  let ?m' = "set_cmsgs ?rest (upd_frame (\<lambda>f. f\<lparr>cmsg_num := cmsg_num f - 1,
                   cmsg_length := cmsg_length f - ucast (msgbuf_lens ?rm)\<rparr>) m)"
  have "wf_msg ?m'" using wf l n all by (auto simp: wf_msg_iff simp del: wires_simps length_append)
  then show ?thesis using rm by (auto simp: sub_msgbuf_rm_def Let_def)
qed

text \<open>\<open>SSWITCH\<close> onto a message without children; with children the counters are wrong after it.\<close>

lemma sub_msgbuf_switch_wf [invs]:
  assumes "wf_msg src" "wf_msg dst" "cmsg_head dst = []" "sub_msgbuf_switch src dst = (src', dst')"
  shows "wf_msg src'" "wf_msg dst'" "cmsg_head src' = []" "cmsg_head dst' = cmsg_head src"
  using assms by (auto simp: sub_msgbuf_switch_def wf_msg_iff)

lemma sub_msgbuf_switch_not_wf:
  assumes "wf_msg src" "cmsg_head dst \<noteq> []"
  shows "\<not> wf_msg (snd (sub_msgbuf_switch src dst))"
  using assms by (auto simp: sub_msgbuf_switch_def wf_msg_iff)

text \<open>\<open>SNEXT\<close> never yields a \<open>ubuf\<close>.\<close>

lemma sub_msgbuf_next_not_ubase:
  "sub_msgbuf_next item_addr m cur = Ok (m', p) \<Longrightarrow> p = StructPtr (Suc cur)"
  by (auto simp: sub_msgbuf_next_def split: if_splits)

text \<open>What \<open>ubufdup\<close> makes of a message: a fresh one with the same payload.\<close>

definition dup :: "msgbuf \<Rightarrow> msgbuf" where
  "dup m = Msgbuf 0 \<lparr>checksum = crc16 (le32 (ulen (frame m))), cmsg_num = 0, cmsg_length = 0,
                     ulen = ulen (frame m)\<rparr> (ubase m) []"

lemma ubufdup_dup:
  assumes "wf_msg m" "\<And>n. alloc n"
  shows "ubufdup alloc m = Ok (Some (dup m))"
proof -
  have u: "length (ubase m) = unat (ulen (frame m))" "unat (ulen (frame m)) < 2 ^ 31"
    using assms(1) by (auto simp: wf_msg_iff)
  obtain d where d: "msgbuf_alloc alloc (ulen (frame m)) = Ok (Some d)"
    using msgbuf_alloc_total [of _ alloc, OF u(2) assms(2)] by auto
  note d' = msgbuf_alloc_Some [OF d]
  have "upd_ubase (\<lambda>b. memcpy_at b 0 (take (unat (ulen (frame m))) (ubase m))) d = dup m"
    using d'(2-5,8) d u msgbuf_alloc_frame [OF d] by (cases d) (simp add: dup_def memcpy_at_def)
  with d u show ?thesis by (simp add: ubufdup_def ualloc_def usize_def sint_less_zero_iff)
qed

lemma dup_wf [invs]: "wf_msg m \<Longrightarrow> wf_msg (dup m)"
  by (simp add: dup_def wf_msg_iff)

lemma length_wire_dup: "wf_msg m \<Longrightarrow> length (wire (dup m)) \<le> length (wire m)"
  by (cases m) (simp add: dup_def msgbuf_base_def)

lemma sub_msgbuf_copy_walk_all:
  "\<lbrakk>\<And>n. alloc n; list_all wf_msg cs; wf_msg dest;
    length (cmsg_head dest) + length cs \<le> 15;
    length (wires (cmsg_head dest)) + length (wires cs) \<le> 4095\<rbrakk> \<Longrightarrow>
   \<exists>dest'. sub_msgbuf_copy_walk alloc cs dest = Ok dest' \<and> wf_msg dest' \<and>
     cmsg_head dest' = cmsg_head dest @ map dup cs \<and> ubase dest' = ubase dest"
proof (induction cs arbitrary: dest)
  case (Cons c cs)
  have c: "wf_msg c" "list_all wf_msg cs" using Cons.prems(2) by auto
  have le: "length (wire (dup c)) \<le> length (wire c)" using length_wire_dup [OF c(1)] .
  then have "\<exists>d. sub_msgbuf_add dest (dup c) = Ok d"
    using Cons.prems by (simp add: sub_msgbuf_add_cases [OF Cons.prems(3) dup_wf [OF c(1)]])
  then obtain d where d: "sub_msgbuf_add dest (dup c) = Ok d" ..
  note wf = sub_msgbuf_add_wf [OF Cons.prems(3) dup_wf [OF c(1)] d]
  have "length (cmsg_head d) + length cs \<le> 15"
    "length (wires (cmsg_head d)) + length (wires cs) \<le> 4095"
    using wf(2) le Cons.prems(4,5) by auto
  from Cons.IH [OF Cons.prems(1) c(2) wf(1) this] show ?case
    using d wf ubufdup_dup [OF c(1) Cons.prems(1)] by auto
qed simp

section \<open>The deserializer on byte strings\<close>

text \<open>The deserializer as a function of the bytes the buffer holds.\<close>

definition frame_complete :: "byte list \<Rightarrow> bool" where
  "frame_complete bs \<longleftrightarrow>
     8 \<le> length bs \<and>
     unat (msgbuf_len (Msgbuf 0 (msghdr_of_bytes (take 8 bs)) [] []) +
           ucast (cmsg_length (msghdr_of_bytes (take 8 bs)))) \<le> length bs"

definition parse_one :: "(nat \<Rightarrow> bool) \<Rightarrow> byte list \<Rightarrow> (msgbuf \<times> byte list) cres" where
  "parse_one alloc bs =
     cbind (msgbuf_alloc alloc (ulen (msghdr_of_bytes (take 8 bs)))) (\<lambda>p.
       case p of
         None \<Rightarrow> Undef
       | Some m \<Rightarrow>
           let n = unat (msgbuf_len m)
           in if length bs < n then Err ENONE
              else Ok (Msgbuf 0 (msghdr_of_bytes (take 8 bs)) (drop 8 (take n bs)) [], drop n bs))"

fun parse_cmsgs ::
  "(byte list \<Rightarrow> (msgbuf \<times> byte list) cres option) \<Rightarrow> nat \<Rightarrow> byte list \<Rightarrow>
   (msgbuf list \<times> byte list) cres option" where
  "parse_cmsgs rec 0 bs = Some (Ok ([], bs))"
| "parse_cmsgs rec (Suc k) bs =
     (case rec bs of
        None \<Rightarrow> None
      | Some (Ok (s, bs')) \<Rightarrow>
          map_option (\<lambda>r. cbind r (\<lambda>(cs, bs''). Ok (s # cs, bs''))) (parse_cmsgs rec k bs')
      | Some (Err e) \<Rightarrow> Some Bug
      | Some Bug \<Rightarrow> Some Bug
      | Some Undef \<Rightarrow> Some Undef)"

fun parse :: "nat \<Rightarrow> (nat \<Rightarrow> bool) \<Rightarrow> byte list \<Rightarrow> (msgbuf \<times> byte list) cres option" where
  "parse 0 alloc bs = None"
| "parse (Suc n) alloc bs =
     (if \<not> frame_complete bs then Some (Err EAGAIN)
      else case parse_one alloc bs of
             Ok (m, bs') \<Rightarrow>
               map_option (\<lambda>r. cbind r (\<lambda>(cs, bs''). Ok (set_cmsgs cs m, bs'')))
                 (parse_cmsgs (parse n alloc) (unat (cmsg_num (frame m))) bs')
           | Err e \<Rightarrow> Some Bug
           | Bug \<Rightarrow> Some Bug
           | Undef \<Rightarrow> Some Undef)"

text \<open>Agreement of a result over a buffer with a result over its bytes.\<close>

fun agrees :: "('a \<times> bio) cres option \<Rightarrow> ('a \<times> byte list) cres option \<Rightarrow> bool" where
  "agrees (Some (Ok (x, b))) (Some (Ok (y, bs))) \<longleftrightarrow> x = y \<and> bio_ok b \<and> bio_bytes b = bs"
| "agrees (Some (Err e)) (Some (Err e')) \<longleftrightarrow> e = e'"
| "agrees (Some Bug) (Some Bug) \<longleftrightarrow> True"
| "agrees (Some Undef) (Some Undef) \<longleftrightarrow> True"
| "agrees None None \<longleftrightarrow> True"
| "agrees _ _ \<longleftrightarrow> False"

lemma agrees_cases:
  assumes "agrees r p"
  obtains (ok) x b where "r = Some (Ok (x, b))" "p = Some (Ok (x, bio_bytes b))" "bio_ok b"
    | (err) e where "r = Some (Err e)" "p = Some (Err e)"
    | (bug) "r = Some Bug" "p = Some Bug" | (undef) "r = Some Undef" "p = Some Undef"
    | (fuel) "r = None" "p = None"
  using assms by (cases "(r, p)" rule: agrees.cases) auto

lemma agrees_UndefD: "agrees r (Some Undef) \<Longrightarrow> r = Some Undef"
  by (erule agrees_cases) simp_all

lemma agrees_BugD: "agrees r (Some Bug) \<Longrightarrow> r = Some Bug"
  by (erule agrees_cases) simp_all

lemma msgbuf_recv_finish_bytes:
  "bio_ok b \<Longrightarrow> msgbuf_recv_finish b = frame_complete (bio_bytes b)"
  by (auto simp: msgbuf_recv_finish_def frame_complete_def bio_copy_bytes sizeof_msghdr_def Let_def
                 bio_ok_def not_less)

lemma msghdr_of_bytes_take:
  "8 \<le> length bs \<Longrightarrow> 8 \<le> n \<Longrightarrow> msghdr_of_bytes (take n bs) = msghdr_of_bytes bs"
  by (simp add: msghdr_of_bytes_def Let_def of_le16_def of_le32_def)

lemma msgbuf_alloc_cases:
  obtains "msgbuf_alloc alloc sz = Undef" | "msgbuf_alloc alloc sz = Ok None"
    | m where "msgbuf_alloc alloc sz = Ok (Some m)"
  unfolding msgbuf_alloc_def Let_def by (metis (full_types))

lemma le32_of_le32:
  assumes "4 \<le> length bs"
  shows "le32 (of_le32 bs) = take 4 bs"
proof -
  have b: "take 4 bs = [bs ! 0, bs ! 1, bs ! 2, bs ! 3]" using assms
    by (intro nth_equalityI) (auto simp: less_Suc_eq numeral_eq_Suc)
  have hi: "\<not> bit (x :: byte) (k + n)" if "8 \<le> k" for x k n using bit_imp_le_length [of x "k + n"] that by auto
  show ?thesis unfolding b le32_def of_le32_def
    by (auto intro!: bit_word_eqI simp: bit_simps hi)
qed

lemma extract_msgbuf_agrees:
  assumes ok: "bio_ok b" and alloc8: "8 \<le> length (bio_bytes b)"
  shows "agrees (Some (extract_msgbuf alloc b)) (Some (parse_one alloc (bio_bytes b)))"
proof -
  let ?bs = "bio_bytes b"
  let ?f = "msghdr_of_bytes (take 8 ?bs)"
  show ?thesis
  proof (cases rule: msgbuf_alloc_cases [of alloc "ulen ?f"])
    case (3 m)
    note al = msgbuf_alloc_Some [OF 3]
    show ?thesis
    proof (cases "length ?bs < unat (msgbuf_len m)")
      case True
      with 3 ok show ?thesis
        by (simp add: extract_msgbuf_def parse_one_def bio_copy_bytes sizeof_msghdr_def bio_ok_def)
    next
      case False
      obtain k d b' where r: "bio_read b (unat (msgbuf_len m)) = ((k, d), b')"
        by (cases "bio_read b (unat (msgbuf_len m))") auto
      note rd = bio_read_bytes [OF ok r]
      let ?n = "unat (msgbuf_len m)"
      let ?mem = "memcpy_at (msghdr_bytes (frame m) @ ubase m) 0 d"
      have ld: "d = take ?n ?bs" "length d = ?n" using rd(2) False by simp_all
      have mem: "?mem = take 8 ?bs @ drop 8 (take ?n ?bs)"
      proof (cases "unat (ulen ?f) < 2 ^ 32 - 48")
        case True
        have n: "?n = 8 + length (ubase m)" unfolding al(7,8) using True by (simp only: if_True length_replicate)
        then have "?mem = d" using ld(2) by (simp add: memcpy_at_def)
        also have "\<dots> = take 8 (take ?n ?bs) @ drop 8 (take ?n ?bs)" by (simp only: append_take_drop_id ld(1))
        also have "take 8 (take ?n ?bs) = take 8 ?bs" using n by (simp add: min_def)
        finally show ?thesis .
      next
        case wrap: False
        have "unat (ulen ?f) < 2 ^ 32" using unsigned_less [of "ulen ?f", where 'a = nat] by simp
        moreover have "2 ^ 32 - 4 \<le> unat (ulen ?f)" using al(1) wrap by blast
        moreover have "?n = unat (ulen ?f) + 8 - 2 ^ 32" "ubase m = []" unfolding al(7,8) using wrap by (simp_all only: if_False replicate.simps)
        ultimately have n: "ubase m = []" "4 \<le> ?n" "?n < 8" by linarith+
        have fm: "frame m = \<lparr>checksum = crc16 (le32 (ulen ?f)), cmsg_num = 0, cmsg_length = 0, ulen = ulen ?f\<rparr>"
          by (rule msgbuf_alloc_frame [OF 3])
        have "drop 4 (msghdr_bytes (frame m)) = le32 (ulen ?f)" by (simp add: msghdr_bytes_def fm)
        also have "\<dots> = take 4 (drop 4 ?bs)" using alloc8 by (simp add: msghdr_of_bytes_def Let_def drop_take le32_of_le32)
        finally have "drop ?n (msghdr_bytes (frame m)) = drop (?n - 4) (take 4 (drop 4 ?bs))"
          using n(2) by (metis drop_drop le_add_diff_inverse2)
        also have "\<dots> = drop ?n (take 8 ?bs)" using n(2) by (simp add: drop_take)
        finally have "?mem = take ?n (take 8 ?bs) @ drop ?n (take 8 ?bs)"
          using ld n by (simp add: memcpy_at_def min_def)
        moreover have "drop 8 (take ?n ?bs) = []" using n(3) by simp
        ultimately show ?thesis by (simp only: append_take_drop_id append_Nil2)
      qed
      then have hd: "msghdr_of_bytes ?mem = ?f" "drop 8 ?mem = drop 8 (take ?n ?bs)"
        using alloc8 msghdr_of_bytes_take [of "take 8 ?bs @ drop 8 (take ?n ?bs)" 8]
          msghdr_of_bytes_take [of ?bs 8] by simp_all
      then have "k = unat (msgbuf_len (Msgbuf 0 (msghdr_of_bytes ?mem) (drop 8 ?mem) []))"
        using rd(1) False al(4) by (simp add: msgbuf_len_def)
      with 3 r rd ok False hd show ?thesis
        by (simp add: extract_msgbuf_def parse_one_def bio_copy_bytes sizeof_msghdr_def bio_ok_def
                      Let_def)
    qed
  qed (use ok in \<open>simp_all add: extract_msgbuf_def parse_one_def bio_copy_bytes sizeof_msghdr_def\<close>)
qed

lemma deserialize_cmsgs_agrees:
  assumes "\<And>b. bio_ok b \<Longrightarrow> agrees (rec b) (prec (bio_bytes b))"
  shows "bio_ok b \<Longrightarrow> agrees (deserialize_cmsgs rec k b) (parse_cmsgs prec k (bio_bytes b))"
proof (induction k arbitrary: b)
  case (Suc k)
  from assms [OF Suc.prems] show ?case
  proof (cases rule: agrees_cases)
    case (ok s b')
    from Suc.IH [OF ok(3)] show ?thesis by (cases rule: agrees_cases) (use ok in auto)
  qed auto
qed simp

text \<open>\<open>msgbuf_deserialize\<close> refines \<open>parse\<close>.\<close>

lemma msgbuf_deserialize_agrees [absfn]:
  "bio_ok b \<Longrightarrow> agrees (msgbuf_deserialize n alloc b) (parse n alloc (bio_bytes b))"
proof (induction n arbitrary: b)
  case (Suc n)
  show ?case
  proof (cases "frame_complete (bio_bytes b)")
    case True
    then have "8 \<le> length (bio_bytes b)" by (simp add: frame_complete_def)
    from extract_msgbuf_agrees [OF Suc.prems this, of alloc] show ?thesis
    proof (cases rule: agrees_cases)
      case (ok m b')
      from deserialize_cmsgs_agrees [of "msgbuf_deserialize n alloc" "parse n alloc", OF Suc.IH ok(3),
          of "unat (cmsg_num (frame m))"]
      show ?thesis
        by (cases rule: agrees_cases)
           (use ok True Suc.prems in \<open>auto simp: msgbuf_recv_finish_bytes\<close>)
    qed (use True Suc.prems in \<open>auto simp: msgbuf_recv_finish_bytes\<close>)
  qed (use Suc.prems in \<open>auto simp: msgbuf_recv_finish_bytes\<close>)
qed simp

section \<open>Fuel and round trips\<close>

text \<open>The message a receiver builds: the same tree, nothing of it sent yet.\<close>

fun reset :: "msgbuf \<Rightarrow> msgbuf" where
  "reset (Msgbuf s f u cs) = Msgbuf 0 f u (map reset cs)"

lemma reset_sel [simp]:
  "frame (reset m) = frame m" "ubase (reset m) = ubase m" "soff (reset m) = 0"
  "cmsg_head (reset m) = map reset (cmsg_head m)"
  by (cases m; simp)+

lemma wire_reset [simp]: "wire (reset m) = wire m"
  by (induction m) (simp add: msgbuf_base_def comp_def cong: map_cong)

lemma wires_reset [simp]: "wires (map reset ms) = wires ms"
  by (simp add: wires_def comp_def)

lemma wf_reset [simp]: "wf_msg (reset m) = wf_msg m"
  by (induction m) (auto simp: list_all_iff comp_def cong: map_cong)

lemma reset_reset [simp]: "reset (reset m) = reset m"
  by (induction m) (simp cong: map_cong)

lemma parse_one_Ok:
  assumes "parse_one alloc bs = Ok (m, r)"
  shows "length r + (if ulen (frame m) < 0xFFFFFFFC then 8 else 4) \<le> length bs"
proof -
  let ?f = "msghdr_of_bytes (take 8 bs)"
  obtain p where p: "msgbuf_alloc alloc (ulen ?f) = Ok (Some p)"
    by (rule msgbuf_alloc_cases [of alloc "ulen ?f"]) (use assms in \<open>auto simp: parse_one_def\<close>)
  then have m: "frame m = ?f" "r = drop (unat (msgbuf_len p)) bs" "unat (msgbuf_len p) \<le> length bs"
    using assms by (auto simp: parse_one_def Let_def split: if_splits)
  have "(if ulen ?f < 0xFFFFFFFC then 8 else 4) \<le> unat (msgbuf_len p)"
    using msgbuf_alloc_Some(1,7) [OF p] by (auto simp: word_less_nat_alt split: if_splits)
  with m show ?thesis by (simp split: if_splits)
qed

lemma parse_cmsgs_shrinks:
  assumes "\<And>bs m r. rec bs = Some (Ok (m, r)) \<Longrightarrow> length r \<le> length bs"
  shows "parse_cmsgs rec k bs = Some (Ok (ms, r)) \<Longrightarrow> length r \<le> length bs"
proof (induction k arbitrary: bs ms)
  case (Suc k)
  then obtain s bs' where s: "rec bs = Some (Ok (s, bs'))"
    by (auto split: option.splits cres.splits)
  with Suc.prems obtain ms' where "parse_cmsgs rec k bs' = Some (Ok (ms', r))"
    by (auto simp: cbind_eq_Ok)
  from Suc.IH [OF this] assms [OF s] show ?case by simp
qed simp

lemma parse_shrinks:
  "parse n alloc bs = Some (Ok (m, r)) \<Longrightarrow> length r + (if ulen (frame m) < 0xFFFFFFFC then 8 else 4) \<le> length bs"
proof (induction n arbitrary: bs m r)
  case (Suc n)
  then obtain m1 bs1 where one: "parse_one alloc bs = Ok (m1, bs1)"
    by (auto split: if_splits cres.splits)
  with Suc.prems obtain ms where ms: "parse_cmsgs (parse n alloc) (unat (cmsg_num (frame m1))) bs1 = Some (Ok (ms, r))"
    "m = set_cmsgs ms m1"
    by (auto simp: cbind_eq_Ok split: if_splits)
  have "length r \<le> length bs" if "parse n alloc bs = Some (Ok (m, r))" for bs m r using Suc.IH [OF that] by (simp split: if_splits)
  from parse_cmsgs_shrinks [OF this ms(1)] have "length r \<le> length bs1" by simp
  with parse_one_Ok [OF one] ms(2) show ?case by simp
qed simp

lemma parse_shrinks4: "parse n alloc bs = Some (Ok (m, r)) \<Longrightarrow> length r + 4 \<le> length bs"
  using parse_shrinks [of n alloc bs m r] by (simp split: if_splits)

lemma parse_cmsgs_fuel:
  assumes "\<And>bs. length bs \<le> l \<Longrightarrow> rec bs \<noteq> None"
    and "\<And>bs m r. rec bs = Some (Ok (m, r)) \<Longrightarrow> length r \<le> length bs"
  shows "length bs \<le> l \<Longrightarrow> parse_cmsgs rec k bs \<noteq> None"
proof (induction k arbitrary: bs)
  case (Suc k)
  show ?case
  proof (cases "rec bs")
    case (Some r)
    show ?thesis
    proof (cases r)
      case (Ok p)
      then obtain s bs' where p: "rec bs = Some (Ok (s, bs'))" using Some by (cases p) auto
      with assms(2) Suc.prems have "length bs' \<le> l" by fastforce
      with Suc.IH p show ?thesis by auto
    qed (use Some in auto)
  qed (use assms(1) Suc.prems in auto)
qed simp

lemma parse_fuel: "length bs < 4 * n \<Longrightarrow> parse n alloc bs \<noteq> None"
proof (induction n arbitrary: bs)
  case (Suc n)
  show ?case
  proof (cases "frame_complete bs")
    case True
    show ?thesis
    proof (cases "parse_one alloc bs")
      case (Ok p)
      then obtain m bs1 where p: "parse_one alloc bs = Ok (m, bs1)" by (cases p) auto
      from parse_one_Ok [OF p] have l: "length bs1 + 4 \<le> length bs" by (simp split: if_splits)
      then have "length bs1 < 4 * n" using Suc.prems by simp
      then have "parse_cmsgs (parse n alloc) (unat (cmsg_num (frame m))) bs1 \<noteq> None"
        using Suc.IH parse_shrinks4 [of n alloc]
        by (intro parse_cmsgs_fuel [where l = "length bs1"]) fastforce+
      with p True show ?thesis by simp
    qed (use True in auto)
  qed simp
qed simp

lemma frame_complete_prefix:
  assumes "wf_msg m" "p = take k (wire m @ rest)" "k \<le> length (wire m @ rest)"
  shows "frame_complete p \<longleftrightarrow> length (wire m) \<le> k"
proof (cases "8 \<le> k")
  case True
  have "take 8 p = msghdr_bytes (frame m)"
    using assms(2) True by (simp add: wire_eq msgbuf_base_def min_def)
  then have f: "msghdr_of_bytes (take 8 p) = frame m" by simp
  have u: "unat (ulen (frame m)) < 2 ^ 31" using assms(1) by (simp add: wf_msg_iff)
  then have "unat (msgbuf_len (Msgbuf 0 (frame m) [] [])) = unat (msgbuf_len m)"
    using unat_msgbuf_len [of m] unat_msgbuf_len [of "Msgbuf 0 (frame m) [] []"] by simp
  then have "unat (msgbuf_len (Msgbuf 0 (frame m) [] []) + ucast (cmsg_length (frame m))) =
      length (wire m)"
    using length_wire [OF assms(1)] unat_msgbuf_len [OF u] unat_12 [of "cmsg_length (frame m)"] u
    by (simp add: unat_word_ariths unat_ucast_32)
  with f True assms(2,3) show ?thesis by (simp add: frame_complete_def min_def)
next
  case False
  then show ?thesis
    using assms(2,3) length_wire [OF assms(1)] by (simp add: frame_complete_def wire_eq msgbuf_base_def)
qed

lemma parse_one_wire:
  assumes "wf_msg m" "\<And>k. alloc k"
  shows "parse_one alloc (wire m @ rest) = Ok (Msgbuf 0 (frame m) (ubase m) [], wires (cmsg_head m) @ rest)"
proof -
  have u: "unat (ulen (frame m)) < 2 ^ 31" "length (ubase m) = unat (ulen (frame m))"
    using assms(1) by (auto simp: wf_msg_iff)
  obtain p where p: "msgbuf_alloc alloc (ulen (frame m)) = Ok (Some p)"
    using msgbuf_alloc_total [of _ alloc, OF u(1) assms(2)] by auto
  have n: "unat (msgbuf_len p) = 8 + unat (ulen (frame m))" using msgbuf_alloc_Some(7) [OF p] u(1) by simp
  have "take (8 + unat (ulen (frame m))) (wire m @ rest) = msgbuf_base m"
    using u by (simp add: wire_eq msgbuf_base_def)
  moreover have "drop (8 + unat (ulen (frame m))) (wire m @ rest) = wires (cmsg_head m) @ rest"
    using u by (simp add: wire_eq msgbuf_base_def)
  moreover have "take 8 (wire m @ rest) = msghdr_bytes (frame m)"
    by (simp add: wire_eq msgbuf_base_def)
  moreover have "\<not> length (wire m @ rest) < unat (msgbuf_len p)"
    using n u by (simp add: wire_eq msgbuf_base_def)
  ultimately show ?thesis using p n u by (simp add: parse_one_def Let_def msgbuf_base_def)
qed

lemma parse_wire:
  assumes "\<And>k. alloc k"
  shows "wf_msg m \<Longrightarrow> length (wire m) \<le> 8 * n \<Longrightarrow> parse n alloc (wire m @ rest) = Some (Ok (reset m, rest))"
proof (induction n arbitrary: m rest)
  case 0
  then show ?case by (simp add: wire_eq msgbuf_base_def)
next
  case (Suc n)
  let ?cs = "cmsg_head m"
  have cs: "parse_cmsgs (parse n alloc) (length ms) (wires ms @ rest) = Some (Ok (map reset ms, rest))"
    if "list_all wf_msg ms" "\<forall>c\<in>set ms. length (wire c) \<le> 8 * n" for ms
    using that
  proof (induction ms)
    case (Cons c ms)
    then have "parse n alloc (wire c @ wires ms @ rest) = Some (Ok (reset c, wires ms @ rest))"
      by (intro Suc.IH) auto
    with Cons show ?case by simp
  qed simp
  have "length (wire m) \<ge> 8 + length (wires ?cs)"
    by (simp add: wire_eq msgbuf_base_def)
  moreover have "length (wire c) \<le> length (wires ?cs)" if "c \<in> set ?cs" for c
    unfolding length_wires using that member_le_sum_list [of "length (wire c)" "map (length \<circ> wire) ?cs"]
    by (simp add: comp_def)
  ultimately have small: "\<forall>c\<in>set ?cs. length (wire c) \<le> 8 * n"
    using Suc.prems(2) by fastforce
  have fc: "frame_complete (wire m @ rest)"
    using frame_complete_prefix [OF Suc.prems(1),
        where p = "wire m @ rest" and k = "length (wire m @ rest)" and rest = rest] by simp
  have all: "list_all wf_msg ?cs" and num: "unat (cmsg_num (frame m)) = length ?cs"
    using Suc.prems(1) by (auto simp: wf_msg_iff)
  have "reset m = Msgbuf 0 (frame m) (ubase m) (map reset ?cs)" by (cases m) simp
  then show ?case
    using fc parse_one_wire [OF Suc.prems(1) assms, where rest = rest] cs [OF all small] num
    by simp
qed

section \<open>What is left to send\<close>

fun remaining :: "msgbuf \<Rightarrow> byte list" where
  "remaining (Msgbuf s f u cs) =
     drop (unat s) (msgbuf_base (Msgbuf s f u cs)) @ concat (map remaining cs)"

definition remainings :: "msgbuf list \<Rightarrow> byte list" where
  "remainings ms = concat (map remaining ms)"

lemma remainings_simps [simp]: "remainings [] = []"
  "remainings (m # ms) = remaining m @ remainings ms"
  "remainings (ms @ ns) = remainings ms @ remainings ns"
  by (simp_all add: remainings_def)

lemma remaining_eq: "remaining m = drop (unat (soff m)) (msgbuf_base m) @ remainings (cmsg_head m)"
  by (cases m) (simp add: remainings_def)

fun soff_ok :: "msgbuf \<Rightarrow> bool" where
  "soff_ok (Msgbuf s f u cs) \<longleftrightarrow> unat s \<le> 8 + unat (ulen f) \<and> list_all soff_ok cs"

fun fresh :: "msgbuf \<Rightarrow> bool" where
  "fresh (Msgbuf s f u cs) \<longleftrightarrow> s = 0 \<and> list_all fresh cs"

text \<open>A message of which a prefix of the wire image has been sent: no byte of a frame before
  all the bytes in front of it.\<close>

definition in_order :: "msgbuf \<Rightarrow> msgbuf \<Rightarrow> bool" where
  "in_order a b \<longleftrightarrow> remaining a = [] \<or> fresh b"

fun prefix_sent :: "msgbuf \<Rightarrow> bool" where
  "prefix_sent (Msgbuf s f u cs) \<longleftrightarrow>
     unat s \<le> 8 + unat (ulen f) \<and> (unat s < 8 + unat (ulen f) \<longrightarrow> list_all fresh cs) \<and>
     list_all prefix_sent cs \<and> sorted_wrt in_order cs"

fun sent :: "msgbuf \<Rightarrow> nat" where
  "sent (Msgbuf s f u cs) = unat s + (\<Sum>c\<leftarrow>cs. sent c)"

lemma fresh_sent: "fresh m \<Longrightarrow> sent m = 0"
  by (induction m) (auto simp: list_all_iff sum_list_eq_0_iff)

lemma fresh_remaining: "fresh m \<Longrightarrow> remaining m = wire m"
  by (induction m) (auto simp: list_all_iff intro!: arg_cong [where f = concat])

lemma fresh_reset [simp]: "fresh (reset m)"
  by (induction m) (auto simp: list_all_iff)

lemma fresh_prefix_sent: "fresh m \<Longrightarrow> prefix_sent m"
  by (induction m) (auto simp: list_all_iff in_order_def sorted_wrt_iff_nth_less)

lemma prefix_sent_soff_ok: "prefix_sent m \<Longrightarrow> soff_ok m"
  by (induction m) (auto simp: list_all_iff)

lemma sent_remaining:
  "wf_msg m \<Longrightarrow> soff_ok m \<Longrightarrow> sent m + length (remaining m) = length (wire m)"
proof (induction m)
  case (Msgbuf s f u cs)
  have "(\<Sum>c\<leftarrow>cs. sent c) + (\<Sum>c\<leftarrow>cs. length (remaining c)) = (\<Sum>c\<leftarrow>cs. length (wire c))"
    unfolding sum_list_addf [symmetric]
    using Msgbuf by (intro arg_cong [where f = sum_list]) (auto simp: list_all_iff)
  moreover have "length (msgbuf_base (Msgbuf s f u cs)) = 8 + unat (ulen f)"
    using Msgbuf.prems(1) by (simp add: msgbuf_base_def)
  ultimately show ?case using Msgbuf.prems(2) by (simp add: length_concat comp_def)
qed

subsection \<open>Segments\<close>

fun iovs :: "msgbuf \<Rightarrow> byte list list" where
  "iovs (Msgbuf s f u cs) =
     (if 0 < msgbuf_len (Msgbuf s f u cs) - s then [own_iov (Msgbuf s f u cs)] else []) @
     concat (map iovs cs)"

lemma take_append_take: "take n (xs @ take (n - length xs) ys) = take n (xs @ ys)"
  by simp

lemma serialize_walk_take:
  assumes "\<And>c k. c \<in> set cs \<Longrightarrow> 0 \<le> k \<Longrightarrow> msgbuf_serialize c k = Ok (take (nat k) (iovs c))"
  shows "int (length ins) \<le> n \<Longrightarrow>
    serialize_walk (map msgbuf_serialize cs) ins n = Ok (take (nat n) (ins @ concat (map iovs cs)))"
  using assms
proof (induction cs arbitrary: ins)
  case (Cons c cs)
  let ?k = "nat n - length ins"
  let ?ins = "ins @ take ?k (iovs c)"
  have r: "msgbuf_serialize c (n - int (length ins)) = Ok (take ?k (iovs c))"
    using Cons.prems(1,2) by (simp add: nat_diff_distrib')
  have le: "int (length ?ins) \<le> n" using Cons.prems(1) by auto
  show ?case
  proof (cases "int (length ?ins) = n")
    case True
    then have "length (take ?k (iovs c)) = ?k" by simp
    then have "?k \<le> length (iovs c)" by (metis length_take min.cobounded1)
    then have eq: "?ins = take (nat n) (ins @ concat (map iovs (c # cs)))"
      using Cons.prems(1) by simp
    have "serialize_walk (map msgbuf_serialize (c # cs)) ins n = Ok ?ins"
      using r True by (simp add: Let_def)
    then show ?thesis by (simp only: eq)
  next
    case False
    have "take ?k (iovs c) = iovs c"
      using le False Cons.prems(1) by (cases "length (iovs c) \<le> ?k") auto
    with False le r Cons.IH [of "ins @ iovs c"] Cons.prems(2) show ?thesis
      by (simp add: Let_def)
  qed
qed simp

text \<open>The segments are the first \<open>n\<close> of all of them, and no \<open>BUG_ON\<close> fires.\<close>

lemma msgbuf_serialize_take [absfn]: "0 \<le> n \<Longrightarrow> msgbuf_serialize m n = Ok (take (nat n) (iovs m))"
proof (induction m arbitrary: n)
  case (Msgbuf s f u cs)
  show ?case
  proof (cases "n = 0")
    case False
    with Msgbuf.prems have "0 < n" by simp
    with serialize_walk_take [of cs "if 0 < msgbuf_len (Msgbuf s f u cs) - s
        then [own_iov (Msgbuf s f u cs)] else []" n] Msgbuf.IH
    show ?thesis by (simp add: Let_def)
  qed simp
qed

lemma concat_concat_map: "concat (concat xss) = concat (map concat xss)"
  by (induction xss) simp_all

lemma concat_iovs: "wf_msg m \<Longrightarrow> soff_ok m \<Longrightarrow> concat (iovs m) = remaining m"
proof (induction m)
  case (Msgbuf s f u cs)
  let ?m = "Msgbuf s f u cs"
  have cs: "map (concat \<circ> iovs) cs = map remaining cs"
    using Msgbuf by (auto simp: list_all_iff)
  have len: "unat (msgbuf_len ?m) = 8 + unat (ulen f)" "length (msgbuf_base ?m) = 8 + unat (ulen f)"
    using Msgbuf.prems(1) unat_msgbuf_len [of ?m] by (auto simp: msgbuf_base_def)
  then have diff: "unat (msgbuf_len ?m - s) = 8 + unat (ulen f) - unat s"
    using Msgbuf.prems(2) by (simp add: unat_sub_if')
  have "concat (if 0 < msgbuf_len ?m - s then [own_iov ?m] else []) = drop (unat s) (msgbuf_base ?m)"
  proof (cases "0 < msgbuf_len ?m - s")
    case True
    then show ?thesis using diff len by (simp add: own_iov_def)
  next
    case False
    then have "unat (msgbuf_len ?m - s) = 0" by (simp add: word_gt_0)
    then show ?thesis using diff len False by simp
  qed
  moreover have "concat (concat (map iovs cs)) = concat (map remaining cs)"
    unfolding concat_concat_map map_map cs ..
  ultimately show ?case by simp
qed

subsection \<open>Accounting what the kernel took\<close>

text \<open>\<open>m'\<close> is \<open>m\<close> after \<open>k\<close> more bytes of it went out.\<close>

definition advanced :: "nat \<Rightarrow> msgbuf \<Rightarrow> msgbuf \<Rightarrow> bool" where
  "advanced k m m' \<longleftrightarrow>
     remaining m' = drop k (remaining m) \<and> prefix_sent m' \<and> reset m' = reset m"

lemma advanced_wf: "advanced k m m' \<Longrightarrow> wf_msg m' = wf_msg m \<and> wire m' = wire m"
  unfolding advanced_def by (metis wf_reset wire_reset)

definition installs :: "msgbuf \<Rightarrow> int \<Rightarrow> bool" where
  "installs m len \<longleftrightarrow>
     (\<exists>m'. install_iovs m len =
         Ok (int (sent m'), m', len - int (min (nat len) (length (remaining m)))) \<and>
       advanced (min (nat len) (length (remaining m))) m m')"

lemma install_walk_spec:
  assumes "\<And>c l. c \<in> set cs \<Longrightarrow> 0 < l \<Longrightarrow> installs c l"
  shows "0 < len \<Longrightarrow> list_all prefix_sent cs \<Longrightarrow> sorted_wrt in_order cs \<Longrightarrow>
    \<exists>cs'. install_walk (map install_iovs cs) cs ins len =
        Ok (ins + int (\<Sum>c\<leftarrow>cs'. sent c), cs', len - int (min (nat len) (length (remainings cs)))) \<and>
      remainings cs' = drop (nat len) (remainings cs) \<and>
      list_all prefix_sent cs' \<and> sorted_wrt in_order cs' \<and> map reset cs' = map reset cs"
  using assms
proof (induction cs arbitrary: ins len)
  case (Cons c cs)
  let ?k = "min (nat len) (length (remaining c))"
  obtain c' where r: "install_iovs c len = Ok (int (sent c'), c', len - int ?k)"
    and adv: "advanced ?k c c'"
    using Cons.prems(1,4) by (auto simp: installs_def)
  show ?case
  proof (cases "len - int ?k = 0")
    case True
    then have k: "nat len \<le> length (remaining c)" and "remaining c \<noteq> []"
      using Cons.prems(1) by (auto simp: min_def split: if_splits)
    then have fresh: "\<forall>d\<in>set cs. fresh d" using Cons.prems(3) by (auto simp: in_order_def)
    then have "(\<Sum>c\<leftarrow>cs. sent c) = 0" by (auto simp: fresh_sent sum_list_eq_0_iff)
    moreover have "\<forall>d\<in>set cs. in_order c' d" using fresh by (simp add: in_order_def)
    then have "sorted_wrt in_order (c' # cs)" using Cons.prems(3) by simp
    ultimately show ?thesis
      using r True adv k Cons.prems by (intro exI [of _ "c' # cs"]) (auto simp: advanced_def min_def)
  next
    case False
    then have k: "?k = length (remaining c)" "length (remaining c) < nat len"
      using Cons.prems(1) by (auto simp: min_def split: if_splits)
    then have nil: "remaining c' = []" using adv by (simp add: advanced_def)
    have l: "0 < len - int ?k" and tail: "list_all prefix_sent cs" "sorted_wrt in_order cs"
      using False k Cons.prems(2,3) by auto
    obtain cs' where w: "install_walk (map install_iovs cs) cs (ins + int (sent c')) (len - int ?k) =
        Ok (ins + int (sent c') + int (\<Sum>c\<leftarrow>cs'. sent c), cs',
            len - int ?k - int (min (nat (len - int ?k)) (length (remainings cs))))"
      "remainings cs' = drop (nat (len - int ?k)) (remainings cs)"
      "list_all prefix_sent cs'" "sorted_wrt in_order cs'" "map reset cs' = map reset cs"
      using Cons.IH [OF l tail, of "ins + int (sent c')"] Cons.prems(4) by (metis list.set_intros(2))
    have "nat (len - int ?k) = nat len - length (remaining c)" using k by simp
    moreover have "\<forall>d\<in>set cs'. in_order c' d" using nil by (simp add: in_order_def)
    ultimately show ?thesis
      using r False w nil adv k
      by (intro exI [of _ "c' # cs'"]) (auto simp: advanced_def)
  qed
qed simp

lemma drop_min_length: "drop (min n (length xs)) xs = drop n xs"
  by (simp add: min_def)

lemma split_length:
  "a < nat l \<Longrightarrow> l - int a - int (min (nat (l - int a)) r) = l - int (min (nat l) (a + r))"
  by (auto simp: min_def)

lemma install_iovs_spec: "wf_msg m \<Longrightarrow> prefix_sent m \<Longrightarrow> 0 < len \<Longrightarrow> installs m len"
proof (induction m arbitrary: len)
  case (Msgbuf s f u cs)
  let ?m = "Msgbuf s f u cs" and ?n = "8 + unat (ulen f)"
  have len: "unat (msgbuf_len ?m) = ?n" "length (msgbuf_base ?m) = ?n"
    using Msgbuf.prems(1) unat_msgbuf_len [of ?m] by (auto simp: msgbuf_base_def)
  have s: "unat s \<le> ?n" "list_all prefix_sent cs" "sorted_wrt in_order cs"
    "unat s < ?n \<Longrightarrow> list_all fresh cs" using Msgbuf.prems(2) by auto
  define left where "left = msgbuf_len ?m - s"
  have left: "unat left = ?n - unat s" using len s by (simp add: left_def unat_sub_if')
  have n31: "?n < 2 ^ 32" using Msgbuf.prems(1) by simp
  define diff where "diff = (if len > uint left then left else of_int len)"
  have udiff: "unat diff = min (nat len) (?n - unat s)"
  proof (cases "len > uint left")
    case True
    then show ?thesis using left by (auto simp: diff_def min_def uint_int_unat)
  next
    case False
    then have "nat len \<le> ?n - unat s" using left by (simp add: uint_int_unat nat_le_iff)
    moreover have "unat (of_int len :: u32) = nat len"
      using Msgbuf.prems(3) calculation n31 by (intro unat_of_int_32) auto
    ultimately show ?thesis using False by (simp add: diff_def)
  qed
  define s' where "s' = s + diff"
  have us: "unat s' = unat s + unat diff"
    using udiff s n31 by (simp add: s'_def unat_word_ariths)
  have step: "install_iovs ?m len =
     (if len - int (unat diff) = 0 then Ok (int (unat s'), Msgbuf s' f u cs, 0)
      else cbind (install_walk (map install_iovs cs) cs (int (unat s')) (len - int (unat diff)))
             (\<lambda>(r, cs', len''). Ok (r, Msgbuf s' f u cs', len'')))"
  proof -
    have "install_iovs ?m len =
       (if len - uint diff = 0 then Ok (uint s', Msgbuf s' f u cs, len - uint diff)
        else if len - uint diff < 0 then Bug
        else cbind (install_walk (map install_iovs cs) cs (uint s') (len - uint diff))
               (\<lambda>(r, cs', len''). Ok (r, Msgbuf s' f u cs', len'')))"
      by (simp only: install_iovs.simps Let_def left_def diff_def s'_def)
    moreover have "\<not> len - int (unat diff) < 0"
      using udiff Msgbuf.prems(3) by (auto simp: min_def split: if_splits)
    ultimately show ?thesis by simp
  qed
  have base: "msgbuf_base (Msgbuf s' f u cs') = msgbuf_base ?m" for cs'
    by (simp add: msgbuf_base_def)
  show ?case
  proof (cases "nat len \<le> ?n - unat s")
    case True
    then have d: "unat diff = nat len" using udiff by simp
    have fresh: "list_all fresh cs" using s(4) True Msgbuf.prems(3) by simp
    then have "(\<Sum>c\<leftarrow>cs. sent c) = 0" by (auto simp: fresh_sent sum_list_eq_0_iff list_all_iff)
    moreover have "remaining (Msgbuf s' f u cs) = drop (nat len) (remaining ?m)"
      using True len us d by (simp add: base add.commute)
    moreover have "nat len \<le> length (remaining ?m)" using True len by simp
    moreover have "prefix_sent (Msgbuf s' f u cs)" using True fresh s us d by simp
    ultimately show ?thesis
      using step d Msgbuf.prems(3) us
      unfolding installs_def advanced_def
      by (intro exI [of _ "Msgbuf s' f u cs"]) (simp add: min_def)
  next
    case False
    then have d: "unat diff = ?n - unat s" and s': "unat s' = ?n" using udiff us s by auto
    have "unat diff < nat len" using False d by simp
    from this have l: "0 < len - int (unat diff)" by linarith
    have "installs c l" if "c \<in> set cs" "0 < l" for c l
      using Msgbuf.IH [OF that(1) _ _ that(2)] Msgbuf.prems(1) s(2) that(1)
      by (auto simp: list_all_iff)
    from install_walk_spec [of cs, OF this l s(2,3), of "int (unat s')"]
    obtain cs' where w: "install_walk (map install_iovs cs) cs (int (unat s')) (len - int (unat diff)) =
        Ok (int (unat s') + int (\<Sum>c\<leftarrow>cs'. sent c), cs',
            len - int (unat diff) - int (min (nat (len - int (unat diff))) (length (remainings cs))))"
      and cs': "remainings cs' = drop (nat (len - int (unat diff))) (remainings cs)"
        "list_all prefix_sent cs'" "sorted_wrt in_order cs'" "map reset cs' = map reset cs"
      by blast
    have nl: "nat (len - int (unat diff)) = nat len - (?n - unat s)" using d by simp
    have "remaining (Msgbuf s' f u cs') = drop (nat len) (remaining ?m)"
      using False len s' cs'(1) nl by (simp add: base remaining_eq)
    moreover have "prefix_sent (Msgbuf s' f u cs')" using s' cs' by simp
    moreover have "length (remaining ?m) = unat diff + length (remainings cs)"
      using len d by (simp add: remaining_eq)
    then have "len - int (unat diff) - int (min (nat (len - int (unat diff))) (length (remainings cs))) =
        len - int (min (nat len) (length (remaining ?m)))"
      using split_length [of "unat diff" len "length (remainings cs)"] \<open>unat diff < nat len\<close> by simp
    moreover have "reset (Msgbuf s' f u cs') = reset ?m" using cs'(4) by simp
    moreover have "install_iovs ?m len = Ok (int (unat s') + int (\<Sum>c\<leftarrow>cs'. sent c), Msgbuf s' f u cs',
        len - int (unat diff) - int (min (nat (len - int (unat diff))) (length (remainings cs))))"
      using step l w by (simp del: install_iovs.simps)
    ultimately show ?thesis
      unfolding installs_def advanced_def drop_min_length
      by (intro exI [of _ "Msgbuf s' f u cs'"]) (simp del: install_iovs.simps remaining.simps)
  qed
qed

text \<open>A partial write of \<open>len\<close> bytes: the message has exactly the other bytes left, the rest of
  \<open>len\<close> is for the messages behind it, and the call answers whether the message is done.\<close>

lemma msgbuf_install_iovs_advanced [absfn]:
  assumes "wf_msg m" "prefix_sent m" "0 < len"
  shows "\<exists>m'. msgbuf_install_iovs m len =
      Ok (remaining m' = [], m', len - int (min (nat len) (length (remaining m)))) \<and>
    advanced (nat len) m m'"
proof -
  from install_iovs_spec [OF assms] obtain m' where
    i: "install_iovs m len = Ok (int (sent m'), m', len - int (min (nat len) (length (remaining m))))"
    and adv: "advanced (min (nat len) (length (remaining m))) m m'"
    by (auto simp: installs_def)
  have adv': "advanced (nat len) m m'" using adv by (auto simp: advanced_def min_def)
  have wf: "wf_msg m'" using advanced_wf [OF adv] assms(1) by simp
  have "sent m' + length (remaining m') = length (wire m')"
    using sent_remaining [OF wf] adv prefix_sent_soff_ok by (simp add: advanced_def)
  moreover have "uint (msgbuf_len m' + ucast (cmsg_length (frame m'))) = int (length (wire m'))"
    using length_wire [OF wf] unat_12 [of "cmsg_length (frame m')"]
    by (simp add: uint_int_unat unat_word_ariths unat_ucast_32 del: of_nat_unat)
  ultimately have "(int (sent m') = uint (msgbuf_len m' + ucast (cmsg_length (frame m')))) =
      (remaining m' = [])" by auto
  with i adv' show ?thesis by (auto simp: msgbuf_install_iovs_def)
qed

section \<open>Properties\<close>

lemma ubufdup_Some: "wf_msg m \<Longrightarrow> ubufdup alloc m = Ok (Some d) \<Longrightarrow> d = dup m"
proof -
  assume wf: "wf_msg m" and d: "ubufdup alloc m = Ok (Some d)"
  have "length (ubase m) = unat (ulen (frame m))" using wf by (simp add: wf_msg_iff)
  moreover obtain a where a: "msgbuf_alloc alloc (ulen (frame m)) = Ok (Some a)"
    "d = upd_ubase (\<lambda>b. memcpy_at b 0 (take (unat (ulen (frame m))) (ubase m))) a"
    using d by (auto simp: ubufdup_def ualloc_def usize_def cbind_eq_Ok split: option.splits if_splits)
  moreover have "unat (ulen (frame m)) < 2 ^ 31" using wf by (simp add: wf_msg_iff)
  ultimately show ?thesis using msgbuf_alloc_Some [OF a(1)] msgbuf_alloc_frame [OF a(1)]
    by (cases a) (simp add: dup_def memcpy_at_def)
qed

lemma sub_msgbuf_copy_walk_wf [invs]:
  "list_all wf_msg cs \<Longrightarrow> wf_msg dest \<Longrightarrow> sub_msgbuf_copy_walk alloc cs dest = Ok dest' \<Longrightarrow> wf_msg dest'"
proof (induction cs arbitrary: dest)
  case (Cons c cs)
  have wf: "wf_msg c" "list_all wf_msg cs" using Cons.prems(1) by auto
  obtain d where d: "ubufdup alloc c = Ok (Some d)"
    using Cons.prems(3) by (auto simp: cbind_eq_Ok split: option.splits)
  have dwf: "wf_msg d" using ubufdup_Some [OF wf(1) d] dup_wf [OF wf(1)] by simp
  show ?case
  proof (cases "sub_msgbuf_add dest d")
    case (Ok dest1)
    from Cons.IH [OF wf(2) sub_msgbuf_add_wf(1) [OF Cons.prems(2) dwf Ok]] show ?thesis
      using Cons.prems(3) d Ok by simp
  next
    case (Err e)
    then show ?thesis using Cons.IH [OF wf(2) Cons.prems(2)] Cons.prems(3) d by simp
  qed (use Cons.prems(3) d in auto)
qed simp

lemma sub_msgbuf_next_wf [invs]:
  assumes "wf_msg m" "sub_msgbuf_next item_addr m i = Ok (m', p)"
  shows "wf_msg m'"
proof -
  let ?c = "cmsg_head m ! i"
  let ?f = "\<lambda>u. memcpy_at u 0 (take (length u) (le64 (item_addr (Suc i))))"
  let ?cs = "(cmsg_head m)[i := upd_ubase ?f ?c]"
  from assms(2) have i: "Suc i < length (cmsg_head m)"
    and m': "m' = set_cmsgs ?cs m"
    unfolding sub_msgbuf_next_def by (simp_all split: if_split_asm)
  have all: "list_all wf_msg (cmsg_head m)" using assms(1) by (simp add: wf_msg_iff)
  then have c: "wf_msg ?c" using i by (simp add: list_all_length)
  define f where "f = ?f"
  have lu: "length (f u) = length u" for u by (simp add: f_def memcpy_at_def)
  have m'f: "m' = set_cmsgs ((cmsg_head m)[i := upd_ubase f ?c]) m" unfolding f_def by (rule m')
  have wc: "wf_msg (upd_ubase f ?c)" using c lu by (cases ?c) simp
  have "length (wire (upd_ubase f ?c)) = length (wire ?c)" using lu by (cases ?c) (simp add: msgbuf_base_def)
  then have "map (length \<circ> wire) ((cmsg_head m)[i := upd_ubase f ?c]) = map (length \<circ> wire) (cmsg_head m)"
    using i by (intro nth_equalityI) (auto simp: nth_list_update)
  then have "length (wires ((cmsg_head m)[i := upd_ubase f ?c])) = length (wires (cmsg_head m))"
    unfolding length_wires comp_def by (rule arg_cong)
  moreover have "list_all wf_msg ((cmsg_head m)[i := upd_ubase f ?c])"
    using wc all i by (auto simp: list_all_length nth_list_update)
  ultimately show ?thesis using assms(1) by (simp add: m'f wf_msg_iff)
qed

text \<open>C19. Every \<open>uctl\<close> operation that succeeds keeps messages well formed: payload length,
  number of children and total length of the children stay what the header says, for the message
  and for the one passed in or handed out. \<open>SSWITCH\<close> needs a destination without children.\<close>

theorem uctl_keeps_wf:
  assumes "wf_msg m" "uctl alloc item_addr m opt v = Ok (m', out)"
    and "\<And>w. v = BufVal w \<Longrightarrow> wf_msg w \<and> (opt = 7 \<longrightarrow> cmsg_head w = [])"
  shows "wf_msg m' \<and> (\<forall>w. out = BufOut w \<longrightarrow> wf_msg w)"
proof (cases v)
  case NoVal
  with assms(1,2) show ?thesis by (auto simp: uctl_def cbind_eq_Ok split: if_splits)
next
  case (ChildVal i)
  with assms(1,2) sub_msgbuf_next_wf [OF assms(1), of item_addr i] sub_msgbuf_rm_wf [OF assms(1), of i]
  show ?thesis by (auto simp: uctl_def cbind_eq_Ok split: if_splits)
next
  case (BufVal w)
  then have w: "wf_msg w" "opt = 7 \<Longrightarrow> cmsg_head w = []" using assms(3) by auto
  have cs: "list_all wf_msg (cmsg_head m)" using assms(1) by (simp add: wf_msg_iff)
  consider "opt = 5" | "opt = 7" | "opt = 8" | "opt \<notin> {5, 7, 8}" by blast
  then show ?thesis
  proof cases
    case 1
    with BufVal assms(2) obtain m1 where "sub_msgbuf_add m w = Ok m1" "m' = m1" "out = NoOut"
      by (auto simp: uctl_def cbind_eq_Ok)
    with sub_msgbuf_add_wf(1) [OF assms(1) w(1)] show ?thesis by simp
  next
    case 2
    with BufVal assms(2) obtain w' where "sub_msgbuf_switch m w = (m', w')" "out = BufOut w'"
      by (auto simp: uctl_def split: prod.splits)
    with sub_msgbuf_switch_wf(1,2) [OF assms(1) w(1) w(2) [OF 2]] show ?thesis by simp
  next
    case 3
    with BufVal assms(2) obtain w' where "sub_msgbuf_copy alloc m w = Ok w'" "out = BufOut w'" "m' = m"
      by (auto simp: uctl_def cbind_eq_Ok)
    with sub_msgbuf_copy_walk_wf [OF cs w(1)] assms(1) show ?thesis by (simp add: sub_msgbuf_copy_def)
  next
    case 4
    with BufVal assms(1,2) show ?thesis by (auto simp: uctl_def cbind_eq_Ok split: if_splits)
  qed
qed

definition msg0 :: "byte list \<Rightarrow> msgbuf" where
  "msg0 d = Msgbuf 0 \<lparr>checksum = 0, cmsg_num = 0, cmsg_length = 0, ulen = of_nat (length d)\<rparr> d []"

theorem uctl_keeps_wf_witness:
  "wf_msg (fst (case uctl (\<lambda>_. True) (\<lambda>_. 0) (msg0 [1,2]) 5 (BufVal (msg0 [3])) of Ok r \<Rightarrow> r))"
proof -
  have "uctl (\<lambda>_. True) (\<lambda>_. 0) (msg0 [1,2]) 5 (BufVal (msg0 [3])) =
      Ok (Msgbuf 0 \<lparr>checksum = 0, cmsg_num = 1, cmsg_length = 9, ulen = 2\<rparr> [1,2] [msg0 [3]], NoOut)"
    by (simp add: uctl_def sub_msgbuf_add_def MSGBUF_SUBNUMMARK_def MSGBUF_CMSGLENMARK_def msg0_def
                  msgbuf_len_def sizeof_msghdr_def)
  from uctl_keeps_wf [OF _ this] this show ?thesis by (auto simp: msg0_def)
qed

text \<open>\<open>SADD\<close> takes a child exactly while there are fewer than 15 and the children with
  theirs stay within 4095 bytes; otherwise it fails with \<open>EFBIG\<close>. What it accepts is the last
  child, and \<open>SRM\<close> of that child gives both messages back.\<close>

theorem uctl_add_rm:
  assumes "wf_msg m" "wf_msg new"
  shows "if length (cmsg_head m) < 15 \<and> length (wires (cmsg_head m)) + length (wire new) \<le> 4095
         then \<exists>m'. uctl alloc ia m 5 (BufVal new) = Ok (m', NoOut) \<and> cmsg_head m' = cmsg_head m @ [new] \<and>
                uctl alloc ia m' 6 (ChildVal (length (cmsg_head m))) = Ok (m, BufOut new)
         else uctl alloc ia m 5 (BufVal new) = Err EFBIG"
proof -
  have n: "length (cmsg_head m) \<le> 15"
    using assms(1) unat_4 [of "cmsg_num (frame m)"] by (simp add: wf_msg_iff)
  show ?thesis
  proof (cases "length (cmsg_head m) < 15 \<and> length (wires (cmsg_head m)) + length (wire new) \<le> 4095")
    case True
    then obtain m' where m': "sub_msgbuf_add m new = Ok m'"
      using sub_msgbuf_add_cases [OF assms] by (auto split: if_splits)
    note wf = sub_msgbuf_add_wf [OF assms m']
    have "sub_msgbuf_rm m' (length (cmsg_head m)) = Ok (m, new)"
      using m' True n unfolding sub_msgbuf_rm_def sub_msgbuf_add_cases [OF assms]
      by (cases m) (auto simp: Let_def split: if_splits)
    then show ?thesis using True m' wf by (simp add: uctl_def)
  qed (use n sub_msgbuf_add_cases [OF assms] in \<open>auto simp: uctl_def\<close>)
qed

theorem uctl_add_rm_witness:
  "\<exists>m'. uctl (\<lambda>_. True) (\<lambda>_. 0) (msg0 []) 5 (BufVal (msg0 [3])) = Ok (m', NoOut) \<and>
     cmsg_head m' = [msg0 [3]] \<and> uctl (\<lambda>_. True) (\<lambda>_. 0) m' 6 (ChildVal 0) = Ok (msg0 [], BufOut (msg0 [3]))"
  using uctl_add_rm [of "msg0 []" "msg0 [3]" "\<lambda>_. True" "\<lambda>_. 0"]
  by (simp add: msg0_def msgbuf_base_def)

text \<open>\<open>SCOPY\<close> onto a message that has room for all of them appends a fresh copy of each
  child: same payload, no children of its own, nothing of it sent.\<close>

theorem uctl_copy:
  assumes "wf_msg m" "wf_msg dest"
    and "length (cmsg_head dest) + length (cmsg_head m) \<le> 15"
    and "length (wires (cmsg_head dest)) + length (wires (cmsg_head m)) \<le> 4095"
  shows "\<exists>dest'. uctl (\<lambda>_. True) ia m 8 (BufVal dest) = Ok (m, BufOut dest') \<and> wf_msg dest' \<and>
    cmsg_head dest' = cmsg_head dest @ map dup (cmsg_head m) \<and> ubase dest' = ubase dest"
proof -
  have "list_all wf_msg (cmsg_head m)" using assms(1) by (simp add: wf_msg_iff)
  from sub_msgbuf_copy_walk_all [of "\<lambda>_. True", OF _ this assms(2-4)] show ?thesis
    by (auto simp: uctl_def sub_msgbuf_copy_def)
qed

theorem uctl_copy_witness:
  "\<exists>dest'. uctl (\<lambda>_. True) (\<lambda>_. 0)
      (Msgbuf 0 \<lparr>checksum = 0, cmsg_num = 1, cmsg_length = 9, ulen = 2\<rparr> [1,2] [msg0 [3]]) 8
      (BufVal (msg0 [])) =
    Ok (Msgbuf 0 \<lparr>checksum = 0, cmsg_num = 1, cmsg_length = 9, ulen = 2\<rparr> [1,2] [msg0 [3]],
        BufOut dest') \<and> map ubase (cmsg_head dest') = [[3]]"
  using uctl_copy [of "Msgbuf 0 \<lparr>checksum = 0, cmsg_num = 1, cmsg_length = 9, ulen = 2\<rparr> [1,2] [msg0 [3]]"
      "msg0 []" "\<lambda>_. 0"]
  by (auto simp: msg0_def msgbuf_base_def dup_def)

text \<open>\<open>SNEXT\<close> never yields the next \<open>ubuf\<close>: when it succeeds, the pointer it stores is the
  start of the next \<open>struct msgbuf\<close>, and it has overwritten the first eight bytes of the
  payload of the current child, or all of them if there are fewer.\<close>

theorem uctl_next_wrong_pointer:
  assumes "uctl alloc ia m 3 (ChildVal i) = Ok (m', out)"
  shows "out = PtrOut (StructPtr (Suc i)) \<and>
    take 8 (ubase (cmsg_head m' ! i)) = take (length (ubase (cmsg_head m ! i))) (le64 (ia (Suc i)))"
proof -
  let ?l = "le64 (ia (Suc i))"
  have "take 8 (memcpy_at u 0 (take (length u) ?l)) = take (length u) ?l" for u
    by (cases "length u \<le> 8") (simp_all add: memcpy_at_def le64_def)
  then show ?thesis using assms by (auto simp: uctl_def sub_msgbuf_next_def cbind_eq_Ok split: if_splits)
qed

theorem uctl_next_wrong_pointer_witness:
  "case uctl (\<lambda>_. True) (\<lambda>_. 7)
     (Msgbuf 0 \<lparr>checksum = 0, cmsg_num = 2, cmsg_length = 24, ulen = 0\<rparr> []
        [msg0 [1,2,3,4,5,6,7,8], msg0 []]) 3 (ChildVal 0) of
   Ok (m', out) \<Rightarrow> out = PtrOut (StructPtr 1) \<and> take 8 (ubase (cmsg_head m' ! 0)) = [7,0,0,0,0,0,0,0]"
proof -
  let ?m = "Msgbuf 0 \<lparr>checksum = 0, cmsg_num = 2, cmsg_length = 24, ulen = 0\<rparr> []
        [msg0 [1,2,3,4,5,6,7,8], msg0 []]"
  obtain m' out where r: "uctl (\<lambda>_. True) (\<lambda>_. 7) ?m 3 (ChildVal 0) = Ok (m', out)"
    by (simp add: uctl_def sub_msgbuf_next_def msg0_def)
  from uctl_next_wrong_pointer [OF r] r show ?thesis by (simp add: le64_def le32_def msg0_def)
qed

text \<open>C16. One round of sending: \<open>msgbuf_serialize\<close> offers at most \<open>n\<close> segments, together a
  prefix of the bytes still to go, and no \<open>BUG_ON\<close> fires; whatever non-empty part of them the
  kernel takes, \<open>msgbuf_install_iovs\<close> leaves exactly the bytes behind it to be sent and answers
  whether none are left.\<close>

theorem send_round:
  assumes "wf_msg m" "prefix_sent m" "0 \<le> n"
  shows "\<exists>segs rest. msgbuf_serialize m n = Ok segs \<and> length segs \<le> nat n \<and>
    remaining m = concat segs @ rest \<and>
    (\<forall>len. 0 < len \<longrightarrow> len \<le> length (concat segs) \<longrightarrow>
       (\<exists>m'. msgbuf_install_iovs m (int len) = Ok (remaining m' = [], m', 0) \<and>
             remaining m' = drop len (remaining m) \<and> prefix_sent m' \<and> wf_msg m' \<and> wire m' = wire m))"
proof -
  let ?segs = "take (nat n) (iovs m)"
  have rem: "remaining m = concat ?segs @ concat (drop (nat n) (iovs m))"
    using concat_iovs [OF assms(1) prefix_sent_soff_ok [OF assms(2)]]
    by (metis append_take_drop_id concat_append)
  have "\<exists>m'. msgbuf_install_iovs m (int len) = Ok (remaining m' = [], m', 0) \<and>
      remaining m' = drop len (remaining m) \<and> prefix_sent m' \<and> wf_msg m' \<and> wire m' = wire m"
    if "0 < len" "len \<le> length (concat ?segs)" for len
  proof -
    note len = that
    have "len \<le> length (remaining m)" using len(2) by (simp add: rem)
    moreover obtain m' where m': "msgbuf_install_iovs m (int len) =
        Ok (remaining m' = [], m', int len - int (min (nat (int len)) (length (remaining m))))"
      and adv: "advanced (nat (int len)) m m'"
      using msgbuf_install_iovs_advanced [OF assms(1,2), of "int len"] len(1) by auto
    ultimately show ?thesis
      using advanced_wf [OF adv] assms(1) adv by (auto simp: advanced_def)
  qed
  with rem msgbuf_serialize_take [OF assms(3), of m] show ?thesis
    by (intro exI [of _ ?segs] exI [of _ "concat (drop (nat n) (iovs m))"]) simp
qed

theorem send_round_witness:
  "\<exists>segs rest. msgbuf_serialize (msg0 [5,6]) 100 = Ok segs \<and> length segs \<le> 100 \<and>
    remaining (msg0 [5,6]) = concat segs @ rest"
  using send_round [of "msg0 [5,6]" 100] by (auto simp: msg0_def)

text \<open>C9. Receiving: when the buffer holds the first \<open>k\<close> bytes of the wire image of a well-formed
  message followed by anything, \<open>msgbuf_deserialize\<close> answers \<open>EAGAIN\<close> until the image is
  complete and then returns the message, children included, and leaves what follows; it never
  aborts.\<close>

theorem deserialize_stream:
  assumes "bio_ok b" "bio_bytes b = take k (wire m @ rest)" "k \<le> length (wire m @ rest)"
    and "wf_msg m" "k < 8 * fuel"
  shows "if k < length (wire m) then msgbuf_deserialize fuel (\<lambda>_. True) b = Some (Err EAGAIN)
    else \<exists>b'. msgbuf_deserialize fuel (\<lambda>_. True) b = Some (Ok (reset m, b')) \<and> bio_ok b' \<and>
           bio_bytes b' = take (k - length (wire m)) rest"
proof -
  note agrees = msgbuf_deserialize_agrees [OF assms(1), of fuel "\<lambda>_. True"]
  obtain n where n: "fuel = Suc n" using assms(5) by (cases fuel) auto
  show ?thesis
  proof (cases "k < length (wire m)")
    case True
    then have "parse fuel (\<lambda>_. True) (bio_bytes b) = Some (Err EAGAIN)"
      using frame_complete_prefix [OF assms(4,2,3)] n by simp
    with agrees True show ?thesis by (auto elim: agrees_cases)
  next
    case False
    then have "bio_bytes b = wire m @ take (k - length (wire m)) rest" using assms(2) by simp
    then have "parse fuel (\<lambda>_. True) (bio_bytes b) = Some (Ok (reset m, take (k - length (wire m)) rest))"
      using parse_wire [of "\<lambda>_. True" m fuel] assms(4,5) False by simp
    with agrees False show ?thesis by (auto elim: agrees_cases)
  qed
qed

theorem deserialize_stream_witness:
  "\<exists>b'. msgbuf_deserialize 2 (\<lambda>_. True) (snd (bio_write 1 bio_init (wire (msg0 [7])))) =
     Some (Ok (reset (msg0 [7]), b')) \<and> bio_ok b' \<and> bio_bytes b' = []"
proof -
  obtain k b where w: "bio_write 1 bio_init (wire (msg0 [7])) = (k, b)" by fastforce
  have len: "length (wire (msg0 [7])) = 9" by (simp add: msg0_def msgbuf_base_def)
  have "k = 9" using bio_write_complete [of bio_init "wire (msg0 [7])" 1] w len by (simp add: PAGE_SIZE_def)
  then have "bio_ok b" "bio_bytes b = take 9 (wire (msg0 [7]) @ [])"
    using bio_write_bytes [OF bio_init_ok(1) w] len by simp_all
  from deserialize_stream [OF this, of 2] w len show ?thesis by (simp add: msg0_def)
qed

text \<open>C22. The deserializer always returns: fuel for one level per four bytes is enough for any
  bytes a peer may send and whatever allocations fail. The only error it returns is \<open>EAGAIN\<close>. A message it returns
  has taken at least its eight-byte header from the buffer, unless the header announces one of the last four
  payload lengths: then the length of frame and payload wraps around and at least four bytes are taken.\<close>

theorem deserialize_terminates:
  assumes "bio_ok b" "length (bio_bytes b) < 4 * fuel"
  shows "\<exists>r. msgbuf_deserialize fuel alloc b = Some r \<and>
    (case r of Ok (m, b') \<Rightarrow> bio_ok b' \<and>
                 length (bio_bytes b') + (if ulen (frame m) < 0xFFFFFFFC then 8 else 4) \<le> length (bio_bytes b)
             | Err e \<Rightarrow> e = EAGAIN | _ \<Rightarrow> True)"
proof -
  have err: "parse n alloc bs = Some (Err e) \<Longrightarrow> e = EAGAIN" for n bs e
  proof (cases n)
    case (Suc n')
    assume p: "parse n alloc bs = Some (Err e)"
    have no: "parse_cmsgs rec k bs \<noteq> Some (Err e)" for rec k bs
    proof (induction k arbitrary: bs)
      case (Suc k)
      then show ?case
        by (auto simp: cbind_def split: option.splits cres.splits)
    qed simp
    show ?thesis
      using p no Suc by (auto simp: cbind_def split: if_splits cres.splits)
  qed simp
  from msgbuf_deserialize_agrees [OF assms(1), of fuel alloc] show ?thesis
  proof (cases rule: agrees_cases)
    case (ok m b')
    with parse_shrinks [OF ok(2)] show ?thesis by simp
  next
    case (err e)
    with \<open>\<And>n e bs. parse n alloc bs = Some (Err e) \<Longrightarrow> e = EAGAIN\<close> show ?thesis by auto
  qed (use parse_fuel [OF assms(2), of alloc] in auto)
qed

theorem deserialize_terminates_witness:
  "\<exists>r. msgbuf_deserialize 1 (\<lambda>_. True) bio_init = Some r"
proof -
  have "length (bio_bytes bio_init) < 4 * 1" by simp
  from deserialize_terminates [OF bio_init_ok(1) this, of "\<lambda>_. True"] show ?thesis by blast
qed

text \<open>C26. A peer can make the receiver abort: eight bytes that announce one child of length 0 and
  an empty payload pass the completeness test, and the \<open>BUG_ON\<close> on the missing child fires.\<close>

theorem deserialize_peer_abort:
  assumes "bio_ok b" "bio_bytes b = le16 c @ [1, 0] @ le32 0"
  shows "msgbuf_deserialize (Suc (Suc n)) (\<lambda>_. True) b = Some Bug"
proof -
  let ?f = "\<lparr>checksum = c, cmsg_num = 1, cmsg_length = 0, ulen = 0\<rparr>"
  have bytes: "bio_bytes b = msghdr_bytes ?f" by (simp add: assms(2) msghdr_bytes_def le16_def)
  have "parse_one (\<lambda>_. True) (msghdr_bytes ?f) = Ok (Msgbuf 0 ?f [] [], [])"
    by (simp add: parse_one_def msgbuf_alloc_def sizeof_msgbuf_def offsetof_ubase_def msgbuf_len_def sizeof_msghdr_def)
  then have "parse (Suc (Suc n)) (\<lambda>_. True) (bio_bytes b) = Some Bug"
    by (simp add: bytes frame_complete_def msgbuf_len_def sizeof_msghdr_def)
  with msgbuf_deserialize_agrees [OF assms(1), of "Suc (Suc n)" "\<lambda>_. True"] show ?thesis
    by (metis agrees_BugD)
qed

theorem deserialize_peer_abort_witness:
  "msgbuf_deserialize 2 (\<lambda>_. True) (snd (bio_write 1 bio_init [0,0,1,0,0,0,0,0])) = Some Bug"
proof -
  obtain k b where w: "bio_write 1 bio_init [0,0,1,0,0,0,0,0] = (k, b)" by fastforce
  have "k = 8" using bio_write_complete [of bio_init "[0,0,1,0,0,0,0,0]" 1] w by (simp add: PAGE_SIZE_def)
  then have "bio_ok b" "bio_bytes b = le16 0 @ [1, 0] @ le32 0"
    using bio_write_bytes [OF bio_init_ok(1) w] by (simp_all add: le16_def le32_def)
  from deserialize_peer_abort [OF this, of 0] w show ?thesis by (simp add: numeral_2_eq_2)
qed

text \<open>C27. The length test wraps around when a frame without children announces one of the last eight payload lengths,
  and passes on the header alone. For the first four of them a peer makes the receiver write outside of its memory:
  the block allocated ends before the field \<open>ulen\<close> that is written next. For the other four the receiver
  takes it for a whole message whose payload is said to have almost \<open>2^32\<close> bytes, takes only four to seven bytes
  for it, and reads the rest of the header as the start of the next message.\<close>

theorem deserialize_peer_overflow:
  assumes "bio_ok b" "bio_bytes b = le16 c @ [0, 0] @ le32 w" "0xFFFFFFF8 \<le> w"
  shows "if w < 0xFFFFFFFC then msgbuf_deserialize (Suc n) (\<lambda>_. True) b = Some Undef
    else \<exists>b'. msgbuf_deserialize (Suc n) (\<lambda>_. True) b =
        Some (Ok (Msgbuf 0 \<lparr>checksum = c, cmsg_num = 0, cmsg_length = 0, ulen = w\<rparr> [] [], b')) \<and>
      bio_ok b' \<and> bio_bytes b' = drop (unat (w - 0xFFFFFFF8)) (bio_bytes b)"
proof -
  let ?f = "\<lparr>checksum = c, cmsg_num = 0, cmsg_length = 0, ulen = w\<rparr>"
  have bytes: "bio_bytes b = msghdr_bytes ?f" by (simp add: assms(2) msghdr_bytes_def le16_def)
  have w: "0xFFFFFFF8 \<le> unat w" "unat w < 2 ^ 32"
    using assms(3) unsigned_less [of w, where 'a = nat] by (simp_all add: word_le_nat_alt)
  have len: "unat (msgbuf_len (Msgbuf s ?f u cs)) = unat w + 8 - 2 ^ 32" for s u cs
    using w by (simp add: msgbuf_len_def sizeof_msghdr_def unat_word_ariths mod_if)
  have fc: "frame_complete (bio_bytes b)" using len [of 0 "[]" "[]"] w by (simp add: bytes frame_complete_def)
  have n: "unat (of_nat sizeof_msgbuf + w) = unat w + 48 - 2 ^ 32"
    using w by (simp add: sizeof_msgbuf_def unat_word_ariths mod_if)
  note agrees = msgbuf_deserialize_agrees [OF assms(1), of "Suc n" "\<lambda>_. True"]
  show ?thesis
  proof (cases "w < 0xFFFFFFFC")
    case True
    then have "unat (of_nat sizeof_msgbuf + w) < offsetof_ubase" using n w by (simp add: offsetof_ubase_def word_less_nat_alt)
    then have "parse (Suc n) (\<lambda>_. True) (bio_bytes b) = Some Undef"
      using fc by (simp add: bytes parse_one_def msgbuf_alloc_def Let_def)
    with agrees True show ?thesis by (metis agrees_UndefD)
  next
    case False
    then have "\<not> unat (of_nat sizeof_msgbuf + w) < offsetof_ubase" using n w by (simp add: offsetof_ubase_def word_less_nat_alt)
    then obtain m where m: "msgbuf_alloc (\<lambda>_. True) w = Ok (Some m)" by (simp add: msgbuf_alloc_def Let_def)
    have k: "unat (msgbuf_len m) = unat (w - 0xFFFFFFF8)" "unat (w - 0xFFFFFFF8) < 8"
      using msgbuf_alloc_Some(7) [OF m] w assms(3) by (simp_all add: unat_sub)
    have "parse (Suc n) (\<lambda>_. True) (bio_bytes b) = Some (Ok (Msgbuf 0 ?f [] [], drop (unat (w - 0xFFFFFFF8)) (bio_bytes b)))"
      using fc m k by (simp add: bytes parse_one_def Let_def)
    with agrees have "agrees (msgbuf_deserialize (Suc n) (\<lambda>_. True) b)
      (Some (Ok (Msgbuf 0 ?f [] [], drop (unat (w - 0xFFFFFFF8)) (bio_bytes b))))" by (simp only:)
    then show ?thesis using False by (cases rule: agrees_cases) (auto simp del: msgbuf_deserialize.simps)
  qed
qed

theorem deserialize_peer_overflow_witness:
  "msgbuf_deserialize 1 (\<lambda>_. True) (snd (bio_write 1 bio_init [0,0,0,0,0xF8,0xFF,0xFF,0xFF])) = Some Undef"
proof -
  obtain k b where w: "bio_write 1 bio_init [0,0,0,0,0xF8,0xFF,0xFF,0xFF] = (k, b)" by fastforce
  have "k = 8"
    using bio_write_complete [of bio_init "[0,0,0,0,0xF8,0xFF,0xFF,0xFF]" 1] w by (simp add: PAGE_SIZE_def)
  then have "bio_ok b" "bio_bytes b = le16 0 @ [0, 0] @ le32 0xFFFFFFF8"
    using bio_write_bytes [OF bio_init_ok(1) w] by (simp_all add: le16_def le32_def)
  from deserialize_peer_overflow [OF this, of 0] w show ?thesis by simp
qed

end
