(* ===== verification/Md5.thy ===== *)
theory Md5
  imports Msgbuf
begin

text \<open>
  The message digest \<^verbatim>\<open>src/src/utils/md5.c\<close>, and RFC 1321 as its reference: the digest of a message
  that was given in pieces is the digest that the RFC defines for the whole. \<open>MD5_INT32\<close> is a
  signed type; the sums of the code wrap around as they do on every target (by the letter of the standard a
  signed overflow is undefined).
\<close>

section \<open>The macros\<close>

text \<open>\<open>ROLc\<close> computes with \<open>unsigned long\<close>, 64 bits wide, to which the signed word is extended.\<close>

definition ROLc :: "u32 \<Rightarrow> nat \<Rightarrow> u32" where
  "ROLc x s =
     (let l = scast x :: u64
      in ucast ((push_bit s l OR drop_bit (32 - s) (l AND 0xFFFFFFFF)) AND 0xFFFFFFFF))"

definition LOAD32L :: "byte list \<Rightarrow> nat \<Rightarrow> u32" where
  "LOAD32L buf i =
     (push_bit 24 (ucast (buf ! (i + 3))) OR push_bit 16 (ucast (buf ! (i + 2))) OR
      push_bit 8 (ucast (buf ! (i + 1))) OR ucast (buf ! i))"

definition STORE64L :: "u64 \<Rightarrow> byte list" where
  "STORE64L x = map (\<lambda>i. ucast (drop_bit (8 * i) x AND 255)) [0..<8]"

definition md5_F :: "u32 \<Rightarrow> u32 \<Rightarrow> u32 \<Rightarrow> u32" where
  "md5_F x y z = z XOR (x AND (y XOR z))"

definition md5_G :: "u32 \<Rightarrow> u32 \<Rightarrow> u32 \<Rightarrow> u32" where
  "md5_G x y z = y XOR (z AND (y XOR x))"

definition md5_H :: "u32 \<Rightarrow> u32 \<Rightarrow> u32 \<Rightarrow> u32" where
  "md5_H x y z = x XOR y XOR z"

definition md5_I :: "u32 \<Rightarrow> u32 \<Rightarrow> u32 \<Rightarrow> u32" where
  "md5_I x y z = y XOR (x OR NOT z)"

definition FF :: "u32 \<Rightarrow> u32 \<Rightarrow> u32 \<Rightarrow> u32 \<Rightarrow> u32 \<Rightarrow> nat \<Rightarrow> u32 \<Rightarrow> u32" where
  "FF a b c d M s t = ROLc (a + md5_F b c d + M + t) s + b"

definition GG :: "u32 \<Rightarrow> u32 \<Rightarrow> u32 \<Rightarrow> u32 \<Rightarrow> u32 \<Rightarrow> nat \<Rightarrow> u32 \<Rightarrow> u32" where
  "GG a b c d M s t = ROLc (a + md5_G b c d + M + t) s + b"

definition HH :: "u32 \<Rightarrow> u32 \<Rightarrow> u32 \<Rightarrow> u32 \<Rightarrow> u32 \<Rightarrow> nat \<Rightarrow> u32 \<Rightarrow> u32" where
  "HH a b c d M s t = ROLc (a + md5_H b c d + M + t) s + b"

definition II :: "u32 \<Rightarrow> u32 \<Rightarrow> u32 \<Rightarrow> u32 \<Rightarrow> u32 \<Rightarrow> nat \<Rightarrow> u32 \<Rightarrow> u32" where
  "II a b c d M s t = ROLc (a + md5_I b c d + M + t) s + b"

section \<open>A block\<close>

text \<open>The four rounds of \<open>md5_compress\<close>, each sixteen assignments, on the registers and the words of the block.\<close>

type_synonym chain = "u32 \<times> u32 \<times> u32 \<times> u32"

definition md5_round1 :: "u32 list \<Rightarrow> chain \<Rightarrow> chain" where
  "md5_round1 W = (\<lambda>(a, b, c, d).
     let a = FF a b c d (W ! 0) 7 0xd76aa478;
         d = FF d a b c (W ! 1) 12 0xe8c7b756;
         c = FF c d a b (W ! 2) 17 0x242070db;
         b = FF b c d a (W ! 3) 22 0xc1bdceee;
         a = FF a b c d (W ! 4) 7 0xf57c0faf;
         d = FF d a b c (W ! 5) 12 0x4787c62a;
         c = FF c d a b (W ! 6) 17 0xa8304613;
         b = FF b c d a (W ! 7) 22 0xfd469501;
         a = FF a b c d (W ! 8) 7 0x698098d8;
         d = FF d a b c (W ! 9) 12 0x8b44f7af;
         c = FF c d a b (W ! 10) 17 0xffff5bb1;
         b = FF b c d a (W ! 11) 22 0x895cd7be;
         a = FF a b c d (W ! 12) 7 0x6b901122;
         d = FF d a b c (W ! 13) 12 0xfd987193;
         c = FF c d a b (W ! 14) 17 0xa679438e;
         b = FF b c d a (W ! 15) 22 0x49b40821
     in (a, b, c, d))"

definition md5_round2 :: "u32 list \<Rightarrow> chain \<Rightarrow> chain" where
  "md5_round2 W = (\<lambda>(a, b, c, d).
     let a = GG a b c d (W ! 1) 5 0xf61e2562;
         d = GG d a b c (W ! 6) 9 0xc040b340;
         c = GG c d a b (W ! 11) 14 0x265e5a51;
         b = GG b c d a (W ! 0) 20 0xe9b6c7aa;
         a = GG a b c d (W ! 5) 5 0xd62f105d;
         d = GG d a b c (W ! 10) 9 0x02441453;
         c = GG c d a b (W ! 15) 14 0xd8a1e681;
         b = GG b c d a (W ! 4) 20 0xe7d3fbc8;
         a = GG a b c d (W ! 9) 5 0x21e1cde6;
         d = GG d a b c (W ! 14) 9 0xc33707d6;
         c = GG c d a b (W ! 3) 14 0xf4d50d87;
         b = GG b c d a (W ! 8) 20 0x455a14ed;
         a = GG a b c d (W ! 13) 5 0xa9e3e905;
         d = GG d a b c (W ! 2) 9 0xfcefa3f8;
         c = GG c d a b (W ! 7) 14 0x676f02d9;
         b = GG b c d a (W ! 12) 20 0x8d2a4c8a
     in (a, b, c, d))"

definition md5_round3 :: "u32 list \<Rightarrow> chain \<Rightarrow> chain" where
  "md5_round3 W = (\<lambda>(a, b, c, d).
     let a = HH a b c d (W ! 5) 4 0xfffa3942;
         d = HH d a b c (W ! 8) 11 0x8771f681;
         c = HH c d a b (W ! 11) 16 0x6d9d6122;
         b = HH b c d a (W ! 14) 23 0xfde5380c;
         a = HH a b c d (W ! 1) 4 0xa4beea44;
         d = HH d a b c (W ! 4) 11 0x4bdecfa9;
         c = HH c d a b (W ! 7) 16 0xf6bb4b60;
         b = HH b c d a (W ! 10) 23 0xbebfbc70;
         a = HH a b c d (W ! 13) 4 0x289b7ec6;
         d = HH d a b c (W ! 0) 11 0xeaa127fa;
         c = HH c d a b (W ! 3) 16 0xd4ef3085;
         b = HH b c d a (W ! 6) 23 0x04881d05;
         a = HH a b c d (W ! 9) 4 0xd9d4d039;
         d = HH d a b c (W ! 12) 11 0xe6db99e5;
         c = HH c d a b (W ! 15) 16 0x1fa27cf8;
         b = HH b c d a (W ! 2) 23 0xc4ac5665
     in (a, b, c, d))"

definition md5_round4 :: "u32 list \<Rightarrow> chain \<Rightarrow> chain" where
  "md5_round4 W = (\<lambda>(a, b, c, d).
     let a = II a b c d (W ! 0) 6 0xf4292244;
         d = II d a b c (W ! 7) 10 0x432aff97;
         c = II c d a b (W ! 14) 15 0xab9423a7;
         b = II b c d a (W ! 5) 21 0xfc93a039;
         a = II a b c d (W ! 12) 6 0x655b59c3;
         d = II d a b c (W ! 3) 10 0x8f0ccc92;
         c = II c d a b (W ! 10) 15 0xffeff47d;
         b = II b c d a (W ! 1) 21 0x85845dd1;
         a = II a b c d (W ! 8) 6 0x6fa87e4f;
         d = II d a b c (W ! 15) 10 0xfe2ce6e0;
         c = II c d a b (W ! 6) 15 0xa3014314;
         b = II b c d a (W ! 13) 21 0x4e0811a1;
         a = II a b c d (W ! 4) 6 0xf7537e82;
         d = II d a b c (W ! 11) 10 0xbd3af235;
         c = II c d a b (W ! 2) 15 0x2ad7d2bb;
         b = II b c d a (W ! 9) 21 0xeb86d391
     in (a, b, c, d))"

record md5_state =
  md5_length :: u64
  md5_chain :: chain
  curlen :: nat
  md5_buf :: "byte list"

definition MD5_BLOCKSIZE :: nat where "MD5_BLOCKSIZE = 64"

definition md5_compress :: "byte list \<Rightarrow> md5_state \<Rightarrow> md5_state" where
  "md5_compress buf m =
     (let W = map (\<lambda>i. LOAD32L buf (4 * i)) [0..<16];
          (sa, sb, sc, sd) = md5_chain m;
          (a, b, c, d) = md5_round4 W (md5_round3 W (md5_round2 W (md5_round1 W (sa, sb, sc, sd))))
      in m\<lparr>md5_chain := (sa + a, sb + b, sc + c, sd + d)\<rparr>)"

section \<open>A message\<close>

text \<open>\<open>md5_init\<close> leaves the buffer as it finds it.\<close>

definition md5_init :: "byte list \<Rightarrow> md5_state" where
  "md5_init junk =
     \<lparr>md5_length = 0, md5_chain = (0x67452301, 0xefcdab89, 0x98badcfe, 0x10325476), curlen = 0, md5_buf = junk\<rparr>"

text \<open>The loop of \<open>md5_process\<close>: a whole block is taken from the input when the buffer is empty; what does not fill one
  goes into the buffer. The assertion at its head, that the buffer is not overfull, never fails.\<close>

function md5_process :: "md5_state \<Rightarrow> byte list \<Rightarrow> md5_state" where
  "md5_process m inp =
     (if inp = [] \<or> curlen m > MD5_BLOCKSIZE then m
      else if curlen m = 0 \<and> length inp \<ge> MD5_BLOCKSIZE
      then let m = md5_compress inp m
           in md5_process (m\<lparr>md5_length := md5_length m + of_nat (MD5_BLOCKSIZE * 8)\<rparr>) (drop MD5_BLOCKSIZE inp)
      else let n = min (length inp) (MD5_BLOCKSIZE - curlen m);
               m = m\<lparr>md5_buf := memcpy_at (md5_buf m) (curlen m) (take n inp), curlen := curlen m + n\<rparr>;
               m = (if curlen m = MD5_BLOCKSIZE
                    then let m = md5_compress (md5_buf m) m
                         in m\<lparr>md5_length := md5_length m + of_nat (8 * MD5_BLOCKSIZE), curlen := 0\<rparr>
                    else m)
           in md5_process m (drop n inp))"
  by pat_completeness auto

termination md5_process
  by (relation "measures [\<lambda>(m, inp). length inp, \<lambda>(m, inp). curlen m]") (auto simp: MD5_BLOCKSIZE_def min_def Let_def)

declare md5_process.simps [simp del]

text \<open>\<open>md5_done\<close>; zeros are written up to an end.\<close>

definition pad_to :: "nat \<Rightarrow> md5_state \<Rightarrow> md5_state" where
  "pad_to n m = m\<lparr>md5_buf := memcpy_at (md5_buf m) (curlen m) (replicate (n - curlen m) 0), curlen := max n (curlen m)\<rparr>"

definition md5_done :: "md5_state \<Rightarrow> byte list" where
  "md5_done m =
     (let m = m\<lparr>md5_length := md5_length m + of_nat (curlen m * 8)\<rparr>;
          m = m\<lparr>md5_buf := (md5_buf m)[curlen m := 0x80], curlen := curlen m + 1\<rparr>;
          m = (if curlen m > 56 then let m = pad_to 64 m in (md5_compress (md5_buf m) m)\<lparr>curlen := 0\<rparr> else m);
          m = pad_to 56 m;
          m = m\<lparr>md5_buf := memcpy_at (md5_buf m) 56 (STORE64L (md5_length m))\<rparr>;
          (a, b, c, d) = md5_chain (md5_compress (md5_buf m) m)
      in le32 a @ le32 b @ le32 c @ le32 d)"

section \<open>The reference\<close>

text \<open>RFC 1321, sections 3.1 to 3.5.\<close>

definition rfc_T :: "u32 list" where
  "rfc_T =
    [0xd76aa478, 0xe8c7b756, 0x242070db, 0xc1bdceee, 0xf57c0faf, 0x4787c62a, 0xa8304613, 0xfd469501,
     0x698098d8, 0x8b44f7af, 0xffff5bb1, 0x895cd7be, 0x6b901122, 0xfd987193, 0xa679438e, 0x49b40821,
     0xf61e2562, 0xc040b340, 0x265e5a51, 0xe9b6c7aa, 0xd62f105d, 0x02441453, 0xd8a1e681, 0xe7d3fbc8,
     0x21e1cde6, 0xc33707d6, 0xf4d50d87, 0x455a14ed, 0xa9e3e905, 0xfcefa3f8, 0x676f02d9, 0x8d2a4c8a,
     0xfffa3942, 0x8771f681, 0x6d9d6122, 0xfde5380c, 0xa4beea44, 0x4bdecfa9, 0xf6bb4b60, 0xbebfbc70,
     0x289b7ec6, 0xeaa127fa, 0xd4ef3085, 0x04881d05, 0xd9d4d039, 0xe6db99e5, 0x1fa27cf8, 0xc4ac5665,
     0xf4292244, 0x432aff97, 0xab9423a7, 0xfc93a039, 0x655b59c3, 0x8f0ccc92, 0xffeff47d, 0x85845dd1,
     0x6fa87e4f, 0xfe2ce6e0, 0xa3014314, 0x4e0811a1, 0xf7537e82, 0xbd3af235, 0x2ad7d2bb, 0xeb86d391]"

definition rfc_shift :: "nat list" where
  "rfc_shift = [7, 12, 17, 22,  5, 9, 14, 20,  4, 11, 16, 23,  6, 10, 15, 21]"

definition rfc_fun :: "nat \<Rightarrow> u32 \<Rightarrow> u32 \<Rightarrow> u32 \<Rightarrow> u32" where
  "rfc_fun r x y z =
     (if r = 0 then (x AND y) OR (NOT x AND z)
      else if r = 1 then (x AND z) OR (y AND NOT z)
      else if r = 2 then x XOR y XOR z
      else y XOR (x OR NOT z))"

definition rfc_word :: "nat \<Rightarrow> nat" where
  "rfc_word i =
     (if i < 16 then i else if i < 32 then (5 * i + 1) mod 16 else if i < 48 then (3 * i + 5) mod 16 else (7 * i) mod 16)"

definition rfc_step :: "u32 list \<Rightarrow> nat \<Rightarrow> chain \<Rightarrow> chain" where
  "rfc_step X i = (\<lambda>(a, b, c, d).
     (d, b + word_rotl (rfc_shift ! (4 * (i div 16) + i mod 4)) (a + rfc_fun (i div 16) b c d + X ! rfc_word i + rfc_T ! i), b, c))"

definition rfc_words :: "byte list \<Rightarrow> u32 list" where
  "rfc_words blk = map (\<lambda>i. of_le32 (take 4 (drop (4 * i) blk))) [0..<16]"

definition rfc_block :: "byte list \<Rightarrow> chain \<Rightarrow> chain" where
  "rfc_block blk = (\<lambda>(sa, sb, sc, sd).
     let (a, b, c, d) = fold (rfc_step (rfc_words blk)) [0..<64] (sa, sb, sc, sd) in (sa + a, sb + b, sc + c, sd + d))"

fun blocks :: "byte list \<Rightarrow> byte list list" where
  "blocks bs = (if length bs < 64 then [] else take 64 bs # blocks (drop 64 bs))"

declare blocks.simps [simp del]

text \<open>A one bit, then zeros up to 56 bytes of the last block, then the number of bits modulo \<open>2 ^ 64\<close>.\<close>

definition rfc_pad :: "byte list \<Rightarrow> byte list" where
  "rfc_pad msg = msg @ 0x80 # replicate ((119 - length msg mod 64) mod 64) 0 @
     map (\<lambda>i. of_nat (8 * length msg div 256 ^ i)) [0..<8]"

definition rfc_md5 :: "byte list \<Rightarrow> byte list" where
  "rfc_md5 msg =
     (let (a, b, c, d) = fold rfc_block (blocks (rfc_pad msg)) (0x67452301, 0xefcdab89, 0x98badcfe, 0x10325476)
      in le32 a @ le32 b @ le32 c @ le32 d)"

section \<open>A round is sixteen steps\<close>

lemma mask32: "(0xFFFFFFFF :: u64) = mask 32"
  by (simp add: mask_eq_exp_minus_1)

lemma ROLc_rotl: "0 < s \<Longrightarrow> s < 32 \<Longrightarrow> ROLc x s = word_rotl s x"
  unfolding ROLc_def Let_def mask32
  by (rule bit_word_eqI) (auto simp: bit_simps bit_word_rotl_iff less_diff_conv2 mod_if add.commute [of 32])

lemma md5_F_rfc: "md5_F x y z = rfc_fun 0 x y z"
  unfolding md5_F_def rfc_fun_def by (simp, rule bit_word_eqI) (auto simp: bit_simps)

lemma md5_G_rfc: "md5_G x y z = rfc_fun 1 x y z"
  unfolding md5_G_def rfc_fun_def by (simp, rule bit_word_eqI) (auto simp: bit_simps)

lemma md5_H_rfc: "md5_H x y z = rfc_fun 2 x y z"
  by (simp add: md5_H_def rfc_fun_def)

lemma md5_I_rfc: "md5_I x y z = rfc_fun 3 x y z"
  by (simp add: md5_I_def rfc_fun_def)

lemma fold_step:
  assumes "\<And>x. f x = fold (rfc_step X) is (d, x, b, c)"
    and "v = b + word_rotl (rfc_shift ! (4 * (i div 16) + i mod 4)) (a + rfc_fun (i div 16) b c d + X ! rfc_word i + rfc_T ! i)"
  shows "Let v f = fold (rfc_step X) (i # is) (a, b, c, d)"
  using assms by (simp add: rfc_step_def Let_def)

lemma upt16: "[0..<16] = [0, 1, 2, 3, 4, 5, 6, 7, 8, 9, 10, 11, 12, 13, 14, 15 :: nat]"
  "[16..<32] = [16, 17, 18, 19, 20, 21, 22, 23, 24, 25, 26, 27, 28, 29, 30, 31 :: nat]"
  "[32..<48] = [32, 33, 34, 35, 36, 37, 38, 39, 40, 41, 42, 43, 44, 45, 46, 47 :: nat]"
  "[48..<64] = [48, 49, 50, 51, 52, 53, 54, 55, 56, 57, 58, 59, 60, 61, 62, 63 :: nat]"
  by (simp_all add: upt_conv_Cons)

lemma FF_rfc: "0 < s \<Longrightarrow> s < 32 \<Longrightarrow> FF a b c d M s t = b + word_rotl s (a + rfc_fun 0 b c d + M + t)"
  by (simp add: FF_def ROLc_rotl md5_F_rfc)

lemma GG_rfc: "0 < s \<Longrightarrow> s < 32 \<Longrightarrow> GG a b c d M s t = b + word_rotl s (a + rfc_fun 1 b c d + M + t)"
  by (simp add: GG_def ROLc_rotl md5_G_rfc)

lemma HH_rfc: "0 < s \<Longrightarrow> s < 32 \<Longrightarrow> HH a b c d M s t = b + word_rotl s (a + rfc_fun 2 b c d + M + t)"
  by (simp add: HH_def ROLc_rotl md5_H_rfc)

lemma II_rfc: "0 < s \<Longrightarrow> s < 32 \<Longrightarrow> II a b c d M s t = b + word_rotl s (a + rfc_fun 3 b c d + M + t)"
  by (simp add: II_def ROLc_rotl md5_I_rfc)

lemmas rfc_tables = rfc_shift_def rfc_word_def rfc_T_def

lemma md5_round1_rfc: "md5_round1 W s = fold (rfc_step W) [0..<16] s"
  unfolding md5_round1_def upt16
  by (cases s, simp only: prod.case) ((rule fold_step)+, simp_all add: FF_rfc rfc_tables)

lemma md5_round2_rfc: "md5_round2 W s = fold (rfc_step W) [16..<32] s"
  unfolding md5_round2_def upt16
  by (cases s, simp only: prod.case) ((rule fold_step)+, simp_all add: GG_rfc rfc_tables)

lemma md5_round3_rfc: "md5_round3 W s = fold (rfc_step W) [32..<48] s"
  unfolding md5_round3_def upt16
  by (cases s, simp only: prod.case) ((rule fold_step)+, simp_all add: HH_rfc rfc_tables)

lemma md5_round4_rfc: "md5_round4 W s = fold (rfc_step W) [48..<64] s"
  unfolding md5_round4_def upt16
  by (cases s, simp only: prod.case) ((rule fold_step)+, simp_all add: II_rfc rfc_tables)

lemma md5_rounds_rfc:
  "md5_round4 W (md5_round3 W (md5_round2 W (md5_round1 W s))) = fold (rfc_step W) [0..<64] s"
proof -
  have "[0..<64] = [0..<16] @ [16..<32] @ [32..<48] @ [48..<64 :: nat]"
    using upt_add_eq_append [of 0 48 16] upt_add_eq_append [of 0 32 16] upt_add_eq_append [of 0 16 16] by simp
  then show ?thesis by (simp add: md5_round1_rfc md5_round2_rfc md5_round3_rfc md5_round4_rfc)
qed

section \<open>A block\<close>

lemma LOAD32L_rfc: "i + 4 \<le> length buf \<Longrightarrow> LOAD32L buf i = of_le32 (take 4 (drop i buf))"
  by (simp add: LOAD32L_def of_le32_def ac_simps)

lemma md5_compress_rfc:
  "64 \<le> length buf \<Longrightarrow> md5_compress buf m = m\<lparr>md5_chain := rfc_block (take 64 buf) (md5_chain m)\<rparr>"
proof -
  assume l: "64 \<le> length buf"
  have "map (\<lambda>i. LOAD32L buf (4 * i)) [0..<16] = rfc_words (take 64 buf)"
    using l by (auto simp: rfc_words_def LOAD32L_rfc take_drop min_def)
  then show ?thesis by (simp add: md5_compress_def rfc_block_def md5_rounds_rfc split_beta Let_def)
qed

section \<open>A message in pieces\<close>

lemma blocks_nil [simp]: "length bs < 64 \<Longrightarrow> blocks bs = []"
  by (simp add: blocks.simps)

lemma blocks_cons: "length blk = 64 \<Longrightarrow> blocks (blk @ bs) = blk # blocks bs"
  by (subst blocks.simps) simp

lemma blocks_append: "64 dvd length xs \<Longrightarrow> blocks (xs @ ys) = blocks xs @ blocks ys"
proof (induction xs rule: blocks.induct)
  case (1 bs)
  show ?case
  proof (cases "length bs < 64")
    case True
    then have "bs = []" using 1 by (auto dest: dvd_imp_le)
    then show ?thesis by simp
  next
    case False
    then have "64 dvd length (drop 64 bs)" using 1 by simp
    with 1 False have "blocks (drop 64 bs @ ys) = blocks (drop 64 bs) @ blocks ys" by simp
    then show ?thesis using False by (subst (1 2) blocks.simps) simp
  qed
qed

text \<open>What the state holds after the bytes \<open>full @ part\<close>: the chain over the whole blocks, the rest in the buffer, the
  number of bits of the whole blocks.\<close>

definition md5_holds :: "md5_state \<Rightarrow> byte list \<Rightarrow> byte list \<Rightarrow> bool" where
  "md5_holds m full part \<longleftrightarrow>
     64 dvd length full \<and> length part < 64 \<and> curlen m = length part \<and> length (md5_buf m) = 64 \<and>
     take (length part) (md5_buf m) = part \<and> md5_length m = of_nat (8 * length full) \<and>
     md5_chain m = fold rfc_block (blocks full) (0x67452301, 0xefcdab89, 0x98badcfe, 0x10325476)"

lemma md5_init_holds: "length junk = 64 \<Longrightarrow> md5_holds (md5_init junk) [] []"
  by (simp add: md5_holds_def md5_init_def)

lemma md5_process_nil [simp]: "md5_process m [] = m"
  by (simp add: md5_process.simps)

lemma md5_process_block:
  "curlen m = 0 \<Longrightarrow> 64 \<le> length inp \<Longrightarrow>
   md5_process m inp = md5_process ((md5_compress inp m)\<lparr>md5_length := md5_length m + 512\<rparr>) (drop 64 inp)"
  by (subst md5_process.simps) (auto simp: MD5_BLOCKSIZE_def md5_compress_rfc)

lemma md5_length_compress [simp]: "md5_length (md5_compress b m) = md5_length m"
  by (simp add: md5_compress_def split_beta Let_def)

lemma md5_process_fill:
  assumes "\<not> (curlen m = 0 \<and> 64 \<le> length inp)" "curlen m < 64" "64 \<le> curlen m + length inp"
  shows "md5_process m inp =
    (let b = memcpy_at (md5_buf m) (curlen m) (take (64 - curlen m) inp)
     in md5_process ((md5_compress b (m\<lparr>md5_buf := b, curlen := 64\<rparr>))\<lparr>md5_length := md5_length m + 512, curlen := 0\<rparr>)
          (drop (64 - curlen m) inp))"
proof -
  have "inp \<noteq> []" "min (length inp) (64 - curlen m) = 64 - curlen m" "curlen m + (64 - curlen m) = 64" using assms by auto
  with assms show ?thesis by (subst md5_process.simps) (auto simp: MD5_BLOCKSIZE_def Let_def)
qed

lemma md5_process_keep:
  assumes "inp \<noteq> []" "curlen m + length inp < 64"
  shows "md5_process m inp = m\<lparr>md5_buf := memcpy_at (md5_buf m) (curlen m) inp, curlen := curlen m + length inp\<rparr>"
  using assms by (subst md5_process.simps) (auto simp: MD5_BLOCKSIZE_def min_def Let_def)

lemma md5_holds_block:
  assumes "md5_holds m full part" "length blk = 64" "md5_chain m' = rfc_block blk (md5_chain m)" "curlen m' = 0"
    "length (md5_buf m') = 64" "md5_length m' = md5_length m + 512"
  shows "md5_holds m' (full @ blk) []"
  using assms by (simp add: md5_holds_def blocks_append blocks_cons [of blk "[]", simplified])

lemma md5_process_holds:
  "md5_holds m full part \<Longrightarrow> \<exists>full' part'. md5_holds (md5_process m inp) full' part' \<and> full' @ part' = full @ part @ inp"
proof (induction inp arbitrary: m full part rule: length_induct)
  case (1 inp)
  note h = "1.prems" [unfolded md5_holds_def]
  consider (nil) "inp = []" | (block) "curlen m = 0" "64 \<le> length inp"
    | (fill) "\<not> (curlen m = 0 \<and> 64 \<le> length inp)" "64 \<le> curlen m + length inp"
    | (keep) "inp \<noteq> []" "curlen m + length inp < 64"
    by fastforce
  then show ?case
  proof cases
    case nil
    then show ?thesis using "1.prems" by auto
  next
    case block
    let ?m = "(md5_compress inp m)\<lparr>md5_length := md5_length m + 512\<rparr>"
    have "md5_holds ?m (full @ take 64 inp) []"
      by (rule md5_holds_block [OF "1.prems"]) (use block h in \<open>simp_all add: md5_compress_rfc\<close>)
    moreover have "length (drop 64 inp) < length inp" using block by simp
    ultimately obtain f' p' where "md5_holds (md5_process ?m (drop 64 inp)) f' p'"
      "f' @ p' = (full @ take 64 inp) @ [] @ drop 64 inp" using "1.IH" by blast
    then show ?thesis using block h by (auto simp: md5_process_block)
  next
    case fill
    let ?n = "64 - curlen m"
    let ?b = "memcpy_at (md5_buf m) (curlen m) (take ?n inp)"
    let ?m = "(md5_compress ?b (m\<lparr>md5_buf := ?b, curlen := 64\<rparr>))\<lparr>md5_length := md5_length m + 512, curlen := 0\<rparr>"
    have b: "?b = part @ take ?n inp" "length ?b = 64" using fill h by (auto simp: memcpy_at_def)
    have "md5_holds ?m (full @ ?b) []"
      by (rule md5_holds_block [OF "1.prems"]) (use b(2) in \<open>simp_all add: md5_compress_rfc\<close>)
    moreover have "length (drop ?n inp) < length inp" using fill h by auto
    ultimately obtain f' p' where "md5_holds (md5_process ?m (drop ?n inp)) f' p'"
      "f' @ p' = (full @ ?b) @ [] @ drop ?n inp" using "1.IH" by blast
    then show ?thesis using fill h b by (auto simp: md5_process_fill Let_def)
  next
    case keep
    then have "md5_holds (md5_process m inp) full (part @ inp)"
      using h by (auto simp: md5_holds_def md5_process_keep memcpy_at_def)
    then show ?thesis by blast
  qed
qed

section \<open>The end of a message\<close>

lemma STORE64L_bytes: "STORE64L (of_nat k) = map (\<lambda>i. of_nat (k div 256 ^ i)) [0..<8]"
proof -
  have "ucast (drop_bit (8 * i) (of_nat k :: u64) AND 255) = (of_nat (k div 256 ^ i) :: byte)" if "i < 8" for i
  proof (rule bit_word_eqI)
    fix j assume "j < LENGTH(8)"
    moreover have "bit (255 :: u64) j \<longleftrightarrow> j < 8"
      using bit_mask_iff [of 8 j, where 'a = u64] by (auto simp: mask_eq_exp_minus_1)
    moreover have "k div 256 ^ i = drop_bit (8 * i) k" by (simp add: drop_bit_eq_div power_mult)
    ultimately show "bit (ucast (drop_bit (8 * i) (of_nat k :: u64) AND 255) :: byte) j = bit (of_nat (k div 256 ^ i) :: byte) j"
      using that by (simp add: bit_simps bit_of_nat_iff)
  qed
  then show ?thesis by (simp add: STORE64L_def)
qed

lemma length_STORE64L [simp]: "length (STORE64L x) = 8"
  by (simp add: STORE64L_def)

lemma rfc_pad_parts:
  assumes "64 dvd length full" "length part < 64"
  shows "rfc_pad (full @ part) = full @ (part @ 0x80 # replicate (if length part < 56 then 55 - length part else 119 - length part) 0 @
    STORE64L (of_nat (8 * (length full + length part))))"
proof -
  have m: "(length full + length part) mod 64 = length part" using assms by (auto simp: dvd_def)
  have "(119 - length part) mod 64 = (if length part < 56 then 55 - length part else 119 - length part)"
    using assms(2) by (auto simp: mod_if)
  then show ?thesis unfolding rfc_pad_def by (simp only: STORE64L_bytes length_append m append_assoc)
qed

text \<open>The bytes before \<open>curlen\<close>.\<close>

definition buffered :: "md5_state \<Rightarrow> byte list \<Rightarrow> bool" where
  "buffered m x \<longleftrightarrow> curlen m = length x \<and> length (md5_buf m) = 64 \<and> take (length x) (md5_buf m) = x"

lemma buffered_snoc:
  "buffered m x \<Longrightarrow> length x < 64 \<Longrightarrow> buffered (m\<lparr>md5_buf := (md5_buf m)[curlen m := b], curlen := curlen m + 1\<rparr>) (x @ [b])"
  by (simp add: buffered_def take_Suc_conv_app_nth take_update_cancel)

lemma buffered_pad:
  "buffered m x \<Longrightarrow> length x \<le> n \<Longrightarrow> n \<le> 64 \<Longrightarrow> buffered (pad_to n m) (x @ replicate (n - length x) 0)"
  by (auto simp: buffered_def pad_to_def memcpy_at_def)

lemma pad_to_simps [simp]: "md5_chain (pad_to n m) = md5_chain m" "md5_length (pad_to n m) = md5_length m"
  by (simp_all add: pad_to_def)

lemma buffered_full: "buffered m x \<Longrightarrow> length x = 64 \<Longrightarrow> md5_buf m = x"
  by (auto simp: buffered_def)

lemma buffered_store: "buffered m x \<Longrightarrow> length x = 56 \<Longrightarrow> memcpy_at (md5_buf m) 56 (STORE64L l) = x @ STORE64L l"
  by (auto simp: buffered_def memcpy_at_def)

lemma md5_done_holds:
  assumes "md5_holds m full part"
  shows "md5_done m = rfc_md5 (full @ part)"
proof -
  note h = assms [unfolded md5_holds_def]
  let ?n = "length part"
  define l where "l = (of_nat (8 * (length full + ?n)) :: u64)"
  define m1 where "m1 = m\<lparr>md5_length := md5_length m + of_nat (curlen m * 8)\<rparr>"
  define m2 where "m2 = m1\<lparr>md5_buf := (md5_buf m1)[curlen m1 := 0x80], curlen := curlen m1 + 1\<rparr>"
  define m3 where "m3 = (if curlen m2 > 56 then let m = pad_to 64 m2 in (md5_compress (md5_buf m) m)\<lparr>curlen := 0\<rparr> else m2)"
  define b4 where "b4 = memcpy_at (md5_buf (pad_to 56 m3)) 56 (STORE64L (md5_length m3))"
  define full' where "full' = (if ?n < 56 then full else full @ part @ 0x80 # replicate (63 - ?n) 0)"
  define x where "x = (if ?n < 56 then part @ [0x80] else [])"
  have "buffered m1 part" using h by (simp add: buffered_def m1_def)
  then have b2: "buffered m2 (part @ [0x80])" unfolding m2_def by (rule buffered_snoc) (use h in simp)
  have l1: "md5_length m2 = l" using h by (simp add: m2_def m1_def l_def)
  have c2: "md5_chain m2 = md5_chain m" "curlen m2 = Suc ?n" using h by (simp_all add: m2_def m1_def)
  have b3: "buffered m3 x \<and> md5_length m3 = l \<and>
    md5_chain m3 = fold rfc_block (blocks full') (0x67452301, 0xefcdab89, 0x98badcfe, 0x10325476)"
  proof (cases "?n < 56")
    case True
    then show ?thesis using b2 l1 c2 h by (simp add: m3_def x_def full'_def)
  next
    case False
    have "buffered (pad_to 64 m2) ((part @ [0x80]) @ replicate (64 - length (part @ [0x80])) 0)"
      by (rule buffered_pad [OF b2]) (use h in simp_all)
    from buffered_full [OF this] have "md5_buf (pad_to 64 m2) = part @ 0x80 # replicate (63 - ?n) 0"
      using h by simp
    moreover have "take (64 - ?n) (128 # replicate (63 - ?n) 0) = 128 # replicate (63 - ?n) (0 :: byte)"
      by (rule take_all) (use h in auto)
    ultimately show ?thesis using False h l1 c2
      by (simp add: m3_def x_def full'_def buffered_def md5_compress_rfc blocks_append
        blocks_cons [of "part @ 128 # replicate (63 - ?n) 0" "[]", simplified])
  qed
  have x: "length x \<le> 56" by (simp add: x_def)
  have "buffered (pad_to 56 m3) (x @ replicate (56 - length x) 0)"
    by (rule buffered_pad) (use b3 x in auto)
  then have b4: "b4 = (x @ replicate (56 - length x) 0) @ STORE64L l"
    unfolding b4_def using b3 x by (simp add: buffered_store)
  have pad: "rfc_pad (full @ part) = full' @ b4"
  proof (cases "?n < 56")
    case True
    then show ?thesis using rfc_pad_parts [of full part] h by (simp add: b4 x_def full'_def l_def)
  next
    case False
    then have "119 - ?n = (63 - ?n) + 56" using h by simp
    then have "replicate (119 - ?n) (0 :: byte) = replicate (63 - ?n) 0 @ replicate 56 0" by (metis replicate_add)
    then show ?thesis using False rfc_pad_parts [of full part] h by (simp add: b4 x_def full'_def l_def)
  qed
  have "64 dvd length full'" using h by (auto simp: full'_def)
  moreover have "length b4 = 64" using x by (simp add: b4)
  ultimately have "fold rfc_block (blocks (rfc_pad (full @ part))) (0x67452301, 0xefcdab89, 0x98badcfe, 0x10325476)
    = rfc_block b4 (md5_chain m3)" using b3 by (simp add: pad blocks_append blocks_cons [of b4 "[]", simplified])
  moreover have "md5_done m = (\<lambda>(a, b, c, d). le32 a @ le32 b @ le32 c @ le32 d)
      (md5_chain (md5_compress b4 ((pad_to 56 m3)\<lparr>md5_buf := b4\<rparr>)))"
    by (simp only: md5_done_def Let_def m1_def [symmetric] m2_def [symmetric] m3_def [unfolded Let_def, symmetric] pad_to_simps
        b4_def [symmetric]) simp
  ultimately show ?thesis using \<open>length b4 = 64\<close> by (simp add: rfc_md5_def md5_compress_rfc)
qed

lemma md5_pieces:
  "md5_holds m full part \<Longrightarrow> md5_done (fold (\<lambda>p m. md5_process m p) ps m) = rfc_md5 (full @ part @ concat ps)"
proof (induction ps arbitrary: m full part)
  case Nil
  then show ?case by (simp add: md5_done_holds)
next
  case (Cons p ps)
  from md5_process_holds [OF Cons.prems, of p] obtain f' p' where
    "md5_holds (md5_process m p) f' p'" "f' @ p' = full @ part @ p" by blast
  with Cons.IH show ?case by simp (metis append_assoc)
qed

text \<open>C37. The digest of a message given in pieces is the one that RFC 1321 defines for the whole message, whatever the
  pieces and whatever was in the buffer before.\<close>

theorem md5_is_rfc:
  assumes "length junk = 64"
  shows "md5_done (fold (\<lambda>p m. md5_process m p) pieces (md5_init junk)) = rfc_md5 (concat pieces)"
  using md5_pieces [OF md5_init_holds [OF assms]] by simp

theorem md5_is_rfc_witness:
  "md5_done (fold (\<lambda>p m. md5_process m p) [[0x61], [], [0x62, 0x63]] (md5_init (replicate 64 7))) = rfc_md5 [0x61, 0x62, 0x63]"
  using md5_is_rfc [of "replicate 64 7" "[[0x61], [], [0x62, 0x63]]"] by simp

section \<open>The digest of a message\<close>

fun chunks :: "msgbuf \<Rightarrow> byte list list" where
  "chunks (Msgbuf s f u cs) = msgbuf_base (Msgbuf s f u cs) # concat (map chunks cs)"

lemma concat_chunks: "concat (chunks m) = wire m"
proof (induction m)
  case (Msgbuf s f u cs)
  then have "concat (concat (map chunks cs)) = concat (map wire cs)" by (induction cs) auto
  then show ?case by simp
qed

lemma md5_walk_chunks: "md5_walk md5_process m st = fold (\<lambda>p m. md5_process m p) (chunks m) st"
proof (induction m arbitrary: st)
  case (Msgbuf s f u cs)
  then have "fold (\<lambda>g st. g st) (map (md5_walk md5_process) cs) st = fold (\<lambda>p m. md5_process m p) (concat (map chunks cs)) st" for st
    by (induction cs arbitrary: st) auto
  then show ?case by simp
qed

text \<open>C38. \<open>msgbuf_md5\<close> is the digest of the bytes that the message is on the wire, with its control messages.\<close>

theorem msgbuf_md5_of_wire:
  assumes "length junk = 64"
  shows "msgbuf_md5 (md5_init junk) md5_process md5_done m = rfc_md5 (wire m)"
  using md5_pieces [OF md5_init_holds [OF assms], of "chunks m"] by (simp add: msgbuf_md5_def md5_walk_chunks concat_chunks)

theorem msgbuf_md5_of_wire_witness:
  "\<forall>m. msgbuf_md5 (md5_init (replicate 64 7)) md5_process md5_done m = rfc_md5 (wire m)"
  by (intro allI msgbuf_md5_of_wire) simp

end
