(* ===== verification/MsgbufHead.thy ===== *)
theory MsgbufHead
  imports Msgbuf
begin

text \<open>
  The message queue of a socket, \<^verbatim>\<open>src/src/msgbuf/msgbuf_head.c\<close> and \<^verbatim>\<open>msgbuf_head.h\<close>. The six
  callbacks of \<open>struct msgbuf_vfptr\<close> are events: an operation returns the callbacks it makes,
  in order; \<open>ev_hndl\<close> says which pointers are set (\<open>None\<close> for a null table).
\<close>

section \<open>State and operations\<close>

datatype mb_event = EvAdd | EvRm | EvEmpty | EvNonempty | EvFull | EvNonfull

record msgbuf_head =
  ev_hndl :: "(mb_event \<Rightarrow> bool) option"
  wnd :: i32
  bh_size :: i32
  waiters :: i32
  bh_msgs :: "msgbuf list"

definition msgbuf_head_init :: "i32 \<Rightarrow> msgbuf_head" where
  "msgbuf_head_init w = \<lparr>ev_hndl = None, wnd = w, bh_size = 0, waiters = 0, bh_msgs = []\<rparr>"

definition msgbuf_head_ev_hndl :: "msgbuf_head \<Rightarrow> (mb_event \<Rightarrow> bool) option \<Rightarrow> msgbuf_head" where
  "msgbuf_head_ev_hndl bh h = bh\<lparr>ev_hndl := h\<rparr>"

definition emits :: "msgbuf_head \<Rightarrow> mb_event \<Rightarrow> bool" where
  "emits bh e \<longleftrightarrow> (case ev_hndl bh of None \<Rightarrow> False | Some f \<Rightarrow> f e)"

text \<open>\<open>msgbuf_head_walk\<close>: the callback threads its own state and stops the walk by returning a
  value other than 0.\<close>

fun walk_msgs :: "(msgbuf \<Rightarrow> 's \<Rightarrow> int \<times> 's) \<Rightarrow> msgbuf list \<Rightarrow> 's \<Rightarrow> 's" where
  "walk_msgs f [] s = s"
| "walk_msgs f (m # ms) s = (let (rc, s') = f m s in if rc \<noteq> 0 then s' else walk_msgs f ms s')"

definition msgbuf_head_walk :: "msgbuf_head \<Rightarrow> (msgbuf \<Rightarrow> 's \<Rightarrow> int \<times> 's) \<Rightarrow> 's \<Rightarrow> 's" where
  "msgbuf_head_walk bh f s = walk_msgs f (bh_msgs bh) s"

definition msgbuf_can_in :: "msgbuf_head \<Rightarrow> bool" where
  "msgbuf_can_in bh \<longleftrightarrow> bh_msgs bh = [] \<or> sint (bh_size bh) < sint (wnd bh)"

definition msgbuf_head_empty :: "msgbuf_head \<Rightarrow> bool cres" where
  "msgbuf_head_empty bh =
     (if bh_msgs bh = [] then if bh_size bh \<noteq> 0 then Bug else Ok True else Ok False)"

definition msgbuf_head_out :: "msgbuf_head \<Rightarrow> (msgbuf \<times> mb_event list \<times> msgbuf_head) cres" where
  "msgbuf_head_out bh =
     cbind (msgbuf_head_empty bh) (\<lambda>e.
       if e then Err ENONE
       else let msg = hd (bh_msgs bh);
                bh = bh\<lparr>bh_msgs := tl (bh_msgs bh), bh_size := bh_size bh - usize msg\<rparr>;
                ev1 = (if emits bh EvRm then [EvRm] else []);
                ev2 = (if emits bh EvNonfull \<and> sint (wnd bh - bh_size bh) > 0 then [EvNonfull] else [])
            in if emits bh EvEmpty
               then cbind (msgbuf_head_empty bh) (\<lambda>e'.
                      Ok (msg, ev1 @ ev2 @ (if e' then [EvEmpty] else []), bh))
               else Ok (msg, ev1 @ ev2, bh))"

definition msgbuf_head_in :: "msgbuf_head \<Rightarrow> msgbuf \<Rightarrow> (mb_event list \<times> msgbuf_head) cres" where
  "msgbuf_head_in bh msg =
     cbind (if emits bh EvNonempty then msgbuf_head_empty bh else Ok False) (\<lambda>e.
       let ev0 = (if e then [EvNonempty] else []);
           bh = bh\<lparr>bh_msgs := bh_msgs bh @ [msg], bh_size := bh_size bh + usize msg\<rparr>;
           ev1 = (if emits bh EvAdd then [EvAdd] else []);
           ev2 = (if emits bh EvFull \<and> sint (wnd bh - bh_size bh) \<le> 0 then [EvFull] else [])
       in Ok (ev0 @ ev1 @ ev2, bh))"

text \<open>\<open>msgbuf_head_out_msg\<close> and \<open>msgbuf_head_in_msg\<close> only convert the pointer.\<close>

definition msgbuf_head_out_msg :: "msgbuf_head \<Rightarrow> (msgbuf \<times> mb_event list \<times> msgbuf_head) cres" where
  "msgbuf_head_out_msg bh = msgbuf_head_out bh"

definition msgbuf_head_in_msg :: "msgbuf_head \<Rightarrow> msgbuf \<Rightarrow> (mb_event list \<times> msgbuf_head) cres" where
  "msgbuf_head_in_msg bh msg = msgbuf_head_in bh msg"

text \<open>\<open>msgbuf_dequeue_all\<close> moves the messages in front of those of \<open>head\<close> and leaves \<open>size\<close>.\<close>

definition msgbuf_dequeue_all :: "msgbuf_head \<Rightarrow> msgbuf list \<Rightarrow> msgbuf_head \<times> msgbuf list" where
  "msgbuf_dequeue_all bh dst = (bh\<lparr>bh_msgs := []\<rparr>, bh_msgs bh @ dst)"

definition msgbuf_head_has_waiters :: "msgbuf_head \<Rightarrow> bool" where
  "msgbuf_head_has_waiters bh \<longleftrightarrow> sint (waiters bh) > 0"

definition msgbuf_head_incr_waiters :: "msgbuf_head \<Rightarrow> msgbuf_head" where
  "msgbuf_head_incr_waiters bh = bh\<lparr>waiters := waiters bh + 1\<rparr>"

definition msgbuf_head_decr_waiters :: "msgbuf_head \<Rightarrow> msgbuf_head" where
  "msgbuf_head_decr_waiters bh = bh\<lparr>waiters := waiters bh - 1\<rparr>"

text \<open>\<open>msgbuf_head_preinstall_iovs\<close> runs the loop of \<open>msgbuf_serialize\<close> over the queue.\<close>

definition msgbuf_head_preinstall_iovs :: "msgbuf_head \<Rightarrow> int \<Rightarrow> byte list list cres" where
  "msgbuf_head_preinstall_iovs bh n = serialize_walk (map msgbuf_serialize (bh_msgs bh)) [] n"

fun install_queue :: "msgbuf list \<Rightarrow> int \<Rightarrow> (nat \<times> msgbuf list \<times> int) cres" where
  "install_queue [] len = Ok (0, [], len)"
| "install_queue (m # ms) len =
     cbind (msgbuf_install_iovs m len) (\<lambda>(fin, m', len').
       let k = (if fin then 1 else 0)
       in if len' < 0 then Bug
          else if len' = 0 then Ok (k, m' # ms, len')
          else cbind (install_queue ms len') (\<lambda>(n, ms', len''). Ok (k + n, m' # ms', len'')))"

definition msgbuf_head_install_iovs :: "msgbuf_head \<Rightarrow> int \<Rightarrow> (nat \<times> msgbuf_head) cres" where
  "msgbuf_head_install_iovs bh len =
     cbind (install_queue (bh_msgs bh) len) (\<lambda>(n, ms, _). Ok (n, bh\<lparr>bh_msgs := ms\<rparr>))"

section \<open>The queue discipline\<close>

text \<open>The counter \<open>size\<close> is the sum of the sizes queued, in the 32 bits it has.\<close>

definition head_ok :: "msgbuf_head \<Rightarrow> bool" where
  "head_ok bh \<longleftrightarrow> bh_size bh = (\<Sum>m\<leftarrow>bh_msgs bh. usize m)"

lemma head_ok_init [simp, invs]: "head_ok (msgbuf_head_init w)"
  by (simp add: head_ok_def msgbuf_head_init_def)

lemma msgbuf_head_empty_ok: "head_ok bh \<Longrightarrow> msgbuf_head_empty bh = Ok (bh_msgs bh = [])"
  by (simp add: msgbuf_head_empty_def head_ok_def)

lemma msgbuf_head_in_ok [invs]:
  assumes "head_ok bh"
  shows "\<exists>evs bh'. msgbuf_head_in bh m = Ok (evs, bh') \<and> head_ok bh' \<and>
    bh_msgs bh' = bh_msgs bh @ [m] \<and> wnd bh' = wnd bh \<and> ev_hndl bh' = ev_hndl bh \<and> waiters bh' = waiters bh"
  using assms by (auto simp: msgbuf_head_in_def msgbuf_head_empty_ok head_ok_def Let_def)

lemma msgbuf_head_out_ok [invs]:
  assumes "head_ok bh" "bh_msgs bh = m # ms"
  shows "\<exists>evs bh'. msgbuf_head_out bh = Ok (m, evs, bh') \<and> head_ok bh' \<and> bh_msgs bh' = ms \<and>
    wnd bh' = wnd bh \<and> ev_hndl bh' = ev_hndl bh \<and> waiters bh' = waiters bh"
proof -
  let ?bh = "bh\<lparr>bh_msgs := ms, bh_size := bh_size bh - usize m\<rparr>"
  have "head_ok ?bh" using assms by (simp add: head_ok_def)
  then show ?thesis
    using assms by (simp add: msgbuf_head_out_def msgbuf_head_empty_ok Let_def)
qed

lemma msgbuf_head_out_empty: "head_ok bh \<Longrightarrow> bh_msgs bh = [] \<Longrightarrow> msgbuf_head_out bh = Err ENONE"
  by (simp add: msgbuf_head_out_def msgbuf_head_empty_ok)

text \<open>The two operations as functions on states, for the contract of a queue.\<close>

definition head_enq :: "msgbuf \<Rightarrow> msgbuf_head \<Rightarrow> msgbuf_head" where
  "head_enq m bh = (case msgbuf_head_in bh m of Ok (_, bh') \<Rightarrow> bh' | _ \<Rightarrow> bh)"

definition head_deq :: "msgbuf_head \<Rightarrow> (msgbuf \<times> msgbuf_head) option" where
  "head_deq bh = (case msgbuf_head_out bh of Ok (m, _, bh') \<Rightarrow> Some (m, bh') | _ \<Rightarrow> None)"

interpretation mbq: fifo bh_msgs head_ok head_enq head_deq
proof
  fix q q' :: msgbuf_head and x :: msgbuf
  assume ok: "head_ok q"
  from msgbuf_head_in_ok [OF ok, of x]
  show "head_ok (head_enq x q)" "bh_msgs (head_enq x q) = bh_msgs q @ [x]"
    by (auto simp: head_enq_def)
  show "head_deq q = None \<Longrightarrow> bh_msgs q = []"
    using msgbuf_head_out_ok [OF ok] by (cases "bh_msgs q") (fastforce simp: head_deq_def)+
  show "head_deq q = Some (x, q') \<Longrightarrow> bh_msgs q = x # bh_msgs q' \<and> head_ok q'"
    using msgbuf_head_out_ok [OF ok] msgbuf_head_out_empty [OF ok]
    by (cases "bh_msgs q") (fastforce simp: head_deq_def)+
qed

section \<open>The send queue\<close>

text \<open>A queue being sent: only its first message may be partly out, and no message is finished.\<close>

fun sending :: "msgbuf list \<Rightarrow> bool" where
  "sending [] = True"
| "sending (m # ms) =
     (wf_msg m \<and> prefix_sent m \<and> remaining m \<noteq> [] \<and> list_all wf_msg ms \<and> list_all fresh ms)"

lemma remaining_fresh_nonempty: "fresh m \<Longrightarrow> remaining m \<noteq> []"
  by (auto simp: fresh_remaining wire_eq msgbuf_base_def dest: arg_cong [where f = length])

lemma sending_fresh: "list_all wf_msg ms \<Longrightarrow> list_all fresh ms \<Longrightarrow> sending ms"
  by (cases ms) (auto simp: fresh_prefix_sent remaining_fresh_nonempty)

lemma sending_append: "sending ms \<Longrightarrow> wf_msg m \<Longrightarrow> fresh m \<Longrightarrow> sending (ms @ [m])"
  by (cases ms) (auto simp: fresh_prefix_sent remaining_fresh_nonempty)

lemma sending_all: "sending ms \<Longrightarrow> m \<in> set ms \<Longrightarrow> wf_msg m \<and> prefix_sent m"
  by (cases ms) (auto simp: list_all_iff fresh_prefix_sent)

lemma preinstall_take:
  assumes "sending (bh_msgs bh)" "0 \<le> n"
  shows "\<exists>segs rest. msgbuf_head_preinstall_iovs bh n = Ok segs \<and> length segs \<le> nat n \<and>
    remainings (bh_msgs bh) = concat segs @ rest"
proof -
  let ?all = "concat (map iovs (bh_msgs bh))"
  have "concat ?all = remainings (bh_msgs bh)"
    unfolding remainings_def concat_concat_map map_map
    using sending_all [OF assms(1)] concat_iovs prefix_sent_soff_ok
    by (intro arg_cong [where f = concat] map_cong) auto
  moreover have "msgbuf_head_preinstall_iovs bh n = Ok (take (nat n) ?all)"
    unfolding msgbuf_head_preinstall_iovs_def
    using serialize_walk_take [of "bh_msgs bh" "[]" n] msgbuf_serialize_take assms(2) by simp
  moreover have "?all = take (nat n) ?all @ drop (nat n) ?all" by simp
  then have "concat ?all = concat (take (nat n) ?all) @ concat (drop (nat n) ?all)"
    by (metis concat_append)
  ultimately show ?thesis
    by (intro exI [of _ "take (nat n) ?all"] exI [of _ "concat (drop (nat n) ?all)"]) simp
qed

lemma install_queue_spec:
  "sending ms \<Longrightarrow> 0 < len \<Longrightarrow> len \<le> int (length (remainings ms)) \<Longrightarrow>
   \<exists>n ms'. install_queue ms len = Ok (n, ms', 0) \<and> n \<le> length ms' \<and> length ms' = length ms \<and>
     (\<forall>m\<in>set (take n ms'). remaining m = []) \<and> sending (drop n ms') \<and>
     remainings (drop n ms') = drop (nat len) (remainings ms) \<and> map reset ms' = map reset ms"
proof (induction ms arbitrary: len)
  case (Cons m ms)
  have m: "wf_msg m" "prefix_sent m" "list_all wf_msg ms" "list_all fresh ms"
    using Cons.prems(1) by auto
  obtain m' where m': "msgbuf_install_iovs m len =
      Ok (remaining m' = [], m', len - int (min (nat len) (length (remaining m))))"
    and adv: "advanced (nat len) m m'"
    using msgbuf_install_iovs_advanced [OF m(1,2) Cons.prems(2)] by blast
  have r: "remaining m' = drop (nat len) (remaining m)" "prefix_sent m'" "reset m' = reset m"
    "wf_msg m'"
    using adv advanced_wf [OF adv] m(1) by (auto simp: advanced_def)
  show ?case
  proof (cases "nat len \<le> length (remaining m)")
    case True
    then have z: "len - int (min (nat len) (length (remaining m))) = 0" using Cons.prems(2) by simp
    show ?thesis
    proof (cases "remaining m' = []")
      case fin: True
      with z m' have "install_queue (m # ms) len = Ok (1, m' # ms, 0)" by simp
      moreover have "drop (nat len) (remainings (m # ms)) = remainings ms"
        using r(1) fin True by simp
      ultimately show ?thesis
        using sending_fresh [OF m(3,4)] fin r by (intro exI [of _ 1] exI [of _ "m' # ms"]) simp
    next
      case False
      with z m' have "install_queue (m # ms) len = Ok (0, m' # ms, 0)" by simp
      then show ?thesis
        using m r False True by (intro exI [of _ 0] exI [of _ "m' # ms"]) simp
    qed
  next
    case False
    then have fin: "remaining m' = []" using r(1) by simp
    let ?len = "len - int (length (remaining m))"
    have l: "0 < ?len" "?len \<le> int (length (remainings ms))" using False Cons.prems by auto
    from Cons.IH [OF sending_fresh [OF m(3,4)] l] obtain n ms' where
      w: "install_queue ms ?len = Ok (n, ms', 0)" "n \<le> length ms'" "length ms' = length ms"
        "\<forall>m\<in>set (take n ms'). remaining m = []" "sending (drop n ms')"
        "remainings (drop n ms') = drop (nat ?len) (remainings ms)" "map reset ms' = map reset ms"
      by blast
    have "min (nat len) (length (remaining m)) = length (remaining m)" using False by simp
    then have "install_queue (m # ms) len = Ok (Suc n, m' # ms', 0)"
      using m' fin w(1) l(1) by (simp add: Let_def)
    moreover have "drop (nat len) (remainings (m # ms)) = drop (nat ?len) (remainings ms)"
      using False by (simp add: nat_diff_distrib')
    ultimately show ?thesis
      using w fin r by (intro exI [of _ "Suc n"] exI [of _ "m' # ms'"]) auto
  qed
qed simp

section \<open>Properties\<close>

text \<open>A run of \<open>msgbuf_head_in\<close> and \<open>msgbuf_head_out\<close> on one head. A dequeue on an empty head answers
  \<open>None\<close>, the -1 of the code; any other failure ends the run with it.\<close>

fun head_run :: "msgbuf fifo_op list \<Rightarrow> msgbuf_head \<Rightarrow> (msgbuf option list \<times> msgbuf_head) cres" where
  "head_run [] bh = Ok ([], bh)"
| "head_run (Enq m # ops) bh = cbind (msgbuf_head_in bh m) (\<lambda>(_, bh). head_run ops bh)"
| "head_run (Deq # ops) bh =
     (case msgbuf_head_out bh of
        Ok (m, _, bh) \<Rightarrow> cbind (head_run ops bh) (\<lambda>(a, bh). Ok (Some m # a, bh))
      | Err e \<Rightarrow> if e = ENONE then cbind (head_run ops bh) (\<lambda>(a, bh). Ok (None # a, bh)) else Err e
      | Bug \<Rightarrow> Bug | Undef \<Rightarrow> Undef)"

lemma head_run_fifo:
  "head_ok bh \<Longrightarrow> head_run ops bh = Ok (fifo_answers head_enq head_deq ops bh)"
proof (induction ops arbitrary: bh)
  case (Cons op ops)
  show ?case
  proof (cases op)
    case (Enq m)
    with msgbuf_head_in_ok [OF Cons.prems, of m] Cons.IH show ?thesis by (auto simp: head_enq_def)
  next
    case Deq
    show ?thesis
    proof (cases "bh_msgs bh")
      case Nil
      with msgbuf_head_out_empty [OF Cons.prems] Cons Deq show ?thesis
        by (simp add: head_deq_def split: prod.splits)
    next
      case c: (Cons m ms)
      from msgbuf_head_out_ok [OF Cons.prems c] Cons.IH Deq show ?thesis
        by (auto simp: head_deq_def split: prod.splits)
    qed
  qed
qed simp

text \<open>C17. The message queue is a queue: in any interleaving of \<open>msgbuf_head_in\<close> and
  \<open>msgbuf_head_out\<close> every operation succeeds, save a dequeue on an empty head, which fails with -1;
  each dequeue gives the oldest message and the messages left are those of the list that the same
  operations leave. No \<open>BUG_ON\<close> fires and the size counter stays the sum of the queued sizes. The
  window refuses nothing: a message also enters when the head is full, where the comment at
  \<^verbatim>\<open>msgbuf_head.h:72\<close> promises -1; the callers ask \<open>msgbuf_can_in\<close> first or not at all.\<close>

theorem msgbuf_head_fifo:
  assumes "head_ok bh"
  shows "\<exists>a bh'. head_run ops bh = Ok (a, bh') \<and> list_answers ops (bh_msgs bh) = (a, bh_msgs bh') \<and> head_ok bh'"
proof -
  obtain a bh' where r: "fifo_answers head_enq head_deq ops bh = (a, bh')" by fastforce
  with mbq.run_answers [OF assms r] head_run_fifo [OF assms] show ?thesis by simp
qed

theorem msgbuf_head_fifo_witness:
  "\<exists>bh'. head_run [Enq (msg0 [1]), Enq (msg0 []), Deq, Deq, Deq] (msgbuf_head_init 1) =
     Ok ([Some (msg0 [1]), Some (msg0 []), None], bh') \<and> bh_msgs bh' = []"
  using msgbuf_head_fifo [OF head_ok_init, of "[Enq (msg0 [1]), Enq (msg0 []), Deq, Deq, Deq]" 1]
  by (auto simp: msgbuf_head_init_def)

text \<open>C15. One round of writing the send queue: at most \<open>n\<close> segments are offered and they are a
  prefix of the bytes still to go; when the kernel takes a non-empty part of them, the answer is
  the number of messages at the front that are now out, and the messages behind them hold
  exactly the bytes the kernel has not taken.\<close>

theorem msgbuf_head_send_round:
  assumes "sending (bh_msgs bh)" "0 \<le> n"
  shows "\<exists>segs rest. msgbuf_head_preinstall_iovs bh n = Ok segs \<and> length segs \<le> nat n \<and>
    remainings (bh_msgs bh) = concat segs @ rest \<and>
    (\<forall>len. 0 < len \<longrightarrow> len \<le> length (concat segs) \<longrightarrow>
       (\<exists>k bh'. msgbuf_head_install_iovs bh (int len) = Ok (k, bh') \<and> k \<le> length (bh_msgs bh') \<and>
          (\<forall>m\<in>set (take k (bh_msgs bh')). remaining m = []) \<and> sending (drop k (bh_msgs bh')) \<and>
          remainings (drop k (bh_msgs bh')) = drop len (remainings (bh_msgs bh))))"
proof -
  from preinstall_take [OF assms] obtain segs rest where
    s: "msgbuf_head_preinstall_iovs bh n = Ok segs" "length segs \<le> nat n"
      "remainings (bh_msgs bh) = concat segs @ rest" by blast
  have "\<exists>k bh'. msgbuf_head_install_iovs bh (int len) = Ok (k, bh') \<and> k \<le> length (bh_msgs bh') \<and>
          (\<forall>m\<in>set (take k (bh_msgs bh')). remaining m = []) \<and> sending (drop k (bh_msgs bh')) \<and>
          remainings (drop k (bh_msgs bh')) = drop len (remainings (bh_msgs bh))"
    if "0 < len" "len \<le> length (concat segs)" for len
  proof -
    have "int len \<le> int (length (remainings (bh_msgs bh)))" using that(2) s(3) by simp
    from install_queue_spec [OF assms(1) _ this] that(1) show ?thesis
      by (auto simp: msgbuf_head_install_iovs_def)
  qed
  with s show ?thesis by blast
qed

theorem msgbuf_head_send_round_witness:
  "\<exists>segs. msgbuf_head_preinstall_iovs ((msgbuf_head_init 4)\<lparr>bh_msgs := [msg0 [1], msg0 []]\<rparr>) 100 = Ok segs"
  using msgbuf_head_send_round [of "(msgbuf_head_init 4)\<lparr>bh_msgs := [msg0 [1], msg0 []]\<rparr>" 100]
  by (auto simp: msg0_def msgbuf_base_def)

end
