(* ===== verification/Sock.thy ===== *)
theory Sock
  imports MsgbufHead
begin

text \<open>
  One socket: \<open>struct sockbase\<close> of \<^verbatim>\<open>src/src/socket/sockbase.h\<close> and the operations on it in
  \<^verbatim>\<open>sockbase.c\<close>, \<^verbatim>\<open>recv.c\<close>, \<^verbatim>\<open>send.c\<close>, \<^verbatim>\<open>listen.c\<close>, \<^verbatim>\<open>close.c\<close> and \<^verbatim>\<open>eventnotify.c\<close>. Sockets and
  poll entries are named by addresses. An operation holds the socket's mutex, so it is one
  step; where the code waits on a condition variable it is two, the first ending in \<open>Blocked\<close>
  with the waiter counted, the second starting when the waiter is woken. What an operation does
  to other objects is its output, in order: notifications of poll entries, wake-ups, signals to
  the event loop.
\<close>

section \<open>State\<close>

definition XLISTENER :: int where "XLISTENER = 1"
definition XCONNECTOR :: int where "XCONNECTOR = 2"

definition XAF_INPROC :: int where "XAF_INPROC = 1"
definition XAF_TCP :: int where "XAF_TCP = 2"
definition XAF_IPC :: int where "XAF_IPC = 3"
definition XAF_MIX :: int where "XAF_MIX = 4"

definition XPOLLIN :: u32 where "XPOLLIN = 1"
definition XPOLLOUT :: u32 where "XPOLLOUT = 2"
definition XPOLLERR :: u32 where "XPOLLERR = 4"

text \<open>The seven \<open>struct sockbase_vfptr\<close> tables, by name; \<open>vf_type\<close> and \<open>vf_pf\<close> are their first
  two fields. \<open>send\<close> and \<open>recv\<close> are null in the listeners.\<close>

datatype vfptr =
  InprocListener | InprocConnector | IpcListener | IpcConnector | TcpListener | TcpConnector
  | MixListener

fun vf_type :: "vfptr \<Rightarrow> int" where
  "vf_type InprocListener = XLISTENER"
| "vf_type InprocConnector = XCONNECTOR"
| "vf_type IpcListener = XLISTENER"
| "vf_type IpcConnector = XCONNECTOR"
| "vf_type TcpListener = XLISTENER"
| "vf_type TcpConnector = XCONNECTOR"
| "vf_type MixListener = XLISTENER"

fun vf_pf :: "vfptr \<Rightarrow> int" where
  "vf_pf InprocListener = XAF_INPROC"
| "vf_pf InprocConnector = XAF_INPROC"
| "vf_pf IpcListener = XAF_IPC"
| "vf_pf IpcConnector = XAF_IPC"
| "vf_pf TcpListener = XAF_TCP"
| "vf_pf TcpConnector = XAF_TCP"
| "vf_pf MixListener = XAF_MIX"

definition vf_send :: "vfptr \<Rightarrow> bool" where
  "vf_send v \<longleftrightarrow> v \<in> {InprocConnector, IpcConnector, TcpConnector}"

definition vf_recv :: "vfptr \<Rightarrow> bool" where
  "vf_recv v \<longleftrightarrow> v \<in> {InprocConnector, IpcConnector, TcpConnector}"

text \<open>The order in which \<open>__socket_init\<close> links the tables, and the lookup.\<close>

definition sockbase_vfptrs :: "vfptr list" where
  "sockbase_vfptrs = [InprocListener, InprocConnector, IpcListener, IpcConnector,
                      TcpListener, TcpConnector, MixListener]"

definition sockbase_vfptr_lookup :: "int \<Rightarrow> int \<Rightarrow> vfptr option" where
  "sockbase_vfptr_lookup pf ty = find (\<lambda>v. pf = vf_pf v \<and> vf_type v = ty) sockbase_vfptrs"

record sockbase =
  vfp :: vfptr
  sb_fd :: int
  sb_ref :: int
  sb_addr :: string
  sb_peer :: string
  non_block :: bool
  epipe :: bool
  verbose :: "4 word"
  owner :: "nat option"
  sub_socks :: "nat list"
  sib_link :: bool
  rcv :: msgbuf_head
  snd :: msgbuf_head
  aq_waiters :: i32
  acceptq :: "nat list"
  poll_entries :: "nat list"

text \<open>Outputs: \<open>Emit e h\<close> calls \<open>emit\<close> of poll entry \<open>e\<close> with the events \<open>h\<close> that hold (before
  the mask of the entry); \<open>ClosePoll e\<close> calls its \<open>close\<close>; \<open>WakeCond\<close> and \<open>WakeAccept\<close> are the
  broadcasts; \<open>QueueEv\<close> is a callback of one of the two message queues.\<close>

datatype sock_out =
  Emit nat u32 | ClosePoll nat | WakeCond | WakeAccept | RcvEv mb_event | SndEv mb_event

type_synonym 'a sock_res = "('a \<times> sock_out list \<times> sockbase) cres"

text \<open>\<open>Blocked\<close>: the caller sleeps in \<open>condition_wait\<close>.\<close>

datatype 'a wait = Blocked | Done 'a

definition default_wnd :: i32 where "default_wnd = 409600"

definition sockbase_init :: "vfptr \<Rightarrow> sockbase" where
  "sockbase_init v =
     \<lparr>vfp = v, sb_fd = 0, sb_ref = 0, sb_addr = [], sb_peer = [], non_block = False, epipe = False,
      verbose = 0, owner = None, sub_socks = [], sib_link = False,
      rcv = msgbuf_head_init default_wnd, snd = msgbuf_head_init default_wnd,
      aq_waiters = 0, acceptq = [], poll_entries = []\<rparr>"

text \<open>\<open>sockbase_exit\<close>: the messages it frees.\<close>

definition sockbase_exit :: "sockbase \<Rightarrow> (msgbuf list \<times> sockbase) cres" where
  "sockbase_exit sb =
     (if sub_socks sb \<noteq> [] then Bug
      else if sib_link sb then Bug
      else let (r, hd1) = msgbuf_dequeue_all (rcv sb) [];
               (s, hd2) = msgbuf_dequeue_all (snd sb) hd1
           in if poll_entries sb \<noteq> [] then Bug
              else Ok (hd2, sb\<lparr>sb_addr := [], sb_peer := [], epipe := False, non_block := False,
                            verbose := 0, owner := None, sb_fd := -1, rcv := r, snd := s,
                            aq_waiters := -1\<rparr>))"

section \<open>Poll events\<close>

definition check_pollevents :: "sockbase \<Rightarrow> u32 \<Rightarrow> u32 cres" where
  "check_pollevents sb events =
     cbind (if events AND XPOLLIN \<noteq> 0
            then if vf_type (vfp sb) = XCONNECTOR
                 then cbind (msgbuf_head_empty (rcv sb)) (\<lambda>e. Ok (if \<not> e then XPOLLIN else 0))
                 else if vf_type (vfp sb) = XLISTENER
                 then Ok (if acceptq sb \<noteq> [] then XPOLLIN else 0)
                 else Bug
            else Ok 0) (\<lambda>happened.
       let happened = happened OR
             (if events AND XPOLLOUT \<noteq> 0 then if msgbuf_can_in (snd sb) then XPOLLOUT else 0 else 0);
           happened = happened OR
             (if events AND XPOLLERR \<noteq> 0 then if epipe sb then XPOLLERR else 0 else 0)
       in Ok happened)"

definition emit_pollevents :: "sockbase \<Rightarrow> sock_out list cres" where
  "emit_pollevents sb =
     cbind (check_pollevents sb (XPOLLIN OR XPOLLOUT OR XPOLLERR)) (\<lambda>h.
       Ok (map (\<lambda>e. Emit e h) (poll_entries sb)))"

text \<open>An operation that ends with \<open>__emit_pollevents\<close>.\<close>

definition emitting :: "'a \<Rightarrow> sock_out list \<Rightarrow> sockbase \<Rightarrow> 'a sock_res" where
  "emitting x outs sb = cbind (emit_pollevents sb) (\<lambda>es. Ok (x, outs @ es, sb))"

section \<open>Receiving\<close>

definition rcv_msgbuf_head_add :: "sockbase \<Rightarrow> msgbuf \<Rightarrow> unit sock_res" where
  "rcv_msgbuf_head_add sb msg =
     cbind (msgbuf_head_in_msg (rcv sb) msg) (\<lambda>(evs, r).
       let sb = sb\<lparr>rcv := r\<rparr>
       in emitting () (map RcvEv evs @ (if sint (waiters r) > 0 then [WakeCond] else [])) sb)"

text \<open>The condition of the waiting loop; \<open>&&\<close> evaluates from the left.\<close>

definition rcv_must_wait :: "sockbase \<Rightarrow> bool cres" where
  "rcv_must_wait sb =
     (if epipe sb then Ok False
      else cbind (msgbuf_head_empty (rcv sb)) (\<lambda>e. Ok (e \<and> \<not> non_block sb)))"

definition rcv_msgbuf_head_rm :: "bool \<Rightarrow> sockbase \<Rightarrow> (msgbuf option wait) sock_res" where
  "rcv_msgbuf_head_rm resumed sb =
     (let sb = (if resumed then sb\<lparr>rcv := msgbuf_head_decr_waiters (rcv sb)\<rparr> else sb)
      in cbind (rcv_must_wait sb) (\<lambda>w.
           if w then Ok (Blocked, [], sb\<lparr>rcv := msgbuf_head_incr_waiters (rcv sb)\<rparr>)
           else case msgbuf_head_out_msg (rcv sb) of
                  Ok (m, evs, r) \<Rightarrow> emitting (Done (Some m)) (map RcvEv evs) (sb\<lparr>rcv := r\<rparr>)
                | Err _ \<Rightarrow> emitting (Done None) [] sb
                | Bug \<Rightarrow> Bug
                | Undef \<Rightarrow> Undef))"

text \<open>\<open>xgeneric_recv\<close> reads \<open>epipe\<close> after the lock is released; here nothing comes between.\<close>

definition xgeneric_recv :: "bool \<Rightarrow> sockbase \<Rightarrow> ((errno + msgbuf) wait) sock_res" where
  "xgeneric_recv resumed sb =
     cbind (rcv_msgbuf_head_rm resumed sb) (\<lambda>(r, outs, sb').
       Ok (case r of
             Blocked \<Rightarrow> Blocked
           | Done None \<Rightarrow> Done (Inl (if epipe sb' then EPIPE else EAGAIN))
           | Done (Some m) \<Rightarrow> Done (Inr m), outs, sb'))"

section \<open>Sending\<close>

definition snd_msgbuf_head_rm :: "sockbase \<Rightarrow> (msgbuf option) sock_res" where
  "snd_msgbuf_head_rm sb =
     (case msgbuf_head_out_msg (snd sb) of
        Ok (m, evs, s) \<Rightarrow>
          emitting (Some m) (map SndEv evs @ (if sint (waiters s) > 0 then [WakeCond] else []))
            (sb\<lparr>snd := s\<rparr>)
      | Err _ \<Rightarrow> emitting None [] sb
      | Bug \<Rightarrow> Bug
      | Undef \<Rightarrow> Undef)"

definition snd_must_wait :: "sockbase \<Rightarrow> bool" where
  "snd_must_wait sb \<longleftrightarrow> \<not> epipe sb \<and> \<not> msgbuf_can_in (snd sb) \<and> \<not> non_block sb"

text \<open>After the wait the message is queued in any case: the test is \<open>1 || msgbuf_can_in\<close>.\<close>

definition snd_msgbuf_head_add :: "bool \<Rightarrow> sockbase \<Rightarrow> msgbuf \<Rightarrow> (unit wait) sock_res" where
  "snd_msgbuf_head_add resumed sb msg =
     (let sb = (if resumed then sb\<lparr>snd := msgbuf_head_decr_waiters (snd sb)\<rparr> else sb)
      in if snd_must_wait sb
         then Ok (Blocked, [], sb\<lparr>snd := msgbuf_head_incr_waiters (snd sb)\<rparr>)
         else cbind (msgbuf_head_in_msg (snd sb) msg) (\<lambda>(evs, s).
                emitting (Done ()) (map SndEv evs) (sb\<lparr>snd := s\<rparr>)))"

section \<open>Accepting\<close>

text \<open>\<open>acceptq_add\<close> on the socket at the end of the chain of owners.\<close>

definition acceptq_add :: "sockbase \<Rightarrow> nat \<Rightarrow> unit sock_res" where
  "acceptq_add sb new =
     emitting () (if acceptq sb = [] \<and> sint (aq_waiters sb) > 0 then [WakeAccept] else [])
       (sb\<lparr>acceptq := acceptq sb @ [new]\<rparr>)"

definition acceptq_rm_nohup :: "sockbase \<Rightarrow> nat option \<times> sockbase" where
  "acceptq_rm_nohup sb =
     (case acceptq sb of [] \<Rightarrow> (None, sb) | new # q \<Rightarrow> (Some new, sb\<lparr>acceptq := q\<rparr>))"

definition acceptq_rm :: "bool \<Rightarrow> sockbase \<Rightarrow> (nat option wait) sock_res" where
  "acceptq_rm resumed sb =
     (let sb = (if resumed then sb\<lparr>aq_waiters := aq_waiters sb - 1\<rparr> else sb)
      in if acceptq sb = [] \<and> \<not> non_block sb
         then Ok (Blocked, [], sb\<lparr>aq_waiters := aq_waiters sb + 1\<rparr>)
         else let (new, sb) = acceptq_rm_nohup sb in emitting (Done new) [] sb)"

section \<open>Closing\<close>

text \<open>\<open>__xclose\<close> up to its final \<open>xput\<close>.\<close>

definition xclose_sock :: "sockbase \<Rightarrow> unit sock_res" where
  "xclose_sock sb =
     (let sb = sb\<lparr>epipe := True\<rparr>;
          w1 = (if waiters (rcv sb) \<noteq> 0 \<or> waiters (snd sb) \<noteq> 0 then [WakeCond] else []);
          w2 = (if aq_waiters sb \<noteq> 0 then [WakeAccept] else [])
      in Ok ((), w1 @ w2 @ map ClosePoll (poll_entries sb), sb\<lparr>poll_entries := []\<rparr>))"

text \<open>\<open>add_pollbase\<close> on the socket it found; a link already on a list is a \<open>BUG_ON\<close>.\<close>

definition add_pollbase :: "bool \<Rightarrow> sockbase \<Rightarrow> nat \<Rightarrow> sockbase cres" where
  "add_pollbase linked sb e = (if linked then Bug else Ok (sb\<lparr>poll_entries := poll_entries sb @ [e]\<rparr>))"

section \<open>Invariant\<close>

definition sock_ok :: "sockbase \<Rightarrow> bool" where
  "sock_ok sb \<longleftrightarrow> head_ok (rcv sb) \<and> head_ok (snd sb)"

lemma sock_ok_init [simp, invs]: "sock_ok (sockbase_init v)"
  by (simp add: sock_ok_def sockbase_init_def)

lemma vf_type_cases: "vf_type v = XCONNECTOR \<or> vf_type v = XLISTENER"
  by (cases v) simp_all

lemma vf_type_neq [simp]: "XLISTENER \<noteq> XCONNECTOR" "XCONNECTOR \<noteq> XLISTENER"
  by (simp_all add: XLISTENER_def XCONNECTOR_def)

definition readable :: "sockbase \<Rightarrow> bool" where
  "readable sb \<longleftrightarrow> (if vf_type (vfp sb) = XCONNECTOR then bh_msgs (rcv sb) \<noteq> [] else acceptq sb \<noteq> [])"

definition poll_mask :: "sockbase \<Rightarrow> u32" where
  "poll_mask sb = (if readable sb then XPOLLIN else 0) OR
     (if msgbuf_can_in (snd sb) then XPOLLOUT else 0) OR (if epipe sb then XPOLLERR else 0)"

lemma and_power: "a AND 2 ^ n = (if bit a n then 2 ^ n else 0)" for a :: u32
  by (rule bit_word_eqI) (auto simp: bit_simps)

lemma and_flags:
  "a AND 1 = (if bit a 0 then 1 else 0)" "a AND 2 = (if bit a 1 then 2 else 0)"
  "a AND 4 = (if bit a 2 then 4 else 0)" for a :: u32
  using and_power [of a 0] and_power [of a 1] and_power [of a 2] by simp_all

lemma and_or_distrib: "a AND (b OR c) = (a AND b) OR (a AND c)" for a :: u32
  by (rule bit_word_eqI) (auto simp: bit_simps)

lemma check_pollevents_mask:
  assumes "sock_ok sb"
  shows "check_pollevents sb events = Ok (events AND poll_mask sb)"
  using assms vf_type_cases [of "vfp sb"]
  by (auto simp: check_pollevents_def sock_ok_def msgbuf_head_empty_ok poll_mask_def readable_def
                 XPOLLIN_def XPOLLOUT_def XPOLLERR_def Let_def and_or_distrib and_flags)

lemma all_flags_and: "(XPOLLIN OR XPOLLOUT OR XPOLLERR) AND poll_mask sb = poll_mask sb"
  by (simp add: poll_mask_def XPOLLIN_def XPOLLOUT_def XPOLLERR_def)

lemma emitting_ok:
  "sock_ok sb \<Longrightarrow> emitting x outs sb = Ok (x, outs @ map (\<lambda>e. Emit e (poll_mask sb)) (poll_entries sb), sb)"
  by (simp add: emitting_def emit_pollevents_def check_pollevents_mask all_flags_and)

lemma sock_ok_upd [simp]:
  "sock_ok (sb\<lparr>rcv := r\<rparr>) \<longleftrightarrow> head_ok r \<and> head_ok (snd sb)"
  "sock_ok (sb\<lparr>snd := s\<rparr>) \<longleftrightarrow> head_ok (rcv sb) \<and> head_ok s"
  "sock_ok (sb\<lparr>acceptq := q\<rparr>) \<longleftrightarrow> sock_ok sb"
  "sock_ok (sb\<lparr>aq_waiters := w\<rparr>) \<longleftrightarrow> sock_ok sb"
  "sock_ok (sb\<lparr>poll_entries := p\<rparr>) \<longleftrightarrow> sock_ok sb"
  "sock_ok (sb\<lparr>epipe := b\<rparr>) \<longleftrightarrow> sock_ok sb"
  by (auto simp: sock_ok_def)

lemma head_ok_waiters [simp]:
  "head_ok (msgbuf_head_incr_waiters h) = head_ok h" "head_ok (msgbuf_head_decr_waiters h) = head_ok h"
  "bh_msgs (msgbuf_head_incr_waiters h) = bh_msgs h" "bh_msgs (msgbuf_head_decr_waiters h) = bh_msgs h"
  "msgbuf_can_in (msgbuf_head_incr_waiters h) = msgbuf_can_in h"
  "msgbuf_can_in (msgbuf_head_decr_waiters h) = msgbuf_can_in h"
  by (simp_all add: head_ok_def msgbuf_head_incr_waiters_def msgbuf_head_decr_waiters_def msgbuf_can_in_def)

lemma rcv_must_wait_ok:
  "sock_ok sb \<Longrightarrow> rcv_must_wait sb = Ok (\<not> epipe sb \<and> bh_msgs (rcv sb) = [] \<and> \<not> non_block sb)"
  by (simp add: rcv_must_wait_def sock_ok_def msgbuf_head_empty_ok)

section \<open>Functional behaviour\<close>

text \<open>The notification every operation ends with: all poll entries, the state just reached.\<close>

definition notify :: "sockbase \<Rightarrow> sock_out list" where
  "notify sb = map (\<lambda>e. Emit e (poll_mask sb)) (poll_entries sb)"

lemma rcv_add_spec:
  assumes "sock_ok sb"
  shows "\<exists>outs sb'. rcv_msgbuf_head_add sb m = Ok ((), outs @ notify sb', sb') \<and> sock_ok sb' \<and>
    bh_msgs (rcv sb') = bh_msgs (rcv sb) @ [m] \<and> snd sb' = snd sb \<and> acceptq sb' = acceptq sb \<and>
    epipe sb' = epipe sb \<and> poll_entries sb' = poll_entries sb \<and>
    (sint (waiters (rcv sb)) > 0 \<longrightarrow> WakeCond \<in> set outs)"
proof -
  have ok: "head_ok (rcv sb)" "head_ok (snd sb)" using assms by (auto simp: sock_ok_def)
  from msgbuf_head_in_ok [OF ok(1), of m] obtain evs r where
    r: "msgbuf_head_in (rcv sb) m = Ok (evs, r)" "head_ok r" "bh_msgs r = bh_msgs (rcv sb) @ [m]"
      "waiters r = waiters (rcv sb)" by blast
  then show ?thesis
    using ok by (auto simp: rcv_msgbuf_head_add_def msgbuf_head_in_msg_def emitting_ok notify_def Let_def)
qed

lemma rcv_rm_spec:
  assumes "sock_ok sb"
  shows "case bh_msgs (rcv sb) of
      m # ms \<Rightarrow> \<exists>outs sb'. rcv_msgbuf_head_rm False sb = Ok (Done (Some m), outs @ notify sb', sb') \<and>
        sock_ok sb' \<and> bh_msgs (rcv sb') = ms \<and> snd sb' = snd sb \<and> epipe sb' = epipe sb
    | [] \<Rightarrow> if epipe sb \<or> non_block sb
            then rcv_msgbuf_head_rm False sb = Ok (Done None, notify sb, sb)
            else \<exists>sb'. rcv_msgbuf_head_rm False sb = Ok (Blocked, [], sb') \<and> sock_ok sb' \<and>
              bh_msgs (rcv sb') = [] \<and> waiters (rcv sb') = waiters (rcv sb) + 1"
proof (cases "bh_msgs (rcv sb)")
  case Nil
  have ok: "head_ok (rcv sb)" "head_ok (snd sb)" using assms by (auto simp: sock_ok_def)
  show ?thesis
    using Nil assms ok
    by (auto simp: rcv_msgbuf_head_rm_def rcv_must_wait_ok msgbuf_head_out_msg_def
        msgbuf_head_out_empty emitting_ok notify_def msgbuf_head_incr_waiters_def head_ok_def)
next
  case (Cons m ms)
  have ok: "head_ok (rcv sb)" "head_ok (snd sb)" using assms by (auto simp: sock_ok_def)
  from msgbuf_head_out_ok [OF ok(1) Cons] obtain evs r where
    "msgbuf_head_out (rcv sb) = Ok (m, evs, r)" "head_ok r" "bh_msgs r = ms" by blast
  then show ?thesis
    using Cons assms ok
    by (auto simp: rcv_msgbuf_head_rm_def rcv_must_wait_ok msgbuf_head_out_msg_def emitting_ok notify_def)
qed

lemma snd_add_spec:
  assumes "sock_ok sb"
  shows "if snd_must_wait sb
    then \<exists>sb'. snd_msgbuf_head_add False sb m = Ok (Blocked, [], sb') \<and> sock_ok sb' \<and>
      bh_msgs (snd sb') = bh_msgs (snd sb)
    else \<exists>outs sb'. snd_msgbuf_head_add False sb m = Ok (Done (), outs @ notify sb', sb') \<and> sock_ok sb' \<and>
      bh_msgs (snd sb') = bh_msgs (snd sb) @ [m] \<and> rcv sb' = rcv sb"
proof -
  have ok: "head_ok (rcv sb)" "head_ok (snd sb)" using assms by (auto simp: sock_ok_def)
  from msgbuf_head_in_ok [OF ok(2), of m] obtain evs s where
    "msgbuf_head_in (snd sb) m = Ok (evs, s)" "head_ok s" "bh_msgs s = bh_msgs (snd sb) @ [m]"
    by blast
  then show ?thesis
    using ok by (auto simp: snd_msgbuf_head_add_def msgbuf_head_in_msg_def emitting_ok notify_def)
qed

section \<open>Properties\<close>

text \<open>C29. Receiving from a socket: a queued message is returned, the oldest first, also after
  the peer has gone; on an empty queue the call fails with \<open>EPIPE\<close> when the connection is broken
  and with \<open>EAGAIN\<close> on a non-blocking socket, and otherwise it sleeps, counted as a waiter. No
  \<open>BUG_ON\<close> fires, and whenever it returns every poll entry is told the new state.\<close>

theorem xgeneric_recv_behaviour:
  assumes "sock_ok sb"
  shows "\<exists>r outs sb'. xgeneric_recv False sb = Ok (r, outs, sb') \<and> sock_ok sb' \<and>
    (case bh_msgs (rcv sb) of
       m # ms \<Rightarrow> r = Done (Inr m) \<and> bh_msgs (rcv sb') = ms
     | [] \<Rightarrow> r = (if epipe sb then Done (Inl EPIPE) else if non_block sb then Done (Inl EAGAIN) else Blocked) \<and>
            bh_msgs (rcv sb') = []) \<and>
    (if r = Blocked then waiters (rcv sb') = waiters (rcv sb) + 1 else \<exists>evs. outs = evs @ notify sb')"
proof (cases "bh_msgs (rcv sb)")
  case Nil
  show ?thesis
  proof (cases "epipe sb \<or> non_block sb")
    case True
    with rcv_rm_spec [OF assms] Nil assms show ?thesis by (auto simp: xgeneric_recv_def)
  next
    case False
    with rcv_rm_spec [OF assms] Nil show ?thesis by (auto simp: xgeneric_recv_def)
  qed
next
  case (Cons m ms)
  with rcv_rm_spec [OF assms] obtain outs sb' where
    "rcv_msgbuf_head_rm False sb = Ok (Done (Some m), outs @ notify sb', sb')"
    "sock_ok sb'" "bh_msgs (rcv sb') = ms" by auto
  with Cons show ?thesis by (auto simp: xgeneric_recv_def)
qed

theorem xgeneric_recv_behaviour_witness:
  "\<exists>sb'. xgeneric_recv False (sockbase_init TcpConnector) = Ok (Blocked, [], sb') \<and> waiters (rcv sb') = 1"
  using xgeneric_recv_behaviour [of "sockbase_init TcpConnector"]
  by (auto simp: xgeneric_recv_def rcv_msgbuf_head_rm_def rcv_must_wait_def sockbase_init_def
      msgbuf_head_init_def msgbuf_head_empty_def msgbuf_head_incr_waiters_def)

text \<open>Sending to a socket: while the send window is full, the connection is whole and the socket
  blocking, the caller sleeps; in every other case, a non-blocking socket with a full window and
  a broken connection included, the message is queued behind the others and the call succeeds.\<close>

theorem snd_msgbuf_head_add_behaviour:
  assumes "sock_ok sb"
  shows "\<exists>r outs sb'. snd_msgbuf_head_add False sb m = Ok (r, outs, sb') \<and> sock_ok sb' \<and>
    (if \<not> epipe sb \<and> \<not> non_block sb \<and> bh_msgs (snd sb) \<noteq> [] \<and>
        sint (wnd (snd sb)) \<le> sint (bh_size (snd sb))
     then r = Blocked \<and> bh_msgs (snd sb') = bh_msgs (snd sb)
     else r = Done () \<and> bh_msgs (snd sb') = bh_msgs (snd sb) @ [m])"
  using snd_add_spec [OF assms, of m]
  by (auto simp: snd_must_wait_def msgbuf_can_in_def not_less split: if_splits)

theorem snd_msgbuf_head_add_behaviour_witness:
  "\<exists>outs sb'. snd_msgbuf_head_add False ((sockbase_init TcpConnector)\<lparr>epipe := True\<rparr>) (msg0 []) =
     Ok (Done (), outs, sb') \<and> bh_msgs (snd sb') = [msg0 []]"
proof -
  have "sock_ok ((sockbase_init TcpConnector)\<lparr>epipe := True\<rparr>)" by simp
  from snd_msgbuf_head_add_behaviour [OF this, of "msg0 []"] show ?thesis
    by (auto simp: sockbase_init_def msgbuf_head_init_def)
qed

end
