(* ===== verification/Rex.thy ===== *)
theory Rex
  imports Prelude "HOL-Library.Signed_Division"
begin

text \<open>
  The portable socket layer, \<^verbatim>\<open>src/src/rex/rex_posix.c\<close>. The kernel is not part of the program: a
  run is given the list of the answers the system calls will get, in order, and records the
  calls it makes. A theorem for all answer lists holds for every kernel. \<open>errno\<close> of a failed
  call is part of its answer; calls whose result the code ignores take an answer too.
\<close>

section \<open>System calls\<close>

datatype ksys =
  KGetaddrinfo string string bool | KFreeaddrinfo "nat list" | KSocket nat | KReuseaddr int
  | KBind int nat | KListen int | KAccept int | KConnect int nat | KClose int | KUnlink string
  | KGetnameinfo | KSendmsg int "byte list list" | KRecvmsg int "nat list"
  | KGetsockopt int int | KSetsockopt int int "i32 list" | KGetfl int | KSetfl int bool

text \<open>\<open>KFail e\<close>: \<open>-1\<close> with \<open>errno = e\<close>; \<open>KOk n\<close>: the result; \<open>KData\<close>: the bytes received;
  \<open>KName\<close>: host and service; \<open>KVals\<close>: the option values read.\<close>

datatype kans = KFail errno | KOk nat | KData "byte list" | KName string string | KVals "i32 list"

record kern =
  answers :: "kans list"
  calls :: "ksys list"

definition sys :: "ksys \<Rightarrow> kern \<Rightarrow> kans \<times> kern" where
  "sys c k =
     (case answers k of
        [] \<Rightarrow> (KFail EOTHER, k\<lparr>calls := calls k @ [c]\<rparr>)
      | a # as \<Rightarrow> (a, k\<lparr>answers := as, calls := calls k @ [c]\<rparr>))"

definition call :: "ksys \<Rightarrow> kern \<Rightarrow> kern" where
  "call c k = k\<lparr>calls := calls k @ [c]\<rparr>"

section \<open>Sockets\<close>

definition REX_MAX_HOSTLEN :: nat where "REX_MAX_HOSTLEN = 1024"
definition REX_MAX_BACKLOG :: nat where "REX_MAX_BACKLOG = 100"
definition REX_AI_PASSIVE :: u64 where "REX_AI_PASSIVE = 0x01"

definition REX_AF_LOCAL :: int where "REX_AF_LOCAL = 1"
definition REX_AF_TCP :: int where "REX_AF_TCP = 2"
definition REX_AF_TCP6 :: int where "REX_AF_TCP6 = 3"

datatype rex_vfptr = RexTcp4 | RexTcp6 | RexLocal

fun un_family :: "rex_vfptr \<Rightarrow> int" where
  "un_family RexTcp4 = REX_AF_TCP"
| "un_family RexTcp6 = REX_AF_TCP6"
| "un_family RexLocal = REX_AF_LOCAL"

record rex_sock =
  ss_fd :: int
  ss_family :: int
  ss_addr :: string
  ss_peer :: string
  ss_flags :: u64
  ss_vfptr :: "rex_vfptr option"

text \<open>The list \<open>__rex_init\<close> builds with \<open>list_add\<close>: the last one added is first.\<close>

definition rex_vfptrs :: "rex_vfptr list" where
  "rex_vfptrs = [RexLocal, RexTcp6, RexTcp4]"

definition get_rex_vfptr :: "int \<Rightarrow> rex_vfptr option" where
  "get_rex_vfptr family = find (\<lambda>v. un_family v = family) rex_vfptrs"

definition rex_gen_init :: "rex_sock \<Rightarrow> rex_sock" where
  "rex_gen_init rs = rs\<lparr>ss_fd := -1\<rparr>"

definition rex_sock_init :: "rex_sock \<Rightarrow> int \<Rightarrow> rex_sock cres" where
  "rex_sock_init rs family =
     (let rs = rs\<lparr>ss_family := family, ss_flags := 0, ss_addr := [], ss_peer := []\<rparr>
      in case get_rex_vfptr family of
           None \<Rightarrow> Err EPROTO
         | Some v \<Rightarrow> Ok (rex_gen_init (rs\<lparr>ss_vfptr := Some v\<rparr>)))"

definition close_fd :: "rex_sock \<Rightarrow> kern \<Rightarrow> rex_sock \<times> kern" where
  "close_fd rs k =
     (if ss_fd rs > 0 then (rs\<lparr>ss_fd := -1\<rparr>, call (KClose (ss_fd rs)) k) else (rs, k))"

definition rex_tcp_destroy :: "rex_sock \<Rightarrow> kern \<Rightarrow> rex_sock \<times> kern" where
  "rex_tcp_destroy rs k =
     (let (rs, k) = close_fd rs k in (rs\<lparr>ss_family := 0, ss_vfptr := None, ss_flags := 0\<rparr>, k))"

definition rex_unix_destroy :: "rex_sock \<Rightarrow> kern \<Rightarrow> rex_sock \<times> kern" where
  "rex_unix_destroy rs k =
     (let (rs, k) = close_fd rs k;
          k = (if ss_flags rs AND REX_AI_PASSIVE \<noteq> 0 then call (KUnlink (ss_addr rs)) k else k)
      in (rs\<lparr>ss_family := 0, ss_vfptr := None, ss_flags := 0\<rparr>, k))"

definition rex_sock_destroy :: "rex_sock \<Rightarrow> kern \<Rightarrow> (rex_sock \<times> kern) cres" where
  "rex_sock_destroy rs k =
     (case ss_vfptr rs of
        None \<Rightarrow> Undef
      | Some v \<Rightarrow>
          let (rs, k) = (if v = RexLocal then rex_unix_destroy rs k else rex_tcp_destroy rs k)
          in Ok (rs\<lparr>ss_family := 0, ss_flags := 0, ss_addr := [], ss_peer := [], ss_vfptr := None\<rparr>, k))"

section \<open>Addresses\<close>

text \<open>\<open>strncpy\<close> into a zeroed buffer of 1024 bytes, then a cut at the last colon.\<close>

definition strncpy_buf :: "string \<Rightarrow> string" where
  "strncpy_buf s = take (REX_MAX_HOSTLEN - 1) s"

definition strrchr_at :: "string \<Rightarrow> char \<Rightarrow> nat option" where
  "strrchr_at s c = map_option (\<lambda>i. length s - 1 - i) (strchr_at (rev s) c)"

definition split_host :: "string \<Rightarrow> (string \<times> string) option" where
  "split_host sock =
     (let sa = strncpy_buf sock
      in case strrchr_at sa CHR '':'' of
           None \<Rightarrow> None
         | Some i \<Rightarrow> if length (drop (i + 1) sa) = 0 then None else Some (take i sa, drop (i + 1) sa))"

definition snprintf_host :: "string \<Rightarrow> string \<Rightarrow> string" where
  "snprintf_host host serv = take (REX_MAX_HOSTLEN - 2) (host @ '':'' @ serv)"

text \<open>\<open>strncat (dst, src, n)\<close> in a buffer of 1024 bytes, the NUL included.\<close>

definition strncat_buf :: "string \<Rightarrow> string \<Rightarrow> nat \<Rightarrow> string cres" where
  "strncat_buf dst src n =
     (let d = dst @ take n src in if length d + 1 > REX_MAX_HOSTLEN then Undef else Ok d)"

text \<open>The peer name: host, colon, service. \<open>bound\<close> is the string whose length limits the colon.\<close>

definition join_name :: "string \<Rightarrow> string \<Rightarrow> string \<Rightarrow> string cres" where
  "join_name host serv bound =
     (let host = take (REX_MAX_HOSTLEN - 2) host; sa = take (REX_MAX_HOSTLEN - 2) serv
      in cbind (strncat_buf host '':'' (min 1 (REX_MAX_HOSTLEN - length bound - 1))) (\<lambda>d.
           strncat_buf d sa (min (length sa) (REX_MAX_HOSTLEN - length sa - 1))))"

section \<open>TCP\<close>

text \<open>The loop of \<open>rex_tcp_listen\<close> over the addresses: the last value of \<open>fd\<close>.\<close>

fun listen_loop :: "nat list \<Rightarrow> int \<Rightarrow> kern \<Rightarrow> int \<times> kern" where
  "listen_loop [] fd k = (fd, k)"
| "listen_loop (a # as) fd k =
     (case sys (KSocket a) k of
        (KOk n, k) \<Rightarrow>
          let fd = int n;
              (_, k) = sys (KReuseaddr fd) k;
              (b, k) = sys (KBind fd a) k
          in if b = KOk 0 then (fd, k)
             else let k = call (KClose fd) k in listen_loop as fd k
      | (_, k) \<Rightarrow> listen_loop as (-1) k)"

definition rex_tcp_listen :: "rex_sock \<Rightarrow> string \<Rightarrow> kern \<Rightarrow> (errno + rex_sock) \<times> kern" where
  "rex_tcp_listen rs sock k =
     (case split_host sock of
        None \<Rightarrow> (Inl EINVAL, k)
      | Some (host, serv) \<Rightarrow>
          (case sys (KGetaddrinfo host serv True) k of
             (KOk n, k) \<Rightarrow>
               let (fd, k) = listen_loop [0..<n] (-1) k;
                   k = call (KFreeaddrinfo [0..<n]) k
               in if fd < 0 then (Inl EBADF, call (KClose fd) k)
                  else (case sys (KListen fd) k of
                          (KFail e, k) \<Rightarrow> (Inl e, call (KClose fd) k)
                        | (_, k) \<Rightarrow>
                            (Inr (rs\<lparr>ss_fd := fd, ss_flags := ss_flags rs OR REX_AI_PASSIVE,
                                     ss_addr := snprintf_host host serv\<rparr>), k))
           | (_, k) \<Rightarrow> (Inl ENONE, k)))"

definition accept_again :: "errno set" where
  "accept_again = {EAGAIN, EWOULDBLOCK, EINTR, ECONNABORTED}"

text \<open>\<open>rex_tcp_accept\<close>: only the listed errors make it fail; after any other one it goes on
  with the descriptor \<open>-1\<close> and returns 0.\<close>

definition rex_tcp_accept :: "rex_sock \<Rightarrow> rex_sock \<Rightarrow> kern \<Rightarrow> ((errno + rex_sock) \<times> kern) cres" where
  "rex_tcp_accept rs new k =
     (let (a, k) = sys (KAccept (ss_fd rs)) k;
          fd = (case a of KOk n \<Rightarrow> int n | _ \<Rightarrow> -1)
      in if (case a of KFail e \<Rightarrow> e \<in> accept_again | _ \<Rightarrow> False) then Ok (Inl EAGAIN, k)
         else let new = new\<lparr>ss_family := ss_family rs, ss_fd := fd, ss_vfptr := ss_vfptr rs,
                            ss_addr := strncpy_buf (ss_addr rs)\<rparr>
              in case sys KGetnameinfo k of
                   (KName host serv, k) \<Rightarrow>
                     cbind (join_name host serv (ss_peer rs)) (\<lambda>p. Ok (Inr (new\<lparr>ss_peer := p\<rparr>), k))
                 | (_, k) \<Rightarrow> Ok (Inr new, k))"

text \<open>The loop of \<open>rex_tcp_connect\<close>: the descriptor and the addresses from the one that
  connected on.\<close>

fun connect_loop :: "nat list \<Rightarrow> kern \<Rightarrow> int \<times> nat list \<times> kern" where
  "connect_loop [] k = (-1, [], k)"
| "connect_loop (a # as) k =
     (case sys (KSocket a) k of
        (KOk n, k) \<Rightarrow>
          let fd = int n; (c, k) = sys (KConnect fd a) k
          in if c = KOk 0 then (fd, a # as, k)
             else let k = call (KClose fd) k in connect_loop as k
      | (_, k) \<Rightarrow> connect_loop as k)"

definition rex_tcp_connect :: "rex_sock \<Rightarrow> string \<Rightarrow> kern \<Rightarrow> ((errno + rex_sock) \<times> kern) cres" where
  "rex_tcp_connect rs peer k =
     (case split_host peer of
        None \<Rightarrow> Ok (Inl EINVAL, k)
      | Some (host, serv) \<Rightarrow>
          (case sys (KGetaddrinfo host serv False) k of
             (KOk n, k) \<Rightarrow>
               let (fd, res, k) = connect_loop [0..<n] k
               in if fd < 0 then Ok (Inl ENONE, call (KFreeaddrinfo res) k)
                  else let rs = rs\<lparr>ss_fd := fd, ss_peer := snprintf_host host serv\<rparr>
                       in (case sys KGetnameinfo k of
                             (KName h s, k) \<Rightarrow>
                               cbind (join_name h s h) (\<lambda>a.
                                 Ok (Inr (rs\<lparr>ss_addr := a\<rparr>), call (KFreeaddrinfo res) k))
                           | (_, k) \<Rightarrow> Ok (Inr rs, call (KFreeaddrinfo res) k))
           | (_, k) \<Rightarrow> Ok (Inl ENONE, k)))"

section \<open>Local sockets\<close>

text \<open>\<open>sun_path\<close> has 108 bytes.\<close>

definition sun_path :: "string \<Rightarrow> string" where
  "sun_path sock = take 107 sock"

definition rex_unix_listen :: "rex_sock \<Rightarrow> string \<Rightarrow> kern \<Rightarrow> (errno + rex_sock) \<times> kern" where
  "rex_unix_listen rs sock k =
     (case sys (KSocket 0) k of
        (KOk n, k) \<Rightarrow>
          let fd = int n; k = call (KUnlink (sun_path sock)) k;
              ok = Inr (rs\<lparr>ss_fd := fd, ss_flags := ss_flags rs OR REX_AI_PASSIVE,
                           ss_addr := strncpy_buf sock\<rparr>)
          in (case sys (KBind fd 0) k of
                (KFail e, k) \<Rightarrow> (Inl e, call (KClose fd) k)
              | (_, k) \<Rightarrow>
                  (case sys (KListen fd) k of
                     (KFail e, k) \<Rightarrow> (Inl e, call (KClose fd) k)
                   | (_, k) \<Rightarrow> (ok, k)))
      | (KFail e, k) \<Rightarrow> (Inl e, k)
      | (_, k) \<Rightarrow> (Inl EOTHER, k))"

definition rex_unix_accept :: "rex_sock \<Rightarrow> rex_sock \<Rightarrow> kern \<Rightarrow> (errno + rex_sock) \<times> kern" where
  "rex_unix_accept rs new k =
     (let (a, k) = sys (KAccept (ss_fd rs)) k;
          fd = (case a of KOk n \<Rightarrow> int n | _ \<Rightarrow> -1)
      in if (case a of KFail e \<Rightarrow> e \<in> accept_again \<union> {EMFILE} | _ \<Rightarrow> False) then (Inl EAGAIN, k)
         else (Inr (new\<lparr>ss_family := ss_family rs, ss_fd := fd, ss_vfptr := ss_vfptr rs,
                        ss_addr := strncpy_buf (ss_addr rs), ss_peer := strncpy_buf (ss_addr rs)\<rparr>), k))"

definition rex_unix_connect :: "rex_sock \<Rightarrow> string \<Rightarrow> kern \<Rightarrow> (errno + rex_sock) \<times> kern" where
  "rex_unix_connect rs peer k =
     (case sys (KSocket 0) k of
        (KOk n, k) \<Rightarrow>
          let fd = int n
          in (case sys (KConnect fd 0) k of
                (KFail e, k) \<Rightarrow> (Inl e, call (KClose fd) k)
              | (_, k) \<Rightarrow>
                  (Inr (rs\<lparr>ss_fd := fd, ss_addr := strncpy_buf peer, ss_peer := strncpy_buf peer\<rparr>), k))
      | (KFail e, k) \<Rightarrow> (Inl e, k)
      | (_, k) \<Rightarrow> (Inl EOTHER, k))"

section \<open>Data\<close>

definition again_errnos :: "errno set" where "again_errnos = {EAGAIN, EWOULDBLOCK, EINTR}"

text \<open>\<open>rex_gen_send\<close>: the kernel takes no more than it was offered.\<close>

definition rex_gen_send :: "rex_sock \<Rightarrow> byte list list \<Rightarrow> kern \<Rightarrow> (errno + nat) \<times> kern" where
  "rex_gen_send rs iov k =
     (case sys (KSendmsg (ss_fd rs) (take 100 iov)) k of
        (KOk n, k) \<Rightarrow> (Inr (min n (length (concat (take 100 iov)))), k)
      | (KFail e, k) \<Rightarrow> (Inl (if e \<in> again_errnos then EAGAIN else EPIPE), k)
      | (_, k) \<Rightarrow> (Inl EPIPE, k))"

text \<open>\<open>rex_gen_recv\<close> into buffers of the given sizes; the kernel hands over no more than fits.\<close>

definition rex_gen_recv :: "rex_sock \<Rightarrow> nat list \<Rightarrow> kern \<Rightarrow> (errno + byte list) \<times> kern" where
  "rex_gen_recv rs iov k =
     (case sys (KRecvmsg (ss_fd rs) (take 100 iov)) k of
        (KData bs, k) \<Rightarrow>
          let bs = take (sum_list (take 100 iov)) bs in (if bs = [] then Inl EPIPE else Inr bs, k)
      | (KFail e, k) \<Rightarrow> (Inl (if e \<in> again_errnos then EAGAIN else e), k)
      | (_, k) \<Rightarrow> (Inl EPIPE, k))"

section \<open>Dispatch\<close>

definition rex_sock_listen :: "rex_sock \<Rightarrow> string \<Rightarrow> kern \<Rightarrow> ((errno + rex_sock) \<times> kern) cres" where
  "rex_sock_listen rs sock k =
     (case ss_vfptr rs of
        None \<Rightarrow> Undef
      | Some v \<Rightarrow> Ok (if v = RexLocal then rex_unix_listen rs sock k else rex_tcp_listen rs sock k))"

definition rex_sock_accept :: "rex_sock \<Rightarrow> rex_sock \<Rightarrow> kern \<Rightarrow> ((errno + rex_sock) \<times> kern) cres" where
  "rex_sock_accept rs new k =
     (if ss_family new \<noteq> ss_family rs \<or> ss_vfptr new \<noteq> ss_vfptr rs then Ok (Inl EINVAL, k)
      else case ss_vfptr rs of
             None \<Rightarrow> Undef
           | Some v \<Rightarrow> if v = RexLocal then Ok (rex_unix_accept rs new k) else rex_tcp_accept rs new k)"

definition rex_sock_connect :: "rex_sock \<Rightarrow> string \<Rightarrow> kern \<Rightarrow> ((errno + rex_sock) \<times> kern) cres" where
  "rex_sock_connect rs peer k =
     (case ss_vfptr rs of
        None \<Rightarrow> Undef
      | Some v \<Rightarrow> if v = RexLocal then Ok (rex_unix_connect rs peer k) else rex_tcp_connect rs peer k)"

definition rex_sock_sendv :: "rex_sock \<Rightarrow> byte list list \<Rightarrow> kern \<Rightarrow> ((errno + nat) \<times> kern) cres" where
  "rex_sock_sendv rs iov k = (case ss_vfptr rs of None \<Rightarrow> Undef | Some _ \<Rightarrow> Ok (rex_gen_send rs iov k))"

definition rex_sock_recvv :: "rex_sock \<Rightarrow> nat list \<Rightarrow> kern \<Rightarrow> ((errno + byte list) \<times> kern) cres" where
  "rex_sock_recvv rs iov k = (case ss_vfptr rs of None \<Rightarrow> Undef | Some _ \<Rightarrow> Ok (rex_gen_recv rs iov k))"

definition rex_sock_send :: "rex_sock \<Rightarrow> byte list \<Rightarrow> kern \<Rightarrow> ((errno + nat) \<times> kern) cres" where
  "rex_sock_send rs buff k = rex_sock_sendv rs [buff] k"

definition rex_sock_recv :: "rex_sock \<Rightarrow> nat \<Rightarrow> kern \<Rightarrow> ((errno + byte list) \<times> kern) cres" where
  "rex_sock_recv rs n k = rex_sock_recvv rs [n] k"

section \<open>Options\<close>

text \<open>Names of the kernel's socket options, and the tables \<open>get_vfptr\<close> and \<open>set_vfptr\<close> as
  functions of the index. \<open>opt >= NELEM\<close> compares in \<open>size_t\<close>, so a negative index is too
  large. An option value is an \<open>int\<close> or a string.\<close>

definition SO_SNDBUF :: int where "SO_SNDBUF = 7"
definition SO_RCVBUF :: int where "SO_RCVBUF = 8"
definition SO_RCVTIMEO :: int where "SO_RCVTIMEO = 20"
definition SO_SNDTIMEO :: int where "SO_SNDTIMEO = 21"
definition SO_REUSEADDR :: int where "SO_REUSEADDR = 2"
definition TCP_NODELAY :: int where "TCP_NODELAY = 1"
definition O_NONBLOCK :: nat where "O_NONBLOCK = 2048"

datatype rexval = RInt i32 | RStr string

definition get_buf :: "int \<Rightarrow> rex_sock \<Rightarrow> kern \<Rightarrow> (errno + rexval) \<times> kern" where
  "get_buf name rs k =
     (case sys (KGetsockopt (ss_fd rs) name) k of
        (KVals (v # _), k) \<Rightarrow> (Inr (RInt v), k)
      | (KFail e, k) \<Rightarrow> (Inl e, k)
      | (_, k) \<Rightarrow> (Inl EOTHER, k))"

text \<open>\<open>get_sndtimeo\<close>, \<open>get_rcvtimeo\<close>: seconds and microseconds to milliseconds.\<close>

definition get_timeo :: "int \<Rightarrow> rex_sock \<Rightarrow> kern \<Rightarrow> (errno + rexval) \<times> kern" where
  "get_timeo name rs k =
     (case sys (KGetsockopt (ss_fd rs) name) k of
        (KVals [s, u], k) \<Rightarrow> (Inr (RInt (of_int (sint s * 1000 + sint u sdiv 1000))), k)
      | (KFail e, k) \<Rightarrow> (Inl e, k)
      | (_, k) \<Rightarrow> (Inl EOTHER, k))"

definition get_noblock :: "rex_sock \<Rightarrow> kern \<Rightarrow> (errno + rexval) \<times> kern" where
  "get_noblock rs k =
     (let (a, k) = sys (KGetfl (ss_fd rs)) k;
          flags = (case a of KOk n \<Rightarrow> n | _ \<Rightarrow> 0)
      in (Inr (RInt (if flags AND O_NONBLOCK \<noteq> 0 then 1 else 0)), k))"

definition rex_gen_getopt :: "rex_sock \<Rightarrow> int \<Rightarrow> kern \<Rightarrow> (errno + rexval) \<times> kern" where
  "rex_gen_getopt rs opt k =
     (if opt < 0 \<or> opt \<ge> 11 then (Inl EINVAL, k)
      else if opt = 2 then get_buf SO_SNDBUF rs k
      else if opt = 3 then get_buf SO_RCVBUF rs k
      else if opt = 4 then get_noblock rs k
      else if opt = 6 then get_timeo SO_RCVTIMEO rs k
      else if opt = 7 then get_timeo SO_SNDTIMEO rs k
      else if opt = 9 then (Inr (RStr (ss_addr rs)), k)
      else if opt = 10 then (Inr (RStr (ss_peer rs)), k)
      else (Inl EOPNOTSUPP, k))"

definition rc_of :: "kans \<times> kern \<Rightarrow> (errno + unit) \<times> kern" where
  "rc_of r = (case r of (KFail e, k) \<Rightarrow> (Inl e, k) | (_, k) \<Rightarrow> (Inr (), k))"

definition set_buf :: "int \<Rightarrow> rex_sock \<Rightarrow> i32 \<Rightarrow> kern \<Rightarrow> (errno + unit) \<times> kern" where
  "set_buf name rs v k =
     (if sint v < 0 then (Inl EINVAL, k) else rc_of (sys (KSetsockopt (ss_fd rs) name [v]) k))"

definition set_timeo :: "int \<Rightarrow> rex_sock \<Rightarrow> i32 \<Rightarrow> kern \<Rightarrow> (errno + unit) \<times> kern" where
  "set_timeo name rs v k =
     rc_of (sys (KSetsockopt (ss_fd rs) name
       [of_int (sint v sdiv 1000), of_int ((sint v smod 1000) * 1000)]) k)"

definition set_flag :: "int \<Rightarrow> rex_sock \<Rightarrow> i32 \<Rightarrow> kern \<Rightarrow> (errno + unit) \<times> kern" where
  "set_flag name rs v k =
     rc_of (sys (KSetsockopt (ss_fd rs) name [if v \<noteq> 0 then 1 else 0]) k)"

definition set_noblock :: "rex_sock \<Rightarrow> i32 \<Rightarrow> kern \<Rightarrow> (errno + unit) \<times> kern" where
  "set_noblock rs v k =
     (let (_, k) = sys (KGetfl (ss_fd rs)) k in rc_of (sys (KSetfl (ss_fd rs) (v \<noteq> 0)) k))"

definition rex_gen_setopt :: "rex_sock \<Rightarrow> int \<Rightarrow> i32 \<Rightarrow> kern \<Rightarrow> (errno + unit) \<times> kern" where
  "rex_gen_setopt rs opt v k =
     (if opt < 0 \<or> opt \<ge> 11 \<or> opt = 9 \<or> opt = 10 then (Inl EINVAL, k)
      else if opt = 2 then set_buf SO_SNDBUF rs v k
      else if opt = 3 then set_buf SO_RCVBUF rs v k
      else if opt = 4 then set_noblock rs v k
      else if opt = 5 then set_flag TCP_NODELAY rs v k
      else if opt = 6 then set_timeo SO_RCVTIMEO rs v k
      else if opt = 7 then set_timeo SO_SNDTIMEO rs v k
      else if opt = 8 then set_flag SO_REUSEADDR rs v k
      else (Inl EOPNOTSUPP, k))"

definition rex_sock_getopt :: "rex_sock \<Rightarrow> int \<Rightarrow> kern \<Rightarrow> ((errno + rexval) \<times> kern) cres" where
  "rex_sock_getopt rs opt k = (case ss_vfptr rs of None \<Rightarrow> Undef | Some _ \<Rightarrow> Ok (rex_gen_getopt rs opt k))"

definition rex_sock_setopt :: "rex_sock \<Rightarrow> int \<Rightarrow> i32 \<Rightarrow> kern \<Rightarrow> ((errno + unit) \<times> kern) cres" where
  "rex_sock_setopt rs opt v k = (case ss_vfptr rs of None \<Rightarrow> Undef | Some _ \<Rightarrow> Ok (rex_gen_setopt rs opt v k))"

section \<open>Descriptors\<close>

lemma sys_calls [simp]: "calls (snd (sys c k)) = calls k @ [c]"
  by (simp add: sys_def split: list.splits)

text \<open>The descriptors a sequence of calls tried to connect, and those it closed.\<close>

fun conn_fds :: "ksys list \<Rightarrow> int list" where
  "conn_fds [] = []"
| "conn_fds (KConnect f a # cs) = f # conn_fds cs"
| "conn_fds (_ # cs) = conn_fds cs"

fun closed_fds :: "ksys list \<Rightarrow> int list" where
  "closed_fds [] = []"
| "closed_fds (KClose f # cs) = f # closed_fds cs"
| "closed_fds (_ # cs) = closed_fds cs"

lemma conn_fds_append [simp]: "conn_fds (xs @ ys) = conn_fds xs @ conn_fds ys"
  by (induction xs rule: conn_fds.induct) simp_all

lemma closed_fds_append [simp]: "closed_fds (xs @ ys) = closed_fds xs @ closed_fds ys"
  by (induction xs rule: closed_fds.induct) simp_all

lemma sys_calls': "sys c k = (a, k') \<Longrightarrow> calls k' = calls k @ [c]"
  by (metis snd_conv sys_calls)

lemma call_calls [simp]: "calls (call c k) = calls k @ [c]"
  by (simp add: call_def)

lemma connect_loop_fds:
  "connect_loop as k = (fd, res, k') \<Longrightarrow>
   \<exists>log. calls k' = calls k @ log \<and>
     conn_fds log = closed_fds log @ (if fd < 0 then [] else [fd]) \<and> (fd < 0 \<longleftrightarrow> res = [])"
proof (induction as arbitrary: k)
  case (Cons a as)
  obtain s k1 where s: "sys (KSocket a) k = (s, k1)" by (cases "sys (KSocket a) k")
  note c1 = sys_calls' [OF s]
  show ?case
  proof (cases "\<exists>n. s = KOk n")
    case True
    then obtain n where n: "s = KOk n" ..
    obtain c k2 where c: "sys (KConnect (int n) a) k1 = (c, k2)" by (cases "sys (KConnect (int n) a) k1")
    note c2 = sys_calls' [OF c]
    show ?thesis
    proof (cases "c = KOk 0")
      case True
      with Cons.prems s n c c1 c2 show ?thesis by auto
    next
      case False
      with Cons.prems s n c have "connect_loop as (call (KClose (int n)) k2) = (fd, res, k')" by simp
      from Cons.IH [OF this] c1 c2 show ?thesis by fastforce
    qed
  next
    case False
    with Cons.prems s have "connect_loop as k1 = (fd, res, k')" by (cases s) auto
    from Cons.IH [OF this] c1 show ?thesis by fastforce
  qed
qed simp

section \<open>Properties\<close>

text \<open>Connecting over TCP, whatever the kernel answers: of the descriptors on which a connection
  was tried, all are closed again except the one a successful call keeps, and that one is the
  last tried; a failed call closes them all.\<close>

theorem rex_tcp_connect_fds:
  assumes "rex_tcp_connect rs peer k = Ok (r, k')"
  shows "\<exists>log. calls k' = calls k @ log \<and>
    conn_fds log = closed_fds log @ (case r of Inl _ \<Rightarrow> [] | Inr rs' \<Rightarrow> [ss_fd rs'])"
proof (cases "split_host peer")
  case None
  with assms show ?thesis by (auto simp: rex_tcp_connect_def)
next
  case (Some hs)
  obtain host serv where hs: "hs = (host, serv)" by (cases hs)
  obtain a k1 where g: "sys (KGetaddrinfo host serv False) k = (a, k1)"
    by (cases "sys (KGetaddrinfo host serv False) k")
  note c1 = sys_calls' [OF g]
  show ?thesis
  proof (cases "\<exists>n. a = KOk n")
    case False
    with Some hs g assms c1 show ?thesis by (cases a) (auto simp: rex_tcp_connect_def)
  next
    case True
    then obtain n where n: "a = KOk n" ..
    obtain fd res k2 where l: "connect_loop [0..<n] k1 = (fd, res, k2)"
      by (cases "connect_loop [0..<n] k1") auto
    from connect_loop_fds [OF l] obtain log where log: "calls k2 = calls k1 @ log"
      "conn_fds log = closed_fds log @ (if fd < 0 then [] else [fd])" by blast
    obtain b k3 where nm: "sys KGetnameinfo k2 = (b, k3)" by (cases "sys KGetnameinfo k2")
    note c3 = sys_calls' [OF nm]
    show ?thesis
      using assms Some hs g n l log c1 c3 nm
      by (auto simp: rex_tcp_connect_def cbind_eq_Ok Let_def split: if_splits kans.splits)
  qed
qed

definition kern0 :: "kans list \<Rightarrow> kern" where
  "kern0 as = \<lparr>answers = as, calls = []\<rparr>"

definition rex0 :: rex_sock where
  "rex0 = \<lparr>ss_fd = -1, ss_family = 2, ss_addr = [], ss_peer = [], ss_flags = 0, ss_vfptr = Some RexTcp4\<rparr>"

theorem rex_tcp_connect_fds_witness:
  "\<exists>r k'. rex_tcp_connect rex0 ''h:80'' (kern0 [KOk 2, KOk 7, KFail ECONNREFUSED, KOk 8, KOk 0, KFail EOTHER]) =
     Ok (Inr r, k') \<and> conn_fds (calls k') = [7, 8] \<and> closed_fds (calls k') = [7]"
proof -
  have "split_host ''h:80'' = Some (''h'', ''80'')"
    by (simp add: split_host_def strncpy_buf_def strrchr_at_def REX_MAX_HOSTLEN_def)
  then obtain r k' where r: "rex_tcp_connect rex0 ''h:80''
      (kern0 [KOk 2, KOk 7, KFail ECONNREFUSED, KOk 8, KOk 0, KFail EOTHER]) = Ok (Inr r, k')"
    "ss_fd r = 8" "closed_fds (calls k') = [7]"
    by (simp add: rex_tcp_connect_def sys_def kern0_def call_def upt_rec numeral_2_eq_2)
  from rex_tcp_connect_fds [OF r(1)] r(2,3) show ?thesis
    by (auto simp: kern0_def intro!: exI [of _ r] exI [of _ k'] r(1) [unfolded kern0_def])
qed

text \<open>Accepting over TCP: after a failed \<open>accept\<close> with an error other than the four that mean
  "try again", out of descriptors for one, the call reports success and hands out a socket with
  the descriptor \<open>-1\<close>.\<close>

theorem rex_tcp_accept_bad_fd:
  assumes "answers k = KFail e # KFail e' # as" "e \<notin> accept_again"
  shows "\<exists>new' k'. rex_tcp_accept rs new k = Ok (Inr new', k') \<and> ss_fd new' = -1"
  using assms by (simp add: rex_tcp_accept_def sys_def)

theorem rex_tcp_accept_bad_fd_witness:
  "\<exists>new' k'. rex_tcp_accept rex0 rex0 (kern0 [KFail EMFILE, KFail EOTHER]) = Ok (Inr new', k') \<and> ss_fd new' = -1"
  by (rule rex_tcp_accept_bad_fd [of _ EMFILE EOTHER "[]"]) (simp_all add: kern0_def accept_again_def)

text \<open>The data calls normalise what the kernel says: sending fails with \<open>EAGAIN\<close> or \<open>EPIPE\<close>
  only, a closed connection is \<open>EPIPE\<close> and never an empty success, and neither passes more
  than 100 segments.\<close>

theorem rex_data_errors:
  "(\<forall>e. fst (rex_gen_send rs iov k) = Inl e \<longrightarrow> e = EAGAIN \<or> e = EPIPE) \<and>
   (\<forall>bs. fst (rex_gen_recv rs sz k) = Inr bs \<longrightarrow> bs \<noteq> [] \<and> length bs \<le> sum_list (take 100 sz)) \<and>
   (\<forall>c\<in>set (calls (snd (rex_gen_send rs iov k))) - set (calls k).
      \<exists>segs. c = KSendmsg (ss_fd rs) segs \<and> length segs \<le> 100)"
  by (auto simp: rex_gen_send_def rex_gen_recv_def sys_def Let_def
           split: list.splits kans.splits if_splits)

theorem rex_data_errors_witness:
  "\<exists>e. fst (rex_gen_send rex0 [[1]] (kern0 [KFail EINTR])) = Inl e \<and> (e = EAGAIN \<or> e = EPIPE)"
proof -
  have e: "fst (rex_gen_send rex0 [[1]] (kern0 [KFail EINTR])) = Inl EAGAIN"
    by (simp add: rex_gen_send_def sys_def kern0_def again_errnos_def)
  with rex_data_errors [of rex0 "[[1]]" "kern0 [KFail EINTR]"]
  have "EAGAIN = EAGAIN \<or> EAGAIN = EPIPE" by blast
  with e show ?thesis by blast
qed

lemma sint_of_int_32: "- (2 ^ 31) \<le> i \<Longrightarrow> i < 2 ^ 31 \<Longrightarrow> sint (of_int i :: i32) = i"
  by (simp add: signed_of_int signed_take_bit_int_eq_self)

text \<open>A timeout option survives the kernel: the seconds and microseconds that \<open>set_timeo\<close>
  passes for a non-negative number of milliseconds are read back by \<open>get_timeo\<close> as the same
  number.\<close>

theorem rex_timeo_roundtrip:
  assumes "0 \<le> sint v"
  shows "\<exists>vals. calls (snd (set_timeo name rs v k)) = calls k @ [KSetsockopt (ss_fd rs) name vals] \<and>
    (\<forall>k' as. answers k' = KVals vals # as \<longrightarrow> fst (get_timeo name rs k') = Inr (RInt v))"
proof -
  have v: "0 \<le> sint v" "sint v < 2 ^ 31" using assms sint_less [of v] by simp_all
  then have d: "sint v sdiv 1000 = sint v div 1000" "sint v smod 1000 = sint v mod 1000"
    by (auto simp: signed_divide_int_def signed_modulo_int_def sgn_if)
  let ?vals = "[of_int (sint v div 1000), of_int ((sint v mod 1000) * 1000)] :: i32 list"
  have s: "sint (of_int (sint v div 1000) :: i32) = sint v div 1000"
    using v by (intro sint_of_int_32) auto
  have "0 \<le> sint v mod 1000" "sint v mod 1000 < 1000" by simp_all
  then have u: "sint (of_int ((sint v mod 1000) * 1000) :: i32) = (sint v mod 1000) * 1000"
    by (intro sint_of_int_32) auto
  have m: "((sint v mod 1000) * 1000) sdiv 1000 = sint v mod 1000"
    by (auto simp: signed_divide_int_def sgn_if)
  have "fst (get_timeo name rs k') = Inr (RInt v)" if "answers k' = KVals ?vals # as" for k' as
  proof -
    have "fst (get_timeo name rs k') = Inr (RInt (of_int (sint (of_int (sint v div 1000) :: i32) * 1000 +
        sint (of_int ((sint v mod 1000) * 1000) :: i32) sdiv 1000)))"
      using that by (simp add: get_timeo_def sys_def)
    then show ?thesis unfolding s u m div_mult_mod_eq by simp
  qed
  moreover have "calls (snd (set_timeo name rs v k)) = calls k @ [KSetsockopt (ss_fd rs) name ?vals]"
    by (simp add: set_timeo_def rc_of_def d sys_def split: list.splits kans.splits)
  ultimately show ?thesis by blast
qed

theorem rex_timeo_roundtrip_witness:
  "\<exists>vals. calls (snd (set_timeo SO_SNDTIMEO rex0 1500 (kern0 []))) = [KSetsockopt (-1) SO_SNDTIMEO vals]"
  using rex_timeo_roundtrip [of 1500 SO_SNDTIMEO rex0 "kern0 []"] by (auto simp: kern0_def rex0_def)

end
