(* ===== verification/SockOpt.thy ===== *)
theory SockOpt
  imports Sock Rex
begin

text \<open>
  The option tables of the three transports, \<^verbatim>\<open>src/src/socket/inproc/inproc_getsetor.c\<close>,
  \<^verbatim>\<open>mix/mix_getsetor.c\<close> and \<^verbatim>\<open>sio/sio_getsetor.c\<close>. Each function is a table together with the
  static functions it points to; a missing entry is a null pointer. The test \<open>opt >= NELEM\<close>
  compares in \<open>size_t\<close>, so negative options are refused with the large ones.
\<close>

section \<open>The tables\<close>

definition XSO_LINGER :: int where "XSO_LINGER = 0"
definition XSO_SNDBUF :: int where "XSO_SNDBUF = 1"
definition XSO_RCVBUF :: int where "XSO_RCVBUF = 2"
definition XSO_NOBLOCK :: int where "XSO_NOBLOCK = 3"
definition XSO_NODELAY :: int where "XSO_NODELAY = 4"
definition XSO_SNDTIMEO :: int where "XSO_SNDTIMEO = 5"
definition XSO_RCVTIMEO :: int where "XSO_RCVTIMEO = 6"
definition XSO_SOCKTYPE :: int where "XSO_SOCKTYPE = 7"
definition XSO_SOCKPROTO :: int where "XSO_SOCKPROTO = 8"
definition XSO_VERBOSE :: int where "XSO_VERBOSE = 9"

lemmas xso_defs = XSO_LINGER_def XSO_SNDBUF_def XSO_RCVBUF_def XSO_NOBLOCK_def XSO_NODELAY_def
  XSO_SNDTIMEO_def XSO_RCVTIMEO_def XSO_SOCKTYPE_def XSO_SOCKPROTO_def XSO_VERBOSE_def

definition of_bool32 :: "bool \<Rightarrow> i32" where
  "of_bool32 b = (if b then 1 else 0)"

definition inproc_getopt :: "sockbase \<Rightarrow> int \<Rightarrow> errno + rexval" where
  "inproc_getopt sb opt =
     (if opt < 0 \<or> opt \<ge> 10 \<or> opt = XSO_NODELAY then Inl EINVAL
      else if opt = XSO_SNDBUF then Inr (RInt (wnd (snd sb)))
      else if opt = XSO_RCVBUF then Inr (RInt (wnd (rcv sb)))
      else if opt = XSO_NOBLOCK then Inr (RInt (of_bool32 (non_block sb)))
      else if opt = XSO_SOCKTYPE then Inr (RInt (of_int (vf_type (vfp sb))))
      else if opt = XSO_SOCKPROTO then Inr (RInt (of_int (vf_pf (vfp sb))))
      else if opt = XSO_VERBOSE then Inr (RInt (ucast (verbose sb)))
      else Inl ENONE)"

definition inproc_setopt :: "sockbase \<Rightarrow> int \<Rightarrow> i32 \<Rightarrow> errno + sockbase" where
  "inproc_setopt sb opt v =
     (if opt < 0 \<or> opt \<ge> 10 \<or> opt = XSO_NODELAY \<or> opt = XSO_SOCKTYPE \<or> opt = XSO_SOCKPROTO then Inl EINVAL
      else if opt = XSO_SNDBUF then Inr (sb\<lparr>snd := (snd sb)\<lparr>wnd := v\<rparr>\<rparr>)
      else if opt = XSO_RCVBUF then Inr (sb\<lparr>rcv := (rcv sb)\<lparr>wnd := v\<rparr>\<rparr>)
      else if opt = XSO_NOBLOCK then Inr (sb\<lparr>non_block := (v \<noteq> 0)\<rparr>)
      else if opt = XSO_VERBOSE then Inr (sb\<lparr>verbose := ucast (v AND 0xf)\<rparr>)
      else Inl ENONE)"

definition mix_getopt :: "sockbase \<Rightarrow> int \<Rightarrow> errno + rexval" where
  "mix_getopt sb opt =
     (if opt = XSO_NOBLOCK then Inr (RInt (of_bool32 (non_block sb)))
      else if opt = XSO_SOCKTYPE then Inr (RInt (of_int (vf_type (vfp sb))))
      else if opt = XSO_SOCKPROTO then Inr (RInt (of_int (vf_pf (vfp sb))))
      else if opt = XSO_VERBOSE then Inr (RInt (ucast (verbose sb)))
      else Inl EINVAL)"

definition mix_setopt :: "sockbase \<Rightarrow> int \<Rightarrow> i32 \<Rightarrow> errno + sockbase" where
  "mix_setopt sb opt v =
     (if opt = XSO_NOBLOCK then Inr (sb\<lparr>non_block := (v \<noteq> 0)\<rparr>)
      else if opt = XSO_VERBOSE then Inr (sb\<lparr>verbose := ucast (v AND 0xf)\<rparr>)
      else Inl EINVAL)"

text \<open>In \<open>sio\<close> two options go through to the kernel; \<open>REX_SO_LINGER\<close> is 1, \<open>REX_SO_NODELAY\<close> 5.\<close>

definition sio_getopt :: "sockbase \<Rightarrow> rex_sock \<Rightarrow> int \<Rightarrow> kern \<Rightarrow> ((errno + rexval) \<times> kern) cres" where
  "sio_getopt sb rs opt k =
     (if opt < 0 \<or> opt \<ge> 10 then Ok (Inl EINVAL, k)
      else if opt = XSO_LINGER then rex_sock_getopt rs 1 k
      else if opt = XSO_SNDBUF then Ok (Inr (RInt (wnd (snd sb))), k)
      else if opt = XSO_RCVBUF then Ok (Inr (RInt (wnd (rcv sb))), k)
      else if opt = XSO_NOBLOCK then Ok (Inr (RInt (of_bool32 (non_block sb))), k)
      else if opt = XSO_NODELAY then rex_sock_getopt rs 5 k
      else if opt = XSO_SOCKTYPE then Ok (Inr (RInt (of_int (vf_type (vfp sb)))), k)
      else if opt = XSO_SOCKPROTO then Ok (Inr (RInt (of_int (vf_pf (vfp sb)))), k)
      else if opt = XSO_VERBOSE then Ok (Inr (RInt (ucast (verbose sb))), k)
      else Ok (Inl ENONE, k))"

definition sio_setopt ::
  "sockbase \<Rightarrow> rex_sock \<Rightarrow> int \<Rightarrow> i32 \<Rightarrow> kern \<Rightarrow> ((errno + sockbase) \<times> kern) cres" where
  "sio_setopt sb rs opt v k =
     (let through = (\<lambda>o'. cbind (rex_sock_setopt rs o' v k) (\<lambda>(r, k).
                           Ok (case r of Inl e \<Rightarrow> Inl e | Inr _ \<Rightarrow> Inr sb, k)))
      in if opt < 0 \<or> opt \<ge> 10 \<or> opt = XSO_SOCKTYPE \<or> opt = XSO_SOCKPROTO then Ok (Inl EINVAL, k)
         else if opt = XSO_LINGER then through 1
         else if opt = XSO_SNDBUF then Ok (Inr (sb\<lparr>snd := (snd sb)\<lparr>wnd := v\<rparr>\<rparr>), k)
         else if opt = XSO_RCVBUF then Ok (Inr (sb\<lparr>rcv := (rcv sb)\<lparr>wnd := v\<rparr>\<rparr>), k)
         else if opt = XSO_NOBLOCK then Ok (Inr (sb\<lparr>non_block := (v \<noteq> 0)\<rparr>), k)
         else if opt = XSO_NODELAY then through 5
         else if opt = XSO_VERBOSE then Ok (Inr (sb\<lparr>verbose := ucast (v AND 0xf)\<rparr>), k)
         else Ok (Inl ENONE, k))"

section \<open>Properties\<close>

text \<open>What an option reads back after it was set to \<open>v\<close>.\<close>

definition norm_opt :: "int \<Rightarrow> i32 \<Rightarrow> i32" where
  "norm_opt opt v = (if opt = XSO_NOBLOCK then of_bool32 (v \<noteq> 0) else if opt = XSO_VERBOSE then v AND 0xf else v)"

lemma verbose_roundtrip: "ucast (ucast (v AND 0xf) :: 4 word) = v AND 0xf" for v :: i32
proof (rule bit_word_eqI)
  fix n :: nat
  assume n: "n < LENGTH(32)"
  have m: "bit (0xf :: i32) n \<longleftrightarrow> n < 4"
    using bit_mask_iff [where 'a = "32 word", of 4 n] n by (simp add: mask_eq_exp_minus_1)
  show "bit (ucast (ucast (v AND 0xf) :: 4 word) :: i32) n = bit (v AND 0xf) n"
    using n m by (auto simp: bit_simps)
qed

text \<open>On the in-process transport an accepted option value is read back (as a truth value for
  the blocking mode, masked to four bits for the verbosity), every other option reads as before,
  the socket stays well formed and its queues are untouched.\<close>

theorem inproc_setopt_getopt:
  assumes "inproc_setopt sb opt v = Inr sb'"
  shows "inproc_getopt sb' opt = Inr (RInt (norm_opt opt v)) \<and>
    (\<forall>o'. o' \<noteq> opt \<longrightarrow> inproc_getopt sb' o' = inproc_getopt sb o') \<and>
    (sock_ok sb \<longrightarrow> sock_ok sb') \<and> bh_msgs (rcv sb') = bh_msgs (rcv sb) \<and> bh_msgs (snd sb') = bh_msgs (snd sb)"
  using assms
  by (auto simp: inproc_setopt_def inproc_getopt_def norm_opt_def xso_defs sock_ok_def head_ok_def
                 verbose_roundtrip split: if_splits)

theorem inproc_setopt_getopt_witness:
  "\<exists>sb'. inproc_setopt (sockbase_init InprocConnector) XSO_VERBOSE 0x13 = Inr sb' \<and>
     inproc_getopt sb' XSO_VERBOSE = Inr (RInt 3)"
proof -
  obtain sb' where "inproc_setopt (sockbase_init InprocConnector) XSO_VERBOSE 0x13 = Inr sb'"
    by (simp add: inproc_setopt_def xso_defs)
  with inproc_setopt_getopt [OF this] show ?thesis by (simp add: norm_opt_def xso_defs)
qed

text \<open>On TCP and IPC sockets, whatever the kernel answers: an accepted value of an option the
  library keeps itself is read back, and the two options kept by the kernel leave the socket as
  it is; options that are not in the table are \<open>EINVAL\<close>.\<close>

theorem sio_setopt_getopt:
  assumes "sio_setopt sb rs opt v k = Ok (Inr sb', k')"
  shows "if opt = XSO_NODELAY \<or> opt = XSO_LINGER then sb' = sb
    else sio_getopt sb' rs opt k' = Ok (Inr (RInt (norm_opt opt v)), k') \<and> k' = k"
  using assms
  by (auto simp: sio_setopt_def sio_getopt_def norm_opt_def xso_defs Let_def cbind_eq_Ok
                 verbose_roundtrip split: if_splits sum.splits) (metis sum.exhaust unit.exhaust)+

theorem sio_setopt_getopt_witness:
  "\<exists>sb'. sio_setopt (sockbase_init TcpConnector) rex0 XSO_RCVBUF 10 (kern0 []) = Ok (Inr sb', kern0 []) \<and>
     sio_getopt sb' rex0 XSO_RCVBUF (kern0 []) = Ok (Inr (RInt 10), kern0 [])"
proof -
  obtain sb' where "sio_setopt (sockbase_init TcpConnector) rex0 XSO_RCVBUF 10 (kern0 []) = Ok (Inr sb', kern0 [])"
    by (simp add: sio_setopt_def xso_defs)
  with sio_setopt_getopt [OF this] show ?thesis by (simp add: norm_opt_def xso_defs)
qed

end
