(* ===== verification/Efd.thy ===== *)
theory Efd
  imports Prelude
begin

text \<open>
  The event descriptor of \<^verbatim>\<open>src/src/utils/efd.c\<close>: a pipe whose two ends do not block. A write of
  a few bytes to such a pipe is atomic: it stores all of them or, when there is no room, fails
  with \<open>EAGAIN\<close>; a read takes what is there, at most the bytes asked for, and fails with
  \<open>EAGAIN\<close> when there is nothing. The loops that retry have fuel, and \<open>None\<close> is a loop that
  goes on.
\<close>

section \<open>Pipes\<close>

record efd =
  p_cap :: nat
  p_buf :: "byte list"
  unsignal_size :: u64

definition pipe_write :: "efd \<Rightarrow> byte list \<Rightarrow> (errno + nat) \<times> efd" where
  "pipe_write e bs =
     (if length (p_buf e) + length bs \<le> p_cap e
      then (Inr (length bs), e\<lparr>p_buf := p_buf e @ bs\<rparr>) else (Inl EAGAIN, e))"

definition pipe_read :: "efd \<Rightarrow> nat \<Rightarrow> (errno + byte list) \<times> efd" where
  "pipe_read e n =
     (if p_buf e = [] then (Inl EAGAIN, e)
      else (Inr (take n (p_buf e)), e\<lparr>p_buf := drop n (p_buf e)\<rparr>))"

section \<open>Operations\<close>

text \<open>The flags: whether \<open>pipe\<close> and the two \<open>fcntl\<close> calls succeed.\<close>

definition efd_init :: "bool \<Rightarrow> bool \<Rightarrow> bool \<Rightarrow> nat \<Rightarrow> efd cres" where
  "efd_init made rok wok cap =
     (if \<not> made then Bug else if \<not> rok then Bug else if \<not> wok then Bug
      else Ok \<lparr>p_cap = cap, p_buf = [], unsignal_size = 0\<rparr>)"

definition efd_signal_s :: "efd \<Rightarrow> (errno + nat) \<times> efd" where
  "efd_signal_s e =
     (case pipe_write e [94] of
        (Inr n, e') \<Rightarrow> (Inr n, if n = 1 then e'\<lparr>unsignal_size := unsignal_size e' + 1\<rparr> else e')
      | r \<Rightarrow> r)"

text \<open>The loop reads 128 bytes at a time until a read is short.\<close>

function efd_unsignal_s :: "efd \<Rightarrow> efd" where
  "efd_unsignal_s e =
     (let (r, e') = pipe_read e 128;
          n = (case r of Inl _ \<Rightarrow> 0 | Inr bs \<Rightarrow> length bs);
          e'' = e'\<lparr>unsignal_size := unsignal_size e' - of_nat n\<rparr>
      in if n < 128 then e'' else efd_unsignal_s e'')"
  by pat_completeness auto
termination
  by (relation "measure (\<lambda>e. length (p_buf e))") (auto simp: pipe_read_def split: if_splits)

declare efd_unsignal_s.simps [simp del]

fun efd_signal_loop :: "nat \<Rightarrow> efd \<Rightarrow> byte list \<Rightarrow> efd option" where
  "efd_signal_loop 0 e bs = (if bs = [] then Some e else None)"
| "efd_signal_loop (Suc n) e bs =
     (if bs = [] then Some e
      else case pipe_write e bs of
             (Inr k, e') \<Rightarrow> efd_signal_loop n e' (drop k bs)
           | (Inl _, e') \<Rightarrow> efd_signal_loop n e' bs)"

definition efd_signal :: "nat \<Rightarrow> efd \<Rightarrow> i32 \<Rightarrow> efd cres option" where
  "efd_signal fuel e signo =
     (if sint signo \<le> 0 then Some (Err EINVAL)
      else map_option (\<lambda>e'. Ok (e'\<lparr>unsignal_size := unsignal_size e' + 4\<rparr>))
             (efd_signal_loop fuel e (le32 signo)))"

text \<open>The loop of \<open>efd_unsignal2\<close>: the bytes read so far come first.\<close>

fun efd_unsignal2_loop :: "nat \<Rightarrow> efd \<Rightarrow> byte list \<Rightarrow> nat \<Rightarrow> (byte list \<times> efd) option" where
  "efd_unsignal2_loop fuel e got n =
     (if length got < n
      then case fuel of
             0 \<Rightarrow> None
           | Suc f \<Rightarrow>
               (case pipe_read e (n - length got) of
                  (Inl _, e') \<Rightarrow> if length got mod 4 = 0 then Some (got, e')
                                else efd_unsignal2_loop f e' got n
                | (Inr bs, e') \<Rightarrow>
                    efd_unsignal2_loop f (e'\<lparr>unsignal_size := unsignal_size e' - of_nat (length bs)\<rparr>)
                      (got @ bs) n)
      else Some (got, e))"

declare efd_unsignal2_loop.simps [simp del]

definition efd_unsignal2 :: "nat \<Rightarrow> efd \<Rightarrow> nat \<Rightarrow> ((byte list \<times> nat) \<times> efd) cres option" where
  "efd_unsignal2 fuel e sz =
     map_option (\<lambda>(got, e').
         if length got mod 4 \<noteq> 0 then Bug else Ok ((got, length got div 4), e'))
       (efd_unsignal2_loop fuel e [] (4 * sz))"

definition efd_unsignal :: "nat \<Rightarrow> efd \<Rightarrow> (i32 \<times> efd) cres option" where
  "efd_unsignal fuel e =
     map_option (\<lambda>r. cbind r (\<lambda>((got, n), e'). Ok (if n = 1 then of_le32 got else -1, e')))
       (efd_unsignal2 fuel e 1)"

section \<open>Whole integers\<close>

text \<open>The pipe holds whole integers and \<open>unsignal_size\<close> counts its bytes.\<close>

definition efd_ok :: "efd \<Rightarrow> bool" where
  "efd_ok e \<longleftrightarrow> length (p_buf e) mod 4 = 0 \<and> unsignal_size e = of_nat (length (p_buf e))"

lemma efd_ok_init: "efd_init made rok wok cap = Ok e \<Longrightarrow> efd_ok e \<and> p_buf e = []"
  by (auto simp: efd_init_def efd_ok_def split: if_splits)

lemma efd_signal_ok [invs]:
  assumes "efd_ok e" "0 < sint s" "length (p_buf e) + 4 \<le> p_cap e" "0 < fuel"
  shows "\<exists>e'. efd_signal fuel e s = Some (Ok e') \<and> efd_ok e' \<and> p_buf e' = p_buf e @ le32 s \<and>
    p_cap e' = p_cap e"
proof -
  obtain f where f: "fuel = Suc f" using assms(4) by (cases fuel) auto
  have "le32 s \<noteq> []" by (simp add: le32_def)
  moreover have "efd_signal_loop f e' [] = Some e'" for e' by (cases f) simp_all
  ultimately have l: "efd_signal_loop fuel e (le32 s) = Some (e\<lparr>p_buf := p_buf e @ le32 s\<rparr>)"
    using assms(3) by (simp add: f pipe_write_def)
  have "not_le": "\<not> sint s \<le> 0" using assms(2) by simp
  show ?thesis
    using assms(1) not_le by (simp add: efd_signal_def l efd_ok_def mod_add_left_eq [symmetric])
qed

lemma unsignal2_loop_ok:
  assumes "efd_ok e" "4 dvd length got" "4 dvd n" "length got \<le> n"
  shows "\<exists>e'. efd_unsignal2_loop (Suc (Suc f)) e got n =
        Some (got @ take (n - length got) (p_buf e), e') \<and> efd_ok e' \<and>
     p_buf e' = drop (n - length got) (p_buf e) \<and> p_cap e' = p_cap e"
proof (cases "length got = n \<or> p_buf e = []")
  case True
  then show ?thesis
    using assms by (auto simp: efd_unsignal2_loop.simps [of "Suc (Suc f)"] pipe_read_def)
next
  case False
  let ?k = "n - length got"
  let ?bs = "take ?k (p_buf e)"
  let ?e = "e\<lparr>p_buf := drop ?k (p_buf e), unsignal_size := unsignal_size e - of_nat (length ?bs)\<rparr>"
  have km: "4 dvd ?k" using assms(2,3) by (rule dvd_diff_nat [rotated])
  have lb: "4 dvd length (p_buf e)" using assms(1) by (simp add: efd_ok_def mod_eq_0_iff_dvd)
  have "4 dvd (length (p_buf e) - ?k)" using km lb by (rule dvd_diff_nat [rotated])
  moreover have "(of_nat (length (p_buf e)) :: u64) - of_nat (length ?bs) = of_nat (length (drop ?k (p_buf e)))"
    by (simp add: min_def of_nat_diff)
  ultimately have ok: "efd_ok ?e"
    using assms(1) by (simp add: efd_ok_def mod_eq_0_iff_dvd)
  have len: "4 dvd length (got @ ?bs)" using assms(2) km lb by (simp add: min_def)
  have step: "efd_unsignal2_loop (Suc (Suc f)) e got n = efd_unsignal2_loop (Suc f) ?e (got @ ?bs) n"
    using False assms(4) by (simp add: efd_unsignal2_loop.simps [of "Suc (Suc f)"] pipe_read_def)
  have "efd_unsignal2_loop (Suc f) ?e (got @ ?bs) n = Some (got @ ?bs, ?e)"
  proof (cases "length (got @ ?bs) < n")
    case True
    then have "drop ?k (p_buf e) = []" by simp
    with True len show ?thesis
      by (simp add: efd_unsignal2_loop.simps [of "Suc f"] pipe_read_def mod_eq_0_iff_dvd)
  next
    case False
    then show ?thesis by (subst efd_unsignal2_loop.simps) (simp only: if_False)
  qed
  with step ok show ?thesis by auto
qed

text \<open>\<open>efd_unsignal2\<close> takes up to the number of integers asked for, and only whole ones.\<close>

lemma efd_unsignal2_ok [invs]:
  assumes "efd_ok e" "2 \<le> fuel"
  shows "\<exists>e'. efd_unsignal2 fuel e n =
      Some (Ok ((take (4 * n) (p_buf e), min n (length (p_buf e) div 4)), e')) \<and>
    efd_ok e' \<and> p_buf e' = drop (4 * n) (p_buf e) \<and> p_cap e' = p_cap e"
proof -
  obtain f where f: "fuel = Suc (Suc f)" using assms(2) by (metis add_2_eq_Suc le_Suc_ex)
  have d: "4 dvd length (p_buf e)" using assms(1) by (simp add: efd_ok_def mod_eq_0_iff_dvd)
  then obtain m where m: "length (p_buf e) = 4 * m" by (rule dvdE)
  from unsignal2_loop_ok [OF assms(1), of "[]" "4 * n" f] obtain e' where
    e': "efd_unsignal2_loop (Suc (Suc f)) e [] (4 * n) = Some (take (4 * n) (p_buf e), e')"
      "efd_ok e'" "p_buf e' = drop (4 * n) (p_buf e)" "p_cap e' = p_cap e" by auto
  have "length (take (4 * n) (p_buf e)) = 4 * min n m" using m by (simp add: min_def)
  then have "length (take (4 * n) (p_buf e)) mod 4 = 0"
    "length (take (4 * n) (p_buf e)) div 4 = min n (length (p_buf e) div 4)" using m by simp_all
  with e' show ?thesis by (simp add: efd_unsignal2_def f del: length_take)
qed

lemma efd_unsignal_ok [invs]:
  assumes "efd_ok e" "2 \<le> fuel"
  shows "\<exists>s e'. efd_unsignal fuel e = Some (Ok (s, e')) \<and> efd_ok e' \<and>
    p_buf e' = drop 4 (p_buf e) \<and> p_cap e' = p_cap e"
  using efd_unsignal2_ok [OF assms, of 1] by (auto simp: efd_unsignal_def)

lemma efd_unsignal_s_drains: "p_buf (efd_unsignal_s e) = [] \<and> p_cap (efd_unsignal_s e) = p_cap e"
proof (induction "length (p_buf e)" arbitrary: e rule: less_induct)
  case less
  show ?case
  proof (cases "length (p_buf e) < 128")
    case True
    then show ?thesis by (simp add: efd_unsignal_s.simps [of e] pipe_read_def)
  next
    case False
    let ?e = "e\<lparr>p_buf := drop 128 (p_buf e), unsignal_size := unsignal_size e - 128\<rparr>"
    from False have "p_buf e \<noteq> []" by auto
    with False have "efd_unsignal_s e = efd_unsignal_s ?e"
      by (simp add: efd_unsignal_s.simps [of e] pipe_read_def min_def)
    moreover have "p_buf (efd_unsignal_s ?e) = [] \<and> p_cap (efd_unsignal_s ?e) = p_cap ?e"
      using less [of ?e] False \<open>p_buf e \<noteq> []\<close> by simp
    ultimately show ?thesis by simp
  qed
qed

end
