(* ===== verification/Ev.thy ===== *)
theory Ev
  imports Efd Bufio
begin

text \<open>
  The event loop of \<^verbatim>\<open>src/src/ev\<close>: the three back ends \<^verbatim>\<open>ev_epoll.c\<close>, \<^verbatim>\<open>ev_poll.c\<close> and
  \<^verbatim>\<open>ev_select.c\<close>, the set of watched descriptors and the user signals of \<^verbatim>\<open>ev.c\<close>. A \<open>struct ev_fd\<close>
  is named by its address; its list item is linked when \<open>linked\<close> says so. The kernel's part,
  what \<open>epoll_ctl\<close> answers and which descriptors are ready, is given to the operations. The
  counters of \<^verbatim>\<open>ev_stats.c\<close> are left out.
\<close>

section \<open>Watched descriptors\<close>

definition EV_READ :: u32 where "EV_READ = 1"
definition EV_WRITE :: u32 where "EV_WRITE = 2"
definition EV_ADD :: int where "EV_ADD = 0"
definition EV_DEL :: int where "EV_DEL = 1"
definition EV_MOD :: int where "EV_MOD = 2"
definition EV_MAXEVENTS :: nat where "EV_MAXEVENTS = 100"
definition FD_SETSIZE :: int where "FD_SETSIZE = 1024"

definition EPOLLIN :: u32 where "EPOLLIN = 1"
definition EPOLLOUT :: u32 where "EPOLLOUT = 4"
definition EPOLLERR :: u32 where "EPOLLERR = 8"
definition EPOLLHUP :: u32 where "EPOLLHUP = 16"
definition EPOLLRDHUP :: u32 where "EPOLLRDHUP = 0x2000"

datatype backend = Epoll | Poll | Select

record ev_fd =
  ev_fdno :: int
  ev_events :: u32
  fdd_fd :: int
  fdd_events :: u32
  ready_events :: u32
  linked :: bool

text \<open>\<open>ep_answers\<close>: what the coming calls of \<open>epoll_ctl\<close> answer, \<open>None\<close> for success; used up,
  they succeed. \<open>ep_calls\<close> records the calls: operation, descriptor, event mask.\<close>

record evset =
  ev_backend :: backend
  fdds :: "nat list"
  fd_size :: int
  ev_store :: "nat \<Rightarrow> ev_fd"
  ep_answers :: "errno option list"
  ep_calls :: "(int \<times> int \<times> u32) list"

definition fdd_init :: ev_fd where
  "fdd_init = \<lparr>ev_fdno = 0, ev_events = 0, fdd_fd = 0, fdd_events = 0, ready_events = 0, linked = False\<rparr>"

definition upd_fd :: "nat \<Rightarrow> (ev_fd \<Rightarrow> ev_fd) \<Rightarrow> evset \<Rightarrow> evset" where
  "upd_fd a f es = es\<lparr>ev_store := (ev_store es)(a := f (ev_store es a))\<rparr>"

definition list_fdd :: "nat \<Rightarrow> evset \<Rightarrow> evset" where
  "list_fdd a es = upd_fd a (\<lambda>f. f\<lparr>linked := True\<rparr>) (es\<lparr>fdds := fdds es @ [a]\<rparr>)"

definition unlist_fdd :: "nat \<Rightarrow> evset \<Rightarrow> evset" where
  "unlist_fdd a es = upd_fd a (\<lambda>f. f\<lparr>linked := False\<rparr>) (es\<lparr>fdds := remove1 a (fdds es)\<rparr>)"

section \<open>Back ends\<close>

definition epoll_event_init :: "ev_fd \<Rightarrow> u32" where
  "epoll_event_init f =
     (if fdd_events f AND EV_READ \<noteq> 0 then EPOLLIN OR EPOLLERR OR EPOLLHUP OR EPOLLRDHUP else 0) OR
     (if fdd_events f AND EV_WRITE \<noteq> 0 then EPOLLOUT else 0)"

definition epoll_ctl :: "int \<Rightarrow> ev_fd \<Rightarrow> evset \<Rightarrow> errno option \<times> evset" where
  "epoll_ctl op f es =
     (let es = es\<lparr>ep_calls := ep_calls es @ [(op, fdd_fd f, epoll_event_init f)]\<rparr>
      in case ep_answers es of [] \<Rightarrow> (None, es) | a # as \<Rightarrow> (a, es\<lparr>ep_answers := as\<rparr>))"

text \<open>The result \<open>None\<close> is 0, \<open>Some e\<close> is \<open>-1\<close> with \<open>errno = e\<close>.\<close>

type_synonym ctl_res = "(errno option \<times> evset) cres"

definition eventpoll_add :: "evset \<Rightarrow> nat \<Rightarrow> ctl_res" where
  "eventpoll_add es a =
     (let f = ev_store es a
      in if linked f then Bug
         else case ev_backend es of
                Epoll \<Rightarrow>
                  let (rc, es) = epoll_ctl EV_ADD f es
                  in Ok (rc, if rc = None then list_fdd a es else es)
              | Poll \<Rightarrow> Ok (None, list_fdd a es)
              | Select \<Rightarrow> if fdd_fd f \<ge> FD_SETSIZE then Bug else Ok (None, list_fdd a es))"

definition eventpoll_del :: "evset \<Rightarrow> nat \<Rightarrow> ctl_res" where
  "eventpoll_del es a =
     (let f = ev_store es a
      in if \<not> linked f then Bug
         else case ev_backend es of
                Epoll \<Rightarrow>
                  let (rc, es) = epoll_ctl EV_DEL f es
                  in Ok (rc, if rc = None then unlist_fdd a es else es)
              | Poll \<Rightarrow> Ok (None, unlist_fdd a es)
              | Select \<Rightarrow> if fdd_fd f \<ge> FD_SETSIZE then Bug else Ok (None, unlist_fdd a es))"

definition eventpoll_mod :: "evset \<Rightarrow> nat \<Rightarrow> ctl_res" where
  "eventpoll_mod es a =
     (let f = ev_store es a
      in if \<not> linked f then Bug
         else case ev_backend es of
                Epoll \<Rightarrow> Ok (epoll_ctl EV_MOD f es)
              | Poll \<Rightarrow> Ok (None, es)
              | Select \<Rightarrow> if fdd_fd f \<ge> FD_SETSIZE then Bug else Ok (None, es))"

definition eventpoll_ctl :: "evset \<Rightarrow> int \<Rightarrow> nat \<Rightarrow> ctl_res" where
  "eventpoll_ctl es op a =
     (if op = EV_ADD then eventpoll_add es a
      else if op = EV_DEL then eventpoll_del es a
      else if op = EV_MOD then eventpoll_mod es a
      else Ok (Some EINVAL, es))"

text \<open>\<open>eventpoll_wait\<close>. Epoll: the kernel's answer lists descriptors with their events.\<close>

definition epoll_ready :: "u32 \<Rightarrow> u32" where
  "epoll_ready ev =
     (if ev AND (EPOLLIN OR EPOLLERR OR EPOLLHUP OR EPOLLRDHUP) \<noteq> 0 then EV_READ else 0) OR
     (if ev AND EPOLLOUT \<noteq> 0 then EV_WRITE else 0)"

fun epoll_collect :: "(nat \<times> u32) list \<Rightarrow> evset \<Rightarrow> nat list \<times> evset" where
  "epoll_collect [] es = ([], es)"
| "epoll_collect ((a, ev) # as) es =
     (if ev = 0 then epoll_collect as es
      else let es = upd_fd a (\<lambda>f. f\<lparr>ready_events := epoll_ready ev\<rparr>) es;
               (r, es) = epoll_collect as es
           in (a # r, es))"

text \<open>Poll and select: the first \<open>m\<close> entries move one by one to the front of a new list, which
  is then put in front of the others. \<open>look\<close> tells of a descriptor its \<open>ready_events\<close> and whether
  it is reported. \<open>None\<close> for \<open>revents\<close>: the call fails or times out.\<close>

fun poll_collect :: "(ev_fd \<Rightarrow> u32 \<times> bool) \<Rightarrow> nat list \<Rightarrow> evset \<Rightarrow> nat list \<times> evset" where
  "poll_collect look [] es = ([], es)"
| "poll_collect look (a # as) es =
     (let (ev, on) = look (ev_store es a);
          es = upd_fd a (\<lambda>f. f\<lparr>ready_events := ev\<rparr>) es;
          (r, es) = poll_collect look as es
      in (if on then a # r else r, es))"

definition rotate_fdds :: "nat \<Rightarrow> nat list \<Rightarrow> nat list" where
  "rotate_fdds m xs = rev (take m xs) @ drop m xs"

text \<open>The bits of \<open>poll\<close> are those of epoll; \<open>select\<close> looks at the two sets it was given.\<close>

definition poll_look :: "(int \<Rightarrow> u32) \<Rightarrow> ev_fd \<Rightarrow> u32 \<times> bool" where
  "poll_look revents f =
     (let rv = revents (fdd_fd f)
      in (if rv \<noteq> 0 then (if rv AND (EPOLLIN OR EPOLLHUP OR EPOLLERR) \<noteq> 0 then EV_READ else 0) OR
            (if rv AND EPOLLOUT \<noteq> 0 then EV_WRITE else 0) else 0, rv \<noteq> 0))"

definition select_look :: "(int \<Rightarrow> u32) \<Rightarrow> ev_fd \<Rightarrow> u32 \<times> bool" where
  "select_look revents f =
     (let ev = revents (fdd_fd f) AND fdd_events f AND (EV_READ OR EV_WRITE) in (ev, ev \<noteq> 0))"

definition eventpoll_wait ::
  "evset \<Rightarrow> nat \<Rightarrow> (nat \<times> u32) list \<Rightarrow> (int \<Rightarrow> u32) option \<Rightarrow> nat list \<times> evset" where
  "eventpoll_wait es mx answer revents =
     (case ev_backend es of
        Epoll \<Rightarrow> epoll_collect (take (min mx EV_MAXEVENTS) answer) es
      | Poll \<Rightarrow>
          let m = min mx EV_MAXEVENTS; polled = take m (fdds es);
              es = es\<lparr>fdds := rotate_fdds m (fdds es)\<rparr>
          in (case revents of None \<Rightarrow> ([], es) | Some rv \<Rightarrow> poll_collect (poll_look rv) polled es)
      | Select \<Rightarrow>
          let m = min mx (nat FD_SETSIZE); polled = take m (fdds es);
              es = es\<lparr>fdds := rotate_fdds m (fdds es)\<rparr>
          in (case revents of None \<Rightarrow> ([], es) | Some rv \<Rightarrow> poll_collect (select_look rv) polled es))"

definition eventpoll_term :: "evset \<Rightarrow> evset" where
  "eventpoll_term es = fold unlist_fdd (fdds es) es"

section \<open>The descriptor set\<close>

definition ev_fdset_add :: "evset \<Rightarrow> nat \<Rightarrow> ctl_res" where
  "ev_fdset_add es a =
     cbind (eventpoll_ctl (upd_fd a (\<lambda>f. f\<lparr>fdd_fd := ev_fdno f, fdd_events := ev_events f\<rparr>) es) EV_ADD a)
       (\<lambda>(rc, es). Ok (rc, if rc = None then es\<lparr>fd_size := fd_size es + 1\<rparr> else es))"

definition ev_fdset_rm :: "evset \<Rightarrow> nat \<Rightarrow> ctl_res" where
  "ev_fdset_rm es a =
     cbind (eventpoll_ctl es EV_DEL a)
       (\<lambda>(rc, es). Ok (rc, if rc = None then es\<lparr>fd_size := fd_size es - 1\<rparr> else es))"

definition ev_fdset_mod :: "evset \<Rightarrow> nat \<Rightarrow> ctl_res" where
  "ev_fdset_mod es a =
     (let fd = fdd_fd (ev_store es a); events = fdd_events (ev_store es a)
      in cbind (eventpoll_ctl (upd_fd a (\<lambda>f. f\<lparr>fdd_fd := ev_fdno f, fdd_events := ev_events f\<rparr>) es) EV_MOD a)
           (\<lambda>(rc, es). Ok (rc, if rc \<noteq> None then upd_fd a (\<lambda>f. f\<lparr>fdd_fd := fd, fdd_events := events\<rparr>) es
                             else es)))"

text \<open>\<open>__ev_fdset_ctl\<close>, called in the loop's thread; \<open>ev_fdset_ctl\<close> hands the same operation to
  the loop and waits for its result.\<close>

definition ev_fdset_ctl :: "evset \<Rightarrow> int \<Rightarrow> nat \<Rightarrow> ctl_res" where
  "ev_fdset_ctl es op a =
     (if op = EV_ADD then ev_fdset_add es a
      else if op = EV_DEL then ev_fdset_rm es a
      else if op = EV_MOD then ev_fdset_mod es a
      else Ok (Some EINVAL, es))"

fun run_tasks :: "(int \<times> nat) list \<Rightarrow> evset \<Rightarrow> (errno option list \<times> evset) cres" where
  "run_tasks [] es = Ok ([], es)"
| "run_tasks ((op, a) # ts) es =
     cbind (ev_fdset_ctl es op a) (\<lambda>(rc, es).
       cbind (run_tasks ts es) (\<lambda>(rcs, es). Ok (rc # rcs, es)))"

text \<open>\<open>ev_fdset_poll\<close> up to the handlers: the results of the tasks, and the handlers to call
  with their events.\<close>

definition ev_fdset_poll ::
  "(int \<times> nat) list \<Rightarrow> evset \<Rightarrow> (nat \<times> u32) list \<Rightarrow> (int \<Rightarrow> u32) option \<Rightarrow>
   (errno option list \<times> (nat \<times> u32) list \<times> evset) cres" where
  "ev_fdset_poll tasks es answer revents =
     cbind (run_tasks tasks es) (\<lambda>(rcs, es).
       let (ready, es) = eventpoll_wait es EV_MAXEVENTS answer revents
       in Ok (rcs, map (\<lambda>a. (a, ready_events (ev_store es a))) ready, es))"

text \<open>\<open>ev_get_loop_lla\<close>: the index of the loop chosen, from the sizes of the loops.\<close>

fun lla_walk :: "int list \<Rightarrow> nat \<Rightarrow> nat \<Rightarrow> int \<Rightarrow> nat" where
  "lla_walk [] i best n = best"
| "lla_walk (x # xs) i best n = (if x < n then lla_walk xs (i + 1) i x else lla_walk xs (i + 1) best n)"

definition ev_get_loop_lla :: "int list \<Rightarrow> nat" where
  "ev_get_loop_lla sizes = lla_walk (tl sizes) 1 0 (hd sizes)"

section \<open>User signals\<close>

definition SIG_ATTACHED_MAGIC :: int where "SIG_ATTACHED_MAGIC = 711"
definition SIG_UNATTACHED_MAGIC :: int where "SIG_UNATTACHED_MAGIC = -522"

record ev_sig =
  is_attached :: int
  sig_efd :: efd
  signals :: bio

definition ev_sig_init :: "nat \<Rightarrow> ev_sig cres" where
  "ev_sig_init cap =
     cbind (efd_init True True True cap) (\<lambda>e.
       Ok \<lparr>is_attached = SIG_UNATTACHED_MAGIC, sig_efd = e, signals = bio_init\<rparr>)"

text \<open>\<open>ev_fdset_sighndl\<close> for the signal whose \<open>ev_fd\<close> is at \<open>a\<close>.\<close>

definition ev_fdset_sighndl :: "evset \<Rightarrow> ev_sig \<Rightarrow> nat \<Rightarrow> (errno option \<times> ev_sig \<times> evset) cres" where
  "ev_fdset_sighndl es sg a =
     (let sg = sg\<lparr>is_attached := SIG_ATTACHED_MAGIC\<rparr>
      in cbind (ev_fdset_ctl es EV_ADD a) (\<lambda>(rc, es).
           if rc = None \<and> \<not> linked (ev_store es a) then Bug else Ok (rc, sg, es)))"

definition ev_fdset_unsighndl :: "evset \<Rightarrow> nat \<Rightarrow> ctl_res" where
  "ev_fdset_unsighndl es a = ev_fdset_ctl es EV_DEL a"

text \<open>\<open>ev_signal\<close>: \<open>mem\<close> is the page budget of \<open>bio_write\<close>, \<open>fuel\<close> bounds the retries on the pipe.\<close>

definition ev_signal :: "nat \<Rightarrow> nat \<Rightarrow> ev_sig \<Rightarrow> i32 \<Rightarrow> ev_sig cres option" where
  "ev_signal mem fuel sg signo =
     map_option (\<lambda>r. cbind r (\<lambda>e.
         let (k, b) = bio_write mem (signals sg) (le32 signo)
         in if k \<noteq> 4 then Bug else Ok (sg\<lparr>sig_efd := e, signals := b\<rparr>)))
       (if bio_size (signals sg) = 0 then efd_signal fuel (sig_efd sg) 1 else Some (Ok (sig_efd sg)))"

fun ints_of :: "byte list \<Rightarrow> i32 list" where
  "ints_of (a # b # c # d # r) = of_le32 [a, b, c, d] # ints_of r"
| "ints_of _ = []"

definition ev_get_signals :: "ev_sig \<Rightarrow> nat \<Rightarrow> i32 list \<times> ev_sig" where
  "ev_get_signals sg n =
     (let ((k, d), b) = bio_read (signals sg) (4 * n)
      in (take (k div 4) (ints_of d), sg\<lparr>signals := b\<rparr>))"

text \<open>The draining loop of \<open>ev_unsignal\<close> asks for 1024 integers at a time.\<close>

fun unsignal_all :: "nat \<Rightarrow> efd \<Rightarrow> efd cres option" where
  "unsignal_all 0 e = None"
| "unsignal_all (Suc f) e =
     (case efd_unsignal2 (Suc (Suc f)) e 1024 of
        None \<Rightarrow> None
      | Some (Ok ((_, n), e')) \<Rightarrow> if n > 0 then unsignal_all f e' else Some (Ok e')
      | Some (Err x) \<Rightarrow> Some (Err x)
      | Some Bug \<Rightarrow> Some Bug
      | Some Undef \<Rightarrow> Some Undef)"

definition ev_unsignal :: "nat \<Rightarrow> ev_sig \<Rightarrow> ev_sig cres option" where
  "ev_unsignal fuel sg =
     (if bio_empty (signals sg)
      then map_option (\<lambda>r. cbind r (\<lambda>e. Ok (sg\<lparr>sig_efd := e\<rparr>))) (unsignal_all fuel (sig_efd sg))
      else map_option (\<lambda>r. cbind r (\<lambda>(_, e). Ok (sg\<lparr>sig_efd := e\<rparr>))) (efd_unsignal fuel (sig_efd sg)))"

section \<open>Invariant of the descriptor set\<close>

text \<open>An entry is listed once, exactly the listed ones are linked, and \<open>fd_size\<close> counts them.\<close>

definition evset_ok :: "evset \<Rightarrow> bool" where
  "evset_ok es \<longleftrightarrow> distinct (fdds es) \<and> (\<forall>a. linked (ev_store es a) \<longleftrightarrow> a \<in> set (fdds es)) \<and>
     fd_size es = int (length (fdds es))"

lemma upd_fd_sel [simp]:
  "fdds (upd_fd a f es) = fdds es" "fd_size (upd_fd a f es) = fd_size es"
  "ev_backend (upd_fd a f es) = ev_backend es" "ep_answers (upd_fd a f es) = ep_answers es"
  "ev_store (upd_fd a f es) b = (if b = a then f (ev_store es a) else ev_store es b)"
  by (simp_all add: upd_fd_def)

lemma epoll_ctl_sel:
  "epoll_ctl op f es = (rc, es') \<Longrightarrow> fdds es' = fdds es \<and> fd_size es' = fd_size es \<and>
    ev_store es' = ev_store es \<and> ev_backend es' = ev_backend es"
  by (auto simp: epoll_ctl_def Let_def split: list.splits)

lemma list_fdd_sel [simp]:
  "fdds (list_fdd a es) = fdds es @ [a]" "fd_size (list_fdd a es) = fd_size es"
  "linked (ev_store (list_fdd a es) b) = (b = a \<or> linked (ev_store es b))"
  "fdds (unlist_fdd a es) = remove1 a (fdds es)" "fd_size (unlist_fdd a es) = fd_size es"
  "linked (ev_store (unlist_fdd a es) b) = (b \<noteq> a \<and> linked (ev_store es b))"
  by (auto simp: list_fdd_def unlist_fdd_def)

text \<open>What an operation of the set does to the list: \<open>EV_ADD\<close> of an unlinked entry appends it,
  \<open>EV_DEL\<close> of a linked one removes it, \<open>EV_MOD\<close> keeps the list; a failed \<open>epoll_ctl\<close> changes nothing
  of it.\<close>

lemma eventpoll_ctl_spec:
  assumes "eventpoll_ctl es op a = Ok (rc, es')"
  shows "fd_size es' = fd_size es \<and>
    (if rc = None \<and> op = EV_ADD then \<not> linked (ev_store es a) \<and> fdds es' = fdds es @ [a] \<and>
        (\<forall>b. linked (ev_store es' b) = (b = a \<or> linked (ev_store es b)))
     else if rc = None \<and> op = EV_DEL then linked (ev_store es a) \<and> fdds es' = remove1 a (fdds es) \<and>
        (\<forall>b. linked (ev_store es' b) = (b \<noteq> a \<and> linked (ev_store es b)))
     else fdds es' = fdds es \<and> (\<forall>b. linked (ev_store es' b) = linked (ev_store es b)))"
  using assms
  by (auto simp: eventpoll_ctl_def eventpoll_add_def eventpoll_del_def eventpoll_mod_def Let_def
           split: if_splits backend.splits prod.splits dest: epoll_ctl_sel)

lemma ev_ops_neq [simp]: "EV_ADD \<noteq> EV_DEL" "EV_ADD \<noteq> EV_MOD" "EV_DEL \<noteq> EV_MOD"
  "EV_DEL \<noteq> EV_ADD" "EV_MOD \<noteq> EV_ADD" "EV_MOD \<noteq> EV_DEL"
  by (simp_all add: EV_ADD_def EV_DEL_def EV_MOD_def)

lemma ev_fdset_ctl_ok [invs]:
  assumes ok: "evset_ok es" and ctl: "ev_fdset_ctl es op a = Ok (rc, es')"
  shows "evset_ok es'"
proof -
  consider "op = EV_ADD" | "op = EV_DEL" | "op = EV_MOD" | "op \<notin> {EV_ADD, EV_DEL, EV_MOD}" by auto
  then show ?thesis
  proof cases
    case 1
    with ctl obtain es1 where c: "eventpoll_ctl (upd_fd a (\<lambda>f. f\<lparr>fdd_fd := ev_fdno f, fdd_events := ev_events f\<rparr>) es) EV_ADD a = Ok (rc, es1)"
      "es' = (if rc = None then es1\<lparr>fd_size := fd_size es1 + 1\<rparr> else es1)"
      by (auto simp: ev_fdset_ctl_def ev_fdset_add_def cbind_eq_Ok)
    from eventpoll_ctl_spec [OF c(1)] ok show ?thesis
      by (cases rc) (auto simp: c(2) evset_ok_def split: if_splits)
  next
    case 2
    with ctl obtain es1 where c: "eventpoll_ctl es EV_DEL a = Ok (rc, es1)"
      "es' = (if rc = None then es1\<lparr>fd_size := fd_size es1 - 1\<rparr> else es1)"
      by (auto simp: ev_fdset_ctl_def ev_fdset_rm_def cbind_eq_Ok)
    have "a \<in> set (fdds es) \<Longrightarrow> int (length (remove1 a (fdds es))) = int (length (fdds es)) - 1"
      by (cases "length (fdds es)") (auto simp: length_remove1)
    with eventpoll_ctl_spec [OF c(1)] ok show ?thesis
      by (cases rc) (auto simp: c(2) evset_ok_def)
  next
    case 3
    with ctl obtain es1 where c: "eventpoll_ctl (upd_fd a (\<lambda>f. f\<lparr>fdd_fd := ev_fdno f, fdd_events := ev_events f\<rparr>) es) EV_MOD a = Ok (rc, es1)"
      "fdds es' = fdds es1" "fd_size es' = fd_size es1" "\<forall>b. linked (ev_store es' b) = linked (ev_store es1 b)"
      by (auto simp: ev_fdset_ctl_def ev_fdset_mod_def cbind_eq_Ok Let_def split: if_splits)
    from eventpoll_ctl_spec [OF c(1)] ok c(2-4) show ?thesis
      by (auto simp: evset_ok_def split: if_splits)
  qed (use ctl ok in \<open>auto simp: ev_fdset_ctl_def\<close>)
qed

lemma collect_sel:
  "poll_collect look as es = (r, es') \<Longrightarrow> fdds es' = fdds es \<and> fd_size es' = fd_size es \<and>
     ev_backend es' = ev_backend es \<and> (\<forall>b. linked (ev_store es' b) = linked (ev_store es b)) \<and> set r \<subseteq> set as"
proof (induction as arbitrary: es r es')
  case (Cons a as)
  obtain ev on where l: "look (ev_store es a) = (ev, on)" by fastforce
  obtain r1 es1 where c: "poll_collect look as (upd_fd a (\<lambda>f. f\<lparr>ready_events := ev\<rparr>) es) = (r1, es1)"
    by fastforce
  have "r = (if on then a # r1 else r1)" "es' = es1" using Cons.prems l c by auto
  with Cons.IH [OF c] show ?case by auto
qed simp

lemma set_rotate [simp]: "set (rotate_fdds m xs) = set xs"
  unfolding rotate_fdds_def by (metis append_take_drop_id set_append set_rev)

lemma rotate_props [simp]:
  "distinct (rotate_fdds m xs) = distinct xs" "length (rotate_fdds m xs) = length xs"
  "take m (rotate_fdds m xs) = rev (take m xs)" "drop m (rotate_fdds m xs) = drop m xs"
proof -
  show "distinct (rotate_fdds m xs) = distinct xs"
    unfolding rotate_fdds_def
    by (metis append_take_drop_id distinct_append distinct_rev set_rev)
qed (auto simp: rotate_fdds_def min_def)

lemma eventpoll_wait_poll:
  assumes "ev_backend es = Poll" "eventpoll_wait es mx answer rv = (r, es')"
  shows "fdds es' = rotate_fdds (min mx EV_MAXEVENTS) (fdds es) \<and> ev_backend es' = Poll \<and>
    fd_size es' = fd_size es \<and> (\<forall>b. linked (ev_store es' b) = linked (ev_store es b)) \<and>
    set r \<subseteq> set (take (min mx EV_MAXEVENTS) (fdds es))"
  using assms
  by (auto simp: eventpoll_wait_def Let_def split: option.splits dest!: collect_sel)

section \<open>Signals are not lost\<close>

lemma ints_of_le32 [simp]: "ints_of (le32 s @ r) = s # ints_of r"
proof -
  have "le32 s = [ucast s, ucast (drop_bit 8 s), ucast (drop_bit 16 s), ucast (drop_bit 24 s)]"
    by (simp add: le32_def)
  then show ?thesis using of_le32_append [of s "[]"] by simp
qed

definition le32s :: "i32 list \<Rightarrow> byte list" where
  "le32s ss = concat (map le32 ss)"

lemma le32s_simps [simp]: "le32s [] = []" "le32s (s # ss) = le32 s @ le32s ss" "le32s (ss @ ts) = le32s ss @ le32s ts"
  by (simp_all add: le32s_def)

lemma length_le32s [simp]: "length (le32s ss) = 4 * length ss"
  by (induction ss) simp_all

lemma ints_of_le32s [simp]: "ints_of (le32s ss) = ss"
  by (induction ss) simp_all

text \<open>A state of the signal with the thread of its loop: the loop sleeps in \<open>eventpoll_wait\<close>, is in
  the loop of \<open>ev_sigfd_hndl\<close>, or is about to call \<open>ev_unsignal\<close>.\<close>

datatype sig_pc = Sleeping | Handling | Unsignalling

record sig_state =
  ss_sig :: ev_sig
  ss_pc :: sig_pc
  ss_sent :: "i32 list"
  ss_delivered :: "i32 list"

text \<open>Other threads signal at any time. The loop wakes up when the pipe can be read, takes
  one signal per round and hands it to the handler, and unsignals when it found none.\<close>

inductive sig_step :: "nat \<Rightarrow> nat \<Rightarrow> sig_state \<Rightarrow> sig_state \<Rightarrow> bool" for mem fuel where
  signal: "ev_signal mem fuel (ss_sig s) x = Some (Ok sg) \<Longrightarrow>
    sig_step mem fuel s (s\<lparr>ss_sig := sg, ss_sent := ss_sent s @ [x]\<rparr>)"
| wake: "ss_pc s = Sleeping \<Longrightarrow> p_buf (sig_efd (ss_sig s)) \<noteq> [] \<Longrightarrow>
    sig_step mem fuel s (s\<lparr>ss_pc := Handling\<rparr>)"
| take_one: "ss_pc s = Handling \<Longrightarrow> ev_get_signals (ss_sig s) 1 = ([x], sg) \<Longrightarrow>
    sig_step mem fuel s (s\<lparr>ss_sig := sg, ss_delivered := ss_delivered s @ [x]\<rparr>)"
| take_none: "ss_pc s = Handling \<Longrightarrow> ev_get_signals (ss_sig s) 1 = ([], sg) \<Longrightarrow>
    sig_step mem fuel s (s\<lparr>ss_sig := sg, ss_pc := Unsignalling\<rparr>)"
| unsignal: "ss_pc s = Unsignalling \<Longrightarrow> ev_unsignal fuel (ss_sig s) = Some (Ok sg) \<Longrightarrow>
    sig_step mem fuel s (s\<lparr>ss_sig := sg, ss_pc := Sleeping\<rparr>)"

inductive sig_reach :: "nat \<Rightarrow> nat \<Rightarrow> sig_state \<Rightarrow> sig_state \<Rightarrow> bool" for mem fuel where
  refl: "sig_reach mem fuel s s"
| step: "sig_reach mem fuel s t \<Longrightarrow> sig_step mem fuel t u \<Longrightarrow> sig_reach mem fuel s u"

definition sig_start :: "ev_sig \<Rightarrow> sig_state" where
  "sig_start sg = \<lparr>ss_sig = sg, ss_pc = Sleeping, ss_sent = [], ss_delivered = []\<rparr>"

definition pending :: "ev_sig \<Rightarrow> i32 list" where
  "pending sg = ints_of (bio_bytes (signals sg))"

definition sig_ok :: "ev_sig \<Rightarrow> bool" where
  "sig_ok sg \<longleftrightarrow> bio_ok (signals sg) \<and> bio_bytes (signals sg) = le32s (pending sg) \<and> efd_ok (sig_efd sg)"

text \<open>While a signal is pending the pipe is not empty; a running loop has at least one integer in
  the pipe, and two when signals came after its last round.\<close>

definition sig_inv :: "sig_state \<Rightarrow> bool" where
  "sig_inv s \<longleftrightarrow> sig_ok (ss_sig s) \<and> ss_sent s = ss_delivered s @ pending (ss_sig s) \<and>
     (let n = length (p_buf (sig_efd (ss_sig s))); waiting = pending (ss_sig s) \<noteq> []
      in case ss_pc s of
           Sleeping \<Rightarrow> waiting \<longrightarrow> 4 \<le> n
         | Handling \<Rightarrow> 4 \<le> n
         | Unsignalling \<Rightarrow> 4 \<le> n \<and> (waiting \<longrightarrow> 8 \<le> n))"

lemma efd_signal_loop_Some:
  "efd_signal_loop f e bs = Some e' \<Longrightarrow> p_buf e' = p_buf e @ bs \<and> p_cap e' = p_cap e \<and>
     unsignal_size e' = unsignal_size e"
proof (induction f e bs rule: efd_signal_loop.induct)
  case (2 n e bs)
  show ?case
  proof (cases "bs = []")
    case False
    then show ?thesis
      using 2 by (auto simp: pipe_write_def split: if_splits)
  qed (use 2 in simp)
qed (simp split: if_splits)

lemma efd_signal_Some:
  assumes "efd_ok e" "efd_signal fuel e 1 = Some (Ok e')"
  shows "efd_ok e' \<and> p_buf e' = p_buf e @ le32 1"
proof -
  from assms(2) obtain e1 where e1: "efd_signal_loop fuel e (le32 1) = Some e1"
    "e' = e1\<lparr>unsignal_size := unsignal_size e1 + 4\<rparr>"
    by (auto simp: efd_signal_def split: if_splits)
  from efd_signal_loop_Some [OF e1(1)] assms(1) show ?thesis
    by (simp add: e1(2) efd_ok_def mod_add_left_eq [symmetric])
qed

lemma ev_signal_ok [invs]:
  assumes ok: "sig_ok sg" and sg: "ev_signal mem fuel sg x = Some (Ok sg')"
  shows "sig_ok sg'" "pending sg' = pending sg @ [x]"
    "p_buf (sig_efd sg') = p_buf (sig_efd sg) @ (if pending sg = [] then le32 1 else [])"
proof -
  obtain k b where wr0: "bio_write mem (signals sg) (le32 x) = (k, b)" by fastforce
  with sg obtain e where e:
    "(if bio_size (signals sg) = 0 then efd_signal fuel (sig_efd sg) 1 else Some (Ok (sig_efd sg))) = Some (Ok e)"
    and w: "k = 4" "sg' = sg\<lparr>sig_efd := e, signals := b\<rparr>"
    unfolding ev_signal_def by (cases "k = 4") (auto simp: cbind_eq_Ok)
  note w = wr0 w
  have b: "bio_ok (signals sg)" "bio_bytes (signals sg) = le32s (pending sg)" "efd_ok (sig_efd sg)"
    using ok by (auto simp: sig_ok_def)
  have z: "bio_size (signals sg) = 0 \<longleftrightarrow> pending sg = []"
    using b(1,2) by (simp add: bio_size_def bio_ok_def)
  have e2: "efd_ok e \<and> p_buf e = p_buf (sig_efd sg) @ (if pending sg = [] then le32 1 else [])"
    using e efd_signal_Some [OF b(3)] b(3) unfolding z by (auto split: if_splits)
  note wr = bio_write_bytes [OF b(1) w(1)]
  have by2: "bio_bytes b = le32s (pending sg @ [x])" using wr(2) w(2) b(2) by simp
  then show p: "pending sg' = pending sg @ [x]" by (simp add: pending_def w(3) del: le32s_simps)
  show "sig_ok sg'" using wr(3) by2 e2 p by (simp add: sig_ok_def w(3))
  show "p_buf (sig_efd sg') = p_buf (sig_efd sg) @ (if pending sg = [] then le32 1 else [])"
    using e2 by (simp add: w(3))
qed

lemma ev_get_signals_ok [invs]:
  assumes ok: "sig_ok sg" and g: "ev_get_signals sg 1 = (xs, sg')"
  shows "sig_ok sg'" "xs = take 1 (pending sg)" "pending sg' = drop 1 (pending sg)" "sig_efd sg' = sig_efd sg"
proof -
  obtain k d b where r: "bio_read (signals sg) 4 = ((k, d), b)" by (metis prod.collapse)
  with g have g': "xs = take (k div 4) (ints_of d)" "sg' = sg\<lparr>signals := b\<rparr>"
    by (auto simp: ev_get_signals_def)
  have b: "bio_ok (signals sg)" "bio_bytes (signals sg) = le32s (pending sg)" "efd_ok (sig_efd sg)"
    using ok by (auto simp: sig_ok_def)
  note rd = bio_read_bytes [OF b(1) r]
  have tk: "take 4 (le32s ss) = le32s (take 1 ss)" "drop 4 (le32s ss) = le32s (drop 1 ss)" for ss
    by (cases ss; simp)+
  show p: "pending sg' = drop 1 (pending sg)"
    using rd(3) unfolding b(2) tk by (simp add: pending_def g'(2))
  have "k = 4 * min 1 (length (pending sg))" using rd(1) unfolding b(2) by simp
  moreover have "ints_of d = take 1 (pending sg)" using rd(2) unfolding b(2) tk by simp
  ultimately show "xs = take 1 (pending sg)" by (cases "pending sg") (simp_all add: g'(1))
  show "sig_ok sg'" using rd(3,4) b p unfolding b(2) tk by (simp add: sig_ok_def g'(2))
  show "sig_efd sg' = sig_efd sg" by (simp add: g'(2))
qed

lemma efd_unsignal2_Some:
  assumes "efd_ok e" "2 \<le> fuel" "efd_unsignal2 fuel e n = Some (Ok (r, e'))"
  shows "efd_ok e' \<and> p_buf e' = drop (4 * n) (p_buf e)"
  using efd_unsignal2_ok [OF assms(1,2), of n] assms(3) by auto

lemma unsignal_all_Some:
  "efd_ok e \<Longrightarrow> unsignal_all f e = Some (Ok e') \<Longrightarrow> efd_ok e'"
proof (induction f e rule: unsignal_all.induct)
  case (2 f e)
  obtain e1 where e1: "efd_unsignal2 (Suc (Suc f)) e 1024 =
      Some (Ok ((take (4 * 1024) (p_buf e), min 1024 (length (p_buf e) div 4)), e1))" "efd_ok e1"
    using efd_unsignal2_ok [OF 2(2), of "Suc (Suc f)" 1024] by auto
  with 2 show ?case by (auto split: if_splits)
qed simp

lemma ev_unsignal_ok [invs]:
  assumes ok: "sig_ok sg" and u: "ev_unsignal fuel sg = Some (Ok sg')" and "2 \<le> fuel"
  shows "sig_ok sg'" "pending sg' = pending sg"
    "pending sg \<noteq> [] \<Longrightarrow> p_buf (sig_efd sg') = drop 4 (p_buf (sig_efd sg))"
proof -
  have b: "bio_ok (signals sg)" "bio_bytes (signals sg) = le32s (pending sg)" "efd_ok (sig_efd sg)"
    using ok by (auto simp: sig_ok_def)
  have z: "bio_empty (signals sg) \<longleftrightarrow> pending sg = []"
    using b(1,2) by (simp add: bio_empty_def bio_ok_def)
  obtain e where e: "sg' = sg\<lparr>sig_efd := e\<rparr>" "efd_ok e"
    "pending sg \<noteq> [] \<longrightarrow> p_buf e = drop 4 (p_buf (sig_efd sg))"
  proof (cases "pending sg = []")
    case True
    with u unsignal_all_Some [OF b(3)] show ?thesis
      by (auto simp: ev_unsignal_def z cbind_eq_Ok intro: that)
  next
    case False
    with u efd_unsignal_ok [OF b(3) assms(3)] show ?thesis
      by (auto simp: ev_unsignal_def z cbind_eq_Ok intro: that)
  qed
  have p: "pending sg' = pending sg" by (simp add: e(1) pending_def)
  then show "pending sg' = pending sg" .
  show "sig_ok sg'" using b e(2) p by (simp add: sig_ok_def e(1))
  show "pending sg \<noteq> [] \<Longrightarrow> p_buf (sig_efd sg') = drop 4 (p_buf (sig_efd sg))" using e(3) by (simp add: e(1))
qed

lemma sig_step_inv:
  assumes "sig_step mem fuel s t" "sig_inv s" "2 \<le> fuel"
  shows "sig_inv t"
  using assms(1,2)
proof (induction rule: sig_step.induct)
  case (signal s x sg)
  then have ok: "sig_ok (ss_sig s)" by (simp add: sig_inv_def)
  from ev_signal_ok [OF ok signal(1)] signal(2) show ?case
    by (cases "ss_pc s") (auto simp: sig_inv_def Let_def)
next
  case (wake s)
  then have "4 dvd length (p_buf (sig_efd (ss_sig s)))"
    by (simp add: sig_inv_def sig_ok_def efd_ok_def mod_eq_0_iff_dvd)
  then have "4 \<le> length (p_buf (sig_efd (ss_sig s)))"
    using wake(2) by (intro dvd_imp_le) simp_all
  with wake show ?case by (auto simp: sig_inv_def Let_def)
next
  case (take_one s x sg)
  then have ok: "sig_ok (ss_sig s)" by (simp add: sig_inv_def)
  from ev_get_signals_ok [OF ok take_one(2)] take_one(1,3) show ?case
    by (cases "pending (ss_sig s)") (auto simp: sig_inv_def Let_def)
next
  case (take_none s sg)
  then have ok: "sig_ok (ss_sig s)" by (simp add: sig_inv_def)
  from ev_get_signals_ok [OF ok take_none(2)] take_none(1,3) show ?case
    by (cases "pending (ss_sig s)") (auto simp: sig_inv_def Let_def)
next
  case (unsignal s sg)
  then have ok: "sig_ok (ss_sig s)" by (simp add: sig_inv_def)
  from ev_unsignal_ok [OF ok unsignal(2) assms(3)] unsignal(1,3) show ?case
    by (auto simp: sig_inv_def Let_def)
qed

lemma sig_reach_inv: "sig_reach mem fuel s t \<Longrightarrow> sig_inv s \<Longrightarrow> 2 \<le> fuel \<Longrightarrow> sig_inv t"
  by (induction rule: sig_reach.induct) (auto intro: sig_step_inv)

lemma sig_start_inv: "ev_sig_init cap = Ok sg \<Longrightarrow> sig_inv (sig_start sg)"
  by (auto simp: ev_sig_init_def efd_init_def sig_start_def sig_inv_def sig_ok_def pending_def efd_ok_def)

section \<open>Properties\<close>

text \<open>C20. User signals are neither lost nor reordered: whatever the interleaving of the threads
  that signal with the rounds of the event loop, the signals sent are those delivered followed by
  those pending, and while one is pending a sleeping loop has a readable pipe to wake it up.\<close>

theorem ev_signals_not_lost:
  assumes "ev_sig_init cap = Ok sg" "sig_reach mem fuel (sig_start sg) s" "2 \<le> fuel"
  shows "ss_sent s = ss_delivered s @ pending (ss_sig s) \<and>
    (ss_pc s = Sleeping \<and> ss_delivered s \<noteq> ss_sent s \<longrightarrow> p_buf (sig_efd (ss_sig s)) \<noteq> [])"
proof -
  have "sig_inv s" by (rule sig_reach_inv [OF assms(2) sig_start_inv [OF assms(1)] assms(3)])
  then show ?thesis by (auto simp: sig_inv_def Let_def)
qed

theorem ev_signals_not_lost_witness:
  "\<exists>sg s. ev_sig_init 64 = Ok sg \<and> sig_reach 1 2 (sig_start sg) s \<and> ss_sent s = [7] \<and>
     pending (ss_sig s) = [7] \<and> p_buf (sig_efd (ss_sig s)) \<noteq> []"
proof -
  define sg where "sg = \<lparr>is_attached = SIG_UNATTACHED_MAGIC,
      sig_efd = \<lparr>p_cap = 64, p_buf = [], unsignal_size = 0\<rparr>, signals = bio_init\<rparr>"
  have i: "ev_sig_init 64 = Ok sg" by (simp add: ev_sig_init_def efd_init_def sg_def)
  obtain k b where w: "bio_write 1 bio_init (le32 7) = (k, b)" by fastforce
  have "k = 4" using bio_write_complete [of bio_init "le32 7" 1] w by (simp add: PAGE_SIZE_def)
  moreover obtain e where "efd_signal 2 (sig_efd sg) 1 = Some (Ok e)"
    using efd_signal_ok [of "sig_efd sg" 1 2] by (auto simp: sg_def efd_ok_def)
  moreover have "bio_size (signals sg) = 0" "signals sg = bio_init" by (simp_all add: sg_def bio_size_def bio_init_def)
  ultimately obtain sg' where "ev_signal 1 2 sg 7 = Some (Ok sg')"
    using w by (auto simp: ev_signal_def)
  then have s: "sig_step 1 2 (sig_start sg) (sig_start sg\<lparr>ss_sig := sg', ss_sent := [7]\<rparr>)"
    using sig_step.signal [of 1 2 "sig_start sg" 7 sg'] by (simp add: sig_start_def)
  then have r: "sig_reach 1 2 (sig_start sg) (sig_start sg\<lparr>ss_sig := sg', ss_sent := [7]\<rparr>)"
    by (rule sig_reach.step [OF sig_reach.refl])
  from ev_signals_not_lost [OF i r] i r show ?thesis
    by (intro exI [of _ sg] exI [of _ "sig_start sg\<lparr>ss_sig := sg', ss_sent := [7]\<rparr>"]) (simp add: sig_start_def)
qed

fun poll_rounds :: "evset \<Rightarrow> (int \<Rightarrow> u32) option list \<Rightarrow> nat list list \<times> evset" where
  "poll_rounds es [] = ([], es)"
| "poll_rounds es (rv # rvs) =
     (let (r, es') = eventpoll_wait es EV_MAXEVENTS [] rv; (rs, es'') = poll_rounds es' rvs
      in (r # rs, es''))"

text \<open>The back end over \<open>poll\<close> starves: in every round it looks at the same hundred
  descriptors, because the ones looked at go back to the front of the list; whatever is ready,
  an entry behind the first hundred is never reported.\<close>

theorem eventpoll_wait_starves:
  assumes "ev_backend es = Poll" "poll_rounds es rvs = (rs, es')" "r \<in> set rs"
  shows "set r \<subseteq> set (take EV_MAXEVENTS (fdds es))"
  using assms
proof (induction rvs arbitrary: es rs es')
  case (Cons rv rvs)
  obtain r1 es1 where w: "eventpoll_wait es EV_MAXEVENTS [] rv = (r1, es1)" by fastforce
  obtain rs2 es2 where p: "poll_rounds es1 rvs = (rs2, es2)" by fastforce
  have rs: "rs = r1 # rs2" using Cons.prems(2) w p by simp
  note e = eventpoll_wait_poll [OF Cons.prems(1) w]
  have b: "ev_backend es1 = Poll" using e by simp
  have t: "set (take EV_MAXEVENTS (fdds es1)) = set (take EV_MAXEVENTS (fdds es))" using e by simp
  show ?case
  proof (cases "r = r1")
    case False
    with Cons.prems(3) rs have "r \<in> set rs2" by simp
    from Cons.IH [OF b p this] t show ?thesis by simp
  qed (use e in simp)
qed simp

theorem eventpoll_wait_starves_witness:
  "set (hd (fst (poll_rounds \<lparr>ev_backend = Poll, fdds = [3], fd_size = 1,
       ev_store = (\<lambda>_. fdd_init\<lparr>fdd_events := 1, linked := True\<rparr>), ep_answers = [], ep_calls = []\<rparr>
       [Some (\<lambda>_. 1)]))) = {3}"
proof -
  let ?es = "\<lparr>ev_backend = Poll, fdds = [3], fd_size = 1,
       ev_store = (\<lambda>_. fdd_init\<lparr>fdd_events := 1, linked := True\<rparr>), ep_answers = [], ep_calls = []\<rparr>"
  obtain es' where p: "poll_rounds ?es [Some (\<lambda>_. 1)] = ([[3]], es')"
    by (simp add: eventpoll_wait_def EV_MAXEVENTS_def poll_look_def)
  from eventpoll_wait_starves [OF _ this, of "[3]"] p show ?thesis by simp
qed

end
