(* ===== verification/Sio.thy ===== *)
theory Sio
  imports SockOpt Ev
begin

text \<open>
  The TCP and IPC sockets, \<^verbatim>\<open>src/src/socket/sio/sio.c\<close> and \<^verbatim>\<open>sio_listener.c\<close>. The state of an
  operation is one \<open>struct sio\<close>, the event loop it is registered with, the kernel, and the log of
  what was done to other objects. \<open>None\<close> is a loop that outruns its fuel.
\<close>

section \<open>State\<close>

record sio =
  base :: sockbase
  sg :: ev_sig
  et :: nat
  sig_et :: nat
  rs :: rex_sock
  rbuf :: bio
  binded :: bool
  send_lock :: bool

record sio_st =
  io :: sio
  el :: evset
  krn :: kern
  log :: "sock_out list"

text \<open>What the environment grants: pages for a \<open>bio\<close>, blocks of memory, retries on a pipe.\<close>

record grants =
  mem :: nat
  alloc :: "nat \<Rightarrow> bool"
  fuel :: nat

type_synonym 'a sio_res = "('a \<times> sio_st) cres option"

definition obind :: "'a cres option \<Rightarrow> ('a \<Rightarrow> 'b cres option) \<Rightarrow> 'b cres option" where
  "obind r f =
     (case r of
        None \<Rightarrow> None
      | Some (Ok x) \<Rightarrow> f x
      | Some (Err e) \<Rightarrow> Some (Err e)
      | Some Bug \<Rightarrow> Some Bug
      | Some Undef \<Rightarrow> Some Undef)"

lemma obind_simps [simp]:
  "obind None f = None" "obind (Some (Ok x)) f = f x" "obind (Some (Err e)) f = Some (Err e)"
  "obind (Some Bug) f = Some Bug" "obind (Some Undef) f = Some Undef"
  by (simp_all add: obind_def)

lemma obind_eq_Ok: "obind r f = Some (Ok y) \<longleftrightarrow> (\<exists>x. r = Some (Ok x) \<and> f x = Some (Ok y))"
  by (auto simp: obind_def split: option.splits cres.splits)

definition EV_SNDBUF_ADD :: i32 where "EV_SNDBUF_ADD = 0x001"
definition EV_RCVBUF_FULL :: i32 where "EV_RCVBUF_FULL = 0x110"
definition EV_RCVBUF_NONFULL :: i32 where "EV_RCVBUF_NONFULL = 0x120"

section \<open>Registration with the event loop\<close>

definition et_events :: "sio_st \<Rightarrow> u32" where
  "et_events st = ev_events (ev_store (el st) (et (io st)))"

definition set_events :: "u32 \<Rightarrow> sio_st \<Rightarrow> evset" where
  "set_events ev st = upd_fd (et (io st)) (\<lambda>f. f\<lparr>ev_events := ev\<rparr>) (el st)"

text \<open>Storing new events and the \<open>EV_MOD\<close> whose failure is a \<open>BUG_ON\<close>.\<close>

definition mod_events :: "u32 \<Rightarrow> sio_st \<Rightarrow> sio_st cres" where
  "mod_events ev st =
     cbind (ev_fdset_ctl (set_events ev st) EV_MOD (et (io st))) (\<lambda>(rc, es).
       if rc \<noteq> None then Bug else Ok (st\<lparr>el := es\<rparr>))"

definition try_disable_ev_read :: "sio_st \<Rightarrow> sio_st cres" where
  "try_disable_ev_read st =
     (if et_events st AND EV_READ \<noteq> 0 then mod_events (et_events st AND NOT EV_READ) st else Ok st)"

definition try_enable_ev_read :: "sio_st \<Rightarrow> sio_st cres" where
  "try_enable_ev_read st =
     (if et_events st AND EV_READ = 0 then mod_events (et_events st OR EV_READ) st else Ok st)"

definition try_disable_ev_write :: "sio_st \<Rightarrow> sio_st cres" where
  "try_disable_ev_write st =
     (if et_events st AND EV_WRITE \<noteq> 0 then mod_events (et_events st AND NOT EV_WRITE) st else Ok st)"

definition try_enable_ev_write :: "sio_st \<Rightarrow> sio_st cres" where
  "try_enable_ev_write st =
     (if et_events st AND EV_WRITE = 0 then mod_events (et_events st OR EV_WRITE) st else Ok st)"

definition upd_io :: "(sio \<Rightarrow> sio) \<Rightarrow> sio_st \<Rightarrow> sio_st" where
  "upd_io f st = st\<lparr>io := f (io st)\<rparr>"

definition set_base :: "sockbase \<Rightarrow> sio_st \<Rightarrow> sio_st" where
  "set_base sb = upd_io (\<lambda>t. t\<lparr>base := sb\<rparr>)"

section \<open>Callbacks of the message queues\<close>

definition tcps_sndhead_vfptr :: "mb_event \<Rightarrow> bool" where
  "tcps_sndhead_vfptr e \<longleftrightarrow> e = EvAdd"

definition tcps_rcvhead_vfptr :: "mb_event \<Rightarrow> bool" where
  "tcps_rcvhead_vfptr e \<longleftrightarrow> e = EvFull \<or> e = EvNonfull"

definition usignal :: "grants \<Rightarrow> i32 \<Rightarrow> sio_st \<Rightarrow> sio_st cres option" where
  "usignal g ev st =
     map_option (\<lambda>r. cbind r (\<lambda>s. Ok (upd_io (\<lambda>t. t\<lparr>sg := s\<rparr>) st)))
       (ev_signal (mem g) (fuel g) (sg (io st)) ev)"

definition sndhead_add_ev_usignal :: "grants \<Rightarrow> sio_st \<Rightarrow> sio_st cres option" where
  "sndhead_add_ev_usignal g st =
     (if \<not> send_lock (io st) \<and> et_events st AND EV_WRITE = 0 then usignal g EV_SNDBUF_ADD st
      else Some (Ok st))"

text \<open>The outputs of an operation on the socket: its callbacks are run, the rest is logged.\<close>

fun run_outs :: "grants \<Rightarrow> sock_out list \<Rightarrow> sio_st \<Rightarrow> sio_st cres option" where
  "run_outs g [] st = Some (Ok st)"
| "run_outs g (RcvEv e # outs) st =
     obind (if e = EvFull then usignal g EV_RCVBUF_FULL st
            else if e = EvNonfull then usignal g EV_RCVBUF_NONFULL st
            else Some (Ok st)) (run_outs g outs)"
| "run_outs g (SndEv e # outs) st =
     obind (if e = EvAdd then sndhead_add_ev_usignal g st else Some (Ok st)) (run_outs g outs)"
| "run_outs g (out # outs) st = run_outs g outs (st\<lparr>log := log st @ [out]\<rparr>)"

definition on_base :: "grants \<Rightarrow> (sockbase \<Rightarrow> 'a sock_res) \<Rightarrow> sio_st \<Rightarrow> 'a sio_res" where
  "on_base g f st =
     obind (Some (f (base (io st)))) (\<lambda>(x, outs, sb).
       obind (run_outs g outs (set_base sb st)) (\<lambda>st. Some (Ok (x, st))))"

section \<open>Opening and connecting\<close>

definition salloc :: "nat \<Rightarrow> vfptr \<Rightarrow> nat \<Rightarrow> nat \<Rightarrow> rex_sock \<Rightarrow> sio cres" where
  "salloc cap v a b r =
     cbind (ev_sig_init cap) (\<lambda>s.
       let sb = sockbase_init v
       in Ok \<lparr>base = sb\<lparr>rcv := msgbuf_head_ev_hndl (rcv sb) (Some tcps_rcvhead_vfptr),
                        snd := msgbuf_head_ev_hndl (snd sb) (Some tcps_sndhead_vfptr)\<rparr>,
              sg = s, et = a, sig_et = b, rs = r, rbuf = bio_init, binded = False, send_lock = False\<rparr>)"

definition tcp_open :: "nat \<Rightarrow> vfptr \<Rightarrow> nat \<Rightarrow> nat \<Rightarrow> rex_sock \<Rightarrow> sio cres" where
  "tcp_open cap v a b r = cbind (salloc cap v a b r) (\<lambda>t.
     case rex_sock_init (rs t) REX_AF_TCP of Ok r \<Rightarrow> Ok (t\<lparr>rs := r\<rparr>) | _ \<Rightarrow> Ok t)"

definition ipc_open :: "nat \<Rightarrow> vfptr \<Rightarrow> nat \<Rightarrow> nat \<Rightarrow> rex_sock \<Rightarrow> sio cres" where
  "ipc_open cap v a b r = cbind (salloc cap v a b r) (\<lambda>t.
     case rex_sock_init (rs t) REX_AF_LOCAL of Ok r \<Rightarrow> Ok (t\<lparr>rs := r\<rparr>) | _ \<Rightarrow> Ok t)"

text \<open>\<open>sio_init\<close>: option 4 of the rex sockets is \<open>REX_SO_NOBLOCK\<close>.\<close>

definition REX_SO_NOBLOCK :: int where "REX_SO_NOBLOCK = 4"

definition init_et :: "sio_st \<Rightarrow> evset" where
  "init_et st = upd_fd (et (io st)) (\<lambda>f. f\<lparr>ev_events := EV_READ, ev_fdno := ss_fd (rs (io st))\<rparr>) (el st)"

definition sio_init :: "sio_st \<Rightarrow> sio_st cres" where
  "sio_init st =
     cbind (rex_sock_setopt (rs (io st)) REX_SO_NOBLOCK 1 (krn st)) (\<lambda>(_, k).
       Ok (upd_io (\<lambda>t. t\<lparr>binded := False\<rparr>) (st\<lparr>krn := k, el := init_et st\<rparr>)))"

definition must_ctl :: "int \<Rightarrow> nat \<Rightarrow> sio_st \<Rightarrow> sio_st cres" where
  "must_ctl op a st =
     cbind (ev_fdset_ctl (el st) op a) (\<lambda>(rc, es). if rc \<noteq> None then Bug else Ok (st\<lparr>el := es\<rparr>))"

definition must_sighndl :: "sio_st \<Rightarrow> sio_st cres" where
  "must_sighndl st =
     cbind (ev_fdset_sighndl (el st) (sg (io st)) (sig_et (io st))) (\<lambda>(rc, s, es).
       if rc \<noteq> None then Bug else Ok (upd_io (\<lambda>t. t\<lparr>sg := s\<rparr>) (st\<lparr>el := es\<rparr>)))"

text \<open>\<open>sio_connector_bind\<close>: \<open>Inl\<close> the errno of a failed connect.\<close>

definition sio_connector_bind :: "string \<Rightarrow> sio_st \<Rightarrow> ((errno + unit) \<times> sio_st) cres" where
  "sio_connector_bind sock st =
     cbind (rex_sock_connect (rs (io st)) sock (krn st)) (\<lambda>(r, k).
       case r of
         Inl e \<Rightarrow> Ok (Inl e, st\<lparr>krn := k\<rparr>)
       | Inr r \<Rightarrow>
           let st = upd_io (\<lambda>t. t\<lparr>rs := r, base := (base t)\<lparr>sb_peer := sock\<rparr>\<rparr>) (st\<lparr>krn := k\<rparr>)
           in cbind (sio_init st) (\<lambda>st.
                cbind (must_ctl EV_ADD (et (io st)) st) (\<lambda>st.
                  cbind (must_sighndl st) (\<lambda>st. Ok (Inr (), upd_io (\<lambda>t. t\<lparr>binded := True\<rparr>) st)))))"

section \<open>Sending\<close>

definition sio_connector_send :: "grants \<Rightarrow> bool \<Rightarrow> msgbuf \<Rightarrow> sio_st \<Rightarrow> (unit wait) sio_res" where
  "sio_connector_send g resumed m st = on_base g (\<lambda>sb. snd_msgbuf_head_add resumed sb m) st"

definition sndhead_preinstall_iovs :: "sio_st \<Rightarrow> int \<Rightarrow> byte list list cres" where
  "sndhead_preinstall_iovs st n = msgbuf_head_preinstall_iovs (snd (base (io st))) n"

fun rm_sent :: "grants \<Rightarrow> nat \<Rightarrow> sio_st \<Rightarrow> sio_st cres option" where
  "rm_sent g 0 st = Some (Ok st)"
| "rm_sent g (Suc n) st =
     obind (on_base g snd_msgbuf_head_rm st) (\<lambda>(m, st).
       if m = None then Some Bug else rm_sent g n st)"

definition sndhead_install_iovs :: "grants \<Rightarrow> int \<Rightarrow> sio_st \<Rightarrow> sio_st cres option" where
  "sndhead_install_iovs g nbytes st =
     obind (Some (msgbuf_head_install_iovs (snd (base (io st))) nbytes)) (\<lambda>(n, h).
       rm_sent g n (set_base ((base (io st))\<lparr>snd := h\<rparr>) st))"

text \<open>\<open>__simple_send\<close>: \<open>Some e\<close> is \<open>-1\<close> with \<open>errno = e\<close>. The array has 100 entries.\<close>

definition simple_send :: "grants \<Rightarrow> sio_st \<Rightarrow> (errno option) sio_res" where
  "simple_send g st =
     obind (Some (sndhead_preinstall_iovs st 100)) (\<lambda>iovs.
       if iovs = [] then Some (Ok (Some EAGAIN, st))
       else obind (Some (rex_sock_sendv (rs (io st)) iovs (krn st))) (\<lambda>(r, k).
         let st = st\<lparr>krn := k\<rparr>
         in case r of
              Inl e \<Rightarrow> Some (Ok (Some e, st))
            | Inr n \<Rightarrow>
                if n = 0 then Some (Ok (Some ENONE, st))
                else obind (sndhead_install_iovs g (int n) st) (\<lambda>st. Some (Ok (None, st)))))"

text \<open>\<open>flush_snd_msgbuf\<close> returns the error that ends its loop.\<close>

fun flush_snd_msgbuf :: "nat \<Rightarrow> grants \<Rightarrow> sio_st \<Rightarrow> errno sio_res" where
  "flush_snd_msgbuf 0 g st = None"
| "flush_snd_msgbuf (Suc n) g st =
     obind (simple_send g st) (\<lambda>(r, st).
       case r of None \<Rightarrow> flush_snd_msgbuf n g st | Some e \<Rightarrow> Some (Ok (e, st)))"

section \<open>Receiving\<close>

text \<open>\<open>socket_read\<close> until it fails: the results \<open>bio_prefetch\<close> sees.\<close>

fun socket_reads :: "nat \<Rightarrow> rex_sock \<Rightarrow> kern \<Rightarrow> (stream \<times> kern) cres option" where
  "socket_reads 0 r k = None"
| "socket_reads (Suc n) r k =
     obind (Some (rex_sock_recv r PAGE_SIZE k)) (\<lambda>(x, k).
       case x of
         Inl e \<Rightarrow> Some (Ok ([Inl e], k))
       | Inr bs \<Rightarrow> obind (socket_reads n r k) (\<lambda>(s, k). Some (Ok (Inr bs # s, k))))"

fun rcv_loop :: "nat \<Rightarrow> grants \<Rightarrow> sio_st \<Rightarrow> sio_st cres option" where
  "rcv_loop 0 g st = None"
| "rcv_loop (Suc n) g st =
     (case msgbuf_deserialize (Suc n) (alloc g) (rbuf (io st)) of
        None \<Rightarrow> None
      | Some (Ok (m, b)) \<Rightarrow>
          obind (on_base g (\<lambda>sb. rcv_msgbuf_head_add sb m) (upd_io (\<lambda>t. t\<lparr>rbuf := b\<rparr>) st))
            (\<lambda>(_, st). rcv_loop n g st)
      | Some (Err e) \<Rightarrow> Some (Ok st)
      | Some Bug \<Rightarrow> Some Bug
      | Some Undef \<Rightarrow> Some Undef)"

text \<open>\<open>sio_connector_rcv\<close>: \<open>Some e\<close> for \<open>-1\<close>. The loop cannot outrun the bytes of the buffer.\<close>

definition sio_connector_rcv :: "grants \<Rightarrow> sio_st \<Rightarrow> (errno option) sio_res" where
  "sio_connector_rcv g st =
     obind (socket_reads (Suc (length (answers (krn st)))) (rs (io st)) (krn st)) (\<lambda>(s, k).
       let (r, b, _) = bio_prefetch (mem g) (rbuf (io st)) s;
           st = upd_io (\<lambda>t. t\<lparr>rbuf := b\<rparr>) (st\<lparr>krn := k\<rparr>)
       in case r of
            Inl e \<Rightarrow> if e \<noteq> EAGAIN then Some (Ok (Some e, st))
                     else obind (rcv_loop (Suc (length (bio_bytes b))) g st) (\<lambda>st. Some (Ok (None, st)))
          | Inr _ \<Rightarrow> obind (rcv_loop (Suc (length (bio_bytes b))) g st) (\<lambda>st. Some (Ok (None, st))))"

section \<open>Events\<close>

definition sio_lock_send :: "sio_st \<Rightarrow> bool \<times> sio_st" where
  "sio_lock_send st =
     (if \<not> send_lock (io st) then (True, upd_io (\<lambda>t. t\<lparr>send_lock := True\<rparr>) st) else (False, st))"

text \<open>The end of the write part of the handler, under the lock.\<close>

definition end_send :: "sio_st \<Rightarrow> sio_st cres" where
  "end_send st =
     (if \<not> send_lock (io st) then Bug
      else let st = upd_io (\<lambda>t. t\<lparr>send_lock := False\<rparr>) st
           in cbind (msgbuf_head_empty (snd (base (io st)))) (\<lambda>e.
                if \<not> e then try_enable_ev_write st else try_disable_ev_write st))"

definition handle_write :: "grants \<Rightarrow> sio_st \<Rightarrow> (errno option) sio_res" where
  "handle_write g st =
     (let (locked, st) = sio_lock_send st
      in if \<not> locked then Some Bug
         else obind (flush_snd_msgbuf (Suc (length (answers (krn st)))) g st) (\<lambda>(e, st).
           obind (Some (end_send st)) (\<lambda>st. Some (Ok (Some e, st)))))"

definition mark_epipe :: "sio_st \<Rightarrow> sio_st" where
  "mark_epipe st =
     (let sb = (base (io st))\<lparr>epipe := True\<rparr>
      in set_base sb st\<lparr>log := log st @
           (if waiters (rcv sb) \<noteq> 0 \<or> waiters (snd sb) \<noteq> 0 then [WakeCond] else [])\<rparr>)"

definition sio_connector_hndl :: "grants \<Rightarrow> u32 \<Rightarrow> sio_st \<Rightarrow> sio_st cres option" where
  "sio_connector_hndl g events st =
     obind (if events AND EV_READ \<noteq> 0 then sio_connector_rcv g st else Some (Ok (None, st))) (\<lambda>(rc, st).
     obind (if events AND EV_WRITE \<noteq> 0 then handle_write g st else Some (Ok (rc, st))) (\<lambda>(rc, st).
       let st = (if rc \<noteq> None \<and> rc \<noteq> Some EAGAIN then mark_epipe st else st)
       in obind (Some (emit_pollevents (base (io st)))) (\<lambda>es.
            Some (Ok (st\<lparr>log := log st @ es\<rparr>)))))"

definition sio_usignal_hndl :: "grants \<Rightarrow> i32 \<Rightarrow> sio_st \<Rightarrow> sio_st cres option" where
  "sio_usignal_hndl g ev st =
     (if ev = EV_SNDBUF_ADD then sio_connector_hndl g EV_WRITE st
      else if ev = EV_RCVBUF_FULL then Some (try_disable_ev_read st)
      else if ev = EV_RCVBUF_NONFULL then Some (try_enable_ev_read st)
      else Some (Ok st))"

section \<open>Closing\<close>

text \<open>\<open>sio_connector_close\<close>: the messages freed by \<open>sockbase_exit\<close>.\<close>

definition sio_connector_close :: "grants \<Rightarrow> sio_st \<Rightarrow> (msgbuf list) sio_res" where
  "sio_connector_close g st =
     obind (if binded (io st)
            then obind (Some (must_ctl EV_DEL (sig_et (io st)) st)) (\<lambda>st.
                 obind (Some (must_ctl EV_DEL (et (io st)) st)) (\<lambda>st.
                 obind (flush_snd_msgbuf (Suc (length (answers (krn st)))) g st) (\<lambda>(_, st).
                 obind (Some (rex_sock_destroy (rs (io st)) (krn st))) (\<lambda>(r, k).
                   Some (Ok (upd_io (\<lambda>t. t\<lparr>rs := r\<rparr>) (st\<lparr>krn := k\<rparr>)))))))
            else Some (Ok st)) (\<lambda>st.
       obind (Some (sockbase_exit (base (io st)))) (\<lambda>(ms, sb). Some (Ok (ms, set_base sb st))))"

section \<open>Frames\<close>

text \<open>\<open>sframe st st'\<close>: only the signal and the log differ, and signals were only added.\<close>

definition sframe :: "sio_st \<Rightarrow> sio_st \<Rightarrow> bool" where
  "sframe st st' \<longleftrightarrow> el st' = el st \<and> krn st' = krn st \<and>
     (\<exists>s xs. io st' = (io st)\<lparr>sg := s\<rparr> \<and> pending s = pending (sg (io st)) @ xs)"

lemma sframe_refl [simp, intro]: "sframe st st"
  unfolding sframe_def by (intro conjI exI [of _ "sg (io st)"] exI [of _ "[]"]) simp_all

lemma sframe_trans: "sframe a b \<Longrightarrow> sframe b c \<Longrightarrow> sframe a c"
  by (auto simp: sframe_def)

lemma sframe_log [simp]: "sframe st (st\<lparr>log := l\<rparr>)"
  unfolding sframe_def by (intro conjI exI [of _ "sg (io st)"] exI [of _ "[]"]) simp_all

lemma sframeD:
  assumes "sframe st st'"
  shows "base (io st') = base (io st)" "rbuf (io st') = rbuf (io st)" "rs (io st') = rs (io st)"
    "send_lock (io st') = send_lock (io st)" "et (io st') = et (io st)" "binded (io st') = binded (io st)"
    "et_events st' = et_events st" "krn st' = krn st" "el st' = el st"
    "set (pending (sg (io st))) \<subseteq> set (pending (sg (io st')))"
  using assms by (auto simp: sframe_def et_events_def)

lemma upd_io_sel [simp]:
  "io (upd_io f st) = f (io st)" "el (upd_io f st) = el st" "krn (upd_io f st) = krn st"
  "log (upd_io f st) = log st"
  by (simp_all add: upd_io_def)

lemma set_base_sel [simp]:
  "base (io (set_base sb st)) = sb" "el (set_base sb st) = el st" "krn (set_base sb st) = krn st"
  "sg (io (set_base sb st)) = sg (io st)" "rbuf (io (set_base sb st)) = rbuf (io st)"
  "rs (io (set_base sb st)) = rs (io st)" "send_lock (io (set_base sb st)) = send_lock (io st)"
  "et (io (set_base sb st)) = et (io st)" "et_events (set_base sb st) = et_events st"
  "binded (io (set_base sb st)) = binded (io st)"
  by (simp_all add: set_base_def et_events_def)

lemma usignal_frame:
  assumes "usignal g x st = Some (Ok st')" "sig_ok (sg (io st))"
  shows "sframe st st' \<and> sig_ok (sg (io st')) \<and> x \<in> set (pending (sg (io st')))"
proof -
  from assms(1) obtain s where s: "ev_signal (mem g) (fuel g) (sg (io st)) x = Some (Ok s)"
    "st' = upd_io (\<lambda>t. t\<lparr>sg := s\<rparr>) st"
    by (auto simp: usignal_def cbind_eq_Ok)
  from ev_signal_ok [OF assms(2) s(1)] show ?thesis by (auto simp: s(2) sframe_def)
qed

lemma usignal_if_frame:
  assumes "(if a then usignal g x st else if b then usignal g y st else Some (Ok st)) = Some (Ok st')"
    and "sig_ok (sg (io st))"
  shows "sframe st st' \<and> sig_ok (sg (io st'))"
  using assms usignal_frame [OF _ assms(2)] by (auto split: if_splits)

lemma run_outs_frame:
  "run_outs g outs st = Some (Ok st') \<Longrightarrow> sig_ok (sg (io st)) \<Longrightarrow> sframe st st' \<and> sig_ok (sg (io st'))"
proof (induction outs arbitrary: st)
  case (Cons a outs)
  have step: "\<exists>st1. run_outs g outs st1 = Some (Ok st') \<and> sframe st st1 \<and> sig_ok (sg (io st1))"
  proof (cases a)
    case (RcvEv e)
    with Cons.prems(1) obtain st1 where
      "(if e = EvFull then usignal g EV_RCVBUF_FULL st else if e = EvNonfull then usignal g EV_RCVBUF_NONFULL st
        else Some (Ok st)) = Some (Ok st1)" "run_outs g outs st1 = Some (Ok st')"
      by (auto simp: obind_eq_Ok)
    with usignal_if_frame [OF _ Cons.prems(2)] show ?thesis by blast
  next
    case (SndEv e)
    with Cons.prems(1) obtain st1 where
      "(if e = EvAdd then sndhead_add_ev_usignal g st else Some (Ok st)) = Some (Ok st1)"
      "run_outs g outs st1 = Some (Ok st')"
      by (auto simp: obind_eq_Ok)
    with Cons.prems(2) usignal_frame [OF _ Cons.prems(2)] show ?thesis
      by (auto simp: sndhead_add_ev_usignal_def split: if_splits)
  qed (use Cons.prems in \<open>auto intro!: exI [of _ "st\<lparr>log := log st @ [a]\<rparr>"]\<close>)
  then obtain st1 where 1: "run_outs g outs st1 = Some (Ok st')" "sframe st st1" "sig_ok (sg (io st1))"
    by blast
  from Cons.IH [OF 1(1,3)] sframe_trans [OF 1(2)] show ?case by blast
qed simp

lemma on_base_frame:
  assumes "on_base g f st = Some (Ok (x, st'))" "sig_ok (sg (io st))"
  shows "\<exists>outs sb. f (base (io st)) = Ok (x, outs, sb) \<and> run_outs g outs (set_base sb st) = Some (Ok st') \<and>
    sframe (set_base sb st) st' \<and> sig_ok (sg (io st'))"
proof -
  from assms(1) obtain outs sb where f: "f (base (io st)) = Ok (x, outs, sb)"
    "run_outs g outs (set_base sb st) = Some (Ok st')"
    by (auto simp: on_base_def obind_eq_Ok)
  from run_outs_frame [OF f(2)] assms(2) f show ?thesis by auto
qed

text \<open>With room for one more integer in the pipe, or a signal already pending, signalling succeeds.\<close>

definition sig_ready :: "grants \<Rightarrow> ev_sig \<Rightarrow> bool" where
  "sig_ready g s \<longleftrightarrow> sig_ok s \<and> 0 < mem g \<and> 0 < fuel g \<and>
     (pending s \<noteq> [] \<or> length (p_buf (sig_efd s)) + 4 \<le> p_cap (sig_efd s))"

lemma ev_signal_ready:
  assumes "sig_ready g s"
  shows "\<exists>s'. ev_signal (mem g) (fuel g) s x = Some (Ok s') \<and> sig_ready g s'"
proof -
  have r: "sig_ok s" "0 < mem g" "0 < fuel g" "bio_ok (signals s)" "efd_ok (sig_efd s)"
    "bio_bytes (signals s) = le32s (pending s)"
    "pending s \<noteq> [] \<or> length (p_buf (sig_efd s)) + 4 \<le> p_cap (sig_efd s)"
    using assms by (auto simp: sig_ready_def sig_ok_def)
  have z: "bio_size (signals s) = 0 \<longleftrightarrow> pending s = []"
    using r(4,6) by (simp add: bio_size_def bio_ok_def)
  obtain e where e: "(if bio_size (signals s) = 0 then efd_signal (fuel g) (sig_efd s) 1
      else Some (Ok (sig_efd s))) = Some (Ok e)"
    using r(7) z efd_signal_ok [OF r(5) _ _ r(3), of 1] by fastforce
  obtain k b where w: "bio_write (mem g) (signals s) (le32 x) = (k, b)" by fastforce
  have "length (le32 x) \<le> mem g * PAGE_SIZE" using r(2) by (simp add: PAGE_SIZE_def)
  from bio_write_complete [OF r(4) this] w have "k = 4" by simp
  with e w have s: "ev_signal (mem g) (fuel g) s x = Some (Ok (s\<lparr>sig_efd := e, signals := b\<rparr>))"
    by (simp add: ev_signal_def)
  from ev_signal_ok [OF r(1) s] s r(2,3) show ?thesis by (auto simp: sig_ready_def)
qed

lemma usignal_ready:
  assumes "sig_ready g (sg (io st))"
  shows "\<exists>st'. usignal g x st = Some (Ok st') \<and> sig_ready g (sg (io st'))"
  using ev_signal_ready [OF assms, of x] by (auto simp: usignal_def)

lemma run_outs_ready:
  "sig_ready g (sg (io st)) \<Longrightarrow> \<exists>st'. run_outs g outs st = Some (Ok st') \<and> sig_ready g (sg (io st'))"
proof (induction outs arbitrary: st)
  case (Cons a outs)
  have "\<exists>st1. run_outs g (a # outs) st = run_outs g outs st1 \<and> sig_ready g (sg (io st1))"
  proof (cases a)
    case (RcvEv e)
    then show ?thesis
      using Cons.prems usignal_ready [OF Cons.prems, of EV_RCVBUF_FULL] usignal_ready [OF Cons.prems, of EV_RCVBUF_NONFULL]
      by (cases e) auto
  next
    case (SndEv e)
    then show ?thesis
      using Cons.prems usignal_ready [OF Cons.prems, of EV_SNDBUF_ADD]
      by (cases e) (auto simp: sndhead_add_ev_usignal_def)
  qed (use Cons.prems in auto)
  with Cons.IH show ?case by metis
qed simp

lemma on_base_ready:
  assumes "f (base (io st)) = Ok (x, outs, sb)" "sig_ready g (sg (io st))"
  shows "\<exists>st'. on_base g f st = Some (Ok (x, st')) \<and> sframe (set_base sb st) st' \<and> sig_ready g (sg (io st'))"
proof -
  obtain st' where st': "run_outs g outs (set_base sb st) = Some (Ok st')" "sig_ready g (sg (io st'))"
    using run_outs_ready [of g "set_base sb st" outs] assms(2) by auto
  have "sframe (set_base sb st) st'"
    using run_outs_frame [OF st'(1)] assms(2) by (simp add: sig_ready_def)
  with st' assms(1) show ?thesis by (simp add: on_base_def)
qed

section \<open>Receiving messages\<close>

text \<open>A proper prefix of the wire image of some message.\<close>

definition partial :: "byte list \<Rightarrow> bool" where
  "partial p \<longleftrightarrow> (\<exists>m k. wf_msg m \<and> k < length (wire m) \<and> p = take k (wire m))"

lemma deserialize_partial:
  assumes "bio_ok b" "bio_bytes b = p" "partial p"
  shows "msgbuf_deserialize (Suc n) al b = Some (Err EAGAIN)"
proof -
  from assms(3) obtain m k where m: "wf_msg m" "k < length (wire m)" "p = take k (wire m @ [])"
    by (auto simp: partial_def)
  then have "\<not> frame_complete p" using frame_complete_prefix [of m p k "[]"] by simp
  then have "parse (Suc n) al (bio_bytes b) = Some (Err EAGAIN)" using assms(2) by simp
  with msgbuf_deserialize_agrees [OF assms(1), of "Suc n" al] show ?thesis by (auto elim: agrees_cases)
qed

lemma deserialize_whole:
  assumes "bio_ok b" "bio_bytes b = wire m @ r" "wf_msg m" "length (bio_bytes b) \<le> n"
  shows "\<exists>b'. msgbuf_deserialize (Suc n) (\<lambda>_. True) b = Some (Ok (reset m, b')) \<and> bio_ok b' \<and> bio_bytes b' = r"
proof -
  have "parse (Suc n) (\<lambda>_. True) (bio_bytes b) = Some (Ok (reset m, r))"
    using parse_wire [of "\<lambda>_. True" m "Suc n" r] assms by simp
  with msgbuf_deserialize_agrees [OF assms(1), of "Suc n" "\<lambda>_. True"]
  have "agrees (msgbuf_deserialize (Suc n) (\<lambda>_. True) b) (Some (Ok (reset m, r)))" by (simp only:)
  then show ?thesis
    by (rule agrees_cases) (auto simp del: msgbuf_deserialize.simps)
qed

lemma rcv_loop_ok:
  assumes "alloc g = (\<lambda>_. True)"
  shows "bio_ok (rbuf (io st)) \<Longrightarrow> bio_bytes (rbuf (io st)) = wires ms @ p \<Longrightarrow> list_all wf_msg ms \<Longrightarrow>
    partial p \<Longrightarrow> sock_ok (base (io st)) \<Longrightarrow> sig_ready g (sg (io st)) \<Longrightarrow>
    length (bio_bytes (rbuf (io st))) < n \<Longrightarrow>
    \<exists>st'. rcv_loop n g st = Some (Ok st') \<and> sock_ok (base (io st')) \<and> sig_ready g (sg (io st')) \<and>
      bh_msgs (rcv (base (io st'))) = bh_msgs (rcv (base (io st))) @ map reset ms \<and>
      snd (base (io st')) = snd (base (io st)) \<and> bio_ok (rbuf (io st')) \<and> bio_bytes (rbuf (io st')) = p \<and>
      krn st' = krn st \<and> el st' = el st \<and> send_lock (io st') = send_lock (io st)"
proof (induction ms arbitrary: st n)
  case Nil
  obtain n' where n: "n = Suc n'" using Nil.prems(7) by (cases n) auto
  have "bio_bytes (rbuf (io st)) = p" using Nil.prems(2) by simp
  from deserialize_partial [OF Nil.prems(1) this Nil.prems(4)] Nil.prems show ?case by (simp add: n)
next
  case (Cons m ms)
  obtain n' where n: "n = Suc n'" using Cons.prems(7) by (cases n) auto
  have bb: "bio_bytes (rbuf (io st)) = wire m @ wires ms @ p" using Cons.prems(2) by simp
  have m: "wf_msg m" "list_all wf_msg ms" using Cons.prems(3) by auto
  from deserialize_whole [OF Cons.prems(1) bb m(1), of n'] Cons.prems(7) obtain b where
    b: "msgbuf_deserialize n (\<lambda>_. True) (rbuf (io st)) = Some (Ok (reset m, b))" "bio_ok b"
      "bio_bytes b = wires ms @ p"
    by (auto simp: n)
  let ?st = "upd_io (\<lambda>t. t\<lparr>rbuf := b\<rparr>) st"
  obtain outs sb where sb: "rcv_msgbuf_head_add (base (io ?st)) (reset m) = Ok ((), outs, sb)" "sock_ok sb"
    "bh_msgs (rcv sb) = bh_msgs (rcv (base (io st))) @ [reset m]" "snd sb = snd (base (io st))"
    using rcv_add_spec [OF Cons.prems(5), of "reset m"] by auto
  from on_base_ready [of "\<lambda>sb. rcv_msgbuf_head_add sb (reset m)", OF sb(1), of g] Cons.prems(6) obtain st1 where
    st1: "on_base g (\<lambda>sb. rcv_msgbuf_head_add sb (reset m)) ?st = Some (Ok ((), st1))"
      "sframe (set_base sb ?st) st1" "sig_ready g (sg (io st1))" by auto
  note f = sframeD [OF st1(2)]
  have "8 \<le> length (wire m)" by (simp add: wire_eq msgbuf_base_def)
  moreover have "length (bio_bytes (rbuf (io st))) = length (wire m) + length (bio_bytes (rbuf (io st1)))"
    using bb b(3) f(2) by simp
  ultimately have "length (bio_bytes (rbuf (io st1))) < n'" using Cons.prems(7) n by linarith
  from Cons.IH [of st1 n', OF _ _ m(2) Cons.prems(4) _ st1(3) this] b(2,3) sb(2) f obtain st' where
    st': "rcv_loop n' g st1 = Some (Ok st')" "sock_ok (base (io st'))" "sig_ready g (sg (io st'))"
      "bh_msgs (rcv (base (io st'))) = bh_msgs (rcv sb) @ map reset ms" "snd (base (io st')) = snd sb"
      "bio_ok (rbuf (io st'))" "bio_bytes (rbuf (io st')) = p" "krn st' = krn st" "el st' = el st"
      "send_lock (io st') = send_lock (io st)"
    by auto
  have "rcv_loop n g st = Some (Ok st')" using b(1) st1(1) st'(1) assms by (simp add: n)
  with st' sb(3,4) show ?case by simp
qed

lemma socket_reads_total:
  "ss_vfptr r \<noteq> None \<Longrightarrow> length (answers k) < n \<Longrightarrow> \<exists>s k'. socket_reads n r k = Some (Ok (s, k'))"
proof (induction n arbitrary: k)
  case (Suc n)
  obtain v where v: "ss_vfptr r = Some v" using Suc.prems(1) by auto
  obtain x k1 where x: "rex_gen_recv r [PAGE_SIZE] k = (x, k1)" by fastforce
  have rr: "rex_sock_recv r PAGE_SIZE k = Ok (x, k1)"
    using x v by (simp add: rex_sock_recv_def rex_sock_recvv_def)
  show ?case
  proof (cases x)
    case (Inr bs)
    then have "answers k \<noteq> [] \<and> answers k1 = tl (answers k)"
      using x by (auto simp: rex_gen_recv_def sys_def split: list.splits kans.splits if_splits)
    then have "length (answers k1) < n" using Suc.prems(2) by (cases "answers k") auto
    from Suc.IH [OF Suc.prems(1) this] rr Inr show ?thesis by auto
  qed (use rr in simp)
qed simp

section \<open>Registering events\<close>

lemma mod_events_frame:
  assumes "mod_events ev st = Ok st'"
  shows "io st' = io st" "krn st' = krn st" "log st' = log st" "et_events st' = ev"
proof -
  from assms obtain es where es: "ev_fdset_ctl (set_events ev st) EV_MOD (et (io st)) = Ok (None, es)"
    "st' = st\<lparr>el := es\<rparr>"
    by (auto simp: mod_events_def cbind_eq_Ok split: if_splits)
  show "io st' = io st" "krn st' = krn st" "log st' = log st" by (simp_all add: es(2))
  have "ev_events (ev_store es b) = ev_events (ev_store (set_events ev st) b)" for b
    using es(1) by (auto simp: ev_fdset_ctl_def ev_fdset_mod_def eventpoll_ctl_def eventpoll_mod_def
        cbind_eq_Ok Let_def split: if_splits backend.splits prod.splits dest!: epoll_ctl_sel)
  then show "et_events st' = ev" by (simp add: et_events_def es(2) set_events_def)
qed

lemma rw_bits [simp]:
  "EV_WRITE \<noteq> 0" "(x OR EV_WRITE) AND EV_WRITE \<noteq> 0" "(x AND NOT EV_WRITE) AND EV_WRITE = 0"
  "(x OR EV_READ) AND EV_WRITE = x AND EV_WRITE" "(x AND NOT EV_READ) AND EV_WRITE = x AND EV_WRITE"
  for x :: u32
proof -
  have w: "bit EV_WRITE n \<longleftrightarrow> n = 1" "bit EV_READ n \<longleftrightarrow> n = 0" for n
    unfolding EV_WRITE_def EV_READ_def
    using bit_exp_iff [where 'a = u32, of 1 n] bit_exp_iff [where 'a = u32, of 0 n] by (auto simp: bit_1_iff)
  show "EV_WRITE \<noteq> 0" by (simp add: EV_WRITE_def)
  have "bit ((x OR EV_WRITE) AND EV_WRITE) 1" by (simp add: bit_simps w)
  then show "(x OR EV_WRITE) AND EV_WRITE \<noteq> 0" by (metis bit_0_eq bot_apply bot_bool_def)
  show "(x AND NOT EV_WRITE) AND EV_WRITE = 0" "(x OR EV_READ) AND EV_WRITE = x AND EV_WRITE"
    "(x AND NOT EV_READ) AND EV_WRITE = x AND EV_WRITE"
    by (rule bit_word_eqI; auto simp: bit_simps w)+
qed

lemma try_read_frame:
  "try_disable_ev_read st = Ok st' \<Longrightarrow> io st' = io st \<and> et_events st' AND EV_WRITE = et_events st AND EV_WRITE"
  "try_enable_ev_read st = Ok st' \<Longrightarrow> io st' = io st \<and> et_events st' AND EV_WRITE = et_events st AND EV_WRITE"
  by (auto simp: try_disable_ev_read_def try_enable_ev_read_def mod_events_frame split: if_splits)

lemma end_send_frame:
  assumes "end_send st = Ok st'"
  shows "io st' = (io st)\<lparr>send_lock := False\<rparr> \<and>
    (bh_msgs (snd (base (io st))) \<noteq> [] \<longrightarrow> et_events st' AND EV_WRITE \<noteq> 0)"
proof -
  let ?st = "upd_io (\<lambda>t. t\<lparr>send_lock := False\<rparr>) st"
  from assms obtain e where e: "msgbuf_head_empty (snd (base (io st))) = Ok e"
    "(if \<not> e then try_enable_ev_write ?st else try_disable_ev_write ?st) = Ok st'"
    by (auto simp: end_send_def cbind_eq_Ok Let_def split: if_splits)
  have "e = (bh_msgs (snd (base (io st))) = [])" using e(1) by (auto simp: msgbuf_head_empty_def split: if_splits)
  with e(2) show ?thesis
    by (auto simp: try_enable_ev_write_def try_disable_ev_write_def mod_events_frame split: if_splits)
qed

section \<open>No message is left behind\<close>

text \<open>Threads that send and receive run against the thread of the event loop, whose write handler
  gives up the socket's lock between its parts: the loop has taken a signal, is in the flush loop,
  or has left it and is about to choose the events to wait for.\<close>

datatype sio_pc = Idle | Got i32 | Flushing | Flushed

record sio_run =
  rst :: sio_st
  rpc :: sio_pc

inductive sio_step :: "grants \<Rightarrow> sio_run \<Rightarrow> sio_run \<Rightarrow> bool" for g where
  send: "sio_connector_send g resumed m (rst r) = Some (Ok (w, st)) \<Longrightarrow> sio_step g r (r\<lparr>rst := st\<rparr>)"
| recv: "on_base g (xgeneric_recv resumed) (rst r) = Some (Ok (x, st)) \<Longrightarrow> sio_step g r (r\<lparr>rst := st\<rparr>)"
| read: "rpc r = Idle \<Longrightarrow> sio_connector_rcv g (rst r) = Some (Ok (x, st)) \<Longrightarrow> sio_step g r (r\<lparr>rst := st\<rparr>)"
| epipe: "rpc r = Idle \<Longrightarrow> sio_step g r (r\<lparr>rst := mark_epipe (rst r)\<rparr>)"
| take_signal: "rpc r = Idle \<Longrightarrow> ev_get_signals (sg (io (rst r))) 1 = ([x], s) \<Longrightarrow>
    sio_step g r (r\<lparr>rst := upd_io (\<lambda>t. t\<lparr>sg := s\<rparr>) (rst r), rpc := Got x\<rparr>)"
| other_signal: "rpc r = Got x \<Longrightarrow> x \<noteq> EV_SNDBUF_ADD \<Longrightarrow> sio_usignal_hndl g x (rst r) = Some (Ok st) \<Longrightarrow>
    sio_step g r (r\<lparr>rst := st, rpc := Idle\<rparr>)"
| lock: "rpc r = Got EV_SNDBUF_ADD \<or> rpc r = Idle \<and> et_events (rst r) AND EV_WRITE \<noteq> 0 \<Longrightarrow>
    sio_lock_send (rst r) = (True, st) \<Longrightarrow> sio_step g r (r\<lparr>rst := st, rpc := Flushing\<rparr>)"
| flush: "rpc r = Flushing \<Longrightarrow> simple_send g (rst r) = Some (Ok (e, st)) \<Longrightarrow>
    sio_step g r (r\<lparr>rst := st, rpc := if e = None then Flushing else Flushed\<rparr>)"
| unlock: "rpc r = Flushed \<Longrightarrow> end_send (rst r) = Ok st \<Longrightarrow> sio_step g r (r\<lparr>rst := st, rpc := Idle\<rparr>)"

inductive sio_reach :: "grants \<Rightarrow> sio_run \<Rightarrow> sio_run \<Rightarrow> bool" for g where
  refl: "sio_reach g r r"
| step: "sio_reach g r s \<Longrightarrow> sio_step g s t \<Longrightarrow> sio_reach g r t"

definition will_send :: "sio_run \<Rightarrow> bool" where
  "will_send r \<longleftrightarrow> et_events (rst r) AND EV_WRITE \<noteq> 0 \<or>
     EV_SNDBUF_ADD \<in> set (pending (sg (io (rst r)))) \<or> rpc r \<in> {Got EV_SNDBUF_ADD, Flushing, Flushed}"

definition run_inv :: "sio_run \<Rightarrow> bool" where
  "run_inv r \<longleftrightarrow> sig_ok (sg (io (rst r))) \<and> (send_lock (io (rst r)) \<longleftrightarrow> rpc r \<in> {Flushing, Flushed}) \<and>
     ev_hndl (snd (base (io (rst r)))) = Some tcps_sndhead_vfptr \<and>
     (bh_msgs (snd (base (io (rst r)))) \<noteq> [] \<longrightarrow> will_send r)"

text \<open>What matters to the write side is as before, signals apart.\<close>

definition qframe :: "sio_st \<Rightarrow> sio_st \<Rightarrow> bool" where
  "qframe st st' \<longleftrightarrow> snd (base (io st')) = snd (base (io st)) \<and> send_lock (io st') = send_lock (io st) \<and>
     et_events st' AND EV_WRITE = et_events st AND EV_WRITE \<and> sig_ok (sg (io st')) \<and>
     set (pending (sg (io st))) \<subseteq> set (pending (sg (io st')))"

lemma qframe_refl: "sig_ok (sg (io st)) \<Longrightarrow> qframe st st"
  by (simp add: qframe_def)

lemma qframe_trans: "qframe a b \<Longrightarrow> qframe b c \<Longrightarrow> qframe a c"
  by (auto simp: qframe_def)

lemma qframe_inv: "run_inv r \<Longrightarrow> qframe (rst r) st \<Longrightarrow> run_inv (r\<lparr>rst := st\<rparr>)"
  by (auto simp: run_inv_def qframe_def will_send_def)

lemma on_base_qframe:
  assumes "on_base g f st = Some (Ok (x, st'))" "sig_ok (sg (io st))"
    and "\<And>outs sb. f (base (io st)) = Ok (x, outs, sb) \<Longrightarrow> snd sb = snd (base (io st))"
  shows "qframe st st'"
proof -
  obtain outs sb where f: "f (base (io st)) = Ok (x, outs, sb)" "sframe (set_base sb st) st'"
    "sig_ok (sg (io st'))"
    using on_base_frame [OF assms(1,2)] by blast
  from sframeD [OF f(2)] assms(3) [OF f(1)] f(3) show ?thesis by (auto simp: qframe_def)
qed

lemma emitting_Ok: "emitting x outs sb = Ok (y, outs', sb') \<Longrightarrow> y = x \<and> sb' = sb \<and> set outs \<subseteq> set outs'"
  by (auto simp: emitting_def cbind_eq_Ok)

lemma rcv_ops_snd:
  "rcv_msgbuf_head_add sb m = Ok (x, outs, sb') \<Longrightarrow> snd sb' = snd sb"
  "rcv_msgbuf_head_rm res sb = Ok (y, outs', sb') \<Longrightarrow> snd sb' = snd sb"
  "xgeneric_recv res sb = Ok (z, outs'', sb') \<Longrightarrow> snd sb' = snd sb"
proof -
  show "rcv_msgbuf_head_add sb m = Ok (x, outs, sb') \<Longrightarrow> snd sb' = snd sb"
    by (auto simp: rcv_msgbuf_head_add_def cbind_eq_Ok Let_def dest!: emitting_Ok)
  show r: "rcv_msgbuf_head_rm res sb = Ok (y, outs', sb') \<Longrightarrow> snd sb' = snd sb" for y outs'
    by (auto simp: rcv_msgbuf_head_rm_def cbind_eq_Ok Let_def dest!: emitting_Ok
        split: if_splits cres.splits)
  show "xgeneric_recv res sb = Ok (z, outs'', sb') \<Longrightarrow> snd sb' = snd sb"
    by (auto simp: xgeneric_recv_def cbind_eq_Ok dest: r)
qed

lemma rcv_loop_qframe:
  "rcv_loop n g st = Some (Ok st') \<Longrightarrow> sig_ok (sg (io st)) \<Longrightarrow> qframe st st'"
proof (induction n arbitrary: st)
  case (Suc n)
  show ?case
  proof (cases "msgbuf_deserialize (Suc n) (alloc g) (rbuf (io st))")
    case (Some r)
    show ?thesis
    proof (cases r)
      case (Ok p)
      obtain m b where p: "p = (m, b)" by fastforce
      let ?st = "upd_io (\<lambda>t. t\<lparr>rbuf := b\<rparr>) st"
      from Suc.prems(1) Some Ok p obtain st1 where st1:
        "on_base g (\<lambda>sb. rcv_msgbuf_head_add sb m) ?st = Some (Ok ((), st1))" "rcv_loop n g st1 = Some (Ok st')"
        by (auto simp: obind_eq_Ok)
      have "qframe ?st st1" using Suc.prems(2) by (intro on_base_qframe [OF st1(1)]) (auto dest: rcv_ops_snd)
      moreover have "qframe st ?st" using Suc.prems(2) by (simp add: qframe_def et_events_def)
      ultimately have "qframe st st1" by (blast intro: qframe_trans)
      with Suc.IH [OF st1(2)] show ?thesis by (auto intro: qframe_trans simp: qframe_def)
    qed (use Suc.prems Some in \<open>auto intro: qframe_refl\<close>)
  qed (use Suc.prems in simp)
qed simp

lemma sio_connector_rcv_qframe:
  assumes "sio_connector_rcv g st = Some (Ok (x, st'))" "sig_ok (sg (io st))"
  shows "qframe st st'"
proof -
  from assms(1) obtain s k where s: "socket_reads (Suc (length (answers (krn st)))) (rs (io st)) (krn st) = Some (Ok (s, k))"
    by (auto simp: sio_connector_rcv_def obind_eq_Ok)
  obtain r b rest where p: "bio_prefetch (mem g) (rbuf (io st)) s = (r, b, rest)" by (metis prod.collapse)
  let ?st = "upd_io (\<lambda>t. t\<lparr>rbuf := b\<rparr>) (st\<lparr>krn := k\<rparr>)"
  have q: "qframe st ?st" using assms(2) by (simp add: qframe_def et_events_def)
  have "st' = ?st \<or> (\<exists>n. rcv_loop n g ?st = Some (Ok st'))"
    using assms(1) unfolding sio_connector_rcv_def s
    by (auto simp: p obind_eq_Ok Let_def split: sum.splits if_splits
        simp del: rcv_loop.simps msgbuf_deserialize.simps)
  then show ?thesis
    using q rcv_loop_qframe [of _ g ?st st'] assms(2) by (auto intro: qframe_trans)
qed

lemma snd_add_Ok:
  assumes "snd_msgbuf_head_add res sb m = Ok (w, outs, sb')" "ev_hndl (snd sb) = Some tcps_sndhead_vfptr"
  shows "ev_hndl (snd sb') = Some tcps_sndhead_vfptr \<and>
    (bh_msgs (snd sb') = bh_msgs (snd sb) \<or> SndEv EvAdd \<in> set outs)"
  using assms
  by (auto simp: snd_msgbuf_head_add_def Let_def cbind_eq_Ok msgbuf_head_in_msg_def msgbuf_head_in_def
      msgbuf_head_incr_waiters_def msgbuf_head_decr_waiters_def emits_def tcps_sndhead_vfptr_def
      split: if_splits dest!: emitting_Ok)

lemma run_outs_add:
  assumes "SndEv EvAdd \<in> set outs" "run_outs g outs st = Some (Ok st')" "sig_ok (sg (io st))"
    "\<not> send_lock (io st)" "et_events st AND EV_WRITE = 0"
  shows "EV_SNDBUF_ADD \<in> set (pending (sg (io st')))"
  using assms
proof (induction outs arbitrary: st)
  case (Cons a outs)
  show ?case
  proof (cases "a = SndEv EvAdd")
    case True
    with Cons.prems obtain st1 where st1: "usignal g EV_SNDBUF_ADD st = Some (Ok st1)"
      "run_outs g outs st1 = Some (Ok st')"
      by (auto simp: obind_eq_Ok sndhead_add_ev_usignal_def)
    from usignal_frame [OF st1(1) Cons.prems(3)] sframeD(10) [of st1 st'] run_outs_frame [OF st1(2)]
    show ?thesis by blast
  next
    case False
    then have "run_outs g (a # outs) st = obind (run_outs g [a] st) (run_outs g outs)"
      by (cases a) (auto simp: obind_def split: option.splits cres.splits)
    with Cons.prems(2) obtain st1 where st1: "run_outs g [a] st = Some (Ok st1)" "run_outs g outs st1 = Some (Ok st')"
      by (auto simp: obind_eq_Ok)
    from run_outs_frame [OF st1(1) Cons.prems(3)] have f: "sframe st st1" "sig_ok (sg (io st1))" by auto
    from Cons.IH [OF _ st1(2) f(2)] sframeD [OF f(1)] Cons.prems False show ?thesis by simp
  qed
qed simp

lemma send_inv:
  assumes inv: "run_inv r" and s: "sio_connector_send g res m (rst r) = Some (Ok (w, st))"
  shows "run_inv (r\<lparr>rst := st\<rparr>)"
proof -
  have i: "sig_ok (sg (io (rst r)))" "ev_hndl (snd (base (io (rst r)))) = Some tcps_sndhead_vfptr"
    "send_lock (io (rst r)) \<longleftrightarrow> rpc r \<in> {Flushing, Flushed}"
    "bh_msgs (snd (base (io (rst r)))) \<noteq> [] \<longrightarrow> will_send r"
    using inv by (auto simp: run_inv_def)
  obtain outs sb where f: "snd_msgbuf_head_add res (base (io (rst r))) m = Ok (w, outs, sb)"
    "run_outs g outs (set_base sb (rst r)) = Some (Ok st)" "sframe (set_base sb (rst r)) st" "sig_ok (sg (io st))"
    using on_base_frame [OF s [unfolded sio_connector_send_def] i(1)] by blast
  note sf = sframeD [OF f(3)]
  note add = snd_add_Ok [OF f(1) i(2)]
  have "will_send (r\<lparr>rst := st\<rparr>)" if ne: "bh_msgs (snd sb) \<noteq> []"
  proof (cases "SndEv EvAdd \<in> set outs \<and> \<not> send_lock (io (rst r)) \<and> et_events (rst r) AND EV_WRITE = 0")
    case True
    with run_outs_add [of outs g "set_base sb (rst r)" st] f(2) i(1) show ?thesis by (simp add: will_send_def)
  next
    case False
    then consider "bh_msgs (snd (base (io (rst r)))) \<noteq> []" | "send_lock (io (rst r))"
      | "et_events (rst r) AND EV_WRITE \<noteq> 0"
      using add ne by auto
    then show ?thesis
    proof cases
      case 1
      with i(4) sf(7,10) show ?thesis by (auto simp: will_send_def)
    qed (use i(3) sf(7) in \<open>auto simp: will_send_def\<close>)
  qed
  with add sf f(4) i(3) show ?thesis by (auto simp: run_inv_def)
qed

lemma rm_sent_frame:
  "rm_sent g n st = Some (Ok st') \<Longrightarrow> sig_ok (sg (io st)) \<Longrightarrow> ev_hndl (snd (base (io st))) = h \<Longrightarrow>
   sig_ok (sg (io st')) \<and> send_lock (io st') = send_lock (io st) \<and> ev_hndl (snd (base (io st'))) = h"
proof (induction n arbitrary: st)
  case (Suc n)
  then obtain m st1 where st1: "on_base g snd_msgbuf_head_rm st = Some (Ok (m, st1))" "rm_sent g n st1 = Some (Ok st')"
    by (auto simp: obind_eq_Ok split: if_splits)
  obtain outs sb where f: "snd_msgbuf_head_rm (base (io st)) = Ok (m, outs, sb)"
    "sframe (set_base sb st) st1" "sig_ok (sg (io st1))"
    using on_base_frame [OF st1(1) Suc.prems(2)] by blast
  have "ev_hndl (snd sb) = ev_hndl (snd (base (io st)))"
    using f(1) by (auto simp: snd_msgbuf_head_rm_def msgbuf_head_out_msg_def msgbuf_head_out_def cbind_eq_Ok
        Let_def split: cres.splits if_splits dest!: emitting_Ok)
  with Suc.IH [OF st1(2) f(3)] sframeD [OF f(2)] Suc.prems(3) show ?case by simp
qed simp

lemma simple_send_frame:
  assumes "simple_send g st = Some (Ok (e, st'))" "sig_ok (sg (io st))"
  shows "sig_ok (sg (io st')) \<and> send_lock (io st') = send_lock (io st) \<and>
    ev_hndl (snd (base (io st'))) = ev_hndl (snd (base (io st)))"
proof -
  from assms(1) obtain iovs where i: "sndhead_preinstall_iovs st 100 = Ok iovs"
    by (auto simp: simple_send_def obind_eq_Ok)
  show ?thesis
  proof (cases "iovs = []")
    case False
    with assms(1) i obtain r k where r: "rex_sock_sendv (rs (io st)) iovs (krn st) = Ok (r, k)"
      by (auto simp: simple_send_def obind_eq_Ok)
    show ?thesis
    proof (cases "\<exists>n. r = Inr n \<and> n \<noteq> 0")
      case True
      then obtain n where n: "r = Inr n" "n \<noteq> 0" by auto
      with assms(1) i r False obtain c h where c: "msgbuf_head_install_iovs (snd (base (io st))) (int n) = Ok (c, h)"
        "rm_sent g c (set_base ((base (io st))\<lparr>snd := h\<rparr>) (st\<lparr>krn := k\<rparr>)) = Some (Ok st')"
        by (auto simp: simple_send_def sndhead_install_iovs_def obind_eq_Ok)
      have "ev_hndl h = ev_hndl (snd (base (io st)))"
        using c(1) by (auto simp: msgbuf_head_install_iovs_def cbind_eq_Ok)
      with rm_sent_frame [OF c(2), of "ev_hndl h"] assms(2) show ?thesis by simp
    next
      case nr: False
      then have "st' = st\<lparr>krn := k\<rparr>"
        using assms(1) i r False by (cases r) (auto simp: simple_send_def)
      with assms(2) show ?thesis by simp
    qed
  qed (use assms i in \<open>auto simp: simple_send_def\<close>)
qed

lemma sio_step_inv: "sio_step g r s \<Longrightarrow> run_inv r \<Longrightarrow> run_inv s"
proof (induction rule: sio_step.induct)
  case (send resumed m r w st)
  then show ?case by (blast intro: send_inv)
next
  case (recv resumed r x st)
  then have "sig_ok (sg (io (rst r)))" by (simp add: run_inv_def)
  from qframe_inv [OF recv(2) on_base_qframe [OF recv(1) this]] show ?case by (blast dest: rcv_ops_snd)
next
  case (read r x st)
  then have "sig_ok (sg (io (rst r)))" by (simp add: run_inv_def)
  from qframe_inv [OF read(3) sio_connector_rcv_qframe [OF read(2) this]] show ?case .
next
  case (epipe r)
  have "sig_ok (sg (io (rst r)))" using epipe(2) by (simp add: run_inv_def)
  then have "qframe (rst r) (mark_epipe (rst r))"
    by (auto simp: qframe_def mark_epipe_def Let_def et_events_def)
  from qframe_inv [OF epipe(2) this] show ?case .
next
  case (take_signal r x s)
  then have ok: "sig_ok (sg (io (rst r)))" by (simp add: run_inv_def)
  note g = ev_get_signals_ok [OF ok take_signal(2)]
  from g(2) have "pending (sg (io (rst r))) = x # pending s"
    using g(3) by (cases "pending (sg (io (rst r)))") auto
  with g(1) take_signal(1,3) show ?case
    by (auto simp: run_inv_def will_send_def et_events_def)
next
  case (other_signal r x st)
  have ok: "sig_ok (sg (io (rst r)))" using other_signal(4) by (simp add: run_inv_def)
  from other_signal(2,3) have "io st = io (rst r) \<and> et_events st AND EV_WRITE = et_events (rst r) AND EV_WRITE"
    by (auto simp: sio_usignal_hndl_def split: if_splits dest: try_read_frame)
  with other_signal(1,2,4) show ?case by (auto simp: run_inv_def will_send_def)
next
  case (lock r st)
  then show ?case by (auto simp: run_inv_def will_send_def sio_lock_send_def et_events_def split: if_splits)
next
  case (flush r e st)
  have ok: "sig_ok (sg (io (rst r)))" using flush(3) by (simp add: run_inv_def)
  from simple_send_frame [OF flush(2) ok] flush(1,3) show ?case
    by (auto simp: run_inv_def will_send_def)
next
  case (unlock r st)
  from end_send_frame [OF unlock(2)] unlock(1,3) show ?case
    by (auto simp: run_inv_def will_send_def)
qed

lemma sio_reach_inv: "sio_reach g r s \<Longrightarrow> run_inv r \<Longrightarrow> run_inv s"
  by (induction rule: sio_reach.induct) (auto intro: sio_step_inv)

definition run_start :: "sio \<Rightarrow> evset \<Rightarrow> kern \<Rightarrow> sio_run" where
  "run_start t es k = \<lparr>rst = \<lparr>io = t, el = es, krn = k, log = []\<rparr>, rpc = Idle\<rparr>"

lemma run_start_inv: "tcp_open cap v a b r = Ok t \<Longrightarrow> run_inv (run_start t es k)"
  by (auto simp: tcp_open_def salloc_def ev_sig_init_def efd_init_def run_start_def run_inv_def sig_ok_def
      pending_def efd_ok_def msgbuf_head_ev_hndl_def sockbase_init_def msgbuf_head_init_def cbind_eq_Ok
      split: cres.splits)

section \<open>Flushing the send queue\<close>

definition send_ok :: "grants \<Rightarrow> sio_st \<Rightarrow> bool" where
  "send_ok g st \<longleftrightarrow> sock_ok (base (io st)) \<and> sig_ready g (sg (io st)) \<and>
     sending (bh_msgs (snd (base (io st)))) \<and> ss_vfptr (rs (io st)) \<noteq> None"

text \<open>The bytes the kernel took: calls and answers side by side.\<close>

fun took :: "ksys list \<Rightarrow> kans list \<Rightarrow> byte list" where
  "took (KSendmsg fd segs # cs) (KOk n # as) = take n (concat segs) @ took cs as"
| "took (c # cs) (a # as) = took cs as"
| "took cs as = []"

lemma usize_reset [simp]: "usize (reset m) = usize m"
  by (simp add: usize_def)

lemma head_ok_reset:
  assumes "head_ok h" "map reset ms = map reset (bh_msgs h)"
  shows "head_ok (h\<lparr>bh_msgs := ms\<rparr>)"
proof -
  have "map usize ms = map usize (bh_msgs h)"
    using arg_cong [OF assms(2), of "map usize"] by (simp add: comp_def)
  with assms(1) show ?thesis by (simp add: head_ok_def)
qed

lemma rm_sent_ok:
  "n \<le> length (bh_msgs (snd (base (io st)))) \<Longrightarrow> sock_ok (base (io st)) \<Longrightarrow> sig_ready g (sg (io st)) \<Longrightarrow>
   \<exists>st'. rm_sent g n st = Some (Ok st') \<and> sock_ok (base (io st')) \<and> sig_ready g (sg (io st')) \<and>
     bh_msgs (snd (base (io st'))) = drop n (bh_msgs (snd (base (io st)))) \<and>
     rcv (base (io st')) = rcv (base (io st)) \<and> rs (io st') = rs (io st) \<and> krn st' = krn st"
proof (induction n arbitrary: st)
  case (Suc n)
  let ?sb = "base (io st)"
  obtain m ms where m: "bh_msgs (snd ?sb) = m # ms" using Suc.prems(1) by (cases "bh_msgs (snd ?sb)") auto
  have ok: "head_ok (rcv ?sb)" "head_ok (snd ?sb)" using Suc.prems(2) by (auto simp: sock_ok_def)
  from msgbuf_head_out_ok [OF ok(2) m] obtain evs h where
    h: "msgbuf_head_out (snd ?sb) = Ok (m, evs, h)" "head_ok h" "bh_msgs h = ms" by blast
  then obtain outs where rm: "snd_msgbuf_head_rm ?sb = Ok (Some m, outs, ?sb\<lparr>snd := h\<rparr>)"
    using ok by (simp add: snd_msgbuf_head_rm_def msgbuf_head_out_msg_def emitting_ok)
  obtain st1 where st1: "on_base g snd_msgbuf_head_rm st = Some (Ok (Some m, st1))"
    "sframe (set_base (?sb\<lparr>snd := h\<rparr>) st) st1" "sig_ready g (sg (io st1))"
    using on_base_ready [of snd_msgbuf_head_rm st, OF rm Suc.prems(3)] by blast
  note f = sframeD [OF st1(2)]
  have "n \<le> length (bh_msgs (snd (base (io st1))))" "sock_ok (base (io st1))"
    using Suc.prems(1) m f(1) h ok(1) by simp_all
  from Suc.IH [OF this st1(3)] st1(1) f m h(3) show ?case by auto
qed simp

lemma simple_send_ok:
  assumes "send_ok g st"
  shows "\<exists>e st' cs. simple_send g st = Some (Ok (e, st')) \<and> send_ok g st' \<and>
    calls (krn st') = calls (krn st) @ cs \<and> rcv (base (io st')) = rcv (base (io st)) \<and>
    (\<exists>j. map reset (bh_msgs (snd (base (io st')))) = drop j (map reset (bh_msgs (snd (base (io st)))))) \<and>
    took cs (answers (krn st)) @ remainings (bh_msgs (snd (base (io st')))) =
      remainings (bh_msgs (snd (base (io st)))) \<and>
    (case e of
       None \<Rightarrow> answers (krn st) \<noteq> [] \<and> answers (krn st') = tl (answers (krn st)) \<and> length cs = 1
     | Some x \<Rightarrow> x \<in> {EAGAIN, EPIPE, ENONE} \<and>
         (bh_msgs (snd (base (io st'))) = [] \<longrightarrow> x = EAGAIN))"
proof -
  let ?sb = "base (io st)" and ?ms = "bh_msgs (snd (base (io st)))"
  have a: "sock_ok ?sb" "sig_ready g (sg (io st))" "sending ?ms" using assms by (auto simp: send_ok_def)
  obtain v where v: "ss_vfptr (rs (io st)) = Some v" using assms by (auto simp: send_ok_def)
  from preinstall_take [OF a(3), of 100] obtain segs rest where
    p: "sndhead_preinstall_iovs st 100 = Ok segs" "length segs \<le> 100" "remainings ?ms = concat segs @ rest"
    by (auto simp: sndhead_preinstall_iovs_def)
  show ?thesis
  proof (cases "segs = []")
    case True
    with p(1) show ?thesis using assms
      by (intro exI [of _ "Some EAGAIN"] exI [of _ st] exI [of _ "[]"]) (auto simp: simple_send_def intro: exI [of _ 0])
  next
    case seg: False
    then have ne: "?ms \<noteq> []" using p(1)
      by (auto simp: sndhead_preinstall_iovs_def msgbuf_head_preinstall_iovs_def)
    define k1 where "k1 = (krn st)\<lparr>answers := tl (answers (krn st)),
      calls := calls (krn st) @ [KSendmsg (ss_fd (rs (io st))) segs]\<rparr>"
    have t100: "take 100 segs = segs" using p(2) by simp
    have send: "rex_sock_sendv (rs (io st)) segs (krn st) =
        Ok (case answers (krn st) of
              [] \<Rightarrow> Inl EPIPE
            | KOk n # _ \<Rightarrow> Inr (min n (length (concat segs)))
            | KFail e # _ \<Rightarrow> Inl (if e \<in> again_errnos then EAGAIN else EPIPE)
            | _ \<Rightarrow> Inl EPIPE, k1)"
      using v by (auto simp: rex_sock_sendv_def rex_gen_send_def sys_def k1_def t100 again_errnos_def
          split: list.splits kans.splits)
    show ?thesis
    proof (cases "\<exists>n as. answers (krn st) = KOk n # as \<and> min n (length (concat segs)) \<noteq> 0")
      case False
      let ?st = "st\<lparr>krn := k1\<rparr>"
      obtain x where x: "simple_send g st = Some (Ok (Some x, ?st))" "x \<in> {EAGAIN, EPIPE, ENONE}"
      proof (cases "\<exists>n as. answers (krn st) = KOk n # as")
        case True
        then obtain n as where "answers (krn st) = KOk n # as" "min n (length (concat segs)) = 0"
          using False by blast
        then have "simple_send g st = Some (Ok (Some ENONE, ?st))"
          using p(1) seg send by (simp add: simple_send_def)
        then show ?thesis by (rule that) simp
      next
        case other: False
        then obtain e where "rex_sock_sendv (rs (io st)) segs (krn st) = Ok (Inl e, k1)" "e \<in> {EAGAIN, EPIPE}"
          using send by (auto split: list.splits kans.splits if_splits)
        then show ?thesis using p(1) seg that [of e] by (auto simp: simple_send_def)
      qed
      have "took [KSendmsg (ss_fd (rs (io st))) segs] (answers (krn st)) = []"
      proof (cases "answers (krn st)")
        case (Cons a as)
        then show ?thesis using False by (cases a) (auto simp: min_def split: if_splits)
      qed simp
      with x assms ne show ?thesis
        by (intro exI [of _ "Some x"] exI [of _ ?st] exI [of _ "[KSendmsg (ss_fd (rs (io st))) segs]"])
           (auto simp: send_ok_def k1_def intro: exI [of _ 0])
    next
      case True
      then obtain n as where n: "answers (krn st) = KOk n # as" "min n (length (concat segs)) \<noteq> 0" by auto
      define len where "len = min n (length (concat segs))"
      have len: "0 < int len" "int len \<le> int (length (remainings ?ms))" using n(2) p(3) by (auto simp: len_def)
      from install_queue_spec [OF a(3) len] obtain j ms' where
        q: "install_queue ?ms (int len) = Ok (j, ms', 0)" "j \<le> length ms'" "length ms' = length ?ms"
          "sending (drop j ms')" "remainings (drop j ms') = drop len (remainings ?ms)"
          "map reset ms' = map reset ?ms" by auto
      let ?h = "(snd ?sb)\<lparr>bh_msgs := ms'\<rparr>"
      let ?st = "set_base (?sb\<lparr>snd := ?h\<rparr>) (st\<lparr>krn := k1\<rparr>)"
      have h: "head_ok ?h" using a(1) q(6) by (intro head_ok_reset) (auto simp: sock_ok_def)
      have "\<exists>st'. rm_sent g j ?st = Some (Ok st') \<and> sock_ok (base (io st')) \<and> sig_ready g (sg (io st')) \<and>
          bh_msgs (snd (base (io st'))) = drop j ms' \<and>
          rcv (base (io st')) = rcv ?sb \<and> rs (io st') = rs (io st) \<and> krn st' = k1"
        using rm_sent_ok [of j ?st g] q(2) h a by (simp add: sock_ok_def)
      then obtain st' where st': "rm_sent g j ?st = Some (Ok st')" "sock_ok (base (io st'))"
        "sig_ready g (sg (io st'))" "bh_msgs (snd (base (io st'))) = drop j ms'"
        "rcv (base (io st')) = rcv ?sb" "rs (io st') = rs (io st)" "krn st' = k1" by blast
      have "msgbuf_head_install_iovs (snd ?sb) (int len) = Ok (j, ?h)"
        using q(1) by (simp add: msgbuf_head_install_iovs_def)
      then have "sndhead_install_iovs g (int len) (st\<lparr>krn := k1\<rparr>) = Some (Ok st')"
        using st'(1) by (simp add: sndhead_install_iovs_def)
      then have "simple_send g st = Some (Ok (None, st'))"
        using p(1) seg send n len(1) by (simp add: simple_send_def len_def [symmetric])
      moreover have "took [KSendmsg (ss_fd (rs (io st))) segs] (answers (krn st)) = take len (remainings ?ms)"
        using n(1) p(3) by (simp add: len_def min_def)
      ultimately show ?thesis
        using st' q v n(1)
        by (intro exI [of _ None] exI [of _ st'] exI [of _ "[KSendmsg (ss_fd (rs (io st))) segs]"])
           (auto simp: send_ok_def k1_def drop_map [symmetric])
    qed
  qed
qed

lemma took_append:
  "length cs \<le> length as \<Longrightarrow> took (cs @ ds) as = took cs as @ took ds (drop (length cs) as)"
proof (induction cs as rule: took.induct)
  case (1 fd segs cs n as)
  then show ?case by simp
qed auto

lemma flush_ok:
  "send_ok g st \<Longrightarrow> length (answers (krn st)) < n \<Longrightarrow>
   \<exists>e st' cs. flush_snd_msgbuf n g st = Some (Ok (e, st')) \<and> send_ok g st' \<and>
    calls (krn st') = calls (krn st) @ cs \<and> rcv (base (io st')) = rcv (base (io st)) \<and>
    (\<exists>j. map reset (bh_msgs (snd (base (io st')))) = drop j (map reset (bh_msgs (snd (base (io st)))))) \<and>
    took cs (answers (krn st)) @ remainings (bh_msgs (snd (base (io st')))) =
      remainings (bh_msgs (snd (base (io st)))) \<and> e \<in> {EAGAIN, EPIPE, ENONE} \<and>
    (bh_msgs (snd (base (io st'))) = [] \<longrightarrow> e = EAGAIN)"
proof (induction n arbitrary: st)
  case (Suc n)
  from simple_send_ok [OF Suc.prems(1)] obtain r st1 c1 j1 where s:
    "simple_send g st = Some (Ok (r, st1))" "send_ok g st1" "calls (krn st1) = calls (krn st) @ c1"
    "rcv (base (io st1)) = rcv (base (io st))"
    "map reset (bh_msgs (snd (base (io st1)))) = drop j1 (map reset (bh_msgs (snd (base (io st)))))"
    "took c1 (answers (krn st)) @ remainings (bh_msgs (snd (base (io st1)))) =
      remainings (bh_msgs (snd (base (io st))))"
    "case r of None \<Rightarrow> answers (krn st) \<noteq> [] \<and> answers (krn st1) = tl (answers (krn st)) \<and> length c1 = 1
     | Some x \<Rightarrow> x \<in> {EAGAIN, EPIPE, ENONE} \<and> (bh_msgs (snd (base (io st1))) = [] \<longrightarrow> x = EAGAIN)"
    by blast
  show ?case
  proof (cases r)
    case None
    with s(7) have a: "answers (krn st) \<noteq> []" "answers (krn st1) = drop (length c1) (answers (krn st))"
      "length c1 \<le> length (answers (krn st))" "length (answers (krn st1)) < length (answers (krn st))"
      by (auto simp: drop_Suc Suc_le_eq)
    then have "length (answers (krn st1)) < n" using Suc.prems(2) by simp
    from Suc.IH [OF s(2) this] obtain e st' cs j where f:
      "flush_snd_msgbuf n g st1 = Some (Ok (e, st'))" "send_ok g st'" "calls (krn st') = calls (krn st1) @ cs"
      "rcv (base (io st')) = rcv (base (io st1))"
      "map reset (bh_msgs (snd (base (io st')))) = drop j (map reset (bh_msgs (snd (base (io st1)))))"
      "took cs (answers (krn st1)) @ remainings (bh_msgs (snd (base (io st')))) =
        remainings (bh_msgs (snd (base (io st1))))" "e \<in> {EAGAIN, EPIPE, ENONE}"
      "bh_msgs (snd (base (io st'))) = [] \<longrightarrow> e = EAGAIN" by blast
    have "took (c1 @ cs) (answers (krn st)) = took c1 (answers (krn st)) @ took cs (answers (krn st1))"
      using took_append [OF a(3)] a(2) by simp
    moreover have "flush_snd_msgbuf (Suc n) g st = Some (Ok (e, st'))" using s(1) f(1) None by simp
    ultimately show ?thesis using s f
      by (intro exI [of _ e] exI [of _ st'] exI [of _ "c1 @ cs"]) (auto intro: exI [of _ "j + j1"])
  next
    case (Some x)
    then have "flush_snd_msgbuf (Suc n) g st = Some (Ok (x, st1))" using s(1) by simp
    with s Some show ?thesis
      by (intro exI [of _ x] exI [of _ st1] exI [of _ c1]) auto
  qed
qed simp

section \<open>Properties\<close>

text \<open>C12. Receiving on a connection: let the unread bytes of the buffer and the bytes the kernel
  hands over form the wire images of well-formed messages, the last one cut anywhere. Then
  \<open>sio_connector_rcv\<close> queues exactly the complete messages, in order and behind those already
  there, keeps the cut one in the buffer, and touches neither the send queue nor a \<open>BUG_ON\<close>. The size of the
  queue, which \<open>XRCVBUF\<close> is documented to bound, is not looked at.\<close>

theorem sio_connector_rcv_stream:
  assumes "socket_reads (Suc (length (answers (krn st)))) (rs (io st)) (krn st) = Some (Ok (s, k))"
    and "bio_bytes (rbuf (io st)) @ stream_bytes s = wires ms @ p" "list_all wf_msg ms" "partial p"
    and "stream_error s = EAGAIN \<or> stream_bytes s \<noteq> []"
    and "bio_ok (rbuf (io st))" "sock_ok (base (io st))" "sig_ready g (sg (io st))" "alloc g = (\<lambda>_. True)"
  shows "\<exists>st'. sio_connector_rcv g st = Some (Ok (None, st')) \<and>
    bh_msgs (rcv (base (io st'))) = bh_msgs (rcv (base (io st))) @ map reset ms \<and>
    bio_bytes (rbuf (io st')) = p \<and> snd (base (io st')) = snd (base (io st)) \<and>
    bio_ok (rbuf (io st')) \<and> sock_ok (base (io st')) \<and> sig_ready g (sg (io st'))"
proof -
  obtain r b rest where b: "bio_prefetch (mem g) (rbuf (io st)) s = (r, b, rest)" by (metis prod.collapse)
  have "0 < mem g" using assms(8) by (simp add: sig_ready_def)
  note pf = bio_prefetch_bytes [OF assms(6) this b]
  have r: "r = Inr (length (stream_bytes s))" using pf(3) assms(5) by auto
  let ?st = "upd_io (\<lambda>t. t\<lparr>rbuf := b\<rparr>) (st\<lparr>krn := k\<rparr>)"
  obtain st' where st': "rcv_loop (Suc (length (bio_bytes b))) g ?st = Some (Ok st')"
    "sock_ok (base (io st'))" "sig_ready g (sg (io st'))"
    "bh_msgs (rcv (base (io st'))) = bh_msgs (rcv (base (io st))) @ map reset ms"
    "snd (base (io st')) = snd (base (io st))" "bio_ok (rbuf (io st'))" "bio_bytes (rbuf (io st')) = p"
    using rcv_loop_ok [OF assms(9), of ?st ms p "Suc (length (bio_bytes b))"] pf assms by auto
  have "sio_connector_rcv g st = Some (Ok (None, st'))"
    unfolding sio_connector_rcv_def assms(1) using b r st'(1)
    by (simp del: rcv_loop.simps msgbuf_deserialize.simps add: Let_def)
  with st' show ?thesis by blast
qed

text \<open>C13. Sending on a connection: \<open>flush_snd_msgbuf\<close> always returns, whatever the kernel answers,
  and without a \<open>BUG_ON\<close>. The bytes the kernel took in its calls, followed by the bytes still to go,
  are the bytes that were to go: nothing is lost, repeated or reordered; the messages gone from
  the queue are those at its front; the loop ends with \<open>EAGAIN\<close> when the queue is empty.\<close>

theorem flush_snd_msgbuf_stream:
  assumes "send_ok g st" "length (answers (krn st)) < n"
  shows "\<exists>e st' cs. flush_snd_msgbuf n g st = Some (Ok (e, st')) \<and>
    calls (krn st') = calls (krn st) @ cs \<and>
    took cs (answers (krn st)) @ remainings (bh_msgs (snd (base (io st')))) =
      remainings (bh_msgs (snd (base (io st)))) \<and>
    (\<exists>j. map reset (bh_msgs (snd (base (io st')))) = drop j (map reset (bh_msgs (snd (base (io st)))))) \<and>
    (bh_msgs (snd (base (io st'))) = [] \<longrightarrow> e = EAGAIN) \<and> send_ok g st' \<and>
    rcv (base (io st')) = rcv (base (io st))"
  using flush_ok [OF assms] by blast

text \<open>C14. No message is left behind: whatever the interleaving of senders and receivers with the
  steps of the event loop, while messages are queued to be sent either the descriptor is watched
  for \<open>EV_WRITE\<close>, or a signal \<open>EV_SNDBUF_ADD\<close> is pending, or the loop is on its way through the
  write handler.\<close>

theorem sio_send_not_stuck:
  assumes "tcp_open cap v a b r = Ok t" "sio_reach g (run_start t es k) s"
    and "bh_msgs (snd (base (io (rst s)))) \<noteq> []"
  shows "et_events (rst s) AND EV_WRITE \<noteq> 0 \<or> EV_SNDBUF_ADD \<in> set (pending (sg (io (rst s)))) \<or>
    rpc s \<in> {Got EV_SNDBUF_ADD, Flushing, Flushed}"
proof -
  have "run_inv s" by (rule sio_reach_inv [OF assms(2) run_start_inv [OF assms(1)]])
  with assms(3) show ?thesis by (simp add: run_inv_def will_send_def)
qed

section \<open>Witnesses\<close>

definition grants1 :: grants where
  "grants1 = \<lparr>mem = 1, alloc = (\<lambda>_. True), fuel = 2\<rparr>"

definition sio1 :: sio where
  "sio1 = \<lparr>base = (sockbase_init TcpConnector)\<lparr>
             rcv := msgbuf_head_ev_hndl (msgbuf_head_init default_wnd) (Some tcps_rcvhead_vfptr),
             snd := msgbuf_head_ev_hndl (msgbuf_head_init default_wnd) (Some tcps_sndhead_vfptr)\<rparr>,
     sg = \<lparr>is_attached = SIG_UNATTACHED_MAGIC, sig_efd = \<lparr>p_cap = 64, p_buf = [], unsignal_size = 0\<rparr>,
           signals = bio_init\<rparr>,
     et = 0, sig_et = 1, rs = rex0, rbuf = bio_init, binded = False, send_lock = False\<rparr>"

definition evset1 :: evset where
  "evset1 = \<lparr>ev_backend = Poll, fdds = [], fd_size = 0, ev_store = (\<lambda>_. fdd_init), ep_answers = [], ep_calls = []\<rparr>"

lemma sio1_ok:
  "sock_ok (base sio1)" "sig_ready grants1 (sg sio1)" "sig_ok (sg sio1)" "bio_ok (rbuf sio1)"
  "bio_bytes (rbuf sio1) = []" "rs sio1 = rex0" "bh_msgs (snd (base sio1)) = []"
  "bh_msgs (rcv (base sio1)) = []" "alloc grants1 = (\<lambda>_. True)" "pending (sg sio1) = []"
  by (simp_all add: sio1_def sock_ok_def sockbase_init_def head_ok_def msgbuf_head_init_def
      msgbuf_head_ev_hndl_def sig_ready_def sig_ok_def pending_def grants1_def efd_ok_def)

lemma partial_Nil: "partial []"
  unfolding partial_def
  by (rule exI [of _ "msg0 []"], rule exI [of _ 0]) (simp add: msg0_def wire_eq msgbuf_base_def)

theorem sio_connector_rcv_stream_witness:
  "\<exists>st'. sio_connector_rcv grants1
       \<lparr>io = sio1, el = evset1, krn = kern0 [KData (wire (msg0 [7])), KFail EAGAIN], log = []\<rparr> =
       Some (Ok (None, st')) \<and> bh_msgs (rcv (base (io st'))) = [msg0 [7]]"
proof -
  let ?w = "wire (msg0 [7])"
  let ?st = "\<lparr>io = sio1, el = evset1, krn = kern0 [KData ?w, KFail EAGAIN], log = []\<rparr>"
  have len: "length ?w = 9" by (simp add: msg0_def msgbuf_base_def)
  then have w: "?w \<noteq> []" "take PAGE_SIZE ?w = ?w" by (auto simp: PAGE_SIZE_def)
  obtain k where k: "socket_reads (Suc (length (answers (krn ?st)))) (rs (io ?st)) (krn ?st) =
      Some (Ok ([Inr ?w, Inl EAGAIN], k))"
    using w by (simp add: sio1_ok rex_sock_recv_def rex_sock_recvv_def rex0_def rex_gen_recv_def sys_def
        kern0_def again_errnos_def del: wire.simps)
  have "reset (msg0 [7]) = msg0 [7]" "wf_msg (msg0 [7])" by (simp_all add: msg0_def)
  with sio_connector_rcv_stream [of ?st "[Inr ?w, Inl EAGAIN]" k "[msg0 [7]]" "[]" grants1] k
  show ?thesis by (auto simp: sio1_ok partial_Nil simp del: wire.simps socket_reads.simps)
qed

definition sio_st1 :: sio_st where
  "sio_st1 = \<lparr>io = sio1\<lparr>base := (base sio1)\<lparr>snd := (snd (base sio1))\<lparr>bh_msgs := [msg0 []], bh_size := 0\<rparr>\<rparr>\<rparr>,
     el = evset1, krn = kern0 [KOk 3, KFail EAGAIN], log = []\<rparr>"

theorem flush_snd_msgbuf_stream_witness:
  "\<exists>e st'. flush_snd_msgbuf 3 grants1 sio_st1 = Some (Ok (e, st')) \<and> send_ok grants1 st'"
proof -
  have "sending [msg0 []]" by (rule sending_fresh) (simp_all add: msg0_def)
  then have "send_ok grants1 sio_st1"
    using sio1_ok by (simp add: send_ok_def sio_st1_def sock_ok_def head_ok_def usize_def msg0_def rex0_def
        del: sending.simps)
  from flush_snd_msgbuf_stream [OF this, of 3] show ?thesis
    by (auto simp: sio_st1_def kern0_def simp del: flush_snd_msgbuf.simps)
qed

theorem sio_send_not_stuck_witness:
  "\<exists>t s. tcp_open 64 TcpConnector 0 1 rex0 = Ok t \<and> sio_reach grants1 (run_start t evset1 (kern0 [])) s \<and>
     bh_msgs (snd (base (io (rst s)))) = [msg0 []] \<and> EV_SNDBUF_ADD \<in> set (pending (sg (io (rst s))))"
proof -
  have i: "rex_sock_init rex0 REX_AF_TCP = Ok rex0"
    by (simp add: rex_sock_init_def get_rex_vfptr_def rex_vfptrs_def REX_AF_TCP_def REX_AF_TCP6_def
        REX_AF_LOCAL_def rex_gen_init_def rex0_def)
  have t: "tcp_open 64 TcpConnector 0 1 rex0 = Ok sio1"
    by (simp add: tcp_open_def salloc_def ev_sig_init_def efd_init_def i sio1_def sockbase_init_def)
  let ?r = "run_start sio1 evset1 (kern0 [])"
  obtain outs sb where a: "snd_msgbuf_head_add False (base sio1) (msg0 []) = Ok (Done (), outs, sb)"
    "bh_msgs (snd sb) = [msg0 []]"
    using snd_add_spec [OF sio1_ok(1), of "msg0 []"] sio1_ok(7)
    by (auto simp: snd_must_wait_def msgbuf_can_in_def)
  have "\<exists>st. on_base grants1 (\<lambda>sb. snd_msgbuf_head_add False sb (msg0 [])) (rst ?r) = Some (Ok (Done (), st)) \<and>
      sframe (set_base sb (rst ?r)) st"
    using on_base_ready [of "\<lambda>sb. snd_msgbuf_head_add False sb (msg0 [])" "rst ?r" "Done ()" outs sb grants1] a(1)
    by (auto simp: run_start_def sio1_ok)
  then obtain st where st: "sio_connector_send grants1 False (msg0 []) (rst ?r) = Some (Ok (Done (), st))"
    "sframe (set_base sb (rst ?r)) st"
    by (auto simp: sio_connector_send_def)
  have r: "sio_reach grants1 ?r (?r\<lparr>rst := st\<rparr>)"
    by (rule sio_reach.step [OF sio_reach.refl sio_step.send [OF st(1)]])
  note f = sframeD [OF st(2)]
  have m: "bh_msgs (snd (base (io st))) = [msg0 []]" using f(1) a(2) by simp
  have "et_events st = 0" using f(7) by (simp add: run_start_def et_events_def evset1_def fdd_init_def)
  with sio_send_not_stuck [OF t r] m
  have "EV_SNDBUF_ADD \<in> set (pending (sg (io st)))" by (simp add: run_start_def)
  with t r m show ?thesis by (intro exI [of _ sio1] exI [of _ "?r\<lparr>rst := st\<rparr>"]) simp
qed

end
