(* ===== verification/Sockaddr.thy ===== *)
theory Sockaddr
  imports Sock
begin

text \<open>
  The addresses of \<^verbatim>\<open>src/src/socket/sockaddr.c\<close>: \<open>token@protocol://address\<close>. A C string is the list
  of its characters before the NUL; what \<open>strncpy\<close> writes is the list of the characters it
  copies. Offsets stand for the pointers \<open>strchr\<close> and \<open>strstr\<close> return.
\<close>

section \<open>The parsers\<close>

definition sockaddr_token :: "string \<Rightarrow> nat \<Rightarrow> string cres" where
  "sockaddr_token url sz =
     (case strchr_at url CHR ''@'' of
        None \<Rightarrow> Err EINVAL
      | Some at \<Rightarrow> Ok (take (if sz \<le> at then sz else at) url))"

text \<open>\<open>have_strndup\<close> is the build-time test: without \<open>strndup\<close> the copy is not cut at
  \<open>://\<close>. \<open>at >= pfp\<close> compares pointers and is false for a null \<open>at\<close>. \<open>pf_flags\<close> are the
  four tests on the copy.\<close>

definition pf_flags :: "string \<Rightarrow> int" where
  "pf_flags p =
     (let pf = (if strstr_at p ''tcp'' \<noteq> None then XAF_TCP else 0);
          pf = pf OR (if strstr_at p ''ipc'' \<noteq> None then XAF_IPC else 0);
          pf = pf OR (if strstr_at p ''inproc'' \<noteq> None then XAF_INPROC else 0)
      in pf OR (if strstr_at p ''mix'' \<noteq> None then XAF_MIX else 0))"

definition sockaddr_pf :: "bool \<Rightarrow> string \<Rightarrow> int cres" where
  "sockaddr_pf have_strndup url =
     (let at = strchr_at url CHR ''@''
      in case strstr_at url ''://'' of
           None \<Rightarrow> Err EINVAL
         | Some pfp \<Rightarrow>
             if (case at of Some a \<Rightarrow> a \<ge> pfp | None \<Rightarrow> False) then Err EINVAL
             else let a = (case at of Some a \<Rightarrow> a + 1 | None \<Rightarrow> 0);
                      p = (if have_strndup then take (pfp - a) (drop a url) else drop a url);
                      pf = pf_flags p
                  in if pf = 0 then Err EINVAL else Ok pf)"

definition sockaddr_addr :: "string \<Rightarrow> nat \<Rightarrow> string cres" where
  "sockaddr_addr url sz =
     (case strstr_at url ''://'' of
        None \<Rightarrow> Err EINVAL
      | Some sock \<Rightarrow> Ok (take sz (drop (sock + length ''://'') url)))"

definition pf_str :: "string list" where
  "pf_str = ['''', ''PF_TCP'', ''PF_IPC'', ''PF_TCP|PF_IPC'', ''PF_INPROC'', ''PF_TCP|PF_INPROC'',
             ''PF_IPC|PF_INPROC'', ''PF_TCP|PF_IPC|PF_INPROC'']"

section \<open>Lemmas\<close>

lemma strchr_at_append: "c \<notin> set p \<Longrightarrow> strchr_at (p @ c # r) c = Some (length p)"
  by (induction p) auto

lemma strchr_at_append_None: "c \<notin> set p \<Longrightarrow> strchr_at p c = None"
  by (simp add: strchr_at_None)

lemma strstr_at_append: "c \<notin> set p \<Longrightarrow> strstr_at (p @ c # n @ r) (c # n) = Some (length p)"
proof (induction p)
  case Nil
  then show ?case by (simp add: is_prefix_def)
next
  case (Cons a p)
  then have "\<not> is_prefix (c # n) (a # p @ c # n @ r)" by (auto simp: is_prefix_def)
  with Cons show ?case by simp
qed

fun proto_pf :: "string \<Rightarrow> int" where
  "proto_pf p =
     (if p = ''tcp'' then XAF_TCP else if p = ''ipc'' then XAF_IPC
      else if p = ''inproc'' then XAF_INPROC else XAF_MIX)"

lemma pf_flags_one:
  "pf_flags ''tcp'' = proto_pf ''tcp'' \<and> proto_pf ''tcp'' \<noteq> 0"
  "pf_flags ''ipc'' = proto_pf ''ipc'' \<and> proto_pf ''ipc'' \<noteq> 0"
  "pf_flags ''inproc'' = proto_pf ''inproc'' \<and> proto_pf ''inproc'' \<noteq> 0"
  "pf_flags ''mix'' = proto_pf ''mix'' \<and> proto_pf ''mix'' \<noteq> 0"
  by code_simp+

lemma pf_flags_proto:
  "p \<in> {''tcp'', ''ipc'', ''inproc'', ''mix''} \<Longrightarrow> pf_flags p = proto_pf p \<and> proto_pf p \<noteq> 0"
  using pf_flags_one by (elim insertE emptyE) (simp_all only: simp_thms)

section \<open>Properties\<close>

text \<open>An address \<open>token@protocol://rest\<close> with one of the four protocols and a token without
  \<open>@\<close> and \<open>:\<close> is taken apart: the protocol family is that of the protocol, the address is the
  rest and the token the token, each cut at the size of the buffer.\<close>

theorem sockaddr_parts:
  assumes "CHR ''@'' \<notin> set tok" "CHR '':'' \<notin> set tok"
    and "proto \<in> {''tcp'', ''ipc'', ''inproc'', ''mix''}"
  shows "sockaddr_pf True (tok @ ''@'' @ proto @ ''://'' @ rest) = Ok (proto_pf proto) \<and>
    sockaddr_addr (tok @ ''@'' @ proto @ ''://'' @ rest) sz = Ok (take sz rest) \<and>
    sockaddr_token (tok @ ''@'' @ proto @ ''://'' @ rest) sz = Ok (take sz tok)"
proof -
  let ?url = "tok @ ''@'' @ proto @ ''://'' @ rest"
  have at: "strchr_at ?url CHR ''@'' = Some (length tok)"
    using strchr_at_append [OF assms(1), of "proto @ ''://'' @ rest"] by simp
  have "CHR '':'' \<notin> set (tok @ ''@'' @ proto)" using assms(2,3) by auto
  from strstr_at_append [OF this, of "''//''" rest]
  have col: "strstr_at ?url ''://'' = Some (length tok + 1 + length proto)" by simp
  have p: "take (length proto) (drop (length tok + 1) ?url) = proto" by simp
  have pf: "pf_flags proto = proto_pf proto" "proto_pf proto \<noteq> 0"
    using assms(3) pf_flags_proto by blast+
  have "sockaddr_pf True ?url =
      (let pf = pf_flags (take (length proto) (drop (length tok + 1) ?url)) in if pf = 0 then Err EINVAL else Ok pf)"
    unfolding sockaddr_pf_def at col by (simp del: drop_append take_append)
  then have "sockaddr_pf True ?url = Ok (proto_pf proto)" using pf by (simp only: p Let_def if_False)
  moreover have "sockaddr_addr ?url sz = Ok (take sz rest)"
    unfolding sockaddr_addr_def col by (simp add: eval_nat_numeral)
  moreover have "sockaddr_token ?url sz = Ok (take sz tok)"
    unfolding sockaddr_token_def at by (auto simp: min_def)
  ultimately show ?thesis by blast
qed

theorem sockaddr_parts_witness:
  "sockaddr_pf True ''g@tcp://127.0.0.1:80'' = Ok XAF_TCP \<and>
   sockaddr_addr ''g@tcp://127.0.0.1:80'' 4096 = Ok ''127.0.0.1:80'' \<and>
   sockaddr_token ''g@tcp://127.0.0.1:80'' 128 = Ok ''g''"
  using sockaddr_parts [of "''g''" "''tcp''" "''127.0.0.1:80''" 4096]
    sockaddr_parts [of "''g''" "''tcp''" "''127.0.0.1:80''" 128] by simp

text \<open>The protocol families are combined with a bitwise or but are not bit flags: an address
  that names both the in-process and the TCP transport is taken for an IPC address.\<close>

theorem sockaddr_pf_not_flags:
  "sockaddr_pf have_strndup ''inproc+tcp://x'' = Ok XAF_IPC \<and>
   sockaddr_pf have_strndup ''tcp+ipc://x'' = Ok XAF_IPC"
  by (simp add: sockaddr_pf_def pf_flags_def is_prefix_def XAF_TCP_def XAF_IPC_def XAF_INPROC_def XAF_MIX_def)

end
