(* ===== verification/Arrays.thy ===== *)
theory Arrays
  imports Prelude
begin

text \<open>
  The two growable arrays of \<^verbatim>\<open>src/src/utils/str_array.c\<close> and \<^verbatim>\<open>unorder_p_array.c\<close>: a block of
  \<open>cap\<close> slots, a null pointer in the unused ones, doubled when it is full; and \<open>str_split\<close>.
  \<open>alloc n\<close> is whether \<open>mem_zalloc\<close> of \<open>n\<close> bytes succeeds; pointers take eight bytes.
\<close>

section \<open>Strings: str\_array\<close>

record str_array =
  sa_size :: nat
  sa_cap :: nat
  sa_at :: "string option list"

definition STR_ARRAY_DEFAULT_CAP :: nat where "STR_ARRAY_DEFAULT_CAP = 10"

definition str_array_init :: "(nat \<Rightarrow> bool) \<Rightarrow> str_array cres" where
  "str_array_init alloc =
     (if \<not> alloc (8 * STR_ARRAY_DEFAULT_CAP) then Bug
      else Ok \<lparr>sa_size = 0, sa_cap = STR_ARRAY_DEFAULT_CAP,
               sa_at = replicate STR_ARRAY_DEFAULT_CAP None\<rparr>)"

text \<open>The sizes \<open>str_array_destroy\<close> passes to \<open>mem_free\<close>: for a string its length without
  the NUL, one less than what was allocated.\<close>

definition str_array_destroy :: "str_array \<Rightarrow> nat list" where
  "str_array_destroy arr =
     map (\<lambda>i. case sa_at arr ! i of Some s \<Rightarrow> length s | None \<Rightarrow> 0) [0..<sa_size arr] @ [8 * sa_cap arr]"

definition str_array_grow :: "(nat \<Rightarrow> bool) \<Rightarrow> str_array \<Rightarrow> str_array cres" where
  "str_array_grow alloc arr =
     (if sa_size arr = sa_cap arr
      then if \<not> alloc (8 * sa_cap arr * 2) then Bug
           else Ok (arr\<lparr>sa_at := take (sa_size arr) (sa_at arr) @ replicate (sa_cap arr * 2 - sa_size arr) None,
                        sa_cap := sa_cap arr * 2\<rparr>)
      else Ok arr)"

definition str_array_add :: "(nat \<Rightarrow> bool) \<Rightarrow> str_array \<Rightarrow> string \<Rightarrow> str_array cres" where
  "str_array_add alloc arr s =
     cbind (str_array_grow alloc arr) (\<lambda>arr.
       if \<not> alloc (length s + 1) then Undef
       else Ok (arr\<lparr>sa_at := (sa_at arr)[sa_size arr := Some s], sa_size := sa_size arr + 1\<rparr>))"

text \<open>
  The loop of \<open>str_split\<close>: a match is cut out and the search goes on behind it. With an empty
  needle \<open>strstr\<close> matches at once and the loop does not end: the fuel makes that \<open>None\<close>.
\<close>

fun str_split_loop :: "(nat \<Rightarrow> bool) \<Rightarrow> nat \<Rightarrow> string \<Rightarrow> string \<Rightarrow> str_array \<Rightarrow> str_array cres option" where
  "str_split_loop alloc 0 cur needle arr = None"
| "str_split_loop alloc (Suc n) cur needle arr =
     (case strstr_at cur needle of
        Some i \<Rightarrow>
          (case str_array_add alloc arr (take i cur) of
             Ok arr' \<Rightarrow>
               str_split_loop alloc n
                 (if needle = [] then [] else drop (i + length needle) cur) needle arr'
           | Err e \<Rightarrow> Some (Err e) | Bug \<Rightarrow> Some Bug | Undef \<Rightarrow> Some Undef)
      | None \<Rightarrow> Some (str_array_add alloc arr cur))"

definition str_split :: "(nat \<Rightarrow> bool) \<Rightarrow> nat \<Rightarrow> string \<Rightarrow> str_array \<Rightarrow> string \<Rightarrow> str_array cres option" where
  "str_split alloc n haystack arr needle = str_split_loop alloc n haystack needle arr"

section \<open>Pointers: unorder\_p\_array\<close>

record 'a unorder_p_array =
  pa_size :: nat
  pa_cap :: nat
  pa_at :: "'a option list"

definition UNORDER_P_ARRAY_DEFAULT_CAP :: nat where "UNORDER_P_ARRAY_DEFAULT_CAP = 10"

definition unorder_p_array_size :: "'a unorder_p_array \<Rightarrow> nat" where
  "unorder_p_array_size arr = pa_size arr"

definition unorder_p_array_init :: "bool \<Rightarrow> 'a unorder_p_array cres" where
  "unorder_p_array_init alloc =
     (if \<not> alloc then Bug
      else Ok \<lparr>pa_size = 0, pa_cap = UNORDER_P_ARRAY_DEFAULT_CAP,
               pa_at = replicate UNORDER_P_ARRAY_DEFAULT_CAP None\<rparr>)"

definition unorder_p_array_push_back ::
  "bool \<Rightarrow> 'a unorder_p_array \<Rightarrow> 'a \<Rightarrow> (nat \<times> 'a unorder_p_array) cres" where
  "unorder_p_array_push_back alloc arr v =
     (let grown =
        (if pa_size arr = pa_cap arr
         then if \<not> alloc then Bug
              else Ok (arr\<lparr>pa_at := take (pa_size arr) (pa_at arr) @
                                      replicate (pa_cap arr * 2 - pa_size arr) None,
                           pa_cap := pa_cap arr * 2\<rparr>)
         else Ok arr)
      in cbind grown (\<lambda>arr.
           Ok (pa_size arr, arr\<lparr>pa_at := (pa_at arr)[pa_size arr := Some v],
                                pa_size := pa_size arr + 1\<rparr>)))"

text \<open>An index past the block is a read outside it.\<close>

definition unorder_p_array_at :: "'a unorder_p_array \<Rightarrow> nat \<Rightarrow> 'a option cres" where
  "unorder_p_array_at arr i = (if i < pa_cap arr then Ok (pa_at arr ! i) else Undef)"

definition unorder_p_array_erase :: "'a unorder_p_array \<Rightarrow> nat \<Rightarrow> 'a unorder_p_array cres" where
  "unorder_p_array_erase arr i =
     (if pa_size arr = 0 \<or> pa_cap arr \<le> i then Undef
      else Ok (arr\<lparr>pa_size := pa_size arr - 1,
                   pa_at := (pa_at arr)[i := pa_at arr ! (pa_size arr - 1)]\<rparr>))"

section \<open>Arrays as lists\<close>

definition sa_ok :: "str_array \<Rightarrow> bool" where
  "sa_ok arr \<longleftrightarrow> 0 < sa_cap arr \<and> sa_size arr \<le> sa_cap arr \<and> length (sa_at arr) = sa_cap arr \<and>
     (\<forall>i < sa_size arr. sa_at arr ! i \<noteq> None)"

definition sa_list :: "str_array \<Rightarrow> string list" where
  "sa_list arr = map the (take (sa_size arr) (sa_at arr))"

lemma str_array_init_ok [invs]: "str_array_init alloc = Ok arr \<Longrightarrow> sa_ok arr \<and> sa_list arr = []"
  by (auto simp: str_array_init_def sa_ok_def sa_list_def STR_ARRAY_DEFAULT_CAP_def split: if_splits)

lemma str_array_grow_ok:
  assumes "sa_ok arr" "\<And>n. alloc n"
  shows "\<exists>arr'. str_array_grow alloc arr = Ok arr' \<and> sa_ok arr' \<and> sa_size arr' = sa_size arr \<and>
    sa_size arr' < sa_cap arr' \<and> take (sa_size arr) (sa_at arr') = take (sa_size arr) (sa_at arr)"
  using assms by (auto simp: str_array_grow_def sa_ok_def nth_append)

lemma str_array_add_ok [invs]:
  assumes "sa_ok arr" "\<And>n. alloc n"
  shows "\<exists>arr'. str_array_add alloc arr s = Ok arr' \<and> sa_ok arr' \<and> sa_list arr' = sa_list arr @ [s]"
proof -
  from str_array_grow_ok [of arr alloc] assms obtain a where
    a: "str_array_grow alloc arr = Ok a" "sa_ok a" "sa_size a = sa_size arr" "sa_size a < sa_cap a"
      "take (sa_size arr) (sa_at a) = take (sa_size arr) (sa_at arr)" by blast
  let ?a = "a\<lparr>sa_at := (sa_at a)[sa_size a := Some s], sa_size := sa_size a + 1\<rparr>"
  have "sa_ok ?a" using a by (auto simp: sa_ok_def nth_list_update)
  moreover have "sa_list ?a = sa_list arr @ [s]"
    using a by (simp add: sa_list_def sa_ok_def take_Suc_conv_app_nth)
  ultimately show ?thesis using a(1) assms(2) by (simp add: str_array_add_def)
qed

fun join :: "string \<Rightarrow> string list \<Rightarrow> string" where
  "join sep [] = []"
| "join sep [x] = x"
| "join sep (x # y # r) = x @ sep @ join sep (y # r)"

lemma join_Cons: "r \<noteq> [] \<Longrightarrow> join sep (x # r) = x @ sep @ join sep r"
  by (cases r) simp_all

lemma strstr_at_first:
  "strstr_at s n = Some i \<Longrightarrow> n \<noteq> [] \<Longrightarrow> strstr_at (take i s) n = None"
proof (induction s arbitrary: i)
  case (Cons c cs)
  show ?case
  proof (cases i)
    case (Suc j)
    with Cons.prems have "\<not> is_prefix n (c # cs)" "strstr_at cs n = Some j"
      by (auto split: if_splits)
    moreover have "\<not> is_prefix n (c # take j cs)" if "\<not> is_prefix n (c # cs)"
    proof
      assume "is_prefix n (c # take j cs)"
      then obtain t where "c # take j cs = n @ t" by (auto dest: is_prefixE)
      then have "c # cs = n @ t @ drop j cs" by (metis append.assoc append_Cons append_take_drop_id)
      with that show False by simp
    qed
    ultimately show ?thesis using Suc Cons.IH Cons.prems(2) by simp
  qed (use Cons.prems in simp)
qed simp

lemma str_split_loop_spec:
  assumes "needle \<noteq> []" "\<And>n. alloc n"
  shows "sa_ok arr \<Longrightarrow> length cur < n \<Longrightarrow>
    \<exists>arr' ps. str_split_loop alloc n cur needle arr = Some (Ok arr') \<and> sa_ok arr' \<and>
      sa_list arr' = sa_list arr @ ps \<and> ps \<noteq> [] \<and> join needle ps = cur \<and>
      (\<forall>p\<in>set ps. strstr_at p needle = None)"
proof (induction n arbitrary: cur arr)
  case (Suc n)
  show ?case
  proof (cases "strstr_at cur needle")
    case None
    from str_array_add_ok [of arr alloc cur, OF Suc.prems(1) assms(2)] obtain a where
      "str_array_add alloc arr cur = Ok a" "sa_ok a" "sa_list a = sa_list arr @ [cur]" by blast
    with None show ?thesis by (intro exI [of _ a] exI [of _ "[cur]"]) simp
  next
    case (Some i)
    from str_array_add_ok [of arr alloc "take i cur", OF Suc.prems(1) assms(2)] obtain a where
      a: "str_array_add alloc arr (take i cur) = Ok a" "sa_ok a" "sa_list a = sa_list arr @ [take i cur]"
      by blast
    note st = strstr_at_Some [OF Some]
    have "length (drop (i + length needle) cur) < n" using st Suc.prems assms(1) by (cases needle) auto
    from Suc.IH [OF a(2) this] obtain arr' ps where
      r: "str_split_loop alloc n (drop (i + length needle) cur) needle a = Some (Ok arr')" "sa_ok arr'"
        "sa_list arr' = sa_list a @ ps" "ps \<noteq> []" "join needle ps = drop (i + length needle) cur"
        "\<forall>p\<in>set ps. strstr_at p needle = None" by blast
    have "cur = take i cur @ needle @ drop (i + length needle) cur"
      using st by (metis append_take_drop_id drop_drop add.commute)
    then have "join needle (take i cur # ps) = cur" using r(4,5) by (simp add: join_Cons)
    then show ?thesis
      using Some a r assms(1) strstr_at_first [OF Some assms(1)]
      by (intro exI [of _ arr'] exI [of _ "take i cur # ps"]) simp
  qed
qed simp

definition pa_ok :: "'a unorder_p_array \<Rightarrow> bool" where
  "pa_ok arr \<longleftrightarrow> 0 < pa_cap arr \<and> pa_size arr \<le> pa_cap arr \<and> length (pa_at arr) = pa_cap arr \<and>
     (\<forall>i<pa_size arr. pa_at arr ! i \<noteq> None)"

definition pa_list :: "'a unorder_p_array \<Rightarrow> 'a list" where
  "pa_list arr = map the (take (pa_size arr) (pa_at arr))"

lemma unorder_p_array_init_ok [invs]:
  "unorder_p_array_init True = Ok arr \<Longrightarrow> pa_ok arr \<and> pa_list arr = []"
  by (auto simp: unorder_p_array_init_def pa_ok_def pa_list_def UNORDER_P_ARRAY_DEFAULT_CAP_def)

lemma unorder_p_array_push_back_ok [invs]:
  assumes "pa_ok arr"
  shows "\<exists>arr'. unorder_p_array_push_back True arr v = Ok (length (pa_list arr), arr') \<and> pa_ok arr' \<and>
    pa_list arr' = pa_list arr @ [v]"
proof -
  define a where "a = (if pa_size arr = pa_cap arr
      then arr\<lparr>pa_at := take (pa_size arr) (pa_at arr) @ replicate (pa_cap arr * 2 - pa_size arr) None,
               pa_cap := pa_cap arr * 2\<rparr> else arr)"
  have a: "pa_size a = pa_size arr" "pa_size a < pa_cap a" "length (pa_at a) = pa_cap a"
    "take (pa_size a) (pa_at a) = take (pa_size arr) (pa_at arr)"
    "\<forall>i<pa_size a. pa_at a ! i \<noteq> None"
    using assms by (auto simp: a_def pa_ok_def nth_append)
  let ?a = "a\<lparr>pa_at := (pa_at a)[pa_size a := Some v], pa_size := pa_size a + 1\<rparr>"
  have "unorder_p_array_push_back True arr v = Ok (pa_size a, ?a)"
    by (simp add: unorder_p_array_push_back_def Let_def a_def)
  moreover have "pa_ok ?a" using a by (auto simp: pa_ok_def nth_list_update)
  moreover have "pa_list ?a = pa_list arr @ [v]"
    using a by (simp add: pa_list_def take_Suc_conv_app_nth)
  moreover have "length (pa_list arr) = pa_size a" using assms a(1) by (simp add: pa_list_def pa_ok_def)
  ultimately show ?thesis by auto
qed

lemma unorder_p_array_erase_ok [invs]:
  assumes "pa_ok arr" "i < pa_size arr"
  shows "\<exists>arr'. unorder_p_array_erase arr i = Ok arr' \<and> pa_ok arr' \<and>
    pa_list arr' = butlast ((pa_list arr)[i := last (pa_list arr)]) \<and> pa_cap arr' = pa_cap arr"
proof -
  let ?a = "arr\<lparr>pa_size := pa_size arr - 1, pa_at := (pa_at arr)[i := pa_at arr ! (pa_size arr - 1)]\<rparr>"
  have n: "0 < pa_size arr" "pa_size arr \<le> length (pa_at arr)" using assms by (auto simp: pa_ok_def)
  have "unorder_p_array_erase arr i = Ok ?a"
    using assms by (simp add: unorder_p_array_erase_def pa_ok_def)
  moreover have "pa_ok ?a" using assms by (auto simp: pa_ok_def nth_list_update)
  moreover have "pa_list ?a = butlast ((pa_list arr)[i := last (pa_list arr)])"
  proof (rule nth_equalityI)
    show "length (pa_list ?a) = length (butlast ((pa_list arr)[i := last (pa_list arr)]))"
      using n by (simp add: pa_list_def)
    fix k
    assume "k < length (pa_list ?a)"
    then have k: "k < pa_size arr - 1" by (simp add: pa_list_def)
    have "last (pa_list arr) = the (pa_at arr ! (pa_size arr - 1))"
      using n by (subst last_conv_nth) (auto simp: pa_list_def)
    then show "pa_list ?a ! k = butlast ((pa_list arr)[i := last (pa_list arr)]) ! k"
      using n k by (cases "i = k") (simp_all add: pa_list_def nth_butlast)
  qed
  moreover have "pa_cap ?a = pa_cap arr" by simp
  ultimately show ?thesis by blast
qed

text \<open>An index behind the elements but inside the block: the last element goes, whatever the caller meant.\<close>

lemma unorder_p_array_erase_past:
  assumes "pa_ok arr" "0 < pa_size arr" "pa_size arr \<le> i" "i < pa_cap arr"
  shows "\<exists>arr'. unorder_p_array_erase arr i = Ok arr' \<and> pa_ok arr' \<and> pa_list arr' = butlast (pa_list arr)"
  using assms by (auto simp: unorder_p_array_erase_def pa_ok_def pa_list_def nth_list_update take_map butlast_conv_take min_def)

lemma pa_size_list: "pa_ok arr \<Longrightarrow> pa_size arr = length (pa_list arr)"
  by (simp add: pa_ok_def pa_list_def)

section \<open>Properties\<close>

text \<open>\<open>str_split\<close> with a non-empty separator returns, with any fuel above the length of the
  string: the pieces appended to the array, joined by the separator, are the string, there is
  at least one, and none contains the separator.\<close>

theorem str_split_join:
  assumes "sa_ok arr" "needle \<noteq> []" "length s < n"
  shows "\<exists>arr' ps. str_split (\<lambda>_. True) n s arr needle = Some (Ok arr') \<and> sa_ok arr' \<and>
    sa_list arr' = sa_list arr @ ps \<and> ps \<noteq> [] \<and> join needle ps = s \<and>
    (\<forall>p\<in>set ps. strstr_at p needle = None)"
  unfolding str_split_def using str_split_loop_spec [of needle "\<lambda>_. True"] assms by simp

theorem str_split_join_witness:
  "\<exists>arr'. str_split (\<lambda>_. True) 9 ''ab+c++d''
       \<lparr>sa_size = 0, sa_cap = 10, sa_at = replicate 10 None\<rparr> ''+'' = Some (Ok arr') \<and>
     join ''+'' (sa_list arr') = ''ab+c++d''"
  using str_split_join [of "\<lparr>sa_size = 0, sa_cap = 10, sa_at = replicate 10 None\<rparr>" "''+''" "''ab+c++d''" 9]
  by (auto simp: sa_ok_def sa_list_def)

text \<open>\<open>str_split\<close> with an empty separator never returns, whatever the fuel.\<close>

theorem str_split_empty_diverges:
  assumes "sa_ok arr"
  shows "str_split (\<lambda>_. True) n s arr [] = None"
proof -
  have "strstr_at cur [] = Some 0" for cur by (cases cur) (simp_all add: is_prefix_def)
  then have "sa_ok arr \<Longrightarrow> str_split_loop (\<lambda>_. True) n s [] arr = None"
  proof (induction n arbitrary: s arr)
    case (Suc n)
    from str_array_add_ok [OF Suc.prems(1), of "\<lambda>_. True" "[]"] obtain a where
      "str_array_add (\<lambda>_. True) arr [] = Ok a" "sa_ok a" by auto
    with Suc show ?case by simp
  qed simp
  with assms show ?thesis by (simp add: str_split_def)
qed

theorem str_split_empty_diverges_witness:
  "str_split (\<lambda>_. True) 100 ''a'' \<lparr>sa_size = 0, sa_cap = 10, sa_at = replicate 10 None\<rparr> [] = None"
  by (rule str_split_empty_diverges) (simp add: sa_ok_def)

end
