(* ===== verification/Pool.thy ===== *)
theory Pool
  imports Interfaces
begin

text \<open>
  Descriptor tables. The library has three of them, each an array of pointers with a stack of
  unused descriptors and a counter: the sockets \<open>xgb\<close> (\<^verbatim>\<open>socket/sockbase.c\<close>), the polls \<open>pg\<close>
  (\<^verbatim>\<open>poll/poll_struct.c\<close>) and the endpoints \<open>sg\<close> (\<^verbatim>\<open>sp/sp_module.c\<close>). The entries of the stack
  below the counter are stale: giving a descriptor back overwrites one of them.
\<close>

section \<open>Tables\<close>

record 'a tbl =
  slots :: "nat \<Rightarrow> 'a option"
  unused :: "nat list"
  used :: nat

definition tbl_init :: "nat \<Rightarrow> 'a tbl" where
  "tbl_init n = \<lparr>slots = (\<lambda>_. None), unused = [0..<n], used = 0\<rparr>"

definition tbl_alloc :: "nat \<Rightarrow> 'a \<Rightarrow> 'a tbl \<Rightarrow> (nat \<times> 'a tbl) cres" where
  "tbl_alloc n x t =
     (if used t \<ge> n then Bug
      else let i = unused t ! used t
           in Ok (i, t\<lparr>used := used t + 1, slots := (slots t)(i := Some x)\<rparr>))"

text \<open>\<open>tbl_push\<close> gives a descriptor back; \<open>tbl_free\<close> also clears its slot.\<close>

definition tbl_push :: "nat \<Rightarrow> 'a tbl \<Rightarrow> 'a tbl" where
  "tbl_push i t = t\<lparr>used := used t - 1, unused := (unused t)[used t - 1 := i]\<rparr>"

definition tbl_free :: "nat \<Rightarrow> 'a tbl \<Rightarrow> 'a tbl" where
  "tbl_free i t = tbl_push i (t\<lparr>slots := (slots t)(i := None)\<rparr>)"

section \<open>The contract\<close>

text \<open>\<open>live t\<close> are the descriptors handed out. An allocation gives one that is not live.\<close>

datatype 'a pool_op = PAlloc 'a | PFree nat

locale id_pool =
  fixes live :: "'t \<Rightarrow> nat set"
    and ok :: "'t \<Rightarrow> bool"
    and limit :: nat
    and alloc :: "'a \<Rightarrow> 't \<Rightarrow> (nat \<times> 't) cres"
    and free :: "nat \<Rightarrow> 't \<Rightarrow> 't"
  assumes alloc_room: "ok t \<Longrightarrow> card (live t) < limit \<Longrightarrow> \<exists>i t'. alloc x t = Ok (i, t')"
    and alloc_full: "ok t \<Longrightarrow> limit \<le> card (live t) \<Longrightarrow> alloc x t = Bug"
    and alloc_new: "ok t \<Longrightarrow> alloc x t = Ok (i, t') \<Longrightarrow>
      i \<notin> live t \<and> i < limit \<and> live t' = insert i (live t) \<and> ok t'"
    and free_live: "ok t \<Longrightarrow> i \<in> live t \<Longrightarrow> live (free i t) = live t - {i} \<and> ok (free i t)"
    and finite_live: "ok t \<Longrightarrow> finite (live t) \<and> live t \<subseteq> {0..<limit}"
begin

text \<open>A run of allocations and of frees of live descriptors: the descriptors handed out.\<close>

fun run :: "'a pool_op list \<Rightarrow> 't \<Rightarrow> (nat list \<times> 't) cres" where
  "run [] t = Ok ([], t)"
| "run (PAlloc x # ops) t =
     cbind (alloc x t) (\<lambda>(i, t'). cbind (run ops t') (\<lambda>(is, t''). Ok (i # is, t'')))"
| "run (PFree i # ops) t = (if i \<in> live t then run ops (free i t) else Err EBADF)"

fun frees :: "'a pool_op list \<Rightarrow> nat list" where
  "frees [] = []"
| "frees (PAlloc x # ops) = frees ops"
| "frees (PFree i # ops) = i # frees ops"

text \<open>Without frees all descriptors handed out differ, and a run never fires the \<open>BUG_ON\<close> while
  fewer than \<open>limit\<close> are live.\<close>

lemma run_ok: "ok t \<Longrightarrow> run ops t = Ok (is, t') \<Longrightarrow> ok t' \<and> live t' \<subseteq> live t \<union> set is"
proof (induction ops arbitrary: t "is")
  case (Cons a ops)
  show ?case
  proof (cases a)
    case (PAlloc x)
    with Cons.prems(2) obtain i t1 js where r: "alloc x t = Ok (i, t1)" "run ops t1 = Ok (js, t')" "is = i # js"
      by (auto simp: cbind_eq_Ok)
    from alloc_new [OF Cons.prems(1) r(1)] Cons.IH [OF _ r(2)] r(3) show ?thesis by auto
  next
    case (PFree i)
    with Cons.prems(2) have r: "i \<in> live t" "run ops (free i t) = Ok (is, t')" by (auto split: if_splits)
    from free_live [OF Cons.prems(1) r(1)] Cons.IH [OF _ r(2)] show ?thesis by auto
  qed
qed simp

lemma run_distinct: "ok t \<Longrightarrow> frees ops = [] \<Longrightarrow> run ops t = Ok (is, t') \<Longrightarrow>
    distinct is \<and> set is \<inter> live t = {} \<and> live t' = live t \<union> set is"
proof (induction ops arbitrary: t "is")
  case (Cons a ops)
  then obtain x where a: "a = PAlloc x" by (cases a) auto
  with Cons.prems(3) obtain i t1 js where r: "alloc x t = Ok (i, t1)" "run ops t1 = Ok (js, t')" "is = i # js"
    by (auto simp: cbind_eq_Ok)
  note n = alloc_new [OF Cons.prems(1) r(1)]
  have "frees ops = []" using Cons.prems(2) a by simp
  from Cons.IH [OF _ this r(2)] n r(3) show ?case by auto
qed simp

end

section \<open>The tables keep the contract\<close>

definition live :: "'a tbl \<Rightarrow> nat set" where
  "live t = {0..<length (unused t)} - set (drop (used t) (unused t))"

definition tbl_ok :: "nat \<Rightarrow> 'a tbl \<Rightarrow> bool" where
  "tbl_ok n t \<longleftrightarrow> length (unused t) = n \<and> used t \<le> n \<and> distinct (drop (used t) (unused t)) \<and>
     set (drop (used t) (unused t)) \<subseteq> {0..<n}"

lemma tbl_ok_init [simp]: "tbl_ok n (tbl_init n)" "live (tbl_init n) = {}"
  by (auto simp: tbl_ok_def tbl_init_def live_def)

lemma card_live: "tbl_ok n t \<Longrightarrow> card (live t) = used t"
proof -
  assume ok: "tbl_ok n t"
  let ?d = "drop (used t) (unused t)"
  have "card (set ?d) = n - used t" using ok by (auto simp: tbl_ok_def distinct_card)
  moreover have "card ({0..<n} - set ?d) = n - card (set ?d)"
    using ok by (subst card_Diff_subset) (auto simp: tbl_ok_def)
  ultimately show ?thesis using ok by (auto simp: live_def tbl_ok_def)
qed

lemma tbl_alloc_ok:
  assumes ok: "tbl_ok n t" and a: "tbl_alloc n x t = Ok (i, t')"
  shows "i \<notin> live t \<and> i < n \<and> live t' = insert i (live t) \<and> tbl_ok n t' \<and> slots t' = (slots t)(i := Some x)"
proof -
  from a have u: "used t < n" "i = unused t ! used t"
    "t' = t\<lparr>used := used t + 1, slots := (slots t)(i := Some x)\<rparr>"
    by (auto simp: tbl_alloc_def Let_def split: if_splits)
  have d: "drop (used t) (unused t) = i # drop (Suc (used t)) (unused t)"
    using ok u by (simp add: tbl_ok_def Cons_nth_drop_Suc)
  show ?thesis using ok u(1,3) d by (auto simp: tbl_ok_def live_def)
qed

lemma tbl_push_ok:
  assumes ok: "tbl_ok n t" and i: "i \<in> live t"
  shows "live (tbl_push i t) = live t - {i} \<and> tbl_ok n (tbl_push i t) \<and> slots (tbl_push i t) = slots t"
proof -
  have "finite (live t)" by (simp add: live_def)
  with i have "0 < card (live t)" by (auto simp: card_gt_0_iff)
  then have pos: "0 < used t" using card_live [OF ok] by simp
  then obtain k where k: "used t = Suc k" by (cases "used t") auto
  have "k < length (unused t)" using ok k by (auto simp: tbl_ok_def)
  then have d: "drop k ((unused t)[k := i]) = i # drop (used t) (unused t)"
    using k by (simp add: Cons_nth_drop_Suc [symmetric])
  show ?thesis using ok i k d by (auto simp: tbl_ok_def live_def tbl_push_def)
qed

lemma tbl_free_ok:
  assumes "tbl_ok n t" "i \<in> live t"
  shows "live (tbl_free i t) = live t - {i} \<and> tbl_ok n (tbl_free i t) \<and>
    slots (tbl_free i t) = (slots t)(i := None)"
proof -
  let ?t = "t\<lparr>slots := (slots t)(i := None)\<rparr>"
  have "tbl_ok n ?t" "i \<in> live ?t" "live ?t = live t" using assms by (auto simp: tbl_ok_def live_def)
  from tbl_push_ok [OF this(1,2)] this(3) show ?thesis by (simp add: tbl_free_def)
qed

interpretation xpool: id_pool live "tbl_ok n" n "tbl_alloc n" tbl_free
proof
  fix t t' :: "'a tbl" and x :: 'a and i
  assume ok: "tbl_ok n t"
  show "card (live t) < n \<Longrightarrow> \<exists>i t'. tbl_alloc n x t = Ok (i, t')"
    using card_live [OF ok] by (simp add: tbl_alloc_def Let_def)
  show "n \<le> card (live t) \<Longrightarrow> tbl_alloc n x t = Bug" using card_live [OF ok] by (simp add: tbl_alloc_def)
  show "tbl_alloc n x t = Ok (i, t') \<Longrightarrow> i \<notin> live t \<and> i < n \<and> live t' = insert i (live t) \<and> tbl_ok n t'"
    using tbl_alloc_ok [OF ok] by blast
  show "i \<in> live t \<Longrightarrow> live (tbl_free i t) = live t - {i} \<and> tbl_ok n (tbl_free i t)"
    using tbl_free_ok [OF ok] by blast
  show "finite (live t) \<and> live t \<subseteq> {0..<n}" using ok by (auto simp: live_def tbl_ok_def)
qed

interpretation ppool: id_pool live "tbl_ok n" n "tbl_alloc n" tbl_push
proof
  fix t t' :: "'a tbl" and x :: 'a and i
  assume ok: "tbl_ok n t"
  show "card (live t) < n \<Longrightarrow> \<exists>i t'. tbl_alloc n x t = Ok (i, t')" by (rule xpool.alloc_room [OF ok])
  show "n \<le> card (live t) \<Longrightarrow> tbl_alloc n x t = Bug" by (rule xpool.alloc_full [OF ok])
  show "tbl_alloc n x t = Ok (i, t') \<Longrightarrow> i \<notin> live t \<and> i < n \<and> live t' = insert i (live t) \<and> tbl_ok n t'"
    by (rule xpool.alloc_new [OF ok])
  show "i \<in> live t \<Longrightarrow> live (tbl_push i t) = live t - {i} \<and> tbl_ok n (tbl_push i t)"
    using tbl_push_ok [OF ok] by blast
  show "finite (live t) \<and> live t \<subseteq> {0..<n}" by (rule xpool.finite_live [OF ok])
qed

end
