(* ===== verification/Xpoll.thy ===== *)
theory Xpoll
  imports Sock Pool "HOL-Library.Multiset"
begin

text \<open>
  Poll sets: \<^verbatim>\<open>src/src/poll/poll_struct.c\<close> and the parts of \<^verbatim>\<open>eventpoll.c\<close> that work on them. Polls
  and poll entries are objects of two stores; a freed object is \<open>None\<close>, and following a pointer to
  it is \<open>Undef\<close>. An entry is on the LRU list of its poll and on the list of the socket it watches;
  the socket's list belongs to the socket, here \<open>link_attached\<close> says whether the entry is on it.
\<close>

section \<open>State\<close>

record poll_fd =
  pfd :: int
  phndl :: nat
  pevents :: u32
  happened :: u32

record poll_entry =
  pollfd :: poll_fd
  lru_attached :: bool
  link_attached :: bool
  ent_ref :: int
  ent_owner :: nat

record xpoll =
  poll_id :: nat
  poll_ref :: int
  uwaiters :: int
  poll_size :: int
  shutdown_state :: bool
  lru_head :: "nat list"

text \<open>\<open>pg_table\<close> is \<open>struct pglobal\<close>; \<open>pnext\<close> is an address not used so far; \<open>pwakes\<close> counts the
  broadcasts to waiters.\<close>

record polls =
  pls :: "nat \<Rightarrow> xpoll option"
  ens :: "nat \<Rightarrow> poll_entry option"
  pg_table :: "nat tbl"
  pnext :: nat
  pwakes :: nat

definition PROXYIO_MAX_POLLS :: nat where "PROXYIO_MAX_POLLS = 10240"
definition XPOLL_HEADFD :: int where "XPOLL_HEADFD = -0x3654"

definition poll_init :: polls where
  "poll_init = \<lparr>pls = (\<lambda>_. None), ens = (\<lambda>_. None), pg_table = tbl_init PROXYIO_MAX_POLLS, pnext = 0,
     pwakes = 0\<rparr>"

definition set_poll :: "nat \<Rightarrow> xpoll \<Rightarrow> polls \<Rightarrow> polls" where
  "set_poll a p P = P\<lparr>pls := (pls P)(a := Some p)\<rparr>"

definition set_ent :: "nat \<Rightarrow> poll_entry \<Rightarrow> polls \<Rightarrow> polls" where
  "set_ent e x P = P\<lparr>ens := (ens P)(e := Some x)\<rparr>"

section \<open>Polls and entries\<close>

definition poll_put :: "nat \<Rightarrow> polls \<Rightarrow> polls cres" where
  "poll_put i P =
     cbind (deref (slots (pg_table P) i)) (\<lambda>a.
       cbind (deref (pls P a)) (\<lambda>p.
         if poll_ref p = 1
         then Ok (P\<lparr>pls := (pls P)(a := None), pg_table := tbl_push i (pg_table P)\<rparr>)
         else Ok (set_poll a (p\<lparr>poll_ref := poll_ref p - 1\<rparr>) P)))"

definition poll_entry_alloc :: "bool \<Rightarrow> polls \<Rightarrow> nat option \<times> polls" where
  "poll_entry_alloc al P =
     (if \<not> al then (None, P)
      else (Some (pnext P),
            set_ent (pnext P) \<lparr>pollfd = \<lparr>pfd = 0, phndl = 0, pevents = 0, happened = 0\<rparr>,
              lru_attached = False, link_attached = False, ent_ref = 0, ent_owner = 0\<rparr>
              (P\<lparr>pnext := pnext P + 1\<rparr>)))"

definition poll_entry_destroy :: "nat \<Rightarrow> polls \<Rightarrow> polls cres" where
  "poll_entry_destroy e P =
     cbind (deref (ens P e)) (\<lambda>x.
       if ent_ref x \<noteq> 0 then Bug
       else cbind (deref (pls P (ent_owner x))) (\<lambda>p.
              poll_put (poll_id p) (P\<lparr>ens := (ens P)(e := None)\<rparr>)))"

definition poll_entry_get :: "nat \<Rightarrow> polls \<Rightarrow> polls cres" where
  "poll_entry_get e P = cbind (deref (ens P e)) (\<lambda>x. Ok (set_ent e (x\<lparr>ent_ref := ent_ref x + 1\<rparr>) P))"

definition poll_entry_put :: "nat \<Rightarrow> polls \<Rightarrow> polls cres" where
  "poll_entry_put e P =
     cbind (deref (ens P e)) (\<lambda>x.
       if ent_ref x - 1 < 0 then Bug
       else let P = set_ent e (x\<lparr>ent_ref := ent_ref x - 1\<rparr>) P
            in if ent_ref x = 1 then if lru_attached x then Bug else poll_entry_destroy e P
               else Ok P)"

definition poll_alloc :: "bool \<Rightarrow> polls \<Rightarrow> (nat option \<times> polls) cres" where
  "poll_alloc al P =
     (if \<not> al then Ok (None, P)
      else let a = pnext P
           in cbind (tbl_alloc PROXYIO_MAX_POLLS a (pg_table P)) (\<lambda>(i, t).
                Ok (Some a, set_poll a \<lparr>poll_id = i, poll_ref = 0, uwaiters = 0, poll_size = 0,
                              shutdown_state = False, lru_head = []\<rparr>
                              (P\<lparr>pnext := pnext P + 1, pg_table := t\<rparr>))))"

text \<open>The table is indexed with the number the user gives: outside of it the read is undefined.\<close>

definition poll_get :: "int \<Rightarrow> polls \<Rightarrow> (nat option \<times> polls) cres" where
  "poll_get i P =
     (if i < 0 \<or> i \<ge> int PROXYIO_MAX_POLLS then Undef
      else case slots (pg_table P) (nat i) of
             None \<Rightarrow> Ok (None, P)
           | Some a \<Rightarrow> cbind (deref (pls P a)) (\<lambda>p.
                        Ok (Some a, set_poll a (p\<lparr>poll_ref := poll_ref p + 1\<rparr>) P)))"

fun find_in :: "(nat \<Rightarrow> poll_entry option) \<Rightarrow> int \<Rightarrow> nat list \<Rightarrow> nat option cres" where
  "find_in E fd [] = Ok None"
| "find_in E fd (e # es) =
     cbind (deref (E e)) (\<lambda>x. if pfd (pollfd x) = fd \<or> fd = XPOLL_HEADFD then Ok (Some e) else find_in E fd es)"

definition find_poll_entry :: "nat \<Rightarrow> int \<Rightarrow> polls \<Rightarrow> nat option cres" where
  "find_poll_entry a fd P = cbind (deref (pls P a)) (\<lambda>p. find_in (ens P) fd (lru_head p))"

definition get_poll_entry :: "nat \<Rightarrow> int \<Rightarrow> polls \<Rightarrow> (nat option \<times> polls) cres" where
  "get_poll_entry a fd P =
     cbind (find_poll_entry a fd P) (\<lambda>r.
       case r of None \<Rightarrow> Ok (None, P) | Some e \<Rightarrow> cbind (poll_entry_get e P) (\<lambda>P. Ok (Some e, P)))"

text \<open>\<open>add_poll_entry\<close>; the owner, which \<open>xpoll_add\<close> stores right after, is set here.\<close>

definition add_poll_entry :: "bool \<Rightarrow> nat \<Rightarrow> int \<Rightarrow> polls \<Rightarrow> ((errno + nat) \<times> polls) cres" where
  "add_poll_entry al a fd P =
     cbind (find_poll_entry a fd P) (\<lambda>r.
       if r \<noteq> None then Ok (Inl EEXIST, P)
       else case poll_entry_alloc al P of
              (None, P) \<Rightarrow> Ok (Inl ENOMEM, P)
            | (Some e, P) \<Rightarrow>
                cbind (deref (ens P e)) (\<lambda>x. cbind (deref (pls P a)) (\<lambda>p.
                  let x = x\<lparr>ent_ref := ent_ref x + 1\<rparr>;
                      x = x\<lparr>ent_ref := ent_ref x + 1\<rparr>;
                      p = p\<lparr>poll_ref := poll_ref p + 1\<rparr>;
                      x = x\<lparr>pollfd := (pollfd x)\<lparr>pfd := fd\<rparr>, ent_owner := a\<rparr>
                  in if lru_attached x then Bug
                     else Ok (Inr e, set_poll a (p\<lparr>poll_size := poll_size p + 1, lru_head := lru_head p @ [e]\<rparr>)
                            (set_ent e (x\<lparr>lru_attached := True\<rparr>) P)))))"

definition rm_poll_entry :: "nat \<Rightarrow> int \<Rightarrow> polls \<Rightarrow> (bool \<times> polls) cres" where
  "rm_poll_entry a fd P =
     cbind (find_poll_entry a fd P) (\<lambda>r.
       case r of
         None \<Rightarrow> Ok (False, P)
       | Some e \<Rightarrow>
           cbind (deref (ens P e)) (\<lambda>x. cbind (deref (pls P a)) (\<lambda>p.
             if \<not> lru_attached x then Bug
             else cbind (poll_entry_put e
                    (set_poll a (p\<lparr>poll_size := poll_size p - 1, lru_head := remove1 e (lru_head p)\<rparr>)
                      (set_ent e (x\<lparr>lru_attached := False\<rparr>) P))) (\<lambda>P. Ok (True, P)))))"

section \<open>Notifications from a socket\<close>

text \<open>\<open>xpollbase_emit\<close> with the events that hold, before the mask of the entry. The result says
  whether the entry left the socket's list.\<close>

definition xpollbase_emit :: "nat \<Rightarrow> u32 \<Rightarrow> polls \<Rightarrow> (bool \<times> polls) cres" where
  "xpollbase_emit e h P =
     cbind (deref (ens P e)) (\<lambda>x. cbind (deref (pls P (ent_owner x))) (\<lambda>p.
       let a = ent_owner x; events = h AND pevents (pollfd x)
       in if pevents (pollfd x) = 0 then Bug
          else if \<not> lru_attached x
          then cbind (poll_entry_put e (set_ent e (x\<lparr>link_attached := False\<rparr>) P)) (\<lambda>P. Ok (True, P))
          else if events \<noteq> 0
          then Ok (False, set_poll a (p\<lparr>lru_head := e # remove1 e (lru_head p)\<rparr>)
                 (set_ent e (x\<lparr>pollfd := (pollfd x)\<lparr>happened := events\<rparr>\<rparr>)
                   (P\<lparr>pwakes := pwakes P + (if uwaiters p \<noteq> 0 then 1 else 0)\<rparr>)))
          else if happened (pollfd x) \<noteq> 0
          then Ok (False, set_poll a (p\<lparr>lru_head := remove1 e (lru_head p) @ [e]\<rparr>)
                 (set_ent e (x\<lparr>pollfd := (pollfd x)\<lparr>happened := 0\<rparr>\<rparr>) P))
          else Ok (False, P)))"

text \<open>\<open>xpoll_ctl\<close> with \<open>XPOLL_DEL\<close>.\<close>

definition xpoll_del :: "int \<Rightarrow> int \<Rightarrow> polls \<Rightarrow> ((errno + unit) \<times> polls) cres" where
  "xpoll_del i fd P =
     cbind (poll_get i P) (\<lambda>(r, P).
       case r of
         None \<Rightarrow> Ok (Inl EBADF, P)
       | Some a \<Rightarrow> cbind (rm_poll_entry a fd P) (\<lambda>(ok, P).
                    cbind (poll_put (nat i) P) (\<lambda>P. Ok (if ok then Inr () else Inl ENOENT, P))))"

definition xpollbase_close :: "nat \<Rightarrow> polls \<Rightarrow> polls cres" where
  "xpollbase_close e P =
     cbind (deref (ens P e)) (\<lambda>x. cbind (deref (pls P (ent_owner x))) (\<lambda>p.
       let P = set_ent e (x\<lparr>link_attached := False\<rparr>) P
       in cbind (xpoll_del (int (poll_id p)) (pfd (pollfd x)) P) (\<lambda>(_, P). poll_entry_put e P)))"

section \<open>The user's operations\<close>

definition xpoll_create :: "bool \<Rightarrow> polls \<Rightarrow> (nat \<times> polls) cres" where
  "xpoll_create al P =
     cbind (poll_alloc al P) (\<lambda>(r, P).
       case r of
         None \<Rightarrow> Undef
       | Some a \<Rightarrow> cbind (deref (pls P a)) (\<lambda>p.
           cbind (poll_get (int (poll_id p)) P) (\<lambda>(_, P). Ok (poll_id p, P))))"

fun collect :: "(nat \<Rightarrow> poll_entry option) \<Rightarrow> nat list \<Rightarrow> int \<Rightarrow> poll_fd list cres" where
  "collect E [] n = Ok []"
| "collect E (e # es) n =
     cbind (deref (E e)) (\<lambda>x.
       if happened (pollfd x) = 0 \<or> n \<le> 0 then Ok []
       else cbind (collect E es (n - 1)) (\<lambda>r. Ok (pollfd x # r)))"

text \<open>\<open>xpoll_wait\<close>: an empty LRU list makes the code read the list head as an entry. A positive
  timeout with nothing happened blocks once; the resumed call does not look again.\<close>

definition xpoll_wait :: "bool \<Rightarrow> int \<Rightarrow> int \<Rightarrow> int \<Rightarrow> polls \<Rightarrow> ((errno + poll_fd list) wait \<times> polls) cres" where
  "xpoll_wait resumed i sz timeout P =
     cbind (if resumed then Ok (slots (pg_table P) (nat i), P) else poll_get i P) (\<lambda>(r, P).
       case r of
         None \<Rightarrow> Ok (Done (Inl EBADF), P)
       | Some a \<Rightarrow>
           cbind (deref (pls P a)) (\<lambda>p.
             if resumed
             then let P = set_poll a (p\<lparr>uwaiters := uwaiters p - 1\<rparr>) P
                  in cbind (collect (ens P) (lru_head p) sz) (\<lambda>fds.
                       cbind (poll_put (nat i) P) (\<lambda>P. Ok (Done (Inr fds), P)))
             else case lru_head p of
                    [] \<Rightarrow> Undef
                  | e # _ \<Rightarrow>
                      cbind (deref (ens P e)) (\<lambda>x.
                        if happened (pollfd x) = 0 \<and> timeout > 0
                        then Ok (Blocked, set_poll a (p\<lparr>uwaiters := uwaiters p + 1\<rparr>) P)
                        else cbind (collect (ens P) (lru_head p) sz) (\<lambda>fds.
                               cbind (poll_put (nat i) P) (\<lambda>P. Ok (Done (Inr fds), P))))))"

text \<open>The loop of \<open>xpoll_close\<close> removes one entry for each round; it has as many rounds as there are
  entries, and one that fails.\<close>

fun rm_all_entries :: "nat \<Rightarrow> nat \<Rightarrow> polls \<Rightarrow> polls cres option" where
  "rm_all_entries 0 a P = None"
| "rm_all_entries (Suc n) a P =
     (case rm_poll_entry a XPOLL_HEADFD P of
        Ok (True, P) \<Rightarrow> rm_all_entries n a P
      | Ok (False, P) \<Rightarrow> Some (Ok P)
      | Err x \<Rightarrow> Some (Err x) | Bug \<Rightarrow> Some Bug | Undef \<Rightarrow> Some Undef)"

definition xpoll_close :: "nat \<Rightarrow> int \<Rightarrow> polls \<Rightarrow> ((errno + unit) \<times> polls) cres option" where
  "xpoll_close fuel i P =
     (case poll_get i P of
        Ok (None, P) \<Rightarrow> Some (Ok (Inl EBADF, P))
      | Ok (Some a, P) \<Rightarrow>
          (case pls P a of
             None \<Rightarrow> Some Undef
           | Some p \<Rightarrow>
               map_option (\<lambda>r. cbind r (\<lambda>P. cbind (poll_put (nat i) P) (\<lambda>P.
                   cbind (poll_put (nat i) P) (\<lambda>P. Ok (Inr (), P)))))
                 (rm_all_entries fuel a (set_poll a (p\<lparr>shutdown_state := True\<rparr>) P)))
      | Err x \<Rightarrow> Some (Err x) | Bug \<Rightarrow> Some Bug | Undef \<Rightarrow> Some Undef)"

section \<open>Invariant\<close>

text \<open>\<open>hots_first f l\<close>: on the list the entries with \<open>f\<close> come before those without.\<close>

definition hots_first :: "('a \<Rightarrow> bool) \<Rightarrow> 'a list \<Rightarrow> bool" where
  "hots_first f l \<longleftrightarrow> (\<forall>e\<in>set (dropWhile f l). \<not> f e)"

lemma hots_first_simps [simp]:
  "hots_first f []" "hots_first f (e # l) \<longleftrightarrow> (if f e then hots_first f l else \<forall>x\<in>set l. \<not> f x)"
  by (auto simp: hots_first_def)

lemma hots_first_none: "(\<forall>x\<in>set l. \<not> f x) \<Longrightarrow> hots_first f l"
  by (cases l) auto

lemma hots_first_remove1: "hots_first f l \<Longrightarrow> hots_first f (remove1 e l)"
proof (induction l)
  case (Cons a l)
  then show ?case using notin_set_remove1 [of _ l e]
    by (auto simp: hots_first_none split: if_splits)
qed simp

lemma hots_first_snoc: "hots_first f l \<Longrightarrow> \<not> f e \<Longrightarrow> hots_first f (l @ [e])"
  by (induction l) auto

lemma hots_first_cong: "(\<And>x. x \<in> set l \<Longrightarrow> f x = g x) \<Longrightarrow> hots_first f l = hots_first g l"
  by (induction l) auto

lemma hots_first_takeWhile: "hots_first f l \<Longrightarrow> takeWhile f l = filter f l"
  by (induction l) (auto simp: filter_empty_conv)

definition hot :: "polls \<Rightarrow> nat \<Rightarrow> bool" where
  "hot P e \<longleftrightarrow> (case ens P e of None \<Rightarrow> False | Some x \<Rightarrow> happened (pollfd x) \<noteq> 0)"

definition lfd :: "polls \<Rightarrow> nat \<Rightarrow> int" where
  "lfd P e = pfd (pollfd (the (ens P e)))"

definition ents_of :: "polls \<Rightarrow> nat \<Rightarrow> nat set" where
  "ents_of P a = {e. \<exists>x. ens P e = Some x \<and> ent_owner x = a}"

text \<open>\<open>h\<close> counts the references to a poll that its users hold, \<open>g\<close> the references to an entry that an
  operation in progress holds. An entry has one more for each of its two lists, a poll one more for
  each of its entries.\<close>

definition ent_ok :: "(nat \<Rightarrow> nat) \<Rightarrow> polls \<Rightarrow> nat \<Rightarrow> poll_entry \<Rightarrow> bool" where
  "ent_ok g P e x \<longleftrightarrow>
     ent_ref x = (if lru_attached x then 1 else 0) + (if link_attached x then 1 else 0) + int (g e) \<and>
     0 < ent_ref x \<and> (link_attached x \<longrightarrow> pevents (pollfd x) \<noteq> 0) \<and>
     (\<exists>p. pls P (ent_owner x) = Some p \<and> (lru_attached x \<longrightarrow> e \<in> set (lru_head p)))"

definition poll_ok :: "(nat \<Rightarrow> nat) \<Rightarrow> polls \<Rightarrow> nat \<Rightarrow> xpoll \<Rightarrow> bool" where
  "poll_ok h P a p \<longleftrightarrow>
     poll_ref p = int (h a + card (ents_of P a)) \<and> 0 < poll_ref p \<and> distinct (lru_head p) \<and>
     poll_size p = int (length (lru_head p)) \<and> distinct (map (lfd P) (lru_head p)) \<and>
     (\<forall>e\<in>set (lru_head p). \<exists>x. ens P e = Some x \<and> ent_owner x = a \<and> lru_attached x \<and> pfd (pollfd x) \<noteq> XPOLL_HEADFD) \<and>
     hots_first (hot P) (lru_head p) \<and>
     slots (pg_table P) (poll_id p) = Some a \<and> poll_id p \<in> live (pg_table P)"

definition polls_ok :: "(nat \<Rightarrow> nat) \<Rightarrow> (nat \<Rightarrow> nat) \<Rightarrow> polls \<Rightarrow> bool" where
  "polls_ok g h P \<longleftrightarrow>
     finite (dom (ens P)) \<and> tbl_ok PROXYIO_MAX_POLLS (pg_table P) \<and>
     (\<forall>a p. pls P a = Some p \<longrightarrow> poll_ok h P a p) \<and>
     (\<forall>e x. ens P e = Some x \<longrightarrow> ent_ok g P e x) \<and>
     (\<forall>a. pnext P \<le> a \<longrightarrow> pls P a = None \<and> ens P a = None)"

lemma polls_okD:
  assumes "polls_ok g h P"
  shows "finite (dom (ens P))" "tbl_ok PROXYIO_MAX_POLLS (pg_table P)"
    "pls P a = Some p \<Longrightarrow> poll_ok h P a p" "ens P e = Some x \<Longrightarrow> ent_ok g P e x"
    "pnext P \<le> b \<Longrightarrow> pls P b = None \<and> ens P b = None"
  using assms by (auto simp: polls_ok_def)

lemma finite_ents_of: "finite (dom (ens P)) \<Longrightarrow> finite (ents_of P a)"
  by (rule finite_subset [of _ "dom (ens P)"]) (auto simp: ents_of_def)

lemma ok_owner:
  assumes "polls_ok g h P" "ens P e = Some x"
  shows "\<exists>p. pls P (ent_owner x) = Some p \<and> poll_ok h P (ent_owner x) p"
  using polls_okD [OF assms(1)] assms(2) by (fastforce simp: ent_ok_def)

lemma poll_id_bound: "polls_ok g h P \<Longrightarrow> pls P a = Some p \<Longrightarrow> poll_id p < PROXYIO_MAX_POLLS"
  by (auto simp: polls_ok_def poll_ok_def tbl_ok_def live_def)

lemma set_simps [simp]:
  "pls (set_poll a p P) = (pls P)(a := Some p)" "ens (set_poll a p P) = ens P"
  "pg_table (set_poll a p P) = pg_table P" "pnext (set_poll a p P) = pnext P"
  "ens (set_ent e x P) = (ens P)(e := Some x)" "pls (set_ent e x P) = pls P"
  "pg_table (set_ent e x P) = pg_table P" "pnext (set_ent e x P) = pnext P"
  by (simp_all add: set_poll_def set_ent_def)

lemma ents_simps [simp]:
  "ents_of (set_poll a p P) = ents_of P" "hot (set_poll a p P) = hot P"
  "ents_of (P\<lparr>pls := f\<rparr>) = ents_of P" "hot (P\<lparr>pls := f\<rparr>) = hot P"
  "ents_of (P\<lparr>pg_table := t\<rparr>) = ents_of P" "hot (P\<lparr>pg_table := t\<rparr>) = hot P"
  by (auto simp: ents_of_def hot_def fun_eq_iff)

lemma lfd_simps [simp]:
  "lfd (set_poll a p P) = lfd P" "lfd (P\<lparr>pls := f\<rparr>) = lfd P" "lfd (P\<lparr>pg_table := t\<rparr>) = lfd P"
  "lfd (P\<lparr>pwakes := n\<rparr>) = lfd P"
  by (simp_all add: lfd_def fun_eq_iff)

lemma lfd_set_ent: "ens P e = Some x \<Longrightarrow> pfd (pollfd y) = pfd (pollfd x) \<Longrightarrow> lfd (set_ent e y P) = lfd P"
  by (auto simp: lfd_def fun_eq_iff)

lemma ents_of_set_ent:
  "ens P e = Some x \<Longrightarrow> ent_owner y = ent_owner x \<Longrightarrow> ents_of (set_ent e y P) = ents_of P"
  by (auto simp: ents_of_def fun_eq_iff)

text \<open>Giving a reference to a poll back.\<close>

lemma poll_put_ok [invs]:
  assumes ok: "polls_ok g h P" and p: "pls P a = Some p" "0 < h a"
  shows "\<exists>P'. poll_put (poll_id p) P = Ok P' \<and> polls_ok g (h(a := h a - 1)) P' \<and> ens P' = ens P \<and>
    (\<forall>b. b \<noteq> a \<longrightarrow> pls P' b = pls P b) \<and>
    pls P' a = (if poll_ref p = 1 then None else Some (p\<lparr>poll_ref := poll_ref p - 1\<rparr>))"
proof -
  note o = polls_okD [OF ok]
  have po: "poll_ok h P a p" by (rule o(3) [OF p(1)])
  then have sl: "slots (pg_table P) (poll_id p) = Some a" by (simp add: poll_ok_def)
  show ?thesis
  proof (cases "poll_ref p = 1")
    case True
    then have "int (h a) + int (card (ents_of P a)) = 1" using po by (simp add: poll_ok_def)
    then have "h a = 1 \<and> card (ents_of P a) = 0" using p(2) by linarith
    then have none: "h a = 1" "ents_of P a = {}" using finite_ents_of [OF o(1)] by auto
    have lv: "poll_id p \<in> live (pg_table P)" using po by (simp add: poll_ok_def)
    let ?P = "P\<lparr>pls := (pls P)(a := None), pg_table := tbl_push (poll_id p) (pg_table P)\<rparr>"
    note t = tbl_push_ok [OF o(2) lv]
    have "poll_ok (h(a := 0)) ?P b q" if "b \<noteq> a" "pls P b = Some q" for b q
    proof -
      have q: "poll_ok h P b q" by (rule o(3) [OF that(2)])
      then have "poll_id q \<noteq> poll_id p" using sl that(1) by (auto simp: poll_ok_def)
      with q t that(1) show ?thesis by (auto simp: poll_ok_def)
    qed
    moreover have "ent_ok g ?P e x" if "ens P e = Some x" for e x
    proof -
      have "ent_owner x \<noteq> a" using none(2) that by (auto simp: ents_of_def)
      with o(4) [OF that] show ?thesis by (auto simp: ent_ok_def)
    qed
    ultimately have "polls_ok g (h(a := 0)) ?P" using o t by (auto simp: polls_ok_def)
    with True p none(1) sl show ?thesis by (simp add: poll_put_def)
  next
    case False
    let ?p = "p\<lparr>poll_ref := poll_ref p - 1\<rparr>"
    let ?P = "set_poll a ?p P"
    have "poll_ok (h(a := h a - 1)) ?P a ?p"
      using po p(2) False by (auto simp: poll_ok_def)
    moreover have "poll_ok (h(a := h a - 1)) ?P b q" if "b \<noteq> a" "pls P b = Some q" for b q
      using o(3) [OF that(2)] that(1) by (auto simp: poll_ok_def)
    moreover have "ent_ok g ?P i x" if "ens P i = Some x" for i x
      using o(4) [OF that] p(1) by (auto simp: ent_ok_def)
    ultimately have "polls_ok g (h(a := h a - 1)) ?P"
      using o p(1) by (auto simp: polls_ok_def)
    with False p sl show ?thesis by (auto simp: poll_put_def)
  qed
qed

text \<open>\<open>keeps R h P P'\<close>: a poll with a user stays, related to itself by \<open>R\<close>.\<close>

definition keeps :: "(xpoll \<Rightarrow> xpoll \<Rightarrow> bool) \<Rightarrow> (nat \<Rightarrow> nat) \<Rightarrow> polls \<Rightarrow> polls \<Rightarrow> bool" where
  "keeps R h P P' \<longleftrightarrow> (\<forall>b q. pls P b = Some q \<and> 0 < h b \<longrightarrow> (\<exists>q'. pls P' b = Some q' \<and> R q q'))"

definition same_lru :: "xpoll \<Rightarrow> xpoll \<Rightarrow> bool" where
  "same_lru q q' \<longleftrightarrow> lru_head q' = lru_head q \<and> poll_id q' = poll_id q \<and> uwaiters q' = uwaiters q"

definition perm_lru :: "xpoll \<Rightarrow> xpoll \<Rightarrow> bool" where
  "perm_lru q q' \<longleftrightarrow> mset (lru_head q') = mset (lru_head q) \<and> poll_id q' = poll_id q \<and> uwaiters q' = uwaiters q"

lemma keeps_refl [simp]: "(\<And>q. R q q) \<Longrightarrow> keeps R h P P"
  by (auto simp: keeps_def)

lemma keeps_trans:
  "keeps R h P Q \<Longrightarrow> keeps S h Q T \<Longrightarrow> (\<And>a b c. R a b \<Longrightarrow> S b c \<Longrightarrow> U a c) \<Longrightarrow> keeps U h P T"
  by (fastforce simp: keeps_def)

lemma same_lru_refl [simp]: "same_lru q q" "perm_lru q q"
  by (simp_all add: same_lru_def perm_lru_def)

lemma same_lru_perm: "same_lru q q' \<Longrightarrow> perm_lru q q'"
  by (simp add: same_lru_def perm_lru_def)

lemma keepsD: "keeps R h P P' \<Longrightarrow> pls P b = Some q \<Longrightarrow> 0 < h b \<Longrightarrow> \<exists>q'. pls P' b = Some q' \<and> R q q'"
  by (auto simp: keeps_def)

lemma keeps_mono: "keeps R h P P' \<Longrightarrow> (\<And>q q'. R q q' \<Longrightarrow> S q q') \<Longrightarrow> keeps S h P P'"
  by (fastforce simp: keeps_def)

text \<open>Changing an entry in place, and dropping one that is on no list.\<close>

lemma ent_ok_set_ent [simp]: "ent_ok g (set_ent e y P) = ent_ok g P"
  by (auto simp: ent_ok_def fun_eq_iff)

lemma set_ent_ok:
  assumes ok: "polls_ok g h P" and x: "ens P e = Some x"
    and y: "ent_owner y = ent_owner x" "lru_attached y = lru_attached x"
      "happened (pollfd y) = happened (pollfd x)" "pfd (pollfd y) = pfd (pollfd x)" "ent_ok g' P e y"
    and g: "\<And>i. i \<noteq> e \<Longrightarrow> g' i = g i"
  shows "polls_ok g' h (set_ent e y P)"
proof -
  note o = polls_okD [OF ok]
  have hot: "hot (set_ent e y P) = hot P" using x y by (auto simp: hot_def fun_eq_iff)
  have own: "ents_of (set_ent e y P) = ents_of P" by (rule ents_of_set_ent [OF x y(1)])
  have "poll_ok h (set_ent e y P) b q" if "pls P b = Some q" for b q
    using o(3) [OF that] x y lfd_set_ent [OF x y(4)] by (auto simp: poll_ok_def hot own)
  moreover have "ent_ok g' P i z" if "ens P i = Some z" "i \<noteq> e" for i z
    using o(4) [OF that(1)] g [OF that(2)] by (auto simp: ent_ok_def)
  moreover have "e < pnext P" using o(5) [of e] x by (cases "e < pnext P") auto
  ultimately show ?thesis using o x y(5) by (auto simp: polls_ok_def)
qed

lemma drop_ent_ok:
  assumes ok: "polls_ok g h P" and x: "ens P e = Some x" "\<not> lru_attached x"
    and g: "\<And>i. i \<noteq> e \<Longrightarrow> g' i = g i"
  shows "polls_ok g' (h(ent_owner x := h (ent_owner x) + 1)) (P\<lparr>ens := (ens P)(e := None)\<rparr>)"
    (is "polls_ok g' ?h ?P")
proof -
  note o = polls_okD [OF ok]
  let ?a = "ent_owner x"
  have own: "ents_of ?P b = ents_of P b - {e}" for b by (auto simp: ents_of_def)
  have card: "?h b + card (ents_of ?P b) = h b + card (ents_of P b)" for b
  proof (cases "b = ?a")
    case True
    then have "e \<in> ents_of P b" using x by (simp add: ents_of_def)
    then have "card (ents_of P b) = Suc (card (ents_of P b - {e}))"
      by (rule card.remove [OF finite_ents_of [OF o(1)]])
    then show ?thesis using True by (simp add: own)
  next
    case False
    then have "e \<notin> ents_of P b" using x by (simp add: ents_of_def)
    then show ?thesis using False by (simp add: own)
  qed
  have "poll_ok ?h ?P b q" if "pls P b = Some q" for b q
  proof -
    have q: "poll_ok h P b q" by (rule o(3) [OF that])
    then have "e \<notin> set (lru_head q)" using x by (auto simp: poll_ok_def)
    then have "hots_first (hot ?P) (lru_head q) = hots_first (hot P) (lru_head q)"
      by (intro hots_first_cong) (auto simp: hot_def)
    moreover from \<open>e \<notin> set (lru_head q)\<close> have "map (lfd ?P) (lru_head q) = map (lfd P) (lru_head q)"
      by (auto simp: lfd_def)
    then have "distinct (map (lfd ?P) (lru_head q)) = distinct (map (lfd P) (lru_head q))" by (rule arg_cong)
    with calculation show ?thesis using q card [of b] \<open>e \<notin> set (lru_head q)\<close> by (auto simp: poll_ok_def)
  qed
  moreover have "ent_ok g' ?P i z" if "ens P i = Some z" "i \<noteq> e" for i z
    using o(4) [OF that(1)] g [OF that(2)] by (auto simp: ent_ok_def)
  ultimately show ?thesis using o by (auto simp: polls_ok_def)
qed

lemma poll_entry_put_ok:
  assumes ok: "polls_ok g h P" and x: "ens P e = Some x" "0 < g e"
  shows "\<exists>P'. poll_entry_put e P = Ok P' \<and> polls_ok (g(e := g e - 1)) h P' \<and>
    (\<forall>i. i \<noteq> e \<longrightarrow> ens P' i = ens P i) \<and> ens P' e = (if ent_ref x = 1 then None else Some (x\<lparr>ent_ref := ent_ref x - 1\<rparr>)) \<and>
    keeps same_lru h P P'"
proof -
  note o = polls_okD [OF ok]
  have xo: "ent_ok g P e x" by (rule o(4) [OF x(1)])
  then obtain p where p: "pls P (ent_owner x) = Some p" by (auto simp: ent_ok_def)
  show ?thesis
  proof (cases "ent_ref x = 1")
    case False
    have "polls_ok (g(e := g e - 1)) h (set_ent e (x\<lparr>ent_ref := ent_ref x - 1\<rparr>) P)"
      by (rule set_ent_ok [OF ok x(1)]) (use xo x(2) False in \<open>auto simp: ent_ok_def\<close>)
    with False xo x show ?thesis by (auto simp: poll_entry_put_def ent_ok_def keeps_def)
  next
    case True
    then have l: "\<not> lru_attached x" using xo x(2) by (auto simp: ent_ok_def split: if_splits)
    let ?a = "ent_owner x"
    let ?P = "P\<lparr>ens := (ens P)(e := None)\<rparr>"
    have d: "polls_ok (g(e := g e - 1)) (h(?a := h ?a + 1)) ?P"
      by (rule drop_ent_ok [OF ok x(1) l]) simp
    have pa: "pls ?P ?a = Some p" "0 < (h(?a := h ?a + 1)) ?a" using p by simp_all
    have hh: "(h(?a := h ?a + 1))(?a := (h(?a := h ?a + 1)) ?a - 1) = h" by auto
    from poll_put_ok [OF d pa, unfolded hh] obtain P' where P': "poll_put (poll_id p) ?P = Ok P'"
      "polls_ok (g(e := g e - 1)) h P'" "ens P' = ens ?P" "\<And>b. b \<noteq> ?a \<Longrightarrow> pls P' b = pls P b"
      "pls P' ?a = (if poll_ref p = 1 then None else Some (p\<lparr>poll_ref := poll_ref p - 1\<rparr>))"
      by auto
    have "set_ent e (x\<lparr>ent_ref := 0\<rparr>) P\<lparr>ens := (ens (set_ent e (x\<lparr>ent_ref := 0\<rparr>) P))(e := None)\<rparr> = ?P"
      by (simp add: set_ent_def)
    then have r: "poll_entry_put e P = Ok P'"
      using True l x(1) p P'(1) by (simp add: poll_entry_put_def poll_entry_destroy_def)
    have "poll_ref p \<noteq> 1" if "0 < h ?a"
    proof -
      have "e \<in> ents_of P ?a" using x(1) by (simp add: ents_of_def)
      then have "0 < card (ents_of P ?a)" using finite_ents_of [OF o(1)] by (auto simp: card_gt_0_iff)
      then show ?thesis using o(3) [OF p] that by (simp add: poll_ok_def)
    qed
    then have "\<exists>q'. pls P' b = Some q' \<and> same_lru q q'" if "pls P b = Some q" "0 < h b" for b q
      using that P'(4,5) p by (cases "b = ?a") (auto simp: same_lru_def)
    then have "keeps same_lru h P P'" by (simp add: keeps_def)
    with r P' True show ?thesis by auto
  qed
qed

text \<open>Moving an entry on the LRU list of its poll, together with a new value of \<open>happened\<close>.\<close>

lemma ents_wakes [simp]: "ents_of (P\<lparr>pwakes := n\<rparr>) = ents_of P" "hot (P\<lparr>pwakes := n\<rparr>) = hot P"
  by (auto simp: ents_of_def hot_def fun_eq_iff)

lemma polls_ok_wakes [simp]: "polls_ok g h (P\<lparr>pwakes := n\<rparr>) = polls_ok g h P"
proof -
  have "poll_ok h (P\<lparr>pwakes := n\<rparr>) = poll_ok h P" "ent_ok g (P\<lparr>pwakes := n\<rparr>) = ent_ok g P"
    by (intro ext; simp add: poll_ok_def ent_ok_def)+
  then show ?thesis by (simp add: polls_ok_def)
qed

lemma move_ent_ok:
  assumes ok: "polls_ok g h P" and p: "pls P a = Some p" and x: "ens P e = Some x"
    and own: "ent_owner x = a" "lru_attached x"
    and y: "y = x\<lparr>pollfd := (pollfd x)\<lparr>happened := v\<rparr>\<rparr>"
    and l: "mset l = mset (lru_head p)" "hots_first (\<lambda>i. if i = e then v \<noteq> 0 else hot P i) l"
  shows "polls_ok g h (set_poll a (p\<lparr>lru_head := l\<rparr>) (set_ent e y P))" (is "polls_ok g h ?P")
proof -
  note o = polls_okD [OF ok]
  have ls: "set l = set (lru_head p)" "distinct l = distinct (lru_head p)" "length l = length (lru_head p)"
    using l(1) by (auto dest: mset_eq_setD mset_eq_length mset_eq_imp_distinct_iff)
  have lm: "distinct (map (lfd P) l) = distinct (map (lfd P) (lru_head p))"
    using l(1) by (intro mset_eq_imp_distinct_iff) simp
  have hot: "hot ?P = (\<lambda>i. if i = e then v \<noteq> 0 else hot P i)" using y by (auto simp: hot_def fun_eq_iff)
  have yo: "ent_owner y = a" "lru_attached y" using y own by simp_all
  have eo: "ents_of ?P = ents_of P" using ents_of_set_ent [OF x, of y] yo own by simp
  have lf: "lfd ?P = lfd P" using lfd_set_ent [OF x, of y] y by simp
  have "poll_ok h ?P a (p\<lparr>lru_head := l\<rparr>)"
    using o(3) [OF p] l(2) own x yo y unfolding poll_ok_def eo hot lf by (auto simp: ls lm)
  moreover have "poll_ok h ?P b q" if "pls P b = Some q" "b \<noteq> a" for b q
  proof -
    have q: "poll_ok h P b q" by (rule o(3) [OF that(1)])
    then have "e \<notin> set (lru_head q)" using x own(1) that(2) by (auto simp: poll_ok_def)
    then have "hots_first (hot ?P) (lru_head q) = hots_first (hot P) (lru_head q)"
      unfolding hot by (intro hots_first_cong) auto
    with q \<open>e \<notin> set (lru_head q)\<close> show ?thesis unfolding poll_ok_def eo lf by auto
  qed
  moreover have "ent_ok g ?P e y" using o(4) [OF x] y own p by (auto simp: ent_ok_def ls(1))
  moreover have "ent_ok g ?P i z" if "ens P i = Some z" for i z
    using o(4) [OF that] p by (auto simp: ent_ok_def ls(1))
  moreover have "e < pnext P" "a < pnext P" using o(5) [of e] o(5) [of a] x p
    by (cases "e < pnext P"; cases "a < pnext P"; simp)+
  ultimately show ?thesis using o p x by (auto simp: polls_ok_def)
qed

lemma hots_first_front:
  assumes "distinct l" "hots_first f l" "b"
  shows "hots_first (\<lambda>i. if i = e then b else f i) (e # remove1 e l)"
  using hots_first_remove1 [of f l e] hots_first_cong [of "remove1 e l" f "\<lambda>i. if i = e then b else f i"]
    assms by auto

lemma hots_first_back:
  assumes "distinct l" "hots_first f l" "\<not> b"
  shows "hots_first (\<lambda>i. if i = e then b else f i) (remove1 e l @ [e])"
  using hots_first_remove1 [of f l e] hots_first_cong [of "remove1 e l" f "\<lambda>i. if i = e then b else f i"]
    assms by (intro hots_first_snoc) auto

text \<open>A notification to an entry of a socket's list.\<close>

lemma xpollbase_emit_ok:
  assumes ok: "polls_ok g h P" and x: "ens P e = Some x" "link_attached x"
  shows "\<exists>P'. xpollbase_emit e H P = Ok (\<not> lru_attached x, P') \<and> polls_ok g h P' \<and>
    (\<forall>i. i \<noteq> e \<longrightarrow> ens P' i = ens P i) \<and> keeps perm_lru h P P' \<and>
    ens P' e = (if lru_attached x then Some (x\<lparr>pollfd := (pollfd x)\<lparr>happened := H AND pevents (pollfd x)\<rparr>\<rparr>)
                else if ent_ref x = 1 then None else Some (x\<lparr>link_attached := False, ent_ref := ent_ref x - 1\<rparr>))"
proof -
  note o = polls_okD [OF ok]
  let ?a = "ent_owner x"
  have xo: "ent_ok g P e x" by (rule o(4) [OF x(1)])
  then obtain p where p: "pls P ?a = Some p" and ev: "pevents (pollfd x) \<noteq> 0"
    using x(2) by (auto simp: ent_ok_def)
  have po: "poll_ok h P ?a p" by (rule o(3) [OF p])
  then have d: "distinct (lru_head p)" "hots_first (hot P) (lru_head p)" by (auto simp: poll_ok_def)
  show ?thesis
  proof (cases "lru_attached x")
    case False
    let ?P = "set_ent e (x\<lparr>link_attached := False\<rparr>) P"
    have 1: "polls_ok (g(e := g e + 1)) h ?P"
      by (rule set_ent_ok [OF ok x(1)]) (use xo x(2) False in \<open>auto simp: ent_ok_def\<close>)
    have gg: "(g(e := g e + 1))(e := (g(e := g e + 1)) e - 1) = g" by auto
    have "ens ?P e = Some (x\<lparr>link_attached := False\<rparr>)" "0 < (g(e := g e + 1)) e" by simp_all
    from poll_entry_put_ok [OF 1 this, unfolded gg] obtain P' where
      "poll_entry_put e ?P = Ok P'" "polls_ok g h P'" "\<forall>i. i \<noteq> e \<longrightarrow> ens P' i = ens ?P i"
      "ens P' e = (if ent_ref x = 1 then None else Some (x\<lparr>link_attached := False, ent_ref := ent_ref x - 1\<rparr>))"
      "keeps same_lru h ?P P'" by auto
    moreover have "keeps perm_lru h P P'"
      using \<open>keeps same_lru h ?P P'\<close> same_lru_perm by (fastforce simp: keeps_def)
    ultimately show ?thesis using False x p ev by (auto simp: xpollbase_emit_def Let_def)
  next
    case True
    then have e: "e \<in> set (lru_head p)" using xo p by (auto simp: ent_ok_def)
    let ?v = "H AND pevents (pollfd x)"
    consider "?v \<noteq> 0" | "?v = 0" "happened (pollfd x) \<noteq> 0" | "?v = 0" "happened (pollfd x) = 0" by blast
    then show ?thesis
    proof cases
      case 1
      let ?l = "e # remove1 e (lru_head p)"
      let ?P = "P\<lparr>pwakes := pwakes P + (if uwaiters p \<noteq> 0 then 1 else 0)\<rparr>"
      have "hots_first (\<lambda>i. if i = e then ?v \<noteq> 0 else hot ?P i) ?l"
        unfolding ents_wakes by (rule hots_first_front [OF d 1])
      then have "polls_ok g h (set_poll ?a (p\<lparr>lru_head := ?l\<rparr>)
          (set_ent e (x\<lparr>pollfd := (pollfd x)\<lparr>happened := ?v\<rparr>\<rparr>) ?P))"
        using ok p x e by (intro move_ent_ok [where x = x]) (auto simp: True)
      then show ?thesis using 1 True x p ev e by (auto simp: xpollbase_emit_def Let_def keeps_def perm_lru_def)
    next
      case 2
      let ?l = "remove1 e (lru_head p) @ [e]"
      have "hots_first (\<lambda>i. if i = e then (0::u32) \<noteq> 0 else hot P i) ?l"
        by (rule hots_first_back [OF d]) simp
      then have "polls_ok g h (set_poll ?a (p\<lparr>lru_head := ?l\<rparr>)
          (set_ent e (x\<lparr>pollfd := (pollfd x)\<lparr>happened := 0\<rparr>\<rparr>) P))"
        using ok p x e by (intro move_ent_ok [where x = x]) (auto simp: True)
      then show ?thesis using 2 True x p ev e by (auto simp: xpollbase_emit_def Let_def keeps_def perm_lru_def)
    next
      case 3
      then show ?thesis using True x p ev ok by (auto simp: xpollbase_emit_def Let_def keeps_def)
    qed
  qed
qed

text \<open>Finding an entry, and taking it off the LRU list.\<close>

definition fd_match :: "polls \<Rightarrow> int \<Rightarrow> nat \<Rightarrow> bool" where
  "fd_match P fd e \<longleftrightarrow> pfd (pollfd (the (ens P e))) = fd \<or> fd = XPOLL_HEADFD"

lemma find_in_ok: "(\<And>e. e \<in> set l \<Longrightarrow> ens P e \<noteq> None) \<Longrightarrow> find_in (ens P) fd l = Ok (find (fd_match P fd) l)"
proof (induction l)
  case (Cons e l)
  then obtain x where "ens P e = Some x" by fastforce
  then show ?case using Cons by (auto simp: fd_match_def)
qed simp

lemma find_poll_entry_ok:
  assumes "polls_ok g h P" "pls P a = Some p"
  shows "find_poll_entry a fd P = Ok (find (fd_match P fd) (lru_head p))"
proof -
  have "ens P e \<noteq> None" if "e \<in> set (lru_head p)" for e
    using polls_okD(3) [OF assms] that by (auto simp: poll_ok_def)
  then show ?thesis using assms(2) by (simp add: find_poll_entry_def find_in_ok)
qed

lemma int_remove1: "e \<in> set l \<Longrightarrow> int (length (remove1 e l)) = int (length l) - 1"
  by (induction l) auto

lemma unlink_ok:
  assumes ok: "polls_ok g h P" and p: "pls P a = Some p" and x: "ens P e = Some x"
    and e: "e \<in> set (lru_head p)"
  shows "polls_ok (g(e := g e + 1)) h (set_poll a (p\<lparr>poll_size := poll_size p - 1, lru_head := remove1 e (lru_head p)\<rparr>)
    (set_ent e (x\<lparr>lru_attached := False\<rparr>) P))" (is "polls_ok ?g h ?P")
proof -
  note o = polls_okD [OF ok]
  have po: "poll_ok h P a p" by (rule o(3) [OF p])
  have own: "ent_owner x = a" "lru_attached x" using po e x by (auto simp: poll_ok_def)
  have hot: "hot ?P = hot P" using x by (auto simp: hot_def fun_eq_iff)
  have eo: "ents_of ?P = ents_of P" using ents_of_set_ent [OF x, of "x\<lparr>lru_attached := False\<rparr>"] by simp
  have lf: "lfd ?P = lfd P" using lfd_set_ent [OF x, of "x\<lparr>lru_attached := False\<rparr>"] by simp
  have ld: "distinct (map f (remove1 i l))" if "distinct (map f l)" for f :: "nat \<Rightarrow> int" and i l
    using that inj_on_diff by (auto simp: distinct_map)
  have "poll_ok h ?P a (p\<lparr>poll_size := poll_size p - 1, lru_head := remove1 e (lru_head p)\<rparr>)"
    using po e int_remove1 [OF e] unfolding poll_ok_def eo hot lf by (auto simp: hots_first_remove1 ld)
  moreover have "poll_ok h ?P b q" if "pls P b = Some q" "b \<noteq> a" for b q
  proof -
    have q: "poll_ok h P b q" by (rule o(3) [OF that(1)])
    then have "e \<notin> set (lru_head q)" using x own(1) that(2) by (auto simp: poll_ok_def)
    with q show ?thesis unfolding poll_ok_def eo hot lf by auto
  qed
  moreover have "ent_ok ?g ?P e (x\<lparr>lru_attached := False\<rparr>)"
    using o(4) [OF x] p own by (auto simp: ent_ok_def)
  moreover have "ent_ok ?g ?P i z" if "ens P i = Some z" "i \<noteq> e" for i z
    using o(4) [OF that(1)] that(2) p by (auto simp: ent_ok_def)
  moreover have "e < pnext P" "a < pnext P" using o(5) [of e] o(5) [of a] x p
    by (cases "e < pnext P"; cases "a < pnext P"; simp)+
  ultimately show ?thesis using o p x by (auto simp: polls_ok_def)
qed

text \<open>\<open>watch\<close>: what an entry on a socket's list watches.\<close>

definition watch :: "polls \<Rightarrow> nat \<Rightarrow> (int \<times> u32) option" where
  "watch P e = (case ens P e of None \<Rightarrow> None
     | Some x \<Rightarrow> if link_attached x then Some (pfd (pollfd x), pevents (pollfd x)) else None)"

lemma rm_poll_entry_ok:
  assumes ok: "polls_ok g h P" and p: "pls P a = Some p" and h: "0 < h a"
  shows "case find (fd_match P fd) (lru_head p) of
      None \<Rightarrow> rm_poll_entry a fd P = Ok (False, P)
    | Some e \<Rightarrow> \<exists>x P'. ens P e = Some x \<and> rm_poll_entry a fd P = Ok (True, P') \<and> polls_ok g h P' \<and>
        (\<forall>i. i \<noteq> e \<longrightarrow> ens P' i = ens P i) \<and>
        ens P' e = (if ent_ref x = 1 then None else Some (x\<lparr>lru_attached := False, ent_ref := ent_ref x - 1\<rparr>)) \<and>
        keeps same_lru h (set_poll a (p\<lparr>lru_head := remove1 e (lru_head p)\<rparr>) P) P' \<and> watch P' = watch P"
proof (cases "find (fd_match P fd) (lru_head p)")
  case None
  then show ?thesis using find_poll_entry_ok [OF ok p, of fd] by (simp add: rm_poll_entry_def)
next
  case (Some e)
  have po: "poll_ok h P a p" by (rule polls_okD(3) [OF ok p])
  from Some have e: "e \<in> set (lru_head p)" by (auto simp: find_Some_iff)
  then obtain x where x: "ens P e = Some x" "ent_owner x = a" "lru_attached x"
    using po by (auto simp: poll_ok_def)
  let ?p = "p\<lparr>poll_size := poll_size p - 1, lru_head := remove1 e (lru_head p)\<rparr>"
  let ?x = "x\<lparr>lru_attached := False\<rparr>"
  let ?P = "set_poll a ?p (set_ent e ?x P)"
  have gg: "(g(e := g e + 1))(e := (g(e := g e + 1)) e - 1) = g" by auto
  have 1: "polls_ok (g(e := g e + 1)) h ?P" by (rule unlink_ok [OF ok p x(1) e])
  have "ens ?P e = Some ?x" "0 < (g(e := g e + 1)) e" by simp_all
  from poll_entry_put_ok [OF 1 this, unfolded gg] obtain P' where
    P': "poll_entry_put e ?P = Ok P'" "polls_ok g h P'" "\<And>i. i \<noteq> e \<Longrightarrow> ens P' i = ens P i"
      "ens P' e = (if ent_ref x = 1 then None else Some (?x\<lparr>ent_ref := ent_ref x - 1\<rparr>))"
      "keeps same_lru h ?P P'"
    by auto
  from P'(5) have "keeps same_lru h (set_poll a (p\<lparr>lru_head := remove1 e (lru_head p)\<rparr>) P) P'"
    unfolding keeps_def using p
    by (auto simp: same_lru_def dest!: spec [of _ a] spec [of _ "p\<lparr>poll_size := poll_size p - 1, lru_head := remove1 e (lru_head p)\<rparr>"] split: if_splits)
  moreover have "ent_ref x = 1 \<Longrightarrow> \<not> link_attached x"
    using x(3) polls_okD(4) [OF ok x(1)] by (auto simp: ent_ok_def)
  then have "watch P' i = watch P i" for i using P'(3,4) x(1) by (cases "i = e") (auto simp: watch_def)
  then have "watch P' = watch P" by (rule ext)
  ultimately show ?thesis using P' Some x p find_poll_entry_ok [OF ok p, of fd]
    by (auto simp: rm_poll_entry_def)
qed

text \<open>A reference taken by descriptor.\<close>

lemma poll_get_ok:
  assumes ok: "polls_ok g h P" and p: "pls P a = Some p"
  shows "poll_get (int (poll_id p)) P = Ok (Some a, set_poll a (p\<lparr>poll_ref := poll_ref p + 1\<rparr>) P)"
    "polls_ok g (h(a := h a + 1)) (set_poll a (p\<lparr>poll_ref := poll_ref p + 1\<rparr>) P)" (is "polls_ok g ?h ?P")
proof -
  note o = polls_okD [OF ok]
  have po: "poll_ok h P a p" by (rule o(3) [OF p])
  have lt: "int (poll_id p) < int PROXYIO_MAX_POLLS" using poll_id_bound [OF ok p] by simp
  show "poll_get (int (poll_id p)) P = Ok (Some a, ?P)" using po p lt by (simp add: poll_get_def poll_ok_def)
  have "poll_ok ?h ?P a (p\<lparr>poll_ref := poll_ref p + 1\<rparr>)" using po by (auto simp: poll_ok_def)
  moreover have "poll_ok ?h ?P b q" if "pls P b = Some q" "b \<noteq> a" for b q
    using o(3) [OF that(1)] that(2) by (auto simp: poll_ok_def)
  moreover have "ent_ok g ?P i x" if "ens P i = Some x" for i x
    using o(4) [OF that] p by (auto simp: ent_ok_def)
  moreover have "a < pnext P" using o(5) [of a] p by (cases "a < pnext P") auto
  ultimately show "polls_ok g ?h ?P" using o p by (auto simp: polls_ok_def)
qed

lemma find_attached:
  assumes ok: "polls_ok g h P" and p: "pls P a = Some p" and e: "e \<in> set (lru_head p)"
  shows "find (fd_match P (lfd P e)) (lru_head p) = Some e"
proof -
  have po: "poll_ok h P a p" by (rule polls_okD(3) [OF ok p])
  then have ne: "lfd P e \<noteq> XPOLL_HEADFD" using e by (auto simp: poll_ok_def lfd_def)
  have "fd_match P (lfd P e) = (\<lambda>i. lfd P i = lfd P e)"
    using ne by (auto simp: fd_match_def lfd_def fun_eq_iff)
  moreover have "find (\<lambda>i. f i = f e) l = Some e" if "distinct (map f l)" "e \<in> set l" for f :: "nat \<Rightarrow> int" and l
    using that by (induction l) auto
  ultimately show ?thesis using po e by (auto simp: poll_ok_def)
qed

lemma xpoll_del_ok:
  assumes ok: "polls_ok g h P" and p: "pls P a = Some p"
  shows "\<exists>P'. xpoll_del (int (poll_id p)) fd P =
      Ok (if find (fd_match P fd) (lru_head p) = None then Inl ENOENT else Inr (), P') \<and> polls_ok g h P' \<and>
    watch P' = watch P \<and> keeps (\<lambda>q q'. poll_id q' = poll_id q) h P P' \<and>
    (\<forall>i. find (fd_match P fd) (lru_head p) \<noteq> Some i \<longrightarrow> ens P' i = ens P i) \<and>
    (\<forall>i. find (fd_match P fd) (lru_head p) = Some i \<longrightarrow> (\<exists>x. ens P i = Some x \<and>
       ens P' i = (if ent_ref x = 1 then None else Some (x\<lparr>lru_attached := False, ent_ref := ent_ref x - 1\<rparr>))))"
proof -
  let ?p = "p\<lparr>poll_ref := poll_ref p + 1\<rparr>"
  let ?P = "set_poll a ?p P"
  let ?h = "h(a := h a + 1)"
  have hh: "?h(a := ?h a - 1) = h" by auto
  note g = poll_get_ok [OF ok p]
  have pa: "pls ?P a = Some ?p" "0 < ?h a" by simp_all
  have fm: "fd_match ?P fd = fd_match P fd" by (simp add: fd_match_def fun_eq_iff)
  show ?thesis
  proof (cases "find (fd_match P fd) (lru_head p)")
    case None
    then have r: "rm_poll_entry a fd ?P = Ok (False, ?P)" using rm_poll_entry_ok [OF g(2) pa, of fd] fm by simp
    from poll_put_ok [OF g(2) pa, unfolded hh] obtain P' where
      P': "poll_put (poll_id p) ?P = Ok P'" "polls_ok g h P'" "ens P' = ens P" "\<And>b. b \<noteq> a \<Longrightarrow> pls P' b = pls P b"
        "pls P' a = (if poll_ref ?p = 1 then None else Some (?p\<lparr>poll_ref := poll_ref ?p - 1\<rparr>))" by auto
    have "0 < poll_ref p" using polls_okD(3) [OF ok p] by (simp add: poll_ok_def)
    then have "\<exists>q'. pls P' b = Some q' \<and> poll_id q' = poll_id q" if "pls P b = Some q" for b q
      using P'(4,5) p that by (cases "b = a") auto
    then have "keeps (\<lambda>q q'. poll_id q' = poll_id q) h P P'" by (auto simp: keeps_def)
    with P' r g(1) None show ?thesis by (auto simp: xpoll_del_def watch_def fun_eq_iff)
  next
    case (Some e)
    with rm_poll_entry_ok [OF g(2) pa, of fd] fm obtain x P1 where
      r: "ens P e = Some x" "rm_poll_entry a fd ?P = Ok (True, P1)" "polls_ok g ?h P1"
        "\<And>i. i \<noteq> e \<Longrightarrow> ens P1 i = ens P i"
        "ens P1 e = (if ent_ref x = 1 then None else Some (x\<lparr>lru_attached := False, ent_ref := ent_ref x - 1\<rparr>))"
        "keeps same_lru ?h (set_poll a (?p\<lparr>lru_head := remove1 e (lru_head p)\<rparr>) ?P) P1"
        "watch P1 = watch P" by (auto simp: watch_def fun_eq_iff)
    from keepsD [OF r(6), of a "?p\<lparr>lru_head := remove1 e (lru_head p)\<rparr>"] obtain q where
      q: "pls P1 a = Some q" "poll_id q = poll_id p" by (auto simp: same_lru_def)
    from poll_put_ok [OF r(3) q(1), unfolded hh q(2)] obtain P' where
      P': "poll_put (poll_id p) P1 = Ok P'" "polls_ok g h P'" "ens P' = ens P1" "\<And>b. b \<noteq> a \<Longrightarrow> pls P' b = pls P1 b"
        "pls P' a = (if poll_ref q = 1 then None else Some (q\<lparr>poll_ref := poll_ref q - 1\<rparr>))" by auto
    have "1 < poll_ref q" if "0 < h a"
      using polls_okD(3) [OF r(3) q(1)] that by (simp add: poll_ok_def)
    moreover have "\<exists>q'. pls P1 b = Some q' \<and> poll_id q' = poll_id b'" if "pls P b = Some b'" "0 < h b" "b \<noteq> a" for b b'
      using keepsD [OF r(6), of b b'] that by (auto simp: same_lru_def)
    ultimately have k: "keeps (\<lambda>q q'. poll_id q' = poll_id q) h P P'"
      unfolding keeps_def using P'(4,5) p q(2) by (metis option.inject order_less_irrefl xpoll.select_convs(1) xpoll.surjective xpoll.update_convs(2))
    have "watch P' = watch P" using r(7) P'(3) by (auto simp: watch_def fun_eq_iff)
    with P' r g(1) Some k show ?thesis by (auto simp: xpoll_del_def)
  qed
qed

text \<open>The socket closes: the entry leaves both lists.\<close>

lemma xpollbase_close_ok:
  assumes ok: "polls_ok g h P" and x: "ens P e = Some x" "link_attached x"
  shows "\<exists>P'. xpollbase_close e P = Ok P' \<and> polls_ok g h P' \<and> watch P' = (watch P)(e := None) \<and>
    keeps (\<lambda>q q'. poll_id q' = poll_id q) h P P' \<and> (g e = 0 \<longrightarrow> ens P' e = None) \<and>
    (pfd (pollfd x) \<noteq> XPOLL_HEADFD \<longrightarrow> (\<forall>i. i \<noteq> e \<and> (\<forall>y. ens P i = Some y \<longrightarrow> pfd (pollfd y) \<noteq> pfd (pollfd x)) \<longrightarrow>
       ens P' i = ens P i))"
proof -
  let ?a = "ent_owner x"
  let ?x = "x\<lparr>link_attached := False\<rparr>"
  let ?P = "set_ent e ?x P"
  let ?g = "g(e := g e + 1)"
  have gg: "?g(e := ?g e - 1) = g" by auto
  have xo: "ent_ok g P e x" by (rule polls_okD(4) [OF ok x(1)])
  then obtain p where p: "pls P ?a = Some p" by (auto simp: ent_ok_def)
  have 1: "polls_ok ?g h ?P" by (rule set_ent_ok [OF ok x(1)]) (use xo x(2) in \<open>auto simp: ent_ok_def\<close>)
  have pp: "pls ?P ?a = Some p" using p by simp
  let ?find = "find (fd_match ?P (pfd (pollfd x))) (lru_head p)"
  from xpoll_del_ok [OF 1 pp, of "pfd (pollfd x)"] obtain P1 r where
    d: "xpoll_del (int (poll_id p)) (pfd (pollfd x)) ?P = Ok (r, P1)" "polls_ok ?g h P1" "watch P1 = watch ?P"
      "keeps (\<lambda>q q'. poll_id q' = poll_id q) h ?P P1"
      "\<And>i. ?find \<noteq> Some i \<Longrightarrow> ens P1 i = ens ?P i"
      "\<And>i. ?find = Some i \<Longrightarrow> \<exists>x. ens ?P i = Some x \<and>
         ens P1 i = (if ent_ref x = 1 then None else Some (x\<lparr>lru_attached := False, ent_ref := ent_ref x - 1\<rparr>))"
    by blast
  have "\<exists>y. ens P1 e = Some y"
  proof (cases "?find = Some e")
    case True
    then have "e \<in> set (lru_head p)" by (auto simp: find_Some_iff)
    then have "lru_attached x" using polls_okD(3) [OF ok p] x(1) by (auto simp: poll_ok_def)
    then show ?thesis using d(6) [OF True] xo x(2) by (auto simp: ent_ok_def)
  qed (use d(5) in auto)
  then obtain y where y: "ens P1 e = Some y" by blast
  have "0 < ?g e" by simp
  from poll_entry_put_ok [OF d(2) y this, unfolded gg] obtain P' where
    P': "poll_entry_put e P1 = Ok P'" "polls_ok g h P'" "\<And>i. i \<noteq> e \<Longrightarrow> ens P' i = ens P1 i"
      "ens P' e = (if ent_ref y = 1 then None else Some (y\<lparr>ent_ref := ent_ref y - 1\<rparr>))" "keeps same_lru h P1 P'"
    by auto
  have "watch P1 e = None" using d(3) by (simp add: watch_def)
  then have "\<not> link_attached y" using y by (auto simp: watch_def split: if_splits)
  then have "watch P' i = ((watch P)(e := None)) i" for i
    using P'(3,4) fun_cong [OF d(3), of i] by (cases "i = e") (auto simp: watch_def)
  then have "watch P' = (watch P)(e := None)" by (rule ext)
  moreover have "keeps (\<lambda>q q'. poll_id q' = poll_id q) h ?P P'"
    by (rule keeps_trans [OF d(4) P'(5)]) (auto simp: same_lru_def)
  then have "keeps (\<lambda>q q'. poll_id q' = poll_id q) h P P'" by (simp add: keeps_def)
  moreover have "ens P' e = None" if "g e = 0"
  proof (rule ccontr)
    assume "ens P' e \<noteq> None"
    then obtain z where z: "ens P' e = Some z" "z = y\<lparr>ent_ref := ent_ref y - 1\<rparr>" using P'(4) by (auto split: if_splits)
    have "\<not> lru_attached y"
    proof (cases "?find = Some e")
      case True
      then show ?thesis using d(6) [OF True] y by (auto split: if_splits)
    next
      case False
      then have "y = ?x" using d(5) y by simp
      moreover have "e \<notin> set (lru_head p)" using False find_attached [OF 1 pp, of e] by (auto simp: lfd_def)
      then have "\<not> lru_attached x" using xo p by (auto simp: ent_ok_def)
      ultimately show ?thesis by simp
    qed
    then show False using polls_okD(4) [OF P'(2) z(1)] z(2) \<open>\<not> link_attached y\<close> that by (auto simp: ent_ok_def)
  qed
  moreover have "ens P' i = ens P i" if i: "i \<noteq> e" "\<And>y. ens P i = Some y \<Longrightarrow> pfd (pollfd y) \<noteq> pfd (pollfd x)"
      "pfd (pollfd x) \<noteq> XPOLL_HEADFD" for i
  proof -
    have "?find \<noteq> Some i"
    proof
      assume f: "?find = Some i"
      then have m: "fd_match ?P (pfd (pollfd x)) i" "i \<in> set (lru_head p)" by (auto simp: find_Some_iff)
      then obtain z where "ens P i = Some z" using polls_okD(3) [OF ok p] by (auto simp: poll_ok_def)
      then show False using m(1) i by (auto simp: fd_match_def)
    qed
    then show ?thesis using d(5) P'(3) i(1) by simp
  qed
  ultimately show ?thesis using P'(1,2) d(1) x(1) p by (auto simp: xpollbase_close_def Let_def)
qed

text \<open>Waiting: the entries with events come first, so that the walk which stops at the first
  entry without any has collected them all.\<close>

lemma collect_ok:
  "(\<And>e. e \<in> set l \<Longrightarrow> ens P e \<noteq> None) \<Longrightarrow>
   collect (ens P) l n = Ok (take (nat n) (map (\<lambda>e. pollfd (the (ens P e))) (takeWhile (hot P) l)))"
proof (induction l arbitrary: n)
  case (Cons e l)
  then obtain x where x: "ens P e = Some x" by fastforce
  then have "hot P e \<longleftrightarrow> happened (pollfd x) \<noteq> 0" by (simp add: hot_def)
  then show ?case using Cons x by (cases "0 < n") (auto simp: take_Cons' nat_diff_distrib)
qed simp

lemma set_poll_same: "pls P a = Some p \<Longrightarrow> set_poll a p P = P"
  by (auto simp: set_poll_def fun_upd_idem)

lemma set_poll_twice [simp]: "set_poll a q (set_poll a p P) = set_poll a q P"
  by (simp add: set_poll_def)

definition happening :: "polls \<Rightarrow> xpoll \<Rightarrow> poll_fd list" where
  "happening P p = map (\<lambda>e. pollfd (the (ens P e))) (filter (hot P) (lru_head p))"

lemma xpoll_wait_ok:
  assumes ok: "polls_ok g h P" and p: "pls P a = Some p" and ne: "lru_head p \<noteq> []"
  shows "xpoll_wait False (int (poll_id p)) sz timeout P =
    (if happening P p = [] \<and> timeout > 0
     then Ok (Blocked, set_poll a (p\<lparr>poll_ref := poll_ref p + 1, uwaiters := uwaiters p + 1\<rparr>) P)
     else Ok (Done (Inr (take (nat sz) (happening P p))), P))"
proof -
  let ?P = "set_poll a (p\<lparr>poll_ref := poll_ref p + 1\<rparr>) P"
  have po: "poll_ok h P a p" by (rule polls_okD(3) [OF ok p])
  note g = poll_get_ok [OF ok p]
  have "collect (ens ?P) (lru_head p) sz = Ok (take (nat sz) (map (\<lambda>e. pollfd (the (ens ?P e))) (takeWhile (hot ?P) (lru_head p))))"
    by (rule collect_ok) (use po in \<open>auto simp: poll_ok_def\<close>)
  then have c: "collect (ens P) (lru_head p) sz = Ok (take (nat sz) (happening P p))"
    using po by (simp add: happening_def poll_ok_def hots_first_takeWhile)
  have slot: "slots (pg_table P) (poll_id p) = Some a" "0 < poll_ref p" using po by (auto simp: poll_ok_def)
  have put: "poll_put (poll_id p) ?P = Ok P"
    using slot set_poll_same [OF p] by (simp add: poll_put_def)
  obtain e l where l: "lru_head p = e # l" using ne by (cases "lru_head p") auto
  then obtain x where x: "ens P e = Some x" using po by (auto simp: poll_ok_def)
  have "hots_first (hot P) (e # l)" using po l by (simp add: poll_ok_def)
  then have "happening P p = [] \<longleftrightarrow> happened (pollfd x) = 0"
    using l x by (auto simp: happening_def hot_def filter_empty_conv split: if_splits)
  then show ?thesis using g(1) put c l x by (simp add: xpoll_wait_def)
qed

lemma xpoll_resume_ok:
  assumes ok: "polls_ok g h P" and p: "pls P a = Some p" and h: "0 < h a"
  shows "\<exists>P'. xpoll_wait True (int (poll_id p)) sz timeout P = Ok (Done (Inr (take (nat sz) (happening P p))), P') \<and>
    polls_ok g (h(a := h a - 1)) P' \<and> ens P' = ens P"
proof -
  let ?p = "p\<lparr>uwaiters := uwaiters p - 1\<rparr>"
  let ?P = "set_poll a ?p P"
  note o = polls_okD [OF ok]
  have po: "poll_ok h P a p" by (rule o(3) [OF p])
  have "collect (ens P) (lru_head p) sz = Ok (take (nat sz) (map (\<lambda>e. pollfd (the (ens P e))) (takeWhile (hot P) (lru_head p))))"
    by (rule collect_ok) (use po in \<open>auto simp: poll_ok_def\<close>)
  then have c: "collect (ens P) (lru_head p) sz = Ok (take (nat sz) (happening P p))"
    using po by (simp add: happening_def poll_ok_def hots_first_takeWhile)
  have "poll_ok h ?P a ?p" using po by (auto simp: poll_ok_def)
  moreover have "poll_ok h ?P b q" if "pls P b = Some q" "b \<noteq> a" for b q
    using o(3) [OF that(1)] that(2) by (auto simp: poll_ok_def)
  moreover have "ent_ok g ?P i x" if "ens P i = Some x" for i x
    using o(4) [OF that] p by (auto simp: ent_ok_def)
  moreover have "a < pnext P" using o(5) [of a] p by (cases "a < pnext P") auto
  ultimately have 1: "polls_ok g h ?P" using o p by (auto simp: polls_ok_def)
  have "pls ?P a = Some ?p" by simp
  from poll_put_ok [OF 1 this h] obtain P' where
    "poll_put (poll_id p) ?P = Ok P'" "polls_ok g (h(a := h a - 1)) P'" "ens P' = ens P" by auto
  then show ?thesis using po p c by (simp add: xpoll_wait_def poll_ok_def)
qed

lemma xpoll_create_ok:
  assumes ok: "polls_ok g h P" and room: "card (live (pg_table P)) < PROXYIO_MAX_POLLS"
  shows "\<exists>i P'. xpoll_create True P = Ok (i, P') \<and> polls_ok g (h(pnext P := 1)) P' \<and> ens P' = ens P \<and>
    (\<forall>b. b \<noteq> pnext P \<longrightarrow> pls P' b = pls P b) \<and>
    pls P' (pnext P) = Some \<lparr>poll_id = i, poll_ref = 1, uwaiters = 0, poll_size = 0, shutdown_state = False, lru_head = []\<rparr>"
proof -
  note o = polls_okD [OF ok]
  let ?a = "pnext P"
  from xpool.alloc_room [OF o(2) room] obtain i t where t: "tbl_alloc PROXYIO_MAX_POLLS ?a (pg_table P) = Ok (i, t)"
    by blast
  note n = tbl_alloc_ok [OF o(2) t]
  let ?p = "\<lparr>poll_id = i, poll_ref = 1, uwaiters = 0, poll_size = 0, shutdown_state = False, lru_head = []\<rparr>"
  let ?P = "set_poll ?a ?p (P\<lparr>pnext := ?a + 1, pg_table := t\<rparr>)"
  have fresh: "pls P ?a = None" using o(5) [of ?a] by simp
  have own: "ent_owner x \<noteq> ?a" if "ens P e = Some x" for e x
    using o(4) [OF that] fresh by (auto simp: ent_ok_def)
  have s: "ents_of ?P = ents_of P" "hot ?P = hot P" "lfd ?P = lfd P"
    by (auto simp: ents_of_def hot_def lfd_def fun_eq_iff)
  have e0: "ents_of P ?a = {}" using own by (auto simp: ents_of_def)
  have "poll_ok (h(?a := 1)) ?P ?a ?p" using n unfolding poll_ok_def s by (auto simp: e0)
  moreover have "poll_ok (h(?a := 1)) ?P b q" if "pls P b = Some q" "b \<noteq> ?a" for b q
  proof -
    have q: "poll_ok h P b q" by (rule o(3) [OF that(1)])
    then have "poll_id q \<noteq> i" using n by (auto simp: poll_ok_def)
    then show ?thesis using q n that(2) unfolding poll_ok_def s by auto
  qed
  moreover have "ent_ok g ?P e x" if "ens P e = Some x" for e x
    using o(4) [OF that] own [OF that] by (auto simp: ent_ok_def)
  ultimately have "polls_ok g (h(?a := 1)) ?P" using o n by (auto simp: polls_ok_def)
  moreover have "int i < int PROXYIO_MAX_POLLS" using n by simp
  ultimately show ?thesis using t n
    by (simp add: xpoll_create_def poll_alloc_def poll_get_def Let_def)
qed

lemma rm_all_ok:
  "polls_ok g h P \<Longrightarrow> pls P a = Some p \<Longrightarrow> 0 < h a \<Longrightarrow> length (lru_head p) < n \<Longrightarrow>
    \<exists>P' q. rm_all_entries n a P = Some (Ok P') \<and> polls_ok g h P' \<and> pls P' a = Some q \<and> lru_head q = [] \<and>
      poll_id q = poll_id p \<and> watch P' = watch P \<and> keeps (\<lambda>q q'. poll_id q' = poll_id q) h P P'"
proof (induction n arbitrary: P p)
  case (Suc n)
  have all: "fd_match P XPOLL_HEADFD = (\<lambda>_. True)" by (simp add: fd_match_def fun_eq_iff)
  note rm = rm_poll_entry_ok [OF Suc.prems(1,2,3), of XPOLL_HEADFD]
  show ?case
  proof (cases "lru_head p")
    case Nil
    with rm Suc.prems show ?thesis by (auto simp: keeps_def)
  next
    case (Cons e l)
    with rm all obtain P1 where r: "rm_poll_entry a XPOLL_HEADFD P = Ok (True, P1)" "polls_ok g h P1"
      "keeps same_lru h (set_poll a (p\<lparr>lru_head := l\<rparr>) P) P1" "watch P1 = watch P"
      by auto
    from keepsD [OF r(3), of a "p\<lparr>lru_head := l\<rparr>"] Suc.prems(3) obtain q where
      q: "pls P1 a = Some q" "lru_head q = l" "poll_id q = poll_id p" by (auto simp: same_lru_def)
    have len: "length (lru_head q) < n" using Suc.prems(4) Cons q(2) by simp
    have k: "\<exists>q'. pls P1 b = Some q' \<and> poll_id q' = poll_id b'" if "pls P b = Some b'" "0 < h b" for b b'
      using keepsD [OF r(3), of b b'] that q Suc.prems(2) by (cases "b = a") (auto simp: same_lru_def)
    then have k: "keeps (\<lambda>q q'. poll_id q' = poll_id q) h P P1" by (auto simp: keeps_def)
    from Suc.IH [OF r(2) q(1) Suc.prems(3) len] obtain P' q' where
      i: "rm_all_entries n a P1 = Some (Ok P')" "polls_ok g h P'" "pls P' a = Some q'" "lru_head q' = []"
        "poll_id q' = poll_id q" "watch P' = watch P1" "keeps (\<lambda>q q'. poll_id q' = poll_id q) h P1 P'" by blast
    have "keeps (\<lambda>q q'. poll_id q' = poll_id q) h P P'" by (rule keeps_trans [OF k i(7)]) simp
    with i q r show ?thesis by auto
  qed
qed simp

text \<open>Closing a poll set. Its LRU list is emptied; entries that sockets still hold go when those
  sockets next notify them, and the last one takes the poll with it.\<close>

lemma xpoll_close_ok:
  assumes ok: "polls_ok g h P" and p: "pls P a = Some p" and h: "0 < h a" and n: "length (lru_head p) < n"
  shows "\<exists>P'. xpoll_close n (int (poll_id p)) P = Some (Ok (Inr (), P')) \<and> polls_ok g (h(a := h a - 1)) P' \<and>
    watch P' = watch P \<and> keeps (\<lambda>q q'. poll_id q' = poll_id q) (h(a := h a - 1)) P P' \<and>
    (\<forall>q. pls P' a = Some q \<longrightarrow> lru_head q = [])"
proof -
  let ?p = "p\<lparr>poll_ref := poll_ref p + 1\<rparr>"
  let ?P = "set_poll a ?p P"
  let ?h = "h(a := h a + 1)"
  note g = poll_get_ok [OF ok p]
  let ?q = "?p\<lparr>shutdown_state := True\<rparr>"
  let ?Q = "set_poll a ?q P"
  note o = polls_okD [OF g(2)]
  have "poll_ok ?h ?Q a ?q" using o(3) [of a ?p] by (auto simp: poll_ok_def)
  moreover have "poll_ok ?h ?Q b q" if "pls P b = Some q" "b \<noteq> a" for b q
    using o(3) [of b q] that by (auto simp: poll_ok_def)
  moreover have "ent_ok g ?Q i x" if "ens P i = Some x" for i x
    using o(4) [of i x] that by (auto simp: ent_ok_def)
  moreover have "a < pnext P" using o(5) [of a] by (cases "a < pnext P") auto
  ultimately have 1: "polls_ok g ?h ?Q" using o p by (auto simp: polls_ok_def)
  have qa: "pls ?Q a = Some ?q" "0 < ?h a" "length (lru_head ?q) < n" using n by simp_all
  from rm_all_ok [OF 1 qa] obtain P1 q1 where
    r: "rm_all_entries n a ?Q = Some (Ok P1)" "polls_ok g ?h P1" "pls P1 a = Some q1" "lru_head q1 = []"
      "poll_id q1 = poll_id ?q" "watch P1 = watch ?Q" "keeps (\<lambda>q q'. poll_id q' = poll_id q) ?h ?Q P1" by blast
  have id: "poll_id q1 = poll_id p" using r(5) by simp
  have hh: "?h(a := ?h a - 1) = h" by auto
  from poll_put_ok [OF r(2,3) qa(2), unfolded hh id] obtain P2 where
    r2: "poll_put (poll_id p) P1 = Ok P2" "polls_ok g h P2" "ens P2 = ens P1" "\<And>b. b \<noteq> a \<Longrightarrow> pls P2 b = pls P1 b"
      "pls P2 a = (if poll_ref q1 = 1 then None else Some (q1\<lparr>poll_ref := poll_ref q1 - 1\<rparr>))" by auto
  have "1 < poll_ref q1" using polls_okD(3) [OF r(2,3)] h by (simp add: poll_ok_def)
  then have p2: "pls P2 a = Some (q1\<lparr>poll_ref := poll_ref q1 - 1\<rparr>)" using r2(5) by simp
  from poll_put_ok [OF r2(2) p2 h] id obtain P3 where
    r3: "poll_put (poll_id p) P2 = Ok P3" "polls_ok g (h(a := h a - 1)) P3" "ens P3 = ens P2"
      "\<And>b. b \<noteq> a \<Longrightarrow> pls P3 b = pls P2 b"
      "pls P3 a = (if poll_ref q1 = 2 then None else Some (q1\<lparr>poll_ref := poll_ref q1 - 2\<rparr>))" by auto
  have "poll_ref q1 \<noteq> 2" if "0 < h a - 1"
    using polls_okD(3) [OF r2(2) p2] that by (simp add: poll_ok_def)
  then have r6: "0 < h a - 1 \<Longrightarrow> \<exists>q. pls P3 a = Some q \<and> poll_id q = poll_id p" using r3(5) id by simp
  have r7: "lru_head q = []" if "pls P3 a = Some q" for q using that r3(5) r(4) by (auto split: if_splits)
  have "\<exists>q'. pls P3 b = Some q' \<and> poll_id q' = poll_id b'" if "pls P b = Some b'" "0 < (h(a := h a - 1)) b" for b b'
    using keepsD [OF r(7), of b b'] that r3(4) r6 r2(4) p by (cases "b = a") auto
  then have "keeps (\<lambda>q q'. poll_id q' = poll_id q) (h(a := h a - 1)) P P3" by (simp add: keeps_def)
  moreover have "watch P3 = watch P" using r(6) r3(3) r2(3) by (auto simp: watch_def fun_eq_iff)
  ultimately show ?thesis using g(1) r(1) r2(1) r3(1,2) r7 by (auto simp: xpoll_close_def)
qed

text \<open>A new entry on both lists, with no events noted yet.\<close>

definition new_entry :: "nat \<Rightarrow> poll_fd \<Rightarrow> poll_entry" where
  "new_entry a f = \<lparr>pollfd = f, lru_attached = True, link_attached = True, ent_ref = 2, ent_owner = a\<rparr>"

definition add_linked :: "nat \<Rightarrow> xpoll \<Rightarrow> poll_fd \<Rightarrow> polls \<Rightarrow> polls" where
  "add_linked a p f P = set_poll a (p\<lparr>poll_ref := poll_ref p + 1, poll_size := poll_size p + 1,
       lru_head := lru_head p @ [pnext P]\<rparr>) (set_ent (pnext P) (new_entry a f) (P\<lparr>pnext := pnext P + 1\<rparr>))"

lemma add_linked_ok:
  assumes ok: "polls_ok g h P" and p: "pls P a = Some p" and f: "pevents f \<noteq> 0" "happened f = 0"
    "pfd f \<noteq> XPOLL_HEADFD" "find (fd_match P (pfd f)) (lru_head p) = None" and g: "g (pnext P) = 0"
  shows "polls_ok g h (add_linked a p f P)" (is "polls_ok g h ?P")
proof -
  note o = polls_okD [OF ok]
  let ?e = "pnext P"
  let ?p = "p\<lparr>poll_ref := poll_ref p + 1, poll_size := poll_size p + 1, lru_head := lru_head p @ [?e]\<rparr>"
  have po: "poll_ok h P a p" by (rule o(3) [OF p])
  have fresh: "ens P ?e = None" "pls P ?e = None" using o(5) [of ?e] by auto
  have new: "?e \<notin> set (lru_head q)" if "pls P b = Some q" for b q
    using o(3) [OF that] fresh by (auto simp: poll_ok_def)
  have own: "ents_of ?P b = (if b = a then insert ?e (ents_of P b) else ents_of P b)" for b
    using fresh by (auto simp: ents_of_def add_linked_def new_entry_def)
  have nin: "?e \<notin> ents_of P b" for b using fresh by (simp add: ents_of_def)
  have hot: "hot ?P = hot P" using f(2) fresh by (auto simp: hot_def add_linked_def new_entry_def fun_eq_iff)
  have lf: "map (lfd ?P) l = map (lfd P) l" if "?e \<notin> set l" for l
    using that by (auto simp: lfd_def add_linked_def)
  have le: "lfd ?P ?e = pfd f" by (simp add: lfd_def add_linked_def new_entry_def)
  have nofd: "lfd P i \<noteq> pfd f" if "i \<in> set (lru_head p)" for i
    using f(4) that by (auto simp: find_None_iff fd_match_def lfd_def)
  have "pfd f \<notin> lfd P ` set (lru_head p)" by (metis imageE nofd)
  then have "distinct (map (lfd ?P) (lru_head p @ [?e]))"
    using po new [OF p] by (auto simp: lf le poll_ok_def)
  moreover have "hots_first (hot P) (lru_head p @ [?e])"
    using po fresh by (intro hots_first_snoc) (auto simp: poll_ok_def hot_def)
  moreover have "card (insert ?e (ents_of P a)) = Suc (card (ents_of P a))"
    using nin finite_ents_of [OF o(1)] by simp
  ultimately have "poll_ok h ?P a ?p"
    using po new [OF p] f(3) unfolding poll_ok_def own hot
    by (auto simp: add_linked_def new_entry_def)
  moreover have "poll_ok h ?P b q" if "pls P b = Some q" "b \<noteq> a" for b q
    using o(3) [OF that(1)] that(2) new [OF that(1)] unfolding poll_ok_def own hot lf [OF new [OF that(1)]]
    by (auto simp: add_linked_def)
  moreover have "ent_ok g ?P ?e (new_entry a f)" using f(1) g by (auto simp: ent_ok_def new_entry_def add_linked_def)
  moreover have "ent_ok g ?P i x" if "ens P i = Some x" "i \<noteq> ?e" for i x
    using o(4) [OF that(1)] that(2) p by (auto simp: ent_ok_def add_linked_def)
  moreover have "a < pnext P" using o(5) [of a] p by (cases "a < pnext P") auto
  ultimately show ?thesis using o p fresh by (auto simp: polls_ok_def add_linked_def split: if_splits)
qed

text \<open>\<open>xpoll_add\<close> stores the \<open>happened\<close> the user passes; the notification that follows puts it right.
  \<open>with_hap e v\<close> is a state where \<open>happened\<close> of \<open>e\<close> is some \<open>v\<close>.\<close>

definition with_hap :: "nat \<Rightarrow> u32 \<Rightarrow> polls \<Rightarrow> polls" where
  "with_hap e v P = P\<lparr>ens := (ens P)(e := map_option (\<lambda>x. x\<lparr>pollfd := (pollfd x)\<lparr>happened := v\<rparr>\<rparr>) (ens P e))\<rparr>"

lemma emit_with_hap:
  assumes ok: "polls_ok g h P" and x: "ens P e = Some x" "link_attached x" "lru_attached x" "happened (pollfd x) = 0"
  shows "\<exists>P'. xpollbase_emit e H (with_hap e v P) = Ok (False, P') \<and> polls_ok g h P' \<and>
    (\<forall>i. i \<noteq> e \<longrightarrow> ens P' i = ens P i) \<and> keeps perm_lru h P P' \<and>
    ens P' e = Some (x\<lparr>pollfd := (pollfd x)\<lparr>happened := H AND pevents (pollfd x)\<rparr>\<rparr>)"
proof -
  note o = polls_okD [OF ok]
  let ?a = "ent_owner x"
  have xo: "ent_ok g P e x" by (rule o(4) [OF x(1)])
  then obtain p where p: "pls P ?a = Some p" and ev: "pevents (pollfd x) \<noteq> 0" and e: "e \<in> set (lru_head p)"
    using x(2,3) by (auto simp: ent_ok_def)
  have po: "poll_ok h P ?a p" by (rule o(3) [OF p])
  then have d: "distinct (lru_head p)" "hots_first (hot P) (lru_head p)" by (auto simp: poll_ok_def)
  let ?v = "H AND pevents (pollfd x)"
  let ?x = "x\<lparr>pollfd := (pollfd x)\<lparr>happened := ?v\<rparr>\<rparr>"
  let ?y = "x\<lparr>pollfd := (pollfd x)\<lparr>happened := v\<rparr>\<rparr>"
  have w: "set_ent e z (with_hap e v P) = set_ent e z P" "ens (with_hap e v P) e = Some ?y"
    "pls (with_hap e v P) = pls P" "with_hap e v P\<lparr>pwakes := n\<rparr> = with_hap e v (P\<lparr>pwakes := n\<rparr>)" for z n
    using x(1) by (simp_all add: with_hap_def set_ent_def)
  have w': "set_ent e z (with_hap e v (P\<lparr>pwakes := n\<rparr>)) = set_ent e z (P\<lparr>pwakes := n\<rparr>)" for z n
    by (simp add: with_hap_def set_ent_def)
  have wp: "pwakes (with_hap e v P) = pwakes P" by (simp add: with_hap_def)
  consider "?v \<noteq> 0" | "?v = 0" "v \<noteq> 0" | "?v = 0" "v = 0" by blast
  then show ?thesis
  proof cases
    case 1
    let ?l = "e # remove1 e (lru_head p)"
    let ?P = "P\<lparr>pwakes := pwakes P + (if uwaiters p \<noteq> 0 then 1 else 0)\<rparr>"
    have "hots_first (\<lambda>i. if i = e then ?v \<noteq> 0 else hot ?P i) ?l"
      unfolding ents_wakes by (rule hots_first_front [OF d 1])
    then have "polls_ok g h (set_poll ?a (p\<lparr>lru_head := ?l\<rparr>) (set_ent e ?x ?P))"
      using ok p x e by (intro move_ent_ok [where x = x]) auto
    moreover have "xpollbase_emit e H (with_hap e v P) =
        Ok (False, set_poll ?a (p\<lparr>lru_head := ?l\<rparr>) (set_ent e ?x ?P))"
      using 1 x(3) p ev by (simp add: xpollbase_emit_def Let_def w w' wp)
    ultimately show ?thesis using p e by (auto simp: keeps_def perm_lru_def)
  next
    case 2
    let ?l = "remove1 e (lru_head p) @ [e]"
    have "hots_first (\<lambda>i. if i = e then ?v \<noteq> 0 else hot P i) ?l"
      by (rule hots_first_back [OF d]) (simp add: 2)
    then have "polls_ok g h (set_poll ?a (p\<lparr>lru_head := ?l\<rparr>) (set_ent e ?x P))"
      using ok p x e by (intro move_ent_ok [where x = x]) auto
    moreover have "xpollbase_emit e H (with_hap e v P) = Ok (False, set_poll ?a (p\<lparr>lru_head := ?l\<rparr>) (set_ent e ?x P))"
      using 2 x(3) p ev by (simp add: xpollbase_emit_def Let_def w)
    ultimately show ?thesis using p e by (auto simp: keeps_def perm_lru_def)
  next
    case 3
    have "xpollbase_emit e H (with_hap e v P) = Ok (False, set_ent e ?y P)"
      using 3 x(1,3) p ev by (simp add: xpollbase_emit_def Let_def w) (simp add: with_hap_def set_ent_def)
    moreover have "polls_ok g h (set_ent e ?y P)"
      by (rule set_ent_ok [OF ok x(1)]) (use xo 3 x(4) in \<open>auto simp: ent_ok_def\<close>)
    ultimately show ?thesis using 3 by (auto simp: keeps_def)
  qed
qed

section \<open>Properties\<close>

lemma polls_ok_init [simp]: "polls_ok g h poll_init"
  by (simp add: polls_ok_def poll_init_def)

lemma happening_set:
  assumes "polls_ok g h P" "pls P a = Some p"
  shows "set (happening P p) =
    {pollfd x | e x. ens P e = Some x \<and> ent_owner x = a \<and> lru_attached x \<and> happened (pollfd x) \<noteq> 0}" (is "?l = ?r")
proof (rule set_eqI)
  fix f
  note o = polls_okD [OF assms(1)]
  have po: "poll_ok h P a p" by (rule o(3) [OF assms(2)])
  have "f \<in> ?l \<longleftrightarrow> (\<exists>e\<in>set (lru_head p). hot P e \<and> f = pollfd (the (ens P e)))"
    by (auto simp: happening_def)
  also have "\<dots> \<longleftrightarrow> f \<in> ?r"
  proof
    assume "\<exists>e\<in>set (lru_head p). hot P e \<and> f = pollfd (the (ens P e))"
    then show "f \<in> ?r" using po by (fastforce simp: poll_ok_def hot_def)
  next
    assume "f \<in> ?r"
    then obtain e x where x: "f = pollfd x" "ens P e = Some x" "ent_owner x = a" "lru_attached x"
      "happened (pollfd x) \<noteq> 0" by auto
    then have "e \<in> set (lru_head p)" using o(4) [OF x(2)] assms(2) by (auto simp: ent_ok_def)
    then show "\<exists>e\<in>set (lru_head p). hot P e \<and> f = pollfd (the (ens P e))"
      using x by (intro bexI [of _ e]) (auto simp: hot_def)
  qed
  finally show "f \<in> ?l \<longleftrightarrow> f \<in> ?r" .
qed

text \<open>C21. Waiting on a poll set with entries: the walk stops at the first entry without events and
  still reports every entry of the set that has some, as many as the caller has room for, and
  only those, because notifications keep the entries with events in front. The call blocks just
  when there are none and the timeout is positive, and otherwise leaves the poll set as it was.
  With no room, a size of zero or less, it reports none and does not fail, although
  \<^verbatim>\<open>docs/xpoll_wait.3.txt\<close> documents \<open>EINVAL\<close> for it.\<close>

theorem xpoll_wait_exact:
  assumes "polls_ok g h P" "pls P a = Some p" "lru_head p \<noteq> []"
  shows "\<exists>fds. set fds = {pollfd x | e x. ens P e = Some x \<and> ent_owner x = a \<and> lru_attached x \<and>
        happened (pollfd x) \<noteq> 0} \<and> distinct (map pfd fds) \<and>
    (if fds = [] \<and> timeout > 0
     then \<exists>P'. xpoll_wait False (int (poll_id p)) sz timeout P = Ok (Blocked, P')
     else xpoll_wait False (int (poll_id p)) sz timeout P = Ok (Done (Inr (take (nat sz) fds)), P))"
proof (intro exI conjI)
  show "set (happening P p) = {pollfd x | e x. ens P e = Some x \<and> ent_owner x = a \<and> lru_attached x \<and>
        happened (pollfd x) \<noteq> 0}" by (rule happening_set [OF assms(1,2)])
  have "distinct (map (lfd P) (lru_head p))" using polls_okD(3) [OF assms(1,2)] by (simp add: poll_ok_def)
  then show "distinct (map pfd (happening P p))"
    by (auto simp: happening_def comp_def lfd_def [symmetric] distinct_map intro: inj_on_subset)
  show "if happening P p = [] \<and> timeout > 0
     then \<exists>P'. xpoll_wait False (int (poll_id p)) sz timeout P = Ok (Blocked, P')
     else xpoll_wait False (int (poll_id p)) sz timeout P = Ok (Done (Inr (take (nat sz) (happening P p))), P)"
    using xpoll_wait_ok [OF assms] by simp
qed

definition fd7 :: poll_fd where "fd7 = \<lparr>pfd = 7, phndl = 0, pevents = XPOLLIN, happened = 0\<rparr>"

theorem xpoll_wait_exact_witness:
  "\<exists>P i fds. xpoll_wait False i 10 0 P = Ok (Done (Inr fds), P) \<and> map pfd fds = [7] \<and>
     map happened fds = [XPOLLIN]"
proof -
  have "card (live (pg_table poll_init)) < PROXYIO_MAX_POLLS" by (simp add: poll_init_def PROXYIO_MAX_POLLS_def)
  from xpoll_create_ok [OF polls_ok_init this] obtain i P where
    P: "polls_ok (\<lambda>_. 0) ((\<lambda>_. 0)(pnext poll_init := 1)) P" "ens P = ens poll_init"
      "pls P (pnext poll_init) = Some \<lparr>poll_id = i, poll_ref = 1, uwaiters = 0, poll_size = 0,
         shutdown_state = False, lru_head = []\<rparr>" (is "pls P ?a = Some ?p") by blast
  let ?h = "(\<lambda>_. 0)(pnext poll_init := 1)"
  let ?Q = "add_linked ?a ?p fd7 P"
  let ?e = "pnext P"
  have Q: "polls_ok (\<lambda>_. 0) ?h ?Q"
    by (rule add_linked_ok [OF P(1,3)]) (simp_all add: fd7_def XPOLLIN_def XPOLL_HEADFD_def)
  have e: "ens ?Q ?e = Some (new_entry ?a fd7)" "link_attached (new_entry ?a fd7)" by (simp_all add: add_linked_def new_entry_def)
  from xpollbase_emit_ok [OF Q e, of XPOLLIN] obtain R where
    R: "polls_ok (\<lambda>_. 0) ?h R" "keeps perm_lru ?h ?Q R"
      "ens R ?e = Some ((new_entry ?a fd7)\<lparr>pollfd := fd7\<lparr>happened := XPOLLIN\<rparr>\<rparr>)"
    by (auto simp: new_entry_def fd7_def XPOLLIN_def)
  have "pls ?Q ?a = Some (?p\<lparr>poll_ref := 2, poll_size := 1, lru_head := [?e]\<rparr>)" by (simp add: add_linked_def)
  from keepsD [OF R(2) this] obtain q where q: "pls R ?a = Some q" "lru_head q = [?e]" by (auto simp: perm_lru_def)
  from xpoll_wait_exact [OF R(1) q(1), of 0 10] q(2) R(3)
  obtain fds where f: "set fds = {pollfd x | e x. ens R e = Some x \<and> ent_owner x = ?a \<and> lru_attached x \<and> happened (pollfd x) \<noteq> 0}"
    "distinct (map pfd fds)" "xpoll_wait False (int (poll_id q)) 10 0 R = Ok (Done (Inr (take (nat 10) fds)), R)" by auto
  have "set (happening R q) = set fds" using happening_set [OF R(1) q(1)] f(1) by simp
  moreover have "happening R q = [fd7\<lparr>happened := XPOLLIN\<rparr>]"
    using q(2) R(3) by (simp add: happening_def hot_def XPOLLIN_def)
  ultimately have "set fds = {fd7\<lparr>happened := XPOLLIN\<rparr>}" by simp
  moreover have "distinct fds" using f(2) by (simp add: distinct_map)
  ultimately have "fds = [fd7\<lparr>happened := XPOLLIN\<rparr>]"
    by (cases fds; cases "tl fds") (auto simp: insert_eq_iff)
  with f(3) show ?thesis by (intro exI [of _ R] exI [of _ "int (poll_id q)"] exI [of _ fds]) (simp add: fd7_def)
qed

end
