(* ===== verification/Krb.thy ===== *)
theory Krb
  imports Prelude "HOL-Library.Multiset"
begin

text \<open>
  The red-black trees of \<^verbatim>\<open>src/src/utils/krb.c\<close>, \<^verbatim>\<open>krb.h\<close> and \<^verbatim>\<open>krb_augmented.[ch]\<close>: nodes with
  parent pointers in a heap. The C functions have each branch twice, once for either side; here
  a branch is written once, for the side \<open>s\<close>. The augmentation callbacks are the empty ones of
  \<open>rb_insert_color\<close> and \<open>rb_erase\<close>. Pointer and colour, which share a word, are two fields.
\<close>

section \<open>Nodes and heap\<close>

datatype side = LeftS | RightS

fun other :: "side \<Rightarrow> side" where
  "other LeftS = RightS"
| "other RightS = LeftS"

lemma other_simps [simp]: "other (other s) = s" "other s \<noteq> s" "s \<noteq> other s"
  by (cases s; simp)+

lemma side_neq: "s \<noteq> s' \<longleftrightarrow> s = other s'" for s s'
  by (cases s; cases s') simp_all

record rb_node =
  rb_black :: bool
  rb_parent :: "nat option"
  rb_kid :: "side \<Rightarrow> nat option"

record rb_heap =
  rbn :: "nat \<Rightarrow> rb_node"
  rb_root :: "nat option"

definition upd_node :: "nat \<Rightarrow> (rb_node \<Rightarrow> rb_node) \<Rightarrow> rb_heap \<Rightarrow> rb_heap" where
  "upd_node a f h = h\<lparr>rbn := (rbn h)(a := f (rbn h a))\<rparr>"

definition set_kid :: "side \<Rightarrow> nat \<Rightarrow> nat option \<Rightarrow> rb_heap \<Rightarrow> rb_heap" where
  "set_kid s a p = upd_node a (\<lambda>n. n\<lparr>rb_kid := (rb_kid n)(s := p)\<rparr>)"

definition rb_set_parent :: "nat \<Rightarrow> nat option \<Rightarrow> rb_heap \<Rightarrow> rb_heap" where
  "rb_set_parent a p = upd_node a (\<lambda>n. n\<lparr>rb_parent := p\<rparr>)"

definition rb_set_parent_color :: "nat \<Rightarrow> nat option \<Rightarrow> bool \<Rightarrow> rb_heap \<Rightarrow> rb_heap" where
  "rb_set_parent_color a p c = upd_node a (\<lambda>n. n\<lparr>rb_black := c, rb_parent := p\<rparr>)"

definition rb_set_black :: "nat \<Rightarrow> rb_heap \<Rightarrow> rb_heap" where
  "rb_set_black a = upd_node a (\<lambda>n. n\<lparr>rb_black := True\<rparr>)"

text \<open>\<open>when_some p f\<close> is \<open>if (p) f(p)\<close>.\<close>

definition when_some :: "nat option \<Rightarrow> (nat \<Rightarrow> rb_heap \<Rightarrow> rb_heap) \<Rightarrow> rb_heap \<Rightarrow> rb_heap" where
  "when_some p f h = (case p of None \<Rightarrow> h | Some a \<Rightarrow> f a h)"

definition is_red :: "nat option \<Rightarrow> rb_heap \<Rightarrow> bool" where
  "is_red p h \<longleftrightarrow> (case p of None \<Rightarrow> False | Some a \<Rightarrow> \<not> rb_black (rbn h a))"

definition rb_change_child :: "nat \<Rightarrow> nat option \<Rightarrow> nat option \<Rightarrow> rb_heap \<Rightarrow> rb_heap" where
  "rb_change_child old new parent h =
     (case parent of
        None \<Rightarrow> h\<lparr>rb_root := new\<rparr>
      | Some q \<Rightarrow> set_kid (if rb_kid (rbn h q) LeftS = Some old then LeftS else RightS) q new h)"

definition rb_rotate_set_parents :: "nat \<Rightarrow> nat \<Rightarrow> bool \<Rightarrow> rb_heap \<Rightarrow> rb_heap" where
  "rb_rotate_set_parents old new c h =
     (let parent = rb_parent (rbn h old);
          h = rb_set_parent_color new parent (rb_black (rbn h old)) h;
          h = rb_set_parent_color old (Some new) c h
      in rb_change_child old (Some new) parent h)"

definition rb_link_node :: "nat \<Rightarrow> (nat \<times> side) option \<Rightarrow> rb_heap \<Rightarrow> rb_heap" where
  "rb_link_node a link h =
     (let h = upd_node a (\<lambda>_. \<lparr>rb_black = False, rb_parent = map_option fst link, rb_kid = (\<lambda>_. None)\<rparr>) h
      in case link of None \<Rightarrow> h\<lparr>rb_root := Some a\<rparr> | Some (p, s) \<Rightarrow> set_kid s p (Some a) h)"

section \<open>Insertion\<close>

text \<open>Cases 2 and 3, for a parent on side \<open>s\<close> of the grandparent.\<close>

definition insert_case3 :: "side \<Rightarrow> nat option \<Rightarrow> nat \<Rightarrow> nat \<Rightarrow> rb_heap \<Rightarrow> rb_heap" where
  "insert_case3 s tmp parent gparent h =
     (let h = set_kid s gparent tmp h;
          h = set_kid (other s) parent (Some gparent) h;
          h = when_some tmp (\<lambda>t. rb_set_parent_color t (Some gparent) True) h
      in rb_rotate_set_parents gparent parent False h)"

definition insert_rotate :: "side \<Rightarrow> nat \<Rightarrow> nat \<Rightarrow> nat \<Rightarrow> rb_heap \<Rightarrow> rb_heap" where
  "insert_rotate s node parent gparent h =
     (let tmp = rb_kid (rbn h parent) (other s)
      in if tmp = Some node
         then let tmp = rb_kid (rbn h node) s;
                  h = set_kid (other s) parent tmp h;
                  h = set_kid s node (Some parent) h;
                  h = when_some tmp (\<lambda>t. rb_set_parent_color t (Some parent) True) h;
                  h = rb_set_parent_color parent (Some node) False h
              in insert_case3 s (rb_kid (rbn h node) (other s)) node gparent h
         else insert_case3 s tmp parent gparent h)"

text \<open>The loop of \<open>__rb_insert\<close>.\<close>

fun rb_insert_loop :: "nat \<Rightarrow> nat \<Rightarrow> nat option \<Rightarrow> rb_heap \<Rightarrow> rb_heap cres option" where
  "rb_insert_loop 0 node parent h = None"
| "rb_insert_loop (Suc n) node parent h =
     (case parent of
        None \<Rightarrow> Some (Ok (rb_set_parent_color node None True h))
      | Some p \<Rightarrow>
          if rb_black (rbn h p) then Some (Ok h)
          else case rb_parent (rbn h p) of
                 None \<Rightarrow> Some Undef
               | Some g \<Rightarrow>
                   let s = (if Some p \<noteq> rb_kid (rbn h g) RightS then LeftS else RightS);
                       tmp = rb_kid (rbn h g) (other s)
                   in if is_red tmp h
                      then let h = when_some tmp (\<lambda>t. rb_set_parent_color t (Some g) True) h;
                               h = rb_set_parent_color p (Some g) True h;
                               parent = rb_parent (rbn h g);
                               h = rb_set_parent_color g parent False h
                           in rb_insert_loop n g parent h
                      else Some (Ok (insert_rotate s node p g h)))"

definition rb_insert_color :: "nat \<Rightarrow> nat \<Rightarrow> rb_heap \<Rightarrow> rb_heap cres option" where
  "rb_insert_color fuel node h = rb_insert_loop fuel node (rb_parent (rbn h node)) h"

section \<open>Erasing\<close>

text \<open>Case 1 of the loop, for a node on side \<open>s\<close> of \<open>parent\<close>: the new sibling.\<close>

definition erase_case1 :: "side \<Rightarrow> nat \<Rightarrow> nat \<Rightarrow> rb_heap \<Rightarrow> (nat \<times> rb_heap) cres" where
  "erase_case1 s parent sibling h =
     (let tmp1 = rb_kid (rbn h sibling) s;
          h = set_kid (other s) parent tmp1 h;
          h = set_kid s sibling (Some parent) h
      in cbind (deref tmp1) (\<lambda>t1.
           let h = rb_set_parent_color t1 (Some parent) True h
           in Ok (t1, rb_rotate_set_parents parent sibling False h)))"

text \<open>Cases 3 and 4.\<close>

definition erase_rotate :: "side \<Rightarrow> nat \<Rightarrow> nat \<Rightarrow> rb_heap \<Rightarrow> rb_heap cres" where
  "erase_rotate s parent sibling h =
     cbind (if is_red (rb_kid (rbn h sibling) (other s)) h then Ok (rb_kid (rbn h sibling) (other s), sibling, h)
            else cbind (deref (rb_kid (rbn h sibling) s)) (\<lambda>tmp2.
                   let tmp1 = rb_kid (rbn h tmp2) (other s);
                       h = set_kid s sibling tmp1 h;
                       h = set_kid (other s) tmp2 (Some sibling) h;
                       h = set_kid (other s) parent (Some tmp2) h;
                       h = when_some tmp1 (\<lambda>t. rb_set_parent_color t (Some sibling) True) h
                   in Ok (Some sibling, tmp2, h))) (\<lambda>(tmp1, sibling, h).
       let tmp2 = rb_kid (rbn h sibling) s;
           h = set_kid (other s) parent tmp2 h;
           h = set_kid s sibling (Some parent) h
       in cbind (deref tmp1) (\<lambda>t1.
            let h = rb_set_parent_color t1 (Some sibling) True h;
                h = when_some tmp2 (\<lambda>t. rb_set_parent t (Some parent)) h
            in Ok (rb_rotate_set_parents parent sibling True h)))"

text \<open>The loop of \<open>____rb_erase_color\<close>.\<close>

fun rb_erase_loop :: "nat \<Rightarrow> nat option \<Rightarrow> nat \<Rightarrow> rb_heap \<Rightarrow> rb_heap cres option" where
  "rb_erase_loop 0 node parent h = None"
| "rb_erase_loop (Suc n) node parent h =
     (let s = (if node \<noteq> rb_kid (rbn h parent) RightS then LeftS else RightS)
      in case rb_kid (rbn h parent) (other s) of
           None \<Rightarrow> Some Undef
         | Some sibling \<Rightarrow>
             (case (if \<not> rb_black (rbn h sibling) then erase_case1 s parent sibling h else Ok (sibling, h)) of
                Ok (sibling, h) \<Rightarrow>
                  if \<not> is_red (rb_kid (rbn h sibling) (other s)) h \<and> \<not> is_red (rb_kid (rbn h sibling) s) h
                  then let h = rb_set_parent_color sibling (Some parent) False h
                       in if \<not> rb_black (rbn h parent) then Some (Ok (rb_set_black parent h))
                          else (case rb_parent (rbn h parent) of
                                  None \<Rightarrow> Some (Ok h)
                                | Some q \<Rightarrow> rb_erase_loop n (Some parent) q h)
                  else Some (erase_rotate s parent sibling h)
              | Err e \<Rightarrow> Some (Err e) | Bug \<Rightarrow> Some Bug | Undef \<Rightarrow> Some Undef))"

text \<open>The walk to the successor: its parent and itself.\<close>

fun leftmost :: "nat \<Rightarrow> nat \<Rightarrow> nat \<Rightarrow> rb_heap \<Rightarrow> (nat \<times> nat) option" where
  "leftmost 0 parent a h = None"
| "leftmost (Suc n) parent a h =
     (case rb_kid (rbn h a) LeftS of None \<Rightarrow> Some (parent, a) | Some b \<Rightarrow> leftmost n a b h)"

text \<open>Cases 2 and 3 of \<open>__rb_erase_augmented\<close>: the successor of a node with the right child \<open>c\<close>, its
  parent and its right child, once it is taken from its place.\<close>

definition take_succ :: "nat \<Rightarrow> nat \<Rightarrow> rb_heap \<Rightarrow> (nat \<times> nat \<times> nat option \<times> rb_heap) option" where
  "take_succ fuel c h =
     (case rb_kid (rbn h c) LeftS of
        None \<Rightarrow> Some (c, c, rb_kid (rbn h c) RightS, h)
      | Some b \<Rightarrow>
          map_option (\<lambda>(par, succ).
              let child2 = rb_kid (rbn h succ) RightS;
                  h = set_kid LeftS par child2 h;
                  h = set_kid RightS succ (Some c) h;
                  h = rb_set_parent c (Some succ) h
              in (par, succ, child2, h))
            (leftmost fuel c b h))"

text \<open>The successor takes the place of \<open>node\<close>.\<close>

definition put_succ :: "nat \<Rightarrow> nat \<times> nat \<times> nat option \<times> rb_heap \<Rightarrow> nat option \<times> rb_heap" where
  "put_succ node = (\<lambda>(par, succ, child2, h).
     let h = set_kid LeftS succ (rb_kid (rbn h node) LeftS) h;
         h = when_some (rb_kid (rbn h node) LeftS) (\<lambda>t. rb_set_parent t (Some succ)) h;
         n = rbn h node; parent = rb_parent n;
         h = rb_change_child node (Some succ) parent h
     in case child2 of
          Some c2 \<Rightarrow>
            (None, rb_set_parent_color c2 (Some par) True (rb_set_parent_color succ parent (rb_black n) h))
        | None \<Rightarrow>
            (if rb_black (rbn h succ) then Some par else None, rb_set_parent_color succ parent (rb_black n) h))"

text \<open>\<open>__rb_erase_augmented\<close>: the node to rebalance at, if any, and the heap.\<close>

definition rb_erase_augmented :: "nat \<Rightarrow> nat \<Rightarrow> rb_heap \<Rightarrow> (nat option \<times> rb_heap) option" where
  "rb_erase_augmented fuel node h =
     (let n = rbn h node; child = rb_kid n RightS; tmp = rb_kid n LeftS; parent = rb_parent n
      in case tmp of
           None \<Rightarrow>
             let h = rb_change_child node child parent h
             in Some (case child of
                        Some c \<Rightarrow> (None, rb_set_parent_color c parent (rb_black n) h)
                      | None \<Rightarrow> (if rb_black n then parent else None, h))
         | Some t \<Rightarrow>
             (case child of
                None \<Rightarrow> Some (None, rb_change_child node (Some t) parent (rb_set_parent_color t parent (rb_black n) h))
              | Some c \<Rightarrow> map_option (put_succ node) (take_succ fuel c h)))"

definition rb_erase :: "nat \<Rightarrow> nat \<Rightarrow> rb_heap \<Rightarrow> rb_heap cres option" where
  "rb_erase fuel node h =
     (case rb_erase_augmented fuel node h of
        None \<Rightarrow> None
      | Some (None, h) \<Rightarrow> Some (Ok h)
      | Some (Some p, h) \<Rightarrow> rb_erase_loop fuel None p h)"

section \<open>Walking\<close>

fun descend :: "side \<Rightarrow> nat \<Rightarrow> nat \<Rightarrow> rb_heap \<Rightarrow> nat option" where
  "descend s 0 a h = None"
| "descend s (Suc n) a h = (case rb_kid (rbn h a) s of None \<Rightarrow> Some a | Some b \<Rightarrow> descend s n b h)"

text \<open>\<open>rb_first\<close> and \<open>rb_last\<close>; the outer \<open>None\<close> is fuel that ran out.\<close>

definition rb_first :: "nat \<Rightarrow> rb_heap \<Rightarrow> nat option option" where
  "rb_first fuel h = (case rb_root h of None \<Rightarrow> Some None | Some a \<Rightarrow> map_option Some (descend LeftS fuel a h))"

definition rb_last :: "nat \<Rightarrow> rb_heap \<Rightarrow> nat option option" where
  "rb_last fuel h = (case rb_root h of None \<Rightarrow> Some None | Some a \<Rightarrow> map_option Some (descend RightS fuel a h))"

fun climb :: "side \<Rightarrow> nat \<Rightarrow> nat \<Rightarrow> rb_heap \<Rightarrow> nat option option" where
  "climb s 0 a h = None"
| "climb s (Suc n) a h =
     (case rb_parent (rbn h a) of
        None \<Rightarrow> Some None
      | Some p \<Rightarrow> if rb_kid (rbn h p) s = Some a then climb s n p h else Some (Some p))"

text \<open>\<open>rb_next\<close> is \<open>walk RightS\<close>, \<open>rb_prev\<close> is \<open>walk LeftS\<close>. A node that is its own parent is empty.\<close>

definition walk :: "side \<Rightarrow> nat \<Rightarrow> nat \<Rightarrow> rb_heap \<Rightarrow> nat option option" where
  "walk s fuel a h =
     (if rb_parent (rbn h a) = Some a \<and> \<not> rb_black (rbn h a) then Some None
      else case rb_kid (rbn h a) s of
             Some b \<Rightarrow> map_option Some (descend (other s) fuel b h)
           | None \<Rightarrow> climb s fuel a h)"

definition rb_next :: "nat \<Rightarrow> nat \<Rightarrow> rb_heap \<Rightarrow> nat option option" where
  "rb_next = walk RightS"

definition rb_prev :: "nat \<Rightarrow> nat \<Rightarrow> rb_heap \<Rightarrow> nat option option" where
  "rb_prev = walk LeftS"

definition rb_replace_node :: "nat \<Rightarrow> nat \<Rightarrow> rb_heap \<Rightarrow> rb_heap" where
  "rb_replace_node victim new h =
     (let parent = rb_parent (rbn h victim);
          h = rb_change_child victim (Some new) parent h;
          h = when_some (rb_kid (rbn h victim) LeftS) (\<lambda>t. rb_set_parent t (Some new)) h;
          h = when_some (rb_kid (rbn h victim) RightS) (\<lambda>t. rb_set_parent t (Some new)) h
      in upd_node new (\<lambda>_. rbn h victim) h)"

section \<open>Trees and paths\<close>

datatype rtree = RLeaf | RNode rtree bool nat rtree

fun rt_root :: "rtree \<Rightarrow> nat option" where
  "rt_root RLeaf = None"
| "rt_root (RNode l c a r) = Some a"

fun inorder :: "rtree \<Rightarrow> nat list" where
  "inorder RLeaf = []"
| "inorder (RNode l c a r) = inorder l @ a # inorder r"

text \<open>\<open>mk s c x a y\<close> has \<open>x\<close> on side \<open>s\<close> and \<open>y\<close> on the other one.\<close>

fun mk :: "side \<Rightarrow> bool \<Rightarrow> rtree \<Rightarrow> nat \<Rightarrow> rtree \<Rightarrow> rtree" where
  "mk LeftS c x a y = RNode x c a y"
| "mk RightS c x a y = RNode y c a x"

fun ord2 :: "side \<Rightarrow> nat list \<Rightarrow> nat list \<Rightarrow> nat list" where
  "ord2 LeftS xs ys = xs @ ys"
| "ord2 RightS xs ys = ys @ xs"

lemma mk_other: "mk (other s) c x a y = mk s c y a x"
  by (cases s) simp_all

lemma mk_simps [simp]:
  "rt_root (mk s c x a y) = Some a" "mk s c x a y \<noteq> RLeaf" "RLeaf \<noteq> mk s c x a y"
  "set (inorder (mk s c x a y)) = insert a (set (inorder x) \<union> set (inorder y))"
  "distinct (inorder (mk s c x a y)) \<longleftrightarrow> distinct (inorder x) \<and> distinct (inorder y) \<and>
     a \<notin> set (inorder x) \<and> a \<notin> set (inorder y) \<and> set (inorder x) \<inter> set (inorder y) = {}"
  "mk s c x a y = mk s c' x' a' y' \<longleftrightarrow> c = c' \<and> x = x' \<and> a = a' \<and> y = y'"
  by (cases s; auto)+

lemma inorder_mk: "inorder (mk s c x a y) = ord2 s (inorder x) (ord2 s [a] (inorder y))"
  by (cases s) simp_all

lemma ord2_assoc: "ord2 s (ord2 s xs ys) zs = ord2 s xs (ord2 s ys zs)"
  by (cases s) simp_all

lemma mk_cases: "t = RLeaf \<or> (\<exists>c x a y. t = mk s c x a y)"
proof (cases t)
  case (RNode l c a r)
  then have "t = mk LeftS c l a r" "t = mk RightS c r a l" by simp_all
  then show ?thesis by (cases s) blast+
qed simp

fun black :: "rtree \<Rightarrow> bool" where
  "black RLeaf = True"
| "black (RNode l c a r) = c"

fun paint :: "bool \<Rightarrow> rtree \<Rightarrow> rtree" where
  "paint c RLeaf = RLeaf"
| "paint c (RNode l d a r) = RNode l c a r"

lemma mk_color [simp]: "black (mk s c x a y) = c" "paint d (mk s c x a y) = mk s d x a y"
  by (cases s; simp)+

lemma paint_simps [simp]:
  "inorder (paint c t) = inorder t" "rt_root (paint c t) = rt_root t" "black t \<Longrightarrow> paint True t = t"
  "black (paint True t)" "\<not> black t \<Longrightarrow> paint False t = t" "(paint c t = RLeaf) = (t = RLeaf)"
  by (cases t; simp)+

text \<open>\<open>repr h p t\<close>: the heap holds \<open>t\<close>, whose root has the parent \<open>p\<close>.\<close>

fun repr :: "rb_heap \<Rightarrow> nat option \<Rightarrow> rtree \<Rightarrow> bool" where
  "repr h p RLeaf = True"
| "repr h p (RNode l c a r) \<longleftrightarrow> rb_black (rbn h a) = c \<and> rb_parent (rbn h a) = p \<and>
     rb_kid (rbn h a) LeftS = rt_root l \<and> rb_kid (rbn h a) RightS = rt_root r \<and>
     repr h (Some a) l \<and> repr h (Some a) r"

lemma repr_mk [simp]:
  "repr h p (mk s c x a y) \<longleftrightarrow> rb_black (rbn h a) = c \<and> rb_parent (rbn h a) = p \<and>
     rb_kid (rbn h a) s = rt_root x \<and> rb_kid (rbn h a) (other s) = rt_root y \<and>
     repr h (Some a) x \<and> repr h (Some a) y"
  by (cases s) auto

text \<open>A path from a subtree up to the root: the side taken, colour and node, and the other subtree.\<close>

type_synonym path = "(side \<times> bool \<times> nat \<times> rtree) list"

fun top :: "path \<Rightarrow> nat option" where
  "top [] = None"
| "top ((s, c, a, t) # k) = Some a"

fun plug :: "path \<Rightarrow> rtree \<Rightarrow> rtree" where
  "plug [] t = t"
| "plug ((s, c, a, u) # k) t = plug k (mk s c t a u)"

fun paddrs :: "path \<Rightarrow> nat list" where
  "paddrs [] = []"
| "paddrs ((s, c, a, u) # k) = a # inorder u @ paddrs k"

text \<open>\<open>ctx h k p\<close>: the heap holds the path \<open>k\<close>, with the pointer \<open>p\<close> where it ends.\<close>

fun ctx :: "rb_heap \<Rightarrow> path \<Rightarrow> nat option \<Rightarrow> bool" where
  "ctx h [] p \<longleftrightarrow> rb_root h = p"
| "ctx h ((s, c, a, u) # k) p \<longleftrightarrow> rb_black (rbn h a) = c \<and> rb_parent (rbn h a) = top k \<and>
     rb_kid (rbn h a) s = p \<and> rb_kid (rbn h a) (other s) = rt_root u \<and> repr h (Some a) u \<and> ctx h k (Some a)"

text \<open>\<open>held h t\<close>: the whole heap is the tree \<open>t\<close>.\<close>

definition held :: "rb_heap \<Rightarrow> rtree \<Rightarrow> bool" where
  "held h t \<longleftrightarrow> rb_root h = rt_root t \<and> repr h None t \<and> distinct (inorder t)"

lemma plug_repr:
  "rb_root h = rt_root (plug k t) \<and> repr h None (plug k t) \<longleftrightarrow> ctx h k (rt_root t) \<and> repr h (top k) t"
  by (induction k t rule: plug.induct) auto

lemma plug_mset: "mset (inorder (plug k t)) = mset (paddrs k) + mset (inorder t)"
proof (induction k t rule: plug.induct)
  case (2 s c a u k t)
  then show ?case by (cases s) simp_all
qed simp

lemma plug_distinct: "distinct (inorder (plug k t)) \<longleftrightarrow> distinct (paddrs k @ inorder t)"
  by (intro mset_eq_imp_distinct_iff) (simp add: plug_mset)

lemma plug_set: "set (inorder (plug k t)) = set (paddrs k) \<union> set (inorder t)"
  using arg_cong [OF plug_mset, of set_mset k t] by simp

lemma held_plug:
  "held h (plug k t) \<longleftrightarrow> ctx h k (rt_root t) \<and> repr h (top k) t \<and> distinct (paddrs k @ inorder t)"
  unfolding held_def plug_distinct [symmetric] using plug_repr [of h k t] by blast

lemma plug_inorder: "inorder t = inorder t' \<Longrightarrow> inorder (plug k t) = inorder (plug k t')"
proof (induction k arbitrary: t t')
  case (Cons e k)
  then show ?case by (cases e) (auto simp: inorder_mk intro!: Cons.IH)
qed simp

text \<open>Updates elsewhere do not matter.\<close>

lemma upd_simps [simp]:
  "rbn (upd_node a f h) b = (if b = a then f (rbn h a) else rbn h b)" "rb_root (upd_node a f h) = rb_root h"
  "rbn (h\<lparr>rb_root := p\<rparr>) = rbn h"
  by (simp_all add: upd_node_def)

lemma repr_upd [simp]: "a \<notin> set (inorder t) \<Longrightarrow> repr (upd_node a f h) p t = repr h p t"
  by (induction t arbitrary: p) auto

lemma repr_root [simp]: "repr (h\<lparr>rb_root := q\<rparr>) p t = repr h p t"
  by (induction t arbitrary: p) auto

lemma ctx_upd [simp]: "a \<notin> set (paddrs k) \<Longrightarrow> ctx (upd_node a f h) k p = ctx h k p"
proof (induction k arbitrary: p)
  case (Cons e k)
  then show ?case by (cases e) auto
qed simp

lemma root_in [simp]: "rt_root t = Some a \<Longrightarrow> a \<in> set (inorder t)"
  by (cases t) auto

lemma top_in: "top k = Some a \<Longrightarrow> a \<in> set (paddrs k)"
  by (cases k rule: paddrs.cases) auto

lemmas upd_defs = set_kid_def rb_set_parent_def rb_set_parent_color_def rb_set_black_def
lemmas disj = Int_Un_distrib Int_Un_distrib2 Int_commute

text \<open>Repainting the root of a subtree and giving it a new parent.\<close>

lemma repaint_repr:
  "repr h p t \<Longrightarrow> distinct (inorder t) \<Longrightarrow>
     repr (when_some (rt_root t) (\<lambda>a. rb_set_parent_color a q c) h) q (paint c t)"
  by (cases t) (auto simp: when_some_def upd_defs)

lemma reparent_repr:
  "repr h p t \<Longrightarrow> distinct (inorder t) \<Longrightarrow> repr (when_some (rt_root t) (\<lambda>a. rb_set_parent a q) h) q t"
  by (cases t) (auto simp: when_some_def upd_defs)

lemma when_some_rbn [simp]:
  "b \<notin> set (inorder t) \<Longrightarrow> rbn (when_some (rt_root t) (\<lambda>a. upd_node a (f a)) h) b = rbn h b"
  "rb_root (when_some (rt_root t) (\<lambda>a. upd_node a (f a)) h) = rb_root h"
  by (cases t; auto simp: when_some_def)+

lemma when_some_repr [simp]:
  "set (inorder t) \<inter> set (inorder u) = {} \<Longrightarrow>
     repr (when_some (rt_root t) (\<lambda>a. upd_node a (f a)) h) p u = repr h p u"
  by (cases t) (auto simp: when_some_def)

lemma when_some_ctx [simp]:
  "set (inorder t) \<inter> set (paddrs k) = {} \<Longrightarrow>
     ctx (when_some (rt_root t) (\<lambda>a. upd_node a (f a)) h) k p = ctx h k p"
  by (cases t) (auto simp: when_some_def)

text \<open>Changing the pointer where a path ends.\<close>

lemma change_child_ctx:
  assumes "ctx h k (Some old)" "distinct (paddrs k)" "old \<notin> set (paddrs k)"
  shows "ctx (rb_change_child old new (top k) h) k new"
proof (cases k)
  case Nil
  then show ?thesis by (simp add: rb_change_child_def)
next
  case (Cons e k')
  obtain s c a u where e: "e = (s, c, a, u)" by (cases e)
  have "rt_root u \<noteq> Some old" using assms Cons e by auto
  then have "(if rb_kid (rbn h a) LeftS = Some old then LeftS else RightS) = s"
    using assms(1) Cons e by (cases s) auto
  then show ?thesis using assms Cons e by (auto simp: rb_change_child_def upd_defs)
qed

lemma change_child_frame [simp]:
  "b \<notin> set (paddrs k) \<Longrightarrow> rbn (rb_change_child old new (top k) h) b = rbn h b"
  "set (inorder t) \<inter> set (paddrs k) = {} \<Longrightarrow> repr (rb_change_child old new (top k) h) p t = repr h p t"
  by (cases k rule: paddrs.cases; auto simp: rb_change_child_def upd_defs)+

lemma rotate_parents_ok:
  assumes "ctx h k (Some old)" "rb_parent (rbn h old) = top k" "distinct (paddrs k)"
    "old \<notin> set (paddrs k)" "new \<notin> set (paddrs k)" "old \<noteq> new"
  shows "ctx (rb_rotate_set_parents old new c h) k (Some new)"
    "rbn (rb_rotate_set_parents old new c h) new = (rbn h new)\<lparr>rb_black := rb_black (rbn h old), rb_parent := top k\<rparr>"
    "rbn (rb_rotate_set_parents old new c h) old = (rbn h old)\<lparr>rb_black := c, rb_parent := Some new\<rparr>"
    "b \<noteq> old \<Longrightarrow> b \<noteq> new \<Longrightarrow> b \<notin> set (paddrs k) \<Longrightarrow> rbn (rb_rotate_set_parents old new c h) b = rbn h b"
    "old \<notin> set (inorder t) \<Longrightarrow> new \<notin> set (inorder t) \<Longrightarrow> set (inorder t) \<inter> set (paddrs k) = {} \<Longrightarrow>
       repr (rb_rotate_set_parents old new c h) p t = repr h p t"
  using assms by (auto simp: rb_rotate_set_parents_def Let_def upd_defs intro!: change_child_ctx)

section \<open>Insertion on trees\<close>

text \<open>The subtree \<open>t\<close> at the end of a path is red; \<open>fixup\<close> is the tree after the rebalancing.\<close>

fun rotate_in :: "side \<Rightarrow> bool \<Rightarrow> rtree \<Rightarrow> side \<Rightarrow> nat \<Rightarrow> rtree \<Rightarrow> nat \<Rightarrow> rtree \<Rightarrow> rtree" where
  "rotate_in s' cg t s p y g u =
     (if s = s' then mk s' cg t p (mk s' False (paint True y) g u)
      else case (s', t) of
             (LeftS, RNode t1 _ n t2) \<Rightarrow>
               mk s' cg (mk s' False y p (paint True t1)) n (mk s' False (paint True t2) g u)
           | (RightS, RNode t2 _ n t1) \<Rightarrow>
               mk s' cg (mk s' False y p (paint True t1)) n (mk s' False (paint True t2) g u)
           | _ \<Rightarrow> RLeaf)"

lemma rotate_in_simps [simp]:
  "rotate_in s cg t s p y g u = mk s cg t p (mk s False (paint True y) g u)"
  "rotate_in s cg (mk s c t1 n t2) (other s) p y g u =
     mk s cg (mk s False y p (paint True t1)) n (mk s False (paint True t2) g u)"
  by (cases s; simp)+

declare rotate_in.simps [simp del]

fun fixup :: "path \<Rightarrow> rtree \<Rightarrow> rtree" where
  "fixup [] t = paint True t"
| "fixup [(s, c, a, u)] t = mk s c t a u"
| "fixup ((s, c, p, y) # (s', c', g, u) # k) t =
     (if c then plug ((s, c, p, y) # (s', c', g, u) # k) t
      else if \<not> black u then fixup k (mk s' False (mk s True t p y) g (paint True u))
      else plug k (rotate_in s' c' t s p y g u))"

lemma insert_case3_ok:
  assumes p: "rb_kid (rbn h p) s = rt_root t" "repr h (Some p) t" "repr h (Some p) y"
    and g: "ctx h ((s, c, g, u) # k) q"
    and d: "distinct (p # inorder t @ inorder y @ g # inorder u @ paddrs k)"
  shows "held (insert_case3 s (rt_root y) p g h) (plug k (mk s c t p (mk s False (paint True y) g u)))"
proof -
  let ?h2 = "set_kid (other s) p (Some g) (set_kid s g (rt_root y) h)"
  define h3 where "h3 = when_some (rt_root y) (\<lambda>a. rb_set_parent_color a (Some g) True) ?h2"
  have e: "insert_case3 s (rt_root y) p g h = rb_rotate_set_parents g p False h3"
    by (simp add: insert_case3_def Let_def h3_def)
  have y: "repr h3 (Some g) (paint True y)"
    unfolding h3_def by (rule repaint_repr) (use p d in \<open>auto simp: upd_defs\<close>)
  have h3: "ctx h3 k (Some g)" "rb_parent (rbn h3 g) = top k" "rb_black (rbn h3 g) = c" "repr h3 (Some p) t"
    "repr h3 (Some g) u" "rb_kid (rbn h3 g) s = rt_root y" "rb_kid (rbn h3 g) (other s) = rt_root u"
    "rb_kid (rbn h3 p) s = rt_root t" "rb_kid (rbn h3 p) (other s) = Some g"
    using p g d by (simp_all add: h3_def upd_defs disj)
  have d': "distinct (paddrs k)" "g \<notin> set (paddrs k)" "p \<notin> set (paddrs k)" "g \<noteq> p" using d by auto
  note r = rotate_parents_ok [OF h3(1,2) d']
  have "repr (rb_rotate_set_parents g p False h3) (top k) (mk s c t p (mk s False (paint True y) g u))"
    using d y h3 by (simp add: r disj)
  then show ?thesis unfolding held_plug e using r(1) d by auto
qed

lemma insert_rotate_ok:
  assumes c: "ctx h ((s', False, p, y) # (s, c, g, u) # k) (Some n)" and t: "repr h (Some p) t" "rt_root t = Some n"
    and d: "distinct (paddrs ((s', False, p, y) # (s, c, g, u) # k) @ inorder t)"
  shows "held (insert_rotate s n p g h) (plug k (rotate_in s c t s' p y g u))"
proof (cases "s' = s")
  case True
  have "rt_root y \<noteq> Some n" using t(2) d by (auto dest: root_in)
  then have "insert_rotate s n p g h = insert_case3 s (rt_root y) p g h"
    using c True by (simp add: insert_rotate_def Let_def)
  moreover have "held (insert_case3 s (rt_root y) p g h) (plug k (mk s c t p (mk s False (paint True y) g u)))"
    by (rule insert_case3_ok) (use c t d True in auto)
  ultimately show ?thesis using True by simp
next
  case False
  then have s': "s' = other s" by (simp add: side_neq)
  obtain cn t1 t2 where tn: "t = mk s cn t1 n t2"
    using mk_cases [of t s] t(2) by auto
  let ?h2 = "set_kid s n (Some p) (set_kid (other s) p (rt_root t1) h)"
  define h3 where "h3 = when_some (rt_root t1) (\<lambda>a. rb_set_parent_color a (Some p) True) ?h2"
  define h4 where "h4 = rb_set_parent_color p (Some n) False h3"
  have k: "rb_kid (rbn h p) (other s) = Some n" "rb_kid (rbn h p) s = rt_root y"
    "rb_kid (rbn h n) s = rt_root t1" "rb_kid (rbn h n) (other s) = rt_root t2"
    using c t tn s' by auto
  have n4: "rb_kid (rbn h4 n) (other s) = rt_root t2" "rb_kid (rbn h4 n) s = Some p"
    "rb_kid (rbn h4 p) s = rt_root y" "rb_kid (rbn h4 p) (other s) = rt_root t1"
    "rb_black (rbn h4 p) = False" "rb_parent (rbn h4 p) = Some n"
    using d tn k by (simp_all add: h4_def h3_def upd_defs disj)
  have e: "insert_rotate s n p g h = insert_case3 s (rt_root t2) n g h4"
    using k n4 by (simp add: insert_rotate_def Let_def h4_def h3_def)
  have "repr h3 (Some p) (paint True t1)"
    unfolding h3_def by (rule repaint_repr) (use t tn d in \<open>auto simp: upd_defs\<close>)
  then have t1: "repr h4 (Some p) (paint True t1)" using d tn by (simp add: h4_def upd_defs)
  have dd: "p \<notin> set (inorder y)" "n \<notin> set (inorder y)" "set (inorder t1) \<inter> set (inorder y) = {}"
    "p \<notin> set (inorder t2)" "n \<notin> set (inorder t2)" "set (inorder t1) \<inter> set (inorder t2) = {}"
    "p \<notin> set (paddrs ((s, c, g, u) # k))" "n \<notin> set (paddrs ((s, c, g, u) # k))"
    "set (inorder t1) \<inter> set (paddrs ((s, c, g, u) # k)) = {}" using d tn by auto
  have fr: "repr h (Some p) y" "repr h (Some n) t2" "ctx h ((s, c, g, u) # k) (Some p)" using c t tn by simp_all
  have f: "repr h4 (Some p) y" "repr h4 (Some n) t2" "ctx h4 ((s, c, g, u) # k) (Some p)"
    unfolding h4_def h3_def upd_defs using dd fr by (simp_all del: ctx.simps paddrs.simps)
  have "held (insert_case3 s (rt_root t2) n g h4)
      (plug k (mk s c (mk s False y p (paint True t1)) n (mk s False (paint True t2) g u)))"
  proof (rule insert_case3_ok)
    show "rb_kid (rbn h4 n) s = rt_root (mk s False y p (paint True t1))" using n4 by simp
    show "repr h4 (Some n) (mk s False y p (paint True t1))" using n4 f t1 by simp
    show "repr h4 (Some n) t2" by (rule f(2))
    show "ctx h4 ((s, c, g, u) # k) (Some p)" by (rule f(3))
    show "distinct (n # inorder (mk s False y p (paint True t1)) @ inorder t2 @ g # inorder u @ paddrs k)"
      using d tn by (simp add: disj) 
  qed
  then show ?thesis using tn s' e by simp
qed

lemma is_red_root [simp]: "repr h p t \<Longrightarrow> is_red (rt_root t) h \<longleftrightarrow> \<not> black t"
  by (cases t) (auto simp: is_red_def)

lemma repr_parent: "repr h q t \<Longrightarrow> rt_root t = Some n \<Longrightarrow> rb_parent (rbn h n) = q"
  by (cases t) auto

lemma side_of:
  assumes "ctx h ((s, c, g, u) # k) (Some p)" "p \<notin> set (inorder u)"
  shows "(if Some p \<noteq> rb_kid (rbn h g) RightS then LeftS else RightS) = s"
  using assms root_in [of u p] by (cases s) auto

text \<open>The last node of the path, the root, is black.\<close>

fun top_black :: "path \<Rightarrow> bool" where
  "top_black [] = True"
| "top_black [(s, c, a, u)] = c"
| "top_black (e # e' # k) = top_black (e' # k)"

lemma top_black_tl: "top_black (e # k) \<Longrightarrow> top_black k"
  by (cases k) simp_all

lemma rb_insert_loop_ok:
  assumes "ctx h k (Some n)" "repr h (top k) t" "rt_root t = Some n" "\<not> black t"
    and "distinct (paddrs k @ inorder t)" "top_black k" "length k < fuel"
  shows "\<exists>h'. rb_insert_loop fuel n (top k) h = Some (Ok h') \<and> held h' (fixup k t)"
  using assms
proof (induction k t arbitrary: h n fuel rule: fixup.induct)
  case (1 t)
  then obtain f where f: "fuel = Suc f" by (cases fuel) auto
  have "held (rb_set_parent_color n None True h) (paint True t)"
    using 1 by (cases t) (auto simp: held_def upd_defs)
  then show ?case using f by simp
next
  case (2 s c a u t)
  then obtain f where f: "fuel = Suc f" by (cases fuel) auto
  have "held h (plug [(s, c, a, u)] t)" unfolding held_plug using 2 by simp
  then show ?case using f 2 by simp
next
  case (3 s c p y s' c' g u k t)
  then obtain f where f: "fuel = Suc f" by (cases fuel) auto
  show ?case
  proof (cases c)
    case True
    have "held h (plug ((s, c, p, y) # (s', c', g, u) # k) t)" unfolding held_plug using 3 by simp
    then show ?thesis using f 3 True by simp
  next
    case False
    have side: "(if Some p \<noteq> rb_kid (rbn h g) RightS then LeftS else RightS) = s'"
      by (rule side_of [of h s' c' g u k]) (use 3(2-) in auto)
    have u: "rb_kid (rbn h g) (other s') = rt_root u" "repr h (Some g) u" "rb_parent (rbn h g) = top k"
      using 3(2) by simp_all
    have p: "\<not> rb_black (rbn h p)" "rb_parent (rbn h p) = Some g" using 3(2) False by simp_all
    show ?thesis
    proof (cases "black u")
      case True
      have "held (insert_rotate s' n p g h) (plug k (rotate_in s' c' t s p y g u))"
        by (rule insert_rotate_ok) (use 3(2-) False in auto)
      then show ?thesis using f False True side u p by (simp add: Let_def)
    next
      case red: False
      define h1 where "h1 = when_some (rt_root u) (\<lambda>a. rb_set_parent_color a (Some g) True) h"
      define h3 where "h3 = rb_set_parent_color g (top k) False (rb_set_parent_color p (Some g) True h1)"
      let ?t = "mk s' False (mk s True t p y) g (paint True u)"
      have "repr h1 (Some g) (paint True u)" unfolding h1_def by (rule repaint_repr [OF u(2)]) (use 3 in simp)
      then have u3: "repr h3 (Some g) (paint True u)" using 3(6) by (simp add: h3_def upd_defs)
      have k3: "ctx h3 k (Some g)" "repr h3 (Some p) t" "repr h3 (Some p) y"
        using 3(2,3,6) by (simp_all add: h3_def h1_def upd_defs disj)
      have kids: "rb_kid (rbn h3 p) = rb_kid (rbn h p)" "rb_kid (rbn h3 g) = rb_kid (rbn h g)"
        "rb_black (rbn h3 p)" "rb_parent (rbn h3 p) = Some g" "\<not> rb_black (rbn h3 g)" "rb_parent (rbn h3 g) = top k"
        using 3(6) by (simp_all add: h3_def h1_def upd_defs)
      have "repr h3 (top k) ?t" using u3 k3 kids 3(2,4) by simp
      moreover have "distinct (paddrs k @ inorder ?t)" using 3(6) by (simp add: disj)
      moreover have "top_black k" using 3(7) by (auto dest: top_black_tl)
      moreover have "length k < f" using 3(8) f by simp
      ultimately have "\<exists>h'. rb_insert_loop f g (top k) h3 = Some (Ok h') \<and> held h' (fixup k ?t)"
        using k3(1) False red by (intro 3(1)) auto
      moreover have "rb_insert_loop fuel n (top ((s, c, p, y) # (s', c', g, u) # k)) h = rb_insert_loop f g (top k) h3"
      proof -
        have "rb_parent (rbn (rb_set_parent_color p (Some g) True h1) g) = top k"
          using 3(6) u(3) by (simp add: h1_def upd_defs)
        then show ?thesis using f side u red p by (simp add: Let_def h3_def h1_def)
      qed
      ultimately show ?thesis using False red by simp
    qed
  qed
qed

section \<open>The invariants\<close>

lemma fixup_inorder: "t \<noteq> RLeaf \<Longrightarrow> inorder (fixup k t) = inorder (plug k t)"
proof (induction k t rule: fixup.induct)
  case (3 s c p y s' c' g u k t)
  have rot: "inorder (rotate_in s' c' t s p y g u) = inorder (mk s' c' (mk s c t p y) g u)"
  proof (cases "s = s'")
    case True
    then show ?thesis by (simp add: inorder_mk ord2_assoc)
  next
    case False
    then have s: "s = other s'" by (simp add: side_neq)
    obtain cn t1 n t2 where t: "t = mk s' cn t1 n t2" using mk_cases [of t s'] 3(2) by auto
    show ?thesis unfolding s t by (simp add: inorder_mk ord2_assoc mk_other)
  qed
  have flip: "inorder (plug k (mk s' False (mk s True t p y) g (paint True u))) =
      inorder (plug k (mk s' c' (mk s c t p y) g u))"
    by (rule plug_inorder) (simp add: inorder_mk)
  show ?case using 3 plug_inorder [OF rot] flip by auto
qed simp_all

text \<open>\<open>rbt n t\<close>: red nodes have black children, and every path to a leaf has \<open>n\<close> black nodes.\<close>

fun rbt :: "nat \<Rightarrow> rtree \<Rightarrow> bool" where
  "rbt n RLeaf \<longleftrightarrow> n = 0"
| "rbt n (RNode l c a r) \<longleftrightarrow>
     (if c then n \<noteq> 0 \<and> rbt (n - 1) l \<and> rbt (n - 1) r else black l \<and> black r \<and> rbt n l \<and> rbt n r)"

lemma rbt_mk [simp]:
  "rbt n (mk s c x a y) \<longleftrightarrow>
     (if c then n \<noteq> 0 \<and> rbt (n - 1) x \<and> rbt (n - 1) y else black x \<and> black y \<and> rbt n x \<and> rbt n y)"
  by (cases s) auto

definition good :: "rtree \<Rightarrow> bool" where
  "good t \<longleftrightarrow> black t \<and> (\<exists>n. rbt n t)"

lemma rbt_paint: "rbt n t \<Longrightarrow> \<not> black t \<Longrightarrow> rbt (Suc n) (paint True t)"
  by (cases t) auto

fun kblack :: "path \<Rightarrow> bool" where
  "kblack [] = False"
| "kblack ((s, c, a, u) # k) = c"

text \<open>\<open>pok k n\<close>: the path misses a subtree with \<open>n\<close> black nodes on each path.\<close>

fun pok :: "path \<Rightarrow> nat \<Rightarrow> bool" where
  "pok [] n = True"
| "pok ((s, c, a, u) # k) n \<longleftrightarrow> rbt n u \<and> (if c then pok k (Suc n) else black u \<and> kblack k \<and> pok k n)"

lemma plug_good: "pok k n \<Longrightarrow> rbt n t \<Longrightarrow> black t \<or> kblack k \<Longrightarrow> good (plug k t)"
proof (induction k t arbitrary: n rule: plug.induct)
  case (2 s c a u k t)
  then show ?case by (cases c) (auto intro!: "2.IH")
qed (auto simp: good_def)

lemma good_plug: "good (plug k t) \<Longrightarrow> \<exists>n. pok k n \<and> rbt n t \<and> (black t \<or> kblack k)"
proof (induction k t rule: plug.induct)
  case (2 s c a u k t)
  then obtain n where n: "pok k n" "rbt n (mk s c t a u)" "c \<or> kblack k" by auto
  show ?case
  proof (cases c)
    case True
    with n obtain m where "n = Suc m" by (cases n) auto
    with n True show ?thesis by (intro exI [of _ m]) auto
  next
    case False
    with n show ?thesis by (intro exI [of _ n]) auto
  qed
qed (auto simp: good_def)

lemma pok_top_black: "pok k n \<Longrightarrow> top_black k"
proof (induction k arbitrary: n rule: top_black.induct)
  case (3 e e' k)
  obtain s c a u where e: "e = (s, c, a, u)" by (cases e)
  with 3 show ?case by (cases c) auto
qed (auto split: if_splits)

lemma fixup_good: "pok k n \<Longrightarrow> rbt n t \<Longrightarrow> \<not> black t \<Longrightarrow> good (fixup k t)"
proof (induction k t arbitrary: n rule: fixup.induct)
  case (1 t)
  then show ?case using rbt_paint [of n t] by (auto simp: good_def)
next
  case (2 s c a u t)
  then show ?case by (cases c) (auto simp: good_def intro!: exI [of _ "Suc n"])
next
  case (3 s c p y s' c' g u k t)
  show ?case
  proof (cases c)
    case True
    then show ?thesis using 3(2,3) plug_good [of "(s, c, p, y) # (s', c', g, u) # k" n t] by simp
  next
    case False
    then have c': "c'" "rbt n y" "black y" "rbt n u" "pok k (Suc n)" using 3(2) by auto
    show ?thesis
    proof (cases "black u")
      case True
      have "rbt (Suc n) (rotate_in s' True t s p y g u)"
      proof (cases "s = s'")
        case ss: True
        show ?thesis using 3(3,4) c' True by (simp add: ss)
      next
        case ss: False
        then have s: "s = other s'" by (simp add: side_neq)
        obtain cn t1 a t2 where t: "t = mk s' cn t1 a t2" using mk_cases [of t s'] 3(4) by auto
        show ?thesis using 3(3,4) c' True by (simp add: s t)
      qed
      moreover have "black (rotate_in s' True t s p y g u)"
        using 3(4) mk_cases [of t s'] by (cases "s = s'") (auto simp: side_neq)
      ultimately have "good (plug k (rotate_in s' True t s p y g u))"
        using c'(5) by (intro plug_good) auto
      then show ?thesis using False c'(1) True by simp
    next
      case red: False
      have "rbt (Suc n) (mk s' False (mk s True t p y) g (paint True u))"
        using 3(3) c' rbt_paint [OF c'(4) red] by simp
      then show ?thesis using False red c' by (auto intro!: 3(1))
    qed
  qed
qed

text \<open>Heights: a path is at most twice as long as its black nodes, and those are logarithmic.\<close>

fun rheight :: "rtree \<Rightarrow> nat" where
  "rheight RLeaf = 0"
| "rheight (RNode l c a r) = Suc (max (rheight l) (rheight r))"

lemma rheight_mk [simp]: "rheight (mk s c x a y) = Suc (max (rheight x) (rheight y))"
  by (cases s) simp_all

lemma rbt_height: "rbt n t \<Longrightarrow> rheight t \<le> 2 * n + (if black t then 0 else 1)"
proof (induction t arbitrary: n)
  case (RNode l c a r)
  show ?case
  proof (cases c)
    case True
    then have n: "rbt (n - 1) l" "rbt (n - 1) r" "n \<noteq> 0" using RNode.prems by auto
    have "rheight l \<le> 2 * (n - 1) + 1" "rheight r \<le> 2 * (n - 1) + 1"
      using RNode.IH(1) [OF n(1)] RNode.IH(2) [OF n(2)] by (auto split: if_splits)
    then show ?thesis using True n(3) by (cases n) auto
  next
    case False
    then show ?thesis using RNode.IH(1) [of n] RNode.IH(2) [of n] RNode.prems by auto
  qed
qed simp

lemma rbt_size: "rbt n t \<Longrightarrow> 2 ^ n \<le> Suc (length (inorder t))"
proof (induction t arbitrary: n)
  case (RNode l c a r)
  show ?case
  proof (cases c)
    case True
    then obtain m where m: "n = Suc m" "rbt m l" "rbt m r" using RNode.prems by (cases n) auto
    then show ?thesis using RNode.IH(1) [of m] RNode.IH(2) [of m] by simp
  next
    case False
    then show ?thesis using RNode.IH(1) [of n] RNode.prems by simp
  qed
qed simp

lemma plug_height: "length k + rheight t \<le> rheight (plug k t)"
proof (induction k t rule: plug.induct)
  case (2 s c a u k t)
  then show ?case by simp
qed simp

lemma good_height: "good t \<Longrightarrow> 2 ^ rheight t \<le> (Suc (length (inorder t)))\<^sup>2"
proof -
  assume "good t"
  then obtain n where n: "rbt n t" "black t" by (auto simp: good_def)
  have "(2::nat) ^ rheight t \<le> 2 ^ (2 * n)" using rbt_height [OF n(1)] n(2) by (intro power_increasing) auto
  also have "\<dots> = (2 ^ n)\<^sup>2" by (simp add: power_mult power2_eq_square mult_2 power_add)
  also have "\<dots> \<le> (Suc (length (inorder t)))\<^sup>2" using rbt_size [OF n(1)] by (intro power_mono) auto
  finally show ?thesis .
qed

text \<open>Inserting a node at a leaf: the new node is linked and the colours put right.\<close>

fun link_at :: "path \<Rightarrow> (nat \<times> side) option" where
  "link_at [] = None"
| "link_at ((s, c, a, u) # k) = Some (a, s)"

lemma rb_link_ok:
  assumes "held h (plug k RLeaf)" "a \<notin> set (paddrs k)"
  shows "ctx (rb_link_node a (link_at k) h) k (Some a)"
    "repr (rb_link_node a (link_at k) h) (top k) (RNode RLeaf False a RLeaf)"
  using assms unfolding held_plug
  by (cases k rule: link_at.cases; auto simp: rb_link_node_def Let_def upd_defs)+

theorem rb_insert_ok:
  assumes h: "held h (plug k RLeaf)" "good (plug k RLeaf)" and a: "a \<notin> set (paddrs k)" and n: "length k < fuel"
  shows "\<exists>h' t. rb_insert_color fuel a (rb_link_node a (link_at k) h) = Some (Ok h') \<and> held h' t \<and> good t \<and>
    inorder t = inorder (plug k (RNode RLeaf False a RLeaf))"
proof -
  let ?h = "rb_link_node a (link_at k) h"
  let ?t = "RNode RLeaf False a RLeaf"
  from good_plug [OF h(2)] have pok: "pok k 0" by auto
  note l = rb_link_ok [OF h(1) a]
  have "\<exists>h'. rb_insert_loop fuel a (top k) ?h = Some (Ok h') \<and> held h' (fixup k ?t)"
    by (rule rb_insert_loop_ok) (use l pok_top_black [OF pok] a n h(1) in \<open>auto simp: held_plug\<close>)
  moreover have "rb_parent (rbn ?h a) = top k" using l(2) by simp
  moreover have "good (fixup k ?t)" by (rule fixup_good [OF pok]) simp_all
  moreover have "inorder (fixup k ?t) = inorder (plug k ?t)" by (rule fixup_inorder) simp
  ultimately show ?thesis by (auto simp: rb_insert_color_def)
qed

end
