(* ===== verification/KrbErase.thy ===== *)
theory KrbErase
  imports Krb
begin

text \<open>
  The red-black trees of \<^verbatim>\<open>src/src/utils/krb.c\<close> continued: erasing, walking and replacing are what
  they should be on trees. \<open>efix\<close> is the rebalancing on trees; a path with a hole that misses a
  black node stands for the state in which \<open>____rb_erase_color\<close> starts a round.
\<close>

section \<open>Erasing on trees\<close>

fun rkid :: "side \<Rightarrow> rtree \<Rightarrow> rtree" where
  "rkid s RLeaf = RLeaf"
| "rkid LeftS (RNode l c a r) = l"
| "rkid RightS (RNode l c a r) = r"

fun rkey :: "rtree \<Rightarrow> nat" where
  "rkey RLeaf = 0"
| "rkey (RNode l c a r) = a"

lemma rkid_mk [simp]: "rkid s (mk s c x a y) = x" "rkid (other s) (mk s c x a y) = y" "rkey (mk s c x a y) = a"
  by (cases s; simp)+

lemma mk_kids: "t \<noteq> RLeaf \<Longrightarrow> t = mk s (black t) (rkid s t) (rkey t) (rkid (other s) t)"
  by (cases t; cases s) simp_all

text \<open>The subtree \<open>t\<close> on side \<open>s\<close> of \<open>p\<close> has a black node less than its sibling \<open>w\<close>.\<close>

definition erot :: "side \<Rightarrow> bool \<Rightarrow> rtree \<Rightarrow> nat \<Rightarrow> rtree \<Rightarrow> rtree" where
  "erot s c t p w =
     (let x = rkid s w; y = rkid (other s) w; b = rkey w
      in if \<not> black y then mk s c (mk s True t p x) b (paint True y)
         else mk s c (mk s True t p (rkid s x)) (rkey x) (mk s True (paint True (rkid (other s) x)) b y))"

definition eflip :: "side \<Rightarrow> rtree \<Rightarrow> nat \<Rightarrow> rtree \<Rightarrow> rtree" where
  "eflip s t p w = mk s True t p (paint False w)"

definition bkids :: "rtree \<Rightarrow> bool" where
  "bkids w \<longleftrightarrow> black (rkid LeftS w) \<and> black (rkid RightS w)"

lemma bkids_mk [simp]: "bkids (mk s c x a y) \<longleftrightarrow> black x \<and> black y"
  by (cases s) (auto simp: bkids_def)

fun efix :: "path \<Rightarrow> rtree \<Rightarrow> rtree" where
  "efix [] t = t"
| "efix ((s, c, p, w) # k) t =
     (if \<not> black w
      then let x = paint True (rkid s w)
           in plug k (mk s c (if bkids x then eflip s t p x else erot s False t p x) (rkey w) (rkid (other s) w))
      else if bkids w then if c then efix k (eflip s t p w) else plug k (eflip s t p w)
      else plug k (erot s c t p w))"

lemma side_of_root:
  assumes "ctx h ((s, c, p, w) # k) (rt_root t)" "w \<noteq> RLeaf" "set (inorder t) \<inter> set (inorder w) = {}"
  shows "(if rt_root t \<noteq> rb_kid (rbn h p) RightS then LeftS else RightS) = s"
proof -
  obtain b where b: "rt_root w = Some b" using assms(2) by (cases w) auto
  then have "rt_root t \<noteq> Some b" using assms(3) root_in [OF b] by (auto dest: root_in)
  then show ?thesis using assms(1) b by (cases s) auto
qed

lemma erase_case1_ok:
  assumes c: "ctx h ((s, c, p, mk s False x b y) # k) q" and t: "repr h (Some p) t" "rt_root t = q"
    and x: "x \<noteq> RLeaf" and d: "distinct (paddrs ((s, c, p, mk s False x b y) # k) @ inorder t)"
  shows "\<exists>h'. erase_case1 s p b h = Ok (rkey x, h') \<and> repr h' (Some p) t \<and>
    ctx h' ((s, False, p, paint True x) # (s, c, b, y) # k) q"
proof -
  obtain cx x1 xa x2 where xx: "x = mk s cx x1 xa x2" using mk_cases [of x s] x by auto
  let ?h2 = "set_kid s b (Some p) (set_kid (other s) p (rt_root x) h)"
  define h3 where "h3 = rb_set_parent_color xa (Some p) True ?h2"
  have kb: "rb_kid (rbn h b) s = Some xa" using c xx by simp
  have e: "erase_case1 s p b h = Ok (rkey x, rb_rotate_set_parents p b False h3)"
    using kb xx by (simp add: erase_case1_def Let_def h3_def)
  have x3: "repr h3 (Some p) (paint True x)" using c d xx by (simp add: h3_def upd_defs)
  have h3: "ctx h3 k (Some p)" "rb_parent (rbn h3 p) = top k" "rb_black (rbn h3 p) = c" "repr h3 (Some p) t"
    "repr h3 (Some b) y" "rb_kid (rbn h3 b) s = Some p" "rb_kid (rbn h3 b) (other s) = rt_root y"
    "rb_kid (rbn h3 p) s = q" "rb_kid (rbn h3 p) (other s) = rt_root x"
    using c t d xx by (simp_all add: h3_def upd_defs disj)
  have d': "distinct (paddrs k)" "p \<notin> set (paddrs k)" "b \<notin> set (paddrs k)" "p \<noteq> b" using d by auto
  note r = rotate_parents_ok [OF h3(1,2) d']
  have "repr (rb_rotate_set_parents p b False h3) (Some p) (paint True x)"
    "repr (rb_rotate_set_parents p b False h3) (Some p) t" "repr (rb_rotate_set_parents p b False h3) (Some b) y"
    using d x3 h3 by (simp_all add: r disj)
  moreover have "ctx (rb_rotate_set_parents p b False h3) ((s, False, p, paint True x) # (s, c, b, y) # k) q"
    using d h3 calculation by (simp add: r disj)
  ultimately show ?thesis using e by blast
qed

definition erase_case4_heap :: "side \<Rightarrow> nat \<Rightarrow> nat \<Rightarrow> nat \<Rightarrow> nat option \<Rightarrow> rb_heap \<Rightarrow> rb_heap" where
  "erase_case4_heap s p b z x h =
     rb_rotate_set_parents p b True (when_some x (\<lambda>a. rb_set_parent a (Some p))
       (rb_set_parent_color z (Some b) True (set_kid s b (Some p) (set_kid (other s) p x h))))"

lemma erase_case4_ok:
  assumes p: "ctx h k (Some p)" "rb_parent (rbn h p) = top k" "rb_black (rbn h p) = c" "rb_kid (rbn h p) s = rt_root t"
    and t: "repr h (Some p) t"
    and b: "rb_kid (rbn h b) (other s) = Some z" "repr h b1 x"
    and y: "repr h b2 y" "rt_root y = Some z"
    and d: "distinct (p # b # inorder x @ inorder y @ inorder t @ paddrs k)"
  shows "held (erase_case4_heap s p b z (rt_root x) h) (plug k (mk s c (mk s True t p x) b (paint True y)))"
proof -
  obtain cy y1 y2 where yy: "y = mk s cy y1 z y2" using mk_cases [of y s] y(2) by auto
  define h3 where "h3 = rb_set_parent_color z (Some b) True (set_kid s b (Some p) (set_kid (other s) p (rt_root x) h))"
  define h4 where "h4 = when_some (rt_root x) (\<lambda>a. rb_set_parent a (Some p)) h3"
  have y3: "repr h3 (Some b) (paint True y)" using y d yy by (simp add: h3_def upd_defs)
  have x3: "repr h3 b1 x" using b(2) d yy by (simp add: h3_def upd_defs)
  have h3: "ctx h3 k (Some p)" "rb_parent (rbn h3 p) = top k" "rb_black (rbn h3 p) = c" "rb_kid (rbn h3 p) s = rt_root t"
    "rb_kid (rbn h3 p) (other s) = rt_root x" "rb_kid (rbn h3 b) s = Some p" "rb_kid (rbn h3 b) (other s) = rt_root y"
    "repr h3 (Some p) t"
    using p t b(1) y(2) d yy by (simp_all add: h3_def upd_defs disj)
  have x4: "repr h4 (Some p) x" unfolding h4_def by (rule reparent_repr [OF x3]) (use d in simp)
  have h4: "ctx h4 k (Some p)" "rb_parent (rbn h4 p) = top k" "rb_black (rbn h4 p) = c" "rb_kid (rbn h4 p) s = rt_root t"
    "rb_kid (rbn h4 p) (other s) = rt_root x" "rb_kid (rbn h4 b) s = Some p" "rb_kid (rbn h4 b) (other s) = rt_root y"
    "repr h4 (Some p) t" "repr h4 (Some b) (paint True y)"
    using h3 y3 d by (simp_all add: h4_def upd_defs disj)
  have d': "distinct (paddrs k)" "p \<notin> set (paddrs k)" "b \<notin> set (paddrs k)" "p \<noteq> b" using d by auto
  note r = rotate_parents_ok [OF h4(1,2) d']
  have e: "erase_case4_heap s p b z (rt_root x) h = rb_rotate_set_parents p b True h4"
    by (simp add: erase_case4_heap_def h4_def h3_def)
  have "repr (rb_rotate_set_parents p b True h4) (top k) (mk s c (mk s True t p x) b (paint True y))"
    using d x4 h4 by (simp add: r disj)
  then show ?thesis unfolding held_plug e using r(1) d by auto
qed

lemma erase_rotate_ok:
  assumes c: "ctx h ((s, c, p, mk s True x b y) # k) (rt_root t)" and t: "repr h (Some p) t"
    and xy: "\<not> (black x \<and> black y)" and d: "distinct (paddrs ((s, c, p, mk s True x b y) # k) @ inorder t)"
  shows "\<exists>h'. erase_rotate s p b h = Ok h' \<and> held h' (plug k (erot s c t p (mk s True x b y)))"
proof (cases "black y")
  case False
  obtain z where z: "rt_root y = Some z" using False by (cases y) auto
  have kb: "rb_kid (rbn h b) (other s) = rt_root y" "rb_kid (rbn h b) s = rt_root x" "repr h (Some b) y" using c by simp_all
  then have red: "is_red (rb_kid (rbn h b) (other s)) h" using False by simp
  have bp: "b \<noteq> p" using d by auto
  have "erase_rotate s p b h = Ok (erase_case4_heap s p b z (rt_root x) h)"
    using red kb z bp by (simp add: erase_rotate_def erase_case4_heap_def Let_def upd_defs)
  moreover have "held (erase_case4_heap s p b z (rt_root x) h) (plug k (mk s c (mk s True t p x) b (paint True y)))"
    by (rule erase_case4_ok) (use c t d z in \<open>auto simp: disj\<close>)
  ultimately show ?thesis using False by (simp add: erot_def Let_def)
next
  case True
  then have xr: "\<not> black x" using xy by simp
  then obtain x1 xa x2 where xx: "x = mk s False x1 xa x2" using mk_kids [of x s] by (cases x) auto
  have kb: "rb_kid (rbn h b) (other s) = rt_root y" "rb_kid (rbn h b) s = Some xa" "repr h (Some b) y" using c xx by simp_all
  then have nred: "\<not> is_red (rb_kid (rbn h b) (other s)) h" using True by simp
  have kx: "rb_kid (rbn h xa) (other s) = rt_root x2" "rb_kid (rbn h xa) s = rt_root x1" using c xx by simp_all
  let ?h2 = "set_kid (other s) p (Some xa) (set_kid (other s) xa (Some b) (set_kid s b (rt_root x2) h))"
  define h3 where "h3 = when_some (rt_root x2) (\<lambda>a. rb_set_parent_color a (Some b) True) ?h2"
  have k3: "rb_kid (rbn h3 xa) s = rt_root x1" "rb_kid (rbn h3 xa) (other s) = Some b"
    using kx d xx by (simp_all add: h3_def upd_defs disj)
  have e: "erase_rotate s p b h = Ok (erase_case4_heap s p xa b (rt_root x1) h3)"
    using nred kb kx k3 d xx by (simp add: erase_rotate_def erase_case4_heap_def Let_def h3_def)
  have "repr h3 (Some b) (paint True x2)"
    unfolding h3_def by (rule repaint_repr) (use c d xx in \<open>auto simp: upd_defs\<close>)
  moreover have "ctx h3 k (Some p)" "rb_parent (rbn h3 p) = top k" "rb_black (rbn h3 p) = c"
    "rb_kid (rbn h3 p) s = rt_root t" "repr h3 (Some p) t" "repr h3 (Some xa) x1" "repr h3 (Some b) y"
    "rb_kid (rbn h3 b) s = rt_root x2" "rb_kid (rbn h3 b) (other s) = rt_root y" "rb_black (rbn h3 b)"
    "rb_parent (rbn h3 b) = Some p"
    using c t d xx by (simp_all add: h3_def upd_defs disj)
  ultimately have "held (erase_case4_heap s p xa b (rt_root x1) h3)
      (plug k (mk s c (mk s True t p x1) xa (paint True (mk s True (paint True x2) b y))))"
    using k3 d xx by (intro erase_case4_ok) (simp_all add: disj)
  then show ?thesis using e True xx by (simp add: erot_def Let_def)
qed

lemma erase_flip_ok:
  assumes c: "ctx h ((s, c, p, w) # k) (rt_root t)" and t: "repr h (Some p) t" and w: "rt_root w = Some b"
    and d: "distinct (paddrs ((s, c, p, w) # k) @ inorder t)"
  shows "ctx (rb_set_parent_color b (Some p) False h) k (Some p)"
    "repr (rb_set_parent_color b (Some p) False h) (top k) (mk s c t p (paint False w))"
    "rb_black (rbn (rb_set_parent_color b (Some p) False h) p) = c"
    "held (rb_set_black p (rb_set_parent_color b (Some p) False h)) (plug k (eflip s t p w))"
proof -
  let ?h = "rb_set_parent_color b (Some p) False h"
  obtain cw x y where ww: "w = mk s cw x b y" using mk_cases [of w s] w by auto
  show a: "ctx ?h k (Some p)" using c d ww by (simp add: upd_defs)
  have x: "repr ?h (Some b) x" "repr ?h (Some b) y" "repr ?h (Some p) t"
    using c t d ww by (simp_all add: upd_defs)
  then show r: "repr ?h (top k) (mk s c t p (paint False w))" using c d ww by (simp add: upd_defs)
  show "rb_black (rbn ?h p) = c" using r by simp
  have "repr (rb_set_black p ?h) (top k) (eflip s t p w)"
    using r d ww by (simp add: eflip_def upd_defs)
  moreover have "ctx (rb_set_black p ?h) k (Some p)" using a d by (simp add: upd_defs)
  ultimately show "held (rb_set_black p ?h) (plug k (eflip s t p w))"
    unfolding held_plug using d ww by (simp add: eflip_def disj)
qed

lemma red_kids:
  assumes "repr h q (mk s c x b y)"
  shows "\<not> is_red (rb_kid (rbn h b) (other s)) h \<and> \<not> is_red (rb_kid (rbn h b) s) h \<longleftrightarrow> bkids (mk s c x b y)"
  using assms by auto

text \<open>One round of the loop on a black sibling.\<close>

lemma erase_round_ok:
  assumes c: "ctx h ((s, c, p, w) # k) (rt_root t)" and t: "repr h (Some p) t"
    and w: "w = mk s True x b y" and d: "distinct (paddrs ((s, c, p, w) # k) @ inorder t)"
  shows "bkids w \<Longrightarrow> \<not> is_red (rb_kid (rbn h b) (other s)) h \<and> \<not> is_red (rb_kid (rbn h b) s) h"
    "\<not> bkids w \<Longrightarrow> \<not> (\<not> is_red (rb_kid (rbn h b) (other s)) h \<and> \<not> is_red (rb_kid (rbn h b) s) h) \<and>
       (\<exists>h'. erase_rotate s p b h = Ok h' \<and> held h' (plug k (erot s c t p w)))"
proof -
  have r: "repr h (Some p) w" using c by simp
  show "bkids w \<Longrightarrow> \<not> is_red (rb_kid (rbn h b) (other s)) h \<and> \<not> is_red (rb_kid (rbn h b) s) h"
    using red_kids [of h "Some p" s True x b y] r w by simp
  show "\<not> bkids w \<Longrightarrow> \<not> (\<not> is_red (rb_kid (rbn h b) (other s)) h \<and> \<not> is_red (rb_kid (rbn h b) s) h) \<and>
       (\<exists>h'. erase_rotate s p b h = Ok h' \<and> held h' (plug k (erot s c t p w)))"
    using red_kids [of h "Some p" s True x b y] r w erase_rotate_ok [of h s c p x b y k t] c t d by simp
qed

lemma rb_erase_loop_ok:
  assumes "ctx h k (rt_root t)" "repr h (top k) t" "distinct (paddrs k @ inorder t)"
    and "pok k (Suc n)" "rbt n t" "black t" "top k = Some p" "length k \<le> fuel"
  shows "\<exists>h'. rb_erase_loop fuel (rt_root t) p h = Some (Ok h') \<and> held h' (efix k t)"
  using assms
proof (induction k arbitrary: h t n p fuel)
  case (Cons e k)
  obtain s c p' w where e: "e = (s, c, p', w)" by (cases e)
  have p': "p' = p" using Cons.prems(7) e by simp
  obtain f where f: "fuel = Suc f" using Cons.prems(8) by (cases fuel) auto
  note c = Cons.prems(1) [unfolded e p'] and d = Cons.prems(3) [unfolded e p']
  have t: "repr h (Some p) t" using Cons.prems(2,7) by simp
  have "w \<noteq> RLeaf" using Cons.prems(4) e by (auto split: if_splits)
  then obtain cw x b y where w: "w = mk s cw x b y" using mk_cases [of w s] by auto
  have side: "(if rt_root t \<noteq> rb_kid (rbn h p) RightS then LeftS else RightS) = s"
    by (rule side_of_root [OF c \<open>w \<noteq> RLeaf\<close>]) (use d in auto)
  have sib: "rb_kid (rbn h p) (other s) = Some b" "rb_black (rbn h b) = cw" using c w by simp_all
  show ?case
  proof (cases cw)
    case False
    have xy: "x \<noteq> RLeaf" "black x" "black y" "c" using Cons.prems(4) e w False by (auto split: if_splits)
    obtain x1 xa x2 where xx: "x = mk s True x1 xa x2" using mk_kids [OF xy(1), of s] xy(2) by auto
    have cF: "ctx h ((s, c, p, mk s False x b y) # k) (rt_root t)" using c w False by simp
    have dF: "distinct (paddrs ((s, c, p, mk s False x b y) # k) @ inorder t)" using d w False by simp
    from erase_case1_ok [OF cF t refl xy(1) dF] xy(2) xx obtain h1 where
      h1: "erase_case1 s p b h = Ok (xa, h1)" "repr h1 (Some p) t"
        "ctx h1 ((s, False, p, x) # (s, c, b, y) # k) (rt_root t)" by auto
    have d1: "distinct (paddrs ((s, False, p, x) # (s, c, b, y) # k) @ inorder t)" using dF by (simp add: disj)
    note rd = erase_round_ok [OF h1(3,2) xx d1]
    have xr: "rt_root x = Some xa" using xx by simp
    note fl = erase_flip_ok [OF h1(3,2) xr d1]
    show ?thesis
    proof (cases "bkids x")
      case True
      have "rb_erase_loop fuel (rt_root t) p h = Some (Ok (rb_set_black p (rb_set_parent_color xa (Some p) False h1)))"
        using f side sib False h1(1) rd(1) [OF True] fl(3) by (simp add: Let_def)
      then show ?thesis using fl(4) e p' w False True xy by simp
    next
      case nb: False
      from rd(2) [OF nb] obtain h' where "erase_rotate s p xa h1 = Ok h'"
        "held h' (plug ((s, c, b, y) # k) (erot s False t p x))" by blast
      then show ?thesis using f side sib False h1(1) rd(2) [OF nb] e p' w nb xy by (auto simp: Let_def)
    qed
  next
    case True
    have wT: "w = mk s True x b y" using w True by simp
    note rd = erase_round_ok [OF c t wT d]
    have wr: "rt_root w = Some b" using w by simp
    note fl = erase_flip_ok [OF c t wr d]
    let ?h = "rb_set_parent_color b (Some p) False h"
    consider "bkids w" "\<not> c" | "bkids w" "c" | "\<not> bkids w" by blast
    then show ?thesis
    proof cases
      case 1
      have "rb_erase_loop fuel (rt_root t) p h = Some (Ok (rb_set_black p ?h))"
        using f side sib True rd(1) [OF 1(1)] fl(3) 1 by (simp add: Let_def)
      then show ?thesis using fl(4) e p' w True 1 by simp
    next
      case 2
      have fc: "mk s c t p (paint False w) = eflip s t p w" using 2 by (simp add: eflip_def)
      have n: "rbt (Suc n) (eflip s t p w)" "black (eflip s t p w)" "pok k (Suc (Suc n))"
        using Cons.prems(4,5) e wT 2 by (auto simp: eflip_def)
      have dk: "distinct (paddrs k @ inorder (eflip s t p w))" using d wT by (simp add: eflip_def disj)
      show ?thesis
      proof (cases "top k")
        case None
        then have k: "k = []" by (cases k rule: top.cases) auto
        have "rb_parent (rbn ?h p) = None" using fl(2) None by simp
        then have "rb_erase_loop fuel (rt_root t) p h = Some (Ok ?h)"
          using f side sib True rd(1) [OF 2(1)] fl(3) 2 by (simp add: Let_def)
        moreover have "held ?h (eflip s t p w)"
          using held_plug [of ?h "[]" "eflip s t p w"] fl(1,2) dk k fc by (simp add: eflip_def)
        ultimately show ?thesis using e w True 2 k p' by simp
      next
        case (Some q)
        have "\<exists>h'. rb_erase_loop f (rt_root (eflip s t p w)) q ?h = Some (Ok h') \<and> held h' (efix k (eflip s t p w))"
          by (rule Cons.IH [OF _ _ dk n(3,1,2) Some]) (use fl(1,2) fc Cons.prems(8) f in \<open>auto simp: eflip_def\<close>)
        moreover have "rb_parent (rbn ?h p) = Some q" using fl(2) Some by simp
        moreover have "rt_root (eflip s t p w) = Some p" by (simp add: eflip_def)
        ultimately show ?thesis using f side sib True rd(1) [OF 2(1)] fl(3) 2 e w p' by (simp add: Let_def)
      qed
    next
      case 3
      from rd(2) [OF 3] obtain h' where "erase_rotate s p b h = Ok h'" "held h' (plug k (erot s c t p w))" by blast
      then show ?thesis using f side sib True rd(2) [OF 3] e p' w 3 by (auto simp: Let_def)
    qed
  qed
qed simp

text \<open>A path inside a subtree whose root is \<open>r\<close> with the parent \<open>q\<close>.\<close>

fun ptop :: "path \<Rightarrow> nat option \<Rightarrow> nat option" where
  "ptop [] q = q"
| "ptop ((s, c, a, u) # k) q = Some a"

fun pctx :: "rb_heap \<Rightarrow> path \<Rightarrow> nat option \<Rightarrow> nat option \<Rightarrow> nat option \<Rightarrow> bool" where
  "pctx h [] q p r \<longleftrightarrow> p = r"
| "pctx h ((s, c, a, u) # k) q p r \<longleftrightarrow> rb_black (rbn h a) = c \<and> rb_parent (rbn h a) = ptop k q \<and>
     rb_kid (rbn h a) s = p \<and> rb_kid (rbn h a) (other s) = rt_root u \<and> repr h (Some a) u \<and> pctx h k q (Some a) r"

lemma repr_plug: "repr h q (plug k t) \<longleftrightarrow> pctx h k q (rt_root t) (rt_root (plug k t)) \<and> repr h (ptop k q) t"
  by (induction k t rule: plug.induct) auto

lemma pctx_upd [simp]: "a \<notin> set (paddrs k) \<Longrightarrow> pctx (upd_node a f h) k q p r = pctx h k q p r"
proof (induction k arbitrary: p)
  case (Cons e k)
  then show ?case by (cases e) auto
qed simp

lemma pctx_root [simp]: "pctx (h\<lparr>rb_root := x\<rparr>) k q p r = pctx h k q p r"
proof (induction k arbitrary: p)
  case (Cons e k)
  then show ?case by (cases e) auto
qed simp

lemma pctx_in: "pctx h k q p (Some c0) \<Longrightarrow> k \<noteq> [] \<Longrightarrow> c0 \<in> set (paddrs k)"
proof (induction k arbitrary: p)
  case (Cons e k)
  then show ?case by (cases e; cases k) auto
qed simp

lemma pctx_frame [simp]:
  "set (inorder t) \<inter> set (paddrs k) = {} \<Longrightarrow>
     pctx (when_some (rt_root t) (\<lambda>a. upd_node a (f a)) h) k q p r = pctx h k q p r"
  "set (paddrs k2) \<inter> set (paddrs k) = {} \<Longrightarrow>
     pctx (rb_change_child old new (top k2) h) k q p r = pctx h k q p r"
  by (cases t; auto simp: when_some_def) (cases k2 rule: paddrs.cases; auto simp: rb_change_child_def upd_defs)

lemma pctx_bottom:
  "pctx h ((s, c, a, u) # k) q p r \<Longrightarrow> distinct (paddrs ((s, c, a, u) # k)) \<Longrightarrow>
     pctx (set_kid s a p' h) ((s, c, a, u) # k) q p' r"
  by (auto simp: upd_defs)

lemma pctx_parent:
  "pctx h k q p (Some c0) \<Longrightarrow> k \<noteq> [] \<Longrightarrow> distinct (paddrs k) \<Longrightarrow> pctx (rb_set_parent c0 q' h) k q' p (Some c0)"
proof (induction k arbitrary: p)
  case (Cons e k)
  obtain s c a u where e: "e = (s, c, a, u)" by (cases e)
  show ?case
  proof (cases k)
    case Nil
    then show ?thesis using Cons.prems e by (auto simp: upd_defs)
  next
    case (Cons e' k')
    have pk: "pctx h k q (Some a) (Some c0)" using Cons.prems(1) e by simp
    then have "pctx (rb_set_parent c0 q' h) k q' (Some a) (Some c0)"
      by (rule Cons.IH) (use Cons Cons.prems e in auto)
    moreover have c0: "c0 \<in> set (paddrs k)" using pctx_in [OF pk] Cons by simp
    moreover have "c0 \<notin> set (inorder u)" using c0 Cons.prems(3) e by auto
    moreover have "ptop k q' = ptop k q" using Cons by (cases e') simp
    ultimately show ?thesis using Cons.prems e by (auto simp: upd_defs)
  qed
qed simp

text \<open>The walk to the leftmost node.\<close>

fun lpath :: "rtree \<Rightarrow> path \<Rightarrow> path \<times> rtree" where
  "lpath RLeaf k = (k, RLeaf)"
| "lpath (RNode l c a r) k = (if l = RLeaf then (k, RNode l c a r) else lpath l ((LeftS, c, a, r) # k))"

lemma lpath_ok:
  assumes "lpath t k = (k', t')" "t \<noteq> RLeaf"
  shows "plug k' t' = plug k t \<and> (\<exists>k2. k' = k2 @ k \<and> (\<forall>e\<in>set k2. fst e = LeftS)) \<and> (\<exists>c s r. t' = RNode RLeaf c s r) \<and>
    (k' \<noteq> k \<longrightarrow> (\<exists>c a u k3. k' = (LeftS, c, a, u) # k3))"
  using assms
proof (induction t k rule: lpath.induct)
  case (2 l c a r k)
  show ?case
  proof (cases "l = RLeaf")
    case False
    with 2 have ih: "plug k' t' = plug ((LeftS, c, a, r) # k) l" "\<exists>k2. k' = k2 @ (LeftS, c, a, r) # k \<and> (\<forall>e\<in>set k2. fst e = LeftS)"
      "\<exists>c s r. t' = RNode RLeaf c s r" "k' \<noteq> (LeftS, c, a, r) # k \<longrightarrow> (\<exists>c a u k3. k' = (LeftS, c, a, u) # k3)"
      by auto
    from ih(2) obtain k2 where "k' = (k2 @ [(LeftS, c, a, r)]) @ k" "\<forall>e\<in>set (k2 @ [(LeftS, c, a, r)]). fst e = LeftS"
      by auto
    then have "\<exists>k2. k' = k2 @ k \<and> (\<forall>e\<in>set k2. fst e = LeftS)" by blast
    with ih show ?thesis by auto
  qed (use 2 in auto)
qed simp

lemma leftmost_ok:
  assumes "repr h q t" "rt_root t = Some b" "lpath t k = (k', t')" "ptop k z = Some par" "rheight t \<le> f"
  shows "\<exists>par' s. leftmost f par b h = Some (par', s) \<and> rt_root t' = Some s \<and> ptop k' z = Some par'"
  using assms
proof (induction f arbitrary: t b k q par)
  case (Suc f)
  then obtain l c r where t: "t = RNode l c b r" by (cases t) auto
  show ?case
  proof (cases l)
    case RLeaf
    with Suc.prems t show ?thesis by auto
  next
    case (RNode ll cl al rl)
    have "\<exists>par' s. leftmost f b al h = Some (par', s) \<and> rt_root t' = Some s \<and> ptop k' z = Some par'"
      by (rule Suc.IH [of "Some b" l al "(LeftS, c, b, r) # k"]) (use Suc.prems t RNode in auto)
    with Suc.prems t RNode show ?thesis by simp
  qed
qed (auto elim: rt_root.elims)

lemma erase_one_child_ok:
  assumes h: "held h (plug k (mk s c z a RLeaf))" and z: "rt_root z = Some b"
  shows "held (rb_set_parent_color b (top k) c (rb_change_child a (Some b) (top k) h)) (plug k (paint c z))"
    "held (rb_change_child a (Some b) (top k) (rb_set_parent_color b (top k) c h)) (plug k (paint c z))"
proof -
  obtain cz x y where zz: "z = mk s cz x b y" using mk_cases [of z s] z by auto
  have c: "ctx h k (Some a)" "repr h (Some a) z" and d: "distinct (paddrs k @ a # inorder z)"
    using h unfolding held_plug by (auto simp: disj)
  have d': "distinct (paddrs k)" "a \<notin> set (paddrs k)" using d by auto
  have "ctx (rb_change_child a (Some b) (top k) h) k (Some b)" by (rule change_child_ctx [OF c(1) d'])
  then show "held (rb_set_parent_color b (top k) c (rb_change_child a (Some b) (top k) h)) (plug k (paint c z))"
    unfolding held_plug using c d zz by (simp add: upd_defs disj)
  let ?h = "rb_set_parent_color b (top k) c h"
  have "ctx ?h k (Some a)" using c d zz by (simp add: upd_defs)
  then have "ctx (rb_change_child a (Some b) (top k) ?h) k (Some b)" by (rule change_child_ctx [OF _ d'])
  moreover have "repr (rb_change_child a (Some b) (top k) ?h) (top k) (paint c z)"
    using c d zz by (simp add: upd_defs disj)
  ultimately show "held (rb_change_child a (Some b) (top k) ?h) (plug k (paint c z))"
    unfolding held_plug using d zz by (simp add: disj)
qed

lemma ctx_append: "ctx h (k2 @ k1) p \<longleftrightarrow> (\<exists>r. pctx h k2 (top k1) p r \<and> ctx h k1 r)"
proof (induction k2 arbitrary: p)
  case (Cons e k2)
  obtain s c a u where e: "e = (s, c, a, u)" by (cases e)
  have "top (k2 @ k1) = ptop k2 (top k1)" by (cases k2 rule: top.cases) auto
  with Cons e show ?case by auto
qed simp

lemma plug_append: "plug (k2 @ k1) t = plug k1 (plug k2 t)"
  by (induction k2 t rule: plug.induct) auto

lemma paddrs_append [simp]: "paddrs (k2 @ k1) = paddrs k2 @ paddrs k1"
  by (induction k2 rule: paddrs.induct) auto

lemma top_append: "top (k2 @ (s, c, a, u) # k) = ptop k2 (Some a)"
  by (cases k2 rule: top.cases) auto

lemma plug_root: "k \<noteq> [] \<Longrightarrow> rt_root (plug k t) = rt_root (plug k t')"
proof (induction k arbitrary: t t')
  case (Cons e k)
  obtain s c a u where e: "e = (s, c, a, u)" by (cases e)
  show ?case
  proof (cases k)
    case (Cons e' k')
    then show ?thesis using e Cons.IH by simp
  qed (simp add: e)
qed simp

lemma plug_some: "k \<noteq> [] \<Longrightarrow> \<exists>c. rt_root (plug k t) = Some c"
proof (induction k arbitrary: t)
  case (Cons e k)
  obtain s c a u where e: "e = (s, c, a, u)" by (cases e)
  show ?case
  proof (cases k)
    case (Cons e' k')
    then show ?thesis using e Cons.IH by simp
  qed (simp add: e)
qed simp

text \<open>The successor \<open>x\<close> is taken out of the right subtree.\<close>

definition detach :: "path \<Rightarrow> nat \<Rightarrow> nat option \<Rightarrow> nat \<Rightarrow> nat option \<Rightarrow> rb_heap \<Rightarrow> rb_heap" where
  "detach k2 par r2 x c0 h =
     (if k2 = [] then h
      else when_some c0 (\<lambda>c. rb_set_parent c (Some x)) (set_kid RightS x c0 (set_kid LeftS par r2 h)))"

lemma detach_ok:
  assumes h: "held h (plug k (RNode l c a (plug k2 (RNode RLeaf cs x r2))))"
    and k2: "k2 = [] \<or> (\<exists>c u k3. k2 = (LeftS, c, par, u) # k3)"
  shows "let h1 = detach k2 par (rt_root r2) x (rt_root (plug k2 (RNode RLeaf cs x r2))) h in
    ctx h1 k (Some a) \<and> rbn h1 a = rbn h a \<and> repr h1 (Some a) l \<and> repr h1 (Some x) r2 \<and> rb_black (rbn h1 x) = cs \<and>
    rb_kid (rbn h1 x) RightS = rt_root (plug k2 r2) \<and> pctx h1 k2 (Some x) (rt_root r2) (rt_root (plug k2 r2))"
proof -
  let ?n = "RNode RLeaf cs x r2"
  have c: "ctx h k (Some a)" "repr h (Some a) l" "repr h (Some a) (plug k2 ?n)"
    and d: "distinct (paddrs k @ inorder l @ a # paddrs k2 @ x # inorder r2)"
    using h unfolding held_plug by (auto simp: plug_distinct plug_set disj)
  from c(3) have p: "pctx h k2 (Some a) (Some x) (rt_root (plug k2 ?n))" "rb_black (rbn h x) = cs"
    "rb_kid (rbn h x) LeftS = None" "rb_kid (rbn h x) RightS = rt_root r2" "repr h (Some x) r2"
    by (auto simp: repr_plug)
  show ?thesis
  proof (cases "k2 = []")
    case True
    then show ?thesis using c p by (simp add: detach_def Let_def)
  next
    case False
    then obtain cp u k3 where k2: "k2 = (LeftS, cp, par, u) # k3" using k2 by auto
    obtain c0 where c0: "rt_root (plug k2 ?n) = Some c0" "rt_root (plug k2 r2) = Some c0"
      using plug_some [OF False] plug_root [OF False] by metis
    let ?h1 = "set_kid LeftS par (rt_root r2) h"
    let ?h2 = "set_kid RightS x (Some c0) ?h1"
    define h3 where "h3 = rb_set_parent c0 (Some x) ?h2"
    have dk: "distinct (paddrs k2)" "x \<notin> set (paddrs k2)" using d by auto
    have "pctx ?h1 k2 (Some a) (rt_root r2) (Some c0)"
      using pctx_bottom [of h LeftS cp par u k3 "Some a" "Some x" "Some c0"] p(1) c0(1) dk(1) unfolding k2 by metis
    then have "pctx ?h2 k2 (Some a) (rt_root r2) (Some c0)" using dk(2) by (simp add: upd_defs)
    from pctx_parent [OF this False dk(1)] have p3: "pctx h3 k2 (Some x) (rt_root r2) (Some c0)" by (simp add: h3_def)
    have "c0 \<in> set (paddrs k2)" using pctx_in [OF p3 False] .
    then have n: "c0 \<noteq> a" "c0 \<noteq> x" "c0 \<notin> set (paddrs k)" "c0 \<notin> set (inorder l)" "c0 \<notin> set (inorder r2)"
      using d by auto
    have np: "par \<noteq> a" "par \<noteq> x" "par \<notin> set (paddrs k)" "par \<notin> set (inorder l)" "par \<notin> set (inorder r2)"
      and nx: "x \<noteq> a" "x \<notin> set (paddrs k)" "x \<notin> set (inorder l)" "x \<notin> set (inorder r2)"
      using d k2 by auto
    have e: "detach k2 par (rt_root r2) x (rt_root (plug k2 ?n)) h = h3"
      using False c0 by (simp add: detach_def when_some_def h3_def)
    show ?thesis unfolding e Let_def
      using c(1,2) p p3 n np nx c0 by (simp add: h3_def upd_defs)
  qed
qed

text \<open>The successor takes the place of \<open>a\<close>.\<close>

lemma replace_ok:
  assumes h1: "ctx h1 k (Some a)" "rbn h1 a = n" "repr h1 (Some a) l" "rb_kid (rbn h1 x) RightS = q"
    and d: "distinct (paddrs k @ inorder l @ [a, x])"
    and h4_def: "h4 = rb_change_child a (Some x) (top k)
      (when_some (rt_root l) (\<lambda>t. rb_set_parent t (Some x)) (set_kid LeftS x (rt_root l) h1))"
    and h5_def: "h5 = rb_set_parent_color x (top k) c h4"
  shows "ctx h5 k (Some x)" "repr h5 (Some x) l" "rb_kid (rbn h5 x) LeftS = rt_root l" "rb_kid (rbn h5 x) RightS = q"
    "rb_black (rbn h5 x) = c" "rb_parent (rbn h5 x) = top k" "rb_black (rbn h4 x) = rb_black (rbn h1 x)"
    "set (inorder t) \<inter> set (x # inorder l @ paddrs k) = {} \<Longrightarrow> repr h5 z t = repr h1 z t"
    "set (paddrs k2) \<inter> set (x # inorder l @ paddrs k) = {} \<Longrightarrow> pctx h5 k2 z p r = pctx h1 k2 z p r"
proof -
  define h2 where "h2 = set_kid LeftS x (rt_root l) h1"
  define h3 where "h3 = when_some (rt_root l) (\<lambda>t. rb_set_parent t (Some x)) h2"
  have h4: "h4 = rb_change_child a (Some x) (top k) h3" by (simp add: h4_def h3_def h2_def)
  have dk: "distinct (paddrs k)" "a \<notin> set (paddrs k)" "x \<notin> set (paddrs k)" "x \<notin> set (inorder l)" "a \<noteq> x"
    "set (inorder l) \<inter> set (paddrs k) = {}" using d by auto
  have "repr h2 (Some a) l" using h1(3) dk by (simp add: h2_def upd_defs)
  from reparent_repr [OF this, of "Some x"] d have l3: "repr h3 (Some x) l" by (simp add: h3_def)
  have "ctx h3 k (Some a)" using h1(1) dk by (simp add: h3_def h2_def upd_defs)
  then have c4: "ctx h4 k (Some x)" unfolding h4 by (rule change_child_ctx) (rule dk)+
  then show "ctx h5 k (Some x)" using dk by (simp add: h5_def upd_defs)
  show "repr h5 (Some x) l" using l3 dk by (simp add: h5_def h4 upd_defs)
  have x3: "rb_kid (rbn h4 x) LeftS = rt_root l" "rb_kid (rbn h4 x) RightS = q" "rb_black (rbn h4 x) = rb_black (rbn h1 x)"
    using h1(4) dk by (simp_all add: h4 h3_def h2_def upd_defs)
  then show "rb_kid (rbn h5 x) LeftS = rt_root l" "rb_kid (rbn h5 x) RightS = q" "rb_black (rbn h4 x) = rb_black (rbn h1 x)"
    by (simp_all add: h5_def upd_defs)
  show "rb_black (rbn h5 x) = c" "rb_parent (rbn h5 x) = top k" by (simp_all add: h5_def upd_defs)
  show "repr h5 z t = repr h1 z t" if "set (inorder t) \<inter> set (x # inorder l @ paddrs k) = {}"
    using that by (simp add: h5_def h4 h3_def h2_def upd_defs disj)
  show "pctx h5 k2 z p r = pctx h1 k2 z p r" if "set (paddrs k2) \<inter> set (x # inorder l @ paddrs k) = {}"
    using that by (simp add: h5_def h4 h3_def h2_def upd_defs disj)
qed

lemma plug_inorder_ctx: "\<exists>ls rs. \<forall>t. inorder (plug k t) = ls @ inorder t @ rs"
proof (induction k)
  case Nil
  show ?case by (intro exI [of _ "[]"]) simp
next
  case (Cons e k)
  then obtain ls rs where k: "\<And>t. inorder (plug k t) = ls @ inorder t @ rs" by auto
  obtain s c a u where e: "e = (s, c, a, u)" by (cases e)
  show ?case
  proof (cases s)
    case LeftS
    then show ?thesis by (intro exI [of _ ls] exI [of _ "a # inorder u @ rs"]) (simp add: e k)
  next
    case RightS
    then show ?thesis by (intro exI [of _ "ls @ inorder u @ [a]"] exI [of _ rs]) (simp add: e k)
  qed
qed

lemma plug_left:
  "\<forall>e\<in>set k. fst e = LeftS \<Longrightarrow> inorder (plug k (RNode RLeaf c a r)) = a # inorder (plug k r)"
proof -
  have "\<exists>rs. \<forall>t. inorder (plug k t) = inorder t @ rs" if "\<forall>e\<in>set k. fst e = LeftS"
    using that
  proof (induction k)
    case (Cons e k)
    then obtain rs where k: "\<And>t. inorder (plug k t) = inorder t @ rs" by auto
    obtain c a u where e: "e = (LeftS, c, a, u)" using Cons.prems by (cases e) auto
    show ?case by (intro exI [of _ "a # inorder u @ rs"]) (simp add: e k)
  qed simp
  then show "\<forall>e\<in>set k. fst e = LeftS \<Longrightarrow> ?thesis" by fastforce
qed

lemma inorder_del:
  assumes "inorder t' = inorder l @ inorder r" "distinct (inorder (plug k (RNode l c a r)))"
  shows "inorder (plug k t') = remove1 a (inorder (plug k (RNode l c a r)))"
proof -
  obtain ls rs where k: "\<And>t. inorder (plug k t) = ls @ inorder t @ rs" using plug_inorder_ctx [of k] by auto
  show ?thesis using assms by (auto simp: k remove1_append)
qed

lemma pok_addr: "pok (k2 @ (s, c, a, u) # k) m \<longleftrightarrow> pok (k2 @ (s, c, x, u) # k) m"
proof (induction k2 arbitrary: m)
  case (Cons e k2)
  have "kblack (k2 @ (s, c, a, u) # k) = kblack (k2 @ (s, c, x, u) # k)" by (cases k2 rule: kblack.cases) auto
  then show ?case using Cons by (cases e) auto
qed simp

text \<open>What \<open>__rb_erase_augmented\<close> leaves: a tree, or a path with a hole that misses a black node.\<close>

definition erased :: "nat list \<Rightarrow> nat option \<Rightarrow> rb_heap \<Rightarrow> bool" where
  "erased xs rb h \<longleftrightarrow> (case rb of
     None \<Rightarrow> \<exists>t. held h t \<and> good t \<and> inorder t = xs
   | Some p \<Rightarrow> \<exists>k. top k = Some p \<and> ctx h k None \<and> distinct (paddrs k) \<and> pok k 1 \<and> inorder (plug k RLeaf) = xs)"

lemma erase_leaf_ok:
  assumes h: "held h (plug k (RNode l c a r))" and g: "good (plug k (RNode l c a r))" and lr: "l = RLeaf \<or> r = RLeaf"
  shows "\<exists>rb h'. rb_erase_augmented fuel a h = Some (rb, h') \<and> erased (remove1 a (inorder (plug k (RNode l c a r)))) rb h'"
proof -
  have c: "ctx h k (Some a)" "repr h (top k) (RNode l c a r)" and d: "distinct (paddrs k @ inorder (RNode l c a r))"
    using h unfolding held_plug by auto
  have di: "distinct (inorder (plug k (RNode l c a r)))" using d by (simp add: plug_distinct)
  obtain n where n: "pok k n" "rbt n (RNode l c a r)" "c \<or> kblack k" using good_plug [OF g] by auto
  have red: "c = True \<and> n = 1" if "z \<noteq> RLeaf" "RNode l c a r = mk s c z a RLeaf" for z s
    using n(2) that by (cases z; cases c) auto
  have one: "\<exists>t. held h' t \<and> good t \<and> inorder t = remove1 a (inorder (plug k (RNode l c a r)))"
    if "held h' (plug k (paint c z))" "z \<noteq> RLeaf" "RNode l c a r = mk s c z a RLeaf" for h' z s
  proof -
    have cn: "c = True" "n = 1" using red [OF that(2,3)] by auto
    have z: "rbt 0 z" using n(2) cn unfolding that(3) by simp
    then have "\<not> black z" using that(2) by (cases z) auto
    then have "good (plug k (paint True z))" using rbt_paint [OF z] n(1) cn by (intro plug_good) auto
    moreover have "inorder (plug k (paint True z)) = remove1 a (inorder (plug k (RNode l c a r)))"
      by (rule inorder_del [OF _ di]) (use that(3) in \<open>cases s; simp\<close>)
    ultimately show ?thesis using that(1) cn by auto
  qed
  show ?thesis
  proof (cases l)
    case l: RLeaf
    show ?thesis
    proof (cases r)
      case r: RLeaf
      let ?h = "rb_change_child a None (top k) h"
      have ck: "ctx ?h k None" by (rule change_child_ctx [OF c(1)]) (use d in auto)
      have e: "rb_erase_augmented fuel a h = Some (if c then top k else None, ?h)"
        using c(2) l r by (simp add: rb_erase_augmented_def Let_def)
      have oin: "inorder (plug k RLeaf) = remove1 a (inorder (plug k (RNode l c a r)))"
        by (rule inorder_del [OF _ di]) (simp add: l r)
      have hk: "held ?h (plug k RLeaf)" unfolding held_plug using ck d by simp
      show ?thesis
      proof (cases "c \<and> k \<noteq> []")
        case True
        then obtain p where p: "top k = Some p" by (cases k rule: top.cases) auto
        have "n = 1" using n(2) True l r by simp
        then show ?thesis using e True p ck d n(1) oin by (auto simp: erased_def)
      next
        case False
        have "good (plug k RLeaf)"
        proof (cases c)
          case True
          then show ?thesis using False by (simp add: good_def exI [of _ 0])
        next
          case False
          then have "n = 0" "kblack k" using n(2,3) l r by auto
          then show ?thesis using n(1) by (intro plug_good) auto
        qed
        moreover have "(if c then top k else None) = None" using False by auto
        ultimately show ?thesis using e hk oin by (auto simp: erased_def)
      qed
    next
      case r: (RNode rl rc b rr)
      have m: "RNode l c a r = mk RightS c r a RLeaf" using l by simp
      have "rb_erase_augmented fuel a h = Some (None, rb_set_parent_color b (top k) c (rb_change_child a (Some b) (top k) h))"
        using c(2) l r by (simp add: rb_erase_augmented_def Let_def)
      moreover have "held (rb_set_parent_color b (top k) c (rb_change_child a (Some b) (top k) h)) (plug k (paint c r))"
        by (rule erase_one_child_ok(1) [OF h [unfolded m]]) (simp add: r)
      ultimately show ?thesis using one [OF _ _ m] r by (auto simp: erased_def)
    qed
  next
    case l: (RNode ll lc b lr')
    then have r: "r = RLeaf" using lr by simp
    have m: "RNode l c a r = mk LeftS c l a RLeaf" using r by simp
    have "rb_erase_augmented fuel a h = Some (None, rb_change_child a (Some b) (top k) (rb_set_parent_color b (top k) c h))"
      using c(2) l r by (simp add: rb_erase_augmented_def Let_def)
    moreover have "held (rb_change_child a (Some b) (top k) (rb_set_parent_color b (top k) c h)) (plug k (paint c l))"
      by (rule erase_one_child_ok(2) [OF h [unfolded m]]) (simp add: l)
    ultimately show ?thesis using one [OF _ _ m] l by (auto simp: erased_def)
  qed
qed

lemma erase_two_ok:
  assumes h: "held h (plug k (RNode l c a r))" and g: "good (plug k (RNode l c a r))" and l: "l \<noteq> RLeaf" and r: "r \<noteq> RLeaf"
    and f: "rheight r \<le> fuel"
  shows "\<exists>rb h'. rb_erase_augmented fuel a h = Some (rb, h') \<and> erased (remove1 a (inorder (plug k (RNode l c a r)))) rb h'"
proof -
  obtain k2 t2 where lp: "lpath r [] = (k2, t2)" by (cases "lpath r []")
  from lpath_ok [OF lp r] obtain cs x r2 where lk: "plug k2 t2 = r" "\<forall>e\<in>set k2. fst e = LeftS"
    "t2 = RNode RLeaf cs x r2" "k2 \<noteq> [] \<longrightarrow> (\<exists>c a u k3. k2 = (LeftS, c, a, u) # k3)" by auto
  let ?N = "RNode RLeaf cs x r2"
  obtain par where par: "ptop k2 (Some x) = Some par" by (cases k2 rule: top.cases) auto
  have kpar: "k2 = [] \<or> (\<exists>c u k3. k2 = (LeftS, c, par, u) # k3)" using lk(4) par by auto
  have rr: "r = plug k2 ?N" using lk(1,3) by simp
  obtain rl cr c0 r' where r0: "r = RNode rl cr c0 r'" using r by (cases r) auto
  have c: "ctx h k (Some a)" "repr h (top k) (RNode l c a r)" and d: "distinct (paddrs k @ inorder (RNode l c a r))"
    using h unfolding held_plug by auto
  have di: "distinct (inorder (plug k (RNode l c a r)))" using d by (simp add: plug_distinct)
  have dd: "distinct (paddrs k @ inorder l @ [a, x])" "distinct (paddrs k2)" "x \<notin> set (paddrs k2)" "distinct (inorder r2)"
    "x \<notin> set (inorder r2)" "set (inorder r2) \<inter> set (paddrs k2) = {}"
    "set (inorder r2) \<inter> set (x # inorder l @ paddrs k) = {}" "set (paddrs k2) \<inter> set (x # inorder l @ paddrs k) = {}"
    "a \<notin> set (inorder l)"
    using d unfolding rr by (auto simp: plug_distinct plug_set)
  define h1 where "h1 = detach k2 par (rt_root r2) x (rt_root r) h"
  have h1: "ctx h1 k (Some a)" "rbn h1 a = rbn h a" "repr h1 (Some a) l" "repr h1 (Some x) r2" "rb_black (rbn h1 x) = cs"
    "rb_kid (rbn h1 x) RightS = rt_root (plug k2 r2)" "pctx h1 k2 (Some x) (rt_root r2) (rt_root (plug k2 r2))"
    using detach_ok [OF h [unfolded rr] kpar] unfolding rr h1_def Let_def by simp_all
  define h4 where "h4 = rb_change_child a (Some x) (top k)
      (when_some (rt_root l) (\<lambda>t. rb_set_parent t (Some x)) (set_kid LeftS x (rt_root l) h1))"
  define h5 where "h5 = rb_set_parent_color x (top k) c h4"
  note rp = replace_ok [OF h1(1,2,3,6) dd(1) h4_def h5_def]
  let ?K = "k2 @ (RightS, c, x, l) # k"
  have K5: "ctx h5 ?K (rt_root r2)"
    using rp(1-6) rp(9) [OF dd(8), of "Some x" "rt_root r2" "rt_root (plug k2 r2)"] h1(7) by (simp add: ctx_append)
  have r5: "repr h5 (Some x) r2" using rp(8) [OF dd(7)] h1(4) by simp
  have dK: "distinct (paddrs ?K @ inorder r2)" using dd by auto
  have tK: "top ?K = Some par" using par by (simp add: top_append)
  have oin: "inorder (plug ?K z) = remove1 a (inorder (plug k (RNode l c a r)))" if "inorder z = inorder r2" for z
  proof -
    have "inorder (plug k (RNode l c x (plug k2 z))) = remove1 a (inorder (plug k (RNode l c a r)))"
      by (rule inorder_del [OF _ di]) (use plug_left [OF lk(2)] plug_inorder [OF that, of k2] rr in simp)
    then show ?thesis by (simp add: plug_append)
  qed
  have comp: "rb_erase_augmented fuel a h =
      Some (case rt_root r2 of Some z \<Rightarrow> (None, rb_set_parent_color z (Some par) True h5)
            | None \<Rightarrow> (if cs then Some par else None, h5))"
  proof -
    have n: "rb_kid (rbn h a) LeftS = rt_root l" "rb_kid (rbn h a) RightS = Some c0" "rb_parent (rbn h a) = top k"
      "rb_black (rbn h a) = c" using c(2) r0 by simp_all
    obtain b where b: "rt_root l = Some b" using l by (cases l) auto
    have xa: "x \<noteq> a" "b \<noteq> a" using dd(1,9) root_in [OF b] by auto
    have s: "take_succ fuel c0 h = Some (par, x, rt_root r2, h1)"
    proof (cases rl)
      case RLeaf
      then have "k2 = []" "?N = r" using lp lk r0 by auto
      then have "c0 = x" "k2 = []" "r' = r2" using r0 by auto
      then show ?thesis using c(2) r0 RLeaf par by (simp add: h1_def detach_def take_succ_def)
    next
      case (RNode rll rlc rla rlr)
      then have lp': "lpath rl [(LeftS, cr, c0, r')] = (k2, ?N)" using lp lk(3) r0 by simp
      from lpath_ok [OF lp'] RNode have kne: "k2 \<noteq> []" by auto
      have rk: "repr h (Some c0) rl" "rb_kid (rbn h c0) LeftS = Some rla" using c(2) r0 RNode by simp_all
      have "\<exists>par' s. leftmost fuel c0 rla h = Some (par', s) \<and> rt_root ?N = Some s \<and> ptop k2 (Some x) = Some par'"
        by (rule leftmost_ok [OF rk(1) _ lp']) (use RNode f r0 in auto)
      then have lm: "leftmost fuel c0 rla h = Some (par, x)" using par by auto
      have "repr h (Some a) (plug k2 ?N)" using c(2) rr by simp
      then have "rb_kid (rbn h x) RightS = rt_root r2" by (simp add: repr_plug)
      then show ?thesis using rk(2) lm kne r0 by (simp add: h1_def detach_def when_some_def Let_def take_succ_def)
    qed
    have h3n: "rbn (rb_set_parent b (Some x) (set_kid LeftS x (Some b) h1)) a = rbn h a"
      using h1(2) xa by (simp add: upd_defs)
    have h2n: "rbn (set_kid LeftS x (Some b) h1) a = rbn h a" using h1(2) xa by (simp add: upd_defs)
    have h4': "h4 = rb_change_child a (Some x) (top k) (rb_set_parent b (Some x) (set_kid LeftS x (Some b) h1))"
      by (simp add: h4_def b when_some_def)
    show ?thesis
      using h1(2,5) n b h2n h3n rp(7) s
      by (simp add: rb_erase_augmented_def put_succ_def Let_def when_some_def h4' [symmetric] h5_def split: option.splits)
  qed
  have gK: "good (plug (k2 @ (RightS, c, a, l) # k) ?N)" using g rr by (simp add: plug_append)
  obtain m where m: "pok (k2 @ (RightS, c, a, l) # k) m" "rbt m ?N" "cs \<or> kblack (k2 @ (RightS, c, a, l) # k)"
    using good_plug [OF gK] by auto
  have pK: "pok ?K m" using m(1) pok_addr by metis
  show ?thesis
  proof (cases r2)
    case (RNode r2l c2 z r2r)
    then have m1: "m = 1" "\<not> c2" "cs" using m(2) by (auto split: if_splits)
    have "repr (rb_set_parent_color z (Some par) True h5) (Some par) (paint True r2)"
      using repaint_repr [OF r5 dd(4), of "Some par" True] RNode by (simp add: when_some_def)
    moreover have "ctx (rb_set_parent_color z (Some par) True h5) ?K (Some z)"
      using K5 dK RNode by (auto simp: upd_defs)
    ultimately have "held (rb_set_parent_color z (Some par) True h5) (plug ?K (paint True r2))"
      unfolding held_plug tK using dK RNode by auto
    moreover have "good (plug ?K (paint True r2))"
      by (rule plug_good [OF pK]) (use m(2) m1 RNode in auto)
    moreover have "inorder (plug ?K (paint True r2)) = remove1 a (inorder (plug k (RNode l c a r)))" by (rule oin) simp
    ultimately show ?thesis using comp RNode by (auto simp: erased_def)
  next
    case RLeaf
    then have K0: "ctx h5 ?K None" using K5 by simp
    have i0: "inorder (plug ?K RLeaf) = remove1 a (inorder (plug k (RNode l c a r)))" by (rule oin) (simp add: RLeaf)
    show ?thesis
    proof (cases cs)
      case True
      then have "m = 1" using m(2) RLeaf by simp
      then have "erased (remove1 a (inorder (plug k (RNode l c a r)))) (Some par) h5"
        unfolding erased_def using tK K0 dK pK i0 by (auto intro!: exI [of _ ?K])
      then show ?thesis using comp RLeaf True by simp
    next
      case False
      then have "m = 0" using m(2) RLeaf by simp
      then have "good (plug ?K RLeaf)" using pK by (intro plug_good) auto
      moreover have "held h5 (plug ?K RLeaf)" unfolding held_plug using K0 dK by (simp add: disj)
      ultimately have "erased (remove1 a (inorder (plug k (RNode l c a r)))) None h5"
        unfolding erased_def using i0 by (auto intro!: exI [of _ "plug ?K RLeaf"])
      then show ?thesis using comp RLeaf False by simp
    qed
  qed
qed

text \<open>The rotation and the flip keep the order; with the deficit of one black node on the side of \<open>t\<close>
  the rotation restores the balance, and the flip moves the deficit up.\<close>

lemma erot_ok:
  assumes w: "w = mk s True x b y" "rbt (Suc n) w" and t: "rbt n t" "black t" and xy: "\<not> bkids w"
  shows "inorder (erot s c t p w) = inorder (mk s c t p w)" "rbt (if c then Suc (Suc n) else Suc n) (erot s c t p w)"
    "black (erot s c t p w) = c"
proof -
  have xy: "\<not> (black x \<and> black y)" "rbt n x" "rbt n y" using w xy by simp_all
  have "inorder (erot s c t p w) = inorder (mk s c t p w) \<and> rbt (if c then Suc (Suc n) else Suc n) (erot s c t p w) \<and>
    black (erot s c t p w) = c"
  proof (cases "black y")
    case False
    then show ?thesis using w t xy rbt_paint [OF xy(3) False] by (auto simp: erot_def Let_def inorder_mk ord2_assoc)
  next
    case True
    then have "\<not> black x" using xy by simp
    then obtain x1 xa x2 where x: "x = mk s False x1 xa x2" using mk_kids [of x s] by (cases x) auto
    have e: "erot s c t p w = mk s c (mk s True t p x1) xa (mk s True (paint True x2) b y)"
      using True x w by (simp add: erot_def Let_def)
    have "black x1" "black x2" "rbt n x1" "rbt n x2" using x xy(2) by auto
    then show ?thesis unfolding e using w t xy(3) True x by (auto simp: inorder_mk ord2_assoc)
  qed
  then show "inorder (erot s c t p w) = inorder (mk s c t p w)" "rbt (if c then Suc (Suc n) else Suc n) (erot s c t p w)"
    "black (erot s c t p w) = c" by auto
qed

lemma eflip_ok:
  assumes w: "w = mk s True x b y" "rbt (Suc n) w" and t: "rbt n t" "black t" and xy: "bkids w"
  shows "inorder (eflip s t p w) = inorder (mk s c t p w)" "rbt (Suc n) (eflip s t p w)" "black (eflip s t p w)"
  using assms by (auto simp: eflip_def inorder_mk)

lemma efix_ok:
  "pok k (Suc n) \<Longrightarrow> rbt n t \<Longrightarrow> black t \<Longrightarrow> inorder (efix k t) = inorder (plug k t) \<and> good (efix k t)"
proof (induction k arbitrary: t n)
  case Nil
  then show ?case by (auto simp: good_def)
next
  case (Cons e k)
  obtain s c p w where e: "e = (s, c, p, w)" by (cases e)
  have w: "rbt (Suc n) w" "if c then pok k (Suc (Suc n)) else black w \<and> kblack k \<and> pok k (Suc n)"
    using Cons.prems(1) e by auto
  then obtain cw x b y where ww: "w = mk s cw x b y" using mk_cases [of w s] by auto
  show ?case
  proof (cases cw)
    case True
    then have wT: "w = mk s True x b y" using ww by simp
    show ?thesis
    proof (cases "bkids w")
      case bk: True
      note fl = eflip_ok [OF wT w(1) Cons.prems(2,3) bk]
      show ?thesis
      proof (cases c)
        case c: True
        have "inorder (efix k (eflip s t p w)) = inorder (plug k (eflip s t p w)) \<and> good (efix k (eflip s t p w))"
          by (rule Cons.IH [OF _ fl(2,3)]) (use w c in simp)
        then show ?thesis using e wT bk c plug_inorder [OF fl(1) [of p c], of k] by simp
      next
        case False
        then have "good (plug k (eflip s t p w))" using w fl by (intro plug_good) auto
        then show ?thesis using e wT bk False plug_inorder [OF fl(1) [of p c], of k] by simp
      qed
    next
      case False
      note r = erot_ok [OF wT w(1) Cons.prems(2,3) False, of c p]
      have "good (plug k (erot s c t p w))" using w r(2,3) by (cases c) (auto intro!: plug_good)
      then show ?thesis using e wT False plug_inorder [OF r(1), of k] by auto
    qed
  next
    case False
    have x: "black x" "black y" "rbt (Suc n) x" "rbt (Suc n) y" "c" using w ww False by (auto split: if_splits)
    then have "x \<noteq> RLeaf" by auto
    then obtain x1 xa x2 where xx: "x = mk s True x1 xa x2" using mk_kids [of x s] x(1) by auto
    let ?u = "if bkids x then eflip s t p x else erot s False t p x"
    have u: "inorder ?u = inorder (mk s False t p x)" "rbt (Suc n) ?u"
      using eflip_ok [OF xx x(3) Cons.prems(2,3)] erot_ok [OF xx x(3) Cons.prems(2,3), of False p] by auto
    have "good (plug k (mk s c ?u b y))" using u(2) x w(2) by (intro plug_good) auto
    moreover have "inorder (mk s c ?u b y) = inorder (mk s c t p (mk s False x b y))"
      unfolding inorder_mk u(1) by (simp add: inorder_mk ord2_assoc)
    then have "inorder (plug k (mk s c ?u b y)) = inorder (plug k (mk s c t p w))"
      unfolding ww using False by (intro plug_inorder) simp
    ultimately show ?thesis using e ww False x by simp
  qed
qed

section \<open>The operations\<close>

lemma tree_at: "a \<in> set (inorder t) \<Longrightarrow> \<exists>k l c r. t = plug k (RNode l c a r)"
proof (induction t)
  case (RNode l c b r)
  consider "a = b" | "a \<in> set (inorder l)" | "a \<in> set (inorder r)" using RNode.prems by auto
  then show ?case
  proof cases
    case 1
    then show ?thesis by (intro exI [of _ "[]"]) auto
  next
    case 2
    with RNode.IH(1) obtain k l' c' r' where "l = plug k (RNode l' c' a r')" by blast
    then have "RNode l c b r = plug (k @ [(LeftS, c, b, r)]) (RNode l' c' a r')" by (simp add: plug_append)
    then show ?thesis by blast
  next
    case 3
    with RNode.IH(2) obtain k l' c' r' where "r = plug k (RNode l' c' a r')" by blast
    then have "RNode l c b r = plug (k @ [(RightS, c, b, l)]) (RNode l' c' a r')" by (simp add: plug_append)
    then show ?thesis by blast
  qed
qed simp

lemma path_length: "length k \<le> length (paddrs k)"
  by (induction k rule: paddrs.induct) auto

lemma height_length: "rheight t \<le> length (inorder t)"
  by (induction t) auto

lemma rb_erase_ok:
  assumes h: "held h t" "good t" and a: "a \<in> set (inorder t)" and f: "length (inorder t) \<le> fuel"
  shows "\<exists>h' t'. rb_erase fuel a h = Some (Ok h') \<and> held h' t' \<and> good t' \<and> inorder t' = remove1 a (inorder t)"
proof -
  obtain k l c r where t: "t = plug k (RNode l c a r)" using tree_at [OF a] by blast
  have "rheight r \<le> rheight t" using plug_height [of k "RNode l c a r"] t by simp
  then have fr: "rheight r \<le> fuel" using height_length [of t] f by simp
  obtain rb h1 where e: "rb_erase_augmented fuel a h = Some (rb, h1)" "erased (remove1 a (inorder t)) rb h1"
    using erase_leaf_ok [of h k l c a r fuel] erase_two_ok [of h k l c a r fuel] h fr
    unfolding t by blast
  show ?thesis
  proof (cases rb)
    case None
    then show ?thesis using e by (auto simp: rb_erase_def erased_def)
  next
    case (Some p)
    with e(2) obtain k' where k: "top k' = Some p" "ctx h1 k' None" "distinct (paddrs k')" "pok k' 1"
      "inorder (plug k' RLeaf) = remove1 a (inorder t)" by (auto simp: erased_def)
    have "length k' \<le> length (inorder (plug k' RLeaf))"
      using path_length [of k'] arg_cong [OF plug_mset [of k' RLeaf], of size] by simp
    also have "\<dots> \<le> fuel" using f a by (simp add: k(5) length_remove1)
    finally have "length k' \<le> fuel" .
    then have "\<exists>h'. rb_erase_loop fuel (rt_root RLeaf) p h1 = Some (Ok h') \<and> held h' (efix k' RLeaf)"
      using k by (intro rb_erase_loop_ok [where n = 0]) auto
    moreover have "inorder (efix k' RLeaf) = remove1 a (inorder t) \<and> good (efix k' RLeaf)"
      using efix_ok [of k' 0 RLeaf] k by simp
    ultimately show ?thesis using e(1) Some by (auto simp: rb_erase_def)
  qed
qed

section \<open>Walking\<close>

text \<open>\<open>oin s\<close>: the nodes in the direction \<open>s\<close>.\<close>

fun oin :: "side \<Rightarrow> rtree \<Rightarrow> nat list" where
  "oin RightS t = inorder t"
| "oin LeftS t = rev (inorder t)"

lemma oin_mk [simp]: "oin s RLeaf = []" "oin s (mk s c x a y) = oin s y @ a # oin s x" "oin (other s) (mk s c x a y) = oin (other s) x @ a # oin (other s) y"
  by (cases s; simp)+

lemma oin_other: "oin (other s) t = rev (oin s t)"
  by (cases s) simp_all

lemma oin_Nil: "oin s t = [] \<longleftrightarrow> t = RLeaf"
  by (cases s; cases t) auto

lemma descend_ok:
  "repr h q t \<Longrightarrow> rt_root t = Some a \<Longrightarrow> rheight t \<le> f \<Longrightarrow> descend (other s) f a h = Some (hd (oin s t))"
proof (induction f arbitrary: t a q)
  case (Suc f)
  then obtain c x y where t: "t = mk s c x a y" using mk_cases [of t s] by auto
  show ?case
  proof (cases y)
    case RLeaf
    with Suc.prems t show ?thesis by simp
  next
    case (RNode yl yc b yr)
    have "descend (other s) f b h = Some (hd (oin s y))"
      by (rule Suc.IH [of "Some a" y]) (use Suc.prems t RNode in auto)
    then show ?thesis using Suc.prems t RNode oin_Nil [of s y] by simp
  qed
qed (auto elim: rt_root.elims)

text \<open>The nodes after the end of a path, in the direction \<open>s\<close>.\<close>

fun after :: "side \<Rightarrow> path \<Rightarrow> nat list" where
  "after s [] = []"
| "after s ((s', c, a, u) # k) = (if s' = s then after s k else a # oin s u @ after s k)"

lemma oin_plug: "\<exists>ls. \<forall>t. oin s (plug k t) = ls @ oin s t @ after s k"
proof (induction k)
  case (Cons e k)
  then obtain ls where k: "\<And>t. oin s (plug k t) = ls @ oin s t @ after s k" by auto
  obtain s' c a u where e: "e = (s', c, a, u)" by (cases e)
  show ?case
  proof (cases "s' = s")
    case True
    then show ?thesis by (intro exI [of _ "ls @ oin s u @ [a]"]) (simp add: e k)
  next
    case False
    then have "s' = other s" by (simp add: side_neq)
    then show ?thesis by (intro exI [of _ ls]) (simp add: e k mk_other)
  qed
qed simp

lemma climb_ok:
  "ctx h k (Some a) \<Longrightarrow> rb_parent (rbn h a) = top k \<Longrightarrow> a \<notin> set (paddrs k) \<Longrightarrow> distinct (paddrs k) \<Longrightarrow>
    length k < f \<Longrightarrow> climb s f a h = Some (case after s k of [] \<Rightarrow> None | b # _ \<Rightarrow> Some b)"
proof (induction f arbitrary: k a)
  case (Suc f)
  show ?case
  proof (cases k)
    case Nil
    with Suc.prems show ?thesis by simp
  next
    case (Cons e k')
    obtain s' c b u where e: "e = (s', c, b, u)" by (cases e)
    have nu: "rt_root u \<noteq> Some a" using Suc.prems(3) Cons e by auto
    show ?thesis
    proof (cases "s' = s")
      case True
      have "climb s f b h = Some (case after s k' of [] \<Rightarrow> None | b # _ \<Rightarrow> Some b)"
        by (rule Suc.IH) (use Suc.prems Cons e in auto)
      then show ?thesis using Suc.prems Cons e True by simp
    next
      case False
      then have s: "s = other s'" by (cases s; cases s') simp_all
      then have "rb_kid (rbn h b) s \<noteq> Some a" using Suc.prems Cons e nu by simp
      then show ?thesis using Suc.prems Cons e False by simp
    qed
  qed
qed simp

lemma split_unique: "distinct (xs @ a # ys) \<Longrightarrow> xs @ a # ys = us @ a # vs \<Longrightarrow> ys = vs"
proof (induction xs arbitrary: us)
  case Nil
  then show ?case by (cases us) auto
next
  case (Cons x xs)
  have "us \<noteq> []" using Cons.prems by auto
  then obtain us' where us: "us = x # us'" using Cons.prems(2) by (cases us) auto
  show ?case by (rule Cons.IH [of us']) (use Cons.prems us in \<open>simp_all only: append_Cons distinct.simps list.inject\<close>)
qed

lemma walk_ok:
  assumes h: "held h t" and xs: "oin s t = xs @ a # ys" and f: "length (inorder t) < f"
  shows "walk s f a h = Some (case ys of [] \<Rightarrow> None | b # _ \<Rightarrow> Some b)"
proof -
  have "a \<in> set (oin s t)" using xs by simp
  then have "a \<in> set (inorder t)" by (cases s) simp_all
  then obtain k l c r where t0: "t = plug k (RNode l c a r)" using tree_at by blast
  obtain x y where xy: "RNode l c a r = mk s c x a y" using mk_kids [of "RNode l c a r" s] by auto
  have t: "t = plug k (mk s c x a y)" using t0 xy by simp
  have c: "ctx h k (Some a)" "repr h (top k) (mk s c x a y)" and d: "distinct (paddrs k @ inorder (mk s c x a y))"
    using h unfolding t held_plug by auto
  obtain ls where ls: "oin s t = ls @ oin s (mk s c x a y) @ after s k" using oin_plug [of s k] t by blast
  have "distinct (inorder t)" using h by (simp add: held_def)
  then have "distinct (oin s t)" by (cases s) simp_all
  then have "distinct (xs @ a # ys)" using xs by simp
  moreover have "xs @ a # ys = (ls @ oin s y) @ a # (oin s x @ after s k)" using xs ls by simp
  ultimately have ys: "ys = oin s x @ after s k" by (rule split_unique)
  have "length k \<le> length (inorder t)"
    using path_length [of k] arg_cong [OF plug_mset [of k "mk s c x a y"], of size] t by simp
  then have fk: "length k < f" using f by simp
  have fx: "rheight x \<le> f"
    using plug_height [of k "mk s c x a y"] t height_length [of t] f by simp
  have ne: "rb_parent (rbn h a) \<noteq> Some a" using c(2) d top_in [of k a] by auto
  show ?thesis
  proof (cases x)
    case RLeaf
    have "climb s f a h = Some (case after s k of [] \<Rightarrow> None | b # _ \<Rightarrow> Some b)"
      by (rule climb_ok [OF c(1) _ _ _ fk]) (use c(2) d in auto)
    then show ?thesis using c(2) RLeaf ne ys by (simp add: walk_def)
  next
    case (RNode xl xc b xr)
    have "descend (other s) f b h = Some (hd (oin s x))"
      by (rule descend_ok [of h "Some a" x]) (use c(2) RNode fx in auto)
    moreover obtain z zs where "oin s x = z # zs" using oin_Nil [of s x] RNode by (cases "oin s x") auto
    ultimately show ?thesis using c(2) RNode ne ys by (simp add: walk_def)
  qed
qed

lemma rb_first_ok:
  assumes "held h t" "length (inorder t) \<le> f"
  shows "rb_first f h = Some (case inorder t of [] \<Rightarrow> None | a # _ \<Rightarrow> Some a)"
    "rb_last f h = Some (if t = RLeaf then None else Some (last (inorder t)))"
proof -
  have f: "rheight t \<le> f" using height_length [of t] assms(2) by simp
  have r: "rb_root h = rt_root t" "repr h None t" using assms(1) by (auto simp: held_def)
  show "rb_first f h = Some (case inorder t of [] \<Rightarrow> None | a # _ \<Rightarrow> Some a)"
  proof (cases t)
    case (RNode l c a r')
    have "descend LeftS f a h = Some (hd (inorder t))"
      using descend_ok [OF r(2) _ f, of a RightS] RNode by simp
    then show ?thesis using r RNode by (auto simp: rb_first_def split: list.splits)
  qed (use r in \<open>simp add: rb_first_def\<close>)
  show "rb_last f h = Some (if t = RLeaf then None else Some (last (inorder t)))"
  proof (cases t)
    case (RNode l c a r')
    have "descend RightS f a h = Some (hd (rev (inorder t)))"
      using descend_ok [OF r(2) _ f, of a LeftS] RNode by simp
    then show ?thesis using r RNode by (auto simp: rb_last_def hd_rev)
  qed (use r in \<open>simp add: rb_last_def\<close>)
qed

text \<open>Replacing a node by one that is not in the tree.\<close>

lemma rb_replace_node_ok:
  assumes h: "held h (plug k (RNode l c a r))" and b: "b \<notin> set (inorder (plug k (RNode l c a r)))"
  shows "held (rb_replace_node a b h) (plug k (RNode l c b r))"
proof -
  have c: "ctx h k (Some a)" "repr h (top k) (RNode l c a r)" and d: "distinct (paddrs k @ inorder (RNode l c a r))"
    using h unfolding held_plug by auto
  have nb: "b \<notin> set (paddrs k)" "b \<notin> set (inorder l)" "b \<notin> set (inorder r)" "a \<noteq> b" using b by (auto simp: plug_set)
  have dd: "a \<notin> set (inorder l)" "a \<notin> set (inorder r)" "a \<notin> set (paddrs k)" "set (inorder r) \<inter> set (inorder l) = {}"
    "set (inorder l) \<inter> set (inorder r) = {}" "set (inorder l) \<inter> set (paddrs k) = {}" "set (inorder r) \<inter> set (paddrs k) = {}"
    using d by auto
  let ?h1 = "rb_change_child a (Some b) (top k) h"
  have c1: "ctx ?h1 k (Some b)" by (rule change_child_ctx [OF c(1)]) (use d in auto)
  define h2 where "h2 = when_some (rt_root l) (\<lambda>t. rb_set_parent t (Some b)) ?h1"
  define h3 where "h3 = when_some (rt_root r) (\<lambda>t. rb_set_parent t (Some b)) h2"
  have l1: "repr ?h1 (Some a) l" "repr ?h1 (Some a) r" "rbn ?h1 a = rbn h a" using c dd by simp_all
  have l2: "repr h2 (Some b) l" unfolding h2_def by (rule reparent_repr [OF l1(1)]) (use d in simp)
  have r2: "repr h2 (Some a) r" "rbn h2 a = rbn h a" using l1 dd by (simp_all add: h2_def upd_defs)
  have r3: "repr h3 (Some b) r" unfolding h3_def by (rule reparent_repr [OF r2(1)]) (use d in simp)
  have l3: "repr h3 (Some b) l" "rbn h3 a = rbn h a" "ctx h3 k (Some b)"
    using l2 r2 c1 dd by (simp_all add: h3_def h2_def upd_defs)
  have e: "rb_replace_node a b h = upd_node b (\<lambda>_. rbn h3 a) h3"
    using c(2) l1(3) r2(2) by (simp add: rb_replace_node_def Let_def h3_def h2_def)
  show ?thesis unfolding e held_plug using l3 r3 c(2) nb d by auto
qed

end
