(* ===== verification/StrRb.thy ===== *)
theory StrRb
  imports KrbErase "HOL-Library.List_Lexorder"
begin

text \<open>
  Search trees over the red-black trees: \<^verbatim>\<open>src/src/utils/str_rb.c\<close>, a map from byte strings to
  entries, and \<^verbatim>\<open>i64_rb.c\<close>, a multimap from 64-bit numbers. The keys are fields of the entries,
  here a function \<open>K\<close> of the entry's address. The loops of both files are one walk, which differs
  in the comparison: \<open>None\<close> for the entry looked for, else the side to go on.
\<close>

section \<open>The code\<close>

fun rb_walk :: "(nat \<Rightarrow> side option) \<Rightarrow> nat \<Rightarrow> nat option \<Rightarrow> (nat \<times> side) option \<Rightarrow> rb_heap \<Rightarrow>
    (nat + (nat \<times> side) option) option" where
  "rb_walk d 0 p link h = None"
| "rb_walk d (Suc n) p link h =
     (case p of
        None \<Rightarrow> Some (Inr link)
      | Some a \<Rightarrow> (case d a of None \<Rightarrow> Some (Inl a) | Some s \<Rightarrow> rb_walk d n (rb_kid (rbn h a) s) (Some (a, s)) h))"

record str_map =
  str_size :: int
  str_tree :: rb_heap

definition str_rb_init :: "str_map" where
  "str_rb_init = \<lparr>str_size = 0, str_tree = \<lparr>rbn = (\<lambda>_. \<lparr>rb_black = False, rb_parent = None, rb_kid = (\<lambda>_. None)\<rparr>),
     rb_root = None\<rparr>\<rparr>"

text \<open>\<open>memcmp\<close> of the standard library, by the sign of its result.\<close>

fun memcmp :: "byte list \<Rightarrow> byte list \<Rightarrow> nat \<Rightarrow> int" where
  "memcmp xs ys 0 = 0"
| "memcmp (x # xs) (y # ys) (Suc n) = (if x = y then memcmp xs ys n else if x < y then - 1 else 1)"
| "memcmp xs ys (Suc n) = 0"

text \<open>The comparison of the entry \<open>cur\<close> with the key looked for.\<close>

definition str_cmp :: "byte list \<Rightarrow> byte list \<Rightarrow> side option" where
  "str_cmp cur key =
     (let keylen = (if length cur > length key then length key else length cur);
          rc = memcmp cur key keylen
      in if rc = 0 \<and> length key = length cur then None
         else if (rc = 0 \<and> length key < length cur) \<or> rc > 0 then Some LeftS
         else Some RightS)"

definition str_rb_min :: "nat \<Rightarrow> str_map \<Rightarrow> nat option option" where
  "str_rb_min fuel m =
     (case rb_root (str_tree m) of None \<Rightarrow> Some None | Some a \<Rightarrow> map_option Some (descend LeftS fuel a (str_tree m)))"

definition str_rb_max :: "nat \<Rightarrow> str_map \<Rightarrow> nat option option" where
  "str_rb_max fuel m =
     (case rb_root (str_tree m) of None \<Rightarrow> Some None | Some a \<Rightarrow> map_option Some (descend RightS fuel a (str_tree m)))"

definition str_rb_find :: "(nat \<Rightarrow> byte list) \<Rightarrow> nat \<Rightarrow> byte list \<Rightarrow> str_map \<Rightarrow> nat option option" where
  "str_rb_find K fuel key m =
     map_option (\<lambda>r. case r of Inl a \<Rightarrow> Some a | Inr _ \<Rightarrow> None)
       (rb_walk (\<lambda>a. str_cmp (K a) key) fuel (rb_root (str_tree m)) None (str_tree m))"

text \<open>\<open>str_rb_find_leaf\<close>: the entry, or the last one on the way.\<close>

definition str_rb_find_leaf :: "(nat \<Rightarrow> byte list) \<Rightarrow> nat \<Rightarrow> byte list \<Rightarrow> str_map \<Rightarrow> nat option option" where
  "str_rb_find_leaf K fuel key m =
     map_option (\<lambda>r. case r of Inl a \<Rightarrow> Some a | Inr link \<Rightarrow> map_option fst link)
       (rb_walk (\<lambda>a. str_cmp (K a) key) fuel (rb_root (str_tree m)) None (str_tree m))"

text \<open>\<open>str_rb_insert\<close> counts the entry before it looks for a duplicate. \<open>True\<close> is the result 0.\<close>

definition str_rb_insert :: "(nat \<Rightarrow> byte list) \<Rightarrow> nat \<Rightarrow> nat \<Rightarrow> str_map \<Rightarrow> (bool \<times> str_map) cres option" where
  "str_rb_insert K fuel e m =
     (let m = m\<lparr>str_size := str_size m + 1\<rparr>
      in case rb_walk (\<lambda>a. str_cmp (K a) (K e)) fuel (rb_root (str_tree m)) None (str_tree m) of
           None \<Rightarrow> None
         | Some (Inl _) \<Rightarrow> Some (Ok (False, m))
         | Some (Inr link) \<Rightarrow>
             map_option (\<lambda>r. cbind r (\<lambda>h. Ok (True, m\<lparr>str_tree := h\<rparr>)))
               (rb_insert_color fuel e (rb_link_node e link (str_tree m))))"

definition str_rb_delete :: "nat \<Rightarrow> nat \<Rightarrow> str_map \<Rightarrow> str_map cres option" where
  "str_rb_delete fuel e m =
     map_option (\<lambda>r. cbind r (\<lambda>h. Ok (m\<lparr>str_size := str_size m - 1, str_tree := h\<rparr>)))
       (rb_erase fuel e (str_tree m))"

text \<open>\<open>i64_rb.c\<close>: an entry with the same key goes to the right.\<close>

record i64_map =
  elem_size :: int
  i64_tree :: rb_heap

definition i64_cmp :: "int \<Rightarrow> int \<Rightarrow> side option" where
  "i64_cmp cur key = Some (if key < cur then LeftS else RightS)"

definition i64_rb_min :: "nat \<Rightarrow> i64_map \<Rightarrow> nat option option" where
  "i64_rb_min fuel m =
     (case rb_root (i64_tree m) of None \<Rightarrow> Some None | Some a \<Rightarrow> map_option Some (descend LeftS fuel a (i64_tree m)))"

definition i64_rb_max :: "nat \<Rightarrow> i64_map \<Rightarrow> nat option option" where
  "i64_rb_max fuel m =
     (case rb_root (i64_tree m) of None \<Rightarrow> Some None | Some a \<Rightarrow> map_option Some (descend RightS fuel a (i64_tree m)))"

definition i64_rb_insert :: "(nat \<Rightarrow> 64 word) \<Rightarrow> nat \<Rightarrow> nat \<Rightarrow> i64_map \<Rightarrow> i64_map cres option" where
  "i64_rb_insert K fuel e m =
     (let m = m\<lparr>elem_size := elem_size m + 1\<rparr>
      in case rb_walk (\<lambda>a. i64_cmp (sint (K a)) (sint (K e))) fuel (rb_root (i64_tree m)) None (i64_tree m) of
           Some (Inr link) \<Rightarrow>
             map_option (\<lambda>r. cbind r (\<lambda>h. Ok (m\<lparr>i64_tree := h\<rparr>)))
               (rb_insert_color fuel e (rb_link_node e link (i64_tree m)))
         | _ \<Rightarrow> None)"

definition i64_rb_delete :: "nat \<Rightarrow> nat \<Rightarrow> i64_map \<Rightarrow> i64_map cres option" where
  "i64_rb_delete fuel e m =
     map_option (\<lambda>r. cbind r (\<lambda>h. Ok (m\<lparr>elem_size := elem_size m - 1, i64_tree := h\<rparr>)))
       (rb_erase fuel e (i64_tree m))"

section \<open>Walks in a sorted tree\<close>

text \<open>The contract of a comparison; \<open>sorted_keys\<close> is the order of the tree.\<close>

locale search_order =
  fixes cmp :: "'k::linorder \<Rightarrow> 'k \<Rightarrow> side option"
  assumes cmp_left: "cmp a x = Some LeftS \<Longrightarrow> x \<le> a"
    and cmp_right: "cmp a x = Some RightS \<Longrightarrow> a \<le> x"
    and cmp_found: "cmp a x = None \<Longrightarrow> a = x"
begin

text \<open>\<open>below x y\<close>: a comparison with a key from \<open>y\<close> up sent the walk for \<open>x\<close> to the right.\<close>

definition below :: "'k \<Rightarrow> 'k \<Rightarrow> bool" where
  "below x y \<longleftrightarrow> (\<exists>v. y \<le> v \<and> cmp v x = Some RightS)"

definition above :: "'k \<Rightarrow> 'k \<Rightarrow> bool" where
  "above x y \<longleftrightarrow> (\<exists>v. v \<le> y \<and> cmp v x = Some LeftS)"

lemma belowI: "cmp v x = Some RightS \<Longrightarrow> y \<le> v \<Longrightarrow> below x y"
  by (auto simp: below_def)

lemma aboveI: "cmp v x = Some LeftS \<Longrightarrow> v \<le> y \<Longrightarrow> above x y"
  by (auto simp: above_def)

lemma below_le: "below x y \<Longrightarrow> y \<le> x"
  using cmp_right by (fastforce simp: below_def)

lemma above_le: "above x y \<Longrightarrow> x \<le> y"
  using cmp_left by (fastforce simp: above_def)

text \<open>What a walk returns that ends in the subtree with the nodes \<open>A\<close> of \<open>t0\<close>.\<close>

definition walked :: "(nat \<Rightarrow> 'k) \<Rightarrow> 'k \<Rightarrow> rtree \<Rightarrow> nat set \<Rightarrow> nat + (nat \<times> side) option \<Rightarrow> bool" where
  "walked K x t0 A r \<longleftrightarrow> (case r of
     Inl a \<Rightarrow> a \<in> A \<and> K a = x \<and> cmp (K a) x = None
   | Inr link \<Rightarrow> \<exists>k ls rs. link = link_at k \<and> t0 = plug k RLeaf \<and> (\<forall>z. inorder (plug k z) = ls @ inorder z @ rs) \<and>
       (\<forall>b\<in>set ls. below x (K b)) \<and> (\<forall>b\<in>set rs. above x (K b)))"

lemma walked_mono: "walked K x t0 A r \<Longrightarrow> A \<subseteq> B \<Longrightarrow> walked K x t0 B r"
  by (auto simp: walked_def split: sum.splits)

lemma walk_sorted:
  assumes "repr h q t" "t0 = plug k t" "sorted (map K (inorder t0))" "rheight t < n"
    and "\<And>z. inorder (plug k z) = ls @ inorder z @ rs" "\<forall>b\<in>set ls. below x (K b)" "\<forall>b\<in>set rs. above x (K b)"
  shows "\<exists>r. rb_walk (\<lambda>a. cmp (K a) x) n (rt_root t) (link_at k) h = Some r \<and> walked K x t0 (set (inorder t)) r"
  using assms
proof (induction n arbitrary: t k q ls rs)
  case (Suc n)
  show ?case
  proof (cases t)
    case RLeaf
    then show ?thesis using Suc.prems by (auto simp: walked_def)
  next
    case (RNode l c a r)
    have srt: "sorted (map K (inorder l @ a # inorder r))" using Suc.prems(2,3,5) RNode by (simp add: sorted_append)
    consider "cmp (K a) x = None" | "cmp (K a) x = Some LeftS" | "cmp (K a) x = Some RightS"
      by (cases "cmp (K a) x") (auto, metis side.exhaust)
    then show ?thesis
    proof cases
      case 1
      then show ?thesis using RNode cmp_found [OF 1] by (simp add: walked_def)
    next
      case 2
      have "\<exists>r'. rb_walk (\<lambda>a. cmp (K a) x) n (rt_root l) (link_at ((LeftS, c, a, r) # k)) h = Some r' \<and>
        walked K x t0 (set (inorder l)) r'"
      proof (rule Suc.IH [where ls = ls and rs = "a # inorder r @ rs"])
        show "\<forall>b\<in>set (a # inorder r @ rs). above x (K b)"
          using srt Suc.prems(7) aboveI [OF 2] by (auto simp: sorted_append)
      qed (use Suc.prems RNode in auto)
      then show ?thesis using RNode 2 Suc.prems(1) by (auto intro: walked_mono)
    next
      case 3
      have "\<exists>r'. rb_walk (\<lambda>a. cmp (K a) x) n (rt_root r) (link_at ((RightS, c, a, l) # k)) h = Some r' \<and>
        walked K x t0 (set (inorder r)) r'"
      proof (rule Suc.IH [where ls = "ls @ inorder l @ [a]" and rs = rs])
        show "\<forall>b\<in>set (ls @ inorder l @ [a]). below x (K b)"
          using srt Suc.prems(6) belowI [OF 3] by (auto simp: sorted_append)
      qed (use Suc.prems RNode in auto)
      then show ?thesis using RNode 3 Suc.prems(1) by (auto intro: walked_mono)
    qed
  qed
qed simp

lemma walk_tree:
  assumes h: "held h t" "sorted (map K (inorder t))" and n: "rheight t < n"
  shows "\<exists>r. rb_walk (\<lambda>a. cmp (K a) x) n (rb_root h) None h = Some r \<and> walked K x t (set (inorder t)) r"
  using walk_sorted [of h None t t "[]" K n "[]" "[]" x] h n by (simp add: held_def)

text \<open>Linking and recolouring where the walk ended.\<close>

lemma insert_sorted:
  assumes h: "held h t" "good t" "sorted (map K (inorder t))" and n: "rheight t < n"
    and e: "e \<notin> set (inorder t)" and w: "rb_walk (\<lambda>a. cmp (K a) (K e)) n (rb_root h) None h = Some (Inr link)"
  shows "\<exists>h' t'. rb_insert_color n e (rb_link_node e link h) = Some (Ok h') \<and> held h' t' \<and> good t' \<and>
    sorted (map K (inorder t')) \<and> mset (inorder t') = add_mset e (mset (inorder t))"
proof -
  from walk_tree [OF h(1,3) n, of "K e"] w obtain k ls rs where
    k: "link = link_at k" "t = plug k RLeaf" "\<And>z. inorder (plug k z) = ls @ inorder z @ rs"
      "\<forall>b\<in>set ls. below (K e) (K b)" "\<forall>b\<in>set rs. above (K e) (K b)" by (auto simp: walked_def)
  have n': "length k < n" using plug_height [of k RLeaf] k(2) n by simp
  have "e \<notin> set (paddrs k)" using e k(2) by (simp add: plug_set)
  from rb_insert_ok [OF h(1) [unfolded k(2)] h(2) [unfolded k(2)] this n'] obtain h' t' where
    r: "rb_insert_color n e (rb_link_node e (link_at k) h) = Some (Ok h')" "held h' t'" "good t'"
      "inorder t' = inorder (plug k (RNode RLeaf False e RLeaf))" by auto
  have "sorted (map K (ls @ rs))" using h(3) k(2,3) by simp
  then have "sorted (map K (inorder t'))" using r(4) k(3,4,5) by (auto simp: sorted_append dest: below_le above_le)
  moreover have "mset (inorder t') = add_mset e (mset (inorder t))" using r(4) k(2,3) by simp
  ultimately show ?thesis using r k(1) by blast
qed

end

text \<open>A comparison that finds equal keys.\<close>

locale strict_order = search_order cmp for cmp :: "'k::linorder \<Rightarrow> 'k \<Rightarrow> side option" +
  assumes cmp_refl: "cmp a a = None"
begin

lemma walk_found:
  assumes h: "held h t" "sorted (map K (inorder t))" and n: "rheight t < n"
  shows "case rb_walk (\<lambda>a. cmp (K a) x) n (rb_root h) None h of
      Some (Inl a) \<Rightarrow> a \<in> set (inorder t) \<and> K a = x
    | Some (Inr link) \<Rightarrow> x \<notin> K ` set (inorder t)
    | None \<Rightarrow> False"
proof -
  have nb: "\<not> below x x" "\<not> above x x" using cmp_right cmp_left cmp_refl
    by (metis below_def antisym option.distinct(1)) (metis above_def cmp_left antisym option.distinct(1) cmp_refl)
  show ?thesis using walk_tree [OF h n, of x] nb by (fastforce simp: walked_def split: sum.splits)
qed

end

section \<open>The comparisons of the code\<close>

lemma memcmp_less:
  "str_cmp cur key = (if key = cur then None else if key < cur then Some LeftS else Some RightS)"
proof (induction cur arbitrary: key)
  case Nil
  then show ?case by (cases key) (auto simp: str_cmp_def)
next
  case (Cons x cur)
  show ?case
  proof (cases key)
    case (Cons y ys)
    have m: "(if length (x # cur) > length (y # ys) then length (y # ys) else length (x # cur)) =
        Suc (if length cur > length ys then length ys else length cur)" by simp
    show ?thesis
    proof (cases "x = y")
      case True
      then have "str_cmp (x # cur) (y # ys) = str_cmp cur ys" unfolding str_cmp_def m by (simp add: Let_def)
      then show ?thesis using Cons.IH True by (simp add: Cons)
    next
      case False
      then show ?thesis unfolding Cons str_cmp_def m by (auto simp: Let_def)
    qed
  qed (simp add: str_cmp_def)
qed

interpretation str: strict_order str_cmp
  by unfold_locales (auto simp: memcmp_less split: if_splits)

interpretation i64: search_order i64_cmp
  by unfold_locales (auto simp: i64_cmp_def split: if_splits)

section \<open>The string map\<close>

text \<open>The entries of a map, in the order of their keys.\<close>

definition str_holds :: "(nat \<Rightarrow> byte list) \<Rightarrow> str_map \<Rightarrow> rtree \<Rightarrow> bool" where
  "str_holds K m t \<longleftrightarrow> held (str_tree m) t \<and> good t \<and> sorted (map K (inorder t)) \<and> distinct (map K (inorder t))"

definition str_map_of :: "(nat \<Rightarrow> byte list) \<Rightarrow> rtree \<Rightarrow> byte list \<rightharpoonup> nat" where
  "str_map_of K t = map_of (map (\<lambda>a. (K a, a)) (inorder t))"

lemma str_map_of_iff:
  assumes "distinct (map K (inorder t))"
  shows "str_map_of K t x = Some a \<longleftrightarrow> a \<in> set (inorder t) \<and> K a = x"
  using assms by (auto simp: str_map_of_def comp_def map_of_eq_Some_iff)

lemma str_map_of_None: "str_map_of K t x = None \<longleftrightarrow> x \<notin> K ` set (inorder t)"
  by (force simp: str_map_of_def map_of_eq_None_iff)

lemma str_holds_cong:
  "(\<And>a. a \<in> set (inorder t) \<Longrightarrow> K a = K' a) \<Longrightarrow> str_holds K m t = str_holds K' m t"
  by (simp add: str_holds_def cong: map_cong)

lemma str_map_of_cong:
  "(\<And>a. a \<in> set (inorder t) \<Longrightarrow> K a = K' a) \<Longrightarrow> str_map_of K t = str_map_of K' t"
  by (simp add: str_map_of_def cong: map_cong)

lemma str_rb_find_ok:
  assumes "str_holds K m t" "rheight t < n"
  shows "str_rb_find K n x m = Some (str_map_of K t x)"
proof -
  have h: "held (str_tree m) t" "sorted (map K (inorder t))" "distinct (map K (inorder t))"
    using assms(1) by (auto simp: str_holds_def)
  from str.walk_found [OF h(1,2) assms(2), of x] obtain r where
    r: "rb_walk (\<lambda>a. str_cmp (K a) x) n (rb_root (str_tree m)) None (str_tree m) = Some r"
    "case r of Inl a \<Rightarrow> a \<in> set (inorder t) \<and> K a = x | Inr link \<Rightarrow> x \<notin> K ` set (inorder t)"
    by (auto split: option.splits sum.splits)
  show ?thesis
  proof (cases r)
    case (Inl a)
    then have "str_map_of K t x = Some a" using r(2) str_map_of_iff [OF h(3)] by simp
    then show ?thesis using r(1) Inl by (simp add: str_rb_find_def)
  next
    case (Inr link)
    then have "str_map_of K t x = None" using r(2) str_map_of_None by simp
    then show ?thesis using r(1) Inr by (simp add: str_rb_find_def)
  qed
qed

lemma str_rb_insert_ok:
  assumes m: "str_holds K m t" and n: "rheight t < n" and e: "e \<notin> set (inorder t)"
  shows "case str_map_of K t (K e) of
      Some _ \<Rightarrow> str_rb_insert K n e m = Some (Ok (False, m\<lparr>str_size := str_size m + 1\<rparr>))
    | None \<Rightarrow> \<exists>m' t'. str_rb_insert K n e m = Some (Ok (True, m')) \<and> str_holds K m' t' \<and>
        str_size m' = str_size m + 1 \<and> mset (inorder t') = add_mset e (mset (inorder t)) \<and>
        str_map_of K t' = (str_map_of K t)(K e \<mapsto> e)"
proof -
  have h: "held (str_tree m) t" "good t" "sorted (map K (inorder t))" "distinct (map K (inorder t))"
    using m by (auto simp: str_holds_def)
  let ?w = "rb_walk (\<lambda>a. str_cmp (K a) (K e)) n (rb_root (str_tree m)) None (str_tree m)"
  from str.walk_found [OF h(1,3) n, of "K e"] obtain r where
    r: "?w = Some r" "case r of Inl a \<Rightarrow> a \<in> set (inorder t) \<and> K a = K e | Inr link \<Rightarrow> K e \<notin> K ` set (inorder t)"
    by (auto split: option.splits sum.splits)
  show ?thesis
  proof (cases r)
    case (Inl a)
    then have "str_map_of K t (K e) = Some a" using r(2) str_map_of_iff [OF h(4)] by simp
    then show ?thesis using r(1) Inl by (simp add: str_rb_insert_def)
  next
    case (Inr link)
    have w: "?w = Some (Inr link)" using r(1) Inr by simp
    from str.insert_sorted [OF h(1-3) n e w] obtain h' t' where
      i: "rb_insert_color n e (rb_link_node e link (str_tree m)) = Some (Ok h')" "held h' t'" "good t'"
        "sorted (map K (inorder t'))" "mset (inorder t') = add_mset e (mset (inorder t))" by blast
    have new: "K e \<notin> K ` set (inorder t)" using r(2) Inr by simp
    have st: "set (inorder t') = insert e (set (inorder t))" using arg_cong [OF i(5), of set_mset] by simp
    have "mset (map K (inorder t')) = mset (K e # map K (inorder t))" using i(5) by simp
    then have d: "distinct (map K (inorder t'))"
      using mset_eq_imp_distinct_iff [of "map K (inorder t')" "K e # map K (inorder t)"] h(4) new by simp
    have "str_map_of K t' x = ((str_map_of K t)(K e \<mapsto> e)) x" for x
    proof (cases "((str_map_of K t)(K e \<mapsto> e)) x")
      case None
      then show ?thesis using st by (auto simp: str_map_of_None split: if_splits)
    next
      case (Some a)
      then have "a \<in> set (inorder t') \<and> K a = x"
        using st str_map_of_iff [OF h(4), of x a] by (auto split: if_splits)
      then show ?thesis using Some str_map_of_iff [OF d, of x a] by simp
    qed
    then have "str_map_of K t' = (str_map_of K t)(K e \<mapsto> e)" by (rule ext)
    moreover have "str_map_of K t (K e) = None" using new by (simp add: str_map_of_None)
    ultimately show ?thesis using i w d by (auto simp: str_rb_insert_def Let_def str_holds_def)
  qed
qed

lemma str_rb_delete_ok:
  assumes m: "str_holds K m t" and n: "length (inorder t) \<le> n" and e: "e \<in> set (inorder t)"
  shows "\<exists>m' t'. str_rb_delete n e m = Some (Ok m') \<and> str_holds K m' t' \<and> str_size m' = str_size m - 1 \<and>
    inorder t' = remove1 e (inorder t) \<and> str_map_of K t' = (str_map_of K t)(K e := None)"
proof -
  have h: "held (str_tree m) t" "good t" "sorted (map K (inorder t))" "distinct (map K (inorder t))"
    using m by (auto simp: str_holds_def)
  from rb_erase_ok [OF h(1,2) e n] obtain h' t' where
    r: "rb_erase n e (str_tree m) = Some (Ok h')" "held h' t'" "good t'" "inorder t' = remove1 e (inorder t)" by blast
  have dt: "distinct (inorder t)" using h(1) by (simp add: held_def)
  then have st: "set (inorder t') = set (inorder t) - {e}" using r(4) by simp
  have srt: "sorted (map K (inorder t'))" unfolding r(4) using h(3) by (rule sorted_map_remove1)
  have d: "distinct (map K (inorder t'))" using h(4) st dt r(4) by (auto simp: distinct_map intro: inj_on_diff)
  have "str_map_of K t' x = ((str_map_of K t)(K e := None)) x" for x
  proof (cases "str_map_of K t' x")
    case None
    then have "x \<notin> K ` (set (inorder t) - {e})" by (simp add: str_map_of_None st)
    moreover have "x = K e" if "str_map_of K t x = Some a" for a
      using that calculation str_map_of_iff [OF h(4), of x a] by blast
    ultimately show ?thesis using None by (cases "str_map_of K t x") auto
  next
    case (Some a)
    then have a: "a \<in> set (inorder t)" "a \<noteq> e" "K a = x" using str_map_of_iff [OF d, of x a] st by auto
    then have "K a \<noteq> K e" using h(4) e by (auto simp: distinct_map inj_on_def)
    then show ?thesis using Some a str_map_of_iff [OF h(4), of x a] by auto
  qed
  then have "str_map_of K t' = (str_map_of K t)(K e := None)" by (rule ext)
  with r srt d show ?thesis by (auto simp: str_rb_delete_def str_holds_def)
qed

lemma held_init [simp]: "str_holds K str_rb_init RLeaf"
  by (simp add: str_holds_def str_rb_init_def held_def good_def exI [of _ 0])

text \<open>Erasing an entry that was never inserted and is all zero, as a fresh one is: the tree is gone.\<close>

lemma rb_erase_zeroed:
  "rbn h a = \<lparr>rb_black = False, rb_parent = None, rb_kid = (\<lambda>_. None)\<rparr> \<Longrightarrow>
     rb_erase n a h = Some (Ok (h\<lparr>rb_root := None\<rparr>))"
  by (simp add: rb_erase_def rb_erase_augmented_def rb_change_child_def Let_def)

section \<open>The multimap\<close>

definition i64_holds :: "(nat \<Rightarrow> 64 word) \<Rightarrow> i64_map \<Rightarrow> rtree \<Rightarrow> bool" where
  "i64_holds K m t \<longleftrightarrow> held (i64_tree m) t \<and> good t \<and> sorted (map (\<lambda>a. sint (K a)) (inorder t)) \<and>
     elem_size m = int (length (inorder t))"

lemma i64_rb_insert_ok:
  assumes m: "i64_holds K m t" and n: "rheight t < n" and e: "e \<notin> set (inorder t)"
  shows "\<exists>m' t'. i64_rb_insert K n e m = Some (Ok m') \<and> i64_holds K m' t' \<and>
    mset (inorder t') = add_mset e (mset (inorder t))"
proof -
  have h: "held (i64_tree m) t" "good t" "sorted (map (\<lambda>a. sint (K a)) (inorder t))"
    using m by (auto simp: i64_holds_def)
  let ?w = "rb_walk (\<lambda>a. i64_cmp (sint (K a)) (sint (K e))) n (rb_root (i64_tree m)) None (i64_tree m)"
  from i64.walk_tree [OF h(1,3) n, of "sint (K e)"] obtain r where
    r: "?w = Some r" "i64.walked (\<lambda>a. sint (K a)) (sint (K e)) t (set (inorder t)) r" by blast
  then obtain link where w: "?w = Some (Inr link)"
    by (cases r) (auto simp: i64.walked_def i64_cmp_def split: if_splits)
  from i64.insert_sorted [OF h n e w] obtain h' t' where
    i: "rb_insert_color n e (rb_link_node e link (i64_tree m)) = Some (Ok h')" "held h' t'" "good t'"
      "sorted (map (\<lambda>a. sint (K a)) (inorder t'))" "mset (inorder t') = add_mset e (mset (inorder t))" by blast
  have "length (inorder t') = Suc (length (inorder t))" using arg_cong [OF i(5), of size] by simp
  then show ?thesis using i w m by (auto simp: i64_rb_insert_def Let_def i64_holds_def)
qed

lemma i64_rb_delete_ok:
  assumes m: "i64_holds K m t" and n: "length (inorder t) \<le> n" and e: "e \<in> set (inorder t)"
  shows "\<exists>m' t'. i64_rb_delete n e m = Some (Ok m') \<and> i64_holds K m' t' \<and> inorder t' = remove1 e (inorder t)"
proof -
  have h: "held (i64_tree m) t" "good t" "sorted (map (\<lambda>a. sint (K a)) (inorder t))"
    using m by (auto simp: i64_holds_def)
  from rb_erase_ok [OF h(1,2) e n] obtain h' t' where
    r: "rb_erase n e (i64_tree m) = Some (Ok h')" "held h' t'" "good t'" "inorder t' = remove1 e (inorder t)" by blast
  have "sorted (map (\<lambda>a. sint (K a)) (inorder t'))" unfolding r(4) using h(3) by (rule sorted_map_remove1)
  moreover have "int (length (inorder t')) = int (length (inorder t)) - 1"
    using length_pos_if_in_set [OF e] e by (simp add: r(4) length_remove1 Suc_le_eq)
  ultimately show ?thesis using r m by (auto simp: i64_rb_delete_def i64_holds_def)
qed

lemma i64_min_ok:
  assumes m: "i64_holds K m t" and n: "length (inorder t) \<le> n"
  shows "i64_rb_min n m = Some (case inorder t of [] \<Rightarrow> None | a # _ \<Rightarrow> Some a)"
    "i64_rb_max n m = Some (if t = RLeaf then None else Some (last (inorder t)))"
  using rb_first_ok [OF _ n, of "i64_tree m"] m
  by (auto simp: i64_rb_min_def i64_rb_max_def rb_first_def rb_last_def i64_holds_def)

section \<open>Properties\<close>

text \<open>Uses of a map: operations with their results.\<close>

datatype str_op = SIns nat | SDel nat | SFind "byte list"
datatype str_ans = RIns bool | RDel | RFind "nat option"

fun run_map :: "(nat \<Rightarrow> byte list) \<Rightarrow> nat \<Rightarrow> str_op list \<Rightarrow> str_map \<Rightarrow> (str_ans list \<times> str_map) cres option" where
  "run_map K n [] m = Some (Ok ([], m))"
| "run_map K n (SIns e # ops) m =
     (case str_rb_insert K n e m of
        Some (Ok (b, m)) \<Rightarrow> map_option (\<lambda>r. cbind r (\<lambda>(rs, m). Ok (RIns b # rs, m))) (run_map K n ops m)
      | Some _ \<Rightarrow> Some Undef | None \<Rightarrow> None)"
| "run_map K n (SDel e # ops) m =
     (case str_rb_delete n e m of
        Some (Ok m) \<Rightarrow> map_option (\<lambda>r. cbind r (\<lambda>(rs, m). Ok (RDel # rs, m))) (run_map K n ops m)
      | Some _ \<Rightarrow> Some Undef | None \<Rightarrow> None)"
| "run_map K n (SFind x # ops) m =
     (case str_rb_find K n x m of
        Some r \<Rightarrow> map_option (\<lambda>r'. cbind r' (\<lambda>(rs, m). Ok (RFind r # rs, m))) (run_map K n ops m)
      | None \<Rightarrow> None)"

text \<open>The abstract map. An entry that is in the map is not inserted again, and only such an entry is
  deleted.\<close>

fun abs_map :: "(nat \<Rightarrow> byte list) \<Rightarrow> str_op list \<Rightarrow> (byte list \<rightharpoonup> nat) \<Rightarrow> str_ans list" where
  "abs_map K [] f = []"
| "abs_map K (SIns e # ops) f =
     (if f (K e) = None then RIns True # abs_map K ops (f(K e \<mapsto> e)) else RIns False # abs_map K ops f)"
| "abs_map K (SDel e # ops) f = RDel # abs_map K ops (f(K e := None))"
| "abs_map K (SFind x # ops) f = RFind (f x) # abs_map K ops f"

fun proper :: "(nat \<Rightarrow> byte list) \<Rightarrow> str_op list \<Rightarrow> (byte list \<rightharpoonup> nat) \<Rightarrow> bool" where
  "proper K [] f = True"
| "proper K (SIns e # ops) f \<longleftrightarrow> f (K e) \<noteq> Some e \<and> proper K ops (if f (K e) = None then f(K e \<mapsto> e) else f)"
| "proper K (SDel e # ops) f \<longleftrightarrow> f (K e) = Some e \<and> proper K ops (f(K e := None))"
| "proper K (SFind x # ops) f = proper K ops f"

lemma run_map_ok:
  "str_holds K m t \<Longrightarrow> proper K ops (str_map_of K t) \<Longrightarrow> length (inorder t) + length ops < n \<Longrightarrow>
     \<exists>m' t'. run_map K n ops m = Some (Ok (abs_map K ops (str_map_of K t), m')) \<and> str_holds K m' t' \<and>
       length (inorder t') \<le> length (inorder t) + length ops"
proof (induction ops arbitrary: m t)
  case (Cons a ops)
  have d: "distinct (map K (inorder t))" using Cons.prems(1) by (simp add: str_holds_def)
  show ?case
  proof (cases a)
    case (SIns e)
    then have e: "e \<notin> set (inorder t)" using Cons.prems(2) str_map_of_iff [OF d, of "K e" e] by auto
    have n: "rheight t < n" using Cons.prems(3) height_length [of t] by simp
    note ins = str_rb_insert_ok [OF Cons.prems(1) n e]
    show ?thesis
    proof (cases "str_map_of K t (K e)")
      case None
      with ins obtain m' t' where i: "str_rb_insert K n e m = Some (Ok (True, m'))" "str_holds K m' t'"
        "mset (inorder t') = add_mset e (mset (inorder t))" "str_map_of K t' = (str_map_of K t)(K e \<mapsto> e)" by auto
      have l: "length (inorder t') = Suc (length (inorder t))" using arg_cong [OF i(3), of size] by simp
      moreover have "proper K ops (str_map_of K t')" using Cons.prems(2) SIns None i(4) by simp
      ultimately have "\<exists>m'' t''. run_map K n ops m' = Some (Ok (abs_map K ops (str_map_of K t'), m'')) \<and> str_holds K m'' t'' \<and>
      length (inorder t'') \<le> length (inorder t') + length ops"
        using Cons.prems(3) by (intro Cons.IH [OF i(2)]) auto
      then show ?thesis using SIns None i l by fastforce
    next
      case (Some b)
      let ?m = "m\<lparr>str_size := str_size m + 1\<rparr>"
      have "str_rb_insert K n e m = Some (Ok (False, ?m))" using ins Some by simp
      moreover have "str_holds K ?m t" using Cons.prems(1) by (simp add: str_holds_def)
      then have "\<exists>m'' t''. run_map K n ops ?m = Some (Ok (abs_map K ops (str_map_of K t), m'')) \<and> str_holds K m'' t'' \<and>
      length (inorder t'') \<le> length (inorder t) + length ops"
        using Cons.prems SIns Some by (intro Cons.IH) auto
      ultimately show ?thesis using SIns Some by fastforce
    qed
  next
    case (SDel e)
    then have e: "e \<in> set (inorder t)" using Cons.prems(2) str_map_of_iff [OF d, of "K e" e] by auto
    have n: "length (inorder t) \<le> n" using Cons.prems(3) by simp
    from str_rb_delete_ok [OF Cons.prems(1) n e] obtain m' t' where
      i: "str_rb_delete n e m = Some (Ok m')" "str_holds K m' t'" "inorder t' = remove1 e (inorder t)"
        "str_map_of K t' = (str_map_of K t)(K e := None)" by blast
    have l: "length (inorder t') \<le> length (inorder t)" using i(3) by (simp add: length_remove1)
    moreover have "proper K ops (str_map_of K t')" using Cons.prems(2) SDel i(4) by simp
    ultimately have "\<exists>m'' t''. run_map K n ops m' = Some (Ok (abs_map K ops (str_map_of K t'), m'')) \<and> str_holds K m'' t'' \<and>
      length (inorder t'') \<le> length (inorder t') + length ops"
      using Cons.prems(3) by (intro Cons.IH [OF i(2)]) auto
    then show ?thesis using SDel i l by fastforce
  next
    case (SFind x)
    have "str_rb_find K n x m = Some (str_map_of K t x)" using Cons.prems height_length [of t] by (intro str_rb_find_ok) auto
    moreover have "\<exists>m'' t''. run_map K n ops m = Some (Ok (abs_map K ops (str_map_of K t), m'')) \<and> str_holds K m'' t'' \<and>
      length (inorder t'') \<le> length (inorder t) + length ops"
      using Cons.prems SFind by (intro Cons.IH) auto
    ultimately show ?thesis using SFind by fastforce
  qed
qed auto

text \<open>C10. The string map over red-black trees, pointer surgery, rotations and recolouring included, is
  a map: for any sequence of insertions of entries that are not in it, deletions of entries that
  are and look-ups, every call returns without following a null pointer and with the answer of
  the abstract map.\<close>

theorem str_rb_is_map:
  assumes "proper K ops Map.empty" "length ops < n"
  shows "\<exists>m. run_map K n ops str_rb_init = Some (Ok (abs_map K ops Map.empty, m))"
proof -
  have "str_map_of K RLeaf = Map.empty" by (simp add: str_map_of_def)
  with run_map_ok [OF held_init, of K ops n] assms show ?thesis by auto
qed

theorem str_rb_is_map_witness:
  "\<exists>m. run_map (\<lambda>a. [of_nat a]) 9 [SIns 1, SIns 2, SIns 3, SIns 4, SDel 2, SFind [2], SFind [3]] str_rb_init =
     Some (Ok ([RIns True, RIns True, RIns True, RIns True, RDel, RFind None, RFind (Some 3)], m))"
  using str_rb_is_map [of "\<lambda>a. [of_nat a]" "[SIns 1, SIns 2, SIns 3, SIns 4, SDel 2, SFind [2], SFind [3]]" 9]
  by simp

text \<open>C30. A map with many entries is still fast: whatever insertions, deletions and look-ups led to it,
  no path is longer than twice the binary logarithm of the number of operations plus one, so a
  later look-up, for any key, takes at most that many steps of its loop and one more to end.\<close>

theorem str_rb_find_log:
  assumes "proper K ops Map.empty" "length ops < n" "(Suc (length ops))\<^sup>2 \<le> 2 ^ b"
  shows "\<exists>m. run_map K n ops str_rb_init = Some (Ok (abs_map K ops Map.empty, m)) \<and>
    (\<forall>x. str_rb_find K (Suc b) x m \<noteq> None)"
proof -
  have "str_map_of K RLeaf = Map.empty" by (simp add: str_map_of_def)
  with run_map_ok [OF held_init, of K ops n] assms(1,2) obtain m t where
    m: "run_map K n ops str_rb_init = Some (Ok (abs_map K ops Map.empty, m))" "str_holds K m t"
      "length (inorder t) \<le> length ops" by auto
  have "good t" using m(2) by (simp add: str_holds_def)
  note good_height [OF this]
  also have "(Suc (length (inorder t)))\<^sup>2 \<le> (Suc (length ops))\<^sup>2" using m(3) by (intro power_mono) auto
  also note assms(3)
  finally have "rheight t < Suc b" by (simp add: power_increasing_iff)
  from str_rb_find_ok [OF m(2) this] m(1) show ?thesis by auto
qed

theorem str_rb_find_log_witness:
  "\<exists>m. run_map (\<lambda>a. [of_nat a]) 9 [SIns 1, SIns 2, SIns 3, SDel 2] str_rb_init =
     Some (Ok ([RIns True, RIns True, RIns True, RDel], m)) \<and> (\<forall>x. str_rb_find (\<lambda>a. [of_nat a]) 6 x m \<noteq> None)"
  using str_rb_find_log [of "\<lambda>a. [of_nat a]" "[SIns 1, SIns 2, SIns 3, SDel 2]" 9 5] by (simp add: power2_eq_square)

end
