(* ===== verification/World.thy ===== *)
theory World
  imports Sio SockOpt Sockaddr Arrays Xpoll StrRb
begin

text \<open>
  All sockets of a process: the global state \<open>xgb\<close> of \<^verbatim>\<open>src/src/socket/sockbase.[ch]\<close>, the in-process
  transport (\<^verbatim>\<open>inproc/\<close>), listeners on several addresses (\<^verbatim>\<open>mix/\<close>), TCP and IPC listeners
  (\<^verbatim>\<open>sio/sio_listener.c\<close>), and the calls of the user (\<^verbatim>\<open>bind.c\<close>, \<^verbatim>\<open>listen.c\<close>, \<^verbatim>\<open>connect.c\<close>,
  \<^verbatim>\<open>send.c\<close>, \<^verbatim>\<open>recv.c\<close>, \<^verbatim>\<open>close.c\<close>, \<^verbatim>\<open>setsockopt.c\<close>, \<^verbatim>\<open>getsockopt.c\<close>, \<^verbatim>\<open>poll/eventpoll.c\<close>,
  \<^verbatim>\<open>poll/select.c\<close>). Sockets live at addresses; an address is not used twice. What an operation on
  one socket does to others (its outputs in \<open>Sock\<close>) is delivered here: notifications go to the
  poll entries, wake-ups to a log. There is one event loop.
\<close>

section \<open>State\<close>

text \<open>\<open>struct inproc_sock\<close> has its own count of references and a peer; its registry entry is the node
  at the socket's address. \<open>struct mix_sock\<close> has nothing of its own.\<close>

datatype xsock =
  XInproc sockbase int "nat option"
| XMix sockbase
| XSio sio

fun sock_base :: "xsock \<Rightarrow> sockbase" where
  "sock_base (XInproc sb r p) = sb"
| "sock_base (XMix sb) = sb"
| "sock_base (XSio t) = base t"

fun set_sock_base :: "sockbase \<Rightarrow> xsock \<Rightarrow> xsock" where
  "set_sock_base sb (XInproc sb' r p) = XInproc sb r p"
| "set_sock_base sb (XMix sb') = XMix sb"
| "set_sock_base sb (XSio t) = XSio (t\<lparr>base := sb\<rparr>)"

lemma sock_base_simps [simp]:
  "sock_base (set_sock_base sb x) = sb" "set_sock_base sb (set_sock_base sb' x) = set_sock_base sb x"
  "set_sock_base (sock_base x) x = x"
  by (cases x; simp)+

record world =
  xgb :: "nat tbl"
  socks :: "nat \<Rightarrow> xsock option"
  wnext :: nat
  inproc_listeners :: str_map
  pg :: polls
  wel :: evset
  wkrn :: kern
  wake :: "(nat \<times> sock_out) list"
  removed :: "string list"

text \<open>The environment: what \<open>grants\<close> gives to a connection, whether there is memory for a socket and for a
  poll entry, the capacity of a pipe, and how the library was built.\<close>

record env = grants +
  sock_mem :: bool
  poll_mem :: bool
  pipe_cap :: nat
  have_strndup :: bool

definition PROXYIO_MAX_SOCKS :: nat where "PROXYIO_MAX_SOCKS = 10240"
definition PATH_MAX :: nat where "PATH_MAX = 4096"

text \<open>\<open>__socket_init\<close> and \<open>__poll_init\<close>.\<close>

definition socket_init :: "evset \<Rightarrow> kern \<Rightarrow> world" where
  "socket_init E k =
     \<lparr>xgb = tbl_init PROXYIO_MAX_SOCKS, socks = (\<lambda>_. None), wnext = 0, inproc_listeners = str_rb_init,
      pg = poll_init, wel = E, wkrn = k, wake = [], removed = []\<rparr>"

definition set_sock :: "nat \<Rightarrow> xsock \<Rightarrow> world \<Rightarrow> world" where
  "set_sock a x w = w\<lparr>socks := (socks w)(a := Some x)\<rparr>"

definition upd_sock :: "nat \<Rightarrow> (sockbase \<Rightarrow> sockbase) \<Rightarrow> world \<Rightarrow> world" where
  "upd_sock a f w = w\<lparr>socks := (socks w)(a := map_option (\<lambda>x. set_sock_base (f (sock_base x)) x) (socks w a))\<rparr>"

section \<open>Outputs of one socket\<close>

fun deliver :: "nat \<Rightarrow> sock_out list \<Rightarrow> world \<Rightarrow> world cres" where
  "deliver a [] w = Ok w"
| "deliver a (Emit e h # outs) w =
     cbind (xpollbase_emit e h (pg w)) (\<lambda>(left, P).
       let w = w\<lparr>pg := P\<rparr>
       in deliver a outs
            (if left then upd_sock a (\<lambda>sb. sb\<lparr>poll_entries := remove1 e (poll_entries sb)\<rparr>) w else w))"
| "deliver a (ClosePoll e # outs) w =
     cbind (xpollbase_close e (pg w)) (\<lambda>P. deliver a outs (w\<lparr>pg := P\<rparr>))"
| "deliver a (RcvEv ev # outs) w = deliver a outs w"
| "deliver a (SndEv ev # outs) w = deliver a outs w"
| "deliver a (WakeCond # outs) w = deliver a outs (w\<lparr>wake := wake w @ [(a, WakeCond)]\<rparr>)"
| "deliver a (WakeAccept # outs) w = deliver a outs (w\<lparr>wake := wake w @ [(a, WakeAccept)]\<rparr>)"

text \<open>An operation on a TCP or IPC connection, and one on the base of any socket. The callbacks of the message
  queues of a connection are run by \<open>on_base\<close>; the other sockets have none.\<close>

type_synonym 'a wres = "('a \<times> world) cres option"

definition sio_run :: "nat \<Rightarrow> (sio_st \<Rightarrow> 'a sio_res) \<Rightarrow> world \<Rightarrow> 'a wres" where
  "sio_run a f w =
     (case socks w a of
        Some (XSio t) \<Rightarrow>
          obind (f \<lparr>io = t, el = wel w, krn = wkrn w, log = []\<rparr>) (\<lambda>(r, st).
          obind (Some (deliver a (log st) (set_sock a (XSio (io st)) (w\<lparr>wel := el st, wkrn := krn st\<rparr>)))) (\<lambda>w.
            Some (Ok (r, w))))
      | _ \<Rightarrow> Some Undef)"

definition plain :: "env \<Rightarrow> grants" where
  "plain e = \<lparr>mem = mem e, alloc = alloc e, fuel = fuel e\<rparr>"

definition on_sock :: "env \<Rightarrow> nat \<Rightarrow> (sockbase \<Rightarrow> 'a sock_res) \<Rightarrow> world \<Rightarrow> 'a wres" where
  "on_sock e a f w =
     (case socks w a of
        None \<Rightarrow> Some Undef
      | Some (XSio t) \<Rightarrow> sio_run a (on_base (plain e) f) w
      | Some x \<Rightarrow>
          Some (cbind (f (sock_base x)) (\<lambda>(r, outs, sb).
                cbind (deliver a outs (set_sock a (set_sock_base sb x) w)) (\<lambda>w. Ok (r, w)))))"

section \<open>Descriptors\<close>

text \<open>The \<open>open\<close> of the seven tables; \<open>mem_zalloc\<close> gives zeroed memory, and the count of a listener's
  \<open>struct inproc_sock\<close> is left at zero. A null result is \<open>None\<close>; \<open>salloc\<close> does not test for it.\<close>

definition zero_rex :: rex_sock where
  "zero_rex = \<lparr>ss_fd = 0, ss_family = 0, ss_addr = [], ss_peer = [], ss_flags = 0, ss_vfptr = None\<rparr>"

definition vf_open :: "env \<Rightarrow> vfptr \<Rightarrow> nat \<Rightarrow> xsock option cres" where
  "vf_open e v a =
     (if v = InprocListener then Ok (if sock_mem e then Some (XInproc (sockbase_init v) 0 None) else None)
      else if v = InprocConnector then Ok (if sock_mem e then Some (XInproc (sockbase_init v) 1 None) else None)
      else if v = MixListener then if sock_mem e then Ok (Some (XMix (sockbase_init v))) else Bug
      else if \<not> sock_mem e then Undef
      else if vf_pf v = XAF_TCP
      then cbind (tcp_open (pipe_cap e) v (2 * a) (2 * a + 1) zero_rex) (\<lambda>t. Ok (Some (XSio t)))
      else cbind (ipc_open (pipe_cap e) v (2 * a) (2 * a + 1) zero_rex) (\<lambda>t. Ok (Some (XSio t))))"

text \<open>The zeroed memory of an in-process socket holds its registry entry.\<close>

definition zero_entry :: "nat \<Rightarrow> str_map \<Rightarrow> str_map" where
  "zero_entry a m = m\<lparr>str_tree := upd_node a (\<lambda>_. \<lparr>rb_black = False, rb_parent = None, rb_kid = (\<lambda>_. None)\<rparr>) (str_tree m)\<rparr>"

definition xalloc :: "env \<Rightarrow> int \<Rightarrow> int \<Rightarrow> world \<Rightarrow> ((errno + nat) \<times> world) cres" where
  "xalloc e family socktype w =
     (case sockbase_vfptr_lookup family socktype of
        None \<Rightarrow> Ok (Inl EPROTO, w)
      | Some v \<Rightarrow>
          cbind (vf_open e v (wnext w)) (\<lambda>r.
            case r of
              None \<Rightarrow> Ok (Inl ENOMEM, w)
            | Some x \<Rightarrow>
                cbind (tbl_alloc PROXYIO_MAX_SOCKS (wnext w) (xgb w)) (\<lambda>(fd, t).
                  Ok (Inr fd, set_sock (wnext w)
                         (set_sock_base ((sock_base x)\<lparr>sb_fd := int fd, sb_ref := sb_ref (sock_base x) + 1\<rparr>) x)
                         (w\<lparr>xgb := t, wnext := wnext w + 1,
                            inproc_listeners := (case x of XInproc _ _ _ \<Rightarrow> zero_entry (wnext w) (inproc_listeners w)
                                                 | _ \<Rightarrow> inproc_listeners w)\<rparr>)))))"

text \<open>The table is indexed with the number the user gives: outside of it the read is undefined.\<close>

definition xget :: "int \<Rightarrow> world \<Rightarrow> (nat option \<times> world) cres" where
  "xget fd w =
     (if fd < 0 \<or> fd \<ge> int PROXYIO_MAX_SOCKS then Undef
      else case slots (xgb w) (nat fd) of
             None \<Rightarrow> Ok (None, w)
           | Some a \<Rightarrow>
               cbind (deref (socks w a)) (\<lambda>x.
                 if sb_ref (sock_base x) = 0 then Bug
                 else Ok (Some a, upd_sock a (\<lambda>sb. sb\<lparr>sb_ref := sb_ref sb + 1\<rparr>) w)))"

text \<open>\<open>xput\<close> up to the call of \<open>close\<close>: the socket to close, if this was the last reference.\<close>

definition unref :: "int \<Rightarrow> world \<Rightarrow> (nat option \<times> world) cres" where
  "unref fd w =
     (if fd < 0 \<or> fd \<ge> int PROXYIO_MAX_SOCKS then Undef
      else case slots (xgb w) (nat fd) of
             None \<Rightarrow> Undef
           | Some a \<Rightarrow>
               cbind (deref (socks w a)) (\<lambda>x.
                 let w' = upd_sock a (\<lambda>sb. sb\<lparr>sb_ref := sb_ref sb - 1\<rparr>) w
                 in if sb_ref (sock_base x) = 1
                    then Ok (Some a, w'\<lparr>xgb := tbl_free (nat (sb_fd (sock_base x))) (xgb w)\<rparr>)
                    else Ok (None, w')))"

section \<open>The registry of in-process listeners\<close>

definition key_of :: "string \<Rightarrow> byte list" where
  "key_of s = map of_char s"

text \<open>The key of an entry is the address string of its socket. The trees are no higher than there are
  addresses, so \<open>Suc (wnext w)\<close> is fuel enough.\<close>

definition entry_key :: "world \<Rightarrow> nat \<Rightarrow> byte list" where
  "entry_key w a = (case socks w a of None \<Rightarrow> [] | Some x \<Rightarrow> key_of (sb_addr (sock_base x)))"

definition getlistener :: "string \<Rightarrow> world \<Rightarrow> nat option wres" where
  "getlistener addr w =
     (case str_rb_find (entry_key w) (Suc (wnext w)) (key_of addr) (inproc_listeners w) of
        None \<Rightarrow> None
      | Some None \<Rightarrow> Some (Ok (None, w))
      | Some (Some a) \<Rightarrow>
          Some (cbind (deref (socks w a)) (\<lambda>x.
            if epipe (sock_base x) then Ok (None, w)
            else Ok (Some a, upd_sock a (\<lambda>sb. sb\<lparr>sb_ref := sb_ref sb + 1\<rparr>) w))))"

text \<open>\<open>True\<close> is \<open>0\<close>.\<close>

definition addlistener :: "nat \<Rightarrow> world \<Rightarrow> bool wres" where
  "addlistener a w =
     (case str_rb_find (entry_key w) (Suc (wnext w)) (entry_key w a) (inproc_listeners w) of
        None \<Rightarrow> None
      | Some (Some _) \<Rightarrow> Some (Ok (False, w))
      | Some None \<Rightarrow>
          obind (str_rb_insert (entry_key w) (Suc (wnext w)) a (inproc_listeners w)) (\<lambda>(_, m).
            Some (Ok (True, w\<lparr>inproc_listeners := m\<rparr>))))"

definition rmlistener :: "nat \<Rightarrow> world \<Rightarrow> world cres option" where
  "rmlistener a w =
     obind (str_rb_delete (Suc (wnext w)) a (inproc_listeners w)) (\<lambda>m. Some (Ok (w\<lparr>inproc_listeners := m\<rparr>)))"

section \<open>Closing\<close>

text \<open>\<open>sockbase_exit\<close> and the \<open>mem_free\<close> after it.\<close>

definition exit_free :: "nat \<Rightarrow> world \<Rightarrow> world cres" where
  "exit_free a w =
     cbind (deref (socks w a)) (\<lambda>x. cbind (sockbase_exit (sock_base x)) (\<lambda>_.
       Ok (w\<lparr>socks := (socks w)(a := None)\<rparr>)))"

text \<open>One reference of \<open>struct inproc_sock\<close> less.\<close>

definition inproc_drop :: "nat \<Rightarrow> world \<Rightarrow> world cres" where
  "inproc_drop a w =
     (case socks w a of
        Some (XInproc sb r p) \<Rightarrow> if r = 1 then exit_free a w else Ok (set_sock a (XInproc sb (r - 1) p) w)
      | _ \<Rightarrow> Undef)"

definition inproc_peer_close :: "nat \<Rightarrow> world \<Rightarrow> world cres" where
  "inproc_peer_close b w =
     cbind (deref (socks w b)) (\<lambda>x.
       inproc_drop b (if waiters (rcv (sock_base x)) \<noteq> 0 \<or> waiters (snd (sock_base x)) \<noteq> 0
                      then w\<lparr>wake := wake w @ [(b, WakeCond)]\<rparr> else w))"

definition inproc_connector_close :: "nat \<Rightarrow> world \<Rightarrow> world cres" where
  "inproc_connector_close a w =
     (case socks w a of
        Some (XInproc sb r p) \<Rightarrow>
          cbind (case p of None \<Rightarrow> Ok w | Some b \<Rightarrow> inproc_peer_close b w) (inproc_drop a)
      | _ \<Rightarrow> Undef)"

definition sio_detach :: "sio_st \<Rightarrow> unit sio_res" where
  "sio_detach st =
     obind (Some (must_ctl EV_DEL (et (io st)) st)) (\<lambda>st.
     obind (Some (rex_sock_destroy (rs (io st)) (krn st))) (\<lambda>(r, k).
       Some (Ok ((), upd_io (\<lambda>t. t\<lparr>rs := r\<rparr>) (st\<lparr>krn := k\<rparr>)))))"

text \<open>Closing a listener closes the connections that wait in its queue, and closing a mix listener its parts,
  so \<open>xput\<close>, \<open>__xclose\<close> (here \<open>xclose_at\<close>) and \<open>xclose\<close> call the \<open>close\<close> of the tables, and that
  calls them. They are written over the close function \<open>cl\<close>, and \<open>vf_close\<close> ties the knot; its
  fuel bounds the depth of the calls and each of the loops.\<close>

type_synonym closer = "nat \<Rightarrow> world \<Rightarrow> world cres option"

definition xput_by :: "closer \<Rightarrow> int \<Rightarrow> world \<Rightarrow> world cres option" where
  "xput_by cl fd w =
     obind (Some (unref fd w)) (\<lambda>(r, w). case r of None \<Rightarrow> Some (Ok w) | Some a \<Rightarrow> cl a w)"

definition xclose_at_by :: "closer \<Rightarrow> env \<Rightarrow> nat \<Rightarrow> world \<Rightarrow> world cres option" where
  "xclose_at_by cl e a w =
     obind (on_sock e a xclose_sock w) (\<lambda>(_, w).
     obind (Some (deref (socks w a))) (\<lambda>x. xput_by cl (sb_fd (sock_base x)) w))"

definition xclose_by :: "closer \<Rightarrow> env \<Rightarrow> int \<Rightarrow> world \<Rightarrow> (errno + unit) wres" where
  "xclose_by cl e fd w =
     obind (Some (xget fd w)) (\<lambda>(r, w).
       case r of
         None \<Rightarrow> Some (Ok (Inl EBADF, w))
       | Some a \<Rightarrow> obind (xclose_at_by cl e a w) (\<lambda>w. obind (xput_by cl fd w) (\<lambda>w. Some (Ok (Inr (), w)))))"

text \<open>The loop over the accept queue, and the one over the parts of a mix listener; \<open>disown\<close> says whether it
  resets their \<open>owner\<close>.\<close>

fun drain_by :: "closer \<Rightarrow> nat \<Rightarrow> env \<Rightarrow> nat \<Rightarrow> world \<Rightarrow> world cres option" where
  "drain_by cl 0 e a w = None"
| "drain_by cl (Suc n) e a w =
     obind (Some (deref (socks w a))) (\<lambda>x.
       case acceptq_rm_nohup (sock_base x) of
         (None, _) \<Rightarrow> Some (Ok w)
       | (Some b, sb) \<Rightarrow> obind (xclose_at_by cl e b (set_sock a (set_sock_base sb x) w)) (drain_by cl n e a))"

fun drop_subs_by :: "closer \<Rightarrow> nat \<Rightarrow> env \<Rightarrow> bool \<Rightarrow> nat \<Rightarrow> world \<Rightarrow> world cres option" where
  "drop_subs_by cl 0 e disown a w = None"
| "drop_subs_by cl (Suc n) e disown a w =
     obind (Some (deref (socks w a))) (\<lambda>x.
       case sub_socks (sock_base x) of
         [] \<Rightarrow> Some (Ok w)
       | c # cs \<Rightarrow>
           let w = upd_sock c (\<lambda>sb. sb\<lparr>owner := (if disown then None else owner sb), sib_link := False\<rparr>)
                     (upd_sock a (\<lambda>sb. sb\<lparr>sub_socks := cs\<rparr>) w)
           in obind (Some (deref (socks w c))) (\<lambda>y.
              obind (xclose_by cl e (sb_fd (sock_base y)) w) (\<lambda>(_, w). drop_subs_by cl n e disown a w)))"

definition inproc_listener_close :: "closer \<Rightarrow> nat \<Rightarrow> env \<Rightarrow> nat \<Rightarrow> string \<Rightarrow> world \<Rightarrow> world cres option" where
  "inproc_listener_close cl n e a addr w =
     obind (rmlistener a w) (\<lambda>w.
     obind (drain_by cl n e a (w\<lparr>removed := removed w @ [addr]\<rparr>)) (\<lambda>w. Some (exit_free a w)))"

definition mix_listener_close :: "closer \<Rightarrow> nat \<Rightarrow> env \<Rightarrow> nat \<Rightarrow> world \<Rightarrow> world cres option" where
  "mix_listener_close cl n e a w =
     obind (drop_subs_by cl n e True a w) (\<lambda>w. obind (drain_by cl n e a w) (\<lambda>w. Some (exit_free a w)))"

definition sio_listener_close :: "closer \<Rightarrow> nat \<Rightarrow> env \<Rightarrow> nat \<Rightarrow> bool \<Rightarrow> world \<Rightarrow> world cres option" where
  "sio_listener_close cl n e a bound w =
     obind (if bound then obind (sio_run a sio_detach w) (\<lambda>(_, w). drain_by cl n e a w) else Some (Ok w))
       (\<lambda>w. Some (exit_free a w))"

primrec vf_close :: "nat \<Rightarrow> env \<Rightarrow> closer" where
  "vf_close 0 e = (\<lambda>a w. None)"
| "vf_close (Suc n) e = (\<lambda>a w.
     case socks w a of
       None \<Rightarrow> Some Undef
     | Some (XInproc sb r p) \<Rightarrow>
         if vfp sb = InprocListener then inproc_listener_close (vf_close n e) n e a (sb_addr sb) w
         else Some (inproc_connector_close a w)
     | Some (XMix sb) \<Rightarrow> mix_listener_close (vf_close n e) n e a w
     | Some (XSio t) \<Rightarrow>
         if vf_type (vfp (base t)) = XLISTENER then sio_listener_close (vf_close n e) n e a (binded t) w
         else obind (sio_run a (sio_connector_close (plain e)) w) (\<lambda>(_, w).
                Some (Ok (w\<lparr>socks := (socks w)(a := None)\<rparr>))))"

abbreviation xput :: "nat \<Rightarrow> env \<Rightarrow> int \<Rightarrow> world \<Rightarrow> world cres option" where
  "xput n e \<equiv> xput_by (vf_close n e)"

abbreviation xclose_at :: "nat \<Rightarrow> env \<Rightarrow> nat \<Rightarrow> world \<Rightarrow> world cres option" where
  "xclose_at n e \<equiv> xclose_at_by (vf_close n e) e"

abbreviation xclose :: "nat \<Rightarrow> env \<Rightarrow> int \<Rightarrow> world \<Rightarrow> (errno + unit) wres" where
  "xclose n e \<equiv> xclose_by (vf_close n e) e"

abbreviation drop_subs :: "nat \<Rightarrow> env \<Rightarrow> bool \<Rightarrow> nat \<Rightarrow> world \<Rightarrow> world cres option" where
  "drop_subs n e \<equiv> drop_subs_by (vf_close n e) n e"

section \<open>The accept queue\<close>

text \<open>\<open>acceptq_add\<close> goes to the end of the chain of owners, which is no longer than there are addresses.\<close>

fun root_owner :: "nat \<Rightarrow> nat \<Rightarrow> world \<Rightarrow> nat cres option" where
  "root_owner 0 a w = None"
| "root_owner (Suc n) a w =
     obind (Some (deref (socks w a))) (\<lambda>x.
       case owner (sock_base x) of None \<Rightarrow> Some (Ok a) | Some b \<Rightarrow> root_owner n b w)"

definition queue_accepted :: "env \<Rightarrow> nat \<Rightarrow> nat \<Rightarrow> world \<Rightarrow> world cres option" where
  "queue_accepted e a new w =
     obind (root_owner (Suc (wnext w)) a w) (\<lambda>l.
     obind (on_sock e l (\<lambda>sb. acceptq_add sb new) w) (\<lambda>(_, w). Some (Ok w)))"

text \<open>The loop of \<open>mix_listener_bind\<close> that takes over what a part \<open>c\<close> has accepted so far.\<close>

fun move_accepted :: "env \<Rightarrow> nat \<Rightarrow> nat \<Rightarrow> nat list \<Rightarrow> world \<Rightarrow> world cres option" where
  "move_accepted e c a [] w = Some (Ok w)"
| "move_accepted e c a (new # q) w =
     obind (queue_accepted e a new (upd_sock c (\<lambda>sb. sb\<lparr>acceptq := q\<rparr>) w)) (move_accepted e c a q)"

section \<open>Binding\<close>

definition set_inproc :: "nat \<Rightarrow> nat \<Rightarrow> xsock \<Rightarrow> xsock cres" where
  "set_inproc peer r x = (case x of XInproc sb r' p \<Rightarrow> Ok (XInproc sb (r' + int r) (Some peer)) | _ \<Rightarrow> Undef)"

text \<open>\<open>inproc_connector_bind\<close>; \<open>acceptq_add\<close> returns \<open>0\<close>, so its error branch is not reached.\<close>

definition inproc_connector_bind :: "nat \<Rightarrow> env \<Rightarrow> nat \<Rightarrow> string \<Rightarrow> world \<Rightarrow> (errno + unit) wres" where
  "inproc_connector_bind n e a sock w =
     obind (getlistener sock w) (\<lambda>(l, w).
       case l of
         None \<Rightarrow> Some (Ok (Inl ECONNREFUSED, w))
       | Some l \<Rightarrow>
           obind (Some (deref (socks w a))) (\<lambda>x.
           obind (Some (deref (socks w l))) (\<lambda>y.
           let v = vfp (sock_base x); lfd = sb_fd (sock_base y)
           in obind (Some (xalloc e (vf_pf v) (vf_type v) w)) (\<lambda>(r, w).
             case r of
               Inl _ \<Rightarrow> obind (xput n e lfd w) (\<lambda>w. Some (Ok (Inl EMFILE, w)))
             | Inr nfd \<Rightarrow>
                 obind (Some (deref (slots (xgb w) nfd))) (\<lambda>b.
                 let w = upd_sock b (\<lambda>sb. sb\<lparr>vfp := v, sb_addr := sock\<rparr>)
                           (upd_sock a (\<lambda>sb. sb\<lparr>sb_peer := sock\<rparr>) w)
                 in obind (Some (cbind (deref (socks w a)) (set_inproc b 1))) (\<lambda>xa.
                    obind (Some (cbind (deref (socks w b)) (set_inproc a 1))) (\<lambda>xb.
                    obind (queue_accepted e l b (set_sock b xb (set_sock a xa w))) (\<lambda>w.
                    obind (xput n e lfd w) (\<lambda>w. Some (Ok (Inr (), w))))))))))) "

definition inproc_listener_bind :: "nat \<Rightarrow> string \<Rightarrow> world \<Rightarrow> (errno + unit) wres" where
  "inproc_listener_bind a sock w =
     obind (addlistener a (upd_sock a (\<lambda>sb. sb\<lparr>sb_addr := sock\<rparr>) w)) (\<lambda>(ok, w).
       Some (Ok (if ok then Inr () else Inl EADDRINUSE, w)))"

definition sio_listener_bind :: "string \<Rightarrow> sio_st \<Rightarrow> ((errno + unit) \<times> sio_st) cres" where
  "sio_listener_bind sock st =
     cbind (rex_sock_listen (rs (io st)) sock (krn st)) (\<lambda>(r, k).
       case r of
         Inl er \<Rightarrow> Ok (Inl er, st\<lparr>krn := k\<rparr>)
       | Inr r \<Rightarrow>
           let st = upd_io (\<lambda>t. t\<lparr>rs := r, base := (base t)\<lparr>sb_addr := sock\<rparr>\<rparr>) (st\<lparr>krn := k\<rparr>)
           in cbind (rex_sock_setopt (rs (io st)) REX_SO_NOBLOCK 1 (krn st)) (\<lambda>(_, k).
                cbind (must_ctl EV_ADD (et (io st)) (st\<lparr>krn := k, el := init_et st\<rparr>)) (\<lambda>st.
                  Ok (Inr (), upd_io (\<lambda>t. t\<lparr>binded := True\<rparr>) st))))"

text \<open>\<open>xlisten\<close> and \<open>xbind\<close> call the \<open>bind\<close> of the tables, and that of a mix listener calls \<open>xlisten\<close> for
  each of its parts. They are written over the listen function \<open>ls\<close>. After a failure the error is
  the one that led to it; what closing does to \<open>errno\<close> is left out.\<close>

fun bind_parts :: "(string \<Rightarrow> world \<Rightarrow> (errno + nat) wres) \<Rightarrow> nat \<Rightarrow> env \<Rightarrow> nat \<Rightarrow> string list \<Rightarrow> world \<Rightarrow>
    (errno + unit) wres" where
  "bind_parts ls n e a [] w = Some (Ok (Inr (), w))"
| "bind_parts ls n e a (s # ss) w =
     obind (ls s w) (\<lambda>(r, w).
       case r of
         Inl er \<Rightarrow> obind (drop_subs n e False a w) (\<lambda>w. Some (Ok (Inl er, w)))
       | Inr cfd \<Rightarrow>
           obind (Some (xget (int cfd) w)) (\<lambda>(r, w).
             case r of
               None \<Rightarrow> obind (drop_subs n e False a w) (\<lambda>w. Some (Ok (Inl ENONE, w)))
             | Some c \<Rightarrow>
                 let w = upd_sock c (\<lambda>sb. sb\<lparr>sib_link := True, owner := Some a\<rparr>)
                           (upd_sock a (\<lambda>sb. sb\<lparr>sub_socks := sub_socks sb @ [c]\<rparr>) w)
                 in obind (Some (deref (socks w c))) (\<lambda>y.
                    obind (move_accepted e c a (acceptq (sock_base y)) w) (\<lambda>w.
                    obind (xput n e (int cfd) w) (bind_parts ls n e a ss)))))"

definition mix_listener_bind :: "(string \<Rightarrow> world \<Rightarrow> (errno + nat) wres) \<Rightarrow> nat \<Rightarrow> env \<Rightarrow> nat \<Rightarrow> string \<Rightarrow>
    world \<Rightarrow> (errno + unit) wres" where
  "mix_listener_bind ls n e a sock w =
     obind (Some (str_array_init (alloc e))) (\<lambda>arr.
     obind (str_split (alloc e) (Suc (length sock)) sock arr ''+'') (\<lambda>arr.
       bind_parts ls n e a (sa_list arr) w))"

definition vf_bind :: "(string \<Rightarrow> world \<Rightarrow> (errno + nat) wres) \<Rightarrow> nat \<Rightarrow> env \<Rightarrow> nat \<Rightarrow> string \<Rightarrow> world \<Rightarrow>
    (errno + unit) wres" where
  "vf_bind ls n e a sock w =
     (case socks w a of
        None \<Rightarrow> Some Undef
      | Some (XInproc sb r p) \<Rightarrow>
          if vfp sb = InprocListener then inproc_listener_bind a sock w else inproc_connector_bind n e a sock w
      | Some (XMix sb) \<Rightarrow> mix_listener_bind ls n e a sock w
      | Some (XSio t) \<Rightarrow>
          sio_run a (\<lambda>st. Some (if vf_type (vfp (base t)) = XLISTENER then sio_listener_bind sock st
                                else sio_connector_bind sock st)) w)"

definition xbind_by :: "(string \<Rightarrow> world \<Rightarrow> (errno + nat) wres) \<Rightarrow> nat \<Rightarrow> env \<Rightarrow> int \<Rightarrow> string \<Rightarrow> world \<Rightarrow>
    (errno + unit) wres" where
  "xbind_by ls n e fd addr w =
     obind (Some (xget fd w)) (\<lambda>(r, w).
       case r of
         None \<Rightarrow> Some (Ok (Inl EBADF, w))
       | Some a \<Rightarrow>
           if PATH_MAX \<le> length addr then obind (xput n e fd w) (\<lambda>w. Some (Ok (Inl EINVAL, w)))
           else obind (vf_bind ls n e a addr w) (\<lambda>(r, w).
                obind (xput n e fd w) (\<lambda>w. Some (Ok (r, w)))))"

primrec xlisten :: "nat \<Rightarrow> env \<Rightarrow> string \<Rightarrow> world \<Rightarrow> (errno + nat) wres" where
  "xlisten 0 e = (\<lambda>addr w. None)"
| "xlisten (Suc n) e = (\<lambda>addr w.
     case (sockaddr_pf (have_strndup e) addr, sockaddr_addr addr PATH_MAX) of
       (Ok pf, Ok sockaddr) \<Rightarrow>
         obind (Some (xalloc e pf XLISTENER w)) (\<lambda>(r, w).
           case r of
             Inl er \<Rightarrow> Some (Ok (Inl er, w))
           | Inr fd \<Rightarrow>
               obind (xbind_by (xlisten n e) n e (int fd) sockaddr w) (\<lambda>(r, w).
                 case r of
                   Inr _ \<Rightarrow> Some (Ok (Inr fd, w))
                 | Inl er \<Rightarrow> obind (xclose n e (int fd) w) (\<lambda>(_, w). Some (Ok (Inl er, w)))))
     | _ \<Rightarrow> Some (Ok (Inl EPROTO, w)))"

definition xconnect :: "nat \<Rightarrow> env \<Rightarrow> string \<Rightarrow> world \<Rightarrow> (errno + nat) wres" where
  "xconnect n e peer w =
     (case (sockaddr_pf (have_strndup e) peer, sockaddr_addr peer PATH_MAX) of
        (Ok pf, Ok sockaddr) \<Rightarrow>
          obind (Some (xalloc e pf XCONNECTOR w)) (\<lambda>(r, w).
            case r of
              Inl er \<Rightarrow> Some (Ok (Inl er, w))
            | Inr fd \<Rightarrow>
                obind (xbind_by (xlisten n e) n e (int fd) sockaddr w) (\<lambda>(r, w).
                  case r of
                    Inr _ \<Rightarrow> Some (Ok (Inr fd, w))
                  | Inl er \<Rightarrow> obind (xclose n e (int fd) w) (\<lambda>(_, w). Some (Ok (Inl er, w)))))
      | _ \<Rightarrow> Some (Ok (Inl EINVAL, w)))"

section \<open>Calls on a socket\<close>

text \<open>A call first takes a reference with \<open>xget\<close>. One that has slept goes on with the socket it has.\<close>

definition enter :: "bool \<Rightarrow> int \<Rightarrow> world \<Rightarrow> (nat option \<times> world) cres" where
  "enter resumed fd w = (if resumed then Ok (slots (xgb w) (nat fd), w) else xget fd w)"

text \<open>The end of a call that may have gone to sleep: awake, it gives the reference back.\<close>

definition leave :: "nat \<Rightarrow> env \<Rightarrow> int \<Rightarrow> 'a wait \<Rightarrow> world \<Rightarrow> 'a wait wres" where
  "leave n e fd r w =
     (case r of Blocked \<Rightarrow> Some (Ok (Blocked, w)) | Done x \<Rightarrow> obind (xput n e fd w) (\<lambda>w. Some (Ok (Done x, w))))"

definition xaccept :: "bool \<Rightarrow> nat \<Rightarrow> env \<Rightarrow> int \<Rightarrow> world \<Rightarrow> (errno + int) wait wres" where
  "xaccept resumed n e fd w =
     obind (Some (enter resumed fd w)) (\<lambda>(r, w).
       case r of
         None \<Rightarrow> Some (Ok (Done (Inl EBADF), w))
       | Some a \<Rightarrow>
           obind (on_sock e a (acceptq_rm resumed) w) (\<lambda>(r, w).
           obind (leave n e fd r w) (\<lambda>(r, w).
             case r of
               Blocked \<Rightarrow> Some (Ok (Blocked, w))
             | Done None \<Rightarrow> Some (Ok (Done (Inl EAGAIN), w))
             | Done (Some new) \<Rightarrow>
                 obind (Some (deref (socks w new))) (\<lambda>x. Some (Ok (Done (Inr (sb_fd (sock_base x))), w))))))"

definition xrecv :: "bool \<Rightarrow> nat \<Rightarrow> env \<Rightarrow> int \<Rightarrow> world \<Rightarrow> (errno + msgbuf) wait wres" where
  "xrecv resumed n e fd w =
     obind (Some (enter resumed fd w)) (\<lambda>(r, w).
       case r of
         None \<Rightarrow> Some (Ok (Done (Inl EBADF), w))
       | Some a \<Rightarrow>
           obind (Some (deref (socks w a))) (\<lambda>x.
             if \<not> vf_recv (vfp (sock_base x)) then leave n e fd (Done (Inl EINVAL)) w
             else obind (on_sock e a (xgeneric_recv resumed) w) (\<lambda>(r, w). leave n e fd r w)))"

definition inproc_send :: "env \<Rightarrow> nat option \<Rightarrow> msgbuf \<Rightarrow> world \<Rightarrow> (errno + unit) wait wres" where
  "inproc_send e peer msg w =
     obind (Some (deref peer)) (\<lambda>b.
     obind (on_sock e b (\<lambda>sb. rcv_msgbuf_head_add sb msg) w) (\<lambda>(_, w). Some (Ok (Done (Inr ()), w))))"

definition vf_send_msg :: "bool \<Rightarrow> env \<Rightarrow> nat \<Rightarrow> msgbuf \<Rightarrow> world \<Rightarrow> (errno + unit) wait wres" where
  "vf_send_msg resumed e a msg w =
     (case socks w a of
        Some (XInproc sb r p) \<Rightarrow> inproc_send e p msg w
      | Some (XSio t) \<Rightarrow>
          obind (sio_run a (sio_connector_send (plain e) resumed msg) w) (\<lambda>(r, w).
            Some (Ok (case r of Blocked \<Rightarrow> Blocked | Done _ \<Rightarrow> Done (Inr ()), w)))
      | _ \<Rightarrow> Some Undef)"

definition xsend :: "bool \<Rightarrow> nat \<Rightarrow> env \<Rightarrow> int \<Rightarrow> msgbuf \<Rightarrow> world \<Rightarrow> (errno + unit) wait wres" where
  "xsend resumed n e fd msg w =
     obind (Some (enter resumed fd w)) (\<lambda>(r, w).
       case r of
         None \<Rightarrow> Some (Ok (Done (Inl EBADF), w))
       | Some a \<Rightarrow>
           obind (Some (deref (socks w a))) (\<lambda>x.
             if \<not> vf_send (vfp (sock_base x)) then leave n e fd (Done (Inl EINVAL)) w
             else obind (vf_send_msg resumed e a msg w) (\<lambda>(r, w). leave n e fd r w)))"

definition vf_setopt :: "xsock \<Rightarrow> int \<Rightarrow> i32 \<Rightarrow> kern \<Rightarrow> ((errno + sockbase) \<times> kern) cres" where
  "vf_setopt x opt v k =
     (case x of
        XInproc sb r p \<Rightarrow> Ok (inproc_setopt sb opt v, k)
      | XMix sb \<Rightarrow> Ok (mix_setopt sb opt v, k)
      | XSio t \<Rightarrow> sio_setopt (base t) (rs t) opt v k)"

definition xsetopt :: "nat \<Rightarrow> env \<Rightarrow> int \<Rightarrow> int \<Rightarrow> i32 \<Rightarrow> world \<Rightarrow> (errno + unit) wres" where
  "xsetopt n e fd opt v w =
     obind (Some (xget fd w)) (\<lambda>(r, w).
       case r of
         None \<Rightarrow> Some (Ok (Inl EBADF, w))
       | Some a \<Rightarrow>
           obind (Some (deref (socks w a))) (\<lambda>x.
           obind (Some (vf_setopt x opt v (wkrn w))) (\<lambda>(r, k).
           let w = w\<lparr>wkrn := k\<rparr>;
               w = (case r of Inl _ \<Rightarrow> w | Inr sb \<Rightarrow> set_sock a (set_sock_base sb x) w)
           in obind (xput n e fd w) (\<lambda>w. Some (Ok (case r of Inl er \<Rightarrow> Inl er | Inr _ \<Rightarrow> Inr (), w))))))"

definition vf_getopt :: "xsock \<Rightarrow> int \<Rightarrow> kern \<Rightarrow> ((errno + rexval) \<times> kern) cres" where
  "vf_getopt x opt k =
     (case x of
        XInproc sb r p \<Rightarrow> Ok (inproc_getopt sb opt, k)
      | XMix sb \<Rightarrow> Ok (mix_getopt sb opt, k)
      | XSio t \<Rightarrow> sio_getopt (base t) (rs t) opt k)"

definition xgetopt :: "nat \<Rightarrow> env \<Rightarrow> int \<Rightarrow> int \<Rightarrow> world \<Rightarrow> (errno + rexval) wres" where
  "xgetopt n e fd opt w =
     obind (Some (xget fd w)) (\<lambda>(r, w).
       case r of
         None \<Rightarrow> Some (Ok (Inl EBADF, w))
       | Some a \<Rightarrow>
           obind (Some (deref (socks w a))) (\<lambda>x.
           obind (Some (vf_getopt x opt (wkrn w))) (\<lambda>(r, k).
           obind (xput n e fd (w\<lparr>wkrn := k\<rparr>)) (\<lambda>w. Some (Ok (r, w))))))"

section \<open>Events of the loop\<close>

text \<open>\<open>sio_listener_hndl\<close>: a failed \<open>xalloc\<close> leaves \<open>-1\<close>, with which the table is indexed.\<close>

definition accept_into :: "nat \<Rightarrow> nat \<Rightarrow> world \<Rightarrow> (errno + unit) wres" where
  "accept_into a b w =
     (case (socks w a, socks w b) of
        (Some (XSio t), Some (XSio t')) \<Rightarrow>
          Some (cbind (rex_sock_accept (rs t) (rs t') (wkrn w)) (\<lambda>(r, k).
            let w = w\<lparr>wkrn := k\<rparr>
            in case r of
                 Inl er \<Rightarrow> Ok (Inl er, w)
               | Inr s \<Rightarrow> Ok (Inr (), set_sock b (XSio (t'\<lparr>rs := s\<rparr>)) w)))
      | _ \<Rightarrow> Some Undef)"

definition sio_attach :: "sio_st \<Rightarrow> unit sio_res" where
  "sio_attach st =
     Some (cbind (sio_init st) (\<lambda>st. cbind (must_ctl EV_ADD (et (io st)) st) (\<lambda>st.
           cbind (must_sighndl st) (\<lambda>st. Ok ((), upd_io (\<lambda>t. t\<lparr>binded := True\<rparr>) st)))))"

definition sio_listener_hndl :: "nat \<Rightarrow> env \<Rightarrow> nat \<Rightarrow> world \<Rightarrow> world cres option" where
  "sio_listener_hndl n e a w =
     obind (Some (deref (socks w a))) (\<lambda>x.
     obind (Some (xalloc e (vf_pf (vfp (sock_base x))) XCONNECTOR w)) (\<lambda>(r, w).
       case r of
         Inl _ \<Rightarrow> Some Undef
       | Inr nfd \<Rightarrow>
           obind (Some (deref (slots (xgb w) nfd))) (\<lambda>b.
           obind (accept_into a b w) (\<lambda>(r, w).
             case r of
               Inl er \<Rightarrow>
                 xclose_at n e b
                   (if er = EAGAIN then w
                    else upd_sock a (\<lambda>sb. sb\<lparr>epipe := True\<rparr>)
                      (if aq_waiters (sock_base x) \<noteq> 0 then w\<lparr>wake := wake w @ [(a, WakeAccept)]\<rparr> else w))
             | Inr _ \<Rightarrow> obind (sio_run b sio_attach w) (\<lambda>(_, w). queue_accepted e a b w)))))"

text \<open>What the loop does when a descriptor is ready, and when a signal has come in.\<close>

definition sio_event :: "nat \<Rightarrow> env \<Rightarrow> nat \<Rightarrow> u32 \<Rightarrow> world \<Rightarrow> world cres option" where
  "sio_event n e a events w =
     obind (Some (deref (socks w a))) (\<lambda>x.
       if vf_type (vfp (sock_base x)) = XLISTENER then sio_listener_hndl n e a w
       else obind (sio_run a (\<lambda>st. obind (sio_connector_hndl (plain e) events st) (\<lambda>st. Some (Ok ((), st)))) w)
              (\<lambda>(_, w). Some (Ok w)))"

definition sio_signal :: "env \<Rightarrow> nat \<Rightarrow> i32 \<Rightarrow> world \<Rightarrow> world cres option" where
  "sio_signal e a ev w =
     obind (sio_run a (\<lambda>st. obind (sio_usignal_hndl (plain e) ev st) (\<lambda>st. Some (Ok ((), st)))) w)
       (\<lambda>(_, w). Some (Ok w))"

section \<open>Poll sets\<close>

definition set_pollfd :: "nat \<Rightarrow> poll_fd \<Rightarrow> polls \<Rightarrow> polls cres" where
  "set_pollfd en f P = cbind (deref (ens P en)) (\<lambda>x. Ok (set_ent en (x\<lparr>pollfd := f\<rparr>) P))"

text \<open>\<open>add_pollbase\<close> of \<^verbatim>\<open>sockbase.h\<close>, with its own reference.\<close>

definition link_pollbase :: "nat \<Rightarrow> env \<Rightarrow> int \<Rightarrow> nat \<Rightarrow> world \<Rightarrow> (errno + unit) wres" where
  "link_pollbase n e fd en w =
     obind (Some (xget fd w)) (\<lambda>(r, w).
       case r of
         None \<Rightarrow> Some (Ok (Inl EBADF, w))
       | Some a \<Rightarrow>
           obind (Some (deref (ens (pg w) en))) (\<lambda>x.
           obind (Some (deref (socks w a))) (\<lambda>y.
           obind (Some (add_pollbase (link_attached x) (sock_base y) en)) (\<lambda>sb.
           obind (xput n e fd (set_sock a (set_sock_base sb y)
                    (w\<lparr>pg := set_ent en (x\<lparr>link_attached := True\<rparr>) (pg w)\<rparr>))) (\<lambda>w.
             Some (Ok (Inr (), w)))))))"

definition w_emit :: "env \<Rightarrow> nat \<Rightarrow> world \<Rightarrow> world cres option" where
  "w_emit e a w = obind (on_sock e a (emitting () []) w) (\<lambda>(_, w). Some (Ok w))"

definition xpoll_add :: "nat \<Rightarrow> env \<Rightarrow> nat \<Rightarrow> poll_fd \<Rightarrow> world \<Rightarrow> (errno + unit) wres" where
  "xpoll_add n e self f w =
     obind (Some (xget (pfd f) w)) (\<lambda>(r, w).
       case r of
         None \<Rightarrow> Some (Ok (Inl EBADF, w))
       | Some a \<Rightarrow>
           obind (Some (deref (socks w a))) (\<lambda>x.
           let fd = sb_fd (sock_base x)
           in obind (Some (add_poll_entry (poll_mem e) self (pfd f) (pg w))) (\<lambda>(r, P).
             case r of
               Inl er \<Rightarrow> obind (xput n e fd (w\<lparr>pg := P\<rparr>)) (\<lambda>w. Some (Ok (Inl er, w)))
             | Inr en \<Rightarrow>
                 obind (Some (set_pollfd en f P)) (\<lambda>P.
                 obind (link_pollbase n e fd en (w\<lparr>pg := P\<rparr>)) (\<lambda>(rc, w).
                 obind (case rc of
                          Inr _ \<Rightarrow> w_emit e a w
                        | Inl _ \<Rightarrow> Some (cbind (rm_poll_entry self (pfd f) (pg w)) (\<lambda>(_, P). Ok (w\<lparr>pg := P\<rparr>)))) (\<lambda>w.
                 obind (xput n e fd w) (\<lambda>w. Some (Ok (rc, w)))))))))"

definition xpoll_mod :: "nat \<Rightarrow> env \<Rightarrow> nat \<Rightarrow> poll_fd \<Rightarrow> world \<Rightarrow> (errno + unit) wres" where
  "xpoll_mod n e self f w =
     obind (Some (xget (pfd f) w)) (\<lambda>(r, w).
       case r of
         None \<Rightarrow> Some (Ok (Inl EBADF, w))
       | Some a \<Rightarrow>
           obind (Some (deref (socks w a))) (\<lambda>x.
           let fd = sb_fd (sock_base x)
           in obind (Some (get_poll_entry self (pfd f) (pg w))) (\<lambda>(r, P).
             case r of
               None \<Rightarrow> obind (xput n e fd (w\<lparr>pg := P\<rparr>)) (\<lambda>w. Some (Ok (Inl ENOENT, w)))
             | Some en \<Rightarrow>
                 obind (Some (cbind (deref (ens P en)) (\<lambda>y.
                   set_pollfd en ((pollfd y)\<lparr>pevents := pevents f\<rparr>) P))) (\<lambda>P.
                 obind (w_emit e a (w\<lparr>pg := P\<rparr>)) (\<lambda>w.
                 obind (xput n e fd w) (\<lambda>w.
                 obind (Some (poll_entry_put en (pg w))) (\<lambda>P. Some (Ok (Inr (), w\<lparr>pg := P\<rparr>))))))))) "

definition XPOLL_ADD :: int where "XPOLL_ADD = 1"
definition XPOLL_DEL :: int where "XPOLL_DEL = 2"
definition XPOLL_MOD :: int where "XPOLL_MOD = 3"

definition xpoll_ctl :: "nat \<Rightarrow> env \<Rightarrow> int \<Rightarrow> int \<Rightarrow> poll_fd \<Rightarrow> world \<Rightarrow> (errno + unit) wres" where
  "xpoll_ctl n e pollid op f w =
     obind (Some (poll_get pollid (pg w))) (\<lambda>(r, P).
       let w = w\<lparr>pg := P\<rparr>
       in case r of
            None \<Rightarrow> Some (Ok (Inl EBADF, w))
          | Some self \<Rightarrow>
              obind (if op = XPOLL_ADD then xpoll_add n e self f w
                     else if op = XPOLL_MOD then xpoll_mod n e self f w
                     else if op = XPOLL_DEL
                     then Some (cbind (rm_poll_entry self (pfd f) (pg w)) (\<lambda>(ok, P).
                            Ok (if ok then Inr () else Inl ENOENT, w\<lparr>pg := P\<rparr>)))
                     else Some (Ok (Inl EINVAL, w))) (\<lambda>(r, w).
              obind (Some (poll_put (nat pollid) (pg w))) (\<lambda>P. Some (Ok (r, w\<lparr>pg := P\<rparr>)))))"

fun xselect :: "nat \<Rightarrow> env \<Rightarrow> u32 \<Rightarrow> int list \<Rightarrow> nat \<Rightarrow> world \<Rightarrow> int list wres" where
  "xselect n e events [] nout w = Some (Ok ([], w))"
| "xselect n e events (fd # fds) nout w =
     (if nout = 0 then Some (Ok ([], w))
      else obind (Some (xget fd w)) (\<lambda>(r, w).
        case r of
          None \<Rightarrow> xselect n e events fds nout w
        | Some a \<Rightarrow>
            obind (Some (deref (socks w a))) (\<lambda>x.
            obind (Some (check_pollevents (sock_base x) events)) (\<lambda>h.
            obind (xput n e (sb_fd (sock_base x)) w) (\<lambda>w.
              if h \<noteq> 0
              then obind (xselect n e events fds (nout - 1) w) (\<lambda>(r, w). Some (Ok (fd # r, w)))
              else xselect n e events fds nout w)))))"

end
