(* ===== verification/Rr.thy ===== *)
theory Rr
  imports Msgbuf
begin

text \<open>
  The routing header of requests and replies, \<^verbatim>\<open>src/src/sp/sp_hdr.h\<close> and \<^verbatim>\<open>src/src/sp/reqrep/rr.h\<close>: a
  control message that holds \<open>struct rrhdr\<close> and a stack of \<open>struct rtentry\<close>, one for each hop. The
  header is memory the peer wrote, so it is modelled as the bytes of the control message, read and written
  at the offsets of the fields on a 64-bit target; an access outside of them is undefined.
\<close>

section \<open>Layout\<close>

definition sizeof_rrhdr :: nat where "sizeof_rrhdr = 24"
definition rt_offset :: nat where "rt_offset = 18"
definition sizeof_rtentry :: nat where "sizeof_rtentry = 34"

record rtentry =
  rt_uuid :: "byte list"
  rt_ip :: "byte list"
  rt_port :: u16
  rt_begin :: "u16 \<times> u16"
  rt_cost :: "u16 \<times> u16"
  rt_stay :: "u16 \<times> u16"

text \<open>\<open>struct rtentry rt = {}\<close> after \<open>uuid_copy\<close>.\<close>

definition rt_of_uuid :: "byte list \<Rightarrow> rtentry" where
  "rt_of_uuid u = \<lparr>rt_uuid = u, rt_ip = [0, 0, 0, 0], rt_port = 0, rt_begin = (0, 0), rt_cost = (0, 0), rt_stay = (0, 0)\<rparr>"

definition rtentry_bytes :: "rtentry \<Rightarrow> byte list" where
  "rtentry_bytes rt = rt_uuid rt @ rt_ip rt @ le16 (rt_port rt) @
     (let h = (\<lambda>(a, b). le16 a @ le16 b) in h (rt_begin rt) @ h (rt_cost rt) @ h (rt_stay rt))"

definition rd :: "nat \<Rightarrow> byte list \<Rightarrow> byte cres" where
  "rd i h = (if i < length h then Ok (h ! i) else Undef)"

text \<open>The bit fields: \<open>ttl\<close> and \<open>end_ttl\<close> are the halves of byte 16, \<open>go\<close> is the lowest bit of byte 17.\<close>

definition rr_ttl :: "byte list \<Rightarrow> nat cres" where
  "rr_ttl h = cbind (rd 16 h) (\<lambda>b. Ok (unat (b AND 0x0F)))"

definition set_ttl :: "nat \<Rightarrow> byte list \<Rightarrow> byte list cres" where
  "set_ttl n h = cbind (rd 16 h) (\<lambda>b. Ok (h[16 := (b AND 0xF0) OR (of_nat n AND 0x0F)]))"

definition set_end_ttl :: "nat \<Rightarrow> byte list \<Rightarrow> byte list cres" where
  "set_end_ttl n h = cbind (rd 16 h) (\<lambda>b. Ok (h[16 := (b AND 0x0F) OR push_bit 4 (of_nat n)]))"

definition set_go :: "bool \<Rightarrow> byte list \<Rightarrow> byte list cres" where
  "set_go on h = cbind (rd 17 h) (\<lambda>b. Ok (h[17 := (b AND 0xFE) OR of_bool on]))"

section \<open>Access to the header\<close>

text \<open>\<open>get_sphdr\<close> and \<open>get_rrhdr\<close>: the payload of the first control message, or null; and a write through
  the pointer.\<close>

definition get_sphdr :: "msgbuf \<Rightarrow> byte list option" where
  "get_sphdr m = (case cmsg_head m of [] \<Rightarrow> None | c # _ \<Rightarrow> Some (ubase c))"

definition get_rrhdr :: "msgbuf \<Rightarrow> byte list option" where
  "get_rrhdr m = get_sphdr m"

definition on_rrhdr :: "(byte list \<Rightarrow> byte list cres) \<Rightarrow> msgbuf \<Rightarrow> msgbuf cres" where
  "on_rrhdr f m =
     (case cmsg_head m of
        [] \<Rightarrow> Undef
      | c # cs \<Rightarrow> cbind (f (ubase c)) (\<lambda>h. Ok (set_cmsgs (upd_ubase (\<lambda>_. h) c # cs) m)))"

text \<open>\<open>__rt_cur\<close> and \<open>__rt_prev\<close> as offsets. Of the entry they point to the code reads the identifier.\<close>

definition cur_slot :: "byte list \<Rightarrow> nat cres" where
  "cur_slot h = cbind (rr_ttl h) (\<lambda>t. if t < 1 then Bug else Ok (rt_offset + (t - 1) * sizeof_rtentry))"

definition prev_slot :: "byte list \<Rightarrow> nat cres" where
  "prev_slot h = cbind (rr_ttl h) (\<lambda>t. if t < 2 then Bug else Ok (rt_offset + (t - 2) * sizeof_rtentry))"

definition read_uuid :: "byte list \<Rightarrow> nat \<Rightarrow> byte list cres" where
  "read_uuid h off = (if off + 16 \<le> length h then Ok (take 16 (drop off h)) else Undef)"

definition write_rt :: "byte list \<Rightarrow> rtentry \<Rightarrow> nat \<Rightarrow> byte list cres" where
  "write_rt h rt off = (if off + sizeof_rtentry \<le> length h then Ok (memcpy_at h off (rtentry_bytes rt)) else Undef)"

definition rt_cur :: "msgbuf \<Rightarrow> byte list cres" where
  "rt_cur m = cbind (deref (get_rrhdr m)) (\<lambda>h. cbind (cur_slot h) (read_uuid h))"

definition rt_prev :: "msgbuf \<Rightarrow> byte list cres" where
  "rt_prev m = cbind (deref (get_rrhdr m)) (\<lambda>h. cbind (prev_slot h) (read_uuid h))"

section \<open>Making and extending it\<close>

text \<open>\<open>new_rrhdr\<close>: the block is zeroed; \<open>protocol\<close> and \<open>version\<close> are 1, \<open>go\<close> is set, \<open>ttl\<close> is 1.\<close>

definition new_rrhdr :: "(nat \<Rightarrow> bool) \<Rightarrow> rtentry \<Rightarrow> msgbuf cres" where
  "new_rrhdr alloc rt =
     cbind (ualloc alloc (of_nat (sizeof_rrhdr + sizeof_rtentry))) (\<lambda>p.
       case p of
         None \<Rightarrow> Bug
       | Some c \<Rightarrow>
           cbind (set_go True ((ubase c)[0 := 1, 1 := 1])) (\<lambda>h.
           cbind (set_ttl 1 h) (\<lambda>h. cbind (set_end_ttl 0 h) (\<lambda>h. cbind (write_rt h rt rt_offset) (\<lambda>h.
             Ok (upd_ubase (\<lambda>_. h) c))))))"

text \<open>\<open>uctl_add\<close> ignores a refusal.\<close>

definition uctl_add :: "msgbuf \<Rightarrow> msgbuf \<Rightarrow> msgbuf cres" where
  "uctl_add m new = (case sub_msgbuf_add m new of Err _ \<Rightarrow> Ok m | r \<Rightarrow> r)"

text \<open>\<open>__rt_append\<close> copies the header into a longer block; \<open>ttl\<close> wraps at 16.\<close>

definition rt_append_hdr :: "(nat \<Rightarrow> bool) \<Rightarrow> msgbuf \<Rightarrow> rtentry \<Rightarrow> msgbuf cres" where
  "rt_append_hdr alloc hdr rt =
     (let hlen = usize hdr
      in cbind (ualloc alloc (hlen + of_nat sizeof_rtentry)) (\<lambda>p.
        case p of
          None \<Rightarrow> Undef
        | Some c \<Rightarrow>
            if length (ubase c) < unat hlen \<or> length (ubase hdr) < unat hlen then Undef
            else let h = memcpy_at (ubase c) 0 (take (unat hlen) (ubase hdr))
                 in cbind (rr_ttl h) (\<lambda>t. cbind (set_ttl (Suc t) h) (\<lambda>h.
                    cbind (cur_slot h) (\<lambda>off. cbind (write_rt h rt off) (\<lambda>h. Ok (upd_ubase (\<lambda>_. h) c)))))))"

definition rt_append :: "(nat \<Rightarrow> bool) \<Rightarrow> msgbuf \<Rightarrow> rtentry \<Rightarrow> msgbuf cres" where
  "rt_append alloc m rt =
     (if cmsg_head m = [] then Undef
      else cbind (sub_msgbuf_rm m 0) (\<lambda>(m, sh).
           cbind (rt_append_hdr alloc sh rt) (uctl_add m)))"

text \<open>The uses of the header: \<open>reqep_send\<close> puts one in front of a request, \<open>repep_send\<close> turns it around, and
  a reply loses an entry at every hop (\<open>pg->ttl--\<close>).\<close>

definition stamp_request :: "(nat \<Rightarrow> bool) \<Rightarrow> byte list \<Rightarrow> msgbuf \<Rightarrow> msgbuf cres" where
  "stamp_request alloc uuid m = cbind (new_rrhdr alloc (rt_of_uuid uuid)) (uctl_add m)"

definition stamp_reply :: "msgbuf \<Rightarrow> msgbuf cres" where
  "stamp_reply m =
     on_rrhdr (\<lambda>h. cbind (set_go False h) (\<lambda>h. cbind (rr_ttl h) (\<lambda>t. set_end_ttl t h))) m"

definition pop_rt :: "msgbuf \<Rightarrow> msgbuf cres" where
  "pop_rt m = on_rrhdr (\<lambda>h. cbind (rr_ttl h) (\<lambda>t. set_ttl (t + 15) h)) m"

section \<open>The header is a stack\<close>

text \<open>\<open>rr_holds k h us\<close>: \<open>h\<close> has room for \<open>k\<close> entries and the identifiers in use are \<open>us\<close>.\<close>

definition rr_holds :: "nat \<Rightarrow> byte list \<Rightarrow> byte list list \<Rightarrow> bool" where
  "rr_holds k h us \<longleftrightarrow>
     length us \<le> k \<and> k \<le> 15 \<and> length h = sizeof_rrhdr + k * sizeof_rtentry \<and> unat (h ! 16 AND 0x0F) = length us \<and>
     (\<forall>i<length us. take 16 (drop (rt_offset + i * sizeof_rtentry) h) = us ! i)"

lemmas rr_sizes = sizeof_rrhdr_def sizeof_rtentry_def rt_offset_def

lemma nibbles:
  fixes b c :: byte
  shows "((b AND 0xF0) OR (c AND 0x0F)) AND 0x0F = c AND 0x0F"
    "((b AND 0x0F) OR push_bit 4 c) AND 0x0F = b AND 0x0F"
proof -
  have "((b AND 0xF0) OR (c AND 0x0F)) AND 0x0F = (b AND (0xF0 AND 0x0F)) OR (c AND (0x0F AND 0x0F))"
    by (simp only: bit.conj_disj_distrib2 and.assoc)
  then show "((b AND 0xF0) OR (c AND 0x0F)) AND 0x0F = c AND 0x0F" by simp
  have "push_bit 4 c AND 0x0F = take_bit 4 (push_bit 4 c)" by (simp add: take_bit_eq_mask mask_eq_exp_minus_1 del: take_bit_push_bit push_bit_numeral)
  then have p: "push_bit 4 c AND 0x0F = 0" by (simp only: take_bit_push_bit) simp
  have "((b AND 0x0F) OR push_bit 4 c) AND 0x0F = (b AND (0x0F AND 0x0F)) OR (push_bit 4 c AND 0x0F)"
    by (simp only: bit.conj_disj_distrib2 and.assoc)
  then show "((b AND 0x0F) OR push_bit 4 c) AND 0x0F = b AND 0x0F" unfolding p by simp
qed

lemma of_nat_nibble: "unat (of_nat n AND 0x0F :: byte) = n mod 16"
proof -
  have "of_nat n AND 0x0F = take_bit 4 (of_nat n :: byte)" by (simp add: take_bit_eq_mask mask_eq_exp_minus_1)
  moreover have "unat (take_bit 4 (of_nat n :: byte)) = take_bit 4 (take_bit 8 n)"
    by (simp only: unsigned_take_bit_eq unsigned_of_nat len_num1 len_bit0 mult_1_right) simp
  moreover have "take_bit 4 (take_bit 8 n) = n mod 16" by (simp only: take_bit_take_bit) (simp add: take_bit_eq_mod)
  ultimately show ?thesis by simp
qed

lemma rr_ttl_ok: "rr_holds k h us \<Longrightarrow> rr_ttl h = Ok (length us)"
  by (simp add: rr_holds_def rr_ttl_def rd_def rr_sizes)

lemma rt_reads:
  assumes "rr_holds k h us"
  shows "us \<noteq> [] \<Longrightarrow> cbind (cur_slot h) (read_uuid h) = Ok (last us)"
    "2 \<le> length us \<Longrightarrow> cbind (prev_slot h) (read_uuid h) = Ok (us ! (length us - 2))"
proof -
  have l: "length us \<le> k" "length h = 24 + k * 34" "\<And>i. i < length us \<Longrightarrow> take 16 (drop (18 + i * 34) h) = us ! i"
    using assms by (auto simp: rr_holds_def rr_sizes)
  { assume n: "us \<noteq> []"
    have "length us - 1 < length us" using n by (cases us) auto
    from l(3) [OF this] have "take 16 (drop (18 + (length us - 1) * 34) h) = last us" using n by (simp add: last_conv_nth)
    moreover have "18 + (length us - 1) * 34 + 16 \<le> length h"
      using n l(1) unfolding l(2) by (cases us) auto
    ultimately show "cbind (cur_slot h) (read_uuid h) = Ok (last us)"
      using n rr_ttl_ok [OF assms] by (cases us) (auto simp: cur_slot_def read_uuid_def rr_sizes) }
  { assume n: "2 \<le> length us"
    then have "length us - 2 < length us" by simp
    from l(3) [OF this] have "take 16 (drop (18 + (length us - 2) * 34) h) = us ! (length us - 2)" .
    moreover have "18 + (length us - 2) * 34 + 16 \<le> length h"
      using n l(1) mult_le_mono1 [of "length us - 2" k 34] unfolding l(2) by linarith
    ultimately show "cbind (prev_slot h) (read_uuid h) = Ok (us ! (length us - 2))"
      using n rr_ttl_ok [OF assms] by (auto simp: prev_slot_def read_uuid_def rr_sizes) }
qed


lemma rr_holds_ttl:
  assumes "rr_holds k h us" "n mod 16 \<le> length us"
  shows "\<exists>h'. set_ttl n h = Ok h' \<and> rr_holds k h' (take (n mod 16) us) \<and> length h' = length h"
  using assms by (auto simp: rr_holds_def set_ttl_def rd_def rr_sizes nibbles of_nat_nibble)

lemma rr_holds_reply:
  assumes "rr_holds k h us"
  shows "\<exists>h'. cbind (set_go False h) (\<lambda>h. cbind (rr_ttl h) (\<lambda>t. set_end_ttl t h)) = Ok h' \<and> rr_holds k h' us \<and>
    length h' = length h"
proof -
  have l: "\<not> length h \<le> 17" "length h = 24 + k * 34" using assms by (auto simp: rr_holds_def rr_sizes)
  then show ?thesis
    using assms by (auto simp: rr_holds_def set_go_def rr_ttl_def set_end_ttl_def rd_def rr_sizes nibbles)
qed

lemma take_drop_memcpy:
  "a + n \<le> off \<Longrightarrow> off \<le> length h \<Longrightarrow> take n (drop a (memcpy_at h off src)) = take n (drop a h)"
  by (auto simp: memcpy_at_def drop_take min_def)

lemma take_drop_memcpy_at:
  "off \<le> length h \<Longrightarrow> n \<le> length src \<Longrightarrow> take n (drop off (memcpy_at h off src)) = take n src"
  by (simp add: memcpy_at_def)

lemma length_rtentry [simp]: "length u = 16 \<Longrightarrow> length (rtentry_bytes (rt_of_uuid u)) = 34"
  "length u = 16 \<Longrightarrow> take 16 (rtentry_bytes (rt_of_uuid u)) = u"
  by (simp_all add: rtentry_bytes_def rt_of_uuid_def)

text \<open>Writing the next entry once the length has been counted up.\<close>

lemma rr_holds_push:
  assumes "rr_holds k h us" "length us < k" "length u = 16"
  shows "\<exists>h'. cbind (set_ttl (Suc (length us)) h) (\<lambda>h. cbind (cur_slot h) (write_rt h (rt_of_uuid u))) = Ok h' \<and>
    rr_holds k h' (us @ [u]) \<and> length h' = length h"
proof -
  let ?n = "length us" and ?b = "h ! 16" let ?off = "18 + ?n * 34"
  have l: "k \<le> 15" "length h = 24 + k * 34" "unat (?b AND 0x0F) = ?n" "\<And>i. i < ?n \<Longrightarrow> take 16 (drop (18 + i * 34) h) = us ! i"
    using assms(1) by (auto simp: rr_holds_def rr_sizes)
  have off: "?off + 34 \<le> length h" using assms(2) mult_le_mono1 [of "Suc ?n" k 34] unfolding l(2) by simp
  let ?h = "h[16 := (?b AND 0xF0) OR (of_nat (Suc ?n) AND 0x0F)]"
  let ?h' = "memcpy_at ?h ?off (rtentry_bytes (rt_of_uuid u))"
  have n16: "Suc ?n mod 16 = Suc ?n" using assms(2) l(1) by simp
  have st: "set_ttl (Suc ?n) h = Ok ?h" using l(2) by (simp add: set_ttl_def rd_def)
  have ttl: "rr_ttl ?h = Ok (Suc ?n)"
    using l(2) by (simp add: rr_ttl_def rd_def nibbles of_nat_nibble n16 del: of_nat_Suc)
  have "cbind (cur_slot ?h) (write_rt ?h (rt_of_uuid u)) = Ok ?h'"
    using off by (simp add: cur_slot_def ttl write_rt_def rr_sizes del: of_nat_Suc)
  moreover have len: "length ?h' = length h" using off assms(3) by simp
  moreover have "?h' ! 16 = ?h ! 16" using off by (simp add: memcpy_at_def nth_append)
  then have "unat (?h' ! 16 AND 0x0F) = Suc ?n" using l(2) by (simp add: nibbles of_nat_nibble n16 del: of_nat_Suc)
  moreover have "take 16 (drop (18 + i * 34) ?h') = (us @ [u]) ! i" if "i < Suc ?n" for i
  proof (cases "i = ?n")
    case True
    have "take 16 (drop ?off ?h') = take 16 (rtentry_bytes (rt_of_uuid u))"
      by (rule take_drop_memcpy_at) (use off assms(3) in simp_all)
    then show ?thesis using True assms(3) by simp
  next
    case False
    with that have i: "i < ?n" by simp
    then have "18 + i * 34 + 16 \<le> ?off" by simp
    from take_drop_memcpy [OF this, of ?h] off i l(4) [OF i] show ?thesis by (simp add: nth_append)
  qed
  ultimately show ?thesis using assms(2) l(1,2) st by (auto simp: rr_holds_def rr_sizes)
qed

text \<open>\<open>carries k us m\<close>: the only control message of \<open>m\<close> is a header with the identifiers \<open>us\<close>.\<close>

definition carries :: "nat \<Rightarrow> byte list list \<Rightarrow> msgbuf \<Rightarrow> bool" where
  "carries k us m \<longleftrightarrow> wf_msg m \<and> (\<exists>c. cmsg_head m = [c] \<and> cmsg_head c = [] \<and> rr_holds k (ubase c) us)"

lemma carries_reads:
  assumes "carries k us m"
  shows "us \<noteq> [] \<Longrightarrow> rt_cur m = Ok (last us)" "2 \<le> length us \<Longrightarrow> rt_prev m = Ok (us ! (length us - 2))"
  using assms rt_reads by (auto simp: carries_def rt_cur_def rt_prev_def get_rrhdr_def get_sphdr_def)

lemma wf_upd_ubase [simp]: "length h = length (ubase c) \<Longrightarrow> wf_msg (upd_ubase (\<lambda>_. h) c) = wf_msg c"
  by (cases c) simp

lemma wire_upd_ubase: "length h = length (ubase c) \<Longrightarrow> length (wire (upd_ubase (\<lambda>_. h) c)) = length (wire c)"
  by (simp add: wire_eq msgbuf_base_def)

lemma carries_on_rrhdr:
  assumes "carries k us m" "\<And>h. rr_holds k h us \<Longrightarrow> \<exists>h'. f h = Ok h' \<and> rr_holds k h' vs \<and> length h' = length h"
  shows "\<exists>m'. on_rrhdr f m = Ok m' \<and> carries k vs m' \<and> ubase m' = ubase m"
proof -
  from assms(1) obtain c where c: "cmsg_head m = [c]" "cmsg_head c = []" "rr_holds k (ubase c) us" "wf_msg m"
    by (auto simp: carries_def)
  from assms(2) [OF c(3)] obtain h where h: "f (ubase c) = Ok h" "rr_holds k h vs" "length h = length (ubase c)" by blast
  let ?m = "set_cmsgs [upd_ubase (\<lambda>_. h) c] m"
  have "wf_msg ?m" using c h(3) by (simp add: wf_msg_iff wire_upd_ubase)
  then have "carries k vs ?m" using c(2) h(2) by (simp add: carries_def)
  then show ?thesis using c(1) h(1) by (intro exI [of _ ?m]) (simp add: on_rrhdr_def)
qed

lemma pop_rt_ok:
  assumes "carries k us m" "us \<noteq> []"
  shows "\<exists>m'. pop_rt m = Ok m' \<and> carries k (butlast us) m' \<and> ubase m' = ubase m"
  unfolding pop_rt_def
proof (rule carries_on_rrhdr [OF assms(1)])
  fix h assume h: "rr_holds k h us"
  have "length us \<le> 15" using h by (simp add: rr_holds_def)
  then have n: "(length us + 15) mod 16 = length us - 1" using assms(2) by (cases us) (auto simp: mod_if)
  have "(length us + 15) mod 16 \<le> length us" unfolding n by simp
  from rr_holds_ttl [OF h this] show "\<exists>h'. cbind (rr_ttl h) (\<lambda>t. set_ttl (t + 15) h) = Ok h' \<and> rr_holds k h' (butlast us) \<and>
      length h' = length h" unfolding n by (simp add: rr_ttl_ok [OF h] butlast_conv_take)
qed

lemma stamp_reply_ok:
  assumes "carries k us m"
  shows "\<exists>m'. stamp_reply m = Ok m' \<and> carries k us m' \<and> ubase m' = ubase m"
  unfolding stamp_reply_def by (rule carries_on_rrhdr [OF assms]) (rule rr_holds_reply)

lemma alloc_zeroed:
  assumes "\<And>n. alloc n" "unat sz < 2 ^ 31"
  shows "\<exists>c. ualloc alloc sz = Ok (Some c) \<and> wf_msg c \<and> cmsg_head c = [] \<and> ubase c = replicate (unat sz) 0"
proof -
  from msgbuf_alloc_total [of sz alloc] assms obtain c where c: "msgbuf_alloc alloc sz = Ok (Some c)" by blast
  moreover have "ubase c = replicate (unat sz) 0" using msgbuf_alloc_Some(8) [OF c] assms(2) by simp
  ultimately show ?thesis using msgbuf_alloc_Some [OF c] assms(2) by (auto simp: ualloc_def)
qed

lemma new_rrhdr_ok:
  assumes "\<And>n. alloc n" "length u = 16"
  shows "\<exists>c. new_rrhdr alloc (rt_of_uuid u) = Ok c \<and> wf_msg c \<and> cmsg_head c = [] \<and> rr_holds 1 (ubase c) [u]"
proof -
  from alloc_zeroed [of alloc 58] assms(1) obtain c where
    c: "ualloc alloc 58 = Ok (Some c)" "wf_msg c" "cmsg_head c = []" "ubase c = replicate 58 0" by auto
  define h where "h = (replicate 58 (0 :: byte))[0 := 1, 1 := 1, 17 := 1, 16 := 1]"
  let ?h = "memcpy_at h 18 (rtentry_bytes (rt_of_uuid u))"
  have len: "length h = 58" by (simp add: h_def)
  have n: "new_rrhdr alloc (rt_of_uuid u) = Ok (upd_ubase (\<lambda>_. ?h) c)"
    by (simp add: new_rrhdr_def rr_sizes c(1,4) set_go_def set_ttl_def set_end_ttl_def rd_def write_rt_def h_def)
  have "take 16 (drop 18 ?h) = take 16 (rtentry_bytes (rt_of_uuid u))"
    by (rule take_drop_memcpy_at) (use len assms(2) in simp_all)
  moreover have "?h ! 16 = 1" by (simp add: memcpy_at_def nth_append len) (simp add: h_def)
  ultimately have "rr_holds 1 ?h [u]" using len assms(2) by (simp add: rr_holds_def rr_sizes)
  then show ?thesis using n c(2,3,4) len assms(2) by (intro exI [of _ "upd_ubase (\<lambda>_. ?h) c"]) simp
qed

lemma rt_append_hdr_ok:
  assumes "\<And>n. alloc n" "length u = 16" and h: "wf_msg c" "rr_holds k (ubase c) us" "k < 15"
  shows "\<exists>c'. rt_append_hdr alloc c (rt_of_uuid u) = Ok c' \<and> wf_msg c' \<and> cmsg_head c' = [] \<and> rr_holds (Suc k) (ubase c') (us @ [u])"
proof -
  have l: "length (ubase c) = 24 + k * 34" "unat (usize c) = 24 + k * 34" "length us \<le> k"
    using h(1,2) by (auto simp: rr_holds_def rr_sizes wf_msg_iff usize_def)
  have sz: "unat (usize c + 34) = 24 + Suc k * 34" using l(2) h(3) by (simp add: unat_word_ariths)
  then have "unat (usize c + 34) < 2 ^ 31" using h(3) by simp
  from alloc_zeroed [of alloc, OF assms(1) this] obtain d where
    d: "ualloc alloc (usize c + 34) = Ok (Some d)" "wf_msg d" "cmsg_head d = []" "ubase d = replicate (24 + Suc k * 34) 0"
    unfolding sz by blast
  let ?h = "memcpy_at (ubase d) 0 (take (unat (usize c)) (ubase c))"
  have hh: "?h = ubase c @ replicate 34 0" using d(4) l by (simp add: memcpy_at_def)
  have H: "rr_holds (Suc k) ?h us"
    using h(2,3) unfolding hh by (auto simp: rr_holds_def rr_sizes nth_append)
  from rr_holds_push [OF H _ assms(2)] l(3) obtain h' where
    h': "cbind (set_ttl (Suc (length us)) ?h) (\<lambda>h. cbind (cur_slot h) (write_rt h (rt_of_uuid u))) = Ok h'"
      "rr_holds (Suc k) h' (us @ [u])" "length h' = length ?h" by auto
  obtain g where g: "set_ttl (Suc (length us)) ?h = Ok g" "cbind (cur_slot g) (write_rt g (rt_of_uuid u)) = Ok h'"
    using h'(1) by (auto simp: cbind_eq_Ok)
  then obtain off where "cur_slot g = Ok off" "write_rt g (rt_of_uuid u) off = Ok h'" by (auto simp: cbind_eq_Ok)
  then have "rt_append_hdr alloc c (rt_of_uuid u) = Ok (upd_ubase (\<lambda>_. h') d)"
    using d(1,4) l g(1) rr_ttl_ok [OF H] by (simp add: rt_append_hdr_def Let_def rr_sizes)
  then show ?thesis using d(2,3,4) h'(2,3) l
    by (intro exI [of _ "upd_ubase (\<lambda>_. h') d"]) (simp add: hh)
qed

lemma wire_small:
  assumes "wf_msg c" "cmsg_head c = []" "rr_holds k (ubase c) us"
  shows "length (wire c) \<le> 4095"
  using length_wire [OF assms(1)] unat_msgbuf_len [of c] assms
  by (auto simp: wf_msg_iff rr_holds_def rr_sizes)

lemma uctl_add_header:
  assumes "wf_msg m" "cmsg_head m = []" "wf_msg c" "cmsg_head c = []" "rr_holds k (ubase c) us"
  shows "\<exists>m'. uctl_add m c = Ok m' \<and> carries k us m' \<and> ubase m' = ubase m"
proof -
  have "\<exists>m'. sub_msgbuf_add m c = Ok m'"
    using sub_msgbuf_add_cases [OF assms(1,3)] wire_small [OF assms(3-5)] assms(2) by simp
  then obtain m' where m': "sub_msgbuf_add m c = Ok m'" by blast
  note w = sub_msgbuf_add_wf [OF assms(1,3) m']
  then show ?thesis using m' assms by (intro exI [of _ m']) (simp add: uctl_add_def carries_def)
qed

lemma stamp_request_ok:
  assumes "\<And>n. alloc n" "length u = 16" "wf_msg m" "cmsg_head m = []"
  shows "\<exists>m'. stamp_request alloc u m = Ok m' \<and> carries 1 [u] m' \<and> ubase m' = ubase m"
proof -
  from new_rrhdr_ok [of alloc, OF assms(1,2)] obtain c where
    c: "new_rrhdr alloc (rt_of_uuid u) = Ok c" "wf_msg c" "cmsg_head c = []" "rr_holds 1 (ubase c) [u]" by blast
  from uctl_add_header [OF assms(3,4) c(2-4)] c(1) show ?thesis by (auto simp: stamp_request_def)
qed

lemma rt_append_ok:
  assumes "\<And>n. alloc n" "length u = 16" "carries k us m" "k < 15"
  shows "\<exists>m'. rt_append alloc m (rt_of_uuid u) = Ok m' \<and> carries (Suc k) (us @ [u]) m' \<and> ubase m' = ubase m"
proof -
  from assms(3) obtain c where c: "wf_msg m" "cmsg_head m = [c]" "rr_holds k (ubase c) us" by (auto simp: carries_def)
  have "0 < length (cmsg_head m)" using c(2) by simp
  from sub_msgbuf_rm_wf [OF c(1) this] c(2) obtain m0 where
    m0: "sub_msgbuf_rm m 0 = Ok (m0, c)" "wf_msg m0" "wf_msg c" "cmsg_head m0 = []" by auto
  have u0: "ubase m0 = ubase m" using m0(1) by (auto simp: sub_msgbuf_rm_def Let_def split: if_splits)
  from rt_append_hdr_ok [of alloc, OF assms(1,2) m0(3) c(3) assms(4)] obtain d where
    d: "rt_append_hdr alloc c (rt_of_uuid u) = Ok d" "wf_msg d" "cmsg_head d = []" "rr_holds (Suc k) (ubase d) (us @ [u])" by blast
  from uctl_add_header [OF m0(2,4) d(2-4)] m0(1) d(1) c(2) u0 show ?thesis by (auto simp: rt_append_def)
qed

section \<open>The way of a request and of its reply\<close>

text \<open>The proxies a request passes append their entries; on the way back each finds where to send the reply in
  the entry before the last and drops the last, and the requester drops the first.\<close>

fun forward :: "(nat \<Rightarrow> bool) \<Rightarrow> byte list list \<Rightarrow> msgbuf \<Rightarrow> msgbuf cres" where
  "forward alloc [] m = Ok m"
| "forward alloc (u # us) m = cbind (rt_append alloc m (rt_of_uuid u)) (forward alloc us)"

fun backward :: "nat \<Rightarrow> msgbuf \<Rightarrow> (byte list list \<times> msgbuf) cres" where
  "backward 0 m = cbind (pop_rt m) (\<lambda>m. Ok ([], m))"
| "backward (Suc n) m =
     cbind (rt_prev m) (\<lambda>u. cbind (pop_rt m) (\<lambda>m. cbind (backward n m) (\<lambda>(us, m). Ok (u # us, m))))"

lemma forward_ok:
  assumes "\<And>n. alloc n" "carries k vs m" "\<forall>u\<in>set us. length u = 16" "k + length us \<le> 15"
  shows "\<exists>m'. forward alloc us m = Ok m' \<and> carries (k + length us) (vs @ us) m' \<and> ubase m' = ubase m"
  using assms(2-4)
proof (induction us arbitrary: k vs m)
  case (Cons u us)
  from rt_append_ok [of alloc, OF assms(1) _ Cons.prems(1), of u] Cons.prems obtain m1 where
    m1: "rt_append alloc m (rt_of_uuid u) = Ok m1" "carries (Suc k) (vs @ [u]) m1" "ubase m1 = ubase m" by auto
  from Cons.IH [OF m1(2)] Cons.prems m1(1,3) show ?case by auto
qed simp

lemma backward_ok:
  "carries k us m \<Longrightarrow> length us = Suc n \<Longrightarrow>
   \<exists>m'. backward n m = Ok (tl (rev us), m') \<and> carries k [] m' \<and> ubase m' = ubase m"
proof (induction n arbitrary: us m)
  case 0
  then have us: "us \<noteq> []" "butlast us = []" "tl (rev us) = []" by (cases us; simp)+
  from pop_rt_ok [OF 0(1) us(1)] us show ?case by auto
next
  case (Suc n)
  then have us: "us \<noteq> []" "2 \<le> length us" by auto
  from pop_rt_ok [OF Suc.prems(1) us(1)] obtain m1 where
    m1: "pop_rt m = Ok m1" "carries k (butlast us) m1" "ubase m1 = ubase m" by blast
  have "length (butlast us) = Suc n" using Suc.prems(2) by simp
  from Suc.IH [OF m1(2) this] obtain m' where
    m': "backward n m1 = Ok (tl (rev (butlast us)), m')" "carries k [] m'" "ubase m' = ubase m1" by blast
  obtain vs a b where v: "us = vs @ [a, b]" using us(2)
    by (metis (no_types, opaque_lifting) One_nat_def Suc_1 append_Cons append_Nil append_assoc butlast_snoc length_0_conv
        length_append_singleton not_less_eq_eq rev_exhaust zero_le)
  have "us ! (length us - 2) # tl (rev (butlast us)) = tl (rev us)" by (simp add: v nth_append butlast_append)
  then show ?case using carries_reads(2) [OF Suc.prems(1) us(2)] m1 m' by auto
qed

lemma switch_carries:
  assumes "carries k us m" "wf_msg r" "cmsg_head r = []"
  shows "carries k us (snd (sub_msgbuf_switch m r))" "ubase (snd (sub_msgbuf_switch m r)) = ubase r"
proof -
  obtain m' r' where s: "sub_msgbuf_switch m r = (m', r')" by force
  have "wf_msg m" using assms(1) by (simp add: carries_def)
  note w = sub_msgbuf_switch_wf [OF this assms(2,3) s]
  then show "carries k us (snd (sub_msgbuf_switch m r))" using assms(1) s by (simp add: carries_def)
  show "ubase (snd (sub_msgbuf_switch m r)) = ubase r" by (simp add: sub_msgbuf_switch_def)
qed

text \<open>C8. A reply retraces the way of its request, for requests and replies to which their users have not added control
  messages of their own. A request stamped by the requester with \<open>u\<close> and by up to 14 proxies on its way with \<open>us\<close>
  reaches the server with its payload and the last of them on top; a reply that takes over the control message is routed at
  every hop on the way back by the entry of the hop before, in reverse order, and arrives with its own
  payload. Memory is there for every allocation. (With a control message of the user in front of it the header is not
  found: lemma \<open>user_cmsg_shadows_header\<close>.)\<close>

theorem reply_retraces_path:
  assumes "\<forall>n. alloc n" "wf_msg m" "cmsg_head m = []" "\<forall>v\<in>set (u # us). length v = 16" "length us < 15"
    and "wf_msg r" "cmsg_head r = []"
  shows "\<exists>m1 m2 m3. cbind (stamp_request alloc u m) (forward alloc us) = Ok m1 \<and> ubase m1 = ubase m \<and>
    rt_cur m1 = Ok (last (u # us)) \<and> stamp_reply (snd (sub_msgbuf_switch m1 r)) = Ok m2 \<and>
    backward (length us) m2 = Ok (tl (rev (u # us)), m3) \<and> ubase m3 = ubase r"
proof -
  have al: "\<And>n. alloc n" using assms(1) by blast
  from stamp_request_ok [of alloc, OF al _ assms(2,3), of u] assms(4) obtain m0 where
    m0: "stamp_request alloc u m = Ok m0" "carries 1 [u] m0" "ubase m0 = ubase m" by auto
  from forward_ok [of alloc, OF al m0(2), of us] assms(4,5) obtain m1 where
    m1: "forward alloc us m0 = Ok m1" "carries (1 + length us) (u # us) m1" "ubase m1 = ubase m" using m0(3) by auto
  note sw = switch_carries [OF m1(2) assms(6,7)]
  from stamp_reply_ok [OF sw(1)] obtain m2 where
    m2: "stamp_reply (snd (sub_msgbuf_switch m1 r)) = Ok m2" "carries (1 + length us) (u # us) m2" "ubase m2 = ubase r"
    using sw(2) by auto
  from backward_ok [OF m2(2), of "length us"] obtain m3 where
    "backward (length us) m2 = Ok (tl (rev (u # us)), m3)" "ubase m3 = ubase r" using m2(3) by auto
  then show ?thesis using m0(1) m1 m2(1) carries_reads(1) [OF m1(2)] by auto
qed

definition plain_msg :: "byte list \<Rightarrow> msgbuf" where
  "plain_msg bs = Msgbuf 0 \<lparr>checksum = 0, cmsg_num = 0, cmsg_length = 0, ulen = of_nat (length bs)\<rparr> bs []"

lemma plain_msg_ok: "length bs < 100 \<Longrightarrow> wf_msg (plain_msg bs)" "cmsg_head (plain_msg bs) = []" "ubase (plain_msg bs) = bs"
  by (simp_all add: plain_msg_def unat_of_nat_32)

theorem reply_retraces_path_witness:
  "\<exists>m1 m2 m3. cbind (stamp_request (\<lambda>_. True) (replicate 16 1) (plain_msg [7])) (forward (\<lambda>_. True) [replicate 16 2]) = Ok m1 \<and>
    rt_cur m1 = Ok (replicate 16 2) \<and> stamp_reply (snd (sub_msgbuf_switch m1 (plain_msg [8, 9]))) = Ok m2 \<and>
    backward 1 m2 = Ok ([replicate 16 1], m3) \<and> ubase m3 = [8, 9]"
proof -
  from reply_retraces_path [of "\<lambda>_. True" "plain_msg [7]" "replicate 16 1" "[replicate 16 2]" "plain_msg [8, 9]"]
  obtain m1 m2 m3 where
    "cbind (stamp_request (\<lambda>_. True) (replicate 16 1) (plain_msg [7])) (forward (\<lambda>_. True) [replicate 16 2]) = Ok m1"
    "rt_cur m1 = Ok (replicate 16 2)" "stamp_reply (snd (sub_msgbuf_switch m1 (plain_msg [8, 9]))) = Ok m2"
    "backward 1 m2 = Ok ([replicate 16 1], m3)" "ubase m3 = [8, 9]"
    by (auto simp: plain_msg_ok simp del: forward.simps backward.simps)
  then show ?thesis by (intro exI [of _ m1] exI [of _ m2] exI [of _ m3] conjI)
qed

section \<open>What goes wrong\<close>

text \<open>The sixteenth entry: \<open>ttl\<close> has four bits.\<close>

lemma rt_append_sixteenth:
  assumes "\<And>n. alloc n" "carries 15 us m" "length us = 15"
  shows "rt_append alloc m rt = Bug"
proof -
  from assms(2) obtain c where c: "wf_msg m" "cmsg_head m = [c]" "rr_holds 15 (ubase c) us" by (auto simp: carries_def)
  have "0 < length (cmsg_head m)" using c(2) by simp
  from sub_msgbuf_rm_wf [OF c(1) this] c(2) obtain m0 where
    m0: "sub_msgbuf_rm m 0 = Ok (m0, c)" "wf_msg c" by auto
  have l: "length (ubase c) = 534" "unat (usize c) = 534"
    using c(3) m0(2) by (auto simp: rr_holds_def rr_sizes wf_msg_iff usize_def)
  have sz: "unat (usize c + 34) = 568" using l(2) by (simp add: unat_word_ariths)
  from alloc_zeroed [of alloc "usize c + 34", OF assms(1)] obtain d where
    d: "ualloc alloc (usize c + 34) = Ok (Some d)" "ubase d = replicate 568 0" unfolding sz by auto
  let ?h = "memcpy_at (ubase d) 0 (take (unat (usize c)) (ubase c))"
  have hh: "?h = ubase c @ replicate 34 0" using d(2) l by (simp add: memcpy_at_def)
  have ttl: "rr_ttl ?h = Ok 15" using c(3) assms(3) unfolding hh by (simp add: rr_holds_def rr_ttl_def rd_def rr_sizes nth_append)
  let ?g = "?h[16 := (?h ! 16 AND 0xF0) OR (of_nat 16 AND 0x0F)]"
  have "set_ttl 16 ?h = Ok ?g" "rr_ttl ?g = Ok 0"
    using l(1) unfolding hh by (simp_all add: set_ttl_def rr_ttl_def rd_def and.assoc)
  then have "rt_append_hdr alloc c rt = Bug"
    using d l ttl by (simp add: rt_append_hdr_def Let_def rr_sizes cur_slot_def)
  then show ?thesis using m0(1) c(2) by (simp add: rt_append_def)
qed

text \<open>A request that already carries a control message of its user cannot be routed: the header goes behind it,
  but the receiver takes the first control message for the header, and with fewer than 17 bytes
  there it reads past the end of its block.\<close>

theorem user_cmsg_shadows_header:
  assumes "\<forall>n. alloc n" "length u = 16" "wf_msg m" "cmsg_head m = c # cs"
  shows "\<exists>m'. stamp_request alloc u m = Ok m' \<and> get_rrhdr m' = Some (ubase c) \<and>
    (length (ubase c) < 17 \<longrightarrow> rt_cur m' = Undef)"
proof -
  from new_rrhdr_ok [of alloc u] assms(1,2) obtain h where
    h: "new_rrhdr alloc (rt_of_uuid u) = Ok h" "wf_msg h" by blast
  have "\<exists>m'. uctl_add m h = Ok m' \<and> get_rrhdr m' = Some (ubase c)"
    using sub_msgbuf_add_cases [OF assms(3) h(2)] assms(4)
    by (auto simp: uctl_add_def get_rrhdr_def get_sphdr_def)
  then obtain m' where m': "uctl_add m h = Ok m'" "get_rrhdr m' = Some (ubase c)" by blast
  then have "rt_cur m' = Undef" if "length (ubase c) < 17"
    using that by (simp add: rt_cur_def cur_slot_def rr_ttl_def rd_def)
  then show ?thesis using h(1) m' by (auto simp: stamp_request_def)
qed

theorem user_cmsg_shadows_header_witness:
  "\<exists>m m'. sub_msgbuf_add (plain_msg [7]) (plain_msg [1, 2]) = Ok m \<and>
    stamp_request (\<lambda>_. True) (replicate 16 1) m = Ok m' \<and> rt_cur m' = Undef"
proof -
  have w: "wf_msg (plain_msg [7])" "wf_msg (plain_msg [1, 2])" by (simp_all add: plain_msg_ok)
  have "\<exists>m. sub_msgbuf_add (plain_msg [7]) (plain_msg [1, 2]) = Ok m"
    using sub_msgbuf_add_cases [OF w] by (simp add: plain_msg_ok) (simp add: plain_msg_def msgbuf_base_def)
  then obtain m where m: "sub_msgbuf_add (plain_msg [7]) (plain_msg [1, 2]) = Ok m" by blast
  note mw = sub_msgbuf_add_wf [OF w m]
  have "cmsg_head m = [plain_msg [1, 2]]" using mw(2) by (simp add: plain_msg_ok)
  from user_cmsg_shadows_header [of "\<lambda>_. True" "replicate 16 1", OF _ _ mw(1) this] m show ?thesis
    by (auto simp: plain_msg_ok)
qed

end
