(* ===== verification/Lbs.thy ===== *)
theory Lbs
  imports Arrays Rr
begin

text \<open>
  Load balancing of a requester over its connections: weighted round robin
  (\<^verbatim>\<open>src/src/sp/reqrep/lbs_rrbin.c\<close>) and by a hash of the message (\<^verbatim>\<open>lbs_ulhash.c\<close>). Targets are addresses;
  the entry a target holds for its balancer is a map from addresses. The contract is the locale
  \<open>load_balancer\<close>; round robin keeps it, and hashing does not.
\<close>

section \<open>Weighted round robin\<close>

record rrbin =
  rr_head :: "nat list"
  origin_weight :: "nat \<Rightarrow> i32"
  current_weight :: "nat \<Rightarrow> i32"

definition weight_rrbin_new :: rrbin where
  "weight_rrbin_new = \<lparr>rr_head = [], origin_weight = (\<lambda>_. 0), current_weight = (\<lambda>_. 0)\<rparr>"

text \<open>Counting the least integer down overflows.\<close>

definition weight_rrbin_select :: "rrbin \<Rightarrow> (nat option \<times> rrbin) cres" where
  "weight_rrbin_select rr =
     (case rr_head rr of
        [] \<Rightarrow> Ok (None, rr)
      | t # ts \<Rightarrow>
          let c = current_weight rr t
          in if c = 0x80000000 then Undef
             else if sint (c - 1) \<le> 0
             then Ok (Some t, rr\<lparr>current_weight := (current_weight rr)(t := origin_weight rr t), rr_head := ts @ [t]\<rparr>)
             else Ok (Some t, rr\<lparr>current_weight := (current_weight rr)(t := c - 1)\<rparr>))"

definition weight_rrbin_add :: "nat \<Rightarrow> rrbin \<Rightarrow> rrbin" where
  "weight_rrbin_add t rr =
     rr\<lparr>origin_weight := (origin_weight rr)(t := 1), current_weight := (current_weight rr)(t := 1), rr_head := rr_head rr @ [t]\<rparr>"

definition weight_rrbin_rm :: "nat \<Rightarrow> rrbin \<Rightarrow> rrbin" where
  "weight_rrbin_rm t rr = rr\<lparr>rr_head := remove1 t (rr_head rr)\<rparr>"

section \<open>By a hash\<close>

record ulhash_lbs =
  ul_hash :: "msgbuf \<Rightarrow> u32"
  ul_tgs :: "nat unorder_p_array"
  ul_idx :: "nat \<Rightarrow> nat"

definition ulhash_new :: "bool \<Rightarrow> (msgbuf \<Rightarrow> u32) \<Rightarrow> ulhash_lbs cres" where
  "ulhash_new alloc h = cbind (unorder_p_array_init alloc) (\<lambda>a. Ok \<lparr>ul_hash = h, ul_tgs = a, ul_idx = (\<lambda>_. 0)\<rparr>)"

definition ulhash_select :: "msgbuf \<Rightarrow> ulhash_lbs \<Rightarrow> (nat option \<times> ulhash_lbs) cres" where
  "ulhash_select m ul =
     (let n = unorder_p_array_size (ul_tgs ul)
      in if n = 0 then Ok (None, ul)
         else cbind (unorder_p_array_at (ul_tgs ul) (unat (ul_hash ul m) mod n)) (\<lambda>r. Ok (r, ul)))"

definition ulhash_add :: "bool \<Rightarrow> nat \<Rightarrow> ulhash_lbs \<Rightarrow> ulhash_lbs cres" where
  "ulhash_add alloc t ul =
     cbind (unorder_p_array_push_back alloc (ul_tgs ul) t) (\<lambda>(i, a). Ok (ul\<lparr>ul_tgs := a, ul_idx := (ul_idx ul)(t := i)\<rparr>))"

definition ulhash_rm :: "nat \<Rightarrow> ulhash_lbs \<Rightarrow> ulhash_lbs cres" where
  "ulhash_rm t ul = cbind (unorder_p_array_erase (ul_tgs ul) (ul_idx ul t)) (\<lambda>a. Ok (ul\<lparr>ul_tgs := a\<rparr>))"

section \<open>The contract\<close>

datatype 'm lb_op = LbAdd nat | LbRm nat | LbSelect 'm

fun lb_run :: "(nat \<Rightarrow> 's \<Rightarrow> 's) \<Rightarrow> (nat \<Rightarrow> 's \<Rightarrow> 's) \<Rightarrow> ('m \<Rightarrow> 's \<Rightarrow> (nat option \<times> 's) cres) \<Rightarrow> 'm lb_op list \<Rightarrow> 's \<Rightarrow>
    (nat option list \<times> 's) cres" where
  "lb_run add rm sel [] s = Ok ([], s)"
| "lb_run add rm sel (LbAdd t # ops) s = lb_run add rm sel ops (add t s)"
| "lb_run add rm sel (LbRm t # ops) s = lb_run add rm sel ops (rm t s)"
| "lb_run add rm sel (LbSelect m # ops) s =
     cbind (sel m s) (\<lambda>(r, s). cbind (lb_run add rm sel ops s) (\<lambda>(rs, s). Ok (r # rs, s)))"

text \<open>A target is added when it is none and removed when it is one; \<open>lb_answers\<close> are the lists of answers allowed.\<close>

fun lb_disciplined :: "'m lb_op list \<Rightarrow> nat set \<Rightarrow> bool" where
  "lb_disciplined [] S \<longleftrightarrow> True"
| "lb_disciplined (LbAdd t # ops) S \<longleftrightarrow> t \<notin> S \<and> lb_disciplined ops (insert t S)"
| "lb_disciplined (LbRm t # ops) S \<longleftrightarrow> t \<in> S \<and> lb_disciplined ops (S - {t})"
| "lb_disciplined (LbSelect m # ops) S \<longleftrightarrow> lb_disciplined ops S"

definition answer_ok :: "nat set \<Rightarrow> nat option \<Rightarrow> bool" where
  "answer_ok S r \<longleftrightarrow> (case r of None \<Rightarrow> S = {} | Some t \<Rightarrow> t \<in> S)"

fun lb_answers :: "'m lb_op list \<Rightarrow> nat set \<Rightarrow> nat option list \<Rightarrow> bool" where
  "lb_answers [] S rs \<longleftrightarrow> rs = []"
| "lb_answers (LbAdd t # ops) S rs \<longleftrightarrow> lb_answers ops (insert t S) rs"
| "lb_answers (LbRm t # ops) S rs \<longleftrightarrow> lb_answers ops (S - {t}) rs"
| "lb_answers (LbSelect m # ops) S rs \<longleftrightarrow> (case rs of [] \<Rightarrow> False | r # rs \<Rightarrow> answer_ok S r \<and> lb_answers ops S rs)"

locale load_balancer =
  fixes ok :: "'s \<Rightarrow> bool"
    and members :: "'s \<Rightarrow> nat set"
    and add :: "nat \<Rightarrow> 's \<Rightarrow> 's"
    and rm :: "nat \<Rightarrow> 's \<Rightarrow> 's"
    and sel :: "'m \<Rightarrow> 's \<Rightarrow> (nat option \<times> 's) cres"
  assumes add: "ok s \<Longrightarrow> t \<notin> members s \<Longrightarrow> ok (add t s) \<and> members (add t s) = insert t (members s)"
    and rm: "ok s \<Longrightarrow> t \<in> members s \<Longrightarrow> ok (rm t s) \<and> members (rm t s) = members s - {t}"
    and sel: "ok s \<Longrightarrow> \<exists>r s'. sel m s = Ok (r, s') \<and> ok s' \<and> members s' = members s \<and> answer_ok (members s) r"
begin

lemma run_answers:
  "ok s \<Longrightarrow> lb_disciplined ops (members s) \<Longrightarrow>
   \<exists>rs s'. lb_run add rm sel ops s = Ok (rs, s') \<and> ok s' \<and> lb_answers ops (members s) rs"
proof (induction ops arbitrary: s)
  case (Cons p ops)
  show ?case
  proof (cases p)
    case (LbAdd t)
    then show ?thesis using add [of s t] Cons.prems Cons.IH [of "add t s"] by auto
  next
    case (LbRm t)
    then show ?thesis using rm [of s t] Cons.prems Cons.IH [of "rm t s"] by auto
  next
    case (LbSelect m)
    obtain r s1 where r: "sel m s = Ok (r, s1)" "ok s1" "members s1 = members s" "answer_ok (members s) r"
      using sel [OF Cons.prems(1), of m] by blast
    from Cons.IH [OF r(2)] Cons.prems(2) LbSelect r(3) obtain rs s' where
      "lb_run add rm sel ops s1 = Ok (rs, s')" "ok s'" "lb_answers ops (members s) rs" by auto
    then show ?thesis using r(1,4) LbSelect by auto
  qed
qed simp

end

section \<open>Round robin keeps the contract\<close>

definition rrbin_ok :: "rrbin \<Rightarrow> bool" where
  "rrbin_ok rr \<longleftrightarrow> distinct (rr_head rr) \<and>
     (\<forall>t\<in>set (rr_head rr). origin_weight rr t \<noteq> 0x80000000 \<and> current_weight rr t \<noteq> 0x80000000)"

lemma dec_not_least: "sint (c - 1) > 0 \<Longrightarrow> c - 1 \<noteq> (0x80000000 :: i32)"
  by auto

interpretation rrlb: load_balancer rrbin_ok "\<lambda>rr. set (rr_head rr)" weight_rrbin_add weight_rrbin_rm "\<lambda>m :: msgbuf. weight_rrbin_select"
proof (unfold_locales, goal_cases)
  case (1 s t)
  then show ?case by (auto simp: rrbin_ok_def weight_rrbin_add_def)
next
  case (2 s t)
  then show ?case by (auto simp: rrbin_ok_def weight_rrbin_rm_def)
next
  case (3 s m)
  then show ?case
    by (auto simp: rrbin_ok_def weight_rrbin_select_def answer_ok_def Let_def split: list.splits dest: dec_not_least)
qed

text \<open>How often a target is chosen before the next one has its turn.\<close>

definition burst :: "i32 \<Rightarrow> nat" where
  "burst w = nat (max 1 (sint w))"

fun rr_selects :: "nat \<Rightarrow> rrbin \<Rightarrow> (nat option list \<times> rrbin) cres" where
  "rr_selects 0 rr = Ok ([], rr)"
| "rr_selects (Suc n) rr =
     cbind (weight_rrbin_select rr) (\<lambda>(r, rr). cbind (rr_selects n rr) (\<lambda>(rs, rr). Ok (r # rs, rr)))"

lemma rr_selects_add:
  "rr_selects m rr = Ok (rs, rr') \<Longrightarrow> rr_selects (m + n) rr = cbind (rr_selects n rr') (\<lambda>(rs', rr). Ok (rs @ rs', rr))"
proof (induction m arbitrary: rr rs)
  case 0
  then show ?case by (auto simp: cbind_def split: cres.splits)
next
  case (Suc m)
  then obtain r r1 rs1 where "weight_rrbin_select rr = Ok (r, r1)" "rr_selects m r1 = Ok (rs1, rr')" "rs = r # rs1"
    by (auto simp: cbind_eq_Ok)
  with Suc.IH [OF this(2)] show ?case by (auto simp: cbind_def split: cres.splits)
qed

lemma sint_dec: "c \<noteq> 0x80000000 \<Longrightarrow> sint (c - 1 :: i32) = sint c - 1"
proof -
  assume c: "c \<noteq> 0x80000000"
  have "sint c \<noteq> - (2 ^ 31)"
  proof
    assume "sint c = - (2 ^ 31)"
    then have "sint c = sint (0x80000000 :: i32)" by simp
    then have "c = 0x80000000" by (rule signed_word_eqI)
    with c show False by simp
  qed
  moreover have "- (2 ^ 31) \<le> sint c" "sint c < 2 ^ 31" using sint_greater_eq [of c] sint_less [of c] by simp_all
  ultimately show ?thesis by (simp add: sint_word_ariths signed_take_bit_int_eq_self)
qed

lemma rr_burst:
  assumes "rr_head rr = t # ts" "current_weight rr t = c" "c \<noteq> 0x80000000"
  shows "rr_selects (burst c) rr =
    Ok (replicate (burst c) (Some t), rr\<lparr>current_weight := (current_weight rr)(t := origin_weight rr t), rr_head := ts @ [t]\<rparr>)"
  using assms
proof (induction "burst c" arbitrary: c rr)
  case 0
  then show ?case by (simp add: burst_def)
next
  case (Suc n)
  have s: "sint (c - 1) = sint c - 1" by (rule sint_dec) (rule Suc.prems(3))
  show ?case
  proof (cases "sint c \<le> 1")
    case True
    then have "burst c = 1" by (simp add: burst_def)
    then show ?thesis using Suc.prems True s by (simp add: weight_rrbin_select_def)
  next
    case False
    then have n: "n = burst (c - 1)" using Suc.hyps(2) s by (simp add: burst_def)
    let ?rr = "rr\<lparr>current_weight := (current_weight rr)(t := c - 1)\<rparr>"
    have sel: "weight_rrbin_select rr = Ok (Some t, ?rr)" using Suc.prems False s by (simp add: weight_rrbin_select_def)
    have "c - 1 \<noteq> 0x80000000" using False s dec_not_least by auto
    from Suc.hyps(1) [OF n _ _ this, of ?rr] Suc.prems(1)
    have "rr_selects n ?rr = Ok (replicate n (Some t),
        rr\<lparr>current_weight := (current_weight rr)(t := origin_weight rr t), rr_head := ts @ [t]\<rparr>)" by (simp add: n)
    then show ?thesis using sel by (simp flip: Suc.hyps(2))
  qed
qed

text \<open>The answers of a round in which each target \<open>t\<close> of \<open>ts\<close> is chosen as often as its weight \<open>w t\<close> says.\<close>

fun turns :: "(nat \<Rightarrow> i32) \<Rightarrow> nat list \<Rightarrow> nat option list" where
  "turns w [] = []"
| "turns w (t # ts) = replicate (burst (w t)) (Some t) @ turns w ts"

lemma turns_append [simp]: "turns w (ts @ us) = turns w ts @ turns w us"
  by (induction ts) simp_all

lemma turns_cong: "(\<And>t. t \<in> set ts \<Longrightarrow> v t = w t) \<Longrightarrow> turns v ts = turns w ts"
  by (induction ts) simp_all

text \<open>The turns left to the targets in front, whatever of them is used up.\<close>

lemma rr_turns:
  assumes "rr_head rr = ts @ us" "distinct ts" "\<forall>t\<in>set ts. current_weight rr t \<noteq> 0x80000000"
  shows "rr_selects (length (turns (current_weight rr) ts)) rr = Ok (turns (current_weight rr) ts,
    rr\<lparr>rr_head := us @ ts, current_weight := \<lambda>t. if t \<in> set ts then origin_weight rr t else current_weight rr t\<rparr>)"
  using assms
proof (induction ts arbitrary: us rr)
  case (Cons t ts)
  let ?rr = "rr\<lparr>current_weight := (current_weight rr)(t := origin_weight rr t), rr_head := (ts @ us) @ [t]\<rparr>"
  from rr_burst [of rr t "ts @ us" "current_weight rr t"] Cons.prems
  have b: "rr_selects (burst (current_weight rr t)) rr = Ok (replicate (burst (current_weight rr t)) (Some t), ?rr)" by simp
  have s: "turns (current_weight ?rr) ts = turns (current_weight rr) ts"
    by (rule turns_cong) (use Cons.prems(2) in auto)
  have f: "(\<lambda>u. if u \<in> set ts then origin_weight ?rr u else current_weight ?rr u) =
      (\<lambda>u. if u \<in> set (t # ts) then origin_weight rr u else current_weight rr u)" by auto
  have "rr_selects (length (turns (current_weight ?rr) ts)) ?rr = Ok (turns (current_weight ?rr) ts,
      ?rr\<lparr>rr_head := (us @ [t]) @ ts, current_weight := \<lambda>u. if u \<in> set ts then origin_weight ?rr u else current_weight ?rr u\<rparr>)"
    by (rule Cons.IH) (use Cons.prems in auto)
  then have "rr_selects (length (turns (current_weight rr) ts)) ?rr = Ok (turns (current_weight rr) ts,
      rr\<lparr>rr_head := us @ t # ts, current_weight := \<lambda>u. if u \<in> set (t # ts) then origin_weight rr u else current_weight rr u\<rparr>)"
    unfolding s f by simp
  with rr_selects_add [OF b] show ?case by simp
qed simp

lemma rr_rounds:
  assumes "distinct (rr_head rr)"
    "\<forall>t\<in>set (rr_head rr). current_weight rr t = origin_weight rr t \<and> origin_weight rr t \<noteq> 0x80000000"
  shows "rr_selects (k * length (turns (origin_weight rr) (rr_head rr))) rr =
    Ok (concat (replicate k (turns (origin_weight rr) (rr_head rr))), rr)"
proof (induction k)
  case (Suc k)
  have c: "(\<lambda>t. if t \<in> set (rr_head rr) then origin_weight rr t else current_weight rr t) = current_weight rr"
    using assms(2) by auto
  have m: "turns (current_weight rr) (rr_head rr) = turns (origin_weight rr) (rr_head rr)"
    by (rule turns_cong) (use assms(2) in auto)
  have "rr_selects (length (turns (origin_weight rr) (rr_head rr))) rr = Ok (turns (origin_weight rr) (rr_head rr), rr)"
    using rr_turns [of rr "rr_head rr" "[]"] assms unfolding c m by simp
  from rr_selects_add [OF this] Suc show ?case by simp
qed simp

text \<open>C31. Round robin is fair, from any state of the weights a balancer can be in. First the turns that are left are
  finished, each target in the order of the list as often as its current weight says (a weight below one counts
  as one); from then on every further round, as many selections as the weights add up to, chooses each
  target as often as its weight says, without interruption and in the order of the list, and leaves the balancer as
  it was. A target that joins goes to the end of that order: it has its turn, of one selection, after the turns
  that were left to all the others. The one weight left out is the least integer, which counting down overflows.\<close>

theorem rrbin_fair:
  assumes "distinct (rr_head rr)"
    "\<forall>t\<in>set (rr_head rr). current_weight rr t \<noteq> 0x80000000 \<and> origin_weight rr t \<noteq> 0x80000000"
  shows "\<exists>rr1. rr_selects (length (turns (current_weight rr) (rr_head rr))) rr =
      Ok (turns (current_weight rr) (rr_head rr), rr1) \<and>
    rr_head rr1 = rr_head rr \<and> origin_weight rr1 = origin_weight rr \<and>
    (\<forall>k. rr_selects (k * length (turns (origin_weight rr) (rr_head rr))) rr1 =
      Ok (concat (replicate k (turns (origin_weight rr) (rr_head rr))), rr1)) \<and>
    (\<forall>t. t \<notin> set (rr_head rr) \<longrightarrow> (\<exists>rr2. rr_head rr2 = rr_head rr @ [t] \<and>
      rr_selects (length (turns (current_weight rr) (rr_head rr)) + 1) (weight_rrbin_add t rr) =
        Ok (turns (current_weight rr) (rr_head rr) @ [Some t], rr2)))"
proof -
  let ?rr1 = "rr\<lparr>current_weight := \<lambda>t. if t \<in> set (rr_head rr) then origin_weight rr t else current_weight rr t\<rparr>"
  have 1: "rr_selects (length (turns (current_weight rr) (rr_head rr))) rr = Ok (turns (current_weight rr) (rr_head rr), ?rr1)"
    using rr_turns [of rr "rr_head rr" "[]"] assms by simp
  have 2: "rr_selects (k * length (turns (origin_weight rr) (rr_head rr))) ?rr1 =
      Ok (concat (replicate k (turns (origin_weight rr) (rr_head rr))), ?rr1)" for k
    using rr_rounds [of ?rr1 k] assms by simp
  have 3: "\<exists>rr2. rr_head rr2 = rr_head rr @ [t] \<and>
      rr_selects (length (turns (current_weight rr) (rr_head rr)) + 1) (weight_rrbin_add t rr) =
        Ok (turns (current_weight rr) (rr_head rr) @ [Some t], rr2)" if t: "t \<notin> set (rr_head rr)" for t
  proof -
    let ?a = "weight_rrbin_add t rr"
    have a: "rr_head ?a = rr_head rr @ [t]" "current_weight ?a t = 1" by (simp_all add: weight_rrbin_add_def)
    have "turns (current_weight ?a) (rr_head rr) = turns (current_weight rr) (rr_head rr)"
      by (rule turns_cong) (use t in \<open>auto simp: weight_rrbin_add_def\<close>)
    then have tu: "turns (current_weight ?a) (rr_head rr @ [t]) = turns (current_weight rr) (rr_head rr) @ [Some t]"
      using a(2) by (simp add: burst_def)
    have "\<forall>u\<in>set (rr_head rr @ [t]). current_weight ?a u \<noteq> 0x80000000" using assms(2) t by (auto simp: weight_rrbin_add_def)
    then have r: "rr_selects (length (turns (current_weight ?a) (rr_head rr @ [t]))) ?a =
        Ok (turns (current_weight ?a) (rr_head rr @ [t]), ?a\<lparr>rr_head := rr_head rr @ [t], current_weight :=
          \<lambda>u. if u \<in> set (rr_head rr @ [t]) then origin_weight ?a u else current_weight ?a u\<rparr>)"
      using rr_turns [of ?a "rr_head rr @ [t]" "[]"] a(1) t assms(1) by simp
    show ?thesis using r unfolding tu
      by (intro exI [of _ "?a\<lparr>rr_head := rr_head rr @ [t], current_weight :=
          \<lambda>u. if u \<in> set (rr_head rr @ [t]) then origin_weight ?a u else current_weight ?a u\<rparr>"])
        (simp del: rr_selects.simps)
  qed
  show ?thesis using 1 2 3 by (intro exI [of _ ?rr1]) simp
qed

text \<open>Target 6, of weight 2, has had the first selection of its turn.\<close>

theorem rrbin_fair_witness:
  "\<exists>rr rr1. rr_head rr = [6, 5] \<and> current_weight rr 6 = 1 \<and> origin_weight rr 6 = 2 \<and>
     rr_selects 2 rr = Ok ([Some 6, Some 5], rr1) \<and> rr_selects 3 rr1 = Ok ([Some 6, Some 6, Some 5], rr1)"
proof -
  let ?rr = "\<lparr>rr_head = [6, 5], origin_weight = (\<lambda>t. if t = 6 then 2 else 0), current_weight = (\<lambda>t. if t = 6 then 1 else 0)\<rparr>"
  have b: "burst 2 = 2" "burst 1 = 1" "burst 0 = 1" by (simp_all add: burst_def)
  have r: "turns (current_weight ?rr) (rr_head ?rr) = [Some 6, Some 5]" "turns (origin_weight ?rr) (rr_head ?rr) = [Some 6, Some 6, Some 5]"
    by (simp_all add: b numeral_2_eq_2)
  from rrbin_fair [of ?rr] obtain rr1 where
    "rr_selects (length (turns (current_weight ?rr) (rr_head ?rr))) ?rr = Ok (turns (current_weight ?rr) (rr_head ?rr), rr1)"
    and k: "\<forall>k. rr_selects (k * length (turns (origin_weight ?rr) (rr_head ?rr))) rr1 =
      Ok (concat (replicate k (turns (origin_weight ?rr) (rr_head ?rr))), rr1)" by auto
  then have "rr_selects 2 ?rr = Ok ([Some 6, Some 5], rr1)" unfolding r by (simp add: numeral_2_eq_2)
  moreover have "rr_selects 3 rr1 = Ok ([Some 6, Some 6, Some 5], rr1)" using k [rule_format, of 1] unfolding r by (simp add: numeral_3_eq_3)
  ultimately show ?thesis by (intro exI [of _ ?rr] exI [of _ rr1]) simp_all
qed

text \<open>C32. Whatever targets join and leave in between, round robin answers with a target that is there, and with none
  only when there is none.\<close>

theorem rrbin_selects_members:
  assumes "lb_disciplined ops {}"
  shows "\<exists>rs rr. lb_run weight_rrbin_add weight_rrbin_rm (\<lambda>m :: msgbuf. weight_rrbin_select) ops weight_rrbin_new = Ok (rs, rr) \<and>
    lb_answers ops {} rs"
  using rrlb.run_answers [of weight_rrbin_new ops] assms by (auto simp: weight_rrbin_new_def rrbin_ok_def)

theorem rrbin_selects_members_witness:
  "\<exists>rs rr. lb_run weight_rrbin_add weight_rrbin_rm (\<lambda>m :: msgbuf. weight_rrbin_select)
     [LbAdd 1, LbSelect (plain_msg [7]), LbRm 1, LbSelect (plain_msg [7])] weight_rrbin_new = Ok (rs, rr) \<and>
    lb_answers [LbAdd 1, LbSelect (plain_msg [7]), LbRm 1, LbSelect (plain_msg [7])] {} rs"
  by (rule rrbin_selects_members) simp

section \<open>Hashing does not\<close>

fun ulhash_adds :: "nat list \<Rightarrow> ulhash_lbs \<Rightarrow> ulhash_lbs cres" where
  "ulhash_adds [] ul = Ok ul"
| "ulhash_adds (t # ts) ul = cbind (ulhash_add True t ul) (ulhash_adds ts)"

lemma ulhash_adds_ok:
  "pa_ok (ul_tgs ul) \<Longrightarrow> distinct (pa_list (ul_tgs ul) @ ts) \<Longrightarrow>
   \<forall>k<length (pa_list (ul_tgs ul)). ul_idx ul (pa_list (ul_tgs ul) ! k) = k \<Longrightarrow>
   \<exists>ul'. ulhash_adds ts ul = Ok ul' \<and> pa_ok (ul_tgs ul') \<and> pa_list (ul_tgs ul') = pa_list (ul_tgs ul) @ ts \<and>
     ul_hash ul' = ul_hash ul \<and>
     (\<forall>k<length (pa_list (ul_tgs ul')). ul_idx ul' (pa_list (ul_tgs ul') ! k) = k)"
proof (induction ts arbitrary: ul)
  case (Cons t ts)
  let ?l = "pa_list (ul_tgs ul)"
  obtain a where a: "unorder_p_array_push_back True (ul_tgs ul) t = Ok (length ?l, a)" "pa_ok a" "pa_list a = ?l @ [t]"
    using unorder_p_array_push_back_ok [OF Cons.prems(1)] by blast
  let ?ul = "ul\<lparr>ul_tgs := a, ul_idx := (ul_idx ul)(t := length ?l)\<rparr>"
  have "\<forall>k<length (?l @ [t]). ul_idx ?ul ((?l @ [t]) ! k) = k"
  proof (intro allI impI)
    fix k assume k: "k < length (?l @ [t])"
    have "?l ! k \<noteq> t" if "k < length ?l" using Cons.prems(2) that by (auto simp: in_set_conv_nth)
    with k Cons.prems(3) show "ul_idx ?ul ((?l @ [t]) ! k) = k" by (auto simp: nth_append)
  qed
  with Cons.IH [of ?ul] a Cons.prems(2) show ?case by (auto simp: ulhash_add_def)
qed simp

text \<open>C36. Removing a target from the hash balancer moves the last one into its place but leaves the index of that one as it
  was. Of any three or more targets that have joined, let one leave that is neither of the last two, and then the last
  one: the last but one is dropped in its stead, and the one that left, and is freed, stays behind in the place of the
  first, chosen for every message whose hash points there. The hash is a parameter of the balancer here;
  \<open>set_lbs\<close>, its only user, does not pass one.\<close>

theorem ulhash_rm_wrong_target:
  assumes "distinct ts" "i + 2 < length ts"
  shows "\<exists>ul. cbind (ulhash_new True h) (\<lambda>ul. cbind (ulhash_adds ts ul) (\<lambda>ul.
      cbind (ulhash_rm (ts ! i) ul) (ulhash_rm (last ts)))) = Ok ul \<and>
    pa_list (ul_tgs ul) = (take (length ts - 2) ts)[i := last ts] \<and>
    (\<forall>m. unat (h m) mod (length ts - 2) = i \<longrightarrow> ulhash_select m ul = Ok (Some (last ts), ul))"
proof -
  obtain u0 where u0: "ulhash_new True h = Ok u0" "pa_ok (ul_tgs u0)" "pa_list (ul_tgs u0) = []" "ul_hash u0 = h"
    using unorder_p_array_init_ok by (fastforce simp: ulhash_new_def unorder_p_array_init_def)
  from ulhash_adds_ok [OF u0(2), of ts] u0(3,4) assms(1) obtain u1 where
    u1: "ulhash_adds ts u0 = Ok u1" "pa_ok (ul_tgs u1)" "pa_list (ul_tgs u1) = ts" "ul_hash u1 = h"
      "\<forall>k<length ts. ul_idx u1 (ts ! k) = k" by auto
  have n: "pa_size (ul_tgs u1) = length ts" using pa_size_list [OF u1(2)] u1(3) by simp
  have "ts \<noteq> []" "length ts - 1 < length ts" using assms(2) by auto
  then have ix: "ul_idx u1 (ts ! i) = i" "ul_idx u1 (last ts) = length ts - 1"
    using u1(5) assms(2) by (auto simp: last_conv_nth)
  obtain a2 where a2: "unorder_p_array_erase (ul_tgs u1) i = Ok a2" "pa_ok a2"
      "pa_list a2 = butlast (ts[i := last ts])" "pa_cap a2 = pa_cap (ul_tgs u1)"
    using unorder_p_array_erase_ok [OF u1(2), of i] n assms(2) u1(3) by auto
  have n2: "pa_size a2 = length ts - 1" using pa_size_list [OF a2(2)] a2(3) by simp
  have c: "length ts - 1 < pa_cap a2" using u1(2) n assms(2) a2(4) by (auto simp: pa_ok_def)
  obtain a3 where a3: "unorder_p_array_erase a2 (length ts - 1) = Ok a3" "pa_ok a3" "pa_list a3 = butlast (pa_list a2)"
    using unorder_p_array_erase_past [OF a2(2) _ _ c] n2 assms(2) by auto
  have l3: "pa_list a3 = (take (length ts - 2) ts)[i := last ts]"
    using assms(2) by (simp add: a3(3) a2(3) butlast_conv_take take_update_swap min_def numeral_2_eq_2)
  let ?ul = "u1\<lparr>ul_tgs := a3\<rparr>"
  have run: "cbind (ulhash_new True h) (\<lambda>ul. cbind (ulhash_adds ts ul) (\<lambda>ul.
      cbind (ulhash_rm (ts ! i) ul) (ulhash_rm (last ts)))) = Ok ?ul"
    using a3(1) by (simp add: u0(1) u1(1) ulhash_rm_def ix a2(1))
  have n3: "pa_size a3 = length ts - 2" using pa_size_list [OF a3(2)] l3 by simp
  have "pa_at a3 ! i = Some (last ts)"
  proof -
    have "i < pa_size a3" using n3 assms(2) by simp
    moreover have "pa_list a3 ! i = last ts" using l3 assms(2) by simp
    ultimately show ?thesis using a3(2) by (auto simp: pa_list_def pa_ok_def)
  qed
  moreover have "i < pa_cap a3" using a3(2) n3 assms(2) by (auto simp: pa_ok_def)
  ultimately have "\<forall>m. unat (h m) mod (length ts - 2) = i \<longrightarrow> ulhash_select m ?ul = Ok (Some (last ts), ?ul)"
    using n3 assms(2) u1(4) by (auto simp: ulhash_select_def unorder_p_array_size_def unorder_p_array_at_def Let_def)
  with run l3 show ?thesis by (intro exI [of _ ?ul]) simp
qed

theorem ulhash_rm_wrong_target_witness:
  "\<exists>ul. cbind (ulhash_new True (\<lambda>_. 0)) (\<lambda>ul. cbind (ulhash_adds [1, 2, 3] ul) (\<lambda>ul.
      cbind (ulhash_rm 1 ul) (ulhash_rm 3))) = Ok ul \<and>
    pa_list (ul_tgs ul) = [3] \<and> ulhash_select (plain_msg [7]) ul = Ok (Some 3, ul)"
  using ulhash_rm_wrong_target [of "[1, 2, 3]" 0 "\<lambda>_. 0"] by (auto simp: eval_nat_numeral)

end
