(* ===== verification/Sp.thy ===== *)
theory Sp
  imports World Lbs
begin

text \<open>
  Endpoints of the scalability protocols, \<^verbatim>\<open>src/src/sp/\<close>, over the sockets of \<open>World\<close>: the endpoint
  \<open>struct epbase\<close>, the sockets that joined it (\<open>struct tgtd\<close>), the protocols with their proxies (\<^verbatim>\<open>reqrep/\<close>,
  \<^verbatim>\<open>pubsub/\<close>, \<^verbatim>\<open>bus/\<close>), the event thread, and the calls of the user. The table of virtual functions
  of an endpoint is its kind, and whether \<open>epbase_proxyto\<close> has replaced two of its entries. An operation
  under the lock of an endpoint is one step. \<open>None\<close> is a call that ran out of its fuel \<open>n\<close>.
\<close>

section \<open>State\<close>

datatype sp_kind = ReqEp | RepEp | PubEp | SubEp | BusEp

record epbase =
  ep_vf :: sp_kind
  proxied :: bool
  ep_shutdown :: bool
  ep_ref :: int
  eid :: nat
  ep_rcv :: msgbuf_head
  ep_snd :: msgbuf_head
  ep_listeners :: "nat list"
  ep_connectors :: "nat list"
  bad_socks :: "nat list"
  nlisteners :: nat
  nconnectors :: nat
  ep_peer :: "nat option"
  ep_lbs :: rrbin

text \<open>The targets of all protocols: \<open>uuid\<close> is used by requests and replies, the local storage by the others and by
  proxies. The rest of \<open>struct req_tgtd\<close> is in \<open>rrbin\<close>.\<close>

record tgtd =
  tg_owner :: nat
  tg_pollfd :: poll_fd
  bad_status :: bool
  tg_fd :: int
  tg_uuid :: "byte list"
  ls_head :: msgbuf_head

record sp =
  net :: world
  eps :: "nat \<Rightarrow> epbase option"
  tgs :: "nat \<Rightarrow> tgtd option"
  sp_next :: nat
  sg :: "nat tbl"
  sg_pollid :: int
  shutdown_head :: "nat list"
  sp_wake :: "nat list"

text \<open>\<open>uuid_gen a\<close> is what \<open>uuid_generate\<close> gives the target at \<open>a\<close>, \<open>junk\<close> the value of the variable
  \<open>on\<close> that \<open>listener_event_hndl\<close> does not initialise.\<close>

record senv = env +
  sp_mem :: bool
  uuid_gen :: "nat \<Rightarrow> byte list"
  junk :: i32

definition MAX_ENDPOINTS :: nat where "MAX_ENDPOINTS = 10240"
definition SP_SNDWND :: i32 where "SP_SNDWND = 1048576000"
definition SP_RCVWND :: i32 where "SP_RCVWND = 1048576000"
definition SP_REQREP :: int where "SP_REQREP = 1"
definition SP_BUS :: int where "SP_BUS = 2"
definition SP_PUBSUB :: int where "SP_PUBSUB = 3"
definition SP_REQ :: int where "SP_REQ = 1"
definition SP_REP :: int where "SP_REP = 2"
definition SP_PUB :: int where "SP_PUB = 1"
definition SP_SUB :: int where "SP_SUB = 2"

type_synonym 'a spres = "('a \<times> sp) cres option"

definition net_env :: "senv \<Rightarrow> env" where
  "net_env e = \<lparr>mem = mem e, alloc = alloc e, fuel = fuel e, sock_mem = sock_mem e, poll_mem = poll_mem e,
     pipe_cap = pipe_cap e, have_strndup = have_strndup e\<rparr>"

definition on_net :: "(world \<Rightarrow> 'a wres) \<Rightarrow> sp \<Rightarrow> 'a spres" where
  "on_net f s = obind (f (net s)) (\<lambda>(r, w). Some (Ok (r, s\<lparr>net := w\<rparr>)))"

definition set_ep :: "nat \<Rightarrow> epbase \<Rightarrow> sp \<Rightarrow> sp" where
  "set_ep a x s = s\<lparr>eps := (eps s)(a := Some x)\<rparr>"

definition set_tg :: "nat \<Rightarrow> tgtd \<Rightarrow> sp \<Rightarrow> sp" where
  "set_tg t y s = s\<lparr>tgs := (tgs s)(t := Some y)\<rparr>"

definition epbase_init :: "sp_kind \<Rightarrow> epbase" where
  "epbase_init v =
     \<lparr>ep_vf = v, proxied = False, ep_shutdown = False, ep_ref = 0, eid = 0,
      ep_rcv = msgbuf_head_init SP_RCVWND, ep_snd = msgbuf_head_init SP_SNDWND,
      ep_listeners = [], ep_connectors = [], bad_socks = [], nlisteners = 0, nconnectors = 0,
      ep_peer = None, ep_lbs = weight_rrbin_new\<rparr>"

text \<open>\<open>__sp_init\<close>, with the poll set it has created; and the order in which it registers the protocols.\<close>

definition sp_init :: "int \<Rightarrow> world \<Rightarrow> sp" where
  "sp_init pollid w =
     \<lparr>net = w, eps = (\<lambda>_. None), tgs = (\<lambda>_. None), sp_next = 0, sg = tbl_init MAX_ENDPOINTS, sg_pollid = pollid,
      shutdown_head = [], sp_wake = []\<rparr>"

definition epbase_vfptrs :: "((int \<times> int) \<times> sp_kind) list" where
  "epbase_vfptrs =
     [((SP_REQREP, SP_REQ), ReqEp), ((SP_REQREP, SP_REP), RepEp), ((SP_PUBSUB, SP_PUB), PubEp),
      ((SP_PUBSUB, SP_SUB), SubEp), ((SP_BUS, SP_BUS), BusEp)]"

definition epbase_vfptr_lookup :: "int \<Rightarrow> int \<Rightarrow> sp_kind option" where
  "epbase_vfptr_lookup family type = map_of epbase_vfptrs (family, type)"

section \<open>Endpoint descriptors\<close>

text \<open>\<open>alloc\<close> of the tables: without memory the request and reply endpoints give null; the others take the address of
  the base of a null pointer, which is null as well.\<close>

definition eid_alloc :: "senv \<Rightarrow> int \<Rightarrow> int \<Rightarrow> sp \<Rightarrow> ((errno + nat) \<times> sp) cres" where
  "eid_alloc e family type s =
     (case epbase_vfptr_lookup family type of
        None \<Rightarrow> Ok (Inl EPROTO, s)
      | Some v \<Rightarrow>
          if \<not> sp_mem e then Ok (Inl ENONE, s)
          else cbind (tbl_alloc MAX_ENDPOINTS (sp_next s) (sg s)) (\<lambda>(i, t).
               Ok (Inr i, set_ep (sp_next s) ((epbase_init v)\<lparr>eid := i, ep_ref := 1\<rparr>) (s\<lparr>sg := t, sp_next := sp_next s + 1\<rparr>))))"

text \<open>The table is indexed with the number the user gives, and a slot keeps its address after the endpoint is gone.\<close>

definition eid_get :: "int \<Rightarrow> sp \<Rightarrow> (nat option \<times> sp) cres" where
  "eid_get i s =
     (if i < 0 \<or> i \<ge> int MAX_ENDPOINTS then Undef
      else case slots (sg s) (nat i) of
             None \<Rightarrow> Ok (None, s)
           | Some a \<Rightarrow>
               cbind (deref (eps s a)) (\<lambda>x.
                 if ep_ref x = 0 then Bug else Ok (Some a, set_ep a (x\<lparr>ep_ref := ep_ref x + 1\<rparr>) s)))"

definition eid_put :: "int \<Rightarrow> sp \<Rightarrow> sp cres" where
  "eid_put i s =
     (if i < 0 \<or> i \<ge> int MAX_ENDPOINTS then Undef
      else case slots (sg s) (nat i) of
             None \<Rightarrow> Bug
           | Some a \<Rightarrow>
               cbind (deref (eps s a)) (\<lambda>x.
                 Ok (set_ep a (x\<lparr>ep_ref := ep_ref x - 1\<rparr>)
                      (if ep_ref x = 1 then s\<lparr>shutdown_head := shutdown_head s @ [a]\<rparr> else s))))"

definition sp_endpoint :: "senv \<Rightarrow> int \<Rightarrow> int \<Rightarrow> sp \<Rightarrow> ((errno + nat) \<times> sp) cres" where
  "sp_endpoint e family type s = eid_alloc e family type s"

definition sp_close :: "int \<Rightarrow> sp \<Rightarrow> ((errno + unit) \<times> sp) cres" where
  "sp_close i s =
     cbind (eid_get i s) (\<lambda>(r, s).
       case r of
         None \<Rightarrow> Ok (Inl EBADF, s)
       | Some a \<Rightarrow>
           cbind (deref (eps s a)) (\<lambda>x.
             let s = set_ep a (x\<lparr>ep_shutdown := True\<rparr>) s;
                 s = (if waiters (ep_snd x) \<noteq> 0 \<or> waiters (ep_rcv x) \<noteq> 0 then s\<lparr>sp_wake := sp_wake s @ [a]\<rparr> else s)
             in cbind (eid_put i s) (\<lambda>s. cbind (eid_put i s) (\<lambda>s. Ok (Inr (), s)))))"

section \<open>Targets\<close>

definition get_socktype :: "nat \<Rightarrow> senv \<Rightarrow> int \<Rightarrow> sp \<Rightarrow> int spres" where
  "get_socktype n e fd s =
     obind (on_net (xgetopt n (net_env e) fd XSO_SOCKTYPE) s) (\<lambda>(r, s).
       Some (case r of Inr (RInt v) \<Rightarrow> Ok (sint v, s) | Inr (RStr _) \<Rightarrow> Undef | Inl _ \<Rightarrow> Bug))"

definition poll_ctl :: "nat \<Rightarrow> senv \<Rightarrow> int \<Rightarrow> poll_fd \<Rightarrow> sp \<Rightarrow> sp cres option" where
  "poll_ctl n e op f s =
     obind (on_net (xpoll_ctl n (net_env e) (sg_pollid s) op f) s) (\<lambda>(r, s).
       Some (case r of Inr _ \<Rightarrow> Ok s | Inl _ \<Rightarrow> Bug))"

definition sg_add_tg :: "nat \<Rightarrow> senv \<Rightarrow> nat \<Rightarrow> sp \<Rightarrow> sp cres option" where
  "sg_add_tg n e t s = obind (Some (deref (tgs s t))) (\<lambda>y. poll_ctl n e XPOLL_ADD (tg_pollfd y) s)"

definition sg_update_tg :: "nat \<Rightarrow> senv \<Rightarrow> nat \<Rightarrow> u32 \<Rightarrow> sp \<Rightarrow> sp cres option" where
  "sg_update_tg n e t ev s =
     obind (Some (deref (tgs s t))) (\<lambda>y.
     let f = (tg_pollfd y)\<lparr>pevents := ev\<rparr> in poll_ctl n e XPOLL_MOD f (set_tg t (y\<lparr>tg_pollfd := f\<rparr>) s))"

definition tgtd_try_enable_out :: "nat \<Rightarrow> senv \<Rightarrow> nat \<Rightarrow> sp \<Rightarrow> sp cres option" where
  "tgtd_try_enable_out n e t s =
     obind (Some (deref (tgs s t))) (\<lambda>y.
       if pevents (tg_pollfd y) AND XPOLLOUT = 0 then sg_update_tg n e t (pevents (tg_pollfd y) OR XPOLLOUT) s
       else Some (Ok s))"

definition tgtd_try_disable_out :: "nat \<Rightarrow> senv \<Rightarrow> nat \<Rightarrow> sp \<Rightarrow> sp cres option" where
  "tgtd_try_disable_out n e t s =
     obind (Some (deref (tgs s t))) (\<lambda>y.
       if pevents (tg_pollfd y) AND XPOLLOUT \<noteq> 0 then sg_update_tg n e t (pevents (tg_pollfd y) AND NOT XPOLLOUT) s
       else Some (Ok s))"

definition generic_tgtd_init :: "nat \<Rightarrow> senv \<Rightarrow> nat \<Rightarrow> nat \<Rightarrow> int \<Rightarrow> byte list \<Rightarrow> sp \<Rightarrow> sp cres option" where
  "generic_tgtd_init n e a t fd uuid s =
     obind (get_socktype n e fd s) (\<lambda>(ty, s).
       Some (Ok (set_tg t
         \<lparr>tg_owner = a,
          tg_pollfd = \<lparr>pfd = fd, phndl = t, pevents = XPOLLIN OR XPOLLERR OR (if ty = XCONNECTOR then XPOLLOUT else 0), happened = 0\<rparr>,
          bad_status = False, tg_fd = fd, tg_uuid = uuid, ls_head = msgbuf_head_init SP_SNDWND\<rparr> s)))"

text \<open>\<open>join\<close>: the target is allocated (here, its address is the next one) and initialised; \<open>None\<close> is the null pointer.\<close>

definition new_tgtd :: "nat \<Rightarrow> senv \<Rightarrow> nat \<Rightarrow> (nat \<Rightarrow> byte list) \<Rightarrow> int \<Rightarrow> sp \<Rightarrow> nat option spres" where
  "new_tgtd n e a uuid fd s =
     (if \<not> sp_mem e then Some (Ok (None, s))
      else let t = sp_next s
           in obind (generic_tgtd_init n e a t fd (uuid t) (s\<lparr>sp_next := t + 1\<rparr>)) (\<lambda>s. Some (Ok (Some t, s))))"

text \<open>Only a requester has a balancer, in which only connections take part.\<close>

definition reqep_join :: "nat \<Rightarrow> senv \<Rightarrow> nat \<Rightarrow> int \<Rightarrow> sp \<Rightarrow> nat option spres" where
  "reqep_join n e a fd s =
     obind (new_tgtd n e a (uuid_gen e) fd s) (\<lambda>(t, s).
       case t of
         None \<Rightarrow> Some (Ok (None, s))
       | Some t \<Rightarrow>
           obind (get_socktype n e fd s) (\<lambda>(ty, s).
             if ty = XCONNECTOR
             then obind (Some (deref (eps s a))) (\<lambda>x.
                    Some (Ok (Some t, set_ep a (x\<lparr>ep_lbs := weight_rrbin_add t (ep_lbs x)\<rparr>) s)))
             else Some (Ok (Some t, s))))"

definition repep_join :: "nat \<Rightarrow> senv \<Rightarrow> nat \<Rightarrow> int \<Rightarrow> sp \<Rightarrow> nat option spres" where
  "repep_join n e a fd s = new_tgtd n e a (\<lambda>_. replicate 16 0) fd s"

definition pub_ep_join :: "nat \<Rightarrow> senv \<Rightarrow> nat \<Rightarrow> int \<Rightarrow> sp \<Rightarrow> nat option spres" where
  "pub_ep_join n e a fd s = new_tgtd n e a (\<lambda>_. replicate 16 0) fd s"

definition sub_ep_join :: "nat \<Rightarrow> senv \<Rightarrow> nat \<Rightarrow> int \<Rightarrow> sp \<Rightarrow> nat option spres" where
  "sub_ep_join n e a fd s = new_tgtd n e a (\<lambda>_. replicate 16 0) fd s"

definition bus_ep_join :: "nat \<Rightarrow> senv \<Rightarrow> nat \<Rightarrow> int \<Rightarrow> sp \<Rightarrow> nat option spres" where
  "bus_ep_join n e a fd s = new_tgtd n e a (\<lambda>_. replicate 16 0) fd s"

definition vf_join :: "nat \<Rightarrow> senv \<Rightarrow> nat \<Rightarrow> int \<Rightarrow> sp \<Rightarrow> nat option spres" where
  "vf_join n e a fd s =
     obind (Some (deref (eps s a))) (\<lambda>x.
       case ep_vf x of
         ReqEp \<Rightarrow> reqep_join n e a fd s
       | RepEp \<Rightarrow> repep_join n e a fd s
       | PubEp \<Rightarrow> pub_ep_join n e a fd s
       | SubEp \<Rightarrow> sub_ep_join n e a fd s
       | BusEp \<Rightarrow> bus_ep_join n e a fd s)"

text \<open>\<open>term\<close>: a target that its balancer does not have was left behind by \<open>set_lbs\<close>, linked into the list of a balancer
  that has been freed. The other protocols free the target.\<close>

definition free_tgtd :: "nat \<Rightarrow> sp \<Rightarrow> sp" where
  "free_tgtd t s = s\<lparr>tgs := (tgs s)(t := None)\<rparr>"

definition reqep_term :: "nat \<Rightarrow> senv \<Rightarrow> nat \<Rightarrow> nat \<Rightarrow> sp \<Rightarrow> sp cres option" where
  "reqep_term n e a t s =
     obind (Some (deref (tgs s t))) (\<lambda>y.
     obind (get_socktype n e (tg_fd y) s) (\<lambda>(ty, s).
       if ty \<noteq> XCONNECTOR then Some (Ok (free_tgtd t s))
       else obind (Some (deref (eps s a))) (\<lambda>x.
            if t \<notin> set (rr_head (ep_lbs x)) then Some Undef
            else Some (Ok (free_tgtd t (set_ep a (x\<lparr>ep_lbs := weight_rrbin_rm t (ep_lbs x)\<rparr>) s))))))"

definition repep_term :: "nat \<Rightarrow> sp \<Rightarrow> sp" where
  "repep_term t s = free_tgtd t s"

definition pub_ep_term :: "nat \<Rightarrow> sp \<Rightarrow> sp" where
  "pub_ep_term t s = free_tgtd t s"

definition sub_ep_term :: "nat \<Rightarrow> sp \<Rightarrow> sp" where
  "sub_ep_term t s = free_tgtd t s"

definition bus_ep_term :: "nat \<Rightarrow> sp \<Rightarrow> sp" where
  "bus_ep_term t s = free_tgtd t s"

definition vf_term :: "nat \<Rightarrow> senv \<Rightarrow> nat \<Rightarrow> nat \<Rightarrow> sp \<Rightarrow> sp cres option" where
  "vf_term n e a t s =
     obind (Some (deref (eps s a))) (\<lambda>x.
     obind (Some (deref (tgs s t))) (\<lambda>y.
       case ep_vf x of
         ReqEp \<Rightarrow> reqep_term n e a t s
       | RepEp \<Rightarrow> Some (Ok (repep_term t s))
       | PubEp \<Rightarrow> Some (Ok (pub_ep_term t s))
       | SubEp \<Rightarrow> Some (Ok (sub_ep_term t s))
       | BusEp \<Rightarrow> Some (Ok (bus_ep_term t s))))"

text \<open>\<open>epbase_add_tgtd\<close>; \<open>False\<close> is \<open>-1\<close>. \<open>status.bad\<close> shares its memory with \<open>status.shutdown\<close>.\<close>

definition epbase_add_tgtd :: "nat \<Rightarrow> senv \<Rightarrow> nat \<Rightarrow> nat \<Rightarrow> sp \<Rightarrow> bool spres" where
  "epbase_add_tgtd n e a t s =
     obind (Some (deref (eps s a))) (\<lambda>x.
       if ep_shutdown x then Some (Ok (False, s))
       else obind (Some (deref (tgs s t))) (\<lambda>y.
            obind (get_socktype n e (tg_fd y) s) (\<lambda>(ty, s).
            obind (Some (if ty = XLISTENER
                         then Ok (set_ep a (x\<lparr>ep_listeners := ep_listeners x @ [t], nlisteners := nlisteners x + 1\<rparr>) s)
                         else if ty = XCONNECTOR
                         then Ok (set_ep a (x\<lparr>ep_connectors := ep_connectors x @ [t], nconnectors := nconnectors x + 1\<rparr>) s)
                         else Bug)) (\<lambda>s.
            obind (sg_add_tg n e t s) (\<lambda>s. Some (Ok (True, s)))))))"

text \<open>\<open>sp_add\<close>: a failed \<open>join\<close> is passed over.\<close>

definition sp_add :: "nat \<Rightarrow> senv \<Rightarrow> int \<Rightarrow> int \<Rightarrow> sp \<Rightarrow> (errno + unit) spres" where
  "sp_add n e i fd s =
     obind (Some (eid_get i s)) (\<lambda>(r, s).
       case r of
         None \<Rightarrow> Some (Ok (Inl EBADF, s))
       | Some a \<Rightarrow>
           obind (vf_join n e a fd s) (\<lambda>(t, s).
           obind (case t of None \<Rightarrow> Some (Ok (True, s)) | Some t \<Rightarrow>
                    obind (epbase_add_tgtd n e a t s) (\<lambda>(ok, s).
                      if ok then Some (Ok (True, s)) else obind (vf_term n e a t s) (\<lambda>s. Some (Ok (False, s))))) (\<lambda>(ok, s).
             if \<not> ok then obind (Some (eid_put i s)) (\<lambda>s. Some (Ok (Inl ENONE, s)))
             else obind (on_net (xsetopt n (net_env e) fd XSO_NOBLOCK 1) s) (\<lambda>(_, s).
                  obind (on_net (xsetopt n (net_env e) fd XSO_NODELAY 1) s) (\<lambda>(_, s).
                  obind (Some (eid_put i s)) (\<lambda>s. Some (Ok (Inr (), s))))))))"

text \<open>\<open>list_move_tail\<close> into \<open>bad_socks\<close> from whatever list the target is in.\<close>

definition sp_generic_term_by_tgtd :: "nat \<Rightarrow> nat \<Rightarrow> sp \<Rightarrow> sp cres" where
  "sp_generic_term_by_tgtd a t s =
     cbind (deref (eps s a)) (\<lambda>x.
       Ok (set_ep a (x\<lparr>ep_listeners := remove1 t (ep_listeners x), ep_connectors := remove1 t (ep_connectors x),
                      bad_socks := remove1 t (bad_socks x) @ [t]\<rparr>) s))"

definition has_fd :: "sp \<Rightarrow> int \<Rightarrow> nat \<Rightarrow> bool" where
  "has_fd s fd t \<longleftrightarrow> (case tgs s t of None \<Rightarrow> False | Some y \<Rightarrow> tg_fd y = fd)"

definition sp_generic_term_by_fd :: "nat \<Rightarrow> int \<Rightarrow> sp \<Rightarrow> sp cres" where
  "sp_generic_term_by_fd a fd s =
     cbind (deref (eps s a)) (\<lambda>x.
       let bad = filter (has_fd s fd) (ep_connectors x) @ filter (has_fd s fd) (ep_listeners x)
       in Ok (set_ep a (x\<lparr>ep_connectors := filter (\<lambda>t. \<not> has_fd s fd t) (ep_connectors x),
                         ep_listeners := filter (\<lambda>t. \<not> has_fd s fd t) (ep_listeners x),
                         bad_socks := bad_socks x @ bad\<rparr>)
               (s\<lparr>tgs := (\<lambda>t. if t \<in> set bad then map_option (\<lambda>y. y\<lparr>bad_status := True\<rparr>) (tgs s t) else tgs s t)\<rparr>)))"

definition sp_rm :: "int \<Rightarrow> int \<Rightarrow> sp \<Rightarrow> ((errno + unit) \<times> sp) cres" where
  "sp_rm i fd s =
     cbind (eid_get i s) (\<lambda>(r, s).
       case r of
         None \<Rightarrow> Ok (Inl EBADF, s)
       | Some a \<Rightarrow> cbind (sp_generic_term_by_fd a fd s) (\<lambda>s. cbind (eid_put i s) (\<lambda>s. Ok (Inr (), s))))"

section \<open>Messages in and out of an endpoint\<close>

text \<open>\<open>msgbuf_head_in (&ep->rcv, ubuf)\<close> and the broadcast; the window is not looked at.\<close>

definition ep_deliver :: "nat \<Rightarrow> msgbuf \<Rightarrow> sp \<Rightarrow> sp cres" where
  "ep_deliver a m s =
     cbind (deref (eps s a)) (\<lambda>x.
     cbind (msgbuf_head_in (ep_rcv x) m) (\<lambda>(_, h).
       let s = set_ep a (x\<lparr>ep_rcv := h\<rparr>) s
       in if waiters h \<noteq> 0 then Ok (s\<lparr>sp_wake := sp_wake s @ [a]\<rparr>) else Ok s))"

text \<open>The assertion that there are not less than no waiters, of the request and reply endpoints.\<close>

definition check_waiters :: "nat \<Rightarrow> sp \<Rightarrow> sp cres" where
  "check_waiters a s = cbind (deref (eps s a)) (\<lambda>x. if sint (waiters (ep_rcv x)) < 0 then Bug else Ok s)"

text \<open>A message into the local storage of a target, and out of it.\<close>

definition ls_in :: "nat \<Rightarrow> senv \<Rightarrow> nat \<Rightarrow> msgbuf \<Rightarrow> sp \<Rightarrow> sp cres option" where
  "ls_in n e t m s =
     obind (Some (deref (tgs s t))) (\<lambda>y.
     obind (Some (msgbuf_head_in (ls_head y) m)) (\<lambda>(_, h). tgtd_try_enable_out n e t (set_tg t (y\<lparr>ls_head := h\<rparr>) s)))"

definition ls_out :: "nat \<Rightarrow> senv \<Rightarrow> nat \<Rightarrow> sp \<Rightarrow> msgbuf option spres" where
  "ls_out n e t s =
     obind (Some (deref (tgs s t))) (\<lambda>y.
     obind (Some (msgbuf_head_empty (ls_head y))) (\<lambda>em.
       if em then obind (tgtd_try_disable_out n e t s) (\<lambda>s. Some (Ok (None, s)))
       else obind (Some (msgbuf_head_out (ls_head y))) (\<lambda>(m, _, h). Some (Ok (Some m, set_tg t (y\<lparr>ls_head := h\<rparr>) s)))))"

text \<open>\<open>clone_ubuf\<close>: a copy of the payload and of the control messages.\<close>

definition clone_ubuf :: "(nat \<Rightarrow> bool) \<Rightarrow> msgbuf \<Rightarrow> msgbuf cres" where
  "clone_ubuf al src =
     cbind (ualloc al (usize src)) (\<lambda>p.
       case p of
         None \<Rightarrow> Bug
       | Some d \<Rightarrow>
           if sint (usize src) < 0 then Undef
           else sub_msgbuf_copy al src (upd_ubase (\<lambda>u. memcpy_at u 0 (take (unat (usize src)) (ubase src))) d))"

text \<open>Lookup of a connection by the identifier of a route entry (\<open>get_tgtd_if\<close> over \<open>connectors\<close>): without connections
  the entry is not read.\<close>

definition find_uuid :: "nat \<Rightarrow> byte list cres \<Rightarrow> sp \<Rightarrow> nat option cres" where
  "find_uuid a rt s =
     cbind (deref (eps s a)) (\<lambda>x.
       if ep_connectors x = [] then Ok None
       else cbind rt (\<lambda>u.
            Ok (find (\<lambda>t. case tgs s t of None \<Rightarrow> False | Some y \<Rightarrow> tg_uuid y = u) (ep_connectors x))))"

section \<open>Requests and replies\<close>

text \<open>The assertions of \<open>rt_cur\<close> and \<open>rt_prev\<close>, before the entry is read.\<close>

definition cur_entry :: "msgbuf \<Rightarrow> nat cres" where
  "cur_entry m = cbind (deref (get_rrhdr m)) cur_slot"

definition prev_entry :: "msgbuf \<Rightarrow> nat cres" where
  "prev_entry m = cbind (deref (get_rrhdr m)) prev_slot"

definition reqep_send :: "nat \<Rightarrow> senv \<Rightarrow> nat \<Rightarrow> msgbuf \<Rightarrow> sp \<Rightarrow> (errno + unit) wait spres" where
  "reqep_send n e a m s =
     obind (Some (deref (eps s a))) (\<lambda>x.
     obind (Some (weight_rrbin_select (ep_lbs x))) (\<lambda>(go, rr).
     let s = set_ep a (x\<lparr>ep_lbs := rr\<rparr>) s
     in case go of
          None \<Rightarrow> Some (Ok (Done (Inl ENONE), s))
        | Some t \<Rightarrow>
            obind (Some (deref (tgs s t))) (\<lambda>y.
            obind (Some (stamp_request (alloc e) (tg_uuid y) m)) (\<lambda>m.
              on_net (xsend False n (net_env e) (tg_fd y) m) s))))"

text \<open>\<open>reqep_add\<close>; \<open>False\<close> is \<open>-1\<close>, upon which the caller frees the message.\<close>

definition reqep_add :: "nat \<Rightarrow> msgbuf \<Rightarrow> sp \<Rightarrow> (bool \<times> sp) cres" where
  "reqep_add a m s =
     (case get_rrhdr m of
        None \<Rightarrow> Ok (False, s)
      | Some _ \<Rightarrow>
          cbind (pop_rt m) (\<lambda>m. cbind (check_waiters a s) (\<lambda>s. cbind (ep_deliver a m s) (\<lambda>s. Ok (True, s)))))"

text \<open>\<open>reqep_rm\<close> and \<open>repep_rm\<close> have nothing to send.\<close>

definition reqep_rm :: "nat \<Rightarrow> senv \<Rightarrow> nat \<Rightarrow> sp \<Rightarrow> msgbuf option spres" where
  "reqep_rm n e t s =
     obind (Some (deref (tgs s t))) (\<lambda>y.
       if pevents (tg_pollfd y) AND XPOLLOUT \<noteq> 0
       then obind (sg_update_tg n e t (pevents (tg_pollfd y) AND NOT XPOLLOUT) s) (\<lambda>s. Some (Ok (None, s)))
       else Some (Ok (None, s)))"

definition repep_rm :: "nat \<Rightarrow> senv \<Rightarrow> nat \<Rightarrow> sp \<Rightarrow> msgbuf option spres" where
  "repep_rm n e t s =
     obind (Some (deref (tgs s t))) (\<lambda>y.
       if pevents (tg_pollfd y) AND XPOLLOUT \<noteq> 0
       then obind (sg_update_tg n e t (pevents (tg_pollfd y) AND NOT XPOLLOUT) s) (\<lambda>s. Some (Ok (None, s)))
       else Some (Ok (None, s)))"

text \<open>\<open>repep_send\<close>: the target found moves to the front.\<close>

definition repep_send :: "nat \<Rightarrow> senv \<Rightarrow> nat \<Rightarrow> msgbuf \<Rightarrow> sp \<Rightarrow> (errno + unit) wait spres" where
  "repep_send n e a m s =
     obind (Some (cur_entry m)) (\<lambda>_.
     obind (Some (find_uuid a (rt_cur m) s)) (\<lambda>r.
     obind (Some (stamp_reply m)) (\<lambda>m.
       case r of
         None \<Rightarrow> Some (Ok (Done (Inl ENONE), s))
       | Some t \<Rightarrow>
           obind (Some (deref (eps s a))) (\<lambda>x.
           obind (Some (deref (tgs s t))) (\<lambda>y.
             on_net (xsend False n (net_env e) (tg_fd y) m)
               (set_ep a (x\<lparr>ep_connectors := t # remove1 t (ep_connectors x)\<rparr>) s))))))"

definition repep_add :: "nat \<Rightarrow> nat \<Rightarrow> msgbuf \<Rightarrow> sp \<Rightarrow> (bool \<times> sp) cres" where
  "repep_add a t m s =
     cbind (rt_cur m) (\<lambda>u.
     cbind (deref (tgs s t)) (\<lambda>y.
     let s = set_tg t (y\<lparr>tg_uuid := u\<rparr>) s
     in cbind (check_waiters a s) (\<lambda>s. cbind (ep_deliver a m s) (\<lambda>s. Ok (True, s)))))"

section \<open>Proxies\<close>

definition receiver_add :: "nat \<Rightarrow> senv \<Rightarrow> nat \<Rightarrow> nat \<Rightarrow> msgbuf \<Rightarrow> sp \<Rightarrow> bool spres" where
  "receiver_add n e a t m s =
     obind (Some (deref (eps s a))) (\<lambda>x.
     obind (Some (deref (ep_peer x))) (\<lambda>b.
     obind (Some (deref (eps s b))) (\<lambda>p.
     obind (Some (cur_entry m)) (\<lambda>_.
     obind (Some (weight_rrbin_select (ep_lbs p))) (\<lambda>(go, rr).
     let s = set_ep b (p\<lparr>ep_lbs := rr\<rparr>) s
     in case go of
          None \<Rightarrow> Some (Ok (False, s))
        | Some g \<Rightarrow>
            obind (Some (deref (tgs s t))) (\<lambda>y.
            obind (Some (rt_cur m)) (\<lambda>u.
            obind (ls_in n e g m (set_tg t (y\<lparr>tg_uuid := u\<rparr>) s)) (\<lambda>s. Some (Ok (True, s))))))))))"

definition dispatcher_rm :: "nat \<Rightarrow> senv \<Rightarrow> nat \<Rightarrow> sp \<Rightarrow> msgbuf option spres" where
  "dispatcher_rm n e t s =
     obind (Some (deref (tgs s t))) (\<lambda>y.
     obind (ls_out n e t s) (\<lambda>(r, s).
       case r of
         None \<Rightarrow> Some (Ok (None, s))
       | Some m \<Rightarrow> obind (Some (rt_append (alloc e) m (rt_of_uuid (tg_uuid y)))) (\<lambda>m. Some (Ok (Some m, s)))))"

definition dispatcher_add :: "nat \<Rightarrow> senv \<Rightarrow> nat \<Rightarrow> msgbuf \<Rightarrow> sp \<Rightarrow> bool spres" where
  "dispatcher_add n e a m s =
     obind (Some (deref (eps s a))) (\<lambda>x.
     obind (Some (deref (ep_peer x))) (\<lambda>b.
     obind (Some (prev_entry m)) (\<lambda>_.
     obind (Some (find_uuid b (rt_prev m) s)) (\<lambda>r.
       case r of
         None \<Rightarrow> Some (Ok (False, s))
       | Some t \<Rightarrow> obind (Some (pop_rt m)) (\<lambda>m. obind (ls_in n e t m s) (\<lambda>s. Some (Ok (True, s))))))))"

definition receiver_rm :: "nat \<Rightarrow> senv \<Rightarrow> nat \<Rightarrow> sp \<Rightarrow> msgbuf option spres" where
  "receiver_rm n e t s = ls_out n e t s"

text \<open>\<open>epbase_proxyto\<close> takes its arguments for a reply and a request endpoint without looking.\<close>

definition epbase_proxyto :: "nat \<Rightarrow> nat \<Rightarrow> sp \<Rightarrow> ((errno + unit) \<times> sp) cres" where
  "epbase_proxyto f b s =
     cbind (deref (eps s f)) (\<lambda>x.
     cbind (deref (eps s b)) (\<lambda>y.
       if ep_vf x \<noteq> RepEp \<or> ep_vf y \<noteq> ReqEp then Undef
       else if ep_connectors x \<noteq> [] \<or> bad_socks x \<noteq> [] \<or> ep_connectors y \<noteq> [] \<or> bad_socks y \<noteq> [] then Ok (Inl EINVAL, s)
       else Ok (Inr (), set_ep f (x\<lparr>ep_peer := Some b, proxied := True\<rparr>) (set_ep b (y\<lparr>ep_peer := Some f, proxied := True\<rparr>) s))))"

section \<open>Publishing and the bus\<close>

text \<open>The loops of \<open>bus_ep_send\<close> and \<open>pub_ep_send\<close>: the last target gets the message itself.\<close>

fun send_all :: "nat \<Rightarrow> senv \<Rightarrow> msgbuf \<Rightarrow> nat list \<Rightarrow> sp \<Rightarrow> sp cres option" where
  "send_all n e m [] s = Some (Ok s)"
| "send_all n e m [t] s = ls_in n e t m s"
| "send_all n e m (t # ts) s = obind (Some (clone_ubuf (alloc e) m)) (\<lambda>c. obind (ls_in n e t c s) (send_all n e m ts))"

definition bus_ep_send :: "nat \<Rightarrow> senv \<Rightarrow> nat \<Rightarrow> msgbuf \<Rightarrow> sp \<Rightarrow> (errno + unit) wait spres" where
  "bus_ep_send n e a m s =
     obind (Some (deref (eps s a))) (\<lambda>x. obind (send_all n e m (ep_connectors x) s) (\<lambda>s. Some (Ok (Done (Inr ()), s))))"

definition pub_ep_send :: "nat \<Rightarrow> senv \<Rightarrow> nat \<Rightarrow> msgbuf \<Rightarrow> sp \<Rightarrow> (errno + unit) wait spres" where
  "pub_ep_send n e a m s =
     obind (Some (deref (eps s a))) (\<lambda>x. obind (send_all n e m (ep_connectors x) s) (\<lambda>s. Some (Ok (Done (Inr ()), s))))"

fun spread :: "nat \<Rightarrow> senv \<Rightarrow> msgbuf \<Rightarrow> nat \<Rightarrow> nat list \<Rightarrow> sp \<Rightarrow> sp cres option" where
  "spread n e m src [] s = Some (Ok s)"
| "spread n e m src (t # ts) s =
     (if t = src then spread n e m src ts s
      else obind (Some (clone_ubuf (alloc e) m)) (\<lambda>c. obind (ls_in n e t c s) (spread n e m src ts)))"

definition bus_ep_add :: "nat \<Rightarrow> senv \<Rightarrow> nat \<Rightarrow> nat \<Rightarrow> msgbuf \<Rightarrow> sp \<Rightarrow> bool spres" where
  "bus_ep_add n e a src m s =
     obind (Some (deref (eps s a))) (\<lambda>x.
     obind (spread n e m src (ep_connectors x) s) (\<lambda>s. obind (Some (ep_deliver a m s)) (\<lambda>s. Some (Ok (True, s)))))"

definition pub_ep_rm :: "nat \<Rightarrow> senv \<Rightarrow> nat \<Rightarrow> sp \<Rightarrow> msgbuf option spres" where
  "pub_ep_rm n e t s = ls_out n e t s"

definition bus_ep_rm :: "nat \<Rightarrow> senv \<Rightarrow> nat \<Rightarrow> sp \<Rightarrow> msgbuf option spres" where
  "bus_ep_rm n e t s = ls_out n e t s"

definition sub_ep_rm :: "nat \<Rightarrow> senv \<Rightarrow> nat \<Rightarrow> sp \<Rightarrow> msgbuf option spres" where
  "sub_ep_rm n e t s = obind (tgtd_try_disable_out n e t s) (\<lambda>s. Some (Ok (None, s)))"

definition sub_ep_add :: "nat \<Rightarrow> msgbuf \<Rightarrow> sp \<Rightarrow> (bool \<times> sp) cres" where
  "sub_ep_add a m s = cbind (ep_deliver a m s) (\<lambda>s. Ok (True, s))"

text \<open>A publisher takes no message from the network, a subscriber sends none.\<close>

definition pub_ep_add :: "msgbuf \<Rightarrow> sp \<Rightarrow> (bool \<times> sp) cres" where
  "pub_ep_add m s = Ok (False, s)"

definition sub_ep_send :: "msgbuf \<Rightarrow> sp \<Rightarrow> ((errno + unit) wait \<times> sp) cres" where
  "sub_ep_send m s = Ok (Done (Inl EPERM), s)"

section \<open>The tables\<close>

definition ep_send :: "nat \<Rightarrow> senv \<Rightarrow> nat \<Rightarrow> msgbuf \<Rightarrow> sp \<Rightarrow> (errno + unit) wait spres" where
  "ep_send n e a m s =
     obind (Some (deref (eps s a))) (\<lambda>x.
       case ep_vf x of
         ReqEp \<Rightarrow> reqep_send n e a m s
       | RepEp \<Rightarrow> repep_send n e a m s
       | PubEp \<Rightarrow> pub_ep_send n e a m s
       | SubEp \<Rightarrow> Some (sub_ep_send m s)
       | BusEp \<Rightarrow> bus_ep_send n e a m s)"

definition ep_add :: "nat \<Rightarrow> senv \<Rightarrow> nat \<Rightarrow> nat \<Rightarrow> msgbuf \<Rightarrow> sp \<Rightarrow> bool spres" where
  "ep_add n e a t m s =
     obind (Some (deref (eps s a))) (\<lambda>x.
       case ep_vf x of
         ReqEp \<Rightarrow> if proxied x then dispatcher_add n e a m s else Some (reqep_add a m s)
       | RepEp \<Rightarrow> if proxied x then receiver_add n e a t m s else Some (repep_add a t m s)
       | PubEp \<Rightarrow> Some (pub_ep_add m s)
       | SubEp \<Rightarrow> Some (sub_ep_add a m s)
       | BusEp \<Rightarrow> bus_ep_add n e a t m s)"

definition ep_rm :: "nat \<Rightarrow> senv \<Rightarrow> nat \<Rightarrow> nat \<Rightarrow> sp \<Rightarrow> msgbuf option spres" where
  "ep_rm n e a t s =
     obind (Some (deref (eps s a))) (\<lambda>x.
       case ep_vf x of
         ReqEp \<Rightarrow> if proxied x then dispatcher_rm n e t s else reqep_rm n e t s
       | RepEp \<Rightarrow> if proxied x then receiver_rm n e t s else repep_rm n e t s
       | PubEp \<Rightarrow> pub_ep_rm n e t s
       | SubEp \<Rightarrow> sub_ep_rm n e t s
       | BusEp \<Rightarrow> bus_ep_rm n e t s)"

section \<open>Sending and receiving\<close>

text \<open>\<open>sp_send\<close> of an endpoint that is shut down does not give its reference back.\<close>

definition sp_send :: "nat \<Rightarrow> senv \<Rightarrow> int \<Rightarrow> msgbuf \<Rightarrow> sp \<Rightarrow> (errno + unit) wait spres" where
  "sp_send n e i m s =
     obind (Some (eid_get i s)) (\<lambda>(r, s).
       case r of
         None \<Rightarrow> Some (Ok (Done (Inl EBADF), s))
       | Some a \<Rightarrow>
           obind (Some (deref (eps s a))) (\<lambda>x.
             if ep_shutdown x then Some (Ok (Done (Inl EBADF), s))
             else obind (ep_send n e a m s) (\<lambda>(r, s).
                    case r of
                      Blocked \<Rightarrow> Some (Ok (Blocked, s))
                    | Done r \<Rightarrow> obind (Some (eid_put i s)) (\<lambda>s. Some (Ok (Done r, s))))))"

definition sp_recv :: "bool \<Rightarrow> int \<Rightarrow> sp \<Rightarrow> ((errno + msgbuf) wait \<times> sp) cres" where
  "sp_recv resumed i s =
     cbind (if resumed then Ok (slots (sg s) (nat i), s) else eid_get i s) (\<lambda>(r, s).
       case r of
         None \<Rightarrow> Ok (Done (Inl EBADF), s)
       | Some a \<Rightarrow>
           cbind (deref (eps s a)) (\<lambda>x.
             let x = (if resumed then x\<lparr>ep_rcv := msgbuf_head_decr_waiters (ep_rcv x)\<rparr> else x)
             in if \<not> ep_shutdown x \<and> bh_msgs (ep_rcv x) = []
                then Ok (Blocked, set_ep a (x\<lparr>ep_rcv := msgbuf_head_incr_waiters (ep_rcv x)\<rparr>) s)
                else if ep_shutdown x then cbind (eid_put i (set_ep a x s)) (\<lambda>s. Ok (Done (Inl EBADF), s))
                else cbind (msgbuf_head_out (ep_rcv x)) (\<lambda>(m, _, h).
                     cbind (eid_put i (set_ep a (x\<lparr>ep_rcv := h\<rparr>) s)) (\<lambda>s. Ok (Done (Inr m), s)))))"

section \<open>Options\<close>

definition SP_PROXY :: int where "SP_PROXY = 0"
definition SP_REQ_LBS :: int where "SP_REQ_LBS = 1"
definition SP_REQ_RRBIN_WEIGHT :: int where "SP_REQ_RRBIN_WEIGHT = 2"
definition SP_REQ_RRBIN :: int where "SP_REQ_RRBIN = 0"
definition SP_REQ_ULHASH :: int where "SP_REQ_ULHASH = 1"

text \<open>The value an option is given: an integer, or \<open>struct rrbin_attr\<close>.\<close>

datatype sp_optval = SpInt i32 | SpWeight int i32

text \<open>\<open>set_proxyto\<close> of a requester gets its reply endpoint, that of a reply endpoint its requester.\<close>

definition reqep_set_proxyto :: "nat \<Rightarrow> int \<Rightarrow> sp \<Rightarrow> ((errno + unit) \<times> sp) cres" where
  "reqep_set_proxyto a i s =
     cbind (eid_get i s) (\<lambda>(r, s).
       case r of
         None \<Rightarrow> Ok (Inl EBADF, s)
       | Some b \<Rightarrow> cbind (epbase_proxyto b a s) (\<lambda>(r, s). cbind (eid_put i s) (\<lambda>s. Ok (r, s))))"

definition repep_set_proxyto :: "nat \<Rightarrow> int \<Rightarrow> sp \<Rightarrow> ((errno + unit) \<times> sp) cres" where
  "repep_set_proxyto a i s =
     cbind (eid_get i s) (\<lambda>(r, s).
       case r of
         None \<Rightarrow> Ok (Inl EBADF, s)
       | Some b \<Rightarrow> cbind (epbase_proxyto a b s) (\<lambda>(r, s). cbind (eid_put i s) (\<lambda>s. Ok (r, s))))"

text \<open>\<open>set_lbs\<close>: the new balancer starts empty, and hashing reads an argument that is not passed.\<close>

definition set_lbs :: "nat \<Rightarrow> i32 \<Rightarrow> sp \<Rightarrow> ((errno + unit) \<times> sp) cres" where
  "set_lbs a v s =
     cbind (deref (eps s a)) (\<lambda>x.
       if sint v = SP_REQ_RRBIN then Ok (Inr (), set_ep a (x\<lparr>ep_lbs := (ep_lbs x)\<lparr>rr_head := []\<rparr>\<rparr>) s)
       else if sint v = SP_REQ_ULHASH then Undef
       else Bug)"

definition set_rrbin_weight :: "nat \<Rightarrow> int \<Rightarrow> i32 \<Rightarrow> sp \<Rightarrow> ((errno + unit) \<times> sp) cres" where
  "set_rrbin_weight a fd v s =
     cbind (deref (eps s a)) (\<lambda>x.
       Ok (Inr (), case find (has_fd s fd) (ep_connectors x) of
                     None \<Rightarrow> s
                   | Some t \<Rightarrow> set_ep a (x\<lparr>ep_lbs := (ep_lbs x)\<lparr>origin_weight := (origin_weight (ep_lbs x))(t := v)\<rparr>\<rparr>) s))"

text \<open>The tables of options; those of the other protocols are empty, and no option can be read.\<close>

definition reqep_setopt :: "nat \<Rightarrow> int \<Rightarrow> sp_optval \<Rightarrow> sp \<Rightarrow> ((errno + unit) \<times> sp) cres" where
  "reqep_setopt a opt v s =
     (if opt = SP_PROXY then case v of SpInt i \<Rightarrow> reqep_set_proxyto a (sint i) s | _ \<Rightarrow> Undef
      else if opt = SP_REQ_LBS then case v of SpInt i \<Rightarrow> set_lbs a i s | _ \<Rightarrow> Undef
      else if opt = SP_REQ_RRBIN_WEIGHT then case v of SpWeight fd w \<Rightarrow> set_rrbin_weight a fd w s | _ \<Rightarrow> Undef
      else Ok (Inl EINVAL, s))"

definition repep_setopt :: "nat \<Rightarrow> int \<Rightarrow> sp_optval \<Rightarrow> sp \<Rightarrow> ((errno + unit) \<times> sp) cres" where
  "repep_setopt a opt v s =
     (if opt = SP_PROXY then case v of SpInt i \<Rightarrow> repep_set_proxyto a (sint i) s | _ \<Rightarrow> Undef else Ok (Inl EINVAL, s))"

definition pub_ep_setopt :: "int \<Rightarrow> sp_optval \<Rightarrow> sp \<Rightarrow> ((errno + unit) \<times> sp) cres" where
  "pub_ep_setopt opt v s = Ok (Inl EINVAL, s)"

definition pub_ep_getopt :: "int \<Rightarrow> sp \<Rightarrow> ((errno + unit) \<times> sp) cres" where
  "pub_ep_getopt opt s = Ok (Inl EINVAL, s)"

definition sub_ep_setopt :: "int \<Rightarrow> sp_optval \<Rightarrow> sp \<Rightarrow> ((errno + unit) \<times> sp) cres" where
  "sub_ep_setopt opt v s = Ok (Inl EINVAL, s)"

definition sub_ep_getopt :: "int \<Rightarrow> sp \<Rightarrow> ((errno + unit) \<times> sp) cres" where
  "sub_ep_getopt opt s = Ok (Inl EINVAL, s)"

definition bus_ep_setopt :: "int \<Rightarrow> sp_optval \<Rightarrow> sp \<Rightarrow> ((errno + unit) \<times> sp) cres" where
  "bus_ep_setopt opt v s = Ok (Inl EINVAL, s)"

definition bus_ep_getopt :: "int \<Rightarrow> sp \<Rightarrow> ((errno + unit) \<times> sp) cres" where
  "bus_ep_getopt opt s = Ok (Inl EINVAL, s)"

definition reqep_getopt :: "int \<Rightarrow> sp \<Rightarrow> ((errno + unit) \<times> sp) cres" where
  "reqep_getopt opt s = Ok (Inl EINVAL, s)"

definition repep_getopt :: "int \<Rightarrow> sp \<Rightarrow> ((errno + unit) \<times> sp) cres" where
  "repep_getopt opt s = Ok (Inl EINVAL, s)"

definition ep_setopt :: "nat \<Rightarrow> int \<Rightarrow> sp_optval \<Rightarrow> sp \<Rightarrow> ((errno + unit) \<times> sp) cres" where
  "ep_setopt a opt v s =
     cbind (deref (eps s a)) (\<lambda>x.
       case ep_vf x of
         ReqEp \<Rightarrow> reqep_setopt a opt v s
       | RepEp \<Rightarrow> repep_setopt a opt v s
       | PubEp \<Rightarrow> pub_ep_setopt opt v s
       | SubEp \<Rightarrow> sub_ep_setopt opt v s
       | BusEp \<Rightarrow> bus_ep_setopt opt v s)"

definition ep_getopt :: "nat \<Rightarrow> int \<Rightarrow> sp \<Rightarrow> ((errno + unit) \<times> sp) cres" where
  "ep_getopt a opt s =
     cbind (deref (eps s a)) (\<lambda>x.
       case ep_vf x of
         ReqEp \<Rightarrow> reqep_getopt opt s
       | RepEp \<Rightarrow> repep_getopt opt s
       | PubEp \<Rightarrow> pub_ep_getopt opt s
       | SubEp \<Rightarrow> sub_ep_getopt opt s
       | BusEp \<Rightarrow> bus_ep_getopt opt s)"

definition sp_setopt :: "int \<Rightarrow> int \<Rightarrow> sp_optval \<Rightarrow> sp \<Rightarrow> ((errno + unit) \<times> sp) cres" where
  "sp_setopt i opt v s =
     cbind (eid_get i s) (\<lambda>(r, s).
       case r of
         None \<Rightarrow> Ok (Inl EBADF, s)
       | Some a \<Rightarrow> cbind (ep_setopt a opt v s) (\<lambda>(r, s). cbind (eid_put i s) (\<lambda>s. Ok (r, s))))"

definition sp_getopt :: "int \<Rightarrow> int \<Rightarrow> sp \<Rightarrow> ((errno + unit) \<times> sp) cres" where
  "sp_getopt i opt s =
     cbind (eid_get i s) (\<lambda>(r, s).
       case r of
         None \<Rightarrow> Ok (Inl EBADF, s)
       | Some a \<Rightarrow> cbind (ep_getopt a opt s) (\<lambda>(r, s). cbind (eid_put i s) (\<lambda>s. Ok (r, s))))"

section \<open>The event thread\<close>

text \<open>\<open>connector_event_hndl\<close>: \<open>Blocked\<close> when the thread falls asleep in a call on the socket.\<close>

definition handle_in :: "nat \<Rightarrow> senv \<Rightarrow> nat \<Rightarrow> nat \<Rightarrow> int \<Rightarrow> sp \<Rightarrow> bool wait spres" where
  "handle_in n e a t fd s =
     obind (on_net (xrecv False n (net_env e) fd) s) (\<lambda>(r, s).
       case r of
         Blocked \<Rightarrow> Some (Ok (Blocked, s))
       | Done (Inl er) \<Rightarrow> Some (Ok (Done (er \<noteq> EAGAIN), s))
       | Done (Inr m) \<Rightarrow> obind (ep_add n e a t m s) (\<lambda>(_, s). Some (Ok (Done False, s))))"

definition handle_out :: "nat \<Rightarrow> senv \<Rightarrow> nat \<Rightarrow> nat \<Rightarrow> int \<Rightarrow> sp \<Rightarrow> bool wait spres" where
  "handle_out n e a t fd s =
     obind (ep_rm n e a t s) (\<lambda>(r, s).
       case r of
         None \<Rightarrow> Some (Ok (Done False, s))
       | Some m \<Rightarrow>
           obind (on_net (xsend False n (net_env e) fd m) s) (\<lambda>(r, s).
             case r of
               Blocked \<Rightarrow> Some (Ok (Blocked, s))
             | Done (Inl er) \<Rightarrow> Some (Ok (Done (er \<noteq> EAGAIN), s))
             | Done (Inr _) \<Rightarrow> Some (Ok (Done False, s))))"

definition connector_event_hndl :: "nat \<Rightarrow> senv \<Rightarrow> nat \<Rightarrow> sp \<Rightarrow> unit wait spres" where
  "connector_event_hndl n e t s =
     obind (Some (deref (tgs s t))) (\<lambda>y.
     let a = tg_owner y; fd = tg_fd y; h = happened (tg_pollfd y)
     in obind (if h AND XPOLLIN \<noteq> 0 then handle_in n e a t fd s else Some (Ok (Done False, s))) (\<lambda>(r1, s).
          case r1 of
            Blocked \<Rightarrow> Some (Ok (Blocked, s))
          | Done err1 \<Rightarrow>
              obind (if h AND XPOLLOUT \<noteq> 0 then handle_out n e a t fd s else Some (Ok (Done False, s))) (\<lambda>(r2, s).
                case r2 of
                  Blocked \<Rightarrow> Some (Ok (Blocked, s))
                | Done err2 \<Rightarrow>
                    if h AND XPOLLERR \<noteq> 0 \<or> err1 \<or> err2
                    then obind (Some (sp_generic_term_by_tgtd a t s)) (\<lambda>s. Some (Ok (Done (), s)))
                    else Some (Ok (Done (), s)))))"

text \<open>The loop of \<open>listener_event_hndl\<close>, with the value of \<open>errno\<close> at its end. The test for a failed \<open>join\<close> compares a
  pointer with zero by \<open><\<close> and never holds, and when the new target cannot be added, it is the listener that
  is freed.\<close>

fun accept_loop :: "nat \<Rightarrow> nat \<Rightarrow> senv \<Rightarrow> nat \<Rightarrow> nat \<Rightarrow> sp \<Rightarrow> errno wait spres" where
  "accept_loop 0 n e a t s = None"
| "accept_loop (Suc k) n e a t s =
     obind (Some (deref (tgs s t))) (\<lambda>y.
     obind (on_net (xaccept False n (net_env e) (tg_fd y)) s) (\<lambda>(r, s).
       case r of
         Blocked \<Rightarrow> Some (Ok (Blocked, s))
       | Done (Inl er) \<Rightarrow> Some (Ok (Done er, s))
       | Done (Inr fd) \<Rightarrow>
           obind (on_net (xsetopt n (net_env e) fd XSO_NOBLOCK (junk e)) s) (\<lambda>(r, s).
           case r of
             Inl _ \<Rightarrow> Some Bug
           | Inr _ \<Rightarrow>
             obind (vf_join n e a fd s) (\<lambda>(nt, s).
             obind (Some (deref nt)) (\<lambda>nt.
             obind (epbase_add_tgtd n e a nt s) (\<lambda>(ok, s).
               if ok then accept_loop k n e a t s
               else obind (vf_term n e a t s) (\<lambda>s.
                    obind (on_net (xclose n (net_env e) fd) s) (\<lambda>(_, s). accept_loop k n e a t s))))))))"

definition listener_event_hndl :: "nat \<Rightarrow> senv \<Rightarrow> nat \<Rightarrow> sp \<Rightarrow> unit wait spres" where
  "listener_event_hndl n e t s =
     obind (Some (deref (tgs s t))) (\<lambda>y.
     let a = tg_owner y; h = happened (tg_pollfd y)
     in obind (if h AND XPOLLIN \<noteq> 0 then accept_loop n n e a t s else Some (Ok (Done EAGAIN, s))) (\<lambda>(r, s).
          case r of
            Blocked \<Rightarrow> Some (Ok (Blocked, s))
          | Done er \<Rightarrow>
              if h AND XPOLLERR \<noteq> 0 \<or> er \<noteq> EAGAIN
              then obind (Some (sp_generic_term_by_tgtd a t s)) (\<lambda>s. Some (Ok (Done (), s)))
              else Some (Ok (Done (), s))))"

fun close_all :: "nat \<Rightarrow> senv \<Rightarrow> nat \<Rightarrow> nat list \<Rightarrow> sp \<Rightarrow> sp cres option" where
  "close_all n e a [] s = Some (Ok s)"
| "close_all n e a (t # ts) s =
     obind (Some (deref (tgs s t))) (\<lambda>y.
     obind (vf_term n e a t s) (\<lambda>s.
     obind (on_net (xclose n (net_env e) (tg_fd y)) s) (\<lambda>(_, s). close_all n e a ts s)))"

definition epbase_close_bad_tgtds :: "nat \<Rightarrow> senv \<Rightarrow> nat \<Rightarrow> sp \<Rightarrow> sp cres option" where
  "epbase_close_bad_tgtds n e a s =
     obind (Some (deref (eps s a))) (\<lambda>x. close_all n e a (bad_socks x) (set_ep a (x\<lparr>bad_socks := []\<rparr>) s))"

definition event_hndl :: "nat \<Rightarrow> senv \<Rightarrow> poll_fd \<Rightarrow> sp \<Rightarrow> unit wait spres" where
  "event_hndl n e f s =
     (let t = phndl f
      in obind (Some (deref (tgs s t))) (\<lambda>y.
           if tg_fd y \<noteq> pfd (tg_pollfd y) then Some Bug
           else obind (get_socktype n e (tg_fd y) (set_tg t (y\<lparr>tg_pollfd := (tg_pollfd y)\<lparr>happened := happened f\<rparr>\<rparr>) s)) (\<lambda>(ty, s).
                obind (if ty = XCONNECTOR then connector_event_hndl n e t s
                       else if ty = XLISTENER then listener_event_hndl n e t s else Some Bug) (\<lambda>(r, s).
                  case r of
                    Blocked \<Rightarrow> Some (Ok (Blocked, s))
                  | Done _ \<Rightarrow>
                      obind (Some (deref (tgs s t))) (\<lambda>y.
                      obind (epbase_close_bad_tgtds n e (tg_owner y) s) (\<lambda>s. Some (Ok (Done (), s)))))))) "

fun events_hndl :: "nat \<Rightarrow> senv \<Rightarrow> poll_fd list \<Rightarrow> sp \<Rightarrow> unit wait spres" where
  "events_hndl n e [] s = Some (Ok (Done (), s))"
| "events_hndl n e (f # fs) s =
     obind (event_hndl n e f s) (\<lambda>(r, s). case r of Blocked \<Rightarrow> Some (Ok (Blocked, s)) | Done _ \<Rightarrow> events_hndl n e fs s)"

definition epbase_exit :: "epbase \<Rightarrow> unit cres" where
  "epbase_exit x = (if ep_ref x \<noteq> 0 then Bug else Ok ())"

text \<open>\<open>shutdown_epbase\<close>: \<open>list_splice\<close> puts what it moves in front. The slot of the endpoint keeps its address.\<close>

fun shutdown_epbase :: "nat \<Rightarrow> senv \<Rightarrow> nat list \<Rightarrow> sp \<Rightarrow> sp cres option" where
  "shutdown_epbase n e [] s = Some (Ok s)"
| "shutdown_epbase n e (a # as) s =
     obind (Some (deref (eps s a))) (\<lambda>x.
     let s = set_ep a (x\<lparr>ep_listeners := [], ep_connectors := [], bad_socks := ep_connectors x @ ep_listeners x @ bad_socks x\<rparr>)
               (s\<lparr>shutdown_head := remove1 a (shutdown_head s), sg := tbl_push (eid x) (sg s)\<rparr>)
     in obind (epbase_close_bad_tgtds n e a s) (\<lambda>s.
        obind (Some (deref (eps s a))) (\<lambda>x.
        obind (Some (epbase_exit x)) (\<lambda>_. shutdown_epbase n e as (s\<lparr>eps := (eps s)(a := None)\<rparr>)))))"

text \<open>One round of \<open>sp_runner\<close>.\<close>

definition sp_runner :: "bool \<Rightarrow> nat \<Rightarrow> senv \<Rightarrow> sp \<Rightarrow> unit wait spres" where
  "sp_runner resumed n e s =
     obind (Some (xpoll_wait resumed (sg_pollid s) 100 1 (pg (net s)))) (\<lambda>(r, P).
     let s = s\<lparr>net := (net s)\<lparr>pg := P\<rparr>\<rparr>
     in case r of
          Blocked \<Rightarrow> Some (Ok (Blocked, s))
        | Done (Inl _) \<Rightarrow> obind (shutdown_epbase n e (shutdown_head s) s) (\<lambda>s. Some (Ok (Done (), s)))
        | Done (Inr fs) \<Rightarrow>
            obind (events_hndl n e fs s) (\<lambda>(r, s).
              case r of
                Blocked \<Rightarrow> Some (Ok (Blocked, s))
              | Done _ \<Rightarrow> obind (shutdown_epbase n e (shutdown_head s) s) (\<lambda>s. Some (Ok (Done (), s)))))"

text \<open>\<open>__sp_exit\<close>: the event thread ends with a last \<open>shutdown_epbase\<close>, then the poll set is closed; an endpoint that is
  still there aborts the process.\<close>

definition sp_exit :: "nat \<Rightarrow> senv \<Rightarrow> sp \<Rightarrow> sp cres option" where
  "sp_exit n e s =
     obind (shutdown_epbase n e (shutdown_head s) s) (\<lambda>s.
     obind (xpoll_close n (sg_pollid s) (pg (net s))) (\<lambda>(_, P).
       let s = s\<lparr>net := (net s)\<lparr>pg := P\<rparr>\<rparr>
       in if used (sg s) \<noteq> 0 then Some Bug else Some (Ok s)))"

lemma sp_exit_all_closed: "sp_exit n e s = Some (Ok s') \<Longrightarrow> used (sg s') = 0"
  by (auto simp: sp_exit_def obind_eq_Ok Let_def split: if_splits)

text \<open>The inline functions of \<^verbatim>\<open>src/include/xio/sp.h\<close>.\<close>

definition sp_attach :: "nat \<Rightarrow> senv \<Rightarrow> int \<Rightarrow> (errno + nat) \<Rightarrow> sp \<Rightarrow> (errno + nat) spres" where
  "sp_attach n e i r s =
     (case r of
        Inl er \<Rightarrow> Some (Ok (Inl er, s))
      | Inr fd \<Rightarrow>
          obind (sp_add n e i (int fd) s) (\<lambda>(r, s).
            case r of
              Inr _ \<Rightarrow> Some (Ok (Inr fd, s))
            | Inl er \<Rightarrow> obind (on_net (xclose n (net_env e) (int fd)) s) (\<lambda>(_, s). Some (Ok (Inl er, s)))))"

definition sp_connect :: "nat \<Rightarrow> senv \<Rightarrow> int \<Rightarrow> string \<Rightarrow> sp \<Rightarrow> (errno + nat) spres" where
  "sp_connect n e i addr s = obind (on_net (xconnect n (net_env e) addr) s) (\<lambda>(r, s). sp_attach n e i r s)"

definition sp_listen :: "nat \<Rightarrow> senv \<Rightarrow> int \<Rightarrow> string \<Rightarrow> sp \<Rightarrow> (errno + nat) spres" where
  "sp_listen n e i addr s = obind (on_net (xlisten n (net_env e) addr) s) (\<lambda>(r, s). sp_attach n e i r s)"

end
