(* ===== verification/WorldInv.thy ===== *)
theory WorldInv
  imports World
begin

text \<open>
  The invariant of the in-process sockets and what the calls of the user keep of it. Its core is that
  poll sets are level-triggered: whatever the user does, the events recorded in an entry are those
  that hold in the state of its socket.
\<close>

section \<open>Invariant\<close>

text \<open>\<open>entry_at w e y\<close>: the entry is on the list of the socket with its descriptor, and, while it is in its
  poll set, the events it records are those of that socket.\<close>

definition entry_at :: "world \<Rightarrow> nat \<Rightarrow> poll_entry \<Rightarrow> bool" where
  "entry_at w e y \<longleftrightarrow> (\<exists>a x. socks w a = Some x \<and> e \<in> set (poll_entries (sock_base x)) \<and>
     slots (xgb w) (nat (pfd (pollfd y))) = Some a \<and> 0 \<le> pfd (pollfd y) \<and>
     (lru_attached y \<longrightarrow> happened (pollfd y) = poll_mask (sock_base x) AND pevents (pollfd y)))"

definition sock_wok :: "world \<Rightarrow> nat \<Rightarrow> xsock \<Rightarrow> bool" where
  "sock_wok w a x \<longleftrightarrow> a < wnext w \<and> sock_ok (sock_base x) \<and> distinct (poll_entries (sock_base x)) \<and>
     (\<forall>t. x \<noteq> XSio t) \<and> (\<forall>e\<in>set (poll_entries (sock_base x)). \<exists>y. ens (pg w) e = Some y)"

definition lists_disjoint :: "world \<Rightarrow> bool" where
  "lists_disjoint w \<longleftrightarrow> (\<forall>a b x y e. socks w a = Some x \<and> socks w b = Some y \<and>
     e \<in> set (poll_entries (sock_base x)) \<and> e \<in> set (poll_entries (sock_base y)) \<longrightarrow> a = b)"

definition slot_wok :: "world \<Rightarrow> nat \<Rightarrow> nat \<Rightarrow> bool" where
  "slot_wok w fd a \<longleftrightarrow> fd < PROXYIO_MAX_SOCKS \<and> fd \<in> live (xgb w) \<and>
     (\<exists>x. socks w a = Some x \<and> sb_fd (sock_base x) = int fd \<and> 0 < sb_ref (sock_base x))"

text \<open>\<open>h\<close> counts the references to each poll set its users hold.\<close>

definition wok :: "(nat \<Rightarrow> nat) \<Rightarrow> world \<Rightarrow> bool" where
  "wok h w \<longleftrightarrow> tbl_ok PROXYIO_MAX_SOCKS (xgb w) \<and> polls_ok (\<lambda>_. 0) h (pg w) \<and>
     (\<forall>fd a. slots (xgb w) fd = Some a \<longrightarrow> slot_wok w fd a) \<and>
     (\<forall>a x. socks w a = Some x \<longrightarrow> sock_wok w a x) \<and>
     (\<forall>e y. ens (pg w) e = Some y \<longrightarrow> link_attached y \<and> entry_at w e y) \<and>
     (\<forall>a. wnext w \<le> a \<longrightarrow> socks w a = None) \<and> lists_disjoint w"

lemma wokD:
  assumes "wok h w"
  shows "tbl_ok PROXYIO_MAX_SOCKS (xgb w)" "polls_ok (\<lambda>_. 0) h (pg w)"
    "slots (xgb w) fd = Some a \<Longrightarrow> slot_wok w fd a" "socks w a = Some x \<Longrightarrow> sock_wok w a x"
    "ens (pg w) e = Some y \<Longrightarrow> link_attached y" "ens (pg w) e = Some y \<Longrightarrow> entry_at w e y"
    "wnext w \<le> a \<Longrightarrow> socks w a = None"
    "socks w a = Some x \<Longrightarrow> socks w b = Some z \<Longrightarrow> e \<in> set (poll_entries (sock_base x)) \<Longrightarrow>
       e \<in> set (poll_entries (sock_base z)) \<Longrightarrow> a = b"
  using assms unfolding wok_def lists_disjoint_def by blast+

lemma set_sock_simps [simp]:
  "socks (set_sock a x w) = (socks w)(a := Some x)" "xgb (set_sock a x w) = xgb w" "pg (set_sock a x w) = pg w"
  "wnext (set_sock a x w) = wnext w" "inproc_listeners (set_sock a x w) = inproc_listeners w"
  "wkrn (set_sock a x w) = wkrn w" "wel (set_sock a x w) = wel w" "wake (set_sock a x w) = wake w"
  "removed (set_sock a x w) = removed w" "set_sock a x (set_sock a y w) = set_sock a x w"
  by (simp_all add: set_sock_def)

lemma set_sock_upds [simp]:
  "(set_sock a x w)\<lparr>pg := P\<rparr> = set_sock a x (w\<lparr>pg := P\<rparr>)"
  "(set_sock a x w)\<lparr>wake := k\<rparr> = set_sock a x (w\<lparr>wake := k\<rparr>)"
  by (simp_all add: set_sock_def)

lemma upd_sock_set: "socks w a = Some x \<Longrightarrow> upd_sock a f w = set_sock a (set_sock_base (f (sock_base x)) x) w"
  by (simp add: upd_sock_def set_sock_def)

lemma set_sock_same: "socks w a = Some x \<Longrightarrow> set_sock a x w = w"
  by (simp add: set_sock_def fun_upd_idem)

section \<open>Notifications\<close>

text \<open>Outputs that touch neither poll sets nor sockets.\<close>

fun quiet_out :: "sock_out \<Rightarrow> bool" where
  "quiet_out (Emit e h) = False"
| "quiet_out (ClosePoll e) = False"
| "quiet_out out = True"

definition quiet :: "sock_out list \<Rightarrow> bool" where
  "quiet outs \<longleftrightarrow> (\<forall>out\<in>set outs. quiet_out out)"

lemma quiet_simps [simp]:
  "quiet []" "quiet (out # outs) \<longleftrightarrow> quiet_out out \<and> quiet outs" "quiet (xs @ ys) \<longleftrightarrow> quiet xs \<and> quiet ys"
  "quiet (map RcvEv evs)" "quiet (map SndEv evs)"
  by (auto simp: quiet_def)

text \<open>The broadcasts among the outputs of the socket at \<open>a\<close>, as they are logged.\<close>

fun wakes :: "nat \<Rightarrow> sock_out list \<Rightarrow> (nat \<times> sock_out) list" where
  "wakes a [] = []"
| "wakes a (WakeCond # outs) = (a, WakeCond) # wakes a outs"
| "wakes a (WakeAccept # outs) = (a, WakeAccept) # wakes a outs"
| "wakes a (out # outs) = wakes a outs"

lemma wakes_append [simp]: "wakes a (xs @ ys) = wakes a xs @ wakes a ys"
  by (induction a xs rule: wakes.induct) simp_all

lemma wakes_evs [simp]: "wakes a (map RcvEv evs) = []" "wakes a (map SndEv evs) = []"
  by (induction evs) simp_all

lemma deliver_quiet:
  "quiet outs \<Longrightarrow> deliver a (outs @ outs') w = deliver a outs' (w\<lparr>wake := wake w @ wakes a outs\<rparr>)"
  by (induction a outs arbitrary: w rule: wakes.induct) simp_all

text \<open>What a notification with the mask \<open>m\<close> makes of an entry.\<close>

definition notified :: "u32 \<Rightarrow> poll_entry \<Rightarrow> poll_entry option" where
  "notified m y =
     (if lru_attached y then Some (y\<lparr>pollfd := (pollfd y)\<lparr>happened := m AND pevents (pollfd y)\<rparr>\<rparr>) else None)"

lemma deliver_emits:
  assumes "polls_ok g h (pg w)" "distinct es" "distinct (poll_entries (sock_base x))"
    "\<forall>e\<in>set es. \<exists>y. ens (pg w) e = Some y \<and> link_attached y \<and> (lru_attached y \<or> g e = 0)" "socks w a = Some x"
  shows "\<exists>P. deliver a (map (\<lambda>e. Emit e m) es) w =
      Ok (set_sock a (set_sock_base ((sock_base x)\<lparr>poll_entries :=
            filter (\<lambda>e. e \<in> set es \<longrightarrow> lru_attached (the (ens (pg w) e))) (poll_entries (sock_base x))\<rparr>) x) (w\<lparr>pg := P\<rparr>)) \<and>
    polls_ok g h P \<and> keeps perm_lru h (pg w) P \<and>
    ens P = (\<lambda>e. if e \<in> set es then notified m (the (ens (pg w) e)) else ens (pg w) e)"
  using assms
proof (induction es arbitrary: w x)
  case Nil
  then show ?case by (intro exI [of _ "pg w"]) (simp add: set_sock_same)
next
  case (Cons e es)
  then obtain y where y: "ens (pg w) e = Some y" "link_attached y" "lru_attached y \<or> g e = 0" by auto
  from xpollbase_emit_ok [OF Cons.prems(1) y(1,2), of m] obtain P where
    P: "xpollbase_emit e m (pg w) = Ok (\<not> lru_attached y, P)" "polls_ok g h P"
      "\<forall>i. i \<noteq> e \<longrightarrow> ens P i = ens (pg w) i" "keeps perm_lru h (pg w) P"
      "ens P e = (if lru_attached y then Some (y\<lparr>pollfd := (pollfd y)\<lparr>happened := m AND pevents (pollfd y)\<rparr>\<rparr>)
                else if ent_ref y = 1 then None else Some (y\<lparr>link_attached := False, ent_ref := ent_ref y - 1\<rparr>))" by blast
  have "ent_ref y = 1" if "\<not> lru_attached y"
    using polls_okD(4) [OF Cons.prems(1) y(1)] y(2,3) that by (simp add: ent_ok_def)
  then have Pe: "ens P e = notified m y" using P(5) by (simp add: notified_def)
  let ?es = "poll_entries (sock_base x)"
  let ?sb = "(sock_base x)\<lparr>poll_entries := filter (\<lambda>i. i = e \<longrightarrow> lru_attached y) ?es\<rparr>"
  let ?x = "set_sock_base ?sb x"
  let ?w = "set_sock a ?x (w\<lparr>pg := P\<rparr>)"
  have "filter (\<lambda>i. i = e \<longrightarrow> lru_attached y) ?es = (if lru_attached y then ?es else remove1 e ?es)"
    using Cons.prems(3) by (auto simp: distinct_remove1_removeAll removeAll_filter_not_eq intro: filter_cong)
  then have x: "(if \<not> lru_attached y then upd_sock a (\<lambda>sb. sb\<lparr>poll_entries := remove1 e (poll_entries sb)\<rparr>) (w\<lparr>pg := P\<rparr>)
      else w\<lparr>pg := P\<rparr>) = ?w"
    using Cons.prems(5) by (simp add: upd_sock_set set_sock_same)
  have "\<forall>i\<in>set es. \<exists>y. ens (pg ?w) i = Some y \<and> link_attached y \<and> (lru_attached y \<or> g i = 0)" using Cons.prems(2,4) P(3) by (simp, metis)
  with Cons.prems P(2) obtain Q where
    Q: "deliver a (map (\<lambda>e. Emit e m) es) ?w =
      Ok (set_sock a (set_sock_base ((sock_base ?x)\<lparr>poll_entries :=
            filter (\<lambda>e. e \<in> set es \<longrightarrow> lru_attached (the (ens (pg ?w) e))) (poll_entries (sock_base ?x))\<rparr>) ?x) (?w\<lparr>pg := Q\<rparr>))"
    "polls_ok g h Q" "keeps perm_lru h (pg ?w) Q"
    "ens Q = (\<lambda>e. if e \<in> set es then notified m (the (ens (pg ?w) e)) else ens (pg ?w) e)"
    using Cons.IH [of ?w ?x] by (auto simp: fun_upd_def)
  have fe: "filter (\<lambda>e. e \<in> set es \<longrightarrow> lru_attached (the (ens P e))) (filter (\<lambda>i. i = e \<longrightarrow> lru_attached y) ?es) =
      filter (\<lambda>i. i \<in> set (e # es) \<longrightarrow> lru_attached (the (ens (pg w) i))) ?es"
    using Cons.prems(2) P(3) y(1) by (simp, intro filter_cong) auto
  have "ens Q = (\<lambda>i. if i \<in> set (e # es) then notified m (the (ens (pg w) i)) else ens (pg w) i)"
    using Q(4) P(3) Pe y(1) Cons.prems(2) by (auto simp: fun_eq_iff)
  moreover have "keeps perm_lru h (pg w) Q"
    by (rule keeps_trans [OF P(4), of perm_lru Q]) (use Q(3) in \<open>auto simp: perm_lru_def\<close>)
  moreover have "deliver a (map (\<lambda>e. Emit e m) (e # es)) w = deliver a (map (\<lambda>e. Emit e m) es) ?w"
    using P(1) by (simp add: Let_def x)
  with Q(1) have "deliver a (map (\<lambda>e. Emit e m) (e # es)) w =
      Ok (set_sock a (set_sock_base ((sock_base x)\<lparr>poll_entries :=
        filter (\<lambda>e. e \<in> set es \<longrightarrow> lru_attached (the (ens P e))) (filter (\<lambda>i. i = e \<longrightarrow> lru_attached y) ?es)\<rparr>) x)
          (w\<lparr>pg := Q\<rparr>))" by (simp del: filter_filter)
  note this [unfolded fe]
  ultimately show ?case using Q(2) by blast
qed

lemma poll_mask_entries [simp]: "poll_mask (sb\<lparr>poll_entries := es\<rparr>) = poll_mask sb"
  by (simp add: poll_mask_def readable_def)

text \<open>An operation on the base of a socket that ends with a notification, or that leaves the events as they
  are. \<open>listing\<close> is the socket with the poll entries that are left.\<close>

definition settled :: "sockbase \<Rightarrow> sockbase \<Rightarrow> bool" where
  "settled sb sb' \<longleftrightarrow> sock_ok sb' \<and> poll_entries sb' = poll_entries sb \<and> sb_fd sb' = sb_fd sb \<and> sb_ref sb' = sb_ref sb"

definition watches :: "polls \<Rightarrow> nat \<Rightarrow> (int \<times> u32) set" where
  "watches P p = {(pfd (pollfd y), pevents (pollfd y)) | e y. ens P e = Some y \<and> lru_attached y \<and> ent_owner y = p}"

definition same_rest :: "world \<Rightarrow> world \<Rightarrow> bool" where
  "same_rest w w' \<longleftrightarrow> xgb w' = xgb w \<and> wnext w' = wnext w \<and> inproc_listeners w' = inproc_listeners w \<and>
     wel w' = wel w \<and> wkrn w' = wkrn w \<and> removed w' = removed w"

lemma same_rest_refl [simp]: "same_rest w w"
  by (simp add: same_rest_def)

lemma same_rest_trans: "same_rest w w' \<Longrightarrow> same_rest w' w'' \<Longrightarrow> same_rest w w''"
  by (simp add: same_rest_def)

lemma watches_notified:
  "watches P p = watches P0 p" if "ens P = (\<lambda>e. if e \<in> E then notified m (the (ens P0 e)) else ens P0 e)"
    "\<forall>e\<in>E. ens P0 e \<noteq> None"
proof -
  have "(\<exists>y. k = (pfd (pollfd y), pevents (pollfd y)) \<and> ens P e = Some y \<and> lru_attached y \<and> ent_owner y = p) \<longleftrightarrow>
      (\<exists>y. k = (pfd (pollfd y), pevents (pollfd y)) \<and> ens P0 e = Some y \<and> lru_attached y \<and> ent_owner y = p)" for e k
    using that by (cases "e \<in> E") (auto simp: notified_def split: if_splits)
  then show ?thesis unfolding watches_def by blast
qed

text \<open>The invariant up to the events recorded in the entries of the socket at \<open>a\<close>.\<close>

definition entry_but :: "nat \<Rightarrow> world \<Rightarrow> nat \<Rightarrow> poll_entry \<Rightarrow> bool" where
  "entry_but a w e y \<longleftrightarrow> (\<exists>b x. socks w b = Some x \<and> e \<in> set (poll_entries (sock_base x)) \<and>
     slots (xgb w) (nat (pfd (pollfd y))) = Some b \<and> 0 \<le> pfd (pollfd y) \<and>
     (b \<noteq> a \<and> lru_attached y \<longrightarrow> happened (pollfd y) = poll_mask (sock_base x) AND pevents (pollfd y)))"

definition wok_but :: "nat \<Rightarrow> world \<Rightarrow> bool" where
  "wok_but a w \<longleftrightarrow> tbl_ok PROXYIO_MAX_SOCKS (xgb w) \<and>
     (\<forall>fd b. slots (xgb w) fd = Some b \<longrightarrow> slot_wok w fd b) \<and>
     (\<forall>b x. socks w b = Some x \<longrightarrow> sock_wok w b x) \<and>
     (\<forall>e y. ens (pg w) e = Some y \<longrightarrow> link_attached y \<and> entry_but a w e y) \<and>
     (\<forall>b. wnext w \<le> b \<longrightarrow> socks w b = None) \<and> lists_disjoint w"

lemma wok_butD:
  assumes "wok_but a w"
  shows "tbl_ok PROXYIO_MAX_SOCKS (xgb w)"
    "slots (xgb w) fd = Some b \<Longrightarrow> slot_wok w fd b" "socks w b = Some x \<Longrightarrow> sock_wok w b x"
    "ens (pg w) e = Some y \<Longrightarrow> link_attached y" "ens (pg w) e = Some y \<Longrightarrow> entry_but a w e y"
    "wnext w \<le> b \<Longrightarrow> socks w b = None"
    "socks w b = Some x \<Longrightarrow> socks w c = Some z \<Longrightarrow> e \<in> set (poll_entries (sock_base x)) \<Longrightarrow>
       e \<in> set (poll_entries (sock_base z)) \<Longrightarrow> b = c"
  using assms unfolding wok_but_def lists_disjoint_def by blast+

lemma wok_but: "wok h w \<Longrightarrow> wok_but a w"
  unfolding wok_def wok_but_def entry_at_def entry_but_def by blast

text \<open>The socket \<open>a\<close> changes, and its entries are notified of the new state.\<close>

lemma notified_wok:
  assumes w: "wok_but a w" and a: "socks w a = Some x" and s: "settled (sock_base x) sb"
    and Q: "polls_ok (\<lambda>_. 0) h Q"
      "ens Q = (\<lambda>e. if e \<in> set (poll_entries (sock_base x)) then notified (poll_mask sb) (the (ens (pg w) e)) else ens (pg w) e)"
  shows "wok h (set_sock a (set_sock_base (sb\<lparr>poll_entries :=
      filter (\<lambda>e. lru_attached (the (ens (pg w) e))) (poll_entries (sock_base x))\<rparr>) x) (w\<lparr>wake := k, pg := Q\<rparr>))"
    (is "wok h ?w")
proof -
  note d = wok_butD [OF w]
  have sa: "sock_wok w a x" by (rule d(3) [OF a])
  let ?es = "poll_entries (sock_base x)"
  let ?fs = "filter (\<lambda>e. lru_attached (the (ens (pg w) e))) ?es"
  have live: "\<exists>y. ens Q e = Some y" if "socks w b = Some z" "e \<in> set (poll_entries (sock_base z))"
      "b = a \<longrightarrow> lru_attached (the (ens (pg w) e))" for b z e
  proof (cases "b = a")
    case False
    then have "e \<notin> set ?es" using d(7) [OF that(1) a that(2)] by blast
    then show ?thesis using d(3) [OF that(1)] that(2) by (auto simp: sock_wok_def Q(2))
  qed (use sa a that in \<open>auto simp: Q(2) notified_def\<close>)
  have x: "set_sock_base z x \<noteq> XSio t" for z t using sa by (cases x) (auto simp: sock_wok_def)
  have "sock_wok ?w b z" if z: "socks ?w b = Some z" for b z
  proof (cases "b = a")
    case True
    then show ?thesis using z sa s x live [OF a] by (auto simp: sock_wok_def settled_def sock_ok_def)
  next
    case False
    then show ?thesis using z d(3) [of b z] live [of b z] by (auto simp: sock_wok_def)
  qed
  moreover have "slot_wok ?w fd b" if "slots (xgb w) fd = Some b" for fd b
    using d(2) [OF that] a s by (auto simp: slot_wok_def settled_def)
  moreover have "link_attached y \<and> entry_at ?w e y" if y: "ens Q e = Some y" for e y
  proof (cases "e \<in> set ?es")
    case True
    then obtain y0 where y0: "ens (pg w) e = Some y0" using sa by (auto simp: sock_wok_def)
    have n: "notified (poll_mask sb) y0 = Some y" using y True y0 by (simp add: Q(2))
    then have l: "lru_attached y0" by (auto simp: notified_def split: if_splits)
    from d(5) [OF y0] l obtain b z where z: "socks w b = Some z" "e \<in> set (poll_entries (sock_base z))"
      "slots (xgb w) (nat (pfd (pollfd y0))) = Some b" "0 \<le> pfd (pollfd y0)" by (auto simp: entry_but_def)
    have "b = a" using d(7) [OF z(1) a z(2) True] .
    then show ?thesis using z n l True y0 d(4) [OF y0] by (auto simp: entry_at_def notified_def)
  next
    case False
    then have y0: "ens (pg w) e = Some y" using y by (simp add: Q(2))
    from d(5) [OF y0] obtain b z where z: "socks w b = Some z" "e \<in> set (poll_entries (sock_base z))"
      "slots (xgb w) (nat (pfd (pollfd y))) = Some b" "0 \<le> pfd (pollfd y)"
      "b \<noteq> a \<and> lru_attached y \<longrightarrow> happened (pollfd y) = poll_mask (sock_base z) AND pevents (pollfd y)" by (auto simp: entry_but_def)
    moreover have "b \<noteq> a" using z(1,2) False a by auto
    ultimately show ?thesis using d(4) [OF y0] by (auto simp: entry_at_def)
  qed
  moreover have "lists_disjoint ?w" using d(7) a by (auto simp: lists_disjoint_def)
  ultimately show ?thesis using d(1,6) Q(1) a by (auto simp: wok_def)
qed

text \<open>A change of the socket that leaves its events alone, and one of its base only.\<close>

lemma replace_wok:
  assumes w: "wok h w" and a: "socks w a = Some x"
    and s: "sock_ok sb" "poll_entries sb = poll_entries (sock_base x)" "sb_fd sb = sb_fd (sock_base x)" "0 < sb_ref sb"
      "poll_mask sb = poll_mask (sock_base x)"
    and x': "sock_base x' = sb" "\<And>t. x' \<noteq> XSio t"
  shows "wok h (set_sock a x' (w\<lparr>wake := k\<rparr>))" (is "wok h ?w")
proof -
  note d = wokD [OF w]
  have sa: "sock_wok w a x" by (rule d(4) [OF a])
  have "sock_wok ?w b z" if "socks ?w b = Some z" for b z
    using that d(4) [of b z] sa s x' by (cases "b = a") (auto simp: sock_wok_def)
  moreover have "slot_wok ?w fd b" if "slots (xgb w) fd = Some b" for fd b
    using d(3) [OF that] a s x' by (auto simp: slot_wok_def)
  moreover have "entry_at ?w e y" if y: "ens (pg w) e = Some y" for e y
  proof -
    from d(6) [OF y] obtain b z where z: "socks w b = Some z" "e \<in> set (poll_entries (sock_base z))"
      "slots (xgb w) (nat (pfd (pollfd y))) = Some b" "0 \<le> pfd (pollfd y)"
      "lru_attached y \<longrightarrow> happened (pollfd y) = poll_mask (sock_base z) AND pevents (pollfd y)" by (auto simp: entry_at_def)
    show ?thesis unfolding entry_at_def
      by (intro exI [of _ b] exI [of _ "if b = a then x' else z"]) (use z a s x' in auto)
  qed
  moreover have "lists_disjoint ?w" using d(8) a s(2) x'(1) by (auto simp: lists_disjoint_def)
  ultimately show ?thesis using d(1,2,5,7) a by (auto simp: wok_def)
qed

lemma silent_wok:
  assumes w: "wok h w" and a: "socks w a = Some x"
    and s: "sock_ok sb" "poll_entries sb = poll_entries (sock_base x)" "sb_fd sb = sb_fd (sock_base x)" "0 < sb_ref sb"
      "poll_mask sb = poll_mask (sock_base x)"
  shows "wok h (set_sock a (set_sock_base sb x) (w\<lparr>wake := k\<rparr>))"
  by (rule replace_wok [OF assms]) (use wokD(4) [OF w a] in \<open>cases x; auto simp: sock_wok_def\<close>)+

section \<open>Operations on one socket\<close>

text \<open>Nothing but sockets, notifications and wake-ups changes, and what is watched stays watched.\<close>

definition evolves :: "(nat \<Rightarrow> nat) \<Rightarrow> world \<Rightarrow> world \<Rightarrow> bool" where
  "evolves h w w' \<longleftrightarrow> wok h w' \<and> same_rest w w' \<and> watches (pg w') = watches (pg w) \<and>
     keeps perm_lru h (pg w) (pg w')"

lemma evolvesD:
  assumes "evolves h w w'"
  shows "wok h w'" "xgb w' = xgb w" "wnext w' = wnext w" "watches (pg w') = watches (pg w)"
    "inproc_listeners w' = inproc_listeners w"
  using assms by (auto simp: evolves_def same_rest_def)

lemma evolves_trans: "evolves h w w' \<Longrightarrow> evolves h w' w'' \<Longrightarrow> evolves h w w''"
  unfolding evolves_def by (auto intro: same_rest_trans keeps_trans simp: perm_lru_def)

lemma same_rest_upd [simp]:
  "same_rest w (set_sock a x (w\<lparr>wake := k, pg := P\<rparr>))" "same_rest w (set_sock a x (w\<lparr>wake := k\<rparr>))"
  "same_rest w (set_sock a x w)"
  by (simp_all add: same_rest_def)

lemma on_sock_inproc:
  "wok h w \<Longrightarrow> socks w a = Some x \<Longrightarrow> on_sock e a f w =
     Some (cbind (f (sock_base x)) (\<lambda>(r, outs, sb).
           cbind (deliver a outs (set_sock a (set_sock_base sb x) w)) (\<lambda>w. Ok (r, w))))"
  using wokD(4) [of h w a x] by (cases x) (auto simp: on_sock_def sock_wok_def)

text \<open>An operation that ends with a notification.\<close>

lemma on_sock_notify:
  assumes w: "wok h w" and a: "socks w a = Some x" and s: "settled (sock_base x) sb"
    and f: "f (sock_base x) = Ok (r, outs @ notify sb, sb)" "quiet outs"
  shows "\<exists>w' es. on_sock e a f w = Some (Ok (r, w')) \<and> evolves h w w' \<and>
    socks w' = (socks w)(a := Some (set_sock_base (sb\<lparr>poll_entries := es\<rparr>) x)) \<and> wake w' = wake w @ wakes a outs"
proof -
  note d = wokD [OF w]
  have sa: "sock_wok w a x" by (rule d(4) [OF a])
  let ?es = "poll_entries (sock_base x)"
  let ?fs = "filter (\<lambda>e. lru_attached (the (ens (pg w) e))) ?es"
  have es: "poll_entries sb = ?es" using s by (simp add: settled_def)
  define k where "k = wake w @ wakes a outs"
  have k: "deliver a (outs @ notify sb) (set_sock a (set_sock_base sb x) w) =
      deliver a (notify sb) (set_sock a (set_sock_base sb x) (w\<lparr>wake := k\<rparr>))"
    using deliver_quiet [OF f(2), of a "notify sb" "set_sock a (set_sock_base sb x) w"] by (simp add: k_def)
  let ?w = "set_sock a (set_sock_base sb x) (w\<lparr>wake := k\<rparr>)"
  have pre: "polls_ok (\<lambda>_. 0) h (pg ?w)" "distinct ?es" "distinct (poll_entries (sock_base (set_sock_base sb x)))"
    "\<forall>e\<in>set ?es. \<exists>y. ens (pg ?w) e = Some y \<and> link_attached y \<and> (lru_attached y \<or> (0 :: nat) = 0)"
    "socks ?w a = Some (set_sock_base sb x)"
    using d(2,5) sa es by (auto simp: sock_wok_def)
  from deliver_emits [OF this, of "poll_mask sb"] obtain Q where
    Q: "deliver a (notify sb) ?w = Ok (set_sock a (set_sock_base (sb\<lparr>poll_entries := ?fs\<rparr>) x) (w\<lparr>wake := k, pg := Q\<rparr>))"
      "polls_ok (\<lambda>_. 0) h Q" "keeps perm_lru h (pg w) Q"
      "ens Q = (\<lambda>e. if e \<in> set ?es then notified (poll_mask sb) (the (ens (pg w) e)) else ens (pg w) e)"
    using es by (auto simp: notify_def cong: filter_cong if_cong)
  let ?w' = "set_sock a (set_sock_base (sb\<lparr>poll_entries := ?fs\<rparr>) x) (w\<lparr>wake := k, pg := Q\<rparr>)"
  have "\<forall>e\<in>set ?es. ens (pg w) e \<noteq> None" using sa by (auto simp: sock_wok_def)
  from watches_notified [OF Q(4) this] have "watches Q = watches (pg w)" by auto
  moreover note notified_wok [OF wok_but [OF w] a s Q(2,4), of k]
  ultimately have "evolves h w ?w'" using Q(3) by (simp add: evolves_def)
  then show ?thesis
    by (intro exI [of _ ?w'] exI [of _ ?fs]) (simp add: on_sock_inproc [OF w a] f(1) k Q(1) flip: k_def)
qed

text \<open>One that leaves the events as they are and notifies nobody.\<close>

lemma silent_evolves:
  assumes w: "wok h w" and a: "socks w a = Some x"
    and s: "sock_ok sb" "poll_entries sb = poll_entries (sock_base x)" "sb_fd sb = sb_fd (sock_base x)" "0 < sb_ref sb"
      "poll_mask sb = poll_mask (sock_base x)"
  shows "evolves h w (set_sock a (set_sock_base sb x) w)"
  using silent_wok [OF assms, of "wake w"] by (simp add: evolves_def)

lemma replace_evolves:
  assumes w: "wok h w" and a: "socks w a = Some x"
    and s: "sock_ok (sock_base x')" "poll_entries (sock_base x') = poll_entries (sock_base x)"
      "sb_fd (sock_base x') = sb_fd (sock_base x)" "0 < sb_ref (sock_base x')"
      "poll_mask (sock_base x') = poll_mask (sock_base x)" "\<And>t. x' \<noteq> XSio t"
  shows "evolves h w (set_sock a x' w)"
  using replace_wok [OF w a s(1-5) HOL.refl s(6), of "wake w"] by (simp add: evolves_def)

lemma on_sock_silent:
  assumes w: "wok h w" and a: "socks w a = Some x" and f: "f (sock_base x) = Ok (r, [], sb)"
    and s: "sock_ok sb" "poll_entries sb = poll_entries (sock_base x)" "sb_fd sb = sb_fd (sock_base x)" "0 < sb_ref sb"
      "poll_mask sb = poll_mask (sock_base x)"
  shows "on_sock e a f w = Some (Ok (r, set_sock a (set_sock_base sb x) w))"
    "evolves h w (set_sock a (set_sock_base sb x) w)"
  using silent_evolves [OF w a s] by (simp_all add: on_sock_inproc [OF w a] f)

section \<open>References\<close>

lemma poll_mask_simps [simp]:
  "poll_mask (sb\<lparr>sb_ref := r\<rparr>) = poll_mask sb" "poll_mask (sb\<lparr>sb_addr := s\<rparr>) = poll_mask sb"
  "poll_mask (sb\<lparr>sb_peer := s\<rparr>) = poll_mask sb" "poll_mask (sb\<lparr>non_block := b\<rparr>) = poll_mask sb"
  "poll_mask (sb\<lparr>verbose := v\<rparr>) = poll_mask sb" "poll_mask (sb\<lparr>aq_waiters := n\<rparr>) = poll_mask sb"
  by (simp_all add: poll_mask_def readable_def)

lemma sock_ok_simps [simp]:
  "sock_ok (sb\<lparr>sb_ref := r\<rparr>) = sock_ok sb" "sock_ok (sb\<lparr>sb_addr := s\<rparr>) = sock_ok sb"
  "sock_ok (sb\<lparr>sb_peer := s\<rparr>) = sock_ok sb" "sock_ok (sb\<lparr>non_block := b\<rparr>) = sock_ok sb"
  "sock_ok (sb\<lparr>verbose := v\<rparr>) = sock_ok sb"
  by (simp_all add: sock_ok_def)

text \<open>\<open>w\<close> has the socket \<open>x\<close> at the address \<open>a\<close> and under the descriptor \<open>fd\<close>.\<close>

definition has_sock :: "world \<Rightarrow> int \<Rightarrow> nat \<Rightarrow> xsock \<Rightarrow> bool" where
  "has_sock w fd a x \<longleftrightarrow> 0 \<le> fd \<and> fd < int PROXYIO_MAX_SOCKS \<and> slots (xgb w) (nat fd) = Some a \<and> socks w a = Some x"

lemma has_sockD:
  assumes "wok h w" "has_sock w fd a x"
  shows "socks w a = Some x" "sb_fd (sock_base x) = fd" "0 < sb_ref (sock_base x)" "sock_ok (sock_base x)"
  using wokD(3) [OF assms(1), of "nat fd" a] wokD(4) [OF assms(1), of a x] assms(2)
  by (auto simp: has_sock_def slot_wok_def sock_wok_def)

lemma has_sock_upd:
  "has_sock w fd a x \<Longrightarrow> has_sock (set_sock a y w) fd a y"
  by (simp add: has_sock_def)

lemma has_sock_evolves:
  "has_sock w fd a x \<Longrightarrow> evolves h w w' \<Longrightarrow> socks w' a = Some y \<Longrightarrow> has_sock w' fd a y"
  using evolvesD(2) [of h w w'] by (simp add: has_sock_def)

definition ref_up :: "nat \<Rightarrow> xsock \<Rightarrow> world \<Rightarrow> world" where
  "ref_up a x w = set_sock a (set_sock_base ((sock_base x)\<lparr>sb_ref := sb_ref (sock_base x) + 1\<rparr>) x) w"

lemma xget_ok:
  assumes w: "wok h w" and x: "has_sock w fd a x"
  shows "xget fd w = Ok (Some a, ref_up a x w)" "evolves h w (ref_up a x w)"
    "has_sock (ref_up a x w) fd a (set_sock_base ((sock_base x)\<lparr>sb_ref := sb_ref (sock_base x) + 1\<rparr>) x)"
proof -
  note d = has_sockD [OF assms]
  show "xget fd w = Ok (Some a, ref_up a x w)"
    using x d by (simp add: xget_def has_sock_def upd_sock_set ref_up_def)
  show "evolves h w (ref_up a x w)" unfolding ref_up_def by (rule silent_evolves [OF w d(1)]) (use d in auto)
  show "has_sock (ref_up a x w) fd a (set_sock_base ((sock_base x)\<lparr>sb_ref := sb_ref (sock_base x) + 1\<rparr>) x)"
    using has_sock_upd [OF x] by (simp add: ref_up_def)
qed

lemma xget_none:
  "0 \<le> fd \<Longrightarrow> fd < int PROXYIO_MAX_SOCKS \<Longrightarrow> slots (xgb w) (nat fd) = None \<Longrightarrow> xget fd w = Ok (None, w)"
  by (simp add: xget_def)

lemma xput_ok:
  assumes w: "wok h w" and x: "has_sock w fd a x" and r: "1 < sb_ref (sock_base x)"
  shows "xput_by cl fd w = Some (Ok (set_sock a (set_sock_base ((sock_base x)\<lparr>sb_ref := sb_ref (sock_base x) - 1\<rparr>) x) w))"
    "evolves h w (set_sock a (set_sock_base ((sock_base x)\<lparr>sb_ref := sb_ref (sock_base x) - 1\<rparr>) x) w)" (is "evolves h w ?w")
proof -
  note d = has_sockD [OF w x]
  show "xput_by cl fd w = Some (Ok ?w)"
    using x d r by (simp add: xput_by_def unref_def has_sock_def upd_sock_set Let_def)
  show "evolves h w ?w" by (rule silent_evolves [OF w d(1)]) (use d r in auto)
qed

section \<open>Calls on a descriptor\<close>

text \<open>\<open>xget\<close>, the operation, and \<open>xput\<close> unless the caller sleeps; a sleeping caller keeps its
  reference.\<close>

lemma entries_ref: "sb\<lparr>poll_entries := es, sb_ref := k\<rparr> = sb\<lparr>sb_ref := k, poll_entries := es\<rparr>" for sb :: sockbase
  by simp

lemma call_at:
  assumes w: "wok h w" and x: "has_sock w fd a x"
    and f: "f (sock_base x) = Ok (r, outs @ (if r = Blocked then [] else notify sb), sb)"
      "quiet outs" "r = Blocked \<longrightarrow> outs = [] \<and> poll_mask sb = poll_mask (sock_base x)"
    and s: "settled (sock_base x) sb" and ref: "1 < sb_ref (sock_base x)"
  shows "\<exists>w' es. obind (on_sock e a f w) (\<lambda>(r, w). leave n e fd r w) = Some (Ok (r, w')) \<and>
    evolves h w w' \<and> socks w' = (socks w)(a := Some (set_sock_base (sb\<lparr>poll_entries := es,
       sb_ref := sb_ref (sock_base x) - (if r = Blocked then 0 else 1)\<rparr>) x)) \<and> wake w' = wake w @ wakes a outs"
proof -
  note d = has_sockD [OF w x]
  have r: "sb_ref sb = sb_ref (sock_base x)" using s by (simp add: settled_def)
  show ?thesis
  proof (cases r)
    case Blocked
    have f': "f (sock_base x) = Ok (r, [], sb)" using f Blocked by simp
    have m: "poll_mask sb = poll_mask (sock_base x)" using f(3) Blocked by simp
    note sil = on_sock_silent [where f = f, OF w d(1) f', OF _ _ _ _ m]
    have pre: "sock_ok sb" "poll_entries sb = poll_entries (sock_base x)" "sb_fd sb = sb_fd (sock_base x)" "0 < sb_ref sb"
      using s d(3) by (auto simp: settled_def)
    let ?w = "set_sock a (set_sock_base sb x) w"
    have "socks ?w = (socks w)(a := Some (set_sock_base (sb\<lparr>poll_entries := poll_entries sb,
       sb_ref := sb_ref (sock_base x) - 0\<rparr>) x))" by (simp flip: r)
    then show ?thesis using sil [OF pre] Blocked f(3)
      by (intro exI [of _ ?w] exI [of _ "poll_entries sb"]) (simp add: leave_def)
  next
    case (Done y)
    have f': "f (sock_base x) = Ok (r, outs @ notify sb, sb)" using f(1) Done by simp
    from on_sock_notify [where f = f, OF w d(1) s f' f(2)] obtain w2 es where
      w2: "on_sock e a f w = Some (Ok (r, w2))" "evolves h w w2"
        "socks w2 = (socks w)(a := Some (set_sock_base (sb\<lparr>poll_entries := es\<rparr>) x))" "wake w2 = wake w @ wakes a outs" by blast
    have h2: "has_sock w2 fd a (set_sock_base (sb\<lparr>poll_entries := es\<rparr>) x)"
      by (rule has_sock_evolves [OF x w2(2)]) (simp add: w2(3))
    have ok2: "wok h w2" using w2(2) by (simp add: evolves_def)
    note p = xput_ok [OF ok2 h2]
    have "evolves h w (set_sock a (set_sock_base (sb\<lparr>poll_entries := es, sb_ref := sb_ref (sock_base x) - 1\<rparr>) x) w2)"
      using evolves_trans [OF w2(2) p(2)] r ref by simp
    then show ?thesis using w2(1,3,4) p(1) r ref Done
      by (intro exI [of _ "set_sock a (set_sock_base (sb\<lparr>poll_entries := es, sb_ref := sb_ref (sock_base x) - 1\<rparr>) x) w2"] exI [of _ es])
        (simp add: leave_def)
  qed
qed

lemma call_ok:
  assumes w: "wok h w" and x: "has_sock w fd a x"
    and f: "f ((sock_base x)\<lparr>sb_ref := sb_ref (sock_base x) + 1\<rparr>) = Ok (r, outs @ (if r = Blocked then [] else notify sb), sb)"
      "quiet outs" "r = Blocked \<longrightarrow> outs = [] \<and> poll_mask sb = poll_mask (sock_base x)"
    and s: "settled ((sock_base x)\<lparr>sb_ref := sb_ref (sock_base x) + 1\<rparr>) sb"
  shows "\<exists>w' es. obind (on_sock e a f (ref_up a x w)) (\<lambda>(r, w). leave n e fd r w) = Some (Ok (r, w')) \<and>
    evolves h w w' \<and> socks w' = (socks w)(a := Some (set_sock_base (sb\<lparr>poll_entries := es,
       sb_ref := sb_ref (sock_base x) + (if r = Blocked then 1 else 0)\<rparr>) x)) \<and> wake w' = wake w @ wakes a outs"
proof -
  note d = has_sockD [OF w x]
  note g = xget_ok [OF w x]
  let ?sb = "(sock_base x)\<lparr>sb_ref := sb_ref (sock_base x) + 1\<rparr>"
  let ?x = "set_sock_base ?sb x"
  have f1: "f (sock_base ?x) = Ok (r, outs @ (if r = Blocked then [] else notify sb), sb)"
    "r = Blocked \<longrightarrow> outs = [] \<and> poll_mask sb = poll_mask (sock_base ?x)" using f(1,3) by simp_all
  have s1: "settled (sock_base ?x) sb" "1 < sb_ref (sock_base ?x)" using s d(3) by simp_all
  from call_at [where f = f and n = n and e = e, OF evolvesD(1) [OF g(2)] g(3) f1(1) f(2) f1(2) s1] obtain w' es where
    w': "obind (on_sock e a f (ref_up a x w)) (\<lambda>(r, w). leave n e fd r w) = Some (Ok (r, w'))" "evolves h (ref_up a x w) w'"
      "socks w' = (socks (ref_up a x w))(a := Some (set_sock_base (sb\<lparr>poll_entries := es,
         sb_ref := sb_ref (sock_base ?x) - (if r = Blocked then 0 else 1)\<rparr>) ?x))"
      "wake w' = wake (ref_up a x w) @ wakes a outs" by blast
  have "evolves h w w'" by (rule evolves_trans [OF g(2) w'(2)])
  then show ?thesis using w'(1,3,4)
    by (intro exI [of _ w'] exI [of _ es]) (cases "r = Blocked"; simp add: ref_up_def)
qed

text \<open>The operations themselves, on the socket alone.\<close>

lemma waiters_upd [simp]:
  "waiters (msgbuf_head_incr_waiters h) = waiters h + 1" "waiters (msgbuf_head_decr_waiters h) = waiters h - 1"
  by (simp_all add: msgbuf_head_incr_waiters_def msgbuf_head_decr_waiters_def)

lemma rcv_add_full:
  assumes "sock_ok sb"
  shows "\<exists>outs r. rcv_msgbuf_head_add sb m = Ok ((), outs @ notify (sb\<lparr>rcv := r\<rparr>), sb\<lparr>rcv := r\<rparr>) \<and> quiet outs \<and>
    head_ok r \<and> bh_msgs r = bh_msgs (rcv sb) @ [m] \<and> waiters r = waiters (rcv sb) \<and>
    (\<forall>a. wakes a outs = (if sint (waiters (rcv sb)) > 0 then [(a, WakeCond)] else []))"
proof -
  have ok: "head_ok (rcv sb)" "head_ok (snd sb)" using assms by (auto simp: sock_ok_def)
  from msgbuf_head_in_ok [OF ok(1), of m] obtain evs r where
    "msgbuf_head_in (rcv sb) m = Ok (evs, r)" "head_ok r" "bh_msgs r = bh_msgs (rcv sb) @ [m]"
    "waiters r = waiters (rcv sb)" by blast
  moreover from this ok have "sock_ok (sb\<lparr>rcv := r\<rparr>)" by (simp add: sock_ok_def)
  ultimately show ?thesis
    by (intro exI [of _ "map RcvEv evs @ (if sint (waiters r) > 0 then [WakeCond] else [])"] exI [of _ r])
      (auto simp: rcv_msgbuf_head_add_def msgbuf_head_in_msg_def notify_def Let_def emitting_ok)
qed

definition recv_result :: "sockbase \<Rightarrow> (errno + msgbuf) wait \<times> msgbuf list" where
  "recv_result sb =
     (case bh_msgs (rcv sb) of
        m # ms \<Rightarrow> (Done (Inr m), ms)
      | [] \<Rightarrow> (if epipe sb then Done (Inl EPIPE) else if non_block sb then Done (Inl EAGAIN) else Blocked, []))"

lemma recv_full:
  assumes "sock_ok sb"
  shows "\<exists>outs r rr. xgeneric_recv resumed sb =
      Ok (rr, outs @ (if rr = Blocked then [] else notify (sb\<lparr>rcv := r\<rparr>)), sb\<lparr>rcv := r\<rparr>) \<and> quiet outs \<and>
    (rr = Blocked \<longrightarrow> outs = []) \<and> head_ok r \<and> (rr, bh_msgs r) = recv_result sb \<and>
    waiters r = waiters (rcv sb) - of_bool resumed + of_bool (rr = Blocked) \<and> (\<forall>a. wakes a outs = [])"
proof -
  obtain r0 where r0: "(if resumed then sb\<lparr>rcv := msgbuf_head_decr_waiters (rcv sb)\<rparr> else sb) = sb\<lparr>rcv := r0\<rparr>"
    "head_ok r0" "bh_msgs r0 = bh_msgs (rcv sb)" "waiters r0 = waiters (rcv sb) - of_bool resumed"
  proof (cases resumed)
    case True
    then show ?thesis using assms by (intro that [of "msgbuf_head_decr_waiters (rcv sb)"]) (auto simp: sock_ok_def)
  next
    case False
    then show ?thesis using assms by (intro that [of "rcv sb"]) (auto simp: sock_ok_def)
  qed
  let ?sb = "sb\<lparr>rcv := r0\<rparr>"
  have ok: "sock_ok ?sb" "head_ok r0" "head_ok (snd sb)" "bh_msgs r0 = bh_msgs (rcv sb)"
    using assms r0 by (auto simp: sock_ok_def)
  note unf = xgeneric_recv_def rcv_msgbuf_head_rm_def r0(1) rcv_must_wait_ok [OF ok(1)] Let_def
  show ?thesis
  proof (cases "bh_msgs (rcv sb)")
    case Nil
    have "msgbuf_head_out_msg r0 = Err ENONE \<or> (\<exists>e. msgbuf_head_out_msg r0 = Err e)"
      using msgbuf_head_out_empty [of r0] ok(2,4) Nil by (auto simp: msgbuf_head_out_msg_def)
    then obtain er where er: "msgbuf_head_out_msg r0 = Err er" by blast
    show ?thesis
    proof (cases "epipe sb \<or> non_block sb")
      case True
      then show ?thesis using Nil ok er
        by (intro exI [of _ "[]"] exI [of _ r0]) (auto simp: unf recv_result_def notify_def emitting_ok [OF ok(1)] r0(4))
    next
      case False
      then show ?thesis using Nil ok r0(4)
        by (intro exI [of _ "[]"] exI [of _ "msgbuf_head_incr_waiters r0"])
          (auto simp: unf recv_result_def)
    qed
  next
    case (Cons m ms)
    with ok(4) have c: "bh_msgs r0 = m # ms" by simp
    from msgbuf_head_out_ok [OF ok(2) c] obtain evs r where
      r: "msgbuf_head_out r0 = Ok (m, evs, r)" "head_ok r" "bh_msgs r = ms" "waiters r = waiters r0" by blast
    have "sock_ok (sb\<lparr>rcv := r\<rparr>)" using r(2) ok(3) by (simp add: sock_ok_def)
    note em = emitting_ok [OF this]
    show ?thesis using Cons r ok r0(4)
      by (intro exI [of _ "map RcvEv evs"] exI [of _ r] exI [of _ "Done (Inr m)"])
        (auto simp: unf recv_result_def notify_def msgbuf_head_out_msg_def em)
  qed
qed

definition accept_result :: "sockbase \<Rightarrow> nat option wait \<times> nat list" where
  "accept_result sb =
     (case acceptq sb of a # q \<Rightarrow> (Done (Some a), q) | [] \<Rightarrow> (if non_block sb then Done None else Blocked, []))"

lemma accept_full:
  assumes "sock_ok sb"
  shows "\<exists>rr k q. acceptq_rm resumed sb =
      Ok (rr, if rr = Blocked then [] else notify (sb\<lparr>aq_waiters := k, acceptq := q\<rparr>), sb\<lparr>aq_waiters := k, acceptq := q\<rparr>) \<and>
    (rr, q) = accept_result sb"
proof -
  obtain k where sb: "(if resumed then sb\<lparr>aq_waiters := aq_waiters sb - 1\<rparr> else sb) = sb\<lparr>aq_waiters := k\<rparr>"
    by (cases resumed) (auto intro: that [of "aq_waiters sb - 1"] that [of "aq_waiters sb"])
  have e: "emitting y [] (sb\<lparr>aq_waiters := k, acceptq := q\<rparr>) =
      Ok (y, notify (sb\<lparr>aq_waiters := k, acceptq := q\<rparr>), sb\<lparr>aq_waiters := k, acceptq := q\<rparr>)" for y q
    using assms by (simp add: notify_def emitting_ok)
  show ?thesis
  proof (cases "acceptq sb")
    case Nil
    have j: "sb\<lparr>aq_waiters := j\<rparr> = sb\<lparr>aq_waiters := j, acceptq := []\<rparr>" for j using Nil by (cases sb) simp
    show ?thesis
    proof (cases "non_block sb")
      case True
      then show ?thesis using Nil e [of "Done None" "[]"]
        by (intro exI [of _ "Done None"] exI [of _ k] exI [of _ "[]"])
          (simp add: acceptq_rm_def acceptq_rm_nohup_def sb accept_result_def Let_def flip: j)
    next
      case False
      then show ?thesis using Nil
        by (intro exI [of _ Blocked] exI [of _ "k + 1"] exI [of _ "[]"])
          (simp add: acceptq_rm_def acceptq_rm_nohup_def sb accept_result_def Let_def flip: j)
    qed
  next
    case (Cons b q)
    then show ?thesis using e [of "Done (Some b)" q]
      by (auto simp: acceptq_rm_def acceptq_rm_nohup_def sb accept_result_def Let_def)
  qed
qed

section \<open>Sending, receiving, accepting\<close>

lemma obind_assoc: "obind (obind r f) g = obind r (\<lambda>x. obind (f x) g)"
  by (auto simp: obind_def split: option.splits cres.splits)

text \<open>\<open>touched w w' a sb\<close>: only the socket at \<open>a\<close> is another one, \<open>sb\<close> up to its poll entries.\<close>

definition touched :: "world \<Rightarrow> world \<Rightarrow> nat \<Rightarrow> xsock \<Rightarrow> sockbase \<Rightarrow> bool" where
  "touched w w' a x sb \<longleftrightarrow>
     (\<exists>es. socks w' = (socks w)(a := Some (set_sock_base (sb\<lparr>poll_entries := es\<rparr>) x)))"

definition ref_after :: "'a wait \<Rightarrow> sockbase \<Rightarrow> int" where
  "ref_after r sb = sb_ref sb + (if r = Blocked then 1 else 0)"

lemma xrecv_call:
  assumes w: "wok h w" and x: "has_sock w fd a x" and v: "vf_recv (vfp (sock_base x))"
    and ref: "resumed \<longrightarrow> 1 < sb_ref (sock_base x)"
  shows "\<exists>w' r rr. xrecv resumed n e fd w = Some (Ok (rr, w')) \<and> evolves h w w' \<and> head_ok r \<and>
    (rr, bh_msgs r) = recv_result (sock_base x) \<and>
    touched w w' a x ((sock_base x)\<lparr>rcv := r, sb_ref := ref_after rr (sock_base x) - of_bool resumed\<rparr>) \<and>
    waiters r = waiters (rcv (sock_base x)) - of_bool resumed + of_bool (rr = Blocked) \<and> wake w' = wake w"
proof -
  note d = has_sockD [OF w x]
  note g = xget_ok [OF w x]
  define x1 where "x1 = (if resumed then x else set_sock_base ((sock_base x)\<lparr>sb_ref := sb_ref (sock_base x) + 1\<rparr>) x)"
  define w1 where "w1 = (if resumed then w else ref_up a x w)"
  have w1: "wok h w1" "has_sock w1 fd a x1" "evolves h w w1" "wake w1 = wake w" "\<And>y. (socks w1)(a := y) = (socks w)(a := y)"
    using w x g(3) evolvesD(1) [OF g(2)] g(2) by (simp_all add: w1_def x1_def evolves_def polls_okD keeps_refl) (simp_all add: ref_up_def)
  let ?sb = "sock_base x1"
  have sb: "?sb = (sock_base x)\<lparr>sb_ref := sb_ref (sock_base x) + of_bool (\<not> resumed)\<rparr>" by (simp add: x1_def)
  have "sock_ok ?sb" using d(4) by (simp add: sb)
  from recv_full [OF this, of resumed] obtain outs r rr where
    r: "xgeneric_recv resumed ?sb = Ok (rr, outs @ (if rr = Blocked then [] else notify (?sb\<lparr>rcv := r\<rparr>)), ?sb\<lparr>rcv := r\<rparr>)"
      "quiet outs" "rr = Blocked \<longrightarrow> outs = []" "head_ok r" "(rr, bh_msgs r) = recv_result ?sb"
      "waiters r = waiters (rcv ?sb) - of_bool resumed + of_bool (rr = Blocked)" "wakes a outs = []" by blast
  have res: "(rr, bh_msgs r) = recv_result (sock_base x)" using r(5) by (simp add: recv_result_def sb)
  have ct: "vf_type (vfp (sock_base x)) = XCONNECTOR" using v by (auto simp: vf_recv_def)
  have "poll_mask (?sb\<lparr>rcv := r\<rparr>) = poll_mask ?sb" if "rr = Blocked"
    using res that ct by (auto simp: sb recv_result_def poll_mask_def readable_def split: list.splits if_splits)
  then have bl: "rr = Blocked \<longrightarrow> outs = [] \<and> poll_mask (?sb\<lparr>rcv := r\<rparr>) = poll_mask ?sb" using r(3) by simp
  have set: "settled ?sb (?sb\<lparr>rcv := r\<rparr>)" using d(4) r(4) by (simp add: sb settled_def sock_ok_def)
  have ref1: "1 < sb_ref ?sb" using ref d(3) by (cases resumed) (simp_all add: sb)
  from call_at [where f = "xgeneric_recv resumed" and n = n and e = e, OF w1(1,2) r(1,2) bl set ref1] obtain w' es where
    c: "obind (on_sock e a (xgeneric_recv resumed) w1) (\<lambda>(r, w). leave n e fd r w) = Some (Ok (rr, w'))"
      "evolves h w1 w'" "socks w' = (socks w1)(a := Some (set_sock_base (?sb\<lparr>rcv := r, poll_entries := es,
       sb_ref := sb_ref ?sb - (if rr = Blocked then 0 else 1)\<rparr>) x1))" "wake w' = wake w1 @ wakes a outs" by blast
  have "socks w1 a = Some x1" using w1(2) by (simp add: has_sock_def)
  moreover have "enter resumed fd w = Ok (Some a, w1)" using g(1) x by (simp add: enter_def w1_def has_sock_def)
  moreover have "vf_recv (vfp ?sb)" using v by (simp add: sb)
  ultimately have "xrecv resumed n e fd w = Some (Ok (rr, w'))" using c(1) by (simp add: xrecv_def)
  moreover have "touched w w' a x ((sock_base x)\<lparr>rcv := r, sb_ref := ref_after rr (sock_base x) - of_bool resumed\<rparr>)"
    unfolding touched_def ref_after_def using c(3) w1(5)
    by (intro exI [of _ es]) (cases resumed; cases "rr = Blocked"; simp add: entries_ref sb x1_def)
  ultimately show ?thesis using evolves_trans [OF w1(3) c(2)] c(4) w1(4) r(4,6,7) res by (auto simp: sb)
qed

lemma xaccept_call:
  assumes w: "wok h w" and x: "has_sock w fd a x" and v: "vf_type (vfp (sock_base x)) = XLISTENER"
    and q: "\<forall>b\<in>set (acceptq (sock_base x)). \<exists>y. socks w b = Some y \<and> b \<noteq> a"
  shows "\<exists>w' k rr q'. xaccept False n e fd w = Some (Ok (case rr of Blocked \<Rightarrow> Blocked | Done None \<Rightarrow> Done (Inl EAGAIN)
      | Done (Some b) \<Rightarrow> Done (Inr (sb_fd (sock_base (the (socks w b))))), w')) \<and> evolves h w w' \<and>
    (rr, q') = accept_result (sock_base x) \<and>
    touched w w' a x ((sock_base x)\<lparr>aq_waiters := k, acceptq := q', sb_ref := ref_after rr (sock_base x)\<rparr>)"
proof -
  note d = has_sockD [OF w x]
  note g = xget_ok [OF w x]
  let ?sb = "(sock_base x)\<lparr>sb_ref := sb_ref (sock_base x) + 1\<rparr>"
  have "sock_ok ?sb" using d(4) by simp
  from accept_full [OF this, of False] obtain rr k q' where
    r: "acceptq_rm False ?sb = Ok (rr, [] @ (if rr = Blocked then [] else notify (?sb\<lparr>aq_waiters := k, acceptq := q'\<rparr>)),
          ?sb\<lparr>aq_waiters := k, acceptq := q'\<rparr>)" "(rr, q') = accept_result ?sb" by auto
  have res: "(rr, q') = accept_result (sock_base x)" using r(2) by (simp add: accept_result_def)
  have mask: "poll_mask (?sb\<lparr>aq_waiters := k, acceptq := q'\<rparr>) = poll_mask (sock_base x)" if "rr = Blocked"
    using res that v vf_type_neq by (auto simp: accept_result_def poll_mask_def readable_def split: list.splits if_splits)
  have set: "settled ?sb (?sb\<lparr>aq_waiters := k, acceptq := q'\<rparr>)" using d(4) by (simp add: settled_def sock_ok_def)
  have bl: "rr = Blocked \<longrightarrow> [] = ([] :: sock_out list) \<and> poll_mask (?sb\<lparr>aq_waiters := k, acceptq := q'\<rparr>) = poll_mask (sock_base x)"
    using mask by simp
  have qt: "quiet []" by simp
  from call_ok [where f = "acceptq_rm False" and n = n and e = e, OF w x r(1) qt bl set] obtain w' es where
    c: "obind (on_sock e a (acceptq_rm False) (ref_up a x w)) (\<lambda>(r, w). leave n e fd r w) = Some (Ok (rr, w'))"
      "evolves h w w'" "socks w' = (socks w)(a := Some (set_sock_base (?sb\<lparr>aq_waiters := k, acceptq := q', poll_entries := es,
       sb_ref := sb_ref (sock_base x) + (if rr = Blocked then 1 else 0)\<rparr>) x))" by blast
  have new: "\<exists>y. socks w b = Some y \<and> b \<noteq> a" if "rr = Done (Some b)" for b
    using res that q by (auto simp: accept_result_def split: list.splits if_splits)
  have "xaccept False n e fd w = obind (obind (on_sock e a (acceptq_rm False) (ref_up a x w)) (\<lambda>(r, w). leave n e fd r w))
      (\<lambda>(r, w). case r of
               Blocked \<Rightarrow> Some (Ok (Blocked, w))
             | Done None \<Rightarrow> Some (Ok (Done (Inl EAGAIN), w))
             | Done (Some new) \<Rightarrow>
                 obind (Some (deref (socks w new))) (\<lambda>x. Some (Ok (Done (Inr (sb_fd (sock_base x))), w))))"
    using g(1) by (simp add: xaccept_def enter_def obind_assoc split_def)
  also have "\<dots> = Some (Ok (case rr of Blocked \<Rightarrow> Blocked | Done None \<Rightarrow> Done (Inl EAGAIN)
      | Done (Some b) \<Rightarrow> Done (Inr (sb_fd (sock_base (the (socks w b))))), w'))"
    using c(1,3) new by (auto split: wait.splits option.splits)
  finally have "xaccept False n e fd w = \<dots>" .
  moreover have "touched w w' a x ((sock_base x)\<lparr>aq_waiters := k, acceptq := q', sb_ref := ref_after rr (sock_base x)\<rparr>)"
    unfolding touched_def ref_after_def using c(3) by (intro exI [of _ es]) (simp add: entries_ref)
  ultimately show ?thesis using c(2) res by blast
qed

lemma xsend_call:
  assumes w: "wok h w" and x: "has_sock w fd a (XInproc sb r (Some b))" and v: "vfp sb = InprocConnector"
    and b: "socks w b = Some y" "b \<noteq> a"
  shows "\<exists>w' q. xsend False n e fd m w = Some (Ok (Done (Inr ()), w')) \<and> evolves h w w' \<and> head_ok q \<and>
    bh_msgs q = bh_msgs (rcv (sock_base y)) @ [m] \<and> touched w w' b y ((sock_base y)\<lparr>rcv := q\<rparr>) \<and>
    waiters q = waiters (rcv (sock_base y)) \<and>
    wake w' = wake w @ (if sint (waiters (rcv (sock_base y))) > 0 then [(b, WakeCond)] else [])"
proof -
  let ?x = "XInproc sb r (Some b)"
  note d = has_sockD [OF w x]
  note g = xget_ok [OF w x]
  let ?w = "ref_up a ?x w"
  have w1: "wok h ?w" "socks ?w b = Some y" using g(2) b by (auto simp: evolves_def ref_up_def)
  have oky: "sock_ok (sock_base y)" using wokD(4) [OF w b(1)] by (simp add: sock_wok_def)
  from rcv_add_full [OF oky, of m] obtain outs q where
    q: "rcv_msgbuf_head_add (sock_base y) m = Ok ((), outs @ notify ((sock_base y)\<lparr>rcv := q\<rparr>), (sock_base y)\<lparr>rcv := q\<rparr>)"
      "quiet outs" "head_ok q" "bh_msgs q = bh_msgs (rcv (sock_base y)) @ [m]" "waiters q = waiters (rcv (sock_base y))"
      "wakes b outs = (if sint (waiters (rcv (sock_base y))) > 0 then [(b, WakeCond)] else [])" by blast
  have "settled (sock_base y) ((sock_base y)\<lparr>rcv := q\<rparr>)" using oky q(3) by (simp add: settled_def sock_ok_def)
  from on_sock_notify [where f = "\<lambda>sb. rcv_msgbuf_head_add sb m" and e = e, OF w1 this q(1,2)] obtain w2 es where
    w2: "on_sock e b (\<lambda>sb. rcv_msgbuf_head_add sb m) ?w = Some (Ok ((), w2))" "evolves h ?w w2"
      "socks w2 = (socks ?w)(b := Some (set_sock_base ((sock_base y)\<lparr>rcv := q, poll_entries := es\<rparr>) y))"
      "wake w2 = wake ?w @ wakes b outs" by auto
  have h2: "has_sock w2 fd a (XInproc (sb\<lparr>sb_ref := sb_ref sb + 1\<rparr>) r (Some b))"
    by (rule has_sock_evolves [OF g(3) w2(2)]) (use w2(3) b(2) in \<open>simp add: ref_up_def\<close>)
  have ok2: "wok h w2" using w2(2) by (simp add: evolves_def)
  note p = xput_ok [OF ok2 h2]
  let ?w' = "set_sock a ?x w2"
  have 1: "evolves h w ?w'" using evolves_trans [OF evolves_trans [OF g(2) w2(2)] p(2)] d(3) by simp
  have 2: "xsend False n e fd m w = Some (Ok (Done (Inr ()), ?w'))"
    using g(1) x v w2(1) p(1) d(3)
    by (simp add: xsend_def enter_def vf_send_def vf_send_msg_def inproc_send_def leave_def ref_up_def)
  have "socks ?w' = (socks w)(b := Some (set_sock_base ((sock_base y)\<lparr>rcv := q, poll_entries := es\<rparr>) y))"
    using w2(3) b(2) x by (auto simp: ref_up_def has_sock_def fun_eq_iff)
  then have "touched w ?w' b y ((sock_base y)\<lparr>rcv := q\<rparr>)" unfolding touched_def by (intro exI [of _ es]) simp
  moreover have "wake ?w' = wake w @ (if sint (waiters (rcv (sock_base y))) > 0 then [(b, WakeCond)] else [])"
    using w2(4) q(6) by (simp add: ref_up_def)
  ultimately show ?thesis using 1 2 q(3-5) by blast
qed

end
