(* ===== verification/Inproc.thy ===== *)
theory Inproc
  imports WorldInv
begin

text \<open>
  The in-process transport as its users see it: two connected sockets are a pair of queues; listening,
  connecting and accepting make such a pair; and two flaws of the code, a failed \<open>xlisten\<close> that
  empties the registry of listeners and a closed peer that the other side is never told of.
\<close>

section \<open>Connected sockets\<close>

text \<open>\<open>fa\<close> and \<open>fb\<close> are connected, with the messages \<open>qa\<close> and \<open>qb\<close> not yet received; \<open>na\<close> and \<open>nb\<close>
  are their non-blocking flags.\<close>

definition joined :: "world \<Rightarrow> int \<Rightarrow> int \<Rightarrow> (bool \<Rightarrow> msgbuf list) \<Rightarrow> (bool \<Rightarrow> bool) \<Rightarrow> bool" where
  "joined w fa fb q nb \<longleftrightarrow> (\<exists>a b sa sb ra rb. a \<noteq> b \<and>
     has_sock w fa a (XInproc sa ra (Some b)) \<and> has_sock w fb b (XInproc sb rb (Some a)) \<and>
     vfp sa = InprocConnector \<and> vfp sb = InprocConnector \<and> \<not> epipe sa \<and> \<not> epipe sb \<and>
     q False = bh_msgs (rcv sa) \<and> q True = bh_msgs (rcv sb) \<and> nb False = non_block sa \<and> nb True = non_block sb)"

text \<open>Uses of the pair; the first flag says which end. \<open>CRecv\<close> is a new call of \<open>xrecv\<close>; when it finds nothing its caller
  falls asleep. \<open>CWake s spurious\<close> lets one of the callers that sleep at the end \<open>s\<close> go on in its call: one that a
  broadcast has woken, or else, if \<open>spurious\<close>, one that nobody has woken, as \<open>pthread_cond_wait\<close> may; without
  either the answer is \<open>AAsleep\<close>. The run keeps the numbers of callers that sleep at each end and of those that are
  woken but have not gone on; whom a call wakes it reads off the log of broadcasts.\<close>

datatype chan_op = CSend bool msgbuf | CRecv bool | CWake bool bool
datatype chan_ans = ASent | AGot "(errno + msgbuf) wait" | AAsleep

record sleepers =
  asleep :: "bool \<Rightarrow> nat"
  roused :: "bool \<Rightarrow> nat"

definition woke :: "world \<Rightarrow> world \<Rightarrow> int \<Rightarrow> bool" where
  "woke w w' fd \<longleftrightarrow> (case slots (xgb w) (nat fd) of None \<Rightarrow> False
     | Some a \<Rightarrow> (a, WakeCond) \<in> set (drop (length (wake w)) (wake w')))"

definition rouse :: "(bool \<Rightarrow> bool) \<Rightarrow> sleepers \<Rightarrow> sleepers" where
  "rouse b zk = zk\<lparr>asleep := \<lambda>s. if b s then 0 else asleep zk s,
     roused := \<lambda>s. if b s then roused zk s + asleep zk s else roused zk s\<rparr>"

definition doze :: "bool \<Rightarrow> 'a wait \<Rightarrow> sleepers \<Rightarrow> sleepers" where
  "doze s r zk = (if r = Blocked then zk\<lparr>asleep := (asleep zk)(s := asleep zk s + 1)\<rparr> else zk)"

text \<open>Who goes on at the end \<open>s\<close>: the counts without it, if there is one.\<close>

definition rise :: "bool \<Rightarrow> bool \<Rightarrow> sleepers \<Rightarrow> sleepers option" where
  "rise s spurious zk =
     (if 0 < roused zk s then Some (zk\<lparr>roused := (roused zk)(s := roused zk s - 1)\<rparr>)
      else if spurious \<and> 0 < asleep zk s then Some (zk\<lparr>asleep := (asleep zk)(s := asleep zk s - 1)\<rparr>)
      else None)"

definition nobody :: sleepers where
  "nobody = \<lparr>asleep = (\<lambda>_. 0), roused = (\<lambda>_. 0)\<rparr>"

text \<open>All who are in the call at the end \<open>s\<close>.\<close>

definition inside :: "sleepers \<Rightarrow> bool \<Rightarrow> nat" where
  "inside zk s = asleep zk s + roused zk s"

fun run_chan :: "nat \<Rightarrow> env \<Rightarrow> int \<Rightarrow> int \<Rightarrow> chan_op list \<Rightarrow> sleepers \<Rightarrow> world \<Rightarrow> chan_ans list wres" where
  "run_chan n e fa fb [] zk w = Some (Ok ([], w))"
| "run_chan n e fa fb (CSend s m # ops) zk w =
     obind (xsend False n e (if s then fb else fa) m w) (\<lambda>(r, w').
       if r = Done (Inr ())
       then obind (run_chan n e fa fb ops (rouse (\<lambda>s. woke w w' (if s then fb else fa)) zk) w') (\<lambda>(as, w).
              Some (Ok (ASent # as, w)))
       else Some Undef)"
| "run_chan n e fa fb (CRecv s # ops) zk w =
     obind (xrecv False n e (if s then fb else fa) w) (\<lambda>(r, w').
       obind (run_chan n e fa fb ops (doze s r (rouse (\<lambda>s. woke w w' (if s then fb else fa)) zk)) w') (\<lambda>(as, w).
         Some (Ok (AGot r # as, w))))"
| "run_chan n e fa fb (CWake s sp # ops) zk w =
     (case rise s sp zk of
        None \<Rightarrow> obind (run_chan n e fa fb ops zk w) (\<lambda>(as, w). Some (Ok (AAsleep # as, w)))
      | Some zk \<Rightarrow>
          obind (xrecv True n e (if s then fb else fa) w) (\<lambda>(r, w').
            obind (run_chan n e fa fb ops (doze s r (rouse (\<lambda>s. woke w w' (if s then fb else fa)) zk)) w') (\<lambda>(as, w).
              Some (Ok (AGot r # as, w)))))"

text \<open>What a receive gives: the first message, or none.\<close>

definition got :: "bool \<Rightarrow> msgbuf list \<Rightarrow> (errno + msgbuf) wait" where
  "got nb q = (case q of m # ms \<Rightarrow> Done (Inr m) | [] \<Rightarrow> if nb then Done (Inl EAGAIN) else Blocked)"

text \<open>Two queues: \<open>q s\<close> are the messages on their way to the end \<open>s\<close>. A send wakes all who sleep at the other end.\<close>

fun abs_chan :: "(bool \<Rightarrow> bool) \<Rightarrow> chan_op list \<Rightarrow> sleepers \<Rightarrow> (bool \<Rightarrow> msgbuf list) \<Rightarrow> chan_ans list" where
  "abs_chan nb [] zk q = []"
| "abs_chan nb (CSend s m # ops) zk q = ASent # abs_chan nb ops (rouse (\<lambda>t. t = (\<not> s)) zk) (q((\<not> s) := q (\<not> s) @ [m]))"
| "abs_chan nb (CRecv s # ops) zk q =
     (let r = got (nb s) (q s) in AGot r # abs_chan nb ops (doze s r zk) (q(s := tl (q s))))"
| "abs_chan nb (CWake s sp # ops) zk q =
     (case rise s sp zk of
        None \<Rightarrow> AAsleep # abs_chan nb ops zk q
      | Some zk \<Rightarrow> let r = got (nb s) (q s) in AGot r # abs_chan nb ops (doze s r zk) (q(s := tl (q s))))"

text \<open>\<open>k\<close> callers are asleep or about to go on in \<open>xrecv\<close> at the descriptor \<open>fd\<close>: the socket counts them, and each holds a
  reference besides that of the table.\<close>

definition dozing :: "world \<Rightarrow> int \<Rightarrow> nat \<Rightarrow> bool" where
  "dozing w fd k \<longleftrightarrow> (\<exists>a x. has_sock w fd a x \<and> waiters (rcv (sock_base x)) = of_nat k \<and> int k < sb_ref (sock_base x))"

lemma dozing_iff:
  "has_sock w fd a x \<Longrightarrow> dozing w fd k \<longleftrightarrow> waiters (rcv (sock_base x)) = of_nat k \<and> int k < sb_ref (sock_base x)"
  by (auto simp: dozing_def has_sock_def)

lemma sint_waiters: "k < 2 ^ 31 \<Longrightarrow> sint (of_nat k :: i32) = int k"
  by (simp add: signed_of_nat signed_take_bit_int_eq_self)

definition writable :: "world \<Rightarrow> int \<Rightarrow> bool" where
  "writable w fd \<longleftrightarrow> (\<exists>a x. slots (xgb w) (nat fd) = Some a \<and> socks w a = Some x \<and> msgbuf_can_in (snd (sock_base x)))"

lemma writable_evolves:
  assumes "evolves h w w'" "socks w a = Some x" "socks w' = (socks w)(a := Some y)" "snd (sock_base y) = snd (sock_base x)"
  shows "writable w' = writable w"
  unfolding writable_def fun_eq_iff using assms(2-4) evolvesD(2) [OF assms(1)] by auto

lemma joinedI:
  assumes "a \<noteq> b" "has_sock w fa a (XInproc sa ra (Some b))" "has_sock w fb b (XInproc sb rb (Some a))"
    "vfp sa = InprocConnector" "vfp sb = InprocConnector" "\<not> epipe sa" "\<not> epipe sb"
    "q False = bh_msgs (rcv sa)" "q True = bh_msgs (rcv sb)" "nb False = non_block sa" "nb True = non_block sb"
  shows "joined w fa fb q nb"
  unfolding joined_def using assms by blast

lemma joinedE:
  assumes "joined w fa fb q nb"
  obtains a b sa sb ra rb where "a \<noteq> b" "has_sock w fa a (XInproc sa ra (Some b))"
    "has_sock w fb b (XInproc sb rb (Some a))"
    "vfp sa = InprocConnector" "vfp sb = InprocConnector" "\<not> epipe sa" "\<not> epipe sb"
    "q False = bh_msgs (rcv sa)" "q True = bh_msgs (rcv sb)" "nb False = non_block sa" "nb True = non_block sb"
  using assms unfolding joined_def by blast

lemma joined_swap:
  assumes "joined w fa fb q nb" "\<And>s. q' s = q (\<not> s)" "\<And>s. nb' s = nb (\<not> s)"
  shows "joined w fb fa q' nb'"
proof (rule joinedE [OF assms(1)])
  fix a b sa sb ra rb
  assume p: "a \<noteq> b" "has_sock w fa a (XInproc sa ra (Some b))" "has_sock w fb b (XInproc sb rb (Some a))"
    "vfp sa = InprocConnector" "vfp sb = InprocConnector" "\<not> epipe sa" "\<not> epipe sb"
    "q False = bh_msgs (rcv sa)" "q True = bh_msgs (rcv sb)" "nb False = non_block sa" "nb True = non_block sb"
  show ?thesis by (rule joinedI [OF _ p(3,2)]) (use p in \<open>simp_all add: assms(2,3)\<close>)
qed

lemma joined_send_ev:
  assumes w: "wok h w" and j: "joined w fa fb q nb"
  shows "\<exists>w'. xsend False n e fa m w = Some (Ok (Done (Inr ()), w')) \<and> evolves h w w' \<and> writable w' = writable w \<and>
    joined w' fa fb (q(True := q True @ [m])) nb \<and> (\<forall>k. dozing w fa k \<longrightarrow> dozing w' fa k) \<and> \<not> woke w w' fa \<and>
    (\<forall>k. dozing w fb k \<longrightarrow> dozing w' fb k) \<and> (\<forall>k < 2 ^ 31. dozing w fb k \<longrightarrow> woke w w' fb = (0 < k))"
proof -
  from j obtain a b sa sb ra rb where p: "a \<noteq> b" "has_sock w fa a (XInproc sa ra (Some b))"
    "has_sock w fb b (XInproc sb rb (Some a))" "vfp sa = InprocConnector" "vfp sb = InprocConnector"
    "\<not> epipe sa" "\<not> epipe sb" "q False = bh_msgs (rcv sa)" "q True = bh_msgs (rcv sb)" "nb False = non_block sa"
    "nb True = non_block sb" by (rule joinedE)
  have b: "socks w b = Some (XInproc sb rb (Some a))" using has_sockD [OF w p(3)] by simp
  from xsend_call [OF w p(2,4) b, of n e m] p(1) obtain w' r where
    w': "xsend False n e fa m w = Some (Ok (Done (Inr ()), w'))" "evolves h w w'" "bh_msgs r = bh_msgs (rcv sb) @ [m]"
      "touched w w' b (XInproc sb rb (Some a)) (sb\<lparr>rcv := r\<rparr>)" "waiters r = waiters (rcv sb)"
      "wake w' = wake w @ (if sint (waiters (rcv sb)) > 0 then [(b, WakeCond)] else [])" by auto
  from w'(4) obtain es where es: "socks w' = (socks w)(b := Some (XInproc (sb\<lparr>rcv := r, poll_entries := es\<rparr>) rb (Some a)))"
    by (auto simp: touched_def)
  have A: "has_sock w' fa a (XInproc sa ra (Some b))"
    by (rule has_sock_evolves [OF p(2) w'(2)]) (use es p(1,2) in \<open>simp add: has_sock_def\<close>)
  have B: "has_sock w' fb b (XInproc (sb\<lparr>rcv := r, poll_entries := es\<rparr>) rb (Some a))"
    by (rule has_sock_evolves [OF p(3) w'(2)]) (simp add: es)
  have "joined w' fa fb (q(True := q True @ [m])) nb"
    by (rule joinedI [OF p(1) A B]) (use p w'(3) in simp_all)
  moreover have "writable w' = writable w" by (rule writable_evolves [OF w'(2) b es]) simp
  moreover have "\<forall>k. dozing w fa k \<longrightarrow> dozing w' fa k" using dozing_iff [OF p(2)] dozing_iff [OF A] by simp
  moreover have "\<forall>k. dozing w fb k \<longrightarrow> dozing w' fb k" using dozing_iff [OF p(3)] dozing_iff [OF B] w'(5) by simp
  moreover have "\<forall>k < 2 ^ 31. dozing w fb k \<longrightarrow> woke w w' fb = (0 < k)"
    using dozing_iff [OF p(3)] w'(6) p(3) sint_waiters by (auto simp: woke_def has_sock_def)
  moreover have "\<not> woke w w' fa" using w'(6) p(1,2) by (simp add: woke_def has_sock_def)
  ultimately show ?thesis using w'(1,2) by blast
qed

text \<open>A receive; the caller goes on in its call when it has been asleep.\<close>

lemma joined_recv_on:
  assumes w: "wok h w" and j: "joined w fa fb q nb" and z: "resumed \<longrightarrow> (\<exists>k. 0 < k \<and> dozing w fa k)"
  shows "\<exists>w'. xrecv resumed n e fa w = Some (Ok (got (nb False) (q False), w')) \<and> evolves h w w' \<and> writable w' = writable w \<and>
    joined w' fa fb (q(False := tl (q False))) nb \<and> wake w' = wake w \<and> (\<forall>k. dozing w fb k \<longrightarrow> dozing w' fb k) \<and>
    (\<forall>k. dozing w fa k \<and> (resumed \<longrightarrow> 0 < k) \<longrightarrow>
       dozing w' fa (k - of_bool resumed + of_bool (got (nb False) (q False) = Blocked)))"
proof -
  from j obtain a b sa sb ra rb where p: "a \<noteq> b" "has_sock w fa a (XInproc sa ra (Some b))"
    "has_sock w fb b (XInproc sb rb (Some a))" "vfp sa = InprocConnector" "vfp sb = InprocConnector"
    "\<not> epipe sa" "\<not> epipe sb" "q False = bh_msgs (rcv sa)" "q True = bh_msgs (rcv sb)" "nb False = non_block sa"
    "nb True = non_block sb" by (rule joinedE)
  have v: "vf_recv (vfp (sock_base (XInproc sa ra (Some b))))" using p(4) by (simp add: vf_recv_def)
  have ref: "resumed \<longrightarrow> 1 < sb_ref (sock_base (XInproc sa ra (Some b)))" using z dozing_iff [OF p(2)] by fastforce
  from xrecv_call [OF w p(2) v ref, of n e] obtain w' r rr where
    w': "xrecv resumed n e fa w = Some (Ok (rr, w'))" "evolves h w w'" "(rr, bh_msgs r) = recv_result sa"
      "touched w w' a (XInproc sa ra (Some b)) (sa\<lparr>rcv := r, sb_ref := ref_after rr sa - of_bool resumed\<rparr>)"
      "waiters r = waiters (rcv sa) - of_bool resumed + of_bool (rr = Blocked)" "wake w' = wake w" by auto
  let ?sa = "sa\<lparr>rcv := r, sb_ref := ref_after rr sa - of_bool resumed\<rparr>"
  from w'(4) obtain es where es: "socks w' = (socks w)(a := Some (XInproc (?sa\<lparr>poll_entries := es\<rparr>) ra (Some b)))"
    by (auto simp: touched_def)
  have A: "has_sock w' fa a (XInproc (?sa\<lparr>poll_entries := es\<rparr>) ra (Some b))"
    by (rule has_sock_evolves [OF p(2) w'(2)]) (simp add: es)
  have B: "has_sock w' fb b (XInproc sb rb (Some a))"
    by (rule has_sock_evolves [OF p(3) w'(2)]) (use es p(1,3) in \<open>simp add: has_sock_def\<close>)
  have r: "bh_msgs r = tl (q False)" "rr = got (nb False) (q False)"
    using w'(3) p(6,8,10) by (auto simp: got_def recv_result_def split: list.splits if_splits)
  have "joined w' fa fb (q(False := tl (q False))) nb"
    by (rule joinedI [OF p(1) A B]) (use p r(1) in simp_all)
  moreover have "socks w a = Some (XInproc sa ra (Some b))" using p(2) by (simp add: has_sock_def)
  from writable_evolves [OF w'(2) this es] have "writable w' = writable w" by simp
  moreover have "\<forall>k. dozing w fb k \<longrightarrow> dozing w' fb k" using dozing_iff [OF p(3)] dozing_iff [OF B] by simp
  moreover have "\<forall>k. dozing w fa k \<and> (resumed \<longrightarrow> 0 < k) \<longrightarrow> dozing w' fa (k - of_bool resumed + of_bool (rr = Blocked))"
    using dozing_iff [OF p(2)] dozing_iff [OF A] w'(5) by (cases resumed) (auto simp: ref_after_def of_nat_diff)
  ultimately show ?thesis using w'(1,2,6) r(2) by blast
qed

lemmas joined_recv_ev = joined_recv_on [where resumed = False, simplified]

lemma joined_send:
  assumes "wok h w" "joined w fa fb q nb"
  shows "\<exists>w'. xsend False n e fa m w = Some (Ok (Done (Inr ()), w')) \<and> wok h w' \<and> joined w' fa fb (q(True := q True @ [m])) nb"
  using joined_send_ev [OF assms, of n e m] by (elim exE conjE) (intro exI conjI, assumption, rule evolvesD(1), assumption+)

lemma joined_recv:
  assumes "wok h w" "joined w fa fb q nb"
  shows "\<exists>w'. xrecv False n e fa w = Some (Ok (got (nb False) (q False), w')) \<and> wok h w' \<and> joined w' fa fb (q(False := tl (q False))) nb"
  using joined_recv_ev [OF assms, of n e] by (elim exE conjE) (intro exI conjI, assumption, rule evolvesD(1), assumption+)

text \<open>The same at either end.\<close>

lemma joined_send_at:
  assumes "wok h w" "joined w fa fb q nb"
  shows "\<exists>w'. xsend False n e (if s then fb else fa) m w = Some (Ok (Done (Inr ()), w')) \<and> evolves h w w' \<and>
    writable w' = writable w \<and> joined w' fa fb (q((\<not> s) := q (\<not> s) @ [m])) nb \<and>
    (\<forall>k. dozing w (if s then fb else fa) k \<longrightarrow> dozing w' (if s then fb else fa) k) \<and>
    \<not> woke w w' (if s then fb else fa) \<and>
    (\<forall>k. dozing w (if s then fa else fb) k \<longrightarrow> dozing w' (if s then fa else fb) k) \<and>
    (\<forall>k < 2 ^ 31. dozing w (if s then fa else fb) k \<longrightarrow> woke w w' (if s then fa else fb) = (0 < k))"
proof (cases s)
  case True
  have "joined w fb fa (\<lambda>s. q (\<not> s)) (\<lambda>s. nb (\<not> s))" by (rule joined_swap [OF assms(2)]) simp_all
  from joined_send_ev [OF assms(1) this, of n e m] obtain w' where
    w': "xsend False n e fb m w = Some (Ok (Done (Inr ()), w'))" "evolves h w w'" "writable w' = writable w"
      "joined w' fb fa ((\<lambda>s. q (\<not> s))(True := q False @ [m])) (\<lambda>s. nb (\<not> s))"
      "\<forall>k. dozing w fb k \<longrightarrow> dozing w' fb k" "\<not> woke w w' fb"
      "\<forall>k. dozing w fa k \<longrightarrow> dozing w' fa k" "\<forall>k < 2 ^ 31. dozing w fa k \<longrightarrow> woke w w' fa = (0 < k)" by auto
  have "joined w' fa fb (q(False := q False @ [m])) nb" by (rule joined_swap [OF w'(4)]) auto
  with w'(1-3,5-8) True show ?thesis by (intro exI [of _ w']) simp
next
  case False
  with joined_send_ev [OF assms, of n e m] show ?thesis by simp
qed

lemma joined_recv_on_at:
  assumes "wok h w" "joined w fa fb q nb" "resumed \<longrightarrow> (\<exists>k. 0 < k \<and> dozing w (if s then fb else fa) k)"
  shows "\<exists>w'. xrecv resumed n e (if s then fb else fa) w = Some (Ok (got (nb s) (q s), w')) \<and> evolves h w w' \<and>
    writable w' = writable w \<and> joined w' fa fb (q(s := tl (q s))) nb \<and> wake w' = wake w \<and>
    (\<forall>k. dozing w (if s then fa else fb) k \<longrightarrow> dozing w' (if s then fa else fb) k) \<and>
    (\<forall>k. dozing w (if s then fb else fa) k \<and> (resumed \<longrightarrow> 0 < k) \<longrightarrow>
       dozing w' (if s then fb else fa) (k - of_bool resumed + of_bool (got (nb s) (q s) = Blocked)))"
proof (cases s)
  case True
  have "joined w fb fa (\<lambda>s. q (\<not> s)) (\<lambda>s. nb (\<not> s))" by (rule joined_swap [OF assms(2)]) simp_all
  from joined_recv_on [OF assms(1) this, of resumed n e] assms(3) True obtain w' where
    w': "xrecv resumed n e fb w = Some (Ok (got (nb True) (q True), w'))" "evolves h w w'" "writable w' = writable w"
      "joined w' fb fa ((\<lambda>s. q (\<not> s))(False := tl (q True))) (\<lambda>s. nb (\<not> s))" "wake w' = wake w"
      "\<forall>k. dozing w fa k \<longrightarrow> dozing w' fa k"
      "\<forall>k. dozing w fb k \<and> (resumed \<longrightarrow> 0 < k) \<longrightarrow>
         dozing w' fb (k - of_bool resumed + of_bool (got (nb True) (q True) = Blocked))" by auto
  have "joined w' fa fb (q(True := tl (q True))) nb" by (rule joined_swap [OF w'(4)]) auto
  with w'(1-3,5-7) True show ?thesis by (intro exI [of _ w']) simp
next
  case False
  with joined_recv_on [OF assms(1,2), of resumed n e] assms(3) show ?thesis by simp
qed

text \<open>The whole state of a pair: the queues, and \<open>k s\<close> callers in a receive at the end \<open>s\<close>.\<close>

definition chan :: "(nat \<Rightarrow> nat) \<Rightarrow> world \<Rightarrow> int \<Rightarrow> int \<Rightarrow> (bool \<Rightarrow> msgbuf list) \<Rightarrow> (bool \<Rightarrow> bool) \<Rightarrow> (bool \<Rightarrow> nat) \<Rightarrow> bool" where
  "chan h w fa fb q nb k \<longleftrightarrow> wok h w \<and> joined w fa fb q nb \<and> (\<forall>s. dozing w (if s then fb else fa) (k s))"

lemma chan_send:
  assumes "chan h w fa fb q nb k"
  shows "\<exists>w'. xsend False n e (if s then fb else fa) m w = Some (Ok (Done (Inr ()), w')) \<and>
    chan h w' fa fb (q((\<not> s) := q (\<not> s) @ [m])) nb k \<and> evolves h w w' \<and> writable w' = writable w \<and>
    (\<forall>t. k t < 2 ^ 31 \<longrightarrow> woke w w' (if t then fb else fa) = (t = (\<not> s) \<and> 0 < k t))"
proof -
  have w: "wok h w" "joined w fa fb q nb" and z: "\<And>s. dozing w (if s then fb else fa) (k s)" using assms by (auto simp: chan_def)
  have z2: "dozing w (if s then fa else fb) (k (\<not> s))" using z [of True] z [of False] by (cases s) simp_all
  from joined_send_at [OF w, of n e s m] obtain w' where
    w': "xsend False n e (if s then fb else fa) m w = Some (Ok (Done (Inr ()), w'))" "evolves h w w'" "writable w' = writable w"
      "joined w' fa fb (q((\<not> s) := q (\<not> s) @ [m])) nb" "dozing w' (if s then fb else fa) (k s)"
      "\<not> woke w w' (if s then fb else fa)" "dozing w' (if s then fa else fb) (k (\<not> s))"
      "k (\<not> s) < 2 ^ 31 \<longrightarrow> woke w w' (if s then fa else fb) = (0 < k (\<not> s))" using z z2 by blast
  have "dozing w' (if t then fb else fa) (k t)" for t using w'(5,7) by (cases s; cases t) simp_all
  moreover have "k t < 2 ^ 31 \<longrightarrow> woke w w' (if t then fb else fa) = (t = (\<not> s) \<and> 0 < k t)" for t
    using w'(6,8) by (cases s; cases t) simp_all
  ultimately show ?thesis using w'(1-4) evolvesD(1) [OF w'(2)] by (intro exI [of _ w']) (simp add: chan_def)
qed

lemma chan_recv:
  assumes "chan h w fa fb q nb k" "resumed \<longrightarrow> 0 < k s"
  shows "\<exists>w'. xrecv resumed n e (if s then fb else fa) w = Some (Ok (got (nb s) (q s), w')) \<and>
    chan h w' fa fb (q(s := tl (q s))) nb (k(s := k s - of_bool resumed + of_bool (got (nb s) (q s) = Blocked))) \<and>
    evolves h w w' \<and> writable w' = writable w \<and> wake w' = wake w"
proof -
  have w: "wok h w" "joined w fa fb q nb" and z: "\<And>s. dozing w (if s then fb else fa) (k s)" using assms(1) by (auto simp: chan_def)
  have z2: "dozing w (if s then fa else fb) (k (\<not> s))" using z [of True] z [of False] by (cases s) simp_all
  have "resumed \<longrightarrow> (\<exists>k. 0 < k \<and> dozing w (if s then fb else fa) k)" using assms(2) z by blast
  from joined_recv_on_at [OF w this, of n e] obtain w' where
    w': "xrecv resumed n e (if s then fb else fa) w = Some (Ok (got (nb s) (q s), w'))" "evolves h w w'" "writable w' = writable w"
      "joined w' fa fb (q(s := tl (q s))) nb" "wake w' = wake w" "dozing w' (if s then fa else fb) (k (\<not> s))"
      "dozing w' (if s then fb else fa) (k s - of_bool resumed + of_bool (got (nb s) (q s) = Blocked))" using z z2 assms(2) by blast
  have "dozing w' (if t then fb else fa) ((k(s := k s - of_bool resumed + of_bool (got (nb s) (q s) = Blocked))) t)" for t
    using w'(6,7) by (cases s; cases t) simp_all
  then show ?thesis using w'(1-5) evolvesD(1) [OF w'(2)] by (intro exI [of _ w']) (simp add: chan_def)
qed

text \<open>The counts of the run.\<close>

lemma woke_same: "wake w' = wake w \<Longrightarrow> woke w w' fd = False"
  by (simp add: woke_def split: option.split)

lemma rouse_none: "rouse (\<lambda>_. False) zk = zk"
  by (simp add: rouse_def)

lemma rouse_cong:
  "(\<And>t. b t = c t \<or> inside zk t = 0) \<Longrightarrow> rouse b zk = rouse c zk"
  unfolding rouse_def inside_def by (intro sleepers.unfold_congs ext) (force+)

lemma inside_rouse [simp]: "inside (rouse b zk) t = inside zk t"
  by (simp add: rouse_def inside_def)

lemma inside_doze: "inside (doze s r zk) t = inside zk t + of_bool (t = s \<and> r = Blocked)"
  by (simp add: doze_def inside_def)

lemma inside_rise:
  "rise s sp zk = Some yk \<Longrightarrow> 0 < inside zk s \<and> inside yk t = inside zk t - of_bool (t = s)"
  by (auto simp: rise_def inside_def split: if_splits)

text \<open>C2. A pair of connected in-process sockets is a pair of queues with sleepers: under any interleaving of sends and
  receives at both ends every message arrives at the other end, once, unchanged and in the order
  of the sends; a receive that finds nothing sleeps, or fails with \<open>EAGAIN\<close> if the socket does
  not block. A send wakes all who sleep at the other end, none is forgotten; who goes on, woken or spuriously, takes
  the first message if there is one and sleeps again if there is none. Poll sets that watch the
  sockets do not disturb this. Every send succeeds, however many messages wait at the other end: the limit
  \<open>XRCVBUF\<close> that \<^verbatim>\<open>docs/xpf_inproc.7.txt\<close> and \<^verbatim>\<open>docs/xgetsockopt.3.txt\<close> describe is not looked at. At the
  start the two sockets count the callers that sleep at them, and there are never \<open>2^31\<close> of them.\<close>

theorem inproc_channel:
  assumes "wok h w" "joined w fa fb q nb"
    and "\<forall>s. dozing w (if s then fb else fa) (inside zk s) \<and> inside zk s + length ops < 2 ^ 31"
  shows "\<exists>w'. run_chan n e fa fb ops zk w = Some (Ok (abs_chan nb ops zk q, w')) \<and> wok h w'"
proof -
  have "chan h w fa fb q nb (inside zk)" "\<And>s. inside zk s + length ops < 2 ^ 31" using assms by (simp_all add: chan_def)
  then show ?thesis
  proof (induction ops arbitrary: w q zk)
    case Nil
    then show ?case by (simp add: chan_def)
  next
    case (Cons p ops)
    have recv: "\<exists>w' w''. xrecv resumed n e (if s then fb else fa) w = Some (Ok (got (nb s) (q s), w')) \<and> (\<forall>fd. \<not> woke w w' fd) \<and>
        run_chan n e fa fb ops (doze s (got (nb s) (q s)) yk) w' =
          Some (Ok (abs_chan nb ops (doze s (got (nb s) (q s)) yk) (q(s := tl (q s))), w'')) \<and> wok h w''"
      if y: "resumed \<longrightarrow> 0 < inside zk s" "\<And>t. inside yk t = inside zk t - of_bool (t = s \<and> resumed)" for resumed s yk
    proof -
      from chan_recv [OF Cons.prems(1) y(1), of n e] obtain w' where
        w': "xrecv resumed n e (if s then fb else fa) w = Some (Ok (got (nb s) (q s), w'))" "wake w' = wake w"
          "chan h w' fa fb (q(s := tl (q s))) nb ((inside zk)(s := inside zk s - of_bool resumed + of_bool (got (nb s) (q s) = Blocked)))"
        by blast
      let ?yk = "doze s (got (nb s) (q s)) yk"
      have i: "inside ?yk = (inside zk)(s := inside zk s - of_bool resumed + of_bool (got (nb s) (q s) = Blocked))"
        by (auto simp: inside_doze y(2))
      have "inside ?yk t + length ops < 2 ^ 31" for t using Cons.prems(2) [of t] y(1) by (auto simp: inside_doze y(2))
      from Cons.IH [OF w'(3) [folded i] this] show ?thesis using w'(1) woke_same [OF w'(2)] by blast
    qed
    show ?case
    proof (cases p)
      case (CSend s m)
      from chan_send [OF Cons.prems(1), of n e s m] obtain w' where
        w': "xsend False n e (if s then fb else fa) m w = Some (Ok (Done (Inr ()), w'))"
          "chan h w' fa fb (q((\<not> s) := q (\<not> s) @ [m])) nb (inside zk)"
          "\<And>t. inside zk t < 2 ^ 31 \<Longrightarrow> woke w w' (if t then fb else fa) = (t = (\<not> s) \<and> 0 < inside zk t)" by blast
      have k: "inside zk t < 2 ^ 31" "inside zk t + length ops < 2 ^ 31" for t using Cons.prems(2) [of t] by simp_all
      have r: "rouse (\<lambda>t. woke w w' (if t then fb else fa)) zk = rouse (\<lambda>t. t = (\<not> s)) zk"
        by (rule rouse_cong) (use w'(3) [OF k(1)] in auto)
      have "chan h w' fa fb (q((\<not> s) := q (\<not> s) @ [m])) nb (inside (rouse (\<lambda>t. t = (\<not> s)) zk))"
        "inside (rouse (\<lambda>t. t = (\<not> s)) zk) t + length ops < 2 ^ 31" for t using w'(2) k(2) by (simp_all add: chan_def)
      from Cons.IH [OF this] w'(1) r CSend show ?thesis by (auto simp del: fun_upd_apply)
    next
      case (CRecv s)
      from recv [of False s zk] CRecv show ?thesis by (auto simp: rouse_none Let_def simp del: fun_upd_apply)
    next
      case (CWake s sp)
      show ?thesis
      proof (cases "rise s sp zk")
        case None
        from Cons.IH [OF Cons.prems(1)] Cons.prems(2) None CWake show ?thesis by (auto simp: Suc_lessD)
      next
        case (Some yk)
        from recv [of True s yk] inside_rise [OF Some] Some CWake show ?thesis
          by (auto simp: rouse_none Let_def simp del: fun_upd_apply)
      qed
    qed
  qed
qed

section \<open>New sockets\<close>

text \<open>The poll sets stay, and what they watch.\<close>

definition still_polls :: "(nat \<Rightarrow> nat) \<Rightarrow> world \<Rightarrow> world \<Rightarrow> bool" where
  "still_polls h w w' \<longleftrightarrow> keeps perm_lru h (pg w) (pg w') \<and> watches (pg w') = watches (pg w)"

lemma still_pollsI:
  "pg w' = pg w \<Longrightarrow> still_polls h w w'" "evolves h w w' \<Longrightarrow> still_polls h w w'"
  by (simp_all add: still_polls_def evolves_def)

lemma still_polls_trans: "still_polls h w w' \<Longrightarrow> still_polls h w' w'' \<Longrightarrow> still_polls h w w''"
  unfolding still_polls_def by (auto intro: keeps_trans simp: perm_lru_def)

lemma wok_listeners [simp]: "wok h (w\<lparr>inproc_listeners := m\<rparr>) = wok h w"
  by (simp add: wok_def slot_wok_def sock_wok_def entry_at_def lists_disjoint_def)

text \<open>The socket \<open>xalloc\<close> makes, and the world with it.\<close>

definition new_inproc :: "vfptr \<Rightarrow> nat \<Rightarrow> xsock" where
  "new_inproc v fd = XInproc ((sockbase_init v)\<lparr>sb_fd := int fd, sb_ref := 1\<rparr>) (if v = InprocListener then 0 else 1) None"

definition born :: "vfptr \<Rightarrow> nat \<Rightarrow> nat tbl \<Rightarrow> world \<Rightarrow> world" where
  "born v fd t w = set_sock (wnext w) (new_inproc v fd)
     (w\<lparr>xgb := t, wnext := wnext w + 1, inproc_listeners := zero_entry (wnext w) (inproc_listeners w)\<rparr>)"

lemma born_wok:
  assumes w: "wok h w" and t: "tbl_alloc PROXYIO_MAX_SOCKS (wnext w) (xgb w) = Ok (fd, t)"
  shows "wok h (born v fd t w)" "has_sock (born v fd t w) (int fd) (wnext w) (new_inproc v fd)"
    "fd \<notin> live (xgb w)" "live t = insert fd (live (xgb w))"
    "has_sock w i a x \<Longrightarrow> has_sock (born v fd t w) i a x"
proof -
  note d = wokD [OF w]
  note al = tbl_alloc_ok [OF d(1) t]
  show "fd \<notin> live (xgb w)" "live t = insert fd (live (xgb w))" using al by auto
  have fresh: "socks w (wnext w) = None" by (rule d(7)) simp
  show 2: "has_sock (born v fd t w) (int fd) (wnext w) (new_inproc v fd)" using al by (simp add: born_def has_sock_def)
  show "has_sock (born v fd t w) i a x" if "has_sock w i a x"
  proof -
    have "nat i \<in> live (xgb w)" "socks w a = Some x" using that d(3) [of "nat i" a] by (auto simp: has_sock_def slot_wok_def)
    then show ?thesis using that al fresh by (auto simp: born_def has_sock_def)
  qed
  let ?w = "born v fd t w"
  have "slot_wok ?w i a" if "slots (xgb ?w) i = Some a" for i a
  proof (cases "i = fd")
    case True
    then show ?thesis using that al by (auto simp: born_def slot_wok_def new_inproc_def)
  next
    case False
    then have "slot_wok w i a" using that al d(3) by (auto simp: born_def)
    then show ?thesis using al fresh by (auto simp: born_def slot_wok_def)
  qed
  moreover have "sock_wok ?w a x" if "socks ?w a = Some x" for a x
    using that d(4) [of a x] by (auto simp: born_def sock_wok_def new_inproc_def sockbase_init_def sock_ok_def split: if_splits)
  moreover have "link_attached y \<and> entry_at ?w e y" if y: "ens (pg ?w) e = Some y" for e y
  proof -
    have y0: "ens (pg w) e = Some y" using y by (simp add: born_def)
    from d(6) [OF y0] obtain a x where x: "socks w a = Some x" "e \<in> set (poll_entries (sock_base x))"
      "slots (xgb w) (nat (pfd (pollfd y))) = Some a" "0 \<le> pfd (pollfd y)"
      "lru_attached y \<longrightarrow> happened (pollfd y) = poll_mask (sock_base x) AND pevents (pollfd y)" by (auto simp: entry_at_def)
    have "nat (pfd (pollfd y)) \<noteq> fd"
      using d(3) [of "nat (pfd (pollfd y))" a] x(3) al by (auto simp: slot_wok_def)
    moreover have "a \<noteq> wnext w" using x(1) fresh by auto
    ultimately have "entry_at ?w e y" unfolding entry_at_def
      by (intro exI [of _ a] exI [of _ x]) (use x al in \<open>auto simp: born_def\<close>)
    then show ?thesis using d(5) [OF y0] by simp
  qed
  moreover have "lists_disjoint ?w" using d(8) fresh
    by (auto simp: lists_disjoint_def born_def new_inproc_def sockbase_init_def split: if_splits)
  moreover have "socks ?w a = None" if "wnext ?w \<le> a" for a using that d(7) by (auto simp: born_def)
  ultimately show "wok h ?w" using al d(2) by (auto simp: wok_def born_def)
qed

lemma lookup_inproc:
  "sockbase_vfptr_lookup XAF_INPROC XLISTENER = Some InprocListener"
  "sockbase_vfptr_lookup XAF_INPROC XCONNECTOR = Some InprocConnector"
  by (simp_all add: sockbase_vfptr_lookup_def sockbase_vfptrs_def XLISTENER_def XCONNECTOR_def XAF_INPROC_def)

lemma xalloc_inproc:
  assumes w: "wok h w" and room: "card (live (xgb w)) < PROXYIO_MAX_SOCKS" and m: "sock_mem e"
    and v: "v \<in> {InprocListener, InprocConnector}"
  shows "\<exists>fd t. xalloc e XAF_INPROC (vf_type v) w = Ok (Inr fd, born v fd t w) \<and>
    tbl_alloc PROXYIO_MAX_SOCKS (wnext w) (xgb w) = Ok (fd, t)"
proof -
  from xpool.alloc_room [OF wokD(1) [OF w] room] obtain fd t where
    t: "tbl_alloc PROXYIO_MAX_SOCKS (wnext w) (xgb w) = Ok (fd, t)" by blast
  then show ?thesis using m v lookup_inproc
    by (auto simp: xalloc_def vf_open_def born_def new_inproc_def sockbase_init_def Let_def)
qed

section \<open>The registry\<close>

definition registered :: "world \<Rightarrow> rtree \<Rightarrow> bool" where
  "registered w t \<longleftrightarrow> str_holds (entry_key w) (inproc_listeners w) t \<and>
     (\<forall>a\<in>set (inorder t). \<exists>sb r p. socks w a = Some (XInproc sb r p))"

text \<open>Who listens at an address.\<close>

abbreviation listener_at :: "world \<Rightarrow> rtree \<Rightarrow> string \<Rightarrow> nat option" where
  "listener_at w t s \<equiv> str_map_of (entry_key w) t (key_of s)"

lemma registered_cong:
  assumes "registered w t" "inproc_listeners w' = inproc_listeners w"
    "\<And>a. a \<in> set (inorder t) \<Longrightarrow> entry_key w' a = entry_key w a \<and> (\<exists>sb r p. socks w' a = Some (XInproc sb r p))"
  shows "registered w' t" "listener_at w' t s = listener_at w t s"
  using assms str_holds_cong [of t "entry_key w'" "entry_key w"] str_map_of_cong [of t "entry_key w'" "entry_key w"]
  by (auto simp: registered_def)

lemma registered_size:
  assumes w: "wok h w" and t: "registered w t"
  shows "length (inorder t) \<le> wnext w" "rheight t < Suc (wnext w)"
proof -
  have "set (inorder t) \<subseteq> {..<wnext w}"
  proof
    fix a assume "a \<in> set (inorder t)"
    then have "socks w a \<noteq> None" using t by (auto simp: registered_def)
    then show "a \<in> {..<wnext w}" using wokD(7) [OF w, of a] by (simp, metis not_le)
  qed
  moreover have "distinct (inorder t)" using t by (simp add: registered_def str_holds_def held_def)
  ultimately show "length (inorder t) \<le> wnext w" using card_mono [of "{..<wnext w}" "set (inorder t)"] by (simp add: distinct_card)
  then show "rheight t < Suc (wnext w)" using height_length [of t] by simp
qed

lemma registered_zero:
  "str_holds K m t \<Longrightarrow> a \<notin> set (inorder t) \<Longrightarrow> str_holds K (zero_entry a m) t"
  by (simp add: str_holds_def held_def zero_entry_def)

lemma registered_born:
  assumes w: "wok h w" and t: "registered w t"
  shows "registered (born v fd tb w) t" "listener_at (born v fd tb w) t s = listener_at w t s"
    "wnext w \<notin> set (inorder t)"
proof -
  have fresh: "socks w (wnext w) = None" by (rule wokD(7) [OF w]) simp
  show n: "wnext w \<notin> set (inorder t)" using t fresh by (auto simp: registered_def)
  have k: "entry_key (born v fd tb w) a = entry_key w a" if "a \<in> set (inorder t)" for a
    using that n by (auto simp: entry_key_def born_def)
  have "str_holds (entry_key w) (inproc_listeners (born v fd tb w)) t"
    using t registered_zero [OF _ n] by (simp add: registered_def born_def)
  then show "registered (born v fd tb w) t"
    using t n str_holds_cong [of t "entry_key (born v fd tb w)" "entry_key w"] k by (auto simp: registered_def born_def)
  show "listener_at (born v fd tb w) t s = listener_at w t s" using str_map_of_cong [of t] k by metis
qed

lemma getlistener_ok:
  assumes w: "wok h w" and t: "registered w t"
  shows "getlistener s w = Some (Ok (case listener_at w t s of None \<Rightarrow> (None, w)
    | Some a \<Rightarrow> if epipe (sock_base (the (socks w a))) then (None, w)
               else (Some a, ref_up a (the (socks w a)) w)))"
proof -
  have f: "str_rb_find (entry_key w) (Suc (wnext w)) (key_of s) (inproc_listeners w) = Some (listener_at w t s)"
    using t registered_size(2) [OF w t] by (intro str_rb_find_ok) (auto simp: registered_def)
  have "\<exists>x. socks w a = Some x" if "listener_at w t s = Some a" for a
  proof -
    have "distinct (map (entry_key w) (inorder t))" using t by (simp add: registered_def str_holds_def)
    from str_map_of_iff [OF this] that have "a \<in> set (inorder t)" by simp
    then show ?thesis using t by (auto simp: registered_def)
  qed
  then show ?thesis using f
    by (cases "listener_at w t s") (auto simp: getlistener_def upd_sock_set ref_up_def)
qed

lemma addlistener_ok:
  assumes w: "wok h w" and t: "registered w t" and a: "a \<notin> set (inorder t)" "socks w a = Some (XInproc sb r p)"
  shows "case listener_at w t (sb_addr sb) of
      Some b \<Rightarrow> addlistener a w = Some (Ok (False, w))
    | None \<Rightarrow> \<exists>m t'. addlistener a w = Some (Ok (True, w\<lparr>inproc_listeners := m\<rparr>)) \<and>
        registered (w\<lparr>inproc_listeners := m\<rparr>) t' \<and> set (inorder t') = insert a (set (inorder t)) \<and>
        str_map_of (entry_key w) t' = (str_map_of (entry_key w) t)(key_of (sb_addr sb) \<mapsto> a)"
proof -
  have k: "entry_key w a = key_of (sb_addr sb)" using a(2) by (simp add: entry_key_def)
  have h: "str_holds (entry_key w) (inproc_listeners w) t" "rheight t < Suc (wnext w)"
    using t registered_size(2) [OF w t] by (auto simp: registered_def)
  have f: "str_rb_find (entry_key w) (Suc (wnext w)) (entry_key w a) (inproc_listeners w) = Some (listener_at w t (sb_addr sb))"
    unfolding k by (rule str_rb_find_ok [OF h])
  show ?thesis
  proof (cases "listener_at w t (sb_addr sb)")
    case None
    with str_rb_insert_ok [OF h a(1)] k obtain m t' where
      m: "str_rb_insert (entry_key w) (Suc (wnext w)) a (inproc_listeners w) = Some (Ok (True, m))"
        "str_holds (entry_key w) m t'" "mset (inorder t') = add_mset a (mset (inorder t))"
        "str_map_of (entry_key w) t' = (str_map_of (entry_key w) t)(key_of (sb_addr sb) \<mapsto> a)" by auto
    have st: "set (inorder t') = insert a (set (inorder t))" using arg_cong [OF m(3), of set_mset] by simp
    have ke: "entry_key (w\<lparr>inproc_listeners := m\<rparr>) = entry_key w" by (simp add: entry_key_def fun_eq_iff)
    have "registered (w\<lparr>inproc_listeners := m\<rparr>) t'" using m(2) t a(2) st ke by (auto simp: registered_def)
    then show ?thesis using None f m(1,4) st by (auto simp: addlistener_def)
  qed (use f in \<open>auto simp: addlistener_def\<close>)
qed

section \<open>Listening\<close>

lemma XAF_nonzero [simp]: "XAF_INPROC \<noteq> 0"
  by (simp add: XAF_INPROC_def)

lemma inproc_url:
  assumes "CHR ''@'' \<notin> set s"
  shows "sockaddr_pf True (''inproc://'' @ s) = Ok XAF_INPROC" "sockaddr_addr (''inproc://'' @ s) sz = Ok (take sz s)"
proof -
  have "CHR '':'' \<notin> set ''inproc''" by simp
  from strstr_at_append [OF this, of "''//''" s] have c: "strstr_at (''inproc://'' @ s) ''://'' = Some 6" by simp
  have at: "strchr_at (''inproc://'' @ s) CHR ''@'' = None" using assms by (intro strchr_at_append_None) auto
  have pf: "pf_flags ''inproc'' = XAF_INPROC" using pf_flags_proto [of "''inproc''"] by (simp add: XAF_INPROC_def)
  have tk: "take 6 (''inproc://'' @ s) = ''inproc''" by (simp add: eval_nat_numeral)
  show "sockaddr_pf True (''inproc://'' @ s) = Ok XAF_INPROC"
    unfolding sockaddr_pf_def at c by (simp only: option.case Let_def drop_0 diff_zero tk pf if_False if_True XAF_nonzero)
  show "sockaddr_addr (''inproc://'' @ s) sz = Ok (take sz s)"
    unfolding sockaddr_addr_def c by (simp add: eval_nat_numeral)
qed

text \<open>The base of a listener that is about to be registered, and what \<open>xbind\<close> does to it.\<close>

lemma xbind_listener:
  assumes w: "wok h w" and x: "has_sock w fd a (XInproc sb r p)" and v: "vfp sb = InprocListener"
    and t: "registered w t" and a: "a \<notin> set (inorder t)" and s: "length s < PATH_MAX"
  shows "case listener_at w t s of
      Some b \<Rightarrow> xbind_by ls n e fd s w = Some (Ok (Inl EADDRINUSE, set_sock a (XInproc (sb\<lparr>sb_addr := s\<rparr>) r p) w))
    | None \<Rightarrow> \<exists>m t'. let w' = (set_sock a (XInproc (sb\<lparr>sb_addr := s\<rparr>) r p) w)\<lparr>inproc_listeners := m\<rparr> in
        xbind_by ls n e fd s w = Some (Ok (Inr (), w')) \<and> registered w' t' \<and> set (inorder t') = insert a (set (inorder t)) \<and>
        str_map_of (entry_key w') t' = (str_map_of (entry_key w) t)(key_of s \<mapsto> a)"
    "evolves h w (set_sock a (XInproc (sb\<lparr>sb_addr := s\<rparr>) r p) w)"
proof -
  let ?x = "XInproc sb r p"
  note d = has_sockD [OF w x]
  note g = xget_ok [OF w x]
  let ?sb = "sb\<lparr>sb_ref := sb_ref sb + 1\<rparr>"
  let ?y = "XInproc (?sb\<lparr>sb_addr := s\<rparr>) r p"
  let ?w1 = "ref_up a ?x w"
  let ?w2 = "set_sock a ?y w"
  have w2: "upd_sock a (\<lambda>sb. sb\<lparr>sb_addr := s\<rparr>) ?w1 = ?w2" by (subst upd_sock_set [of _ _ "XInproc ?sb r p"]) (simp_all add: ref_up_def)
  have ev: "evolves h w (set_sock a (set_sock_base (sb\<lparr>sb_addr := s\<rparr>) ?x) w)"
    by (rule silent_evolves [OF w d(1)]) (use d in auto)
  then show "evolves h w (set_sock a (XInproc (sb\<lparr>sb_addr := s\<rparr>) r p) w)" by simp
  have ev2: "evolves h w (set_sock a (set_sock_base (?sb\<lparr>sb_addr := s\<rparr>) ?x) w)"
    by (rule silent_evolves [OF w d(1)]) (use d in auto)
  have ok2: "wok h ?w2" using ev2 by (simp add: evolves_def)
  have h2: "has_sock ?w2 fd a ?y" by (rule has_sock_upd [OF x])
  have ke: "entry_key ?w2 b = entry_key w b" if "b \<in> set (inorder t)" for b
    using that a by (auto simp: entry_key_def)
  have t2: "registered ?w2 t" "listener_at ?w2 t s = listener_at w t s"
    by (rule registered_cong [OF t]; use ke t a in \<open>auto simp: registered_def\<close>)+
  have m2: "str_map_of (entry_key ?w2) t = str_map_of (entry_key w) t" by (rule str_map_of_cong) (rule ke)
  have y: "socks ?w2 a = Some ?y" by simp
  have start: "xbind_by ls n e fd s w = obind (addlistener a ?w2) (\<lambda>(ok, w).
      obind (xput n e fd w) (\<lambda>w. Some (Ok (if ok then Inr () else Inl EADDRINUSE, w))))"
    using g(1) s v w2 by (simp add: xbind_by_def vf_bind_def ref_up_def inproc_listener_bind_def obind_assoc split_def)
  note al = addlistener_ok [OF ok2 t2(1) a y, simplified]
  show "case listener_at w t s of
      Some b \<Rightarrow> xbind_by ls n e fd s w = Some (Ok (Inl EADDRINUSE, set_sock a (XInproc (sb\<lparr>sb_addr := s\<rparr>) r p) w))
    | None \<Rightarrow> \<exists>m t'. let w' = (set_sock a (XInproc (sb\<lparr>sb_addr := s\<rparr>) r p) w)\<lparr>inproc_listeners := m\<rparr> in
        xbind_by ls n e fd s w = Some (Ok (Inr (), w')) \<and> registered w' t' \<and> set (inorder t') = insert a (set (inorder t)) \<and>
        str_map_of (entry_key w') t' = (str_map_of (entry_key w) t)(key_of s \<mapsto> a)"
  proof (cases "listener_at w t s")
    case (Some b)
    then have "addlistener a ?w2 = Some (Ok (False, ?w2))" using al t2(2) by simp
    then show ?thesis using Some start xput_ok(1) [OF ok2 h2, of "vf_close n e"] d(3) by simp
  next
    case None
    then obtain m t' where m: "addlistener a ?w2 = Some (Ok (True, ?w2\<lparr>inproc_listeners := m\<rparr>))"
      "registered (?w2\<lparr>inproc_listeners := m\<rparr>) t'" "set (inorder t') = insert a (set (inorder t))"
      "str_map_of (entry_key ?w2) t' = (str_map_of (entry_key ?w2) t)(key_of s \<mapsto> a)" using al t2(2) by auto
    let ?w3 = "?w2\<lparr>inproc_listeners := m\<rparr>"
    let ?w4 = "(set_sock a (XInproc (sb\<lparr>sb_addr := s\<rparr>) r p) w)\<lparr>inproc_listeners := m\<rparr>"
    have ok3: "wok h ?w3" using ok2 by simp
    have h3: "has_sock ?w3 fd a ?y" using h2 by (simp add: has_sock_def)
    have e: "set_sock a (XInproc (sb\<lparr>sb_addr := s\<rparr>) r p) ?w3 = ?w4" by (simp add: set_sock_def)
    have "xbind_by ls n e fd s w = Some (Ok (Inr (), ?w4))"
      using start m(1) xput_ok(1) [OF ok3 h3, of "vf_close n e"] d(3) e by simp
    moreover have k4: "entry_key ?w4 = entry_key ?w3" by (auto simp: entry_key_def fun_eq_iff)
    have "registered ?w4 t'" using m(2) k4 by (auto simp: registered_def)
    moreover have "entry_key ?w3 = entry_key ?w2" by (simp add: entry_key_def fun_eq_iff)
    ultimately show ?thesis using None m(3,4) m2 k4 by (simp add: Let_def, intro exI [of _ m] conjI exI [of _ t']) simp_all
  qed
qed

definition listening :: "string \<Rightarrow> nat \<Rightarrow> xsock" where
  "listening s fd = XInproc ((sockbase_init InprocListener)\<lparr>sb_fd := int fd, sb_ref := 1, sb_addr := s\<rparr>) 0 None"

text \<open>Two worlds where the sockets of the first are also in the second.\<close>

definition grows :: "world \<Rightarrow> world \<Rightarrow> bool" where
  "grows w w' \<longleftrightarrow> (\<forall>i a x. has_sock w i a x \<longrightarrow> has_sock w' i a x)"

lemma xlisten_free:
  assumes w: "wok h w" and t: "registered w t" and room: "card (live (xgb w)) < PROXYIO_MAX_SOCKS"
    and e: "sock_mem e" "have_strndup e" and s: "CHR ''@'' \<notin> set s" "length s < PATH_MAX"
    and free: "listener_at w t s = None"
  shows "\<exists>fd w' t'. xlisten (Suc n) e (''inproc://'' @ s) w = Some (Ok (Inr fd, w')) \<and> wok h w' \<and> registered w' t' \<and>
    str_map_of (entry_key w') t' = (str_map_of (entry_key w) t)(key_of s \<mapsto> wnext w) \<and>
    has_sock w' (int fd) (wnext w) (listening s fd) \<and> grows w w' \<and>
    fd \<notin> live (xgb w) \<and> live (xgb w') = insert fd (live (xgb w)) \<and> wnext w' = Suc (wnext w) \<and> still_polls h w w'"
proof -
  from xalloc_inproc [OF w room e(1), of InprocListener] obtain fd tb where
    al: "xalloc e XAF_INPROC XLISTENER w = Ok (Inr fd, born InprocListener fd tb w)"
      "tbl_alloc PROXYIO_MAX_SOCKS (wnext w) (xgb w) = Ok (fd, tb)" by auto
  let ?w1 = "born InprocListener fd tb w" and ?a = "wnext w"
  note b = born_wok [OF w al(2)]
  note r = registered_born [OF w t]
  let ?sb = "(sockbase_init InprocListener)\<lparr>sb_fd := int fd, sb_ref := 1\<rparr>"
  have x: "has_sock ?w1 (int fd) ?a (XInproc ?sb 0 None)" using b(2) [of InprocListener] by (simp add: new_inproc_def)
  have v: "vfp ?sb = InprocListener" by (simp add: sockbase_init_def)
  have l: "listener_at ?w1 t s = None" using free r(2) by simp
  note xb = xbind_listener [OF b(1) x v r(1,3) s(2)]
  from xb(1) [where n = n and e = e and ls = "xlisten n e"] l obtain m t' where m: "let w' = (set_sock ?a (XInproc (?sb\<lparr>sb_addr := s\<rparr>) 0 None) ?w1)\<lparr>inproc_listeners := m\<rparr> in
        xbind_by (xlisten n e) n e (int fd) s ?w1 = Some (Ok (Inr (), w')) \<and> registered w' t' \<and>
        set (inorder t') = insert ?a (set (inorder t)) \<and>
        str_map_of (entry_key w') t' = (str_map_of (entry_key ?w1) t)(key_of s \<mapsto> ?a)" by auto
  define w' where "w' = (set_sock ?a (XInproc (?sb\<lparr>sb_addr := s\<rparr>) 0 None) ?w1)\<lparr>inproc_listeners := m\<rparr>"
  have m': "xbind_by (xlisten n e) n e (int fd) s ?w1 = Some (Ok (Inr (), w'))" "registered w' t'"
    "str_map_of (entry_key w') t' = (str_map_of (entry_key ?w1) t)(key_of s \<mapsto> ?a)"
    using m by (simp_all add: Let_def w'_def)
  have wok': "wok h w'" using xb(2) by (simp add: evolves_def w'_def)
  have k: "str_map_of (entry_key ?w1) t = str_map_of (entry_key w) t"
    by (rule str_map_of_cong) (use r(3) in \<open>auto simp: entry_key_def born_def\<close>)
  have "has_sock w' (int fd) ?a (listening s fd)" using x by (simp add: has_sock_def w'_def listening_def)
  moreover have "grows w w'" unfolding grows_def
  proof (intro allI impI)
    fix i a y assume y: "has_sock w i a y"
    have "a \<noteq> ?a" using wokD(7) [OF w, of ?a] y by (auto simp: has_sock_def)
    then show "has_sock w' i a y" using b(5) [OF y] by (simp add: has_sock_def w'_def)
  qed
  moreover have "xlisten (Suc n) e (''inproc://'' @ s) w = Some (Ok (Inr fd, w'))"
    using inproc_url [OF s(1)] e(2) s(2) al(1) m'(1) by simp
  moreover have "live (xgb w') = insert fd (live (xgb w))" "wnext w' = Suc (wnext w)" "still_polls h w w'"
    using b(4) by (simp_all add: w'_def born_def still_pollsI)
  ultimately show ?thesis using wok' m'(2,3) k b(3)
    by (intro exI [of _ fd] exI [of _ w'] exI [of _ t'] conjI) simp_all
qed

section \<open>Connecting\<close>

lemma acceptq_add_full:
  assumes "sock_ok sb"
  shows "\<exists>outs. acceptq_add sb b = Ok ((), outs @ notify (sb\<lparr>acceptq := acceptq sb @ [b]\<rparr>), sb\<lparr>acceptq := acceptq sb @ [b]\<rparr>) \<and>
    quiet outs"
proof -
  have "sock_ok (sb\<lparr>acceptq := acceptq sb @ [b]\<rparr>)" using assms by (simp add: sock_ok_def)
  note em = emitting_ok [OF this]
  show ?thesis unfolding acceptq_add_def em
    by (intro exI [of _ "if acceptq sb = [] \<and> sint (aq_waiters sb) > 0 then [WakeAccept] else []"]) (simp add: notify_def)
qed

lemma queue_accepted_ok:
  assumes w: "wok h w" and l: "has_sock w fl l x" "owner (sock_base x) = None"
  shows "\<exists>w' es. queue_accepted e l b w = Some (Ok w') \<and> evolves h w w' \<and>
    socks w' = (socks w)(l := Some (set_sock_base ((sock_base x)\<lparr>acceptq := acceptq (sock_base x) @ [b], poll_entries := es\<rparr>) x))"
proof -
  note d = has_sockD [OF w l(1)]
  let ?sb = "(sock_base x)\<lparr>acceptq := acceptq (sock_base x) @ [b]\<rparr>"
  from acceptq_add_full [OF d(4), of b] obtain outs where
    o: "acceptq_add (sock_base x) b = Ok ((), outs @ notify ?sb, ?sb)" "quiet outs" by blast
  have "settled (sock_base x) ?sb" using d(4) by (simp add: settled_def sock_ok_def)
  from on_sock_notify [where f = "\<lambda>sb. acceptq_add sb b" and e = e, OF w d(1) this o] obtain w' es where
    "on_sock e l (\<lambda>sb. acceptq_add sb b) w = Some (Ok ((), w'))" "evolves h w w'"
    "socks w' = (socks w)(l := Some (set_sock_base (?sb\<lparr>poll_entries := es\<rparr>) x))" by blast
  then show ?thesis using d(1) l(2) by (intro exI [of _ w'] exI [of _ es]) (simp add: queue_accepted_def)
qed

definition accepted :: "string \<Rightarrow> nat \<Rightarrow> nat \<Rightarrow> xsock" where
  "accepted s fd a =
     XInproc ((sockbase_init InprocConnector)\<lparr>sb_fd := int fd, sb_ref := 1, sb_addr := s\<rparr>) 2 (Some a)"

lemma connect_core:
  assumes w: "wok h w" and a: "has_sock w cfd a (XInproc sa 1 None)" "vfp sa = InprocConnector"
    and l: "has_sock w fl l (XInproc sl rl pl)" "vfp sl = InprocListener" "owner sl = None" "\<not> epipe sl"
    and t: "registered w t" "listener_at w t s = Some l"
    and room: "card (live (xgb w)) < PROXYIO_MAX_SOCKS" and m: "sock_mem e"
  shows "\<exists>bfd b w' es. inproc_connector_bind n e a s w = Some (Ok (Inr (), w')) \<and> wok h w' \<and>
    has_sock w' cfd a (XInproc (sa\<lparr>sb_peer := s\<rparr>) 2 (Some b)) \<and> has_sock w' (int bfd) b (accepted s bfd a) \<and>
    has_sock w' fl l (XInproc (sl\<lparr>acceptq := acceptq sl @ [b], poll_entries := es\<rparr>) rl pl) \<and>
    bfd \<notin> live (xgb w) \<and> live (xgb w') = insert bfd (live (xgb w)) \<and> b \<noteq> a \<and> still_polls h w w'"
proof -
  let ?a = "XInproc sa 1 None" and ?l = "XInproc sl rl pl" and ?b = "wnext w"
  note da = has_sockD [OF w a(1)] and dl = has_sockD [OF w l(1)]
  have fresh: "socks w ?b = None" by (rule wokD(7) [OF w]) simp
  have ne: "a \<noteq> l" "a \<noteq> ?b" "l \<noteq> ?b" using a l fresh da(1) dl(1) by auto
  define w1 where "w1 = ref_up l ?l w"
  note g = xget_ok [OF w l(1), folded w1_def]
  let ?sl = "sl\<lparr>sb_ref := sb_ref sl + 1\<rparr>"
  have w1: "wok h w1" "xgb w1 = xgb w" "wnext w1 = ?b" using evolvesD [OF g(2)] by simp_all
  have gl: "getlistener s w = Some (Ok (Some l, w1))" using getlistener_ok [OF w t(1), of s] t(2) dl(1) l(4) by (simp add: w1_def)
  have a1: "has_sock w1 cfd a ?a" using a(1) ne by (simp add: w1_def ref_up_def has_sock_def)
  from xalloc_inproc [OF w1(1) _ m, of InprocConnector] room obtain bfd tb where
    al: "xalloc e XAF_INPROC (vf_type InprocConnector) w1 = Ok (Inr bfd, born InprocConnector bfd tb w1)"
      "tbl_alloc PROXYIO_MAX_SOCKS (wnext w1) (xgb w1) = Ok (bfd, tb)" by (auto simp: w1(2))
  define w2 where "w2 = born InprocConnector bfd tb w1"
  note bo = born_wok [OF w1(1) al(2)]
  have w2: "wok h w2" "has_sock w2 cfd a ?a" "has_sock w2 fl l (XInproc ?sl rl pl)"
    "has_sock w2 (int bfd) ?b (new_inproc InprocConnector bfd)" "xgb w2 = tb"
    using bo(1) bo(2) [of InprocConnector] bo(5) [OF a1] bo(5) [OF g(3)] by (simp_all add: w2_def w1 born_def)
  let ?xa = "XInproc (sa\<lparr>sb_peer := s\<rparr>) 2 (Some ?b)" and ?xb = "accepted s bfd a"
  define w3 where "w3 = set_sock a ?xa w2"
  have e3: "evolves h w2 w3" unfolding w3_def by (rule replace_evolves [OF w2(1) has_sockD(1) [OF w2(1,2)]]) (use da in auto)
  have w3: "wok h w3" "has_sock w3 cfd a ?xa" "has_sock w3 fl l (XInproc ?sl rl pl)"
    "has_sock w3 (int bfd) ?b (new_inproc InprocConnector bfd)"
    using e3 w2 ne by (auto simp: evolves_def w3_def has_sock_def)
  define w4 where "w4 = set_sock ?b ?xb w3"
  have e4: "evolves h w3 w4" unfolding w4_def
    by (rule replace_evolves [OF w3(1) has_sockD(1) [OF w3(1,4)]]) (auto simp: accepted_def new_inproc_def sock_ok_def sockbase_init_def poll_mask_def readable_def)
  have w4: "wok h w4" "has_sock w4 cfd a ?xa" "has_sock w4 fl l (XInproc ?sl rl pl)" "has_sock w4 (int bfd) ?b ?xb"
    using e4 w3 ne by (auto simp: evolves_def w4_def has_sock_def)
  have own: "owner (sock_base (XInproc ?sl rl pl)) = None" using l(3) by simp
  from queue_accepted_ok [OF w4(1,3) own, of e ?b] obtain w5 es where
    q: "queue_accepted e l ?b w4 = Some (Ok w5)" "evolves h w4 w5"
      "socks w5 = (socks w4)(l := Some (XInproc (?sl\<lparr>acceptq := acceptq sl @ [?b], poll_entries := es\<rparr>) rl pl))" by auto
  have w5: "wok h w5" "has_sock w5 cfd a ?xa" "has_sock w5 (int bfd) ?b ?xb"
    "has_sock w5 fl l (XInproc (?sl\<lparr>acceptq := acceptq sl @ [?b], poll_entries := es\<rparr>) rl pl)"
    using has_sock_evolves [OF w4(2) q(2)] has_sock_evolves [OF w4(4) q(2)] has_sock_evolves [OF w4(3) q(2)] q(2,3) w4 ne
    by (auto simp: evolves_def has_sock_def)
  let ?sl' = "sl\<lparr>acceptq := acceptq sl @ [?b], poll_entries := es\<rparr>"
  define w6 where "w6 = set_sock l (XInproc ?sl' rl pl) w5"
  have p: "xput n e fl w5 = Some (Ok w6)" "evolves h w5 w6"
    using xput_ok [OF w5(1,4)] dl(3) by (simp_all add: w6_def)
  have w6: "wok h w6" "has_sock w6 cfd a ?xa" "has_sock w6 (int bfd) ?b ?xb" "has_sock w6 fl l (XInproc ?sl' rl pl)"
    using p(2) w5 ne by (auto simp: evolves_def w6_def has_sock_def)
  have s2: "socks w2 a = Some ?a" "socks w2 ?b = Some (new_inproc InprocConnector bfd)" "slots (xgb w2) bfd = Some ?b"
    using has_sockD(1) [OF w2(1,2)] has_sockD(1) [OF w2(1,4)] w2(4) by (simp_all add: has_sock_def)
  let ?u = "upd_sock ?b (\<lambda>sb. sb\<lparr>vfp := vfp sa, sb_addr := s\<rparr>) (upd_sock a (\<lambda>sb. sb\<lparr>sb_peer := s\<rparr>) w2)"
  have u: "socks ?u a = Some (XInproc (sa\<lparr>sb_peer := s\<rparr>) 1 None)"
    "socks ?u ?b = Some (XInproc ((sockbase_init InprocConnector)\<lparr>sb_fd := int bfd, sb_ref := 1, sb_addr := s\<rparr>) 1 None)"
    using s2 ne a(2) by (simp_all add: upd_sock_def new_inproc_def sockbase_init_def)
  have u4: "set_sock ?b ?xb (set_sock a ?xa ?u) = w4"
    using ne by (auto simp: w4_def w3_def set_sock_def upd_sock_def fun_eq_iff intro!: world.equality)
  have "inproc_connector_bind n e a s w = Some (Ok (Inr (), w6))"
    using gl g(1) a1 has_sockD(1) [OF w1(1) g(3)] has_sockD(1) [OF w1(1) a1] dl(2) al(1) s2(3) u u4 q(1) p(1) a(2)
    by (simp add: inproc_connector_bind_def set_inproc_def Let_def accepted_def w2_def)
  moreover have "xgb w6 = tb" using evolvesD(2) [OF e3] evolvesD(2) [OF e4] evolvesD(2) [OF q(2)] evolvesD(2) [OF p(2)] w2(5) by simp
  then have "bfd \<notin> live (xgb w)" "live (xgb w6) = insert bfd (live (xgb w))" using bo(3,4) w1(2) by simp_all
  moreover have "still_polls h w1 w2" by (rule still_pollsI(1)) (simp add: w2_def born_def)
  from still_polls_trans [OF still_polls_trans [OF still_polls_trans [OF still_polls_trans [OF still_polls_trans [OF
    still_pollsI(2) [OF g(2)] this] still_pollsI(2) [OF e3]] still_pollsI(2) [OF e4]] still_pollsI(2) [OF q(2)]] still_pollsI(2) [OF p(2)]]
  have "still_polls h w w6" .
  ultimately show ?thesis using w6 ne
    by (intro exI [of _ bfd] exI [of _ ?b] exI [of _ w6] exI [of _ es] conjI) simp_all
qed

text \<open>A new connector, and what becomes of it and of the listener.\<close>

definition connected :: "string \<Rightarrow> nat \<Rightarrow> nat \<Rightarrow> xsock" where
  "connected s fd b =
     XInproc ((sockbase_init InprocConnector)\<lparr>sb_fd := int fd, sb_ref := 1, sb_peer := s\<rparr>) 2 (Some b)"

lemma xconnect_ok:
  assumes w: "wok h w" and l: "has_sock w fl l (XInproc sl rl pl)" "vfp sl = InprocListener" "owner sl = None" "\<not> epipe sl"
    and t: "registered w t" "listener_at w t s = Some l"
    and room: "Suc (card (live (xgb w))) < PROXYIO_MAX_SOCKS" and e: "sock_mem e" "have_strndup e"
    and s: "CHR ''@'' \<notin> set s" "length s < PATH_MAX"
  shows "\<exists>cfd bfd a b w' es. xconnect n e (''inproc://'' @ s) w = Some (Ok (Inr cfd, w')) \<and> wok h w' \<and>
    has_sock w' (int cfd) a (connected s cfd b) \<and> has_sock w' (int bfd) b (accepted s bfd a) \<and>
    has_sock w' fl l (XInproc (sl\<lparr>acceptq := acceptq sl @ [b], poll_entries := es\<rparr>) rl pl) \<and>
    distinct [l, a, b] \<and> cfd \<notin> live (xgb w) \<and> bfd \<notin> insert cfd (live (xgb w)) \<and> still_polls h w w'"
proof -
  from xalloc_inproc [OF w _ e(1), of InprocConnector] room obtain cfd tb where
    al: "xalloc e XAF_INPROC XCONNECTOR w = Ok (Inr cfd, born InprocConnector cfd tb w)"
      "tbl_alloc PROXYIO_MAX_SOCKS (wnext w) (xgb w) = Ok (cfd, tb)" by auto
  let ?a = "wnext w" and ?w1 = "born InprocConnector cfd tb w"
  note b = born_wok [OF w al(2)]
  note r = registered_born [OF w t(1)]
  let ?sa = "(sockbase_init InprocConnector)\<lparr>sb_fd := int cfd, sb_ref := 1\<rparr>"
  let ?x = "XInproc ?sa 1 None"
  have x: "has_sock ?w1 (int cfd) ?a ?x" using b(2) [of InprocConnector] by (simp add: new_inproc_def)
  note l1 = b(5) [OF l(1)]
  note g = xget_ok [OF b(1) x]
  define w2 where "w2 = ref_up ?a ?x ?w1"
  have g1: "xget (int cfd) ?w1 = Ok (Some ?a, w2)" using g(1) by (simp add: w2_def)
  let ?sa2 = "?sa\<lparr>sb_ref := 2\<rparr>"
  have x2: "has_sock w2 (int cfd) ?a (XInproc ?sa2 1 None)" using g(3) by (simp add: w2_def)
  have ne: "l \<noteq> ?a" using wokD(7) [OF w, of ?a] l(1) by (auto simp: has_sock_def)
  have l2: "has_sock w2 fl l (XInproc sl rl pl)" using l1 [of InprocConnector] ne by (simp add: w2_def ref_up_def has_sock_def)
  have ev: "wok h w2" "xgb w2 = tb" using evolvesD(1,2) [OF g(2)] by (simp_all add: w2_def born_def)
  have "\<And>c. c \<in> set (inorder t) \<Longrightarrow> socks w2 c = socks ?w1 c" using r(3) by (auto simp: w2_def ref_up_def)
  then have t2: "registered w2 t" "listener_at w2 t s = Some l"
    using registered_cong [OF r(1), of w2] r(1,2) t(2) by (auto simp: registered_def entry_key_def w2_def ref_up_def)
  have v2: "vfp ?sa2 = InprocConnector" by (simp add: sockbase_init_def)
  have room2: "card (live (xgb w2)) < PROXYIO_MAX_SOCKS"
    using room b(3,4) ev(2) card_insert_le_m1 [of "Suc (card (live (xgb w)))" "live (xgb w)" cfd]
    by simp
  from connect_core [OF ev(1) x2 v2 l2 l(2-4) t2 room2 e(1), of n] obtain bfd c w3 es where
    c: "inproc_connector_bind n e ?a s w2 = Some (Ok (Inr (), w3))" "wok h w3"
      "has_sock w3 (int cfd) ?a (XInproc (?sa2\<lparr>sb_peer := s\<rparr>) 2 (Some c))" "has_sock w3 (int bfd) c (accepted s bfd ?a)"
      "has_sock w3 fl l (XInproc (sl\<lparr>acceptq := acceptq sl @ [c], poll_entries := es\<rparr>) rl pl)"
      "bfd \<notin> live (xgb w2)" "c \<noteq> ?a" "still_polls h w2 w3" by blast
  note p = xput_ok [OF c(2,3)]
  define w4 where "w4 = set_sock ?a (connected s cfd c) w3"
  have lc: "l \<noteq> c"
  proof
    assume "l = c"
    then have "accepted s bfd ?a = XInproc (sl\<lparr>acceptq := acceptq sl @ [c], poll_entries := es\<rparr>) rl pl"
      using has_sockD(1) [OF c(2,4)] has_sockD(1) [OF c(2,5)] by simp
    from arg_cong [OF this, of "\<lambda>x. vfp (sock_base x)"] l(2) show False by (simp add: accepted_def sockbase_init_def)
  qed
  have w4: "xput n e (int cfd) w3 = Some (Ok w4)" "wok h w4"
    using p evolvesD(1) [OF p(2)] by (simp_all add: w4_def connected_def sockbase_init_def)
  have "xbind_by (xlisten n e) n e (int cfd) s ?w1 = Some (Ok (Inr (), w4))"
    using g1 s(2) has_sockD(1) [OF ev(1) x2] c(1) w4(1) v2 by (simp add: xbind_by_def vf_bind_def)
  then have "xconnect n e (''inproc://'' @ s) w = Some (Ok (Inr cfd, w4))"
    using inproc_url [OF s(1)] s(2) e(2) al(1) by (simp add: xconnect_def)
  moreover have "has_sock w4 (int cfd) ?a (connected s cfd c)" "has_sock w4 (int bfd) c (accepted s bfd ?a)"
    "has_sock w4 fl l (XInproc (sl\<lparr>acceptq := acceptq sl @ [c], poll_entries := es\<rparr>) rl pl)"
    using c(3-5,7) ne by (auto simp: w4_def has_sock_def)
  moreover have "bfd \<notin> insert cfd (live (xgb w))" using c(6) ev(2) b(4) by simp
  moreover have "still_polls h w w2" "still_polls h w3 w4"
    by (rule still_pollsI(1), simp add: w2_def ref_up_def born_def w4_def)+
  from still_polls_trans [OF still_polls_trans [OF this(1) c(8)] this(2)] have "still_polls h w w4" .
  ultimately show ?thesis using w4(2) ne lc c(7) b(3)
    by (intro exI [of _ cfd] exI [of _ bfd] exI [of _ ?a] exI [of _ c] exI [of _ w4] exI [of _ es] conjI) simp_all
qed

section \<open>From listening to a channel\<close>

lemma channel_set_up_polls:
  assumes w: "wok h w" "registered w t" "listener_at w t s = None" and room: "card (live (xgb w)) + 3 \<le> PROXYIO_MAX_SOCKS"
    and e: "sock_mem e" "have_strndup e" and s: "CHR ''@'' \<notin> set s" "length s < PATH_MAX"
  shows "\<exists>fl cfd afd w1 w2 w3. xlisten (Suc n) e (''inproc://'' @ s) w = Some (Ok (Inr fl, w1)) \<and>
    xconnect n e (''inproc://'' @ s) w1 = Some (Ok (Inr cfd, w2)) \<and>
    xaccept False n e (int fl) w2 = Some (Ok (Done (Inr (int afd)), w3)) \<and>
    joined w3 (int cfd) (int afd) (\<lambda>_. []) (\<lambda>_. False) \<and> wok h w3 \<and> distinct [fl, cfd, afd] \<and>
    {fl, cfd, afd} \<inter> live (xgb w) = {} \<and> still_polls h w w3 \<and> dozing w3 (int cfd) 0 \<and> dozing w3 (int afd) 0"
proof -
  have "card (live (xgb w)) < PROXYIO_MAX_SOCKS" using room by simp
  from xlisten_free [OF w(1,2) this e s w(3), of n] obtain fl w1 t1 where
    1: "xlisten (Suc n) e (''inproc://'' @ s) w = Some (Ok (Inr fl, w1))" "wok h w1" "registered w1 t1"
      "listener_at w1 t1 s = Some (wnext w)" "has_sock w1 (int fl) (wnext w) (listening s fl)"
      "fl \<notin> live (xgb w)" "live (xgb w1) = insert fl (live (xgb w))" "still_polls h w w1" by auto
  let ?sl = "(sockbase_init InprocListener)\<lparr>sb_fd := int fl, sb_ref := 1, sb_addr := s\<rparr>"
  have l: "has_sock w1 (int fl) (wnext w) (XInproc ?sl 0 None)" using 1(5) by (simp add: listening_def)
  have sl: "vfp ?sl = InprocListener" "owner ?sl = None" "\<not> epipe ?sl" "acceptq ?sl = []" "non_block ?sl = False"
    by (simp_all add: sockbase_init_def)
  have "Suc (card (live (xgb w1))) < PROXYIO_MAX_SOCKS"
    using room 1(7) card_insert_le_m1 [of "Suc (card (live (xgb w)))" "live (xgb w)" fl] by simp
  from xconnect_ok [OF 1(2) l sl(1-3) 1(3,4) this e s, of n] obtain cfd bfd a b w2 es where
    2: "xconnect n e (''inproc://'' @ s) w1 = Some (Ok (Inr cfd, w2))" "wok h w2"
      "has_sock w2 (int cfd) a (connected s cfd b)" "has_sock w2 (int bfd) b (accepted s bfd a)"
      "has_sock w2 (int fl) (wnext w) (XInproc (?sl\<lparr>acceptq := acceptq ?sl @ [b], poll_entries := es\<rparr>) 0 None)"
      "distinct [wnext w, a, b]" "cfd \<notin> live (xgb w1)" "bfd \<notin> insert cfd (live (xgb w1))" "still_polls h w1 w2" by blast
  note db = has_sockD [OF 2(2,4)]
  let ?l = "XInproc (?sl\<lparr>acceptq := acceptq ?sl @ [b], poll_entries := es\<rparr>) 0 None"
  have q: "\<forall>c\<in>set (acceptq (sock_base ?l)). \<exists>y. socks w2 c = Some y \<and> c \<noteq> wnext w" using sl(4) db(1) 2(6) by auto
  have v: "vf_type (vfp (sock_base ?l)) = XLISTENER" using sl(1) by simp
  from xaccept_call [OF 2(2,5) v q, of n e] obtain w3 k rr q' where
    3: "xaccept False n e (int fl) w2 = Some (Ok (case rr of Blocked \<Rightarrow> Blocked | Done None \<Rightarrow> Done (Inl EAGAIN)
      | Done (Some b) \<Rightarrow> Done (Inr (sb_fd (sock_base (the (socks w2 b))))), w3))" "evolves h w2 w3"
    "(rr, q') = accept_result (sock_base ?l)"
    "touched w2 w3 (wnext w) ?l ((sock_base ?l)\<lparr>aq_waiters := k, acceptq := q', sb_ref := ref_after rr (sock_base ?l)\<rparr>)"
    by blast
  have rr: "rr = Done (Some b)" using 3(3) sl(4) by (simp add: accept_result_def)
  have acc: "xaccept False n e (int fl) w2 = Some (Ok (Done (Inr (int bfd)), w3))" using 3(1) rr db(1,2) by simp
  from 3(4) 2(6) have same: "socks w3 a = socks w2 a" "socks w3 b = socks w2 b" by (auto simp: touched_def)
  have h3: "has_sock w3 (int cfd) a (connected s cfd b)" "has_sock w3 (int bfd) b (accepted s bfd a)"
    using 2(3,4) same evolvesD(2) [OF 3(2)] by (simp_all add: has_sock_def)
  have "joined w3 (int cfd) (int bfd) (\<lambda>_. []) (\<lambda>_. False)"
    by (rule joinedI [OF _ h3 [unfolded connected_def accepted_def]]) (use 2(6) in \<open>auto simp: sockbase_init_def msgbuf_head_init_def\<close>)
  moreover have "still_polls h w w3" by (rule still_polls_trans [OF still_polls_trans [OF 1(8) 2(9)] still_pollsI(2) [OF 3(2)]])
  moreover have "distinct [fl, cfd, bfd]" "{fl, cfd, bfd} \<inter> live (xgb w) = {}" using 1(6,7) 2(7,8) by auto
  moreover have "dozing w3 (int cfd) 0" "dozing w3 (int bfd) 0"
    unfolding dozing_iff [OF h3(1)] dozing_iff [OF h3(2)]
    by (simp_all add: connected_def accepted_def sockbase_init_def msgbuf_head_init_def)
  ultimately show ?thesis using 1(1) 2(1) acc evolvesD(1) [OF 3(2)]
    by (intro exI [of _ fl] exI [of _ cfd] exI [of _ bfd] exI [of _ w1] exI [of _ w2] exI [of _ w3] conjI)
qed


text \<open>The world at the start, and an environment that refuses nothing.\<close>

lemma socket_init_ok [simp]:
  "wok h (socket_init E k)" "registered (socket_init E k) RLeaf" "live (xgb (socket_init E k)) = {}"
  using tbl_ok_init [of PROXYIO_MAX_SOCKS]
  by (simp_all add: wok_def socket_init_def registered_def lists_disjoint_def tbl_init_def live_def str_map_of_def) (simp_all add: poll_init_def)

definition env1 :: env where
  "env1 = \<lparr>mem = 1, alloc = (\<lambda>_. True), fuel = 2, sock_mem = True, poll_mem = True, pipe_cap = 64, have_strndup = True\<rparr>"

lemma env1_simps [simp]: "sock_mem env1" "poll_mem env1" "have_strndup env1"
  by (simp_all add: env1_def)

lemma channel_set_up1:
  "\<exists>fl cfd afd w1 w2 w3. xlisten 1 env1 ''inproc://a'' (socket_init evset1 (kern0 [])) = Some (Ok (Inr fl, w1)) \<and>
    xconnect 0 env1 ''inproc://a'' w1 = Some (Ok (Inr cfd, w2)) \<and>
    xaccept False 0 env1 (int fl) w2 = Some (Ok (Done (Inr (int afd)), w3)) \<and>
    joined w3 (int cfd) (int afd) (\<lambda>_. []) (\<lambda>_. False) \<and> wok (\<lambda>_. 0) w3 \<and> distinct [fl, cfd, afd] \<and>
    {fl, cfd, afd} \<inter> live (xgb (socket_init evset1 (kern0 []))) = {} \<and>
    still_polls (\<lambda>_. 0) (socket_init evset1 (kern0 [])) w3 \<and> dozing w3 (int cfd) 0 \<and> dozing w3 (int afd) 0"
  using channel_set_up_polls [where h = "\<lambda>_. 0" and w = "socket_init evset1 (kern0 [])" and t = RLeaf and s = "''a''" and n = 0 and e = env1]
  by (simp add: PROXYIO_MAX_SOCKS_def PATH_MAX_def str_map_of_def)

text \<open>Two callers fall asleep at one end; a message wakes both, one takes it and the other sleeps again, and is
  woken by the next message. A caller nobody has woken does not go on.\<close>

theorem inproc_channel_witness:
  "\<exists>fl cfd afd w1 w2 w3 w4. xlisten 1 env1 ''inproc://a'' (socket_init evset1 (kern0 [])) = Some (Ok (Inr fl, w1)) \<and>
    xconnect 0 env1 ''inproc://a'' w1 = Some (Ok (Inr cfd, w2)) \<and>
    xaccept False 0 env1 (int fl) w2 = Some (Ok (Done (Inr (int afd)), w3)) \<and>
    run_chan 0 env1 (int cfd) (int afd) [CRecv True, CRecv True, CWake True False, CSend False (msg0 [7]), CWake True False,
        CWake True False, CSend False (msg0 [8]), CWake True False] nobody w3 =
      Some (Ok ([AGot Blocked, AGot Blocked, AAsleep, ASent, AGot (Done (Inr (msg0 [7]))),
        AGot Blocked, ASent, AGot (Done (Inr (msg0 [8])))], w4))"
proof -
  let ?ops = "[CRecv True, CRecv True, CWake True False, CSend False (msg0 [7]), CWake True False,
        CWake True False, CSend False (msg0 [8]), CWake True False]"
  from channel_set_up1 obtain fl cfd afd w1 w2 w3 where
    c: "xlisten 1 env1 ''inproc://a'' (socket_init evset1 (kern0 [])) = Some (Ok (Inr fl, w1))"
      "xconnect 0 env1 ''inproc://a'' w1 = Some (Ok (Inr cfd, w2))"
      "xaccept False 0 env1 (int fl) w2 = Some (Ok (Done (Inr (int afd)), w3))"
      "joined w3 (int cfd) (int afd) (\<lambda>_. []) (\<lambda>_. False)" "wok (\<lambda>_. 0) w3" "dozing w3 (int cfd) 0" "dozing w3 (int afd) 0"
    by (elim exE conjE)
  have "\<forall>s. dozing w3 (if s then int afd else int cfd) (inside nobody s) \<and> inside nobody s + length ?ops < 2 ^ 31" using c(6,7) by (simp add: inside_def nobody_def)
  from inproc_channel [OF c(5,4) this, of 0 env1] obtain w4 where
    "run_chan 0 env1 (int cfd) (int afd) ?ops nobody w3 = Some (Ok ([AGot Blocked, AGot Blocked, AAsleep, ASent,
        AGot (Done (Inr (msg0 [7]))), AGot Blocked, ASent, AGot (Done (Inr (msg0 [8])))], w4))"
    by (auto simp: got_def rise_def rouse_def doze_def nobody_def Let_def simp del: run_chan.simps)
  with c(1-3) show ?thesis
    by (intro exI [of _ fl] exI [of _ cfd] exI [of _ afd] exI [of _ w1] exI [of _ w2] exI [of _ w3] exI [of _ w4] conjI)
qed



end
