(* ===== verification/SpRun.thy ===== *)
theory SpRun
  imports Sp Inproc
begin

text \<open>
  Requests and replies end to end: a requester and a server whose endpoints hold the two ends of an
  in-process connection, with the event thread in between; and what goes wrong in endpoints: messages without a
  header, endpoints used after they were closed, and a reference that is not given back.
\<close>

section \<open>The state of endpoints\<close>

lemma set_ep_simps [simp]:
  "eps (set_ep a x s) = (eps s)(a := Some x)" "tgs (set_ep a x s) = tgs s" "net (set_ep a x s) = net s"
  "sg (set_ep a x s) = sg s" "sg_pollid (set_ep a x s) = sg_pollid s" "sp_next (set_ep a x s) = sp_next s"
  "shutdown_head (set_ep a x s) = shutdown_head s" "sp_wake (set_ep a x s) = sp_wake s" "set_ep a x (set_ep a y s) = set_ep a x s"
  "(set_ep a x s)\<lparr>net := w\<rparr> = set_ep a x (s\<lparr>net := w\<rparr>)"
  "(set_ep a x s)\<lparr>sp_wake := k\<rparr> = set_ep a x (s\<lparr>sp_wake := k\<rparr>)"
  "(set_ep a x s)\<lparr>shutdown_head := l\<rparr> = set_ep a x (s\<lparr>shutdown_head := l\<rparr>)"
  by (simp_all add: set_ep_def)

lemma set_tg_simps [simp]:
  "tgs (set_tg t y s) = (tgs s)(t := Some y)" "eps (set_tg t y s) = eps s" "net (set_tg t y s) = net s"
  "sg (set_tg t y s) = sg s" "sg_pollid (set_tg t y s) = sg_pollid s" "set_tg t y (set_tg t z s) = set_tg t y s"
  "(set_tg t y s)\<lparr>net := w\<rparr> = set_tg t y (s\<lparr>net := w\<rparr>)" "set_tg t y (set_ep a x s) = set_ep a x (set_tg t y s)"
  "(set_tg t y s)\<lparr>sp_wake := k\<rparr> = set_tg t y (s\<lparr>sp_wake := k\<rparr>)"
  by (simp_all add: set_tg_def set_ep_def)

lemma set_same:
  "eps s a = Some x \<Longrightarrow> set_ep a x s = s" "tgs s t = Some y \<Longrightarrow> set_tg t y s = s" "s\<lparr>net := net s\<rparr> = s"
  by (simp_all add: set_ep_def set_tg_def fun_upd_idem)

text \<open>\<open>sp_at s i a x\<close>: the descriptor \<open>i\<close> stands for the endpoint \<open>x\<close> at the address \<open>a\<close>.\<close>

definition sp_at :: "sp \<Rightarrow> int \<Rightarrow> nat \<Rightarrow> epbase \<Rightarrow> bool" where
  "sp_at s i a x \<longleftrightarrow> 0 \<le> i \<and> i < int MAX_ENDPOINTS \<and> slots (sg s) (nat i) = Some a \<and> eps s a = Some x \<and> 0 < ep_ref x"

lemma sp_at_ep: "sp_at s i a x \<Longrightarrow> eps s a = Some x"
  by (simp add: sp_at_def)

lemma sp_at_upd: "sp_at s i a x \<Longrightarrow> sg s' = sg s \<Longrightarrow> eps s' a = Some x' \<Longrightarrow> 0 < ep_ref x' \<Longrightarrow> sp_at s' i a x'"
  by (simp add: sp_at_def)

lemma eid_get_ok: "sp_at s i a x \<Longrightarrow> eid_get i s = Ok (Some a, set_ep a (x\<lparr>ep_ref := ep_ref x + 1\<rparr>) s)"
  by (simp add: sp_at_def eid_get_def)

lemma eid_put_ok: "sp_at s i a x \<Longrightarrow> ep_ref x \<noteq> 1 \<Longrightarrow> eid_put i s = Ok (set_ep a (x\<lparr>ep_ref := ep_ref x - 1\<rparr>) s)"
  by (simp add: sp_at_def eid_put_def)

lemma sp_send_ok:
  assumes x: "sp_at s i a x" "\<not> ep_shutdown x"
    and f: "ep_send n e a m (set_ep a (x\<lparr>ep_ref := ep_ref x + 1\<rparr>) s) = Some (Ok (Done r, s1))"
    and x1: "eps s1 a = Some x1" "ep_ref x1 = ep_ref x + 1" "sg s1 = sg s"
  shows "sp_send n e i m s = Some (Ok (Done r, set_ep a (x1\<lparr>ep_ref := ep_ref x\<rparr>) s1))"
proof -
  have "sp_at s1 i a x1" by (rule sp_at_upd [OF x(1) x1(3,1)]) (use x(1) x1(2) in \<open>simp add: sp_at_def\<close>)
  from eid_put_ok [OF this] x1(2) x(1) have "eid_put i s1 = Ok (set_ep a (x1\<lparr>ep_ref := ep_ref x\<rparr>) s1)" by (simp add: sp_at_def)
  then show ?thesis using eid_get_ok [OF x(1)] x(2) f by (simp add: sp_send_def)
qed

lemma sp_recv_ok:
  assumes x: "sp_at s i a x" "\<not> ep_shutdown x" and q: "head_ok (ep_rcv x)" "bh_msgs (ep_rcv x) = m # ms"
  shows "\<exists>h. sp_recv False i s = Ok (Done (Inr m), set_ep a (x\<lparr>ep_rcv := h\<rparr>) s) \<and> head_ok h \<and> bh_msgs h = ms \<and>
    waiters h = waiters (ep_rcv x)"
proof -
  from msgbuf_head_out_ok [OF q] obtain evs h where
    h: "msgbuf_head_out (ep_rcv x) = Ok (m, evs, h)" "head_ok h" "bh_msgs h = ms" by blast
  have "waiters h = waiters (ep_rcv x)" using h(1) by (auto simp: msgbuf_head_out_def cbind_eq_Ok Let_def split: if_splits)
  moreover let ?x = "x\<lparr>ep_ref := ep_ref x + 1, ep_rcv := h\<rparr>"
  have "sp_at (set_ep a ?x s) i a ?x" using x(1) by (simp add: sp_at_def)
  from eid_put_ok [OF this] x(1) have "eid_put i (set_ep a ?x s) = Ok (set_ep a (x\<lparr>ep_rcv := h\<rparr>) s)" by (simp add: sp_at_def)
  ultimately show ?thesis using eid_get_ok [OF x(1)] x(2) q(2) h by (intro exI [of _ h]) (simp add: sp_recv_def)
qed

lemma ep_deliver_ok:
  assumes x: "eps s a = Some x" "head_ok (ep_rcv x)"
  shows "\<exists>h k. ep_deliver a m s = Ok (set_ep a (x\<lparr>ep_rcv := h\<rparr>) (s\<lparr>sp_wake := k\<rparr>)) \<and> head_ok h \<and>
    bh_msgs h = bh_msgs (ep_rcv x) @ [m] \<and> waiters h = waiters (ep_rcv x)"
proof -
  from msgbuf_head_in_ok [OF x(2), of m] obtain evs h where
    h: "msgbuf_head_in (ep_rcv x) m = Ok (evs, h)" "head_ok h" "bh_msgs h = bh_msgs (ep_rcv x) @ [m]" by blast
  have w: "waiters h = waiters (ep_rcv x)" using h(1) by (auto simp: msgbuf_head_in_def cbind_eq_Ok Let_def split: if_splits)
  show ?thesis
  proof (cases "waiters h = 0")
    case True
    then show ?thesis using x(1) h w by (intro exI [of _ h] exI [of _ "sp_wake s"]) (simp add: ep_deliver_def)
  next
    case False
    then show ?thesis using x(1) h w by (intro exI [of _ h] exI [of _ "sp_wake s @ [a]"]) (simp add: ep_deliver_def)
  qed
qed

section \<open>Events of in-process sockets\<close>

lemma vf_type_word [simp]: "sint (of_int XCONNECTOR :: i32) = XCONNECTOR" "XCONNECTOR \<noteq> XLISTENER" "XLISTENER \<noteq> XCONNECTOR"
  by (simp_all add: XCONNECTOR_def XLISTENER_def)

lemma xgetopt_type:
  assumes w: "wok h w" and x: "has_sock w fd a (XInproc sb r p)"
  shows "xgetopt n e fd XSO_SOCKTYPE w = Some (Ok (Inr (RInt (of_int (vf_type (vfp sb)))), w))"
proof -
  note g = xget_ok [OF w x]
  note d = has_sockD [OF w x]
  have ok: "wok h (ref_up a (XInproc sb r p) w)" using g(2) by (simp add: evolves_def)
  note u = xput_ok(1) [OF ok g(3), of "vf_close n e"]
  have k: "(set_sock a z w)\<lparr>wkrn := wkrn w\<rparr> = set_sock a z w" for z by (simp add: set_sock_def)
  have bk: "set_sock a (XInproc sb r p) (ref_up a (XInproc sb r p) w) = w"
    using d(1) by (simp add: ref_up_def set_sock_def fun_upd_idem)
  show ?thesis using g(1) u d(3) bk
    by (simp add: k xgetopt_def ref_up_def vf_getopt_def inproc_getopt_def XSO_SOCKTYPE_def XSO_NODELAY_def XSO_SNDBUF_def
        XSO_RCVBUF_def XSO_NOBLOCK_def)
qed

lemma get_socktype_ok:
  assumes "wok h (net s)" "has_sock (net s) fd a (XInproc sb r p)" "vfp sb = InprocConnector"
  shows "get_socktype n e fd s = Some (Ok (XCONNECTOR, s))"
  using xgetopt_type [OF assms(1,2)] assms(3) by (simp add: get_socktype_def on_net_def set_same)

definition in_event :: "int \<Rightarrow> nat \<Rightarrow> poll_fd" where
  "in_event fd t = \<lparr>pfd = fd, phndl = t, pevents = XPOLLIN, happened = XPOLLIN\<rparr>"

lemma event_in:
  assumes w: "wok h (net s)" "has_sock (net s) fd b (XInproc sb r p)" "vfp sb = InprocConnector"
    and y: "tgs s t = Some y" "tg_fd y = fd" "pfd (tg_pollfd y) = fd"
    and rc: "xrecv False n (net_env e) fd (net s) = Some (Ok (Done (Inr m), w'))"
    and ad: "ep_add n e (tg_owner y) t m (set_tg t (y\<lparr>tg_pollfd := (tg_pollfd y)\<lparr>happened := XPOLLIN\<rparr>\<rparr>) (s\<lparr>net := w'\<rparr>)) =
      Some (Ok (ok, s1))"
    and s1: "tgs s1 t = Some y1" "tg_owner y1 = tg_owner y" "eps s1 (tg_owner y) = Some x1" "bad_socks x1 = []"
  shows "event_hndl n e (in_event fd t) s = Some (Ok (Done (), s1))"
proof -
  let ?y = "y\<lparr>tg_pollfd := (tg_pollfd y)\<lparr>happened := XPOLLIN\<rparr>\<rparr>"
  let ?s = "set_tg t ?y s"
  have ty: "get_socktype n e fd ?s = Some (Ok (XCONNECTOR, ?s))" by (rule get_socktype_ok) (use w in auto)
  have hi: "handle_in n e (tg_owner y) t fd ?s = Some (Ok (Done False, s1))"
    using rc ad by (simp add: handle_in_def on_net_def)
  have "connector_event_hndl n e t ?s = Some (Ok (Done (), s1))"
    using hi y(2) by (simp add: connector_event_hndl_def Let_def XPOLLIN_def XPOLLOUT_def XPOLLERR_def)
  moreover have "x1\<lparr>bad_socks := []\<rparr> = x1" using s1(4) by (cases x1) simp
  then have "epbase_close_bad_tgtds n e (tg_owner y) s1 = Some (Ok s1)"
    using s1(3,4) by (simp add: epbase_close_bad_tgtds_def set_same)
  ultimately show ?thesis using y ty s1(1,2) by (simp add: event_hndl_def in_event_def Let_def)
qed

section \<open>A requester and a server\<close>

text \<open>The requester: its balancer is about to choose the target \<open>t\<close>, with the socket \<open>fa\<close> and the identifier \<open>u\<close>.
  The server: its target \<open>t'\<close> has the socket \<open>fb\<close>, and no other connection is known as \<open>u\<close>.\<close>

definition requester :: "sp \<Rightarrow> int \<Rightarrow> nat \<Rightarrow> nat \<Rightarrow> int \<Rightarrow> byte list \<Rightarrow> bool" where
  "requester s i a t fd u \<longleftrightarrow> (\<exists>x y ts. sp_at s i a x \<and> ep_vf x = ReqEp \<and> \<not> proxied x \<and> \<not> ep_shutdown x \<and> bad_socks x = [] \<and>
     head_ok (ep_rcv x) \<and> bh_msgs (ep_rcv x) = [] \<and> 0 \<le> sint (waiters (ep_rcv x)) \<and>
     rr_head (ep_lbs x) = t # ts \<and> current_weight (ep_lbs x) t \<noteq> 0x80000000 \<and>
     tgs s t = Some y \<and> tg_owner y = a \<and> tg_fd y = fd \<and> pfd (tg_pollfd y) = fd \<and> tg_uuid y = u \<and> length u = 16)"

definition server :: "sp \<Rightarrow> int \<Rightarrow> nat \<Rightarrow> nat \<Rightarrow> int \<Rightarrow> byte list \<Rightarrow> bool" where
  "server s j b t fd u \<longleftrightarrow> (\<exists>x y. sp_at s j b x \<and> ep_vf x = RepEp \<and> \<not> proxied x \<and> \<not> ep_shutdown x \<and> bad_socks x = [] \<and>
     head_ok (ep_rcv x) \<and> bh_msgs (ep_rcv x) = [] \<and> 0 \<le> sint (waiters (ep_rcv x)) \<and>
     t \<in> set (ep_connectors x) \<and> (\<forall>c\<in>set (ep_connectors x) - {t}. \<forall>z. tgs s c = Some z \<longrightarrow> tg_uuid z \<noteq> u) \<and>
     tgs s t = Some y \<and> tg_owner y = b \<and> tg_fd y = fd \<and> pfd (tg_pollfd y) = fd)"

lemma find_only:
  assumes "t \<in> set ts" "P t" "\<forall>c\<in>set ts - {t}. \<not> P c"
  shows "find P ts = Some t"
proof -
  have "\<exists>c. find P ts = Some c" using assms(1,2) by (cases "find P ts") (auto simp: find_None_iff)
  then obtain c where c: "find P ts = Some c" by blast
  then have "c \<in> set ts" "P c" by (auto simp: find_Some_iff)
  with assms(3) have "c = t" by auto
  with c show ?thesis by simp
qed

text \<open>The four steps. First, the requester sends.\<close>

lemma request_sent:
  assumes w: "wok h (net s)" "joined (net s) fa fb (\<lambda>_. []) nb" and al: "\<And>n. alloc e n"
    and x: "sp_at s i a x" "ep_vf x = ReqEp" "\<not> ep_shutdown x"
    and rr: "weight_rrbin_select (ep_lbs x) = Ok (Some t, rr)"
    and y: "tgs s t = Some y" "tg_fd y = fa" "length (tg_uuid y) = 16" and m: "wf_msg m" "cmsg_head m = []"
  shows "\<exists>m1 w1. sp_send n e i m s = Some (Ok (Done (Inr ()), set_ep a (x\<lparr>ep_lbs := rr\<rparr>) (s\<lparr>net := w1\<rparr>))) \<and>
    wok h w1 \<and> joined w1 fa fb ((\<lambda>_. [])(True := [m1])) nb \<and> carries 1 [tg_uuid y] m1 \<and> ubase m1 = ubase m"
proof -
  from stamp_request_ok [of "alloc e", OF al y(3) m] obtain m1 where
    m1: "stamp_request (alloc e) (tg_uuid y) m = Ok m1" "carries 1 [tg_uuid y] m1" "ubase m1 = ubase m" by blast
  from joined_send [OF w, of n "net_env e" m1] obtain w1 where
    w1: "xsend False n (net_env e) fa m1 (net s) = Some (Ok (Done (Inr ()), w1))" "wok h w1"
      "joined w1 fa fb ((\<lambda>_. [])(True := [m1])) nb" by auto
  let ?s1 = "set_ep a (x\<lparr>ep_ref := ep_ref x + 1, ep_lbs := rr\<rparr>) (s\<lparr>net := w1\<rparr>)"
  have "ep_send n e a m (set_ep a (x\<lparr>ep_ref := ep_ref x + 1\<rparr>) s) = Some (Ok (Done (Inr ()), ?s1))"
    using x(2) rr y(1,2) m1(1) w1(1) by (simp add: ep_send_def reqep_send_def on_net_def)
  from sp_send_ok [OF x(1,3) this, of "x\<lparr>ep_ref := ep_ref x + 1, ep_lbs := rr\<rparr>"]
  have "sp_send n e i m s = Some (Ok (Done (Inr ()), set_ep a (x\<lparr>ep_lbs := rr\<rparr>) (s\<lparr>net := w1\<rparr>)))" by simp
  then show ?thesis using w1(2,3) m1(2,3) by blast
qed

text \<open>Second, the event thread takes the request to the server.\<close>

lemma joined_has_sock:
  assumes "joined w fa fb q nb"
  shows "\<exists>b sb r p. has_sock w fb b (XInproc sb r p) \<and> vfp sb = InprocConnector"
    "\<exists>b sb r p. has_sock w fa b (XInproc sb r p) \<and> vfp sb = InprocConnector"
  using assms by (auto simp: joined_def)

lemma joined_recv_other:
  assumes w: "wok h w" "joined w fa fb ((\<lambda>_. [])(True := [m])) nb"
  shows "\<exists>w'. xrecv False n e fb w = Some (Ok (Done (Inr m), w')) \<and> wok h w' \<and> joined w' fa fb (\<lambda>_. []) nb"
proof -
  have "joined w fb fa ((\<lambda>_. [])(False := [m])) (\<lambda>s. nb (\<not> s))" by (rule joined_swap [OF w(2)]) auto
  from joined_recv [OF w(1) this, of n e] obtain w' where
    w': "xrecv False n e fb w = Some (Ok (Done (Inr m), w'))" "wok h w'" "joined w' fb fa (\<lambda>_. []) (\<lambda>s. nb (\<not> s))"
    by (auto simp: got_def fun_upd_def if_distrib cong: if_cong)
  have "joined w' fa fb (\<lambda>_. []) nb" by (rule joined_swap [OF w'(3)]) auto
  with w' show ?thesis by blast
qed

lemma request_taken:
  assumes w: "wok h (net s)" "joined (net s) fa fb ((\<lambda>_. [])(True := [m])) nb" and m: "rt_cur m = Ok u"
    and x: "sp_at s j b x" "ep_vf x = RepEp" "\<not> proxied x" "bad_socks x = []"
      "head_ok (ep_rcv x)" "0 \<le> sint (waiters (ep_rcv x))"
    and y: "tgs s t = Some y" "tg_owner y = b" "tg_fd y = fb" "pfd (tg_pollfd y) = fb"
  shows "\<exists>hd' k w' f. event_hndl n e (in_event fb t) s =
      Some (Ok (Done (), set_ep b (x\<lparr>ep_rcv := hd'\<rparr>) (set_tg t (y\<lparr>tg_pollfd := f, tg_uuid := u\<rparr>) (s\<lparr>net := w', sp_wake := k\<rparr>)))) \<and>
    wok h w' \<and> joined w' fa fb (\<lambda>_. []) nb \<and> head_ok hd' \<and> bh_msgs hd' = bh_msgs (ep_rcv x) @ [m] \<and>
    waiters hd' = waiters (ep_rcv x) \<and> pfd f = fb"
proof -
  from joined_recv_other [OF w, of n "net_env e"] obtain w' where
    w': "xrecv False n (net_env e) fb (net s) = Some (Ok (Done (Inr m), w'))" "wok h w'" "joined w' fa fb (\<lambda>_. []) nb" by blast
  from joined_has_sock(1) [OF w(2)] obtain c sb r p where
    c: "has_sock (net s) fb c (XInproc sb r p)" "vfp sb = InprocConnector" by blast
  let ?f = "(tg_pollfd y)\<lparr>happened := XPOLLIN\<rparr>"
  let ?s = "set_tg t (y\<lparr>tg_pollfd := ?f\<rparr>) (s\<lparr>net := w'\<rparr>)"
  let ?s' = "set_tg t (y\<lparr>tg_pollfd := ?f, tg_uuid := u\<rparr>) (s\<lparr>net := w'\<rparr>)"
  have eb: "eps ?s' b = Some x" using x(1) by (simp add: sp_at_def)
  from ep_deliver_ok [OF eb x(5), of m] obtain hd' k where
    d: "ep_deliver b m ?s' = Ok (set_ep b (x\<lparr>ep_rcv := hd'\<rparr>) (?s'\<lparr>sp_wake := k\<rparr>))" "head_ok hd'"
      "bh_msgs hd' = bh_msgs (ep_rcv x) @ [m]" "waiters hd' = waiters (ep_rcv x)" by blast
  have "ep_add n e (tg_owner y) t m ?s = Some (Ok (True, set_ep b (x\<lparr>ep_rcv := hd'\<rparr>) (?s'\<lparr>sp_wake := k\<rparr>)))"
    using x(1,2,3,6) y(2) m d(1) by (simp add: ep_add_def repep_add_def check_waiters_def sp_at_def)
  from event_in [OF w(1) c y(1,3,4) w'(1) this] x(4) y(2)
  have "event_hndl n e (in_event fb t) s = Some (Ok (Done (), set_ep b (x\<lparr>ep_rcv := hd'\<rparr>) (?s'\<lparr>sp_wake := k\<rparr>)))" by simp
  then show ?thesis using w'(2,3) d(2-4) y(4)
    by (intro exI [of _ hd'] exI [of _ k] exI [of _ w'] exI [of _ ?f]) simp
qed

text \<open>Third, the server replies.\<close>

lemma reply_sent:
  assumes w: "wok h (net s)" "joined (net s) fa fb (\<lambda>_. []) nb"
    and x: "sp_at s j b x" "ep_vf x = RepEp" "\<not> ep_shutdown x"
    and y: "tgs s t = Some y" "tg_fd y = fb" "tg_uuid y = u"
    and c: "t \<in> set (ep_connectors x)" "\<forall>c\<in>set (ep_connectors x) - {t}. \<forall>z. tgs s c = Some z \<longrightarrow> tg_uuid z \<noteq> u"
    and m: "carries k [u] m"
  shows "\<exists>m1 w1. sp_send n e j m s =
      Some (Ok (Done (Inr ()), set_ep b (x\<lparr>ep_connectors := t # remove1 t (ep_connectors x)\<rparr>) (s\<lparr>net := w1\<rparr>))) \<and>
    wok h w1 \<and> joined w1 fa fb ((\<lambda>_. [])(False := [m1])) nb \<and> carries k [u] m1 \<and> ubase m1 = ubase m"
proof -
  from stamp_reply_ok [OF m] obtain m1 where
    m1: "stamp_reply m = Ok m1" "carries k [u] m1" "ubase m1 = ubase m" by blast
  have "joined (net s) fb fa (\<lambda>_. []) (\<lambda>s. nb (\<not> s))" by (rule joined_swap [OF w(2)]) auto
  from joined_send [OF w(1) this, of n "net_env e" m1] obtain w1 where
    w1: "xsend False n (net_env e) fb m1 (net s) = Some (Ok (Done (Inr ()), w1))" "wok h w1"
      "joined w1 fb fa ((\<lambda>_. [])(True := [m1])) (\<lambda>s. nb (\<not> s))" by auto
  have j: "joined w1 fa fb ((\<lambda>_. [])(False := [m1])) nb" by (rule joined_swap [OF w1(3)]) auto
  have rt: "rt_cur m = Ok u" using carries_reads(1) [OF m] by simp
  then obtain off where off: "cur_entry m = Ok off" by (auto simp: rt_cur_def cur_entry_def cbind_eq_Ok)
  let ?x = "x\<lparr>ep_ref := ep_ref x + 1\<rparr>"
  let ?x1 = "?x\<lparr>ep_connectors := t # remove1 t (ep_connectors x)\<rparr>"
  have f: "find_uuid b (Ok u) (set_ep b ?x s) = Ok (Some t)"
    using c y(1,3) by (auto simp: find_uuid_def intro!: find_only split: option.splits)
  have "ep_send n e b m (set_ep b ?x s) = Some (Ok (Done (Inr ()), set_ep b ?x1 (s\<lparr>net := w1\<rparr>)))"
    using x(2) off f rt m1(1) y(1,2) w1(1) by (simp add: ep_send_def repep_send_def on_net_def)
  from sp_send_ok [OF x(1,3) this, of ?x1]
  have "sp_send n e j m s =
      Some (Ok (Done (Inr ()), set_ep b (x\<lparr>ep_connectors := t # remove1 t (ep_connectors x)\<rparr>) (s\<lparr>net := w1\<rparr>)))" by simp
  then show ?thesis using w1(2) j m1(2,3) by blast
qed

text \<open>Fourth, the event thread takes the reply to the requester.\<close>

lemma reply_taken:
  assumes w: "wok h (net s)" "joined (net s) fa fb ((\<lambda>_. [])(False := [m])) nb" and m: "carries k [u] m"
    and x: "sp_at s i a x" "ep_vf x = ReqEp" "\<not> proxied x" "bad_socks x = []"
      "head_ok (ep_rcv x)" "0 \<le> sint (waiters (ep_rcv x))"
    and y: "tgs s t = Some y" "tg_owner y = a" "tg_fd y = fa" "pfd (tg_pollfd y) = fa"
  shows "\<exists>m1 hd' wk w' f. event_hndl n e (in_event fa t) s =
      Some (Ok (Done (), set_ep a (x\<lparr>ep_rcv := hd'\<rparr>) (set_tg t (y\<lparr>tg_pollfd := f\<rparr>) (s\<lparr>net := w', sp_wake := wk\<rparr>)))) \<and>
    wok h w' \<and> joined w' fa fb (\<lambda>_. []) nb \<and> head_ok hd' \<and> bh_msgs hd' = bh_msgs (ep_rcv x) @ [m1] \<and> ubase m1 = ubase m"
proof -
  from joined_recv [OF w, of n "net_env e"] obtain w' where
    w': "xrecv False n (net_env e) fa (net s) = Some (Ok (Done (Inr m), w'))" "wok h w'" "joined w' fa fb (\<lambda>_. []) nb"
    by (auto simp: got_def fun_upd_def if_distrib cong: if_cong)
  from joined_has_sock(2) [OF w(2)] obtain c sb r p where
    c: "has_sock (net s) fa c (XInproc sb r p)" "vfp sb = InprocConnector" by blast
  from pop_rt_ok [OF m] obtain m1 where m1: "pop_rt m = Ok m1" "ubase m1 = ubase m" by auto
  have hdr: "\<exists>g. get_rrhdr m = Some g" using m by (auto simp: carries_def get_rrhdr_def get_sphdr_def)
  let ?f = "(tg_pollfd y)\<lparr>happened := XPOLLIN\<rparr>"
  let ?s = "set_tg t (y\<lparr>tg_pollfd := ?f\<rparr>) (s\<lparr>net := w'\<rparr>)"
  have ea: "eps ?s a = Some x" using x(1) by (simp add: sp_at_def)
  from ep_deliver_ok [OF ea x(5), of m1] obtain hd' wk where
    d: "ep_deliver a m1 ?s = Ok (set_ep a (x\<lparr>ep_rcv := hd'\<rparr>) (?s\<lparr>sp_wake := wk\<rparr>))" "head_ok hd'"
      "bh_msgs hd' = bh_msgs (ep_rcv x) @ [m1]" by blast
  have "ep_add n e (tg_owner y) t m ?s = Some (Ok (True, set_ep a (x\<lparr>ep_rcv := hd'\<rparr>) (?s\<lparr>sp_wake := wk\<rparr>)))"
    using x(1,2,3,6) y(2) m1(1) hdr d(1) by (auto simp: ep_add_def reqep_add_def check_waiters_def sp_at_def)
  from event_in [OF w(1) c y(1,3,4) w'(1) this] x(4) y(2)
  have "event_hndl n e (in_event fa t) s = Some (Ok (Done (), set_ep a (x\<lparr>ep_rcv := hd'\<rparr>) (?s\<lparr>sp_wake := wk\<rparr>)))" by simp
  then show ?thesis using w'(2,3) d(2,3) m1(2)
    by (intro exI [of _ m1] exI [of _ hd'] exI [of _ wk] exI [of _ w'] exI [of _ ?f]) simp
qed

lemma select_head:
  "rr_head rr = t # ts \<Longrightarrow> current_weight rr t \<noteq> 0x80000000 \<Longrightarrow> \<exists>rr'. weight_rrbin_select rr = Ok (Some t, rr')"
  by (auto simp: weight_rrbin_select_def Let_def)

text \<open>C1. A request over an in-process connection is answered. The two sockets are the ends of one in-process connection
  with empty queues; the requester and the server are two endpoints that are open, do not forward to another endpoint, have no
  sockets waiting to be removed and nothing in their receive queues; the requester's balancer has the target of its
  end in front, with the identifier \<open>u\<close>, and the server has the target of its end among its connectors and no other
  connector it knows by \<open>u\<close>. Memory is there for every allocation. Then a request without control messages reaches the server's
  receive queue once the event thread has handled the event \<open>XPOLLIN\<close> of the server's socket, and the server
  receives its payload; when the server sends it back and the event thread has handled the event \<open>XPOLLIN\<close> of the requester's
  socket, the requester receives a reply with that payload. In between, no call blocks, aborts or leaves defined
  behaviour, and the two sockets are connected and empty again. (The message is well formed, the counts of
  sleepers are not negative, and the target in front has not the least integer for its weight.)\<close>

theorem request_reply:
  assumes w: "wok h (net s)" "joined (net s) fa fb (\<lambda>_. []) nb" and "\<forall>n. alloc e n" and m: "wf_msg m" "cmsg_head m = []"
    and q: "requester s i a t fa u" and r: "server s j b t' fb u" and ne: "a \<noteq> b"
  shows "\<exists>s1 s2 s3 s4 s5 s6 m1 m2. sp_send n e i m s = Some (Ok (Done (Inr ()), s1)) \<and>
    event_hndl n e (in_event fb t') s1 = Some (Ok (Done (), s2)) \<and>
    sp_recv False j s2 = Ok (Done (Inr m1), s3) \<and> ubase m1 = ubase m \<and>
    sp_send n e j m1 s3 = Some (Ok (Done (Inr ()), s4)) \<and>
    event_hndl n e (in_event fa t) s4 = Some (Ok (Done (), s5)) \<and>
    sp_recv False i s5 = Ok (Done (Inr m2), s6) \<and> ubase m2 = ubase m \<and>
    wok h (net s6) \<and> joined (net s6) fa fb (\<lambda>_. []) nb"
proof -
  have al: "\<And>n. alloc e n" using assms(3) by blast
  from q obtain x y ts where x: "sp_at s i a x" "ep_vf x = ReqEp" "\<not> proxied x" "\<not> ep_shutdown x" "bad_socks x = []"
      "head_ok (ep_rcv x)" "bh_msgs (ep_rcv x) = []" "0 \<le> sint (waiters (ep_rcv x))"
      "rr_head (ep_lbs x) = t # ts" "current_weight (ep_lbs x) t \<noteq> 0x80000000"
    and y: "tgs s t = Some y" "tg_owner y = a" "tg_fd y = fa" "pfd (tg_pollfd y) = fa" "tg_uuid y = u" "length u = 16"
    unfolding requester_def by blast
  from r obtain x' y' where x': "sp_at s j b x'" "ep_vf x' = RepEp" "\<not> proxied x'" "\<not> ep_shutdown x'" "bad_socks x' = []"
      "head_ok (ep_rcv x')" "bh_msgs (ep_rcv x') = []" "0 \<le> sint (waiters (ep_rcv x'))"
      "t' \<in> set (ep_connectors x')" "\<forall>c\<in>set (ep_connectors x') - {t'}. \<forall>z. tgs s c = Some z \<longrightarrow> tg_uuid z \<noteq> u"
    and y': "tgs s t' = Some y'" "tg_owner y' = b" "tg_fd y' = fb" "pfd (tg_pollfd y') = fb" unfolding server_def by blast
  have tt: "t \<noteq> t'" using y(1,2) y'(1,2) ne by auto
  from select_head [OF x(9,10)] obtain rr where rr: "weight_rrbin_select (ep_lbs x) = Ok (Some t, rr)" by blast
  have u: "length (tg_uuid y) = 16" using y(5,6) by simp
  from request_sent [where n = n and e = e, OF w al x(1,2,4) rr y(1,3) u m] obtain m0 w1 where
    1: "sp_send n e i m s = Some (Ok (Done (Inr ()), set_ep a (x\<lparr>ep_lbs := rr\<rparr>) (s\<lparr>net := w1\<rparr>)))"
      "wok h w1" "joined w1 fa fb ((\<lambda>_. [])(True := [m0])) nb" "carries 1 [u] m0" "ubase m0 = ubase m" using y(5) by auto
  define s1 where "s1 = set_ep a (x\<lparr>ep_lbs := rr\<rparr>) (s\<lparr>net := w1\<rparr>)"
  have s1: "net s1 = w1" "sp_at s1 j b x'" "tgs s1 = tgs s" using x'(1) ne by (simp_all add: s1_def sp_at_def)
  have rt: "rt_cur m0 = Ok u" using carries_reads(1) [OF 1(4)] by simp
  have y1: "tgs s1 t' = Some y'" using y'(1) s1(3) by simp
  from request_taken [where n = n and e = e, OF 1(2,3) [folded s1(1)] rt s1(2) x'(2,3,5,6,8) y1 y'(2-4)] obtain hb k w2 f where
    2: "event_hndl n e (in_event fb t') s1 =
      Some (Ok (Done (), set_ep b (x'\<lparr>ep_rcv := hb\<rparr>) (set_tg t' (y'\<lparr>tg_pollfd := f, tg_uuid := u\<rparr>) (s1\<lparr>net := w2, sp_wake := k\<rparr>))))"
      "wok h w2" "joined w2 fa fb (\<lambda>_. []) nb" "head_ok hb" "bh_msgs hb = bh_msgs (ep_rcv x') @ [m0]"
      "waiters hb = waiters (ep_rcv x')" "pfd f = fb" by blast
  define s2 where "s2 = set_ep b (x'\<lparr>ep_rcv := hb\<rparr>) (set_tg t' (y'\<lparr>tg_pollfd := f, tg_uuid := u\<rparr>) (s1\<lparr>net := w2, sp_wake := k\<rparr>))"
  have s2: "sp_at s2 j b (x'\<lparr>ep_rcv := hb\<rparr>)" "net s2 = w2" using s1(2) by (simp_all add: s2_def sp_at_def)
  have "bh_msgs (ep_rcv (x'\<lparr>ep_rcv := hb\<rparr>)) = [m0]" using 2(5) x'(7) by simp
  from sp_recv_ok [OF s2(1) _ _ this] x'(4) 2(4) obtain hc where
    3: "sp_recv False j s2 = Ok (Done (Inr m0), set_ep b (x'\<lparr>ep_rcv := hc\<rparr>) s2)" "head_ok hc" "bh_msgs hc = []"
      "waiters hc = waiters hb" by auto
  define s3 where "s3 = set_ep b (x'\<lparr>ep_rcv := hc\<rparr>) s2"
  have s3: "sp_at s3 j b (x'\<lparr>ep_rcv := hc\<rparr>)" "net s3 = w2" using s2 by (simp_all add: s3_def sp_at_def)
  have y3: "tgs s3 t' = Some (y'\<lparr>tg_pollfd := f, tg_uuid := u\<rparr>)" by (simp add: s3_def s2_def)
  have c3: "\<forall>c\<in>set (ep_connectors (x'\<lparr>ep_rcv := hc\<rparr>)) - {t'}. \<forall>z. tgs s3 c = Some z \<longrightarrow> tg_uuid z \<noteq> u"
    using x'(10) s1(3) by (simp add: s3_def s2_def)
  have vf3: "ep_vf (x'\<lparr>ep_rcv := hc\<rparr>) = RepEp" "\<not> ep_shutdown (x'\<lparr>ep_rcv := hc\<rparr>)" "t' \<in> set (ep_connectors (x'\<lparr>ep_rcv := hc\<rparr>))"
    using x'(2,4,9) by simp_all
  have z3: "tg_fd (y'\<lparr>tg_pollfd := f, tg_uuid := u\<rparr>) = fb" "tg_uuid (y'\<lparr>tg_pollfd := f, tg_uuid := u\<rparr>) = u" using y'(3) by simp_all
  from reply_sent [where n = n and e = e, OF 2(2,3) [folded s3(2)] s3(1) vf3(1,2) y3 z3 vf3(3) c3 1(4)] obtain m1 w3 where
    4: "sp_send n e j m0 s3 = Some (Ok (Done (Inr ()),
        set_ep b (x'\<lparr>ep_rcv := hc, ep_connectors := t' # remove1 t' (ep_connectors x')\<rparr>) (s3\<lparr>net := w3\<rparr>)))"
      "wok h w3" "joined w3 fa fb ((\<lambda>_. [])(False := [m1])) nb" "carries 1 [u] m1" "ubase m1 = ubase m0" by auto
  define s4 where "s4 = set_ep b (x'\<lparr>ep_rcv := hc, ep_connectors := t' # remove1 t' (ep_connectors x')\<rparr>) (s3\<lparr>net := w3\<rparr>)"
  let ?x = "x\<lparr>ep_lbs := rr\<rparr>"
  have s4: "sp_at s4 i a ?x" "net s4 = w3" "tgs s4 t = Some y"
    using x(1) y(1) ne tt by (simp_all add: s4_def s3_def s2_def s1_def sp_at_def)
  have vx: "ep_vf ?x = ReqEp" "\<not> proxied ?x" "bad_socks ?x = []" "head_ok (ep_rcv ?x)" "0 \<le> sint (waiters (ep_rcv ?x))"
    using x(2,3,5,6,8) by simp_all
  from reply_taken [where n = n and e = e, OF 4(2,3) [folded s4(2)] 4(4) s4(1) vx s4(3) y(2-4)]
  obtain m2 hd' wk w4 g where
    5: "event_hndl n e (in_event fa t) s4 =
        Some (Ok (Done (), set_ep a (?x\<lparr>ep_rcv := hd'\<rparr>) (set_tg t (y\<lparr>tg_pollfd := g\<rparr>) (s4\<lparr>net := w4, sp_wake := wk\<rparr>))))"
      "wok h w4" "joined w4 fa fb (\<lambda>_. []) nb" "head_ok hd'" "bh_msgs hd' = bh_msgs (ep_rcv ?x) @ [m2]" "ubase m2 = ubase m1"
    by (elim exE conjE)
  define s5 where "s5 = set_ep a (?x\<lparr>ep_rcv := hd'\<rparr>) (set_tg t (y\<lparr>tg_pollfd := g\<rparr>) (s4\<lparr>net := w4, sp_wake := wk\<rparr>))"
  have s5: "sp_at s5 i a (?x\<lparr>ep_rcv := hd'\<rparr>)" "net s5 = w4" using s4(1) by (simp_all add: s5_def sp_at_def)
  have "bh_msgs (ep_rcv (?x\<lparr>ep_rcv := hd'\<rparr>)) = [m2]" using 5(5) x(7) by simp
  from sp_recv_ok [OF s5(1) _ _ this] x(4) 5(4) obtain hz where
    6: "sp_recv False i s5 = Ok (Done (Inr m2), set_ep a (?x\<lparr>ep_rcv := hz\<rparr>) s5)" by auto
  have u2: "ubase m2 = ubase m" using 5(6) 4(5) 1(5) by simp
  have n6: "wok h (net (set_ep a (?x\<lparr>ep_rcv := hz\<rparr>) s5))" "joined (net (set_ep a (?x\<lparr>ep_rcv := hz\<rparr>) s5)) fa fb (\<lambda>_. []) nb"
    using 5(2,3) s5(2) by simp_all
  show ?thesis
    by (insert 1(1) [folded s1_def] 2(1) [folded s2_def] 3(1) [folded s3_def] 1(5) 4(1) [folded s4_def] 5(1) [folded s5_def] 6 u2 n6,
       rule exI [of _ s1], rule exI [of _ s2], rule exI [of _ s3], rule exI [of _ s4], rule exI [of _ s5],
       rule exI [of _ "set_ep a (?x\<lparr>ep_rcv := hz\<rparr>) s5"], rule exI [of _ m0], rule exI [of _ m2],
       intro conjI)
qed

text \<open>A requester and a server over a given connection, for examples.\<close>

definition senv1 :: senv where
  "senv1 = \<lparr>mem = 1, alloc = (\<lambda>_. True), fuel = 2, sock_mem = True, poll_mem = True, pipe_cap = 64, have_strndup = True,
     sp_mem = True, uuid_gen = (\<lambda>a. replicate 16 (of_nat a)), junk = 1\<rparr>"

definition target1 :: "nat \<Rightarrow> nat \<Rightarrow> int \<Rightarrow> byte list \<Rightarrow> tgtd" where
  "target1 a t fd u = \<lparr>tg_owner = a, tg_pollfd = \<lparr>pfd = fd, phndl = t, pevents = XPOLLIN OR XPOLLERR, happened = 0\<rparr>,
     bad_status = False, tg_fd = fd, tg_uuid = u, ls_head = msgbuf_head_init SP_SNDWND\<rparr>"

definition pair_sp :: "int \<Rightarrow> int \<Rightarrow> world \<Rightarrow> sp" where
  "pair_sp fa fb w =
     set_ep 0 ((epbase_init ReqEp)\<lparr>eid := 0, ep_ref := 1, ep_connectors := [2], ep_lbs := weight_rrbin_add 2 weight_rrbin_new\<rparr>)
    (set_ep 1 ((epbase_init RepEp)\<lparr>eid := 1, ep_ref := 1, ep_connectors := [3]\<rparr>)
    (set_tg 2 (target1 0 2 fa (replicate 16 2)) (set_tg 3 (target1 1 3 fb (replicate 16 0))
       ((sp_init 0 w)\<lparr>sg := (tbl_init MAX_ENDPOINTS)\<lparr>slots := [0 \<mapsto> 0, 1 \<mapsto> 1]\<rparr>, sp_next := 4\<rparr>))))"

lemma pair_sp_ok:
  "requester (pair_sp fa fb w) 0 0 2 fa (replicate 16 2)" "server (pair_sp fa fb w) 1 1 3 fb u" "net (pair_sp fa fb w) = w"
proof -
  show "requester (pair_sp fa fb w) 0 0 2 fa (replicate 16 2)" unfolding requester_def
    by (intro exI [of _ "the (eps (pair_sp fa fb w) 0)"] exI [of _ "target1 0 2 fa (replicate 16 2)"] exI [of _ "[]"])
      (simp add: pair_sp_def sp_at_def MAX_ENDPOINTS_def epbase_init_def msgbuf_head_init_def head_ok_def target1_def
        weight_rrbin_add_def weight_rrbin_new_def)
  show "server (pair_sp fa fb w) 1 1 3 fb u" unfolding server_def
    by (intro exI [of _ "the (eps (pair_sp fa fb w) 1)"] exI [of _ "target1 1 3 fb (replicate 16 0)"])
      (simp add: pair_sp_def sp_at_def MAX_ENDPOINTS_def epbase_init_def msgbuf_head_init_def head_ok_def target1_def)
  show "net (pair_sp fa fb w) = w" by (simp add: pair_sp_def sp_init_def)
qed

theorem request_reply_witness:
  "\<exists>fl fa fb w1 w2 w s1 s2 s3 s4 s5 s6 m1 m2.
    xlisten 1 env1 ''inproc://a'' (socket_init evset1 (kern0 [])) = Some (Ok (Inr fl, w1)) \<and>
    xconnect 0 env1 ''inproc://a'' w1 = Some (Ok (Inr fa, w2)) \<and>
    xaccept False 0 env1 (int fl) w2 = Some (Ok (Done (Inr (int fb)), w)) \<and>
    sp_send 0 senv1 0 (plain_msg [7]) (pair_sp (int fa) (int fb) w) = Some (Ok (Done (Inr ()), s1)) \<and>
    event_hndl 0 senv1 (in_event (int fb) 3) s1 = Some (Ok (Done (), s2)) \<and>
    sp_recv False 1 s2 = Ok (Done (Inr m1), s3) \<and> ubase m1 = [7] \<and>
    sp_send 0 senv1 1 m1 s3 = Some (Ok (Done (Inr ()), s4)) \<and>
    event_hndl 0 senv1 (in_event (int fa) 2) s4 = Some (Ok (Done (), s5)) \<and>
    sp_recv False 0 s5 = Ok (Done (Inr m2), s6) \<and> ubase m2 = [7]"
proof -
  from channel_set_up1 obtain fl fa fb w1 w2 w where
    c: "xlisten 1 env1 ''inproc://a'' (socket_init evset1 (kern0 [])) = Some (Ok (Inr fl, w1))"
      "xconnect 0 env1 ''inproc://a'' w1 = Some (Ok (Inr fa, w2))"
      "xaccept False 0 env1 (int fl) w2 = Some (Ok (Done (Inr (int fb)), w))"
      "joined w (int fa) (int fb) (\<lambda>_. []) (\<lambda>_. False)" "wok (\<lambda>_. 0) w"
    by (elim exE conjE)
  let ?s = "pair_sp (int fa) (int fb) w"
  have al: "\<forall>n. alloc senv1 n" by (simp add: senv1_def)
  have m: "wf_msg (plain_msg [7])" "cmsg_head (plain_msg [7]) = []" by (simp_all add: plain_msg_ok)
  have w: "wok (\<lambda>_. 0) (net ?s)" "joined (net ?s) (int fa) (int fb) (\<lambda>_. []) (\<lambda>_. False)" using c(4,5) by (simp_all add: pair_sp_ok)
  have "(0 :: nat) \<noteq> 1" by simp
  note r = request_reply [where n = 0, OF w al m pair_sp_ok(1,2) this]
  have u: "ubase (plain_msg [7]) = [7]" by (rule plain_msg_ok)
  from r [unfolded u] show ?thesis
  proof (elim exE conjE)
    fix s1 s2 s3 s4 s5 s6 m1 m2
    assume r: "sp_send 0 senv1 0 (plain_msg [7]) ?s = Some (Ok (Done (Inr ()), s1))"
      "event_hndl 0 senv1 (in_event (int fb) 3) s1 = Some (Ok (Done (), s2))"
      "sp_recv False 1 s2 = Ok (Done (Inr m1), s3)" "ubase m1 = [7]"
      "sp_send 0 senv1 1 m1 s3 = Some (Ok (Done (Inr ()), s4))"
      "event_hndl 0 senv1 (in_event (int fa) 2) s4 = Some (Ok (Done (), s5))"
      "sp_recv False 0 s5 = Ok (Done (Inr m2), s6)" "ubase m2 = [7]"
    show ?thesis
      by (insert c(1-3) r,
       rule exI [of _ fl], rule exI [of _ fa], rule exI [of _ fb], rule exI [of _ w1], rule exI [of _ w2],
       rule exI [of _ w], rule exI [of _ s1], rule exI [of _ s2], rule exI [of _ s3], rule exI [of _ s4],
       rule exI [of _ s5], rule exI [of _ s6], rule exI [of _ m1], rule exI [of _ m2], intro conjI)
  qed
qed

section \<open>What goes wrong\<close>

text \<open>C33. A peer can crash a server: any message without control messages that waits at the server's end of an in-process
  connection makes the event thread, when it handles the event \<open>XPOLLIN\<close> of that socket, follow a null
  pointer. The server is idle: open, not forwarding, with nothing in its receive queue.\<close>

theorem headerless_request_crashes:
  assumes "wok h (net s)" "joined (net s) fa fb ((\<lambda>_. [])(True := [m])) nb" "cmsg_head m = []" "server s j b t fb u"
  shows "event_hndl n e (in_event fb t) s = Some Undef"
proof -
  from assms(4) obtain x y where x: "sp_at s j b x" "ep_vf x = RepEp" "\<not> proxied x"
    and y: "tgs s t = Some y" "tg_owner y = b" "tg_fd y = fb" "pfd (tg_pollfd y) = fb" unfolding server_def by blast
  from joined_recv_other [OF assms(1,2), of n "net_env e"] obtain w' where
    w': "xrecv False n (net_env e) fb (net s) = Some (Ok (Done (Inr m), w'))" by blast
  from joined_has_sock(1) [OF assms(2)] obtain c sb r p where
    c: "has_sock (net s) fb c (XInproc sb r p)" "vfp sb = InprocConnector" by blast
  let ?s = "set_tg t (y\<lparr>tg_pollfd := (tg_pollfd y)\<lparr>happened := XPOLLIN\<rparr>\<rparr>) s"
  have ty: "get_socktype n e fb ?s = Some (Ok (XCONNECTOR, ?s))" by (rule get_socktype_ok) (use assms(1) c in auto)
  have "handle_in n e b t fb ?s = Some Undef"
    using w' x assms(3) by (simp add: handle_in_def on_net_def ep_add_def repep_add_def rt_cur_def get_rrhdr_def get_sphdr_def sp_at_def)
  then show ?thesis using y ty by (simp add: event_hndl_def in_event_def Let_def connector_event_hndl_def XPOLLIN_def)
qed

theorem headerless_request_crashes_witness:
  "\<exists>fl fa fb w1 w2 w w'. xlisten 1 env1 ''inproc://a'' (socket_init evset1 (kern0 [])) = Some (Ok (Inr fl, w1)) \<and>
    xconnect 0 env1 ''inproc://a'' w1 = Some (Ok (Inr fa, w2)) \<and>
    xaccept False 0 env1 (int fl) w2 = Some (Ok (Done (Inr (int fb)), w)) \<and>
    xsend False 0 env1 (int fa) (plain_msg [7]) w = Some (Ok (Done (Inr ()), w')) \<and>
    event_hndl 0 senv1 (in_event (int fb) 3) (pair_sp (int fa) (int fb) w') = Some Undef"
proof -
  from channel_set_up1 obtain fl fa fb w1 w2 w where
    c: "xlisten 1 env1 ''inproc://a'' (socket_init evset1 (kern0 [])) = Some (Ok (Inr fl, w1))"
      "xconnect 0 env1 ''inproc://a'' w1 = Some (Ok (Inr fa, w2))"
      "xaccept False 0 env1 (int fl) w2 = Some (Ok (Done (Inr (int fb)), w))"
      "joined w (int fa) (int fb) (\<lambda>_. []) (\<lambda>_. False)" "wok (\<lambda>_. 0) w"
    by (elim exE conjE)
  from joined_send [OF c(5,4), of 0 env1 "plain_msg [7]"] obtain w' where
    w': "xsend False 0 env1 (int fa) (plain_msg [7]) w = Some (Ok (Done (Inr ()), w'))" "wok (\<lambda>_. 0) w'"
      "joined w' (int fa) (int fb) ((\<lambda>_. [])(True := [plain_msg [7]])) (\<lambda>_. False)" by auto
  let ?s = "pair_sp (int fa) (int fb) w'"
  have w: "wok (\<lambda>_. 0) (net ?s)" "joined (net ?s) (int fa) (int fb) ((\<lambda>_. [])(True := [plain_msg [7]])) (\<lambda>_. False)"
    using w'(2,3) by (simp_all add: pair_sp_ok)
  from headerless_request_crashes [OF w plain_msg_ok(2) pair_sp_ok(2)]
  have "event_hndl 0 senv1 (in_event (int fb) 3) ?s = Some Undef" .
  with c(1-3) w'(1) show ?thesis
    by (intro exI [of _ fl] exI [of _ fa] exI [of _ fb] exI [of _ w1] exI [of _ w2] exI [of _ w] exI [of _ w'] conjI)
qed

text \<open>C34. A send on an endpoint that has been closed loses a reference: when a receiver is asleep, the endpoint is closed and
  a message is sent before the receiver wakes up, the receiver and the sender get \<open>EBADF\<close>, but the endpoint
  keeps a reference nobody holds and is never handed to the event thread to be destroyed; without the send
  it is.\<close>

theorem send_on_closed_leaks:
  assumes x: "sp_at s i a x" "\<not> ep_shutdown x" "ep_ref x = 1" "bh_msgs (ep_rcv x) = []" "waiters (ep_rcv x) = 0"
  shows "\<exists>s1 s2 s3 s4 s4'. sp_recv False i s = Ok (Blocked, s1) \<and> sp_close i s1 = Ok (Inr (), s2) \<and>
    sp_send n e i m s2 = Some (Ok (Done (Inl EBADF), s3)) \<and>
    sp_recv True i s3 = Ok (Done (Inl EBADF), s4) \<and> ep_ref (the (eps s4 a)) = 1 \<and> shutdown_head s4 = shutdown_head s \<and>
    sp_recv True i s2 = Ok (Done (Inl EBADF), s4') \<and> ep_ref (the (eps s4' a)) = 0 \<and> shutdown_head s4' = shutdown_head s @ [a]"
proof -
  note w0 = x(5)
  have i: "0 \<le> i" "i < int MAX_ENDPOINTS" "slots (sg s) (nat i) = Some a" "eps s a = Some x" using x(1) by (auto simp: sp_at_def)
  let ?x1 = "x\<lparr>ep_ref := 2, ep_rcv := msgbuf_head_incr_waiters (ep_rcv x)\<rparr>"
  let ?x2 = "?x1\<lparr>ep_shutdown := True, ep_ref := 1\<rparr>"
  have 1: "sp_recv False i s = Ok (Blocked, set_ep a ?x1 s)"
    using eid_get_ok [OF x(1)] x(2,3,4) by (simp add: sp_recv_def)
  have 2: "sp_close i (set_ep a ?x1 s) = Ok (Inr (), set_ep a ?x2 (s\<lparr>sp_wake := sp_wake s @ [a]\<rparr>))"
    using i w0 by (simp add: sp_close_def eid_get_def eid_put_def msgbuf_head_incr_waiters_def Let_def)
  let ?s2 = "set_ep a ?x2 (s\<lparr>sp_wake := sp_wake s @ [a]\<rparr>)"
  have 3: "sp_send n e i m ?s2 = Some (Ok (Done (Inl EBADF), set_ep a (?x2\<lparr>ep_ref := 2\<rparr>) ?s2))"
    using i by (simp add: sp_send_def eid_get_def)
  have 4: "sp_recv True i (set_ep a (?x2\<lparr>ep_ref := 2\<rparr>) ?s2) =
      Ok (Done (Inl EBADF), set_ep a (x\<lparr>ep_shutdown := True, ep_rcv := msgbuf_head_decr_waiters (msgbuf_head_incr_waiters (ep_rcv x)), ep_ref := 1\<rparr>) ?s2)"
    using i by (simp add: sp_recv_def eid_put_def Let_def)
  have 5: "sp_recv True i ?s2 = Ok (Done (Inl EBADF),
      set_ep a (x\<lparr>ep_shutdown := True, ep_rcv := msgbuf_head_decr_waiters (msgbuf_head_incr_waiters (ep_rcv x)), ep_ref := 0\<rparr>)
        (?s2\<lparr>shutdown_head := shutdown_head s @ [a]\<rparr>))"
    using i by (simp add: sp_recv_def eid_put_def Let_def set_ep_def)
  show ?thesis
    by (rule exI, rule exI, rule exI, rule exI, rule exI, intro conjI, rule 1, rule 2, rule 3, rule 4, simp, simp, rule 5)
      (simp_all add: set_ep_def)
qed

theorem send_on_closed_leaks_witness:
  "\<exists>s s1 s2 s3 s4. sp_endpoint senv1 SP_REQREP SP_REP (sp_init 0 (socket_init evset1 (kern0 []))) = Ok (Inr 0, s) \<and>
    sp_recv False 0 s = Ok (Blocked, s1) \<and> sp_close 0 s1 = Ok (Inr (), s2) \<and>
    sp_send 0 senv1 0 (plain_msg [7]) s2 = Some (Ok (Done (Inl EBADF), s3)) \<and>
    sp_recv True 0 s3 = Ok (Done (Inl EBADF), s4) \<and> shutdown_head s4 = []"
proof -
  let ?b = "sp_init 0 (socket_init evset1 (kern0 []))"
  let ?x = "(epbase_init RepEp)\<lparr>eid := 0, ep_ref := 1\<rparr>"
  let ?t = "(tbl_init MAX_ENDPOINTS)\<lparr>used := 1, slots := [0 \<mapsto> 0]\<rparr>"
  let ?s = "set_ep 0 ?x (?b\<lparr>sg := ?t, sp_next := 1\<rparr>)"
  have m: "0 < MAX_ENDPOINTS" by (simp add: MAX_ENDPOINTS_def)
  then have t: "tbl_alloc MAX_ENDPOINTS 0 (sg ?b) = Ok (0, ?t)"
    by (simp add: sp_init_def tbl_alloc_def tbl_init_def)
  have v: "epbase_vfptr_lookup SP_REQREP SP_REP = Some RepEp" by code_simp
  have "sp_mem senv1" "sp_next ?b = 0" by (simp_all add: senv1_def sp_init_def)
  with t v have "sp_endpoint senv1 SP_REQREP SP_REP ?b = Ok (Inr 0, ?s)" by (simp add: sp_endpoint_def eid_alloc_def)
  moreover have x: "sp_at ?s 0 0 ?x" by (simp add: sp_at_def MAX_ENDPOINTS_def)
  have "\<not> ep_shutdown ?x" "ep_ref ?x = 1" "bh_msgs (ep_rcv ?x) = []" "waiters (ep_rcv ?x) = 0"
    by (simp_all add: epbase_init_def msgbuf_head_init_def)
  note send_on_closed_leaks [OF x this, where n = 0 and e = senv1 and m = "plain_msg [7]"]
  moreover have "shutdown_head ?s = []" by (simp add: sp_init_def)
  ultimately show ?thesis by metis
qed

text \<open>Every call of the interface that takes the number of an endpoint.\<close>

definition calls_follow_freed :: "nat \<Rightarrow> senv \<Rightarrow> int \<Rightarrow> sp \<Rightarrow> bool" where
  "calls_follow_freed n e i s \<longleftrightarrow>
     (\<forall>m. sp_send n e i m s = Some Undef) \<and> sp_recv False i s = Undef \<and> sp_close i s = Undef \<and>
     (\<forall>fd. sp_add n e i fd s = Some Undef) \<and> (\<forall>fd. sp_rm i fd s = Undef) \<and>
     (\<forall>opt v. sp_setopt i opt v s = Undef) \<and> (\<forall>opt. sp_getopt i opt s = Undef)"

lemma freed_slot:
  assumes "0 \<le> i" "i < int MAX_ENDPOINTS" "slots (sg s) (nat i) = Some a" "eps s a = None"
  shows "calls_follow_freed n e i s"
proof -
  have "eid_get i s = Undef" using assms by (simp add: eid_get_def)
  then show ?thesis
    by (simp add: calls_follow_freed_def sp_send_def sp_recv_def sp_close_def sp_add_def sp_rm_def sp_setopt_def sp_getopt_def)
qed

text \<open>C35. The number of an endpoint that has been closed and destroyed stays in the table. For an endpoint without
  sockets, closed with no other reference on it and destroyed by the event thread, each of \<open>sp_send\<close>, \<open>sp_recv\<close>,
  \<open>sp_close\<close>, \<open>sp_add\<close>, \<open>sp_rm\<close>, \<open>sp_setopt\<close> and \<open>sp_getopt\<close> with that number then follows a pointer to the freed
  memory; and it does so in any later state in which the entry of the table and the freed memory are still
  as they were.\<close>

theorem use_after_close:
  assumes x: "sp_at s i a x" "ep_ref x = 1" "ep_listeners x = []" "ep_connectors x = []" "bad_socks x = []" "shutdown_head s = []"
  shows "\<exists>s1 s2. sp_close i s = Ok (Inr (), s1) \<and> shutdown_epbase n e (shutdown_head s1) s1 = Some (Ok s2) \<and>
    calls_follow_freed n e i s2 \<and> slots (sg s2) (nat i) = Some a \<and> eps s2 a = None \<and>
    (\<forall>s3. slots (sg s3) (nat i) = Some a \<and> eps s3 a = None \<longrightarrow> calls_follow_freed n e i s3)"
proof -
  have i: "0 \<le> i" "i < int MAX_ENDPOINTS" "slots (sg s) (nat i) = Some a" "eps s a = Some x" using x(1) by (auto simp: sp_at_def)
  define k where "k = (if waiters (ep_snd x) \<noteq> 0 \<or> waiters (ep_rcv x) \<noteq> 0 then sp_wake s @ [a] else sp_wake s)"
  define s1 where "s1 = set_ep a (x\<lparr>ep_shutdown := True, ep_ref := 0\<rparr>) (s\<lparr>sp_wake := k, shutdown_head := [a]\<rparr>)"
  have 1: "sp_close i s = Ok (Inr (), s1)"
    using i x(2,6) by (cases "waiters (ep_snd x) \<noteq> 0 \<or> waiters (ep_rcv x) \<noteq> 0")
      (simp_all add: sp_close_def eid_get_def eid_put_def Let_def k_def s1_def)
  have h: "shutdown_head s1 = [a]" "eps s1 a = Some (x\<lparr>ep_shutdown := True, ep_ref := 0\<rparr>)" "sg s1 = sg s" by (simp_all add: s1_def)
  obtain s2 where 2: "shutdown_epbase n e [a] s1 = Some (Ok s2)" "eps s2 a = None" "slots (sg s2) = slots (sg s)"
    using x(3-5) h by (auto simp: epbase_close_bad_tgtds_def epbase_exit_def Let_def tbl_push_def)
  from freed_slot [OF i(1,2)] have "\<forall>s3. slots (sg s3) (nat i) = Some a \<and> eps s3 a = None \<longrightarrow> calls_follow_freed n e i s3" by blast
  then show ?thesis using 1 2 h(1) i(3) by (intro exI [of _ s1] exI [of _ s2]) (simp del: shutdown_epbase.simps)
qed

theorem use_after_close_witness:
  "\<exists>s1 s2. sp_close 0 (set_ep 0 ((epbase_init RepEp)\<lparr>eid := 0, ep_ref := 1\<rparr>)
      ((sp_init 0 (socket_init evset1 (kern0 [])))\<lparr>sg := (tbl_init MAX_ENDPOINTS)\<lparr>used := 1, slots := [0 \<mapsto> 0]\<rparr>, sp_next := 1\<rparr>)) = Ok (Inr (), s1) \<and>
    shutdown_epbase 0 senv1 (shutdown_head s1) s1 = Some (Ok s2) \<and> calls_follow_freed 0 senv1 0 s2"
proof -
  let ?x = "(epbase_init RepEp)\<lparr>eid := 0, ep_ref := 1\<rparr>"
  let ?s = "set_ep 0 ?x ((sp_init 0 (socket_init evset1 (kern0 [])))\<lparr>sg := (tbl_init MAX_ENDPOINTS)\<lparr>used := 1, slots := [0 \<mapsto> 0]\<rparr>, sp_next := 1\<rparr>)"
  have "sp_at ?s 0 0 ?x" by (simp add: sp_at_def MAX_ENDPOINTS_def)
  from use_after_close [OF this, of 0 senv1] show ?thesis by (auto simp: epbase_init_def sp_init_def)
qed

end
