(* ===== verification/Level.thy ===== *)
theory Level
  imports Inproc
begin

text \<open>
  \<open>xpoll_ctl\<close> over the invariant of \<open>WorldInv\<close>, and what it amounts to: a poll set is level-triggered. Whatever
  the two ends of an in-process connection send and receive, and whatever is added to a poll set, changed
  and removed in between, \<open>xpoll_wait\<close> reports the ends that are in the set and have a message waiting.
\<close>

section \<open>Notifying the entries of one socket\<close>

lemma wok_pg:
  assumes "wok h w" "polls_ok (\<lambda>_. 0) h' P" "ens P = ens (pg w)"
  shows "wok h' (w\<lparr>pg := P\<rparr>)"
  using assms by (auto simp: wok_def sock_wok_def slot_wok_def entry_at_def lists_disjoint_def)

lemma w_emit_but:
  assumes w: "wok_but a w" and P: "polls_ok g h (pg w)" and a: "socks w a = Some x"
    and g: "\<forall>i\<in>set (poll_entries (sock_base x)). lru_attached (the (ens (pg w) i)) \<or> g i = 0"
  shows "\<exists>Q. w_emit e a w = Some (Ok (set_sock a (set_sock_base ((sock_base x)\<lparr>poll_entries :=
        filter (\<lambda>i. lru_attached (the (ens (pg w) i))) (poll_entries (sock_base x))\<rparr>) x) (w\<lparr>pg := Q\<rparr>))) \<and>
    polls_ok g h Q \<and> keeps perm_lru h (pg w) Q \<and>
    ens Q = (\<lambda>i. if i \<in> set (poll_entries (sock_base x)) then notified (poll_mask (sock_base x)) (the (ens (pg w) i)) else ens (pg w) i)"
proof -
  let ?es = "poll_entries (sock_base x)"
  have sa: "sock_wok w a x" by (rule wok_butD(3) [OF w a])
  have es: "\<forall>i\<in>set ?es. \<exists>y. ens (pg w) i = Some y \<and> link_attached y \<and> (lru_attached y \<or> g i = 0)"
  proof
    fix i assume i: "i \<in> set ?es"
    then obtain y where y: "ens (pg w) i = Some y" using sa by (auto simp: sock_wok_def)
    then show "\<exists>y. ens (pg w) i = Some y \<and> link_attached y \<and> (lru_attached y \<or> g i = 0)"
      using wok_butD(4) [OF w y] g i by force
  qed
  have d: "distinct ?es" and ok: "sock_ok (sock_base x)" and ns: "\<And>t. x \<noteq> XSio t" using sa by (auto simp: sock_wok_def)
  from deliver_emits [OF P d d es a, of "poll_mask (sock_base x)"] obtain Q where
    Q: "deliver a (notify (sock_base x)) w = Ok (set_sock a (set_sock_base ((sock_base x)\<lparr>poll_entries :=
        filter (\<lambda>i. lru_attached (the (ens (pg w) i))) ?es\<rparr>) x) (w\<lparr>pg := Q\<rparr>))"
      "polls_ok g h Q" "keeps perm_lru h (pg w) Q"
      "ens Q = (\<lambda>i. if i \<in> set ?es then notified (poll_mask (sock_base x)) (the (ens (pg w) i)) else ens (pg w) i)"
    by (auto simp: notify_def cong: filter_cong if_cong)
  have "emitting () [] (sock_base x) = Ok ((), notify (sock_base x), sock_base x)"
    using ok by (simp add: emitting_ok notify_def)
  then have "w_emit e a w = Some (cbind (deliver a (notify (sock_base x)) (set_sock a (set_sock_base (sock_base x) x) w)) (\<lambda>w. Ok w))"
    using a ns by (cases x) (auto simp: w_emit_def on_sock_def obind_def cbind_def split: cres.splits)
  then show ?thesis using Q a by (auto simp: set_sock_same)
qed

lemma xput_near:
  assumes "has_sock w fd a x" "1 < sb_ref (sock_base x)"
  shows "xput n e fd w = Some (Ok (set_sock a (set_sock_base ((sock_base x)\<lparr>sb_ref := sb_ref (sock_base x) - 1\<rparr>) x) w))"
  using assms by (simp add: xput_by_def unref_def has_sock_def upd_sock_set Let_def)

lemma ref_entries: "sb\<lparr>sb_ref := k, poll_entries := es, sb_ref := sb_ref sb\<rparr> = sb\<lparr>poll_entries := es\<rparr>" for sb :: sockbase
  by (cases sb) simp

section \<open>Changing what is watched\<close>

lemma same_entry:
  assumes "polls_ok g h P" "ens P i = Some y" "ens P j = Some z" "lru_attached y" "lru_attached z"
    "ent_owner z = ent_owner y" "pfd (pollfd z) = pfd (pollfd y)"
  shows "i = j"
proof -
  from polls_okD(4) [OF assms(1,2)] obtain p where p: "pls P (ent_owner y) = Some p" by (auto simp: ent_ok_def)
  have "i \<in> set (lru_head p)" "j \<in> set (lru_head p)"
    using polls_okD(4) [OF assms(1,2)] polls_okD(4) [OF assms(1,3)] p assms(4-6) by (auto simp: ent_ok_def)
  moreover have "distinct (map (lfd P) (lru_head p))" using polls_okD(3) [OF assms(1) p] by (simp add: poll_ok_def)
  moreover have "lfd P i = lfd P j" using assms(2,3,7) by (simp add: lfd_def)
  ultimately show ?thesis unfolding distinct_map by (auto dest: inj_onD)
qed

lemma set_ent_twice [simp]: "set_ent e y (set_ent e z P) = set_ent e y P"
  by (simp add: set_ent_def)

lemma set_ent_set_poll: "set_ent e y (set_poll p q P) = set_poll p q (set_ent e y P)"
  by (simp add: set_ent_def set_poll_def)

lemma watches_changed:
  assumes P: "polls_ok g h P" and y: "ens P i = Some y" "lru_attached y"
    and y': "ent_owner y' = ent_owner y" "lru_attached y'" "pfd (pollfd y') = pfd (pollfd y)"
  shows "watches (set_ent i y' P) r = (if r = ent_owner y
    then watches P r - {(pfd (pollfd y), pevents (pollfd y))} \<union> {(pfd (pollfd y), pevents (pollfd y'))} else watches P r)"
proof -
  have "(fd, ev) \<in> watches (set_ent i y' P) r \<longleftrightarrow> (fd, ev) \<in> (if r = ent_owner y
    then watches P r - {(pfd (pollfd y), pevents (pollfd y))} \<union> {(pfd (pollfd y), pevents (pollfd y'))} else watches P r)" for fd ev
  proof
    assume "(fd, ev) \<in> watches (set_ent i y' P) r"
    then obtain j z where z: "ens (set_ent i y' P) j = Some z" "lru_attached z" "ent_owner z = r"
      "fd = pfd (pollfd z)" "ev = pevents (pollfd z)" by (auto simp: watches_def)
    show "(fd, ev) \<in> (if r = ent_owner y
      then watches P r - {(pfd (pollfd y), pevents (pollfd y))} \<union> {(pfd (pollfd y), pevents (pollfd y'))} else watches P r)"
    proof (cases "j = i")
      case False
      then have "(fd, ev) \<in> watches P r" "\<not> (r = ent_owner y \<and> fd = pfd (pollfd y))"
        using z same_entry [OF P y(1) _ y(2), of j z] by (auto simp: watches_def)
      then show ?thesis by auto
    qed (use z y' in auto)
  next
    assume r: "(fd, ev) \<in> (if r = ent_owner y
      then watches P r - {(pfd (pollfd y), pevents (pollfd y))} \<union> {(pfd (pollfd y), pevents (pollfd y'))} else watches P r)"
    show "(fd, ev) \<in> watches (set_ent i y' P) r"
    proof (cases "r = ent_owner y \<and> fd = pfd (pollfd y) \<and> ev = pevents (pollfd y')")
      case True
      then show ?thesis using y' by (auto simp: watches_def)
    next
      case False
      then have "(fd, ev) \<in> watches P r" "r = ent_owner y \<longrightarrow> (fd, ev) \<noteq> (pfd (pollfd y), pevents (pollfd y))"
        using r by (auto split: if_splits)
      then obtain j z where z: "ens P j = Some z" "lru_attached z" "ent_owner z = r" "fd = pfd (pollfd z)" "ev = pevents (pollfd z)"
        by (auto simp: watches_def)
      then have "j \<noteq> i" using y \<open>r = ent_owner y \<longrightarrow> _\<close> by auto
      with z(1) have "ens (set_ent i y' P) j = Some z" by simp
      then show ?thesis using z(2-5) unfolding watches_def by blast
    qed
  qed
  then show ?thesis by auto
qed

lemma wok_but_ent:
  assumes w: "wok_but a w" and y: "ens (pg w) en = Some y" "slots (xgb w) (nat (pfd (pollfd y))) = Some a"
    and y': "pfd (pollfd y') = pfd (pollfd y)" "link_attached y'" and P: "ens P = ens (pg w)"
  shows "wok_but a (w\<lparr>pg := set_ent en y' P\<rparr>)"
proof -
  note d = wok_butD [OF w]
  have e: "entry_but a (w\<lparr>pg := set_ent en y' P\<rparr>) i z" if z: "ens (set_ent en y' P) i = Some z" for i z
  proof (cases "i = en")
    case True
    with d(5) [OF y(1)] y y' z show ?thesis by (auto simp: entry_but_def)
  next
    case False
    then have "ens (pg w) i = Some z" using z P by simp
    from d(5) [OF this] show ?thesis by (auto simp: entry_but_def)
  qed
  have k: "sock_wok (w\<lparr>pg := set_ent en y' P\<rparr>) b z" if "socks w b = Some z" for b z
    using d(3) [OF that] P by (auto simp: sock_wok_def)
  show ?thesis unfolding wok_but_def
    using d(1,2,6) e k w y'(2) P by (auto simp: wok_but_def slot_wok_def lists_disjoint_def)
qed

text \<open>The entry after a change of its events: the notification that ends it, and the reference given back.\<close>

lemma notify_sock:
  assumes wb: "wok_but a w" and P: "polls_ok g h (pg w)" and x: "has_sock w fd a x" "1 < sb_ref (sock_base x)"
    and g: "\<forall>i. 0 < g i \<longrightarrow> (\<exists>y. ens (pg w) i = Some y \<and> lru_attached y)"
  shows "\<exists>Q. obind (w_emit e a w) (\<lambda>w. xput n e fd w) =
      Some (Ok (set_sock a (set_sock_base ((sock_base x)\<lparr>poll_entries :=
        filter (\<lambda>i. lru_attached (the (ens (pg w) i))) (poll_entries (sock_base x)), sb_ref := sb_ref (sock_base x) - 1\<rparr>) x) (w\<lparr>pg := Q\<rparr>))) \<and>
    polls_ok g h Q \<and> keeps perm_lru h (pg w) Q \<and>
    ens Q = (\<lambda>i. if i \<in> set (poll_entries (sock_base x)) then notified (poll_mask (sock_base x)) (the (ens (pg w) i)) else ens (pg w) i)"
proof -
  have a: "socks w a = Some x" using x by (simp add: has_sock_def)
  have gi: "\<forall>i\<in>set (poll_entries (sock_base x)). lru_attached (the (ens (pg w) i)) \<or> g i = 0"
  proof
    fix i show "lru_attached (the (ens (pg w) i)) \<or> g i = 0" using g [rule_format, of i] by (cases "g i = 0") auto
  qed
  let ?fs = "filter (\<lambda>i. lru_attached (the (ens (pg w) i))) (poll_entries (sock_base x))"
  from w_emit_but [OF wb P a gi, of e] obtain Q where
    Q: "w_emit e a w = Some (Ok (set_sock a (set_sock_base ((sock_base x)\<lparr>poll_entries := ?fs\<rparr>) x) (w\<lparr>pg := Q\<rparr>)))"
      "polls_ok g h Q" "keeps perm_lru h (pg w) Q"
      "ens Q = (\<lambda>i. if i \<in> set (poll_entries (sock_base x)) then notified (poll_mask (sock_base x)) (the (ens (pg w) i)) else ens (pg w) i)"
    by blast
  let ?w = "set_sock a (set_sock_base ((sock_base x)\<lparr>poll_entries := ?fs\<rparr>) x) (w\<lparr>pg := Q\<rparr>)"
  have "has_sock ?w fd a (set_sock_base ((sock_base x)\<lparr>poll_entries := ?fs\<rparr>) x)" using x(1) by (simp add: has_sock_def)
  from xput_near [OF this, of n e] x(2) Q(1)
  have "obind (w_emit e a w) (\<lambda>w. xput n e fd w) = Some (Ok (set_sock a (set_sock_base ((sock_base x)\<lparr>poll_entries := ?fs,
      sb_ref := sb_ref (sock_base x) - 1\<rparr>) x) (w\<lparr>pg := Q\<rparr>)))" by simp
  with Q(2,3,4) show ?thesis by blast
qed

lemma xpoll_mod_ok:
  assumes w: "wok h w" and q: "pls (pg w) p = Some q" and en: "en \<in> set (lru_head q)" "ens (pg w) en = Some y"
    and x: "has_sock w (pfd (pollfd y)) a x" and f: "pfd f = pfd (pollfd y)" "pevents f \<noteq> 0"
  shows "\<exists>Q es. xpoll_mod n e p f w = Some (Ok (Inr (), set_sock a (set_sock_base ((sock_base x)\<lparr>poll_entries := es\<rparr>) x) (w\<lparr>pg := Q\<rparr>))) \<and>
    wok h (set_sock a (set_sock_base ((sock_base x)\<lparr>poll_entries := es\<rparr>) x) (w\<lparr>pg := Q\<rparr>)) \<and> keeps perm_lru h (pg w) Q \<and>
    (\<forall>r. watches Q r = (if r = p then watches (pg w) p - {(pfd f, pevents (pollfd y))} \<union> {(pfd f, pevents f)} else watches (pg w) r))"
proof -
  note d = wokD [OF w] and sx = has_sockD [OF w x]
  define fd where "fd = pfd (pollfd y)"
  define sb where "sb = sock_base x"
  define x1 where "x1 = set_sock_base (sb\<lparr>sb_ref := sb_ref sb + 1\<rparr>) x"
  define y' where "y' = y\<lparr>ent_ref := ent_ref y + 1, pollfd := (pollfd y)\<lparr>pevents := pevents f\<rparr>\<rparr>"
  define P where "P = set_ent en y' (pg w)"
  define w2 where "w2 = (ref_up a x w)\<lparr>pg := P\<rparr>"
  define g where "g = (\<lambda>i. if i = en then 1 else 0 :: nat)"
  have po: "poll_ok h (pg w) p q" by (rule polls_okD(3) [OF d(2) q])
  then have yo: "ent_owner y = p" "lru_attached y" using en by (auto simp: poll_ok_def)
  have ly: "link_attached y" by (rule d(5) [OF en(2)])
  have find: "find_poll_entry p fd (pg w) = Ok (Some en)"
    using find_attached [OF d(2) q en(1)] find_poll_entry_ok [OF d(2) q] en(2) by (simp add: lfd_def fd_def)
  have P: "polls_ok g h P" unfolding P_def
    by (rule set_ent_ok [OF d(2) en(2)]) (use polls_okD(4) [OF d(2) en(2)] f in \<open>auto simp: ent_ok_def y'_def g_def\<close>)
  have sl: "slots (xgb (ref_up a x w)) (nat fd) = Some a" using x by (simp add: has_sock_def ref_up_def fd_def)
  have wb: "wok_but a w2" unfolding w2_def P_def
    by (rule wok_but_ent [OF wok_but [OF evolvesD(1) [OF xget_ok(2) [OF w x]]]])
      (use sl en(2) ly in \<open>simp_all add: ref_up_def y'_def fd_def\<close>)
  have x1: "has_sock w2 fd a x1" "1 < sb_ref (sock_base x1)" "poll_entries (sock_base x1) = poll_entries sb"
    "poll_mask (sock_base x1) = poll_mask sb"
    using x sx by (simp_all add: has_sock_def w2_def ref_up_def x1_def sb_def fd_def)
  have pw: "pg w2 = P" by (simp add: w2_def)
  have gi: "\<forall>i. 0 < g i \<longrightarrow> (\<exists>y. ens (pg w2) i = Some y \<and> lru_attached y)" using yo by (simp add: g_def pw P_def y'_def)
  define fs where "fs = filter (\<lambda>i. lru_attached (the (ens P i))) (poll_entries sb)"
  from notify_sock [OF wb _ x1(1,2) gi, of h e n] obtain Q where
    Q: "obind (w_emit e a w2) (\<lambda>w. xput n e fd w) =
      Some (Ok (set_sock a (set_sock_base ((sock_base x1)\<lparr>poll_entries := fs, sb_ref := sb_ref (sock_base x1) - 1\<rparr>) x1) (w2\<lparr>pg := Q\<rparr>)))"
      "polls_ok g h Q" "keeps perm_lru h P Q"
      "ens Q = (\<lambda>i. if i \<in> set (poll_entries sb) then notified (poll_mask sb) (the (ens P i)) else ens P i)"
    using P unfolding pw x1 fs_def by blast
  have w4: "set_sock a (set_sock_base ((sock_base x1)\<lparr>poll_entries := fs, sb_ref := sb_ref (sock_base x1) - 1\<rparr>) x1) (w2\<lparr>pg := Q\<rparr>)
      = set_sock a (set_sock_base (sb\<lparr>poll_entries := fs\<rparr>) x) (w\<lparr>pg := Q\<rparr>)"
    by (simp add: w2_def x1_def ref_up_def)
  obtain b z where z: "socks w b = Some z" "en \<in> set (poll_entries (sock_base z))" "slots (xgb w) (nat fd) = Some b"
    using d(6) [OF en(2)] by (auto simp: entry_at_def fd_def)
  have en_es: "en \<in> set (poll_entries sb)" using z x by (auto simp: has_sock_def sb_def fd_def)
  define y3 where "y3 = y'\<lparr>pollfd := (pollfd y')\<lparr>happened := poll_mask sb AND pevents f\<rparr>\<rparr>"
  have Qen: "ens Q en = Some y3" using Q(4) en_es yo by (simp add: P_def notified_def y3_def y'_def)
  have ry: "0 < ent_ref y" using polls_okD(4) [OF d(2) en(2)] by (simp add: ent_ok_def)
  from poll_entry_put_ok [OF Q(2) Qen] obtain R where
    R: "poll_entry_put en Q = Ok R" "polls_ok (\<lambda>_. 0) h R" "\<forall>i. i \<noteq> en \<longrightarrow> ens R i = ens Q i" "keeps same_lru h Q R"
      "ens R en = Some (y\<lparr>pollfd := (pollfd y)\<lparr>pevents := pevents f, happened := poll_mask sb AND pevents f\<rparr>\<rparr>)"
    using ry by (auto simp: g_def fun_upd_def y3_def y'_def cong: if_cong)
  define W where "W = w\<lparr>pg := set_ent en (y\<lparr>pollfd := (pollfd y)\<lparr>pevents := pevents f\<rparr>\<rparr>) (pg w)\<rparr>"
  have WW: "wok_but a W" unfolding W_def
    by (rule wok_but_ent [OF wok_but [OF w] en(2)]) (use x ly in \<open>simp_all add: has_sock_def\<close>)
  have eR: "ens R = (\<lambda>i. if i \<in> set (poll_entries (sock_base x)) then notified (poll_mask (sock_base x)) (the (ens (pg W) i)) else ens (pg W) i)"
  proof
    fix i show "ens R i = (if i \<in> set (poll_entries (sock_base x)) then notified (poll_mask (sock_base x)) (the (ens (pg W) i)) else ens (pg W) i)"
      using R(3,5) Q(4) en_es yo by (cases "i = en") (simp_all add: W_def P_def notified_def sb_def)
  qed
  have fW: "filter (\<lambda>i. lru_attached (the (ens (pg W) i))) (poll_entries (sock_base x)) = fs"
    unfolding fs_def sb_def by (rule filter_cong) (auto simp: W_def P_def y'_def)
  have "settled (sock_base x) (sock_base x)" using sx(4) by (simp add: settled_def)
  from notified_wok [OF WW _ this R(2) eR, of "wake w"] sx(1)
  have "wok h (set_sock a (set_sock_base ((sock_base x)\<lparr>poll_entries := fs\<rparr>) x) (W\<lparr>wake := wake w, pg := R\<rparr>))"
    unfolding fW by (simp add: W_def)
  then have fin: "wok h (set_sock a (set_sock_base (sb\<lparr>poll_entries := fs\<rparr>) x) (w\<lparr>pg := R\<rparr>))"
    by (simp add: sb_def W_def)
  have step: "obind (w_emit e a w2) (\<lambda>w. obind (xput n e fd w) k) =
      k (set_sock a (set_sock_base (sb\<lparr>poll_entries := fs\<rparr>) x) (w\<lparr>pg := Q\<rparr>))" for k :: "world \<Rightarrow> (errno + unit) wres"
    using Q(1) [unfolded w4] obind_assoc [of "w_emit e a w2" "\<lambda>w. xput n e fd w" k] by simp
  have "xpoll_mod n e p f w = obind (w_emit e a w2) (\<lambda>w. obind (xput n e fd w) (\<lambda>w.
      obind (Some (poll_entry_put en (pg w))) (\<lambda>P. Some (Ok (Inr (), w\<lparr>pg := P\<rparr>)))))"
    using xget_ok(1) [OF w x] find en(2) f(1) sx(1,2)
    by (simp add: xpoll_mod_def get_poll_entry_def poll_entry_get_def set_pollfd_def ref_up_def fd_def w2_def P_def y'_def)
  then have run: "xpoll_mod n e p f w = Some (Ok (Inr (), set_sock a (set_sock_base (sb\<lparr>poll_entries := fs\<rparr>) x) (w\<lparr>pg := R\<rparr>)))"
    unfolding step using R(1) by simp
  have "keeps perm_lru h (pg w) Q" using Q(3) by (simp add: P_def keeps_def)
  from keeps_trans [OF this R(4)] have k: "keeps perm_lru h (pg w) R" by (simp add: perm_lru_def same_lru_def)
  have "watches R = watches (pg W)"
    by (rule ext, rule watches_notified [OF eR]) (use wok_butD(3) [OF WW, of a x] sx(1) in \<open>auto simp: W_def sock_wok_def\<close>)
  with watches_changed [OF d(2) en(2) yo(2), of "y\<lparr>pollfd := (pollfd y)\<lparr>pevents := pevents f\<rparr>\<rparr>"] yo f(1)
  have wa: "watches R r = (if r = p then watches (pg w) p - {(pfd f, pevents (pollfd y))} \<union> {(pfd f, pevents f)} else watches (pg w) r)" for r
    by (simp add: W_def)
  show ?thesis
    by (insert run fin k wa, unfold sb_def, rule exI [of _ R], rule exI [of _ fs]) simp
qed

section \<open>Adding a descriptor\<close>

lemma watches_ens: "ens P = ens Q \<Longrightarrow> watches P = watches Q"
  by (simp add: watches_def fun_eq_iff)

lemma watches_added:
  assumes "ens P (pnext P) = None"
  shows "watches (add_linked p q f P) r = (if r = p then insert (pfd f, pevents f) (watches P r) else watches P r)"
proof -
  have n: "ens (add_linked p q f P) = (ens P)(pnext P := Some (new_entry p f))"
    by (simp add: add_linked_def fun_eq_iff)
  have "(\<exists>e y. k = (pfd (pollfd y), pevents (pollfd y)) \<and> ens (add_linked p q f P) e = Some y \<and> lru_attached y \<and> ent_owner y = r) \<longleftrightarrow>
      (r = p \<and> k = (pfd f, pevents f)) \<or> (\<exists>e y. k = (pfd (pollfd y), pevents (pollfd y)) \<and> ens P e = Some y \<and> lru_attached y \<and> ent_owner y = r)" for k
  proof
    assume "\<exists>e y. k = (pfd (pollfd y), pevents (pollfd y)) \<and> ens (add_linked p q f P) e = Some y \<and> lru_attached y \<and> ent_owner y = r"
    then show "(r = p \<and> k = (pfd f, pevents f)) \<or> (\<exists>e y. k = (pfd (pollfd y), pevents (pollfd y)) \<and> ens P e = Some y \<and> lru_attached y \<and> ent_owner y = r)"
      unfolding n by (fastforce simp: new_entry_def split: if_splits)
  next
    assume a: "(r = p \<and> k = (pfd f, pevents f)) \<or> (\<exists>e y. k = (pfd (pollfd y), pevents (pollfd y)) \<and> ens P e = Some y \<and> lru_attached y \<and> ent_owner y = r)"
    then show "\<exists>e y. k = (pfd (pollfd y), pevents (pollfd y)) \<and> ens (add_linked p q f P) e = Some y \<and> lru_attached y \<and> ent_owner y = r"
    proof
      assume "r = p \<and> k = (pfd f, pevents f)"
      then show ?thesis by (intro exI [of _ "pnext P"] exI [of _ "new_entry p f"]) (simp add: n new_entry_def)
    next
      have "ens (add_linked p q f P) e = Some y" if "ens P e = Some y" for e y using that assms by (auto simp: n)
      moreover assume "\<exists>e y. k = (pfd (pollfd y), pevents (pollfd y)) \<and> ens P e = Some y \<and> lru_attached y \<and> ent_owner y = r"
      ultimately show ?thesis by blast
    qed
  qed
  then show ?thesis unfolding watches_def by auto
qed

text \<open>A new entry on the list of the socket with its descriptor.\<close>

lemma wok_but_add:
  assumes w: "wok h w" and x: "has_sock w (pfd f) a x" and i: "ens (pg w) i = None" "ens P = (ens (pg w))(i := Some (new_entry p f))"
    and k: "0 < k"
  shows "wok_but a (set_sock a (set_sock_base ((sock_base x)\<lparr>sb_ref := k, poll_entries := poll_entries (sock_base x) @ [i]\<rparr>) x) (w\<lparr>pg := P\<rparr>))"
    (is "wok_but a ?w")
proof -
  note d = wokD [OF w] and sx = has_sockD [OF w x]
  have new: "i \<notin> set (poll_entries (sock_base z))" if "socks w b = Some z" for b z
    using d(4) [OF that] i(1) by (auto simp: sock_wok_def)
  have ns: "set_sock_base s x \<noteq> XSio t" for s t using d(4) [OF sx(1)] by (cases x) (auto simp: sock_wok_def)
  have "sock_wok ?w b z" if "socks ?w b = Some z" for b z
    using that d(4) [of b z] d(4) [OF sx(1)] new [OF sx(1)] i ns by (cases "b = a") (auto simp: sock_wok_def)
  moreover have "slot_wok ?w fd b" if "slots (xgb w) fd = Some b" for fd b
    using d(3) [OF that] sx(1) k by (auto simp: slot_wok_def)
  moreover have "link_attached y \<and> entry_but a ?w e y" if y: "ens P e = Some y" for e y
  proof (cases "e = i")
    case True
    then have "y = new_entry p f" using y i by simp
    then show ?thesis using True x by (auto simp: new_entry_def entry_but_def has_sock_def)
  next
    case False
    then have y0: "ens (pg w) e = Some y" using y i by simp
    from d(6) [OF y0] obtain b z where z: "socks w b = Some z" "e \<in> set (poll_entries (sock_base z))"
      "slots (xgb w) (nat (pfd (pollfd y))) = Some b" "0 \<le> pfd (pollfd y)"
      "lru_attached y \<longrightarrow> happened (pollfd y) = poll_mask (sock_base z) AND pevents (pollfd y)" by (auto simp: entry_at_def)
    then show ?thesis using d(5) [OF y0] sx(1) by (cases "b = a") (auto simp: entry_but_def)
  qed
  moreover have "lists_disjoint ?w"
    using d(8) new sx(1) by (auto simp: lists_disjoint_def)
  ultimately show ?thesis using d(1,7) sx(1) by (auto simp: wok_but_def)
qed

text \<open>\<open>same_id\<close>: a poll set keeps its descriptor and its sleeping users.\<close>

definition same_id :: "xpoll \<Rightarrow> xpoll \<Rightarrow> bool" where
  "same_id q q' \<longleftrightarrow> poll_id q' = poll_id q \<and> uwaiters q' = uwaiters q"

lemma same_id_perm: "perm_lru q q' \<Longrightarrow> same_id q q'"
  by (simp add: perm_lru_def same_id_def)

lemma same_id_lru: "same_lru q q' \<Longrightarrow> same_id q q'"
  by (simp add: same_lru_def same_id_def)

lemma xpoll_add_ok:
  assumes w: "wok h w" and q: "pls (pg w) p = Some q" and x: "has_sock w (pfd f) a x"
    and f: "find (fd_match (pg w) (pfd f)) (lru_head q) = None" "pevents f \<noteq> 0" "happened f = 0" and e: "poll_mem e"
  shows "\<exists>Q es. xpoll_add n e p f w = Some (Ok (Inr (), set_sock a (set_sock_base ((sock_base x)\<lparr>poll_entries := es\<rparr>) x) (w\<lparr>pg := Q\<rparr>))) \<and>
    wok h (set_sock a (set_sock_base ((sock_base x)\<lparr>poll_entries := es\<rparr>) x) (w\<lparr>pg := Q\<rparr>)) \<and> keeps same_id h (pg w) Q \<and>
    (\<forall>r. watches Q r = (if r = p then insert (pfd f, pevents f) (watches (pg w) p) else watches (pg w) r))"
proof -
  note d = wokD [OF w] and sx = has_sockD [OF w x]
  define i where "i = pnext (pg w)"
  define P where "P = add_linked p q f (pg w)"
  define sb where "sb = sock_base x"
  define x2 where "x2 = set_sock_base (sb\<lparr>sb_ref := sb_ref sb + 1, poll_entries := poll_entries sb @ [i]\<rparr>) x"
  define w2 where "w2 = set_sock a x2 (w\<lparr>pg := P\<rparr>)"
  have fresh: "ens (pg w) i = None" using polls_okD(5) [OF d(2), of i] by (simp add: i_def)
  have fd: "0 \<le> pfd f" using x by (simp add: has_sock_def)
  have po: "polls_ok (\<lambda>_. 0) h P" unfolding P_def
    by (rule add_linked_ok [OF d(2) q f(2,3) _ f(1)]) (use fd in \<open>auto simp: XPOLL_HEADFD_def\<close>)
  have eP: "ens P = (ens (pg w))(i := Some (new_entry p f))" by (simp add: P_def add_linked_def i_def fun_eq_iff)
  have wb: "wok_but a w2" unfolding w2_def x2_def sb_def
    by (rule wok_but_add [OF w x fresh eP]) (use sx(3) in simp)
  have x2: "has_sock w2 (pfd f) a x2" "1 < sb_ref (sock_base x2)" using x sx(3) by (auto simp: w2_def x2_def has_sock_def sb_def)
  have pw: "pg w2 = P" by (simp add: w2_def)
  have bx2: "poll_entries (sock_base x2) = poll_entries sb @ [i]" "poll_mask (sock_base x2) = poll_mask sb" by (simp_all add: x2_def)
  define fs where "fs = filter (\<lambda>i. lru_attached (the (ens P i))) (poll_entries sb @ [i])"
  from notify_sock [OF wb _ x2, of "\<lambda>_. 0" h e n] obtain Q where
    Q: "obind (w_emit e a w2) (\<lambda>w. xput n e (pfd f) w) =
      Some (Ok (set_sock a (set_sock_base ((sock_base x2)\<lparr>poll_entries := fs, sb_ref := sb_ref (sock_base x2) - 1\<rparr>) x2) (w2\<lparr>pg := Q\<rparr>)))"
      "polls_ok (\<lambda>_. 0) h Q" "keeps perm_lru h P Q"
      "ens Q = (\<lambda>j. if j \<in> set (poll_entries sb @ [i]) then notified (poll_mask sb) (the (ens P j)) else ens P j)"
    using po unfolding pw bx2 fs_def by auto
  have w4: "set_sock a (set_sock_base ((sock_base x2)\<lparr>poll_entries := fs, sb_ref := sb_ref (sock_base x2) - 1\<rparr>) x2) (w2\<lparr>pg := Q\<rparr>)
      = set_sock a (set_sock_base (sb\<lparr>poll_entries := fs\<rparr>) x) (w\<lparr>pg := Q\<rparr>)"
    by (simp add: w2_def x2_def)
  define y where "y = set_sock_base (sb\<lparr>sb_ref := sb_ref sb, poll_entries := poll_entries sb @ [i]\<rparr>) x"
  define W where "W = set_sock a y (w\<lparr>pg := P\<rparr>)"
  have WW: "wok_but a W" unfolding W_def y_def sb_def by (rule wok_but_add [OF w x fresh eP]) (use sx(3) in simp)
  have y: "socks W a = Some y" "poll_entries (sock_base y) = poll_entries sb @ [i]" "poll_mask (sock_base y) = poll_mask sb"
    by (simp_all add: W_def y_def)
  have st: "settled (sock_base y) (sock_base y)" using sx(4) by (simp add: settled_def y_def sb_def)
  have pW: "pg W = P" by (simp add: W_def)
  have fin: "wok h (set_sock a (set_sock_base (sb\<lparr>poll_entries := fs\<rparr>) x) (w\<lparr>pg := Q\<rparr>))"
    using notified_wok [OF WW y(1) st Q(2), of "wake w", unfolded y(2,3) pW, folded fs_def, OF Q(4)]
    by (simp add: y_def W_def)
  have step: "obind (w_emit e a w2) (\<lambda>w. obind (xput n e (pfd f) w) k) =
      k (set_sock a (set_sock_base (sb\<lparr>poll_entries := fs\<rparr>) x) (w\<lparr>pg := Q\<rparr>))" for k :: "world \<Rightarrow> (errno + unit) wres"
    using Q(1) [unfolded w4] obind_assoc [of "w_emit e a w2" "\<lambda>w. xput n e (pfd f) w" k] by simp
  define P2 where "P2 = set_poll p (q\<lparr>poll_ref := poll_ref q + 1, poll_size := poll_size q + 1, lru_head := lru_head q @ [i]\<rparr>)
      (set_ent i ((new_entry p \<lparr>pfd = pfd f, phndl = 0, pevents = 0, happened = 0\<rparr>)\<lparr>link_attached := False\<rparr>) (pg w\<lparr>pnext := i + 1\<rparr>))"
  have add: "add_poll_entry (poll_mem e) p (pfd f) (pg w) = Ok (Inr i, P2)"
    using find_poll_entry_ok [OF d(2) q, of "pfd f"] f e q
    by (simp add: add_poll_entry_def poll_entry_alloc_def P2_def i_def new_entry_def)
  have P3: "set_pollfd i f P2 = Ok (set_ent i ((new_entry p f)\<lparr>link_attached := False\<rparr>) P2)"
    by (simp add: set_pollfd_def P2_def new_entry_def)
  have fin2: "set_ent i (new_entry p f) (set_ent i ((new_entry p f)\<lparr>link_attached := False\<rparr>) P2) = P"
    by (simp add: P2_def P_def add_linked_def i_def set_ent_set_poll)
  let ?w = "(ref_up a x w)\<lparr>pg := set_ent i ((new_entry p f)\<lparr>link_attached := False\<rparr>) P2\<rparr>"
  have link: "link_pollbase n e (pfd f) i ?w = Some (Ok (Inr (), w2))"
    using x sx(1,3) fin2
    by (simp add: link_pollbase_def xget_def ref_up_def has_sock_def upd_sock_set add_pollbase_def xput_by_def unref_def
        Let_def w2_def x2_def sb_def new_entry_def P2_def entries_ref add.commute)
  have run: "xpoll_add n e p f w = obind (w_emit e a w2) (\<lambda>w. obind (xput n e (pfd f) w) (\<lambda>w. Some (Ok (Inr (), w))))"
    using xget_ok(1) [OF w x] sx(1,2) add P3 link
    by (simp add: xpoll_add_def ref_up_def)
  have "keeps same_id h (pg w) P" using q by (auto simp: P_def add_linked_def keeps_def same_id_def)
  from keeps_trans [OF this Q(3), of same_id] have k: "keeps same_id h (pg w) Q" by (simp add: perm_lru_def same_id_def)
  have "watches Q = watches P" using watches_notified [OF Q(4)] wok_butD(3) [OF WW y(1)] y(2)
    by (fastforce simp: W_def sock_wok_def)
  with watches_added [OF fresh [unfolded i_def]]
  have wa: "watches Q r = (if r = p then insert (pfd f, pevents f) (watches (pg w) p) else watches (pg w) r)" for r
    by (simp add: P_def)
  show ?thesis
    by (insert run [unfolded step] fin k wa, unfold sb_def, rule exI [of _ Q], rule exI [of _ fs]) simp
qed

section \<open>What a control call does\<close>

lemma find_watch:
  assumes P: "polls_ok g h P" and q: "pls P p = Some q" and fd: "fd \<noteq> XPOLL_HEADFD"
  shows "case find (fd_match P fd) (lru_head q) of
      None \<Rightarrow> \<forall>ev. (fd, ev) \<notin> watches P p
    | Some i \<Rightarrow> i \<in> set (lru_head q) \<and> (\<exists>y. ens P i = Some y \<and> pfd (pollfd y) = fd \<and> lru_attached y \<and> ent_owner y = p \<and>
        (\<forall>ev. (fd, ev) \<in> watches P p \<longleftrightarrow> ev = pevents (pollfd y)))"
proof (cases "find (fd_match P fd) (lru_head q)")
  case None
  have "(fd, ev) \<notin> watches P p" for ev
  proof
    assume "(fd, ev) \<in> watches P p"
    then obtain i y where y: "ens P i = Some y" "pfd (pollfd y) = fd" "lru_attached y" "ent_owner y = p" by (auto simp: watches_def)
    then have "i \<in> set (lru_head q)" using polls_okD(4) [OF P y(1)] q by (auto simp: ent_ok_def)
    with None y show False by (auto simp: find_None_iff fd_match_def)
  qed
  with None show ?thesis by simp
next
  case (Some i)
  then have i: "i \<in> set (lru_head q)" "fd_match P fd i" by (auto simp: find_Some_iff)
  then obtain y where y: "ens P i = Some y" "ent_owner y = p" "lru_attached y"
    using polls_okD(3) [OF P q] by (auto simp: poll_ok_def)
  have f: "pfd (pollfd y) = fd" using i(2) y fd by (simp add: fd_match_def)
  have u: "ev = pevents (pollfd y)" if "(fd, ev) \<in> watches P p" for ev
  proof -
    from that obtain j z where z: "ens P j = Some z" "lru_attached z" "ent_owner z = p" "pfd (pollfd z) = fd" "ev = pevents (pollfd z)"
      by (auto simp: watches_def)
    have "i = j" by (rule same_entry [OF P y(1) z(1)]) (use y z f in simp_all)
    then show ?thesis using y z by simp
  qed
  have "(fd, pevents (pollfd y)) \<in> watches P p" unfolding watches_def using y f by blast
  with u have "\<forall>ev. (fd, ev) \<in> watches P p \<longleftrightarrow> ev = pevents (pollfd y)" by blast
  then show ?thesis using i(1) y f unfolding Some option.case by blast
qed

text \<open>A call that changes no socket but for the entries on it, and no poll set's descriptor.\<close>

definition relisted :: "world \<Rightarrow> world \<Rightarrow> bool" where
  "relisted w w' \<longleftrightarrow> (\<exists>l. socks w' = (\<lambda>a. map_option (\<lambda>x. set_sock_base ((sock_base x)\<lparr>poll_entries := l a\<rparr>) x) (socks w a)))"

definition moved :: "(nat \<Rightarrow> nat) \<Rightarrow> world \<Rightarrow> world \<Rightarrow> bool" where
  "moved h w w' \<longleftrightarrow> wok h w' \<and> same_rest w w' \<and> relisted w w' \<and> keeps same_id h (pg w) (pg w')"

lemma relisted_same: "socks w' = socks w \<Longrightarrow> relisted w w'"
proof -
  have "set_sock_base (sock_base x) x = x" for x by (cases x) simp_all
  then have "map_option (\<lambda>x. set_sock_base ((sock_base x)\<lparr>poll_entries := poll_entries (sock_base (the (socks w a)))\<rparr>) x) (socks w a) = socks w a" for a
    by (cases "socks w a") simp_all
  then show "socks w' = socks w \<Longrightarrow> relisted w w'" unfolding relisted_def
    by (intro exI [of _ "\<lambda>a. poll_entries (sock_base (the (socks w a)))"]) simp
qed

lemma relisted_one:
  assumes "socks w a = Some x" "socks w' = (socks w)(a := Some (set_sock_base ((sock_base x)\<lparr>poll_entries := es\<rparr>) x))"
  shows "relisted w w'"
proof -
  have "set_sock_base (sock_base x) x = x" for x by (cases x) simp_all
  then have "map_option (\<lambda>x. set_sock_base ((sock_base x)\<lparr>poll_entries := if b = a then es else poll_entries (sock_base (the (socks w b)))\<rparr>) x) (socks w b)
      = socks w' b" for b
    using assms by (cases "socks w b") auto
  then show ?thesis unfolding relisted_def
    by (intro exI [of _ "\<lambda>b. if b = a then es else poll_entries (sock_base (the (socks w b)))"]) (simp add: fun_eq_iff)
qed

lemma movedI:
  assumes x: "socks w a = Some x" and w: "w' = set_sock a (set_sock_base ((sock_base x)\<lparr>poll_entries := es\<rparr>) x) (w\<lparr>pg := Q\<rparr>)"
    "wok h w'" "keeps same_id h (pg w) Q"
  shows "moved h w w'"
proof -
  have "relisted w w'" by (rule relisted_one [OF x]) (use w in simp)
  then show ?thesis using w by (simp add: moved_def same_rest_def)
qed

lemma moved_pg:
  assumes "wok h w" "polls_ok (\<lambda>_. 0) h' P" "ens P = ens (pg w)" "keeps same_id h' (pg w) P"
  shows "moved h' w (w\<lparr>pg := P\<rparr>)"
  using wok_pg [OF assms(1-3)] relisted_same [of "w\<lparr>pg := P\<rparr>" w] assms(4) by (simp add: moved_def same_rest_def)

lemma moved_has:
  "moved h w w' \<Longrightarrow> has_sock w fd a x \<Longrightarrow> \<exists>es. has_sock w' fd a (set_sock_base ((sock_base x)\<lparr>poll_entries := es\<rparr>) x)"
  by (auto simp: moved_def relisted_def same_rest_def has_sock_def)

lemma relisted_trans: "relisted w w' \<Longrightarrow> relisted w' w'' \<Longrightarrow> relisted w w''"
  unfolding relisted_def by (auto simp: option.map_comp comp_def intro: exI)

lemma moved_trans: "moved h w w' \<Longrightarrow> moved h w' w'' \<Longrightarrow> moved h w w''"
  unfolding moved_def by (auto simp: same_id_def intro: same_rest_trans keeps_trans relisted_trans)

text \<open>What is watched after a call on \<open>fd\<close>, which is open or not, and what the call answers.\<close>

definition ctl_spec :: "bool \<Rightarrow> int \<Rightarrow> int \<Rightarrow> u32 \<Rightarrow> (int \<times> u32) set \<Rightarrow> (errno + unit) \<times> (int \<times> u32) set" where
  "ctl_spec opn op fd ev W =
     (if op = XPOLL_ADD
      then if \<not> opn then (Inl EBADF, W) else if fd \<in> fst ` W then (Inl EEXIST, W) else (Inr (), insert (fd, ev) W)
      else if op = XPOLL_MOD
      then if \<not> opn then (Inl EBADF, W) else if fd \<notin> fst ` W then (Inl ENOENT, W)
           else (Inr (), insert (fd, ev) {k \<in> W. fst k \<noteq> fd})
      else if op = XPOLL_DEL
      then if fd \<in> fst ` W then (Inr (), {k \<in> W. fst k \<noteq> fd}) else (Inl ENOENT, W)
      else (Inl EINVAL, W))"

definition ctl_body :: "nat \<Rightarrow> env \<Rightarrow> int \<Rightarrow> nat \<Rightarrow> poll_fd \<Rightarrow> world \<Rightarrow> (errno + unit) wres" where
  "ctl_body n e op p f w =
     (if op = XPOLL_ADD then xpoll_add n e p f w
      else if op = XPOLL_MOD then xpoll_mod n e p f w
      else if op = XPOLL_DEL
      then Some (cbind (rm_poll_entry p (pfd f) (pg w)) (\<lambda>(ok, P). Ok (if ok then Inr () else Inl ENOENT, w\<lparr>pg := P\<rparr>)))
      else Some (Ok (Inl EINVAL, w)))"

definition ctl_does :: "(nat \<Rightarrow> nat) \<Rightarrow> nat \<Rightarrow> world \<Rightarrow> (errno + unit) \<times> (int \<times> u32) set \<Rightarrow> (errno + unit) wres \<Rightarrow> bool" where
  "ctl_does h p w S r \<longleftrightarrow> (\<exists>a w'. r = Some (Ok (a, w')) \<and> moved h w w' \<and> (a, watches (pg w') p) = S \<and>
     (\<forall>i. i \<noteq> p \<longrightarrow> watches (pg w') i = watches (pg w) i))"

lemma ctl_doesI:
  "r = Some (Ok (a, w')) \<Longrightarrow> moved h w w' \<Longrightarrow> (a, watches (pg w') p) = S \<Longrightarrow>
    (\<And>i. i \<noteq> p \<Longrightarrow> watches (pg w') i = watches (pg w) i) \<Longrightarrow> ctl_does h p w S r"
  unfolding ctl_does_def by blast

lemma moved_refl: "wok h w \<Longrightarrow> moved h w w"
  using relisted_same [of w w] by (simp add: moved_def same_id_def)

lemma ops_differ [simp]: "XPOLL_MOD \<noteq> XPOLL_ADD" "XPOLL_DEL \<noteq> XPOLL_ADD" "XPOLL_DEL \<noteq> XPOLL_MOD"
  by (simp_all add: XPOLL_ADD_def XPOLL_MOD_def XPOLL_DEL_def)

lemma wok_detach:
  assumes w: "wok h w" and i: "ens (pg w) i = Some y" and P: "polls_ok (\<lambda>_. 0) h P" "ens P = (ens (pg w))(i := Some (y\<lparr>lru_attached := False, ent_ref := k\<rparr>))"
  shows "wok h (w\<lparr>pg := P\<rparr>)"
proof -
  note d = wokD [OF w]
  have "link_attached z \<and> entry_at (w\<lparr>pg := P\<rparr>) j z" if "ens P j = Some z" for j z
    using that d(5) [OF i] d(6) [OF i] d(5) [of j z] d(6) [of j z] P(2) by (cases "j = i") (auto simp: entry_at_def)
  moreover have "sock_wok (w\<lparr>pg := P\<rparr>) b z" if "socks w b = Some z" for b z
    using d(4) [OF that] P(2) by (auto simp: sock_wok_def)
  moreover have "slot_wok (w\<lparr>pg := P\<rparr>) fd b" if "slots (xgb w) fd = Some b" for fd b
    using d(3) [OF that] by (simp add: slot_wok_def)
  ultimately show ?thesis using w P(1) by (simp add: wok_def lists_disjoint_def)
qed

lemma watches_detached:
  assumes P: "polls_ok g h P" and y: "ens P i = Some y" "lru_attached y"
    and R: "ens R = (ens P)(i := Some (y\<lparr>lru_attached := False, ent_ref := k\<rparr>))"
  shows "watches R r = (if r = ent_owner y then {k \<in> watches P r. fst k \<noteq> pfd (pollfd y)} else watches P r)"
proof -
  have "(\<exists>j z. x = (pfd (pollfd z), pevents (pollfd z)) \<and> ens R j = Some z \<and> lru_attached z \<and> ent_owner z = r) \<longleftrightarrow>
      (\<exists>j z. x = (pfd (pollfd z), pevents (pollfd z)) \<and> ens P j = Some z \<and> lru_attached z \<and> ent_owner z = r) \<and>
        (r = ent_owner y \<longrightarrow> fst x \<noteq> pfd (pollfd y))" (is "?l \<longleftrightarrow> ?r") for x
  proof
    assume ?l
    then obtain j z where z: "x = (pfd (pollfd z), pevents (pollfd z))" "ens R j = Some z" "lru_attached z" "ent_owner z = r" by blast
    then have j: "j \<noteq> i" "ens P j = Some z" by (auto simp: R split: if_splits)
    have "r = ent_owner y \<longrightarrow> fst x \<noteq> pfd (pollfd y)" using same_entry [OF P y(1) j(2) y(2) z(3)] j(1) z(1,4) by auto
    with z j show ?r by blast
  next
    assume ?r
    then obtain j z where z: "x = (pfd (pollfd z), pevents (pollfd z))" "ens P j = Some z" "lru_attached z" "ent_owner z = r"
      "r = ent_owner y \<longrightarrow> fst x \<noteq> pfd (pollfd y)" by blast
    then have "j \<noteq> i" using y by auto
    then have "ens R j = Some z" using z(2) by (simp add: R)
    with z show ?l by blast
  qed
  then show ?thesis unfolding watches_def by auto
qed

lemma xpoll_del_body:
  assumes w: "wok h w" and q: "pls (pg w) p = Some q" "0 < h p" and fd: "0 \<le> pfd f"
  shows "ctl_does h p w (ctl_spec opn XPOLL_DEL (pfd f) ev (watches (pg w) p)) (ctl_body n e XPOLL_DEL p f w)"
proof -
  note d = wokD [OF w]
  have ne: "pfd f \<noteq> XPOLL_HEADFD" using fd by (simp add: XPOLL_HEADFD_def)
  note fw = find_watch [OF d(2) q(1) ne] and rm = rm_poll_entry_ok [OF d(2) q, of "pfd f"]
  show ?thesis
  proof (cases "find (fd_match (pg w) (pfd f)) (lru_head q)")
    case None
    then have "pfd f \<notin> fst ` watches (pg w) p" using fw by auto
    then show ?thesis using rm None
      by (intro ctl_doesI [OF _ moved_refl [OF w]]) (simp_all add: ctl_body_def ctl_spec_def)
  next
    case (Some i)
    with fw obtain y where y: "ens (pg w) i = Some y" "pfd (pollfd y) = pfd f" "lru_attached y" "ent_owner y = p"
      "(pfd f, pevents (pollfd y)) \<in> watches (pg w) p" by auto
    have "ent_ref y = 2" using polls_okD(4) [OF d(2) y(1)] d(5) [OF y(1)] y(3) by (simp add: ent_ok_def)
    with Some rm y(1) obtain P where P: "rm_poll_entry p (pfd f) (pg w) = Ok (True, P)" "polls_ok (\<lambda>_. 0) h P"
      "\<forall>j. j \<noteq> i \<longrightarrow> ens P j = ens (pg w) j" "ens P i = Some (y\<lparr>lru_attached := False, ent_ref := ent_ref y - 1\<rparr>)"
      "keeps same_lru h (set_poll p (q\<lparr>lru_head := remove1 i (lru_head q)\<rparr>) (pg w)) P"
      by auto
    have eP: "ens P = (ens (pg w))(i := Some (y\<lparr>lru_attached := False, ent_ref := ent_ref y - 1\<rparr>))"
      using P(3,4) by (auto simp: fun_eq_iff)
    have "keeps same_id h (pg w) (set_poll p (q\<lparr>lru_head := remove1 i (lru_head q)\<rparr>) (pg w))"
      using q(1) by (auto simp: keeps_def same_id_def)
    from keeps_trans [OF this P(5), of same_id] have "keeps same_id h (pg w) P" by (simp add: same_id_def same_lru_def)
    then have mv: "moved h w (w\<lparr>pg := P\<rparr>)" using wok_detach [OF w y(1) P(2) eP] relisted_same [of "w\<lparr>pg := P\<rparr>" w]
      by (simp add: moved_def same_rest_def)
    have "pfd f \<in> fst ` watches (pg w) p" using y(5) by force
    with P(1) watches_detached [OF d(2) y(1,3) eP] y(2,4) show ?thesis
      by (intro ctl_doesI [OF _ mv]) (simp_all add: ctl_body_def ctl_spec_def)
  qed
qed

lemma xpoll_add_body:
  assumes w: "wok h w" and q: "pls (pg w) p = Some q" and fd: "0 \<le> pfd f" "pfd f < int PROXYIO_MAX_SOCKS"
    and f: "pevents f \<noteq> 0" "happened f = 0" and e: "poll_mem e" and opn: "opn \<longleftrightarrow> slots (xgb w) (nat (pfd f)) \<noteq> None"
  shows "ctl_does h p w (ctl_spec opn XPOLL_ADD (pfd f) (pevents f) (watches (pg w) p)) (ctl_body n e XPOLL_ADD p f w)"
proof -
  note d = wokD [OF w]
  have ne: "pfd f \<noteq> XPOLL_HEADFD" using fd by (simp add: XPOLL_HEADFD_def)
  note fw = find_watch [OF d(2) q ne]
  show ?thesis
  proof (cases "slots (xgb w) (nat (pfd f))")
    case None
    then show ?thesis using fd opn
      by (intro ctl_doesI [OF _ moved_refl [OF w]]) (simp_all add: ctl_body_def ctl_spec_def xpoll_add_def xget_none)
  next
    case (Some a)
    then obtain x where x: "has_sock w (pfd f) a x" using d(3) [OF Some] fd by (auto simp: has_sock_def slot_wok_def)
    note sx = has_sockD [OF w x]
    show ?thesis
    proof (cases "find (fd_match (pg w) (pfd f)) (lru_head q)")
      case None
      then have "pfd f \<notin> fst ` watches (pg w) p" using fw by auto
      then have spec: "ctl_spec opn XPOLL_ADD (pfd f) (pevents f) (watches (pg w) p) = (Inr (), insert (pfd f, pevents f) (watches (pg w) p))"
        using Some opn by (simp add: ctl_spec_def)
      from xpoll_add_ok [OF w q x None f e, of n] obtain Q es where
        Q: "xpoll_add n e p f w = Some (Ok (Inr (), set_sock a (set_sock_base ((sock_base x)\<lparr>poll_entries := es\<rparr>) x) (w\<lparr>pg := Q\<rparr>)))"
          "wok h (set_sock a (set_sock_base ((sock_base x)\<lparr>poll_entries := es\<rparr>) x) (w\<lparr>pg := Q\<rparr>))" "keeps same_id h (pg w) Q"
          "\<forall>r. watches Q r = (if r = p then insert (pfd f, pevents f) (watches (pg w) p) else watches (pg w) r)" by blast
      show ?thesis
        by (rule ctl_doesI [OF _ movedI [OF sx(1) HOL.refl Q(2,3)]]) (use Q(1,4) in \<open>simp_all add: spec ctl_body_def\<close>)
    next
      case (Some i)
      with fw have "pfd f \<in> fst ` watches (pg w) p" by force
      then have spec: "ctl_spec opn XPOLL_ADD (pfd f) (pevents f) (watches (pg w) p) = (Inl EEXIST, watches (pg w) p)"
        using \<open>slots _ _ = Some a\<close> opn by (simp add: ctl_spec_def)
      have add: "add_poll_entry (poll_mem e) p (pfd f) (pg w) = Ok (Inl EEXIST, pg w)"
        using find_poll_entry_ok [OF d(2) q, of "pfd f"] Some by (simp add: add_poll_entry_def)
      have "xput n e (pfd f) (ref_up a x w) = Some (Ok w)"
        using xput_near [OF xget_ok(3) [OF w x], of n e] sx by (simp add: ref_up_def set_sock_same)
      then have "xpoll_add n e p f w = Some (Ok (Inl EEXIST, w))"
        using xget_ok(1) [OF w x] sx(1,2) add by (simp add: xpoll_add_def ref_up_def)
      then show ?thesis
        by (intro ctl_doesI [OF _ moved_refl [OF w]]) (simp_all add: spec ctl_body_def)
    qed
  qed
qed

lemma xpoll_mod_body:
  assumes w: "wok h w" and q: "pls (pg w) p = Some q" and fd: "0 \<le> pfd f" "pfd f < int PROXYIO_MAX_SOCKS"
    and f: "pevents f \<noteq> 0" and opn: "opn \<longleftrightarrow> slots (xgb w) (nat (pfd f)) \<noteq> None"
  shows "ctl_does h p w (ctl_spec opn XPOLL_MOD (pfd f) (pevents f) (watches (pg w) p)) (ctl_body n e XPOLL_MOD p f w)"
proof -
  note d = wokD [OF w]
  have ne: "pfd f \<noteq> XPOLL_HEADFD" using fd by (simp add: XPOLL_HEADFD_def)
  note fw = find_watch [OF d(2) q ne]
  have body: "ctl_body n e XPOLL_MOD p f w = xpoll_mod n e p f w" by (simp add: ctl_body_def)
  show ?thesis
  proof (cases "slots (xgb w) (nat (pfd f))")
    case None
    then show ?thesis using fd opn
      by (intro ctl_doesI [OF _ moved_refl [OF w]]) (simp_all add: body ctl_spec_def xpoll_mod_def xget_none)
  next
    case (Some a)
    then obtain x where x: "has_sock w (pfd f) a x" using d(3) [OF Some] fd by (auto simp: has_sock_def slot_wok_def)
    note sx = has_sockD [OF w x]
    show ?thesis
    proof (cases "find (fd_match (pg w) (pfd f)) (lru_head q)")
      case None
      then have "pfd f \<notin> fst ` watches (pg w) p" using fw by auto
      then have spec: "ctl_spec opn XPOLL_MOD (pfd f) (pevents f) (watches (pg w) p) = (Inl ENOENT, watches (pg w) p)"
        using Some opn by (simp add: ctl_spec_def)
      have get: "get_poll_entry p (pfd f) (pg w) = Ok (None, pg w)"
        using find_poll_entry_ok [OF d(2) q, of "pfd f"] None by (simp add: get_poll_entry_def)
      have "xput n e (pfd f) (ref_up a x w) = Some (Ok w)"
        using xput_near [OF xget_ok(3) [OF w x], of n e] sx by (simp add: ref_up_def set_sock_same)
      then have "xpoll_mod n e p f w = Some (Ok (Inl ENOENT, w))"
        using xget_ok(1) [OF w x] sx(1,2) get by (simp add: xpoll_mod_def ref_up_def)
      then show ?thesis
        by (intro ctl_doesI [OF _ moved_refl [OF w]]) (simp_all add: spec body)
    next
      case (Some i)
      with fw obtain y where y: "i \<in> set (lru_head q)" "ens (pg w) i = Some y" "pfd (pollfd y) = pfd f"
        "\<forall>ev. (pfd f, ev) \<in> watches (pg w) p \<longleftrightarrow> ev = pevents (pollfd y)" unfolding Some option.case by blast
      then have "pfd f \<in> fst ` watches (pg w) p" by (metis fst_conv imageI)
      moreover have "{k \<in> watches (pg w) p. fst k \<noteq> pfd f} = watches (pg w) p - {(pfd f, pevents (pollfd y))}"
      proof (rule set_eqI)
        show "k \<in> {k \<in> watches (pg w) p. fst k \<noteq> pfd f} \<longleftrightarrow> k \<in> watches (pg w) p - {(pfd f, pevents (pollfd y))}" for k
          using y(4) by (cases k) fastforce
      qed
      ultimately have spec: "ctl_spec opn XPOLL_MOD (pfd f) (pevents f) (watches (pg w) p) =
          (Inr (), watches (pg w) p - {(pfd f, pevents (pollfd y))} \<union> {(pfd f, pevents f)})"
        using \<open>slots _ _ = Some a\<close> opn by (simp add: ctl_spec_def)
      have x': "has_sock w (pfd (pollfd y)) a x" using x y(3) by simp
      from xpoll_mod_ok [OF w q y(1,2) x' y(3) [symmetric] f, of n e] obtain Q es where
        Q: "xpoll_mod n e p f w = Some (Ok (Inr (), set_sock a (set_sock_base ((sock_base x)\<lparr>poll_entries := es\<rparr>) x) (w\<lparr>pg := Q\<rparr>)))"
          "wok h (set_sock a (set_sock_base ((sock_base x)\<lparr>poll_entries := es\<rparr>) x) (w\<lparr>pg := Q\<rparr>))" "keeps perm_lru h (pg w) Q"
          "\<forall>r. watches Q r = (if r = p then watches (pg w) p - {(pfd f, pevents (pollfd y))} \<union> {(pfd f, pevents f)} else watches (pg w) r)"
        by blast
      show ?thesis
        by (rule ctl_doesI [OF _ movedI [OF sx(1) HOL.refl Q(2) keeps_mono [OF Q(3) same_id_perm]]])
          (use Q(1,4) in \<open>simp_all add: spec body\<close>)
    qed
  qed
qed

text \<open>The call, between taking and giving back the poll set.\<close>

lemma xpoll_ctl_ok:
  assumes w: "wok h w" and q: "pls (pg w) p = Some q" "0 < h p" and fd: "0 \<le> pfd f" "pfd f < int PROXYIO_MAX_SOCKS"
    and f: "pevents f \<noteq> 0" "op = XPOLL_ADD \<Longrightarrow> happened f = 0" and e: "op = XPOLL_ADD \<Longrightarrow> poll_mem e"
  shows "ctl_does h p w (ctl_spec (slots (xgb w) (nat (pfd f)) \<noteq> None) op (pfd f) (pevents f) (watches (pg w) p))
    (xpoll_ctl n e (int (poll_id q)) op f w)"
proof -
  note d = wokD [OF w]
  define q1 where "q1 = q\<lparr>poll_ref := poll_ref q + 1\<rparr>"
  define w1 where "w1 = w\<lparr>pg := set_poll p q1 (pg w)\<rparr>"
  define h1 where "h1 = h(p := h p + 1)"
  define opn where "opn \<longleftrightarrow> slots (xgb w) (nat (pfd f)) \<noteq> None"
  note g = poll_get_ok [OF d(2) q(1), folded q1_def]
  have h1: "h1(p := h1 p - 1) = h" by (auto simp: h1_def)
  have w1: "wok h1 w1" "pls (pg w1) p = Some q1" "0 < h1 p"
    using wok_pg [OF w g(2)] by (simp_all add: w1_def h1_def)
  have wa1: "watches (pg w1) = watches (pg w)" by (rule watches_ens) (simp add: w1_def)
  have o1: "opn \<longleftrightarrow> slots (xgb w1) (nat (pfd f)) \<noteq> None" by (simp add: w1_def opn_def)
  have "ctl_does h1 p w1 (ctl_spec opn op (pfd f) (pevents f) (watches (pg w1) p)) (ctl_body n e op p f w1)"
  proof -
    consider "op = XPOLL_ADD" | "op = XPOLL_MOD" | "op = XPOLL_DEL" | "op \<notin> {XPOLL_ADD, XPOLL_MOD, XPOLL_DEL}" by auto
    then show ?thesis
    proof cases
      case 1
      show ?thesis unfolding 1 by (rule xpoll_add_body [OF w1(1,2) fd f(1) f(2) [OF 1] e [OF 1] o1])
    next
      case 2
      show ?thesis unfolding 2 by (rule xpoll_mod_body [OF w1(1,2) fd f(1) o1])
    next
      case 3
      show ?thesis unfolding 3 by (rule xpoll_del_body [OF w1 fd(1)])
    next
      case 4
      then show ?thesis by (intro ctl_doesI [OF _ moved_refl [OF w1(1)]]) (simp_all add: ctl_body_def ctl_spec_def)
    qed
  qed
  then obtain r w2 where w2: "ctl_body n e op p f w1 = Some (Ok (r, w2))" "moved h1 w1 w2"
    "(r, watches (pg w2) p) = ctl_spec opn op (pfd f) (pevents f) (watches (pg w) p)"
    "\<And>i. i \<noteq> p \<Longrightarrow> watches (pg w2) i = watches (pg w) i" unfolding ctl_does_def wa1 by blast
  have k2: "keeps same_id h1 (pg w1) (pg w2)" and ok2: "wok h1 w2" using w2(2) by (simp_all add: moved_def)
  from keepsD [OF k2 w1(2,3)] obtain q2 where q2: "pls (pg w2) p = Some q2" "poll_id q2 = poll_id q" "uwaiters q2 = uwaiters q"
    by (auto simp: same_id_def q1_def)
  from poll_put_ok [OF wokD(2) [OF ok2] q2(1) w1(3), unfolded h1 q2(2)] obtain P where
    P: "poll_put (poll_id q) (pg w2) = Ok P" "polls_ok (\<lambda>_. 0) h P" "ens P = ens (pg w2)"
      "\<And>b. b \<noteq> p \<Longrightarrow> pls P b = pls (pg w2) b"
      "pls P p = (if poll_ref q2 = 1 then None else Some (q2\<lparr>poll_ref := poll_ref q2 - 1\<rparr>))" by auto
  have "poll_ok h1 (pg w2) p q2" by (rule polls_okD(3) [OF wokD(2) [OF ok2] q2(1)])
  then have "poll_ref q2 \<noteq> 1" using q(2) by (simp add: poll_ok_def h1_def)
  then have "keeps same_id h (pg w2) P" using P(4,5) q2(1) unfolding keeps_def same_id_def
    by (intro allI impI) (rename_tac b z, case_tac "b = p", auto)
  moreover have "wok h (w2\<lparr>pg := P\<rparr>)" by (rule wok_pg [OF ok2 P(2,3)])
  moreover have "keeps same_id h (pg w) (pg w2)" unfolding keeps_def
  proof (intro allI impI)
    fix b z
    assume z: "pls (pg w) b = Some z \<and> 0 < h b"
    show "\<exists>z'. pls (pg w2) b = Some z' \<and> same_id z z'"
    proof (cases "b = p")
      case True
      then show ?thesis using z q q2 by (simp add: same_id_def)
    next
      case False
      then show ?thesis using z keepsD [OF k2, of b z] by (simp add: w1_def h1_def)
    qed
  qed
  ultimately have "moved h w (w2\<lparr>pg := P\<rparr>)"
    using w2(2) unfolding moved_def
    by (auto simp: w1_def same_rest_def relisted_def same_id_def intro: keeps_trans)
  moreover have "xpoll_ctl n e (int (poll_id q)) op f w = Some (Ok (r, w2\<lparr>pg := P\<rparr>))"
    using g(1) w2(1) P(1) by (simp add: xpoll_ctl_def ctl_body_def w1_def Let_def)
  moreover have "watches P = watches (pg w2)" by (rule watches_ens) (rule P(3))
  ultimately show ?thesis using w2(3,4) unfolding opn_def
    by (intro ctl_doesI [where a = r and w' = "w2\<lparr>pg := P\<rparr>"]) simp_all
qed

section \<open>Waiting\<close>

lemma happening_events:
  assumes w: "wok h w" and q: "pls (pg w) p = Some q"
  shows "(\<lambda>f. (pfd f, happened f)) ` set (happening (pg w) q) =
    {(fd, v). \<exists>ev a x. (fd, ev) \<in> watches (pg w) p \<and> slots (xgb w) (nat fd) = Some a \<and> socks w a = Some x \<and>
       v = poll_mask (sock_base x) AND ev \<and> v \<noteq> 0}" (is "?l = ?r")
proof (rule set_eqI)
  note d = wokD [OF w]
  note hs = happening_set [OF d(2) q]
  have at: "\<exists>a x. slots (xgb w) (nat (pfd (pollfd y))) = Some a \<and> socks w a = Some x \<and>
      happened (pollfd y) = poll_mask (sock_base x) AND pevents (pollfd y)" if "ens (pg w) i = Some y" "lru_attached y" for i y
    using d(6) [OF that(1)] that(2) by (auto simp: entry_at_def)
  fix k :: "int \<times> u32"
  obtain fd v where k: "k = (fd, v)" by (cases k)
  show "k \<in> ?l \<longleftrightarrow> k \<in> ?r"
  proof
    assume "k \<in> ?l"
    then obtain i y where y: "ens (pg w) i = Some y" "ent_owner y = p" "lru_attached y" "happened (pollfd y) \<noteq> 0"
      "fd = pfd (pollfd y)" "v = happened (pollfd y)" unfolding hs k by auto
    moreover have "(fd, pevents (pollfd y)) \<in> watches (pg w) p" unfolding watches_def using y by blast
    ultimately show "k \<in> ?r" using at [OF y(1,3)] unfolding k by auto
  next
    assume "k \<in> ?r"
    then obtain ev a x i y where x: "slots (xgb w) (nat fd) = Some a" "socks w a = Some x" "v = poll_mask (sock_base x) AND ev" "v \<noteq> 0"
      and y: "ens (pg w) i = Some y" "ent_owner y = p" "lru_attached y" "fd = pfd (pollfd y)" "ev = pevents (pollfd y)"
      unfolding k watches_def by auto
    with at [OF y(1,3)] have v: "v = happened (pollfd y)" by auto
    with x(4) y have "pollfd y \<in> set (happening (pg w) q)" unfolding hs by blast
    then show "k \<in> ?l" using y(4) v k by force
  qed
qed

lemma lru_watches:
  assumes P: "polls_ok g h P" and q: "pls P p = Some q"
  shows "lru_head q = [] \<longleftrightarrow> watches P p = {}"
proof
  assume "lru_head q = []"
  moreover have "i \<in> set (lru_head q)" if "ens P i = Some y" "lru_attached y" "ent_owner y = p" for i y
    using polls_okD(4) [OF P that(1)] that q by (auto simp: ent_ok_def)
  ultimately show "watches P p = {}" by (auto simp: watches_def)
next
  assume e: "watches P p = {}"
  have "\<exists>y. ens P i = Some y \<and> lru_attached y \<and> ent_owner y = p" if "i \<in> set (lru_head q)" for i
    using polls_okD(3) [OF P q] that by (auto simp: poll_ok_def)
  then show "lru_head q = []" using e by (cases "lru_head q") (auto simp: watches_def)
qed

section \<open>A channel and a poll set\<close>

text \<open>Uses of the two ends of a channel and of a poll set; \<open>PRecv\<close> is a new call of \<open>xrecv\<close>, \<open>PWake\<close> lets a caller that
  sleeps in one go on, woken or spuriously; \<open>PCtl op s ev\<close> is \<open>xpoll_ctl\<close> on the end \<open>s\<close>, \<open>PWait\<close> is
  \<open>xpoll_wait\<close> with no timeout.\<close>

datatype poll_op = PSend bool msgbuf | PRecv bool | PWake bool | PCtl int bool u32 | PWait
datatype poll_ans = PSent | PGot "(errno + msgbuf) wait" | PDone "errno + unit" | PReady "(int \<times> u32) set"

definition end_fd :: "int \<Rightarrow> int \<Rightarrow> bool \<Rightarrow> int" where
  "end_fd fa fb s = (if s then fb else fa)"

fun poll_step :: "nat \<Rightarrow> env \<Rightarrow> int \<Rightarrow> int \<Rightarrow> int \<Rightarrow> poll_op \<Rightarrow> world \<Rightarrow> poll_ans wres" where
  "poll_step n e fa fb pi (PSend s m) w =
     obind (xsend False n e (end_fd fa fb s) m w) (\<lambda>(r, w). if r = Done (Inr ()) then Some (Ok (PSent, w)) else Some Undef)"
| "poll_step n e fa fb pi (PRecv s) w =
     obind (xrecv False n e (end_fd fa fb s) w) (\<lambda>(r, w). Some (Ok (PGot r, w)))"
| "poll_step n e fa fb pi (PWake s) w =
     obind (xrecv True n e (end_fd fa fb s) w) (\<lambda>(r, w). Some (Ok (PGot r, w)))"
| "poll_step n e fa fb pi (PCtl op s ev) w =
     obind (xpoll_ctl n e pi op \<lparr>pfd = end_fd fa fb s, phndl = 0, pevents = ev, happened = 0\<rparr> w) (\<lambda>(r, w).
       Some (Ok (PDone r, w)))"
| "poll_step n e fa fb pi PWait w =
     obind (Some (xpoll_wait False pi 2 0 (pg w))) (\<lambda>(r, P).
       case r of Done (Inr fs) \<Rightarrow> Some (Ok (PReady ((\<lambda>f. (pfd f, happened f)) ` set fs), w\<lparr>pg := P\<rparr>)) | _ \<Rightarrow> Some Undef)"

fun run_poll :: "nat \<Rightarrow> env \<Rightarrow> int \<Rightarrow> int \<Rightarrow> int \<Rightarrow> poll_op list \<Rightarrow> world \<Rightarrow> poll_ans list wres" where
  "run_poll n e fa fb pi [] w = Some (Ok ([], w))"
| "run_poll n e fa fb pi (p # ops) w =
     obind (poll_step n e fa fb pi p w) (\<lambda>(a, w). obind (run_poll n e fa fb pi ops w) (\<lambda>(as, w). Some (Ok (a # as, w))))"

text \<open>What they promise: a queue and a number of sleepers for each end, and the events each end is watched for. An end is ready to
  be read while its queue is not empty; \<open>wr s\<close> says if it can be written. Watching for no events, and
  waiting on a set that watches nothing, are not uses.\<close>

definition end_mask :: "(bool \<Rightarrow> bool) \<Rightarrow> (bool \<Rightarrow> msgbuf list) \<Rightarrow> bool \<Rightarrow> u32" where
  "end_mask wr q s = (if q s \<noteq> [] then XPOLLIN else 0) OR (if wr s then XPOLLOUT else 0)"

definition ctl_abs :: "int \<Rightarrow> bool \<Rightarrow> u32 \<Rightarrow> (bool \<Rightarrow> u32 option) \<Rightarrow> (errno + unit) \<times> (bool \<Rightarrow> u32 option)" where
  "ctl_abs op s ev W =
     (if op = XPOLL_ADD then if W s \<noteq> None then (Inl EEXIST, W) else (Inr (), W(s := Some ev))
      else if op = XPOLL_MOD then if W s = None then (Inl ENOENT, W) else (Inr (), W(s := Some ev))
      else if op = XPOLL_DEL then if W s = None then (Inl ENOENT, W) else (Inr (), W(s := None))
      else (Inl EINVAL, W))"

fun abs_poll :: "int \<Rightarrow> int \<Rightarrow> (bool \<Rightarrow> bool) \<Rightarrow> (bool \<Rightarrow> bool) \<Rightarrow> poll_op list \<Rightarrow> (bool \<Rightarrow> msgbuf list) \<Rightarrow> (bool \<Rightarrow> nat) \<Rightarrow>
    (bool \<Rightarrow> u32 option) \<Rightarrow> poll_ans list option" where
  "abs_poll fa fb nb wr [] q z W = Some []"
| "abs_poll fa fb nb wr (PSend s m # ops) q z W =
     map_option (\<lambda>as. PSent # as) (abs_poll fa fb nb wr ops (q((\<not> s) := q (\<not> s) @ [m])) z W)"
| "abs_poll fa fb nb wr (PRecv s # ops) q z W =
     (let r = got (nb s) (q s)
      in map_option (\<lambda>as. PGot r # as) (abs_poll fa fb nb wr ops (q(s := tl (q s))) (z(s := z s + of_bool (r = Blocked))) W))"
| "abs_poll fa fb nb wr (PWake s # ops) q z W =
     (let r = got (nb s) (q s)
      in if z s = 0 then None
         else map_option (\<lambda>as. PGot r # as)
                (abs_poll fa fb nb wr ops (q(s := tl (q s))) (z(s := z s - 1 + of_bool (r = Blocked))) W))"
| "abs_poll fa fb nb wr (PCtl op s ev # ops) q z W =
     (if ev = 0 then None
      else case ctl_abs op s ev W of (r, W) \<Rightarrow> map_option (\<lambda>as. PDone r # as) (abs_poll fa fb nb wr ops q z W))"
| "abs_poll fa fb nb wr (PWait # ops) q z W =
     (if W False = None \<and> W True = None then None
      else map_option (\<lambda>as. PReady {(end_fd fa fb s, v) | s ev v. W s = Some ev \<and> v = end_mask wr q s AND ev \<and> v \<noteq> 0} # as)
             (abs_poll fa fb nb wr ops q z W))"

definition watch_set :: "int \<Rightarrow> int \<Rightarrow> (bool \<Rightarrow> u32 option) \<Rightarrow> (int \<times> u32) set" where
  "watch_set fa fb W = {(end_fd fa fb s, ev) | s ev. W s = Some ev}"

definition polled :: "(nat \<Rightarrow> nat) \<Rightarrow> nat \<Rightarrow> int \<Rightarrow> int \<Rightarrow> int \<Rightarrow> (bool \<Rightarrow> bool) \<Rightarrow> (bool \<Rightarrow> bool) \<Rightarrow> (bool \<Rightarrow> msgbuf list) \<Rightarrow>
    (bool \<Rightarrow> u32 option) \<Rightarrow> world \<Rightarrow> bool" where
  "polled h p pi fa fb nb wr q W w \<longleftrightarrow> wok h w \<and> joined w fa fb q nb \<and> (\<forall>s. writable w (end_fd fa fb s) = wr s) \<and> 0 < h p \<and>
     (\<exists>z. pls (pg w) p = Some z \<and> pi = int (poll_id z)) \<and> watches (pg w) p = watch_set fa fb W"

lemmas chan_recv_end = chan_recv [folded end_fd_def] and chan_send_end = chan_send [folded end_fd_def]

lemma joined_ends:
  assumes "joined w fa fb q nb"
  obtains a x where "has_sock w (end_fd fa fb s) a x" "readable (sock_base x) \<longleftrightarrow> q s \<noteq> []" "\<not> epipe (sock_base x)"
proof (rule joinedE [OF assms])
  fix a b sa sb ra rb
  assume p: "has_sock w fa a (XInproc sa ra (Some b))" "has_sock w fb b (XInproc sb rb (Some a))" "vfp sa = InprocConnector"
    "vfp sb = InprocConnector" "\<not> epipe sa" "\<not> epipe sb" "q False = bh_msgs (rcv sa)" "q True = bh_msgs (rcv sb)"
  show ?thesis
  proof (cases s)
    case True
    then show ?thesis using that [of b "XInproc sb rb (Some a)"] p by (simp add: end_fd_def readable_def)
  next
    case False
    then show ?thesis using that [of a "XInproc sa ra (Some b)"] p by (simp add: end_fd_def readable_def)
  qed
qed

lemma joined_distinct: "joined w fa fb q nb \<Longrightarrow> fa \<noteq> fb"
  by (auto simp: joined_def has_sock_def)

lemma end_fd_inj: "fa \<noteq> fb \<Longrightarrow> end_fd fa fb s = end_fd fa fb t \<longleftrightarrow> s = t"
  by (cases s; cases t) (simp_all add: end_fd_def)

lemma end_mask_sock:
  assumes "polled h p pi fa fb nb wr q W w" "slots (xgb w) (nat (end_fd fa fb s)) = Some a" "socks w a = Some x"
  shows "poll_mask (sock_base x) = end_mask wr q s"
proof -
  have j: "joined w fa fb q nb" "writable w (end_fd fa fb s) = wr s" using assms(1) by (auto simp: polled_def)
  obtain b y where y: "has_sock w (end_fd fa fb s) b y" "readable (sock_base y) \<longleftrightarrow> q s \<noteq> []" "\<not> epipe (sock_base y)"
    using joined_ends [OF j(1)] .
  with assms(2,3) have "b = a" "y = x" by (auto simp: has_sock_def)
  moreover have "msgbuf_can_in (snd (sock_base x)) = wr s" using j(2) assms(2,3) by (simp add: writable_def)
  ultimately show ?thesis using y(2,3) by (simp add: poll_mask_def end_mask_def)
qed

lemma moved_joined:
  assumes m: "moved h w w'" and j: "joined w fa fb q nb"
  shows "joined w' fa fb q nb" "writable w' = writable w"
proof -
  show "joined w' fa fb q nb"
  proof (rule joinedE [OF j])
    fix a b sa sb ra rb
    assume p: "a \<noteq> b" "has_sock w fa a (XInproc sa ra (Some b))" "has_sock w fb b (XInproc sb rb (Some a))"
      "vfp sa = InprocConnector" "vfp sb = InprocConnector" "\<not> epipe sa" "\<not> epipe sb" "q False = bh_msgs (rcv sa)"
      "q True = bh_msgs (rcv sb)" "nb False = non_block sa" "nb True = non_block sb"
    from moved_has [OF m p(2)] moved_has [OF m p(3)] obtain es fs where
      "has_sock w' fa a (XInproc (sa\<lparr>poll_entries := es\<rparr>) ra (Some b))" "has_sock w' fb b (XInproc (sb\<lparr>poll_entries := fs\<rparr>) rb (Some a))"
      by auto
    then show ?thesis by (rule joinedI [OF p(1)]) (use p in simp_all)
  qed
  show "writable w' = writable w" unfolding writable_def fun_eq_iff
    using m by (auto simp: moved_def relisted_def same_rest_def)
qed

lemma moved_dozing: "moved h w w' \<Longrightarrow> dozing w fd k \<Longrightarrow> dozing w' fd k"
proof -
  assume m: "moved h w w'" and "dozing w fd k"
  then obtain a x where x: "has_sock w fd a x" "waiters (rcv (sock_base x)) = of_nat k" "int k < sb_ref (sock_base x)"
    by (auto simp: dozing_def)
  from moved_has [OF m x(1)] obtain es where y: "has_sock w' fd a (set_sock_base ((sock_base x)\<lparr>poll_entries := es\<rparr>) x)" by blast
  then show ?thesis using x(2,3) by (simp add: dozing_iff [OF y])
qed

lemma ctl_abs_spec:
  assumes "fa \<noteq> fb" "ctl_spec True op (end_fd fa fb s) ev (watch_set fa fb W) = (r, V)"
  shows "\<exists>W'. ctl_abs op s ev W = (r, W') \<and> V = watch_set fa fb W'"
proof -
  have i: "end_fd fa fb s \<in> fst ` watch_set fa fb W \<longleftrightarrow> W s \<noteq> None"
    using end_fd_inj [OF assms(1)] by (auto simp: watch_set_def image_iff)
  have drop: "{k \<in> watch_set fa fb W. fst k \<noteq> end_fd fa fb s} = watch_set fa fb (W(s := None))"
    using end_fd_inj [OF assms(1)] by (auto simp: watch_set_def)
  have add: "insert (end_fd fa fb s, ev) (watch_set fa fb (W(s := None))) = watch_set fa fb (W(s := Some ev))"
    using end_fd_inj [OF assms(1)] by (auto simp: watch_set_def)
  have new: "insert (end_fd fa fb s, ev) (watch_set fa fb W) = watch_set fa fb (W(s := Some ev))" if "W s = None"
    using add that by (simp add: fun_upd_idem)
  note spec = assms(2) [unfolded ctl_spec_def i drop add]
  consider "op = XPOLL_ADD" | "op = XPOLL_MOD" | "op = XPOLL_DEL" | "op \<notin> {XPOLL_ADD, XPOLL_MOD, XPOLL_DEL}" by auto
  then show ?thesis
    by cases (use spec new in \<open>auto simp: ctl_abs_def split: if_splits\<close>)
qed

lemma polled_step:
  assumes "polled h p pi fa fb nb wr q W w" "writable w' = writable w" "evolves h w w'" "joined w' fa fb q' nb"
  shows "polled h p pi fa fb nb wr q' W w'"
proof -
  from assms(1) obtain z where z: "pls (pg w) p = Some z" "pi = int (poll_id z)" "0 < h p" by (auto simp: polled_def)
  have "keeps perm_lru h (pg w) (pg w')" using assms(3) by (simp add: evolves_def)
  from keepsD [OF this z(1,3)] z(2) have "\<exists>z. pls (pg w') p = Some z \<and> pi = int (poll_id z)" by (auto simp: perm_lru_def)
  then show ?thesis using assms evolvesD(1,4) [OF assms(3)] by (simp add: polled_def)
qed

lemma polled_ctl:
  assumes P: "polled h p pi fa fb nb wr q W w" and e: "poll_mem e" and ev: "ev \<noteq> 0"
  shows "\<exists>r W' w'. ctl_abs op s ev W = (r, W') \<and> poll_step n e fa fb pi (PCtl op s ev) w = Some (Ok (PDone r, w')) \<and>
    polled h p pi fa fb nb wr q W' w' \<and> (\<forall>fd k. dozing w fd k \<longrightarrow> dozing w' fd k)"
proof -
  from P obtain z where z: "pls (pg w) p = Some z" "pi = int (poll_id z)" "0 < h p" and w: "wok h w" and j: "joined w fa fb q nb"
    and wa: "watches (pg w) p = watch_set fa fb W" and wr: "\<And>s. writable w (end_fd fa fb s) = wr s" by (auto simp: polled_def)
  obtain a x where x: "has_sock w (end_fd fa fb s) a x" using joined_ends [OF j] .
  let ?f = "\<lparr>pfd = end_fd fa fb s, phndl = 0, pevents = ev, happened = 0\<rparr>"
  have fd: "0 \<le> pfd ?f" "pfd ?f < int PROXYIO_MAX_SOCKS" "pevents ?f \<noteq> 0" "happened ?f = 0" using x ev by (auto simp: has_sock_def)
  have opn: "(slots (xgb w) (nat (pfd ?f)) \<noteq> None) = True" using x by (simp add: has_sock_def)
  from xpoll_ctl_ok [OF w z(1,3) fd(1-4) e, of op n, folded z(2)] obtain r w' where
    r: "xpoll_ctl n e pi op ?f w = Some (Ok (r, w'))" "moved h w w'"
      "(r, watches (pg w') p) = ctl_spec True op (end_fd fa fb s) ev (watch_set fa fb W)"
    unfolding ctl_does_def opn wa by auto
  from ctl_abs_spec [OF joined_distinct [OF j] r(3) [symmetric]] obtain W' where
    W': "ctl_abs op s ev W = (r, W')" "watches (pg w') p = watch_set fa fb W'" by blast
  have "keeps same_id h (pg w) (pg w')" using r(2) by (simp add: moved_def)
  from keepsD [OF this z(1,3)] z(2) have "\<exists>z. pls (pg w') p = Some z \<and> pi = int (poll_id z)" by (auto simp: same_id_def)
  then have "polled h p pi fa fb nb wr q W' w'"
    using moved_joined [OF r(2) j] W'(2) wr z(3) r(2) by (simp add: polled_def moved_def)
  with r(1) W'(1) moved_dozing [OF r(2)] show ?thesis by simp
qed

lemma polled_wait:
  assumes P: "polled h p pi fa fb nb wr q W w" and ne: "\<not> (W False = None \<and> W True = None)"
  shows "poll_step n e fa fb pi PWait w =
    Some (Ok (PReady {(end_fd fa fb s, v) | s ev v. W s = Some ev \<and> v = end_mask wr q s AND ev \<and> v \<noteq> 0}, w))"
proof -
  from P obtain z where z: "pls (pg w) p = Some z" "pi = int (poll_id z)" "0 < h p" and w: "wok h w" and j: "joined w fa fb q nb"
    and wa: "watches (pg w) p = watch_set fa fb W" by (auto simp: polled_def)
  note d = wokD [OF w]
  obtain s ev where "W s = Some ev" using ne by (cases "W False"; cases "W True") auto
  then have "(end_fd fa fb s, ev) \<in> watches (pg w) p" unfolding wa watch_set_def by blast
  then have l: "lru_head z \<noteq> []" using lru_watches [OF d(2) z(1)] by auto
  let ?H = "happening (pg w) z"
  have hs: "(\<lambda>f. (pfd f, happened f)) ` set ?H = {(end_fd fa fb s, v) | s ev v. W s = Some ev \<and> v = end_mask wr q s AND ev \<and> v \<noteq> 0}"
    (is "_ = ?R")
  proof (rule set_eqI)
    fix k :: "int \<times> u32"
    obtain fd v where k: "k = (fd, v)" by (cases k)
    show "k \<in> (\<lambda>f. (pfd f, happened f)) ` set ?H \<longleftrightarrow> k \<in> ?R"
      unfolding happening_events [OF w z(1)] wa k
    proof
      assume "(fd, v) \<in> {(fd, v). \<exists>ev a x. (fd, ev) \<in> watch_set fa fb W \<and> slots (xgb w) (nat fd) = Some a \<and>
        socks w a = Some x \<and> v = poll_mask (sock_base x) AND ev \<and> v \<noteq> 0}"
      then obtain ev a x s where "fd = end_fd fa fb s" "W s = Some ev" "slots (xgb w) (nat fd) = Some a"
        "socks w a = Some x" "v = poll_mask (sock_base x) AND ev" "v \<noteq> 0" by (auto simp: watch_set_def)
      then show "(fd, v) \<in> ?R" using end_mask_sock [OF P, of s a x] by auto
    next
      assume "(fd, v) \<in> ?R"
      then obtain s ev where s: "fd = end_fd fa fb s" "W s = Some ev" "v = end_mask wr q s AND ev" "v \<noteq> 0" by auto
      obtain a x where x: "has_sock w fd a x" using joined_ends [OF j, of s] s(1) by blast
      then have "poll_mask (sock_base x) = end_mask wr q s"
        using end_mask_sock [OF P, of s a x] s(1) by (simp add: has_sock_def)
      then show "(fd, v) \<in> {(fd, v). \<exists>ev a x. (fd, ev) \<in> watch_set fa fb W \<and> slots (xgb w) (nat fd) = Some a \<and>
        socks w a = Some x \<and> v = poll_mask (sock_base x) AND ev \<and> v \<noteq> 0}"
        using x s by (auto simp: has_sock_def watch_set_def)
    qed
  qed
  have "pfd ` set ?H = fst ` ((\<lambda>f. (pfd f, happened f)) ` set ?H)" by force
  also have "\<dots> \<subseteq> {fa, fb}" unfolding hs by (auto simp: end_fd_def)
  finally have sub: "pfd ` set ?H \<subseteq> {fa, fb}" .
  have "distinct (map (lfd (pg w)) (lru_head z))" using polls_okD(3) [OF d(2) z(1)] by (simp add: poll_ok_def)
  then have dist: "distinct (map pfd ?H)"
    by (auto simp: happening_def comp_def lfd_def [symmetric] distinct_map intro: inj_on_subset)
  have "length ?H = card (pfd ` set ?H)" using distinct_card [OF dist] by simp
  also have "\<dots> \<le> card {fa, fb}" by (rule card_mono [OF _ sub]) simp
  also have "\<dots> \<le> 2" by (simp add: card_insert_if)
  finally have t: "take 2 ?H = ?H" by simp
  have "xpoll_wait False pi 2 0 (pg w) = Ok (Done (Inr ?H), pg w)"
    using xpoll_wait_ok [OF d(2) z(1) l, of 2 0] t by (simp add: z(2))
  then show ?thesis by (simp add: hs)
qed

section \<open>Properties\<close>

text \<open>C4. A poll set over the two ends of an in-process connection is level-triggered and exact. Take any run of sends and
  receives at either end, of callers that sleep in a receive and go on, woken or spuriously, of calls of \<open>xpoll_ctl\<close> on either
  end, with any operation but for at least one event, and of calls of \<open>xpoll_wait\<close>, with no timeout and room for two, each of
  them made while the set has an entry; memory is there for the entries. Then each wait reports exactly the watched ends for
  which a watched event holds at that moment (for reading: a message is waiting), with those events: nothing is lost and nothing
  stays reported after it was received. A control call fails just when it adds an end that is in the set, with
  \<open>EEXIST\<close>, changes or removes one that is not, with \<open>ENOENT\<close>, or asks for an operation there is not, with \<open>EINVAL\<close>;
  sends and receives go on as if nobody watched. The two uses left out are flaws of the code: an entry for no events
  makes the next notification abort, and a wait on a set without entries reads the head of the list as one.\<close>

theorem poll_set_level_triggered:
  assumes "polled h p pi fa fb nb wr q W w" "\<forall>s. dozing w (end_fd fa fb s) (z s)" "poll_mem e"
    and "abs_poll fa fb nb wr ops q z W = Some as"
  shows "\<exists>w'. run_poll n e fa fb pi ops w = Some (Ok (as, w')) \<and> wok h w'"
  using assms(1,2,4)
proof (induction ops arbitrary: w q z W as)
  case Nil
  then show ?case by (simp add: polled_def)
next
  case (Cons o1 ops)
  have c: "chan h w fa fb q nb z" using Cons.prems(1,2) by (simp add: polled_def chan_def end_fd_def)
  have dz: "\<forall>s. dozing w' (end_fd fa fb s) (z' s)" "joined w' fa fb q' nb" if "chan h w' fa fb q' nb z'" for w' q' z'
    using that by (simp_all add: chan_def end_fd_def)
  have recv: "\<exists>w' w''. xrecv resumed n e (end_fd fa fb s) w = Some (Ok (got (nb s) (q s), w')) \<and>
      run_poll n e fa fb pi ops w' = Some (Ok (bs, w'')) \<and> wok h w''"
    if bs: "abs_poll fa fb nb wr ops (q(s := tl (q s))) (z(s := z s - of_bool resumed + of_bool (got (nb s) (q s) = Blocked))) W = Some bs"
      and r: "resumed \<longrightarrow> 0 < z s" for resumed s bs
  proof -
    from chan_recv_end [OF c r, of n e] obtain w' where
      w': "xrecv resumed n e (end_fd fa fb s) w = Some (Ok (got (nb s) (q s), w'))" "evolves h w w'" "writable w' = writable w"
        "chan h w' fa fb (q(s := tl (q s))) nb (z(s := z s - of_bool resumed + of_bool (got (nb s) (q s) = Blocked)))" by blast
    from Cons.IH [OF polled_step [OF Cons.prems(1) w'(3,2) dz(2) [OF w'(4)]] dz(1) [OF w'(4)] bs] w'(1) show ?thesis by blast
  qed
  show ?case
  proof (cases o1)
    case (PSend s m)
    with Cons.prems(3) obtain bs where bs: "abs_poll fa fb nb wr ops (q((\<not> s) := q (\<not> s) @ [m])) z W = Some bs" "as = PSent # bs" by auto
    from chan_send_end [OF c, of n e s m] obtain w' where
      w': "xsend False n e (end_fd fa fb s) m w = Some (Ok (Done (Inr ()), w'))" "evolves h w w'" "writable w' = writable w"
        "chan h w' fa fb (q((\<not> s) := q (\<not> s) @ [m])) nb z" by blast
    from Cons.IH [OF polled_step [OF Cons.prems(1) w'(3,2) dz(2) [OF w'(4)]] dz(1) [OF w'(4)] bs(1)] w'(1) bs(2) PSend
    show ?thesis by auto
  next
    case (PRecv s)
    with Cons.prems(3) recv [of s False] show ?thesis by (auto simp: Let_def simp del: fun_upd_apply)
  next
    case (PWake s)
    with Cons.prems(3) recv [of s True] show ?thesis by (auto simp: Let_def split: if_splits simp del: fun_upd_apply)
  next
    case (PCtl op s ev)
    with Cons.prems(3) have ev: "ev \<noteq> 0" by (auto split: if_splits)
    from polled_ctl [OF Cons.prems(1) assms(3) ev, of op s n] obtain r V w' where
      V: "ctl_abs op s ev W = (r, V)" "poll_step n e fa fb pi (PCtl op s ev) w = Some (Ok (PDone r, w'))"
        "polled h p pi fa fb nb wr q V w'" "\<forall>fd k. dozing w fd k \<longrightarrow> dozing w' fd k" by blast
    from Cons.prems(3) PCtl ev V(1) obtain bs where bs: "abs_poll fa fb nb wr ops q z V = Some bs" "as = PDone r # bs" by auto
    have "\<forall>t. dozing w' (end_fd fa fb t) (z t)" using Cons.prems(2) V(4) by blast
    from Cons.IH [OF V(3) this bs(1)] V(2) bs(2) PCtl show ?thesis by (auto simp del: poll_step.simps)
  next
    case PWait
    with Cons.prems(3) obtain bs where ne: "\<not> (W False = None \<and> W True = None)" and bs: "abs_poll fa fb nb wr ops q z W = Some bs"
      "as = PReady {(end_fd fa fb s, v) | s ev v. W s = Some ev \<and> v = end_mask wr q s AND ev \<and> v \<noteq> 0} # bs"
      by (auto split: if_splits)
    from Cons.IH [OF Cons.prems(1,2) bs(1)] polled_wait [OF Cons.prems(1) ne, of n e] bs(2) PWait
    show ?thesis by (auto simp del: poll_step.simps)
  qed
qed

text \<open>The witness makes a poll set and a connection, watches one end for reading, sends and receives; then a receiver
  falls asleep, a message comes, and the end is ready until the receiver has gone on and taken it.\<close>

definition poll_ops1 :: "poll_op list" where
  "poll_ops1 = [PCtl XPOLL_ADD True XPOLLIN, PWait, PSend False (msg0 [7]), PWait, PRecv True, PWait,
     PRecv True, PSend False (msg0 [8]), PWait, PWake True, PWait, PCtl XPOLL_ADD True XPOLLERR, PCtl XPOLL_DEL False XPOLLIN]"

lemma joined_polled:
  assumes "wok h w" "joined w fa fb q nb" "0 < h p" "pls (pg w) p = Some z" "watches (pg w) p = {}"
  shows "polled h p (int (poll_id z)) fa fb nb (\<lambda>s. writable w (end_fd fa fb s)) q (\<lambda>_. None) w"
  using assms by (auto simp: polled_def watch_set_def)

lemma poll_set_up1:
  "\<exists>i P w0 fl cfd afd w1 w2 w3 h p. xpoll_create True poll_init = Ok (i, P) \<and> w0 = socket_init evset1 (kern0 [])\<lparr>pg := P\<rparr> \<and>
    xlisten 1 env1 ''inproc://a'' w0 = Some (Ok (Inr fl, w1)) \<and> xconnect 0 env1 ''inproc://a'' w1 = Some (Ok (Inr cfd, w2)) \<and>
    xaccept False 0 env1 (int fl) w2 = Some (Ok (Done (Inr (int afd)), w3)) \<and>
    polled h p (int i) (int cfd) (int afd) (\<lambda>_. False) (\<lambda>s. writable w3 (end_fd (int cfd) (int afd) s)) (\<lambda>_. []) (\<lambda>_. None) w3 \<and>
    (\<forall>s. dozing w3 (end_fd (int cfd) (int afd) s) 0)"
proof -
  have "card (live (pg_table poll_init)) < PROXYIO_MAX_POLLS" by (simp add: poll_init_def PROXYIO_MAX_POLLS_def)
  from xpoll_create_ok [OF polls_ok_init this] obtain i P where
    P: "xpoll_create True poll_init = Ok (i, P)" "polls_ok (\<lambda>_. 0) ((\<lambda>_. 0)(pnext poll_init := 1)) P" "ens P = ens poll_init"
      "pls P (pnext poll_init) = Some \<lparr>poll_id = i, poll_ref = 1, uwaiters = 0, poll_size = 0,
         shutdown_state = False, lru_head = []\<rparr>" (is "pls P ?p = Some ?z") by blast
  let ?h = "(\<lambda>_. 0)(?p := 1) :: nat \<Rightarrow> nat"
  define w0 where "w0 = socket_init evset1 (kern0 [])\<lparr>pg := P\<rparr>"
  have pg0: "pg (socket_init evset1 (kern0 [])) = poll_init" by (simp add: socket_init_def)
  have ok0: "wok ?h w0" unfolding w0_def by (rule wok_pg [OF socket_init_ok(1) P(2)]) (simp add: pg0 P(3))
  have r0: "registered w0 RLeaf" "live (xgb w0) = {}"
    using registered_cong [OF socket_init_ok(2) [of evset1 "kern0 []"], of w0] socket_init_ok(3) [of evset1 "kern0 []"]
    by (simp_all add: w0_def)
  have free: "listener_at w0 RLeaf ''a'' = None" by (simp add: str_map_of_def)
  from channel_set_up_polls [OF ok0 r0(1) free _ env1_simps(1,3), of 0] r0(2) obtain fl cfd afd w1 w2 w3 where
    c: "xlisten 1 env1 ''inproc://a'' w0 = Some (Ok (Inr fl, w1))" "xconnect 0 env1 ''inproc://a'' w1 = Some (Ok (Inr cfd, w2))"
      "xaccept False 0 env1 (int fl) w2 = Some (Ok (Done (Inr (int afd)), w3))"
      "joined w3 (int cfd) (int afd) (\<lambda>_. []) (\<lambda>_. False)" "wok ?h w3" "distinct [fl, cfd, afd]" "still_polls ?h w0 w3"
      "dozing w3 (int cfd) 0" "dozing w3 (int afd) 0"
    by (auto simp: PROXYIO_MAX_SOCKS_def PATH_MAX_def)
  have k: "keeps perm_lru ?h P (pg w3)" "watches (pg w3) = watches P" using c(7) by (simp_all add: still_polls_def w0_def)
  from keepsD [OF k(1) P(4)] obtain z where z: "pls (pg w3) ?p = Some z" "poll_id z = i" by (auto simp: perm_lru_def)
  have hp: "0 < ?h ?p" by simp
  have "watches (pg w3) ?p = {}" using lru_watches [OF P(2,4)] k(2) by simp
  from joined_polled [OF c(5,4) hp z(1) this, unfolded z(2)] have
    "polled ?h ?p (int i) (int cfd) (int afd) (\<lambda>_. False) (\<lambda>s. writable w3 (end_fd (int cfd) (int afd) s)) (\<lambda>_. []) (\<lambda>_. None) w3" .
  moreover have "\<forall>s. dozing w3 (end_fd (int cfd) (int afd) s) 0" using c(8,9) by (simp add: end_fd_def)
  ultimately show ?thesis using P(1) c(1-3) w0_def by (intro exI conjI) assumption+
qed

theorem poll_set_level_triggered_witness:
  "\<exists>i P w0 fl cfd afd w1 w2 w3 w4. xpoll_create True poll_init = Ok (i, P) \<and> w0 = socket_init evset1 (kern0 [])\<lparr>pg := P\<rparr> \<and>
    xlisten 1 env1 ''inproc://a'' w0 = Some (Ok (Inr fl, w1)) \<and> xconnect 0 env1 ''inproc://a'' w1 = Some (Ok (Inr cfd, w2)) \<and>
    xaccept False 0 env1 (int fl) w2 = Some (Ok (Done (Inr (int afd)), w3)) \<and>
    run_poll 0 env1 (int cfd) (int afd) (int i) poll_ops1 w3 = Some (Ok ([PDone (Inr ()), PReady {}, PSent,
      PReady {(int afd, XPOLLIN)}, PGot (Done (Inr (msg0 [7]))), PReady {},
      PGot Blocked, PSent, PReady {(int afd, XPOLLIN)}, PGot (Done (Inr (msg0 [8]))), PReady {},
      PDone (Inl EEXIST), PDone (Inl ENOENT)], w4))"
proof -
  from poll_set_up1 obtain i P w0 fl cfd afd w1 w2 w3 h p where
    c: "xpoll_create True poll_init = Ok (i, P)" "w0 = socket_init evset1 (kern0 [])\<lparr>pg := P\<rparr>"
      "xlisten 1 env1 ''inproc://a'' w0 = Some (Ok (Inr fl, w1))" "xconnect 0 env1 ''inproc://a'' w1 = Some (Ok (Inr cfd, w2))"
      "xaccept False 0 env1 (int fl) w2 = Some (Ok (Done (Inr (int afd)), w3))"
    and pd: "polled h p (int i) (int cfd) (int afd) (\<lambda>_. False) (\<lambda>s. writable w3 (end_fd (int cfd) (int afd) s)) (\<lambda>_. []) (\<lambda>_. None) w3"
    and z: "\<forall>s. dozing w3 (end_fd (int cfd) (int afd) s) 0"
    by (elim exE conjE)
  let ?wr = "\<lambda>s. writable w3 (end_fd (int cfd) (int afd) s)"
  have "abs_poll (int cfd) (int afd) (\<lambda>_. False) ?wr poll_ops1 (\<lambda>_. []) (\<lambda>_. 0) (\<lambda>_. None) =
    Some [PDone (Inr ()), PReady {}, PSent, PReady {(int afd, XPOLLIN)}, PGot (Done (Inr (msg0 [7]))), PReady {},
      PGot Blocked, PSent, PReady {(int afd, XPOLLIN)}, PGot (Done (Inr (msg0 [8]))), PReady {},
      PDone (Inl EEXIST), PDone (Inl ENOENT)]"
    by (auto simp: poll_ops1_def ctl_abs_def end_mask_def end_fd_def got_def XPOLLIN_def XPOLLOUT_def XPOLLERR_def)
  from poll_set_level_triggered [OF pd z env1_simps(2) this, of 0] obtain w4 where
    "run_poll 0 env1 (int cfd) (int afd) (int i) poll_ops1 w3 = Some (Ok ([PDone (Inr ()), PReady {}, PSent,
      PReady {(int afd, XPOLLIN)}, PGot (Done (Inr (msg0 [7]))), PReady {},
      PGot Blocked, PSent, PReady {(int afd, XPOLLIN)}, PGot (Done (Inr (msg0 [8]))), PReady {},
      PDone (Inl EEXIST), PDone (Inl ENOENT)], w4))" by blast
  with c show ?thesis by (intro exI conjI) assumption+
qed

end
