(* ===== verification/Broadcast.thy ===== *)
theory Broadcast
  imports SpRun Level
begin

text \<open>
  Publishers and buses, \<^verbatim>\<open>src/src/sp/pubsub/pub.c\<close> and \<^verbatim>\<open>src/src/sp/bus/bus.c\<close>, over any sequence of
  sends, of messages that a bus takes from its peers, and of messages that the event thread takes to write them
  to a connection: each connection has a queue, every message enters every queue it is meant for, in order, and a
  connection with a message in its queue is watched for being writable.
\<close>

section \<open>Copies\<close>

text \<open>What the receiver sees of a message: its payload and those of its control messages.\<close>

definition content :: "msgbuf \<Rightarrow> byte list \<times> byte list list" where
  "content m = (ubase m, map ubase (cmsg_head m))"

lemma clone_ubuf_ok:
  assumes m: "wf_msg m" and al: "\<And>n. al n"
  shows "\<exists>c. clone_ubuf al m = Ok c \<and> content c = content m"
proof -
  have u: "unat (usize m) < 2 ^ 31" "length (ubase m) = unat (usize m)" using m by (auto simp: wf_msg_iff usize_def)
  obtain d where d: "msgbuf_alloc al (usize m) = Ok (Some d)" using msgbuf_alloc_total [of _ al, OF u(1) al] by auto
  let ?d = "upd_ubase (\<lambda>u. memcpy_at u 0 (take (unat (usize m)) (ubase m))) d"
  have "?d = dup m" using u msgbuf_alloc_Some [OF d] msgbuf_alloc_frame [OF d]
    by (cases d) (simp add: dup_def memcpy_at_def usize_def)
  moreover have "\<not> sint (usize m) < 0" using u(1) by (simp add: sint_less_zero_iff)
  moreover have "length (cmsg_head m) \<le> 15" "length (wires (cmsg_head m)) \<le> 4095"
    using m unat_4 [of "cmsg_num (frame m)"] unat_12 [of "cmsg_length (frame m)"] by (auto simp: wf_msg_iff)
  with sub_msgbuf_copy_walk_all [of al "cmsg_head m" "dup m", OF al] m dup_wf [OF m] obtain c where
    "sub_msgbuf_copy_walk al (cmsg_head m) (dup m) = Ok c" "cmsg_head c = map dup (cmsg_head m)" "ubase c = ubase m"
    by (auto simp: wf_msg_iff dup_def)
  ultimately show ?thesis using d
    by (auto simp: clone_ubuf_def ualloc_def sub_msgbuf_copy_def content_def comp_def dup_def)
qed

section \<open>The targets and the poll set\<close>

definition tgt_fd :: "sp \<Rightarrow> nat \<Rightarrow> int" where
  "tgt_fd s t = pfd (tg_pollfd (the (tgs s t)))"

definition tgt_queue :: "sp \<Rightarrow> nat \<Rightarrow> msgbuf list" where
  "tgt_queue s t = bh_msgs (ls_head (the (tgs s t)))"

text \<open>The poll set \<open>p\<close> of the library is there, with an entry for the open socket of each target, for the events that
  the target remembers.\<close>

definition in_poll :: "nat \<Rightarrow> sp \<Rightarrow> nat \<Rightarrow> bool" where
  "in_poll p s t \<longleftrightarrow> (\<exists>y. tgs s t = Some y \<and> 0 \<le> tgt_fd s t \<and> tgt_fd s t < int PROXYIO_MAX_SOCKS \<and>
     slots (xgb (net s)) (nat (tgt_fd s t)) \<noteq> None \<and> (tgt_fd s t, pevents (tg_pollfd y)) \<in> watches (pg (net s)) p \<and>
     pevents (tg_pollfd y) AND XPOLLIN \<noteq> 0 \<and> head_ok (ls_head y))"

definition targets_ok :: "(nat \<Rightarrow> nat) \<Rightarrow> nat \<Rightarrow> nat set \<Rightarrow> sp \<Rightarrow> bool" where
  "targets_ok h p T s \<longleftrightarrow> wok h (net s) \<and> 0 < h p \<and> (\<exists>q. pls (pg (net s)) p = Some q \<and> sg_pollid s = int (poll_id q)) \<and>
     inj_on (tgt_fd s) T \<and> (\<forall>t\<in>T. in_poll p s t)"

text \<open>A target with messages is watched for being writable.\<close>

definition armed :: "nat set \<Rightarrow> sp \<Rightarrow> bool" where
  "armed T s \<longleftrightarrow> (\<forall>t\<in>T. tgt_queue s t \<noteq> [] \<longrightarrow> pevents (tg_pollfd (the (tgs s t))) AND XPOLLOUT \<noteq> 0)"

definition same_sp :: "sp \<Rightarrow> sp \<Rightarrow> bool" where
  "same_sp s s' \<longleftrightarrow> eps s' = eps s \<and> sg s' = sg s \<and> sg_pollid s' = sg_pollid s"

lemma same_sp_trans: "same_sp s s' \<Longrightarrow> same_sp s' s'' \<Longrightarrow> same_sp s s''"
  by (simp add: same_sp_def)

lemma targets_ok_set_tg:
  assumes "targets_ok h p T s" "tgs s t = Some y" "tg_pollfd y' = tg_pollfd y" "head_ok (ls_head y')"
  shows "targets_ok h p T (set_tg t y' s)"
proof -
  have fd: "tgt_fd (set_tg t y' s) = tgt_fd s" using assms(2,3) by (auto simp: tgt_fd_def)
  have "in_poll p (set_tg t y' s) u" if "in_poll p s u" for u
    using that assms(2-4) unfolding in_poll_def fd by (cases "u = t") auto
  then show ?thesis using assms(1) unfolding targets_ok_def fd by auto
qed

lemma sg_update_tg_ok:
  assumes s: "targets_ok h p T s" and t: "t \<in> T" "tgs s t = Some y" and ev: "ev AND XPOLLIN \<noteq> 0"
  shows "\<exists>s'. sg_update_tg n e t ev s = Some (Ok s') \<and> targets_ok h p T s' \<and> same_sp s s' \<and>
    tgs s' = (tgs s)(t := Some (y\<lparr>tg_pollfd := (tg_pollfd y)\<lparr>pevents := ev\<rparr>\<rparr>))"
proof -
  let ?f = "(tg_pollfd y)\<lparr>pevents := ev\<rparr>"
  let ?s = "set_tg t (y\<lparr>tg_pollfd := ?f\<rparr>) s"
  have w: "wok h (net s)" and hp: "0 < h p" and inj: "inj_on (tgt_fd s) T" and ip: "\<And>u. u \<in> T \<Longrightarrow> in_poll p s u"
    using s by (simp_all add: targets_ok_def)
  obtain q where q: "pls (pg (net s)) p = Some q" "sg_pollid s = int (poll_id q)" using s by (auto simp: targets_ok_def)
  have fdt: "tgt_fd s t = pfd ?f" using t(2) by (simp add: tgt_fd_def)
  have f: "0 \<le> pfd ?f" "pfd ?f < int PROXYIO_MAX_SOCKS" "slots (xgb (net s)) (nat (pfd ?f)) \<noteq> None"
    "(pfd ?f, pevents (tg_pollfd y)) \<in> watches (pg (net s)) p"
    using ip [OF t(1)] t(2) by (auto simp: in_poll_def fdt [symmetric])
  have ne: "pevents ?f \<noteq> 0" using ev by auto
  have nadd: "XPOLL_MOD = XPOLL_ADD \<Longrightarrow> P" for P by simp
  have mem: "pfd ?f \<in> fst ` watches (pg (net s)) p" using f(4) by force
  have opn: "(slots (xgb (net s)) (nat (pfd ?f)) \<noteq> None) = True" using f(3) by simp
  have sp: "ctl_spec True XPOLL_MOD (pfd ?f) (pevents ?f) (watches (pg (net s)) p) =
      (Inr (), insert (pfd ?f, ev) {k \<in> watches (pg (net s)) p. fst k \<noteq> pfd ?f})" using mem by (simp add: ctl_spec_def)
  from xpoll_ctl_ok [OF w q(1) hp f(1,2) ne nadd nadd, of XPOLL_MOD n "net_env e", unfolded opn sp] obtain w' where
    w': "xpoll_ctl n (net_env e) (int (poll_id q)) XPOLL_MOD ?f (net s) = Some (Ok (Inr (), w'))" "moved h (net s) w'"
      "watches (pg w') p = insert (pfd ?f, ev) {k \<in> watches (pg (net s)) p. fst k \<noteq> pfd ?f}"
    by (auto simp: ctl_does_def)
  let ?s' = "?s\<lparr>net := w'\<rparr>"
  have "sg_update_tg n e t ev s = Some (Ok ?s')"
    using t(2) w'(1) q(2) by (simp add: sg_update_tg_def poll_ctl_def on_net_def Let_def)
  moreover have x: "xgb w' = xgb (net s)" "wok h w'" "keeps same_id h (pg (net s)) (pg w')"
    using w'(2) by (simp_all add: moved_def same_rest_def)
  from keepsD [OF x(3) q(1) hp] q(2) have "\<exists>q'. pls (pg w') p = Some q' \<and> sg_pollid s = int (poll_id q')"
    by (auto simp: same_id_def)
  moreover have fd: "tgt_fd ?s' = tgt_fd s" using t(2) by (auto simp: tgt_fd_def)
  have "in_poll p ?s' u" if u: "u \<in> T" for u
  proof (cases "u = t")
    case True
    then show ?thesis using ip [OF t(1)] t(2) ev w'(3) x(1) fdt unfolding in_poll_def fd by auto
  next
    case False
    then have "tgt_fd s u \<noteq> pfd ?f" using inj u t(1) fdt by (metis inj_onD)
    then show ?thesis using ip [OF u] False w'(3) x(1) unfolding in_poll_def fd by auto
  qed
  ultimately show ?thesis using x(2) hp inj fd by (intro exI [of _ ?s']) (simp add: targets_ok_def same_sp_def)
qed

section \<open>The local storage of a target\<close>

lemma ls_in_ok:
  assumes s: "targets_ok h p T s" "armed T s" and t: "t \<in> T"
  shows "\<exists>s'. ls_in n e t m s = Some (Ok s') \<and> targets_ok h p T s' \<and> armed T s' \<and> same_sp s s' \<and>
    tgt_fd s' = tgt_fd s \<and> tgt_queue s' = (tgt_queue s)(t := tgt_queue s t @ [m])"
proof -
  obtain y where y: "tgs s t = Some y" "pevents (tg_pollfd y) AND XPOLLIN \<noteq> 0" "head_ok (ls_head y)"
    using s(1) t by (auto simp: targets_ok_def in_poll_def)
  from msgbuf_head_in_ok [OF y(3), of m] obtain evs b where
    b: "msgbuf_head_in (ls_head y) m = Ok (evs, b)" "head_ok b" "bh_msgs b = bh_msgs (ls_head y) @ [m]" by blast
  let ?y = "y\<lparr>ls_head := b\<rparr>"
  let ?s = "set_tg t ?y s"
  have s1: "targets_ok h p T ?s" by (rule targets_ok_set_tg [OF s(1) y(1)]) (use b(2) in simp_all)
  have e1: "ls_in n e t m s = tgtd_try_enable_out n e t ?s" using y(1) b(1) by (simp add: ls_in_def)
  show ?thesis
  proof (cases "pevents (tg_pollfd y) AND XPOLLOUT = 0")
    case True
    have in': "(pevents (tg_pollfd y) OR XPOLLOUT) AND XPOLLIN \<noteq> 0"
      using y(2) by (simp add: bit.conj_disj_distrib2 XPOLLOUT_def XPOLLIN_def)
    have out': "(pevents (tg_pollfd y) OR XPOLLOUT) AND XPOLLOUT \<noteq> 0"
      by (simp add: bit.conj_disj_distrib2 XPOLLOUT_def)
    from sg_update_tg_ok [OF s1 t _ in', of ?y n e] obtain s' where
      s': "sg_update_tg n e t (pevents (tg_pollfd y) OR XPOLLOUT) ?s = Some (Ok s')" "targets_ok h p T s'" "same_sp ?s s'"
        "tgs s' = (tgs ?s)(t := Some (?y\<lparr>tg_pollfd := (tg_pollfd y)\<lparr>pevents := pevents (tg_pollfd y) OR XPOLLOUT\<rparr>\<rparr>))" by auto
    have "armed T s'" using s(2) out' unfolding armed_def tgt_queue_def s'(4) by auto
    then show ?thesis using e1 s' True y(1) b(3)
      by (intro exI [of _ s']) (auto simp: tgtd_try_enable_out_def same_sp_def tgt_fd_def tgt_queue_def)
  next
    case False
    have "armed T ?s" using s(2) False unfolding armed_def tgt_queue_def by auto
    then show ?thesis using e1 s1 False y(1) b(3)
      by (intro exI [of _ ?s]) (auto simp: tgtd_try_enable_out_def same_sp_def tgt_fd_def tgt_queue_def)
  qed
qed

lemma ls_out_ok:
  assumes s: "targets_ok h p T s" "armed T s" and t: "t \<in> T"
  shows "\<exists>s'. ls_out n e t s = Some (Ok (case tgt_queue s t of [] \<Rightarrow> None | m # _ \<Rightarrow> Some m, s')) \<and>
    targets_ok h p T s' \<and> armed T s' \<and> same_sp s s' \<and> tgt_fd s' = tgt_fd s \<and> tgt_queue s' = (tgt_queue s)(t := tl (tgt_queue s t))"
proof -
  obtain y where y: "tgs s t = Some y" "pevents (tg_pollfd y) AND XPOLLIN \<noteq> 0" "head_ok (ls_head y)"
    using s(1) t by (auto simp: targets_ok_def in_poll_def)
  have tq: "tgt_queue s t = bh_msgs (ls_head y)" using y(1) by (simp add: tgt_queue_def)
  note em = msgbuf_head_empty_ok [OF y(3)]
  show ?thesis
  proof (cases "bh_msgs (ls_head y)")
    case Nil
    show ?thesis
    proof (cases "pevents (tg_pollfd y) AND XPOLLOUT = 0")
      case True
      then show ?thesis using Nil em y(1) s tq
        by (intro exI [of _ s]) (auto simp: ls_out_def tgtd_try_disable_out_def same_sp_def)
    next
      case False
      have in': "(pevents (tg_pollfd y) AND NOT XPOLLOUT) AND XPOLLIN \<noteq> 0"
      proof -
        have "NOT XPOLLOUT AND XPOLLIN = XPOLLIN" by (simp add: XPOLLOUT_def XPOLLIN_def)
        then show ?thesis using y(2) by (simp add: and.assoc)
      qed
      from sg_update_tg_ok [OF s(1) t y(1) in', of n e] obtain s' where
        s': "sg_update_tg n e t (pevents (tg_pollfd y) AND NOT XPOLLOUT) s = Some (Ok s')" "targets_ok h p T s'" "same_sp s s'"
          "tgs s' = (tgs s)(t := Some (y\<lparr>tg_pollfd := (tg_pollfd y)\<lparr>pevents := pevents (tg_pollfd y) AND NOT XPOLLOUT\<rparr>\<rparr>))" by auto
      have "armed T s'" using s(2) Nil unfolding armed_def tgt_queue_def s'(4) by auto
      then show ?thesis using s' False y(1) Nil em tq
        by (intro exI [of _ s']) (auto simp: ls_out_def tgtd_try_disable_out_def tgt_fd_def tgt_queue_def)
    qed
  next
    case (Cons m ms)
    from msgbuf_head_out_ok [OF y(3) Cons] obtain evs b where
      b: "msgbuf_head_out (ls_head y) = Ok (m, evs, b)" "head_ok b" "bh_msgs b = ms" by blast
    let ?s = "set_tg t (y\<lparr>ls_head := b\<rparr>) s"
    have s1: "targets_ok h p T ?s" by (rule targets_ok_set_tg [OF s(1) y(1)]) (use b(2) in simp_all)
    have "armed T ?s" using s(2) t Cons y(1) unfolding armed_def tgt_queue_def by auto
    then show ?thesis using s1 b em Cons y(1) tq
      by (intro exI [of _ ?s]) (auto simp: ls_out_def same_sp_def tgt_fd_def tgt_queue_def)
  qed
qed

section \<open>One message to many targets\<close>

definition kept :: "(nat \<Rightarrow> nat) \<Rightarrow> nat \<Rightarrow> nat set \<Rightarrow> sp \<Rightarrow> sp \<Rightarrow> bool" where
  "kept h p T s s' \<longleftrightarrow> targets_ok h p T s' \<and> armed T s' \<and> same_sp s s' \<and> tgt_fd s' = tgt_fd s"

lemma kept_refl: "targets_ok h p T s \<Longrightarrow> armed T s \<Longrightarrow> kept h p T s s"
  by (simp add: kept_def same_sp_def)

lemma kept_trans: "kept h p T s s' \<Longrightarrow> kept h p T s' s'' \<Longrightarrow> kept h p T s s''"
  by (auto simp: kept_def intro: same_sp_trans)

lemma kept_ok: "kept h p T s s' \<Longrightarrow> targets_ok h p T s' \<and> armed T s'"
  by (simp add: kept_def)

text \<open>\<open>gains m U s s'\<close>: the targets in \<open>U\<close>, and no others, have got a copy of \<open>m\<close>.\<close>

definition gains :: "msgbuf \<Rightarrow> nat set \<Rightarrow> sp \<Rightarrow> sp \<Rightarrow> bool" where
  "gains m U s s' \<longleftrightarrow>
     (\<forall>u. map content (tgt_queue s' u) = map content (tgt_queue s u) @ (if u \<in> U then [content m] else []))"

lemma gains_trans: "gains m {t} s s' \<Longrightarrow> gains m U s' s'' \<Longrightarrow> t \<notin> U \<Longrightarrow> gains m (insert t U) s s''"
  by (auto simp: gains_def)

lemma put_content:
  assumes s: "targets_ok h p T s" "armed T s" and t: "t \<in> T" and c: "content c = content m"
  shows "\<exists>s'. ls_in n e t c s = Some (Ok s') \<and> kept h p T s s' \<and> gains m {t} s s'"
proof -
  from ls_in_ok [OF s t, of n e c] obtain s' where
    s': "ls_in n e t c s = Some (Ok s')" "targets_ok h p T s'" "armed T s'" "same_sp s s'" "tgt_fd s' = tgt_fd s"
      "tgt_queue s' = (tgt_queue s)(t := tgt_queue s t @ [c])" by blast
  then show ?thesis using c by (auto simp: kept_def gains_def)
qed

lemma send_all_ok:
  assumes m: "wf_msg m" and al: "\<And>k. alloc e k"
  shows "targets_ok h p T s \<Longrightarrow> armed T s \<Longrightarrow> distinct ts \<Longrightarrow> set ts \<subseteq> T \<Longrightarrow>
    \<exists>s'. send_all n e m ts s = Some (Ok s') \<and> kept h p T s s' \<and> gains m (set ts) s s'"
proof (induction ts arbitrary: s rule: induct_list012)
  case 1
  then show ?case using kept_refl by (auto simp: gains_def)
next
  case (2 t)
  then show ?case using put_content [of h p T s t m m n e] by simp
next
  case (3 t t' ts)
  from clone_ubuf_ok [OF m, of "alloc e"] al obtain c where c: "clone_ubuf (alloc e) m = Ok c" "content c = content m" by blast
  have t: "t \<in> T" "t \<notin> set (t' # ts)" "distinct (t' # ts)" "set (t' # ts) \<subseteq> T" using "3.prems" by auto
  from put_content [OF "3.prems"(1,2) t(1) c(2), of n e] obtain s1 where
    s1: "ls_in n e t c s = Some (Ok s1)" "kept h p T s s1" "gains m {t} s s1" by blast
  from "3.IH"(2) [OF _ _ t(3,4)] kept_ok [OF s1(2)] obtain s2 where
    s2: "send_all n e m (t' # ts) s1 = Some (Ok s2)" "kept h p T s1 s2" "gains m (set (t' # ts)) s1 s2" by blast
  from gains_trans [OF s1(3) s2(3) t(2)] kept_trans [OF s1(2) s2(2)] s1(1) s2(1) c(1) show ?case by simp
qed

lemma spread_ok:
  assumes m: "wf_msg m" and al: "\<And>k. alloc e k"
  shows "targets_ok h p T s \<Longrightarrow> armed T s \<Longrightarrow> distinct ts \<Longrightarrow> set ts \<subseteq> T \<Longrightarrow>
    \<exists>s'. spread n e m src ts s = Some (Ok s') \<and> kept h p T s s' \<and> gains m (set ts - {src}) s s'"
proof (induction ts arbitrary: s)
  case Nil
  then show ?case using kept_refl by (auto simp: gains_def)
next
  case (Cons t ts)
  show ?case
  proof (cases "t = src")
    case True
    then show ?thesis using Cons.IH [OF Cons.prems(1,2)] Cons.prems(3,4) by auto
  next
    case False
    from clone_ubuf_ok [OF m, of "alloc e"] al obtain c where c: "clone_ubuf (alloc e) m = Ok c" "content c = content m" by blast
    have t: "t \<in> T" "t \<notin> set ts - {src}" "distinct ts" "set ts \<subseteq> T" using Cons.prems by auto
    from put_content [OF Cons.prems(1,2) t(1) c(2), of n e] obtain s1 where
      s1: "ls_in n e t c s = Some (Ok s1)" "kept h p T s s1" "gains m {t} s s1" by blast
    from Cons.IH [OF _ _ t(3,4)] kept_ok [OF s1(2)] obtain s2 where
      s2: "spread n e m src ts s1 = Some (Ok s2)" "kept h p T s1 s2" "gains m (set ts - {src}) s1 s2" by blast
    have "insert t (set ts - {src}) = set (t # ts) - {src}" using False by auto
    with gains_trans [OF s1(3) s2(3) t(2)] kept_trans [OF s1(2) s2(2)] s1(1) s2(1) c(1) False show ?thesis by simp
  qed
qed

section \<open>The endpoint\<close>

text \<open>\<open>caster\<close>: the number \<open>i\<close> stands for the publisher or bus at \<open>a\<close>, with the connections \<open>ts\<close>.\<close>

definition caster :: "(nat \<Rightarrow> nat) \<Rightarrow> nat \<Rightarrow> int \<Rightarrow> nat \<Rightarrow> sp_kind \<Rightarrow> nat list \<Rightarrow> sp \<Rightarrow> bool" where
  "caster h p i a v ts s \<longleftrightarrow> v \<in> {PubEp, BusEp} \<and> distinct ts \<and> targets_ok h p (set ts) s \<and> armed (set ts) s \<and>
     (\<exists>x. sp_at s i a x \<and> ep_vf x = v \<and> \<not> ep_shutdown x \<and> ep_connectors x = ts \<and> head_ok (ep_rcv x))"

definition taken_in :: "sp \<Rightarrow> nat \<Rightarrow> msgbuf list" where
  "taken_in s a = bh_msgs (ep_rcv (the (eps s a)))"

text \<open>The user sends, the event thread takes a message that came from \<open>src\<close>, or it takes a message to be written to
  \<open>t\<close>; the answer is the message written and its connection.\<close>

datatype cast_act = Cast msgbuf | Hear nat msgbuf | Write nat

fun cast_step :: "nat \<Rightarrow> senv \<Rightarrow> int \<Rightarrow> nat \<Rightarrow> cast_act \<Rightarrow> sp \<Rightarrow> (nat \<times> msgbuf) list spres" where
  "cast_step n e i a (Cast m) s = obind (sp_send n e i m s) (\<lambda>(r, s). Some (if r = Done (Inr ()) then Ok ([], s) else Bug))"
| "cast_step n e i a (Hear src m) s = obind (ep_add n e a src m s) (\<lambda>(_, s). Some (Ok ([], s)))"
| "cast_step n e i a (Write t) s =
     obind (ep_rm n e a t s) (\<lambda>(r, s). Some (Ok (case r of None \<Rightarrow> [] | Some m \<Rightarrow> [(t, m)], s)))"

fun cast_run :: "nat \<Rightarrow> senv \<Rightarrow> int \<Rightarrow> nat \<Rightarrow> cast_act list \<Rightarrow> sp \<Rightarrow> (nat \<times> msgbuf) list spres" where
  "cast_run n e i a [] s = Some (Ok ([], s))"
| "cast_run n e i a (o1 # os) s =
     obind (cast_step n e i a o1 s) (\<lambda>(out, s). obind (cast_run n e i a os s) (\<lambda>(outs, s). Some (Ok (out @ outs, s))))"

text \<open>What is meant for the connection \<open>t\<close>, and what for the user.\<close>

fun meant_for :: "sp_kind \<Rightarrow> nat \<Rightarrow> cast_act \<Rightarrow> msgbuf list" where
  "meant_for v t (Cast m) = [m]"
| "meant_for v t (Hear src m) = (if v = BusEp \<and> t \<noteq> src then [m] else [])"
| "meant_for v t (Write u) = []"

fun heard :: "sp_kind \<Rightarrow> cast_act \<Rightarrow> msgbuf list" where
  "heard v (Hear src m) = (if v = BusEp then [m] else [])"
| "heard v _ = []"

fun act_ok :: "nat list \<Rightarrow> cast_act \<Rightarrow> bool" where
  "act_ok ts (Cast m) \<longleftrightarrow> wf_msg m"
| "act_ok ts (Hear src m) \<longleftrightarrow> wf_msg m"
| "act_ok ts (Write t) \<longleftrightarrow> t \<in> set ts"

definition written :: "nat \<Rightarrow> (nat \<times> msgbuf) list \<Rightarrow> msgbuf list" where
  "written t out = map prod.snd (filter (\<lambda>k. fst k = t) out)"

lemma set_ep_targets [simp]:
  "tgt_fd (set_ep a x s) = tgt_fd s" "tgt_queue (set_ep a x s) = tgt_queue s" "armed T (set_ep a x s) = armed T s"
  "tgt_fd (s\<lparr>sp_wake := k\<rparr>) = tgt_fd s" "tgt_queue (s\<lparr>sp_wake := k\<rparr>) = tgt_queue s" "armed T (s\<lparr>sp_wake := k\<rparr>) = armed T s"
  by (simp_all add: tgt_fd_def tgt_queue_def armed_def fun_eq_iff)

lemma set_ep_targets_ok [simp]:
  "targets_ok h p T (set_ep a x s) = targets_ok h p T s" "targets_ok h p T (s\<lparr>sp_wake := k\<rparr>) = targets_ok h p T s"
  by (simp_all add: targets_ok_def in_poll_def)

text \<open>\<open>cast_does\<close>: a step that returns, adds what is meant for each connection and for the user, and keeps the rest.\<close>

definition cast_does :: "(nat \<Rightarrow> nat) \<Rightarrow> nat \<Rightarrow> int \<Rightarrow> nat \<Rightarrow> sp_kind \<Rightarrow> nat list \<Rightarrow> cast_act list \<Rightarrow> sp \<Rightarrow>
    (nat \<times> msgbuf) list spres \<Rightarrow> bool" where
  "cast_does h p i a v ts os s r \<longleftrightarrow> (\<exists>out s'. r = Some (Ok (out, s')) \<and> caster h p i a v ts s' \<and>
     (\<forall>t\<in>set ts. map content (written t out @ tgt_queue s' t) =
        map content (tgt_queue s t @ concat (map (meant_for v t) os))) \<and>
     tgt_fd s' = tgt_fd s \<and> taken_in s' a = taken_in s a @ concat (map (heard v) os))"

lemma cast_send_ok:
  assumes s: "caster h p i a v ts s" and m: "wf_msg m" and al: "\<And>k. alloc e k"
  shows "cast_does h p i a v ts [Cast m] s (cast_step n e i a (Cast m) s)"
proof -
  from s obtain x where x: "sp_at s i a x" "ep_vf x = v" "\<not> ep_shutdown x" "ep_connectors x = ts" "head_ok (ep_rcv x)"
    and c: "v \<in> {PubEp, BusEp}" "distinct ts" "targets_ok h p (set ts) s" "armed (set ts) s" by (auto simp: caster_def)
  let ?x = "x\<lparr>ep_ref := ep_ref x + 1\<rparr>"
  let ?s = "set_ep a ?x s"
  from send_all_ok [of m e h p "set ts" ?s ts n, OF m al] c obtain s1 where
    s1: "send_all n e m ts ?s = Some (Ok s1)" "kept h p (set ts) ?s s1" "gains m (set ts) ?s s1" by auto
  have k: "eps s1 a = Some ?x" "sg s1 = sg s" using s1(2) by (simp_all add: kept_def same_sp_def)
  have "ep_send n e a m ?s = Some (Ok (Done (Inr ()), s1))"
    using c(1) x s1(1) by (auto simp: ep_send_def pub_ep_send_def bus_ep_send_def)
  from sp_send_ok [OF x(1,3) this k(1) _ k(2)] have
    r: "sp_send n e i m s = Some (Ok (Done (Inr ()), set_ep a x s1))" by simp
  have at: "sp_at (set_ep a x s1) i a x" by (rule sp_at_upd [OF x(1)]) (use k x(1) in \<open>simp_all add: sp_at_def\<close>)
  have "caster h p i a v ts (set_ep a x s1)" unfolding caster_def
    using c(1,2) x at kept_ok [OF s1(2)] by auto
  then show ?thesis using r s1(2,3) x(1)
    by (auto simp: kept_def cast_does_def gains_def written_def taken_in_def sp_at_def)
qed

lemma cast_hear_ok:
  assumes s: "caster h p i a v ts s" and m: "wf_msg m" and al: "\<And>k. alloc e k"
  shows "cast_does h p i a v ts [Hear src m] s (cast_step n e i a (Hear src m) s)"
proof -
  from s obtain x where x: "sp_at s i a x" "ep_vf x = v" "\<not> ep_shutdown x" "ep_connectors x = ts" "head_ok (ep_rcv x)"
    and c: "v \<in> {PubEp, BusEp}" "distinct ts" "targets_ok h p (set ts) s" "armed (set ts) s" by (auto simp: caster_def)
  show ?thesis
  proof (cases "v = BusEp")
    case False
    then have "ep_add n e a src m s = Some (Ok (False, s))" using c(1) x by (auto simp: ep_add_def pub_ep_add_def sp_at_def)
    then show ?thesis using s False by (auto simp: cast_does_def written_def)
  next
    case True
    from spread_ok [of m e h p "set ts" s ts n src, OF m al] c obtain s1 where
      s1: "spread n e m src ts s = Some (Ok s1)" "kept h p (set ts) s s1" "gains m (set ts - {src}) s s1" by auto
    have k: "eps s1 a = Some x" "sg s1 = sg s" using s1(2) x(1) by (simp_all add: kept_def same_sp_def sp_at_def)
    from ep_deliver_ok [OF k(1) x(5), of m] obtain b w where
      b: "ep_deliver a m s1 = Ok (set_ep a (x\<lparr>ep_rcv := b\<rparr>) (s1\<lparr>sp_wake := w\<rparr>))" "head_ok b"
        "bh_msgs b = bh_msgs (ep_rcv x) @ [m]" by blast
    let ?s' = "set_ep a (x\<lparr>ep_rcv := b\<rparr>) (s1\<lparr>sp_wake := w\<rparr>)"
    have r: "ep_add n e a src m s = Some (Ok (True, ?s'))"
      using True x s1(1) b(1) by (simp add: ep_add_def bus_ep_add_def sp_at_def)
    have at: "sp_at ?s' i a (x\<lparr>ep_rcv := b\<rparr>)" by (rule sp_at_upd [OF x(1)]) (use k x(1) in \<open>simp_all add: sp_at_def\<close>)
    have "caster h p i a v ts ?s'" unfolding caster_def
      using c(1,2) x(2-4) at b(2) kept_ok [OF s1(2)] by auto
    then show ?thesis using r s1(2,3) x(1) b(3) True
      by (auto simp: kept_def cast_does_def gains_def written_def taken_in_def sp_at_def)
  qed
qed

lemma cast_write_ok:
  assumes s: "caster h p i a v ts s" and t: "t \<in> set ts"
  shows "cast_does h p i a v ts [Write t] s (cast_step n e i a (Write t) s)"
proof -
  from s obtain x where x: "sp_at s i a x" "ep_vf x = v" "\<not> ep_shutdown x" "ep_connectors x = ts" "head_ok (ep_rcv x)"
    and c: "v \<in> {PubEp, BusEp}" "distinct ts" "targets_ok h p (set ts) s" "armed (set ts) s" by (auto simp: caster_def)
  from ls_out_ok [OF c(3,4) t, of n e] obtain s1 where
    s1: "ls_out n e t s = Some (Ok (case tgt_queue s t of [] \<Rightarrow> None | m # _ \<Rightarrow> Some m, s1))" "targets_ok h p (set ts) s1"
      "armed (set ts) s1" "same_sp s s1" "tgt_fd s1 = tgt_fd s" "tgt_queue s1 = (tgt_queue s)(t := tl (tgt_queue s t))" by blast
  have k: "eps s1 a = Some x" "sg s1 = sg s" using s1(4) x(1) by (simp_all add: same_sp_def sp_at_def)
  have r: "ep_rm n e a t s = Some (Ok (case tgt_queue s t of [] \<Rightarrow> None | m # _ \<Rightarrow> Some m, s1))"
    using c(1) x(1,2) s1(1) by (auto simp: ep_rm_def pub_ep_rm_def bus_ep_rm_def sp_at_def)
  have at: "sp_at s1 i a x" by (rule sp_at_upd [OF x(1) k(2,1)]) (use x(1) in \<open>simp add: sp_at_def\<close>)
  have "caster h p i a v ts s1" unfolding caster_def using c(1,2) x(2-5) at s1(2,3) by auto
  then show ?thesis using r s1(5,6) x(1) k(1)
    by (cases "tgt_queue s t") (auto simp: cast_does_def written_def taken_in_def sp_at_def)
qed

lemma cast_step_ok:
  assumes "caster h p i a v ts s" "act_ok ts o1" "\<And>k. alloc e k"
  shows "cast_does h p i a v ts [o1] s (cast_step n e i a o1 s)"
  using assms by (cases o1) (auto intro: cast_send_ok cast_hear_ok cast_write_ok simp del: cast_step.simps)

lemma cast_run_ok:
  assumes al: "\<And>k. alloc e k"
  shows "caster h p i a v ts s \<Longrightarrow> list_all (act_ok ts) os \<Longrightarrow> cast_does h p i a v ts os s (cast_run n e i a os s)"
proof (induction os arbitrary: s)
  case Nil
  then show ?case by (simp add: cast_does_def written_def)
next
  case (Cons o1 os)
  from cast_step_ok [of h p i a v ts s o1 e n, OF Cons.prems(1) _ al] Cons.prems(2) obtain out s1 where
    1: "cast_step n e i a o1 s = Some (Ok (out, s1))" "caster h p i a v ts s1"
      "\<forall>t\<in>set ts. map content (written t out @ tgt_queue s1 t) = map content (tgt_queue s t @ meant_for v t o1)"
      "tgt_fd s1 = tgt_fd s" "taken_in s1 a = taken_in s a @ heard v o1" by (auto simp: cast_does_def)
  from Cons.IH [OF 1(2)] Cons.prems(2) obtain outs s2 where
    2: "cast_run n e i a os s1 = Some (Ok (outs, s2))" "caster h p i a v ts s2"
      "\<forall>t\<in>set ts. map content (written t outs @ tgt_queue s2 t) = map content (tgt_queue s1 t @ concat (map (meant_for v t) os))"
      "tgt_fd s2 = tgt_fd s1" "taken_in s2 a = taken_in s1 a @ concat (map (heard v) os)" by (auto simp: cast_does_def)
  have "map content (written t (out @ outs) @ tgt_queue s2 t) =
      map content (tgt_queue s t @ concat (map (meant_for v t) (o1 # os)))" if t: "t \<in> set ts" for t
    using 1(3) [rule_format, OF t] 2(3) [rule_format, OF t] by (simp add: written_def)
  then show ?case using 1(1,4,5) 2(1,2,4,5) by (auto simp: cast_does_def)
qed

section \<open>Broadcasting\<close>

lemma armed_watched:
  assumes "caster h p i a v ts s" "t \<in> set ts" "tgt_queue s t \<noteq> []"
  shows "\<exists>ev. (tgt_fd s t, ev) \<in> watches (pg (net s)) p \<and> ev AND XPOLLOUT \<noteq> 0"
proof -
  have "in_poll p s t" "armed (set ts) s" using assms(1,2) by (auto simp: caster_def targets_ok_def)
  with assms(2,3) obtain y where "tgs s t = Some y" "(tgt_fd s t, pevents (tg_pollfd y)) \<in> watches (pg (net s)) p"
    "pevents (tg_pollfd (the (tgs s t))) AND XPOLLOUT \<noteq> 0" unfolding in_poll_def armed_def by blast
  then show ?thesis by (metis option.sel)
qed

text \<open>C5. A publisher and a bus reach everybody, as long as there is memory (a copy that cannot be had aborts). Over any sequence of sends, of messages that come in from a
  connection, and of messages that the event thread takes to write them to one: no call fails an assertion, every send succeeds, and for each
  connection the messages taken so far followed by those in its queue are, with their control messages, those that
  were in its queue before followed by all those sent since and, on a bus, by those that came from other
  connections, in order, each once; a publisher drops what comes in, and a bus hands it to its user as well.
  A connection whose queue is not empty is watched for being writable in the poll set of the event thread, so that
  no message waits for the next send.\<close>

theorem broadcast_reaches_all:
  assumes "caster h p i a v ts s" "\<forall>k. alloc e k" "list_all (act_ok ts) os"
  shows "\<exists>out s'. cast_run n e i a os s = Some (Ok (out, s')) \<and> caster h p i a v ts s' \<and> tgt_fd s' = tgt_fd s \<and>
    taken_in s' a = taken_in s a @ concat (map (heard v) os) \<and>
    (\<forall>t\<in>set ts. map content (written t out @ tgt_queue s' t) =
        map content (tgt_queue s t @ concat (map (meant_for v t) os)) \<and>
      (tgt_queue s' t \<noteq> [] \<longrightarrow> (\<exists>ev. (tgt_fd s' t, ev) \<in> watches (pg (net s')) p \<and> ev AND XPOLLOUT \<noteq> 0)))"
proof -
  from cast_run_ok [of e h p i a v ts s os n, OF _ assms(1,3)] assms(2) obtain out s' where
    r: "cast_run n e i a os s = Some (Ok (out, s'))" "caster h p i a v ts s'" "tgt_fd s' = tgt_fd s"
      "taken_in s' a = taken_in s a @ concat (map (heard v) os)"
      "\<forall>t\<in>set ts. map content (written t out @ tgt_queue s' t) = map content (tgt_queue s t @ concat (map (meant_for v t) os))"
    by (auto simp: cast_does_def)
  have "\<forall>t\<in>set ts. tgt_queue s' t \<noteq> [] \<longrightarrow> (\<exists>ev. (tgt_fd s' t, ev) \<in> watches (pg (net s')) p \<and> ev AND XPOLLOUT \<noteq> 0)"
    using armed_watched [OF r(2)] by blast
  with r(5) have "\<forall>t\<in>set ts. map content (written t out @ tgt_queue s' t) =
        map content (tgt_queue s t @ concat (map (meant_for v t) os)) \<and>
      (tgt_queue s' t \<noteq> [] \<longrightarrow> (\<exists>ev. (tgt_fd s' t, ev) \<in> watches (pg (net s')) p \<and> ev AND XPOLLOUT \<noteq> 0))" by blast
  with r(1-4) show ?thesis by (intro exI conjI)
qed

text \<open>The witness: a publisher with both ends of an in-process connection as its connections, in a poll set.\<close>

definition pub_sp :: "int \<Rightarrow> int \<Rightarrow> int \<Rightarrow> world \<Rightarrow> sp" where
  "pub_sp i fa fb w =
     set_ep 0 ((epbase_init PubEp)\<lparr>ep_ref := 1, ep_connectors := [2, 3]\<rparr>)
      (set_tg 2 (target1 0 2 fa []) (set_tg 3 (target1 0 3 fb [])
       ((sp_init i w)\<lparr>sg := (tbl_init MAX_ENDPOINTS)\<lparr>slots := [0 \<mapsto> 0]\<rparr>, sp_next := 4\<rparr>)))"

lemma pub_sp_ok:
  assumes P: "polled h p i fa fb nb wr q (\<lambda>_. Some (XPOLLIN OR XPOLLERR)) w"
  shows "caster h p 0 0 PubEp [2, 3] (pub_sp i fa fb w)"
proof -
  let ?s = "pub_sp i fa fb w"
  from P have w: "wok h w" "0 < h p" "joined w fa fb q nb" and wa: "watches (pg w) p = watch_set fa fb (\<lambda>_. Some (XPOLLIN OR XPOLLERR))"
    and z: "\<exists>z. pls (pg w) p = Some z \<and> i = int (poll_id z)" by (auto simp: polled_def)
  have fd: "tgt_fd ?s 2 = fa" "tgt_fd ?s 3 = fb" "tgt_queue ?s 2 = []" "tgt_queue ?s 3 = []"
    by (simp_all add: tgt_fd_def tgt_queue_def pub_sp_def target1_def msgbuf_head_init_def)
  have net: "net ?s = w" "sg_pollid ?s = i" by (simp_all add: pub_sp_def sp_init_def)
  have ends: "0 \<le> end_fd fa fb b \<and> end_fd fa fb b < int PROXYIO_MAX_SOCKS \<and> slots (xgb w) (nat (end_fd fa fb b)) \<noteq> None \<and>
    (end_fd fa fb b, XPOLLIN OR XPOLLERR) \<in> watches (pg w) p" for b
  proof -
    obtain c x where "has_sock w (end_fd fa fb b) c x" using joined_ends [OF w(3)] .
    then show ?thesis by (auto simp: has_sock_def wa watch_set_def)
  qed
  have ip: "in_poll p ?s 2" "in_poll p ?s 3" unfolding in_poll_def fd net
    using ends [of False] ends [of True] by (simp_all add: pub_sp_def target1_def end_fd_def XPOLLIN_def XPOLLERR_def)
  have "fa \<noteq> fb" using joined_distinct [OF w(3)] by simp
  then have "targets_ok h p (set [2, 3]) ?s" using w z ip fd net by (auto simp: targets_ok_def inj_on_def)
  moreover have "armed (set [2, 3]) ?s" by (simp add: armed_def fd)
  moreover have "sp_at ?s 0 0 ((epbase_init PubEp)\<lparr>ep_ref := 1, ep_connectors := [2, 3]\<rparr>)"
    by (simp add: sp_at_def pub_sp_def MAX_ENDPOINTS_def)
  ultimately show ?thesis by (auto simp: caster_def epbase_init_def)
qed

theorem broadcast_reaches_all_witness:
  "\<exists>i P w0 fl fa fb w1 w2 w3 w4 out s'. xpoll_create True poll_init = Ok (i, P) \<and> w0 = socket_init evset1 (kern0 [])\<lparr>pg := P\<rparr> \<and>
    xlisten 1 env1 ''inproc://a'' w0 = Some (Ok (Inr fl, w1)) \<and> xconnect 0 env1 ''inproc://a'' w1 = Some (Ok (Inr fa, w2)) \<and>
    xaccept False 0 env1 (int fl) w2 = Some (Ok (Done (Inr (int fb)), w3)) \<and>
    run_poll 0 env1 (int fa) (int fb) (int i) [PCtl XPOLL_ADD False (XPOLLIN OR XPOLLERR), PCtl XPOLL_ADD True (XPOLLIN OR XPOLLERR)] w3 =
      Some (Ok ([PDone (Inr ()), PDone (Inr ())], w4)) \<and>
    cast_run 0 senv1 0 0 [Cast (msg0 [7]), Write 2, Cast (msg0 [8]), Write 3, Hear 2 (msg0 [9])] (pub_sp (int i) (int fa) (int fb) w4) =
      Some (Ok (out, s')) \<and>
    map ubase (written 2 out @ tgt_queue s' 2) = [[7], [8]] \<and> map ubase (written 3 out @ tgt_queue s' 3) = [[7], [8]]"
proof -
  let ?ev = "XPOLLIN OR XPOLLERR"
  let ?os = "[Cast (msg0 [7]), Write 2, Cast (msg0 [8]), Write 3, Hear 2 (msg0 [9])]"
  from poll_set_up1 obtain i P w0 fl fa fb w1 w2 w3 h p where
    c: "xpoll_create True poll_init = Ok (i, P)" "w0 = socket_init evset1 (kern0 [])\<lparr>pg := P\<rparr>"
      "xlisten 1 env1 ''inproc://a'' w0 = Some (Ok (Inr fl, w1))" "xconnect 0 env1 ''inproc://a'' w1 = Some (Ok (Inr fa, w2))"
      "xaccept False 0 env1 (int fl) w2 = Some (Ok (Done (Inr (int fb)), w3))"
    and pd: "polled h p (int i) (int fa) (int fb) (\<lambda>_. False) (\<lambda>s. writable w3 (end_fd (int fa) (int fb) s)) (\<lambda>_. []) (\<lambda>_. None) w3"
    by (elim exE conjE)
  have ev: "?ev \<noteq> 0" by (simp add: XPOLLIN_def XPOLLERR_def)
  have a1: "ctl_abs XPOLL_ADD False ?ev (\<lambda>_. None) = (Inr (), (\<lambda>_. None)(False := Some ?ev))"
    and a2: "ctl_abs XPOLL_ADD True ?ev ((\<lambda>_. None)(False := Some ?ev)) = (Inr (), (\<lambda>_. None)(False := Some ?ev, True := Some ?ev))"
    by (simp_all add: ctl_abs_def)
  have all: "((\<lambda>_. None)(False := Some ?ev, True := Some ?ev)) = (\<lambda>_. Some ?ev)" by (simp add: fun_eq_iff)
  from polled_ctl [OF pd env1_simps(2) ev, of XPOLL_ADD False 0] a1 obtain v where
    v: "poll_step 0 env1 (int fa) (int fb) (int i) (PCtl XPOLL_ADD False ?ev) w3 = Some (Ok (PDone (Inr ()), v))"
      "polled h p (int i) (int fa) (int fb) (\<lambda>_. False) (\<lambda>s. writable w3 (end_fd (int fa) (int fb) s)) (\<lambda>_. [])
        ((\<lambda>_. None)(False := Some ?ev)) v" by auto
  from polled_ctl [OF v(2) env1_simps(2) ev, of XPOLL_ADD True 0, unfolded a2 all] obtain w4 where
    w4: "poll_step 0 env1 (int fa) (int fb) (int i) (PCtl XPOLL_ADD True ?ev) v = Some (Ok (PDone (Inr ()), w4))"
      "polled h p (int i) (int fa) (int fb) (\<lambda>_. False) (\<lambda>s. writable w3 (end_fd (int fa) (int fb) s)) (\<lambda>_. [])
        (\<lambda>_. Some ?ev) w4" by auto
  have r: "run_poll 0 env1 (int fa) (int fb) (int i) [PCtl XPOLL_ADD False ?ev, PCtl XPOLL_ADD True ?ev] w3 =
      Some (Ok ([PDone (Inr ()), PDone (Inr ())], w4))" using v(1) w4(1) by (simp del: poll_step.simps)
  have al: "\<forall>k. alloc senv1 k" by (simp add: senv1_def)
  have ok: "list_all (act_ok [2, 3]) ?os" by (simp add: msg0_def wf_msg_iff)
  from broadcast_reaches_all [OF pub_sp_ok [OF w4(2)] al ok, of 0] obtain out s' where
    s': "cast_run 0 senv1 0 0 ?os (pub_sp (int i) (int fa) (int fb) w4) = Some (Ok (out, s'))"
    and q: "\<forall>t\<in>set [2, 3]. map content (written t out @ tgt_queue s' t) =
        map content (tgt_queue (pub_sp (int i) (int fa) (int fb) w4) t @ concat (map (meant_for PubEp t) ?os))"
    by (elim exE conjE) blast
  have e: "tgt_queue (pub_sp (int i) (int fa) (int fb) w4) t = []" if "t \<in> {2, 3}" for t
    using that by (auto simp: tgt_queue_def pub_sp_def target1_def msgbuf_head_init_def)
  have fc: "map ubase ms = map prod.fst (map content ms)" for ms by (simp add: content_def comp_def)
  have u: "map ubase (written t out @ tgt_queue s' t) = [[7], [8]]" if "t \<in> {2, 3}" for t
  proof -
    have "map content (written t out @ tgt_queue s' t) = map content [msg0 [7], msg0 [8]]" using q e [OF that] that by auto
    then show ?thesis unfolding fc by (simp add: content_def msg0_def msgbuf_base_def)
  qed
  from c r s' u [of 2] u [of 3] show ?thesis by (intro exI conjI) (assumption | simp)+
qed

end
