(* ===== verification/Taskpool.thy ===== *)
theory Taskpool
  imports Interfaces "HOL-Library.Multiset"
begin

text \<open>
  The threads of the library: \<^verbatim>\<open>src/src/utils/waitgroup.c\<close> and \<^verbatim>\<open>src/src/utils/taskpool.c\<close>. What
  a function does while it holds its mutex is one HOL function on the structure; the threads are a
  step relation over those, where \<open>pthread_cond_wait\<close> is two steps, falling asleep and waking up,
  and may wake up for no reason.
\<close>

section \<open>Wait groups\<close>

text \<open>The counter; a broadcast is part of the result.\<close>

type_synonym waitgroup = i32

definition waitgroup_init :: waitgroup where
  "waitgroup_init = 0"

definition waitgroup_incr :: "i32 \<Rightarrow> waitgroup \<Rightarrow> waitgroup" where
  "waitgroup_incr refs wg = wg + refs"

definition waitgroup_decr :: "i32 \<Rightarrow> waitgroup \<Rightarrow> bool \<times> waitgroup" where
  "waitgroup_decr refs wg = (let wg = wg - refs in (wg = 0, wg))"

definition waitgroup_get :: "waitgroup \<Rightarrow> i32" where
  "waitgroup_get wg = wg"

definition waitgroup_add :: "waitgroup \<Rightarrow> waitgroup" where
  "waitgroup_add wg = waitgroup_incr 1 wg"

definition waitgroup_done :: "waitgroup \<Rightarrow> bool \<times> waitgroup" where
  "waitgroup_done wg = waitgroup_decr 1 wg"

definition waitgroup_adds :: "waitgroup \<Rightarrow> i32 \<Rightarrow> waitgroup" where
  "waitgroup_adds wg refs = waitgroup_incr refs wg"

definition waitgroup_dones :: "waitgroup \<Rightarrow> i32 \<Rightarrow> bool \<times> waitgroup" where
  "waitgroup_dones wg refs = waitgroup_decr refs wg"

text \<open>The test of the loop of \<open>waitgroup_wait\<close>.\<close>

definition waitgroup_waits :: "waitgroup \<Rightarrow> bool" where
  "waitgroup_waits wg \<longleftrightarrow> sint wg > 0"

section \<open>The task pool\<close>

record task =
  task_f :: nat
  task_data :: nat

record taskpool =
  stopping :: bool
  tasks :: int
  workers :: int
  task_head :: "task list"
  threads :: "nat list"

definition sizeof_thread :: int where "sizeof_thread = 40"

text \<open>\<open>taskpool_init\<close>: \<open>arr\<close> says if the block for the threads can be had, \<open>new i\<close> if the \<open>i\<close>-th thread can.\<close>

fun new_threads :: "(nat \<Rightarrow> bool) \<Rightarrow> nat list \<Rightarrow> nat list" where
  "new_threads new [] = []"
| "new_threads new (i # is) = (if new i then i # new_threads new is else new_threads new is)"

definition taskpool_init :: "(u64 \<Rightarrow> bool) \<Rightarrow> (nat \<Rightarrow> bool) \<Rightarrow> i32 \<Rightarrow> taskpool option" where
  "taskpool_init arr new w =
     (if \<not> arr (word_of_int (sizeof_thread * sint w)) then None
      else let n = (if sint w < 0 then 1 else sint w);
               ts = new_threads new [0..<nat n]
           in if int (length ts) \<le> 0 then None
              else Some \<lparr>stopping = True, tasks = 0, workers = int (length ts), task_head = [], threads = ts\<rparr>)"

text \<open>\<open>__taskpool_push\<close> and \<open>_taskpool_pop\<close>; \<open>al\<close> says if the task can be allocated.\<close>

definition task_push :: "bool \<Rightarrow> task \<Rightarrow> taskpool \<Rightarrow> bool \<times> taskpool" where
  "task_push al te tp =
     (if al then (True, tp\<lparr>task_head := task_head tp @ [te], tasks := tasks tp + 1\<rparr>) else (False, tp))"

definition task_pop :: "taskpool \<Rightarrow> task option \<times> taskpool" where
  "task_pop tp =
     (case task_head tp of
        te # ts \<Rightarrow> (Some te, tp\<lparr>task_head := ts, tasks := tasks tp - 1\<rparr>)
      | [] \<Rightarrow> (None, tp))"

text \<open>The tasks are a queue, whose length is counted in \<open>tasks\<close>.\<close>

definition task_enq :: "task \<Rightarrow> taskpool \<Rightarrow> taskpool" where
  "task_enq te tp = (case task_push True te tp of (_, tp) \<Rightarrow> tp)"

definition task_deq :: "taskpool \<Rightarrow> (task \<times> taskpool) option" where
  "task_deq tp = (case task_pop tp of (None, _) \<Rightarrow> None | (Some te, tp) \<Rightarrow> Some (te, tp))"

interpretation tpq: fifo task_head "\<lambda>tp. tasks tp = int (length (task_head tp))" task_enq task_deq
  by unfold_locales (auto simp: task_enq_def task_deq_def task_push_def task_pop_def split: list.splits)

text \<open>Where a worker is: not created or joined, at the test of its loop, about to call
  \<open>taskpool_pop\<close>, asleep in it, woken in it, running a task, returned.\<close>

datatype worker = Absent | AtLoop | AtPop | Asleep | Woken | Running task | Returned

definition broadcast :: "(nat \<Rightarrow> worker) \<Rightarrow> nat \<Rightarrow> worker" where
  "broadcast ws = (\<lambda>i. if ws i = Asleep then Woken else ws i)"

text \<open>The pool with its threads. The user calls \<open>taskpool_start\<close> and \<open>taskpool_stop\<close> one after the other;
  \<open>starting\<close> and \<open>joining\<close> say how far the call is. \<open>pushed\<close>, \<open>begun\<close> and \<open>ended\<close> record what
  has happened to the tasks.\<close>

record tp_sys =
  tpool :: taskpool
  wk :: "nat \<Rightarrow> worker"
  starting :: "nat option"
  joining :: "nat option"
  pushed :: "task list"
  begun :: "task list"
  ended :: "task list"

definition tp_new :: "taskpool \<Rightarrow> tp_sys" where
  "tp_new tp = \<lparr>tpool = tp, wk = (\<lambda>_. Absent), starting = None, joining = None, pushed = [], begun = [], ended = []\<rparr>"

text \<open>One step of a worker.\<close>

fun worker_step :: "nat \<Rightarrow> tp_sys \<Rightarrow> tp_sys option" where
  "worker_step i s =
     (case wk s i of
        AtLoop \<Rightarrow> Some (s\<lparr>wk := (wk s)(i := if stopping (tpool s) then Returned else AtPop)\<rparr>)
      | AtPop \<Rightarrow>
          if stopping (tpool s) then Some (s\<lparr>wk := (wk s)(i := AtLoop)\<rparr>)
          else (case task_pop (tpool s) of
                  (Some te, tp) \<Rightarrow> Some (s\<lparr>tpool := tp, wk := (wk s)(i := Running te), begun := begun s @ [te]\<rparr>)
                | (None, tp) \<Rightarrow> Some (s\<lparr>tpool := tp, wk := (wk s)(i := Asleep)\<rparr>))
      | Woken \<Rightarrow> Some (s\<lparr>wk := (wk s)(i := AtLoop)\<rparr>)
      | _ \<Rightarrow> None)"

inductive tp_step :: "tp_sys \<Rightarrow> tp_sys \<Rightarrow> bool" where
  push: "task_push True te (tpool s) = (True, tp) \<Longrightarrow>
    tp_step s (s\<lparr>tpool := tp, wk := broadcast (wk s), pushed := pushed s @ [te]\<rparr>)"
| push_fails: "task_push False te (tpool s) = (False, tp) \<Longrightarrow> tp_step s (s\<lparr>tpool := tp\<rparr>)"
| work: "worker_step i s = Some t \<Longrightarrow> tp_step s t"
| finish: "wk s i = Running te \<Longrightarrow> tp_step s (s\<lparr>wk := (wk s)(i := AtLoop), ended := ended s @ [te]\<rparr>)"
| spurious: "wk s i = Asleep \<Longrightarrow> tp_step s (s\<lparr>wk := (wk s)(i := Woken)\<rparr>)"
| start_call: "stopping (tpool s) \<Longrightarrow> joining s = None \<Longrightarrow> starting s = None \<Longrightarrow>
    tp_step s (s\<lparr>tpool := (tpool s)\<lparr>stopping := False\<rparr>, starting := Some 0\<rparr>)"
| start_one: "starting s = Some i \<Longrightarrow> int i < workers (tpool s) \<Longrightarrow>
    tp_step s (s\<lparr>wk := (wk s)(i := AtLoop), starting := Some (i + 1)\<rparr>)"
| start_ret: "starting s = Some i \<Longrightarrow> \<not> int i < workers (tpool s) \<Longrightarrow> tp_step s (s\<lparr>starting := None\<rparr>)"
| stop_call: "\<not> stopping (tpool s) \<Longrightarrow> starting s = None \<Longrightarrow> joining s = None \<Longrightarrow>
    tp_step s (s\<lparr>tpool := (tpool s)\<lparr>stopping := True\<rparr>, wk := broadcast (wk s), joining := Some 0\<rparr>)"
| stop_one: "joining s = Some i \<Longrightarrow> int i < workers (tpool s) \<Longrightarrow> wk s i = Returned \<Longrightarrow>
    tp_step s (s\<lparr>wk := (wk s)(i := Absent), joining := Some (i + 1)\<rparr>)"
| stop_ret: "joining s = Some i \<Longrightarrow> \<not> int i < workers (tpool s) \<Longrightarrow> tp_step s (s\<lparr>joining := None\<rparr>)"

inductive tp_reach :: "taskpool \<Rightarrow> tp_sys \<Rightarrow> bool" for tp where
  tp_init: "tp_reach tp (tp_new tp)"
| tp_next: "tp_reach tp s \<Longrightarrow> tp_step s t \<Longrightarrow> tp_reach tp t"

section \<open>Invariant\<close>

definition run_of :: "worker \<Rightarrow> task multiset" where
  "run_of w = (case w of Running te \<Rightarrow> {#te#} | _ \<Rightarrow> {#})"

definition running :: "tp_sys \<Rightarrow> task multiset" where
  "running s = (\<Sum>i<nat (workers (tpool s)). run_of (wk s i))"

text \<open>The tasks: those begun and those queued are those pushed, in order; those begun have ended or are
  running.\<close>

definition tasks_inv :: "tp_sys \<Rightarrow> bool" where
  "tasks_inv s \<longleftrightarrow> pushed s = begun s @ task_head (tpool s) \<and> tasks (tpool s) = int (length (task_head (tpool s))) \<and>
     mset (begun s) = mset (ended s) + running s"

text \<open>The workers: none sleeps while there is something to do, and they are there between start and stop.\<close>

definition present :: "tp_sys \<Rightarrow> nat \<Rightarrow> bool" where
  "present s i \<longleftrightarrow> i < nat (workers (tpool s)) \<and>
     (case starting s of Some k \<Rightarrow> i < k
      | None \<Rightarrow> (case joining s of Some k \<Rightarrow> k \<le> i | None \<Rightarrow> \<not> stopping (tpool s)))"

definition idle_ok :: "tp_sys \<Rightarrow> bool" where
  "idle_ok s \<longleftrightarrow> (\<forall>i. (wk s i = Asleep \<longrightarrow> task_head (tpool s) = [] \<and> \<not> stopping (tpool s)) \<and>
     (wk s i = Returned \<longrightarrow> stopping (tpool s)))"

definition phase_ok :: "tp_sys \<Rightarrow> bool" where
  "phase_ok s \<longleftrightarrow> (starting s \<noteq> None \<longrightarrow> joining s = None \<and> \<not> stopping (tpool s)) \<and>
     (joining s \<noteq> None \<longrightarrow> stopping (tpool s))"

definition workers_inv :: "tp_sys \<Rightarrow> bool" where
  "workers_inv s \<longleftrightarrow> 0 < workers (tpool s) \<and> (\<forall>i. wk s i \<noteq> Absent \<longleftrightarrow> present s i) \<and> idle_ok s \<and> phase_ok s"

lemma workers_inv_range: "workers_inv s \<Longrightarrow> wk s i \<noteq> Absent \<Longrightarrow> i < nat (workers (tpool s))"
  by (simp add: workers_inv_def present_def)

lemma task_push_sel:
  "task_push al te tp = (r, tp') \<Longrightarrow> workers tp' = workers tp \<and> stopping tp' = stopping tp \<and>
    task_head tp' = task_head tp @ (if al then [te] else []) \<and> tasks tp' = tasks tp + (if al then 1 else 0)"
  by (auto simp: task_push_def split: if_splits)

lemma task_pop_sel:
  "task_pop tp = (Some te, tp') \<Longrightarrow> workers tp' = workers tp \<and> stopping tp' = stopping tp \<and>
    task_head tp = te # task_head tp' \<and> tasks tp' = tasks tp - 1"
  "task_pop tp = (None, tp') \<Longrightarrow> tp' = tp \<and> task_head tp = []"
  by (auto simp: task_pop_def split: list.splits)

lemma run_of_simps [simp]:
  "run_of (Running te) = {#te#}" "(\<And>te. w \<noteq> Running te) \<Longrightarrow> run_of w = {#}"
  by (auto simp: run_of_def split: worker.splits)

lemma running_upd:
  assumes "i < nat (workers (tpool s))" "workers tp = workers (tpool s)"
  shows "running (s\<lparr>tpool := tp, wk := (wk s)(i := w)\<rparr>) + run_of (wk s i) = running s + run_of w"
proof -
  let ?n = "nat (workers (tpool s))"
  have "running s = run_of (wk s i) + (\<Sum>j\<in>{..<?n} - {i}. run_of (wk s j))"
    unfolding running_def by (rule sum.remove) (use assms in auto)
  moreover have "(\<Sum>j<?n. run_of (((wk s)(i := w)) j)) = run_of w + (\<Sum>j\<in>{..<?n} - {i}. run_of (((wk s)(i := w)) j))"
    by (subst sum.remove [of _ i]) (use assms in auto)
  moreover have "(\<Sum>j\<in>{..<?n} - {i}. run_of (((wk s)(i := w)) j)) = (\<Sum>j\<in>{..<?n} - {i}. run_of (wk s j))"
    by (rule sum.cong) auto
  ultimately show ?thesis using assms(2) by (simp add: running_def)
qed

lemma running_cong [simp]:
  "running (s\<lparr>starting := a\<rparr>) = running s" "running (s\<lparr>joining := a\<rparr>) = running s" "running (s\<lparr>pushed := p\<rparr>) = running s"
  "running (s\<lparr>begun := p\<rparr>) = running s" "running (s\<lparr>ended := p\<rparr>) = running s"
  by (simp_all add: running_def)

lemma running_broadcast: "running (s\<lparr>tpool := tp, wk := broadcast (wk s)\<rparr>) = running s" if "workers tp = workers (tpool s)"
proof -
  have "run_of (broadcast (wk s) i) = run_of (wk s i)" for i by (auto simp: broadcast_def run_of_def)
  then show ?thesis using that by (simp add: running_def)
qed

text \<open>A step of a worker that takes no task changes its place only.\<close>

lemma worker_stepD:
  assumes "worker_step i s = Some t"
  obtains (move) w where "t = s\<lparr>wk := (wk s)(i := w)\<rparr>" "run_of (wk s i) = {#}" "run_of w = {#}" "wk s i \<noteq> Absent" "w \<noteq> Absent"
      "w = Asleep \<longrightarrow> task_head (tpool s) = [] \<and> \<not> stopping (tpool s)" "w = Returned \<longrightarrow> stopping (tpool s)"
  | (take) te tp where "t = s\<lparr>tpool := tp, wk := (wk s)(i := Running te), begun := begun s @ [te]\<rparr>" "wk s i = AtPop"
      "task_pop (tpool s) = (Some te, tp)" "\<not> stopping (tpool s)"
proof (cases "wk s i")
  case AtPop
  show ?thesis
  proof (cases "stopping (tpool s)")
    case True
    then show ?thesis using assms AtPop by (intro move [of AtLoop]) auto
  next
    case False
    obtain r tp where p: "task_pop (tpool s) = (r, tp)" by fastforce
    show ?thesis
    proof (cases r)
      case None
      with p task_pop_sel(2) [of "tpool s" tp] False assms AtPop show ?thesis by (intro move [of Asleep]) auto
    next
      case (Some te)
      with p False assms AtPop show ?thesis by (intro take [of te tp]) auto
    qed
  qed
qed (use assms move in \<open>auto split: if_splits\<close>)

lemma tasks_inv_step:
  assumes "tp_step s t" "tasks_inv s" "workers_inv s"
  shows "tasks_inv t"
  using assms
proof (induction rule: tp_step.induct)
  case (push te s tp)
  then show ?case using task_push_sel [OF push(1)] running_broadcast [of tp s] by (auto simp: tasks_inv_def)
next
  case (push_fails te s tp)
  then show ?case using task_push_sel [OF push_fails(1)] by (simp add: tasks_inv_def running_def)
next
  case (work i s t)
  from work(1) show ?case
  proof (cases rule: worker_stepD)
    case (move w)
    have "i < nat (workers (tpool s))" using move work(3) by (intro workers_inv_range) simp_all
    from running_upd [OF this, of "tpool s" w] move work(2) show ?thesis by (simp add: tasks_inv_def)
  next
    case (take te tp)
    have "i < nat (workers (tpool s))" using take work(3) by (intro workers_inv_range) simp_all
    from running_upd [OF this, of tp "Running te"] task_pop_sel(1) [OF take(3)] take work(2) show ?thesis
      by (simp add: tasks_inv_def)
  qed
next
  case (finish s i te)
  have "i < nat (workers (tpool s))" using finish by (intro workers_inv_range) simp_all
  from running_upd [OF this, of "tpool s" AtLoop] finish have "running (s\<lparr>wk := (wk s)(i := AtLoop)\<rparr>) + {#te#} = running s" by simp
  then show ?case using finish(2) by (simp add: tasks_inv_def)
next
  case (spurious s i)
  have "i < nat (workers (tpool s))" using spurious by (intro workers_inv_range) simp_all
  from running_upd [OF this, of "tpool s" Woken] spurious show ?case by (simp add: tasks_inv_def)
next
  case (start_one s i)
  have "i < nat (workers (tpool s))" using start_one by simp
  moreover have "wk s i = Absent" using start_one by (auto simp: workers_inv_def present_def)
  ultimately show ?case using running_upd [of i s "tpool s" AtLoop] start_one(3) by (simp add: tasks_inv_def)
next
  case (stop_call s)
  then show ?case using running_broadcast [of "(tpool s)\<lparr>stopping := True\<rparr>" s] by (simp add: tasks_inv_def)
next
  case (stop_one s i)
  have "i < nat (workers (tpool s))" using stop_one by simp
  from running_upd [OF this, of "tpool s" Absent] stop_one show ?case by (simp add: tasks_inv_def)
qed (simp_all add: tasks_inv_def running_def)

lemma idle_ok_step: "tp_step s t \<Longrightarrow> workers_inv s \<Longrightarrow> idle_ok t"
proof (induction rule: tp_step.induct)
  case (work i s t)
  then have ok: "idle_ok s" by (simp add: workers_inv_def)
  from work(1) show ?case
  proof (cases rule: worker_stepD)
    case (move w)
    then show ?thesis using ok by (auto simp: idle_ok_def)
  next
    case (take te tp)
    then show ?thesis using ok task_pop_sel(1) [OF take(3)] by (auto simp: idle_ok_def)
  qed
next
  case (push te s tp)
  then show ?case using task_push_sel [OF push(1)] by (auto simp: idle_ok_def broadcast_def workers_inv_def)
next
  case (start_call s)
  then show ?case by (auto simp: idle_ok_def workers_inv_def present_def)
qed (auto simp: workers_inv_def idle_ok_def broadcast_def task_push_def)

lemma phase_ok_step: "tp_step s t \<Longrightarrow> workers_inv s \<Longrightarrow> phase_ok t"
proof (induction rule: tp_step.induct)
  case (work i s t)
  from work(1) show ?case
  proof (cases rule: worker_stepD)
    case (take te tp)
    then show ?thesis using work(2) task_pop_sel(1) [OF take(3)] by (simp add: workers_inv_def phase_ok_def)
  qed (use work(2) in \<open>simp add: workers_inv_def phase_ok_def\<close>)
qed (auto simp: workers_inv_def phase_ok_def dest: task_push_sel)

lemma present_same:
  "present t i = present s i" if "starting t = starting s" "joining t = joining s"
    "workers (tpool t) = workers (tpool s)" "stopping (tpool t) = stopping (tpool s)"
  using that by (simp add: present_def split: option.split)

lemma present_step: "tp_step s t \<Longrightarrow> workers_inv s \<Longrightarrow> wk t i \<noteq> Absent \<longleftrightarrow> present t i"
proof (induction rule: tp_step.induct)
  case (work k s t)
  then have old: "wk s i \<noteq> Absent \<longleftrightarrow> present s i" by (simp add: workers_inv_def)
  from work(1) show ?case
  proof (cases rule: worker_stepD)
    case (move w)
    with present_same [of t s i] old show ?thesis by (cases "i = k") simp_all
  next
    case (take te tp)
    with present_same [of t s i] old task_pop_sel(1) [OF take(3)] show ?thesis by (cases "i = k") simp_all
  qed
next
  case (push te s tp)
  then have "wk s i \<noteq> Absent \<longleftrightarrow> present s i" by (simp add: workers_inv_def)
  with present_same [of "s\<lparr>tpool := tp, wk := broadcast (wk s), pushed := pushed s @ [te]\<rparr>" s i] task_push_sel [OF push(1)]
  show ?case by (cases "wk s i = Asleep") (simp_all add: broadcast_def)
next
  case (push_fails te s tp)
  with present_same [of "s\<lparr>tpool := tp\<rparr>" s i] show ?case by (simp add: task_push_def workers_inv_def)
next
  case (finish s k te)
  then have "wk s i \<noteq> Absent \<longleftrightarrow> present s i" by (simp add: workers_inv_def)
  with finish(1) present_same [of "s\<lparr>wk := (wk s)(k := AtLoop), ended := ended s @ [te]\<rparr>" s i] show ?case
    by (cases "i = k") simp_all
next
  case (spurious s k)
  then have "wk s i \<noteq> Absent \<longleftrightarrow> present s i" by (simp add: workers_inv_def)
  with spurious(1) present_same [of "s\<lparr>wk := (wk s)(k := Woken)\<rparr>" s i] show ?case by (cases "i = k") simp_all
next
  case (start_one s k)
  then have "wk s i \<noteq> Absent \<longleftrightarrow> i < nat (workers (tpool s)) \<and> i < k" by (simp add: workers_inv_def present_def)
  with start_one(1,2) show ?case by (auto simp: present_def)
next
  case (stop_call s)
  then have "wk s i \<noteq> Absent \<longleftrightarrow> i < nat (workers (tpool s))" by (simp add: workers_inv_def present_def)
  with stop_call(2) show ?case by (cases "wk s i = Asleep") (auto simp: present_def broadcast_def)
next
  case (stop_one s k)
  then have "starting s = None" by (auto simp: workers_inv_def phase_ok_def)
  with stop_one have "wk s i \<noteq> Absent \<longleftrightarrow> i < nat (workers (tpool s)) \<and> k \<le> i" by (simp add: workers_inv_def present_def)
  with stop_one(1,2) \<open>starting s = None\<close> show ?case by (auto simp: present_def)
next
  case (start_call s)
  then have "wk s i = Absent" by (simp add: workers_inv_def present_def)
  then show ?case by (simp add: present_def)
next
  case (start_ret s k)
  then have "wk s i \<noteq> Absent \<longleftrightarrow> i < nat (workers (tpool s)) \<and> i < k" "joining s = None" "\<not> stopping (tpool s)"
    by (simp_all add: workers_inv_def present_def phase_ok_def)
  with start_ret(1,2) show ?case by (auto simp: present_def)
next
  case (stop_ret s k)
  then have n: "starting s = None" "stopping (tpool s)" by (auto simp: workers_inv_def phase_ok_def)
  with stop_ret have "wk s i \<noteq> Absent \<longleftrightarrow> i < nat (workers (tpool s)) \<and> k \<le> i" by (simp add: workers_inv_def present_def)
  with stop_ret(1,2) n show ?case by (auto simp: present_def)
qed

lemma workers_step: "tp_step s t \<Longrightarrow> workers (tpool t) = workers (tpool s)"
proof (induction rule: tp_step.induct)
  case (work i s t)
  from work show ?case by (cases rule: worker_stepD) (auto dest: task_pop_sel(1))
qed (auto dest: task_push_sel)

lemma workers_inv_step: "tp_step s t \<Longrightarrow> workers_inv s \<Longrightarrow> workers_inv t"
  using idle_ok_step [of s t] phase_ok_step [of s t] present_step [of s t] workers_step [of s t] by (simp add: workers_inv_def)

lemma taskpool_init_ok:
  assumes "taskpool_init arr new w = Some tp"
  shows "tasks_inv (tp_new tp)" "workers_inv (tp_new tp)"
  using assms
  by (auto simp: taskpool_init_def tp_new_def tasks_inv_def workers_inv_def running_def present_def idle_ok_def phase_ok_def
      Let_def split: if_splits)

lemma tp_reach_inv:
  assumes "tp_reach tp s" "taskpool_init arr new w = Some tp"
  shows "tasks_inv s" "workers_inv s"
  using assms by (induction rule: tp_reach.induct)
    (auto simp: taskpool_init_ok intro: tasks_inv_step workers_inv_step)

section \<open>Properties\<close>

text \<open>C18. Every task given to a started or stopped pool is begun at most once, and the tasks are begun in the order in
  which they were given: those begun, followed by those in the queue, are those pushed. What was
  begun has ended or is being run by exactly one worker, and the count the pool keeps is the length
  of its queue. This holds for any interleaving of workers, pushes, starts and stops.\<close>

theorem taskpool_in_order:
  assumes "taskpool_init arr new w = Some tp" "tp_reach tp s"
  shows "pushed s = begun s @ task_head (tpool s) \<and> mset (begun s) = mset (ended s) + running s \<and>
    tasks (tpool s) = int (length (task_head (tpool s)))"
  using tp_reach_inv(1) [OF assms(2,1)] by (simp add: tasks_inv_def)

text \<open>Steps of one worker while the others stand still.\<close>

fun worker_runs :: "nat \<Rightarrow> nat \<Rightarrow> tp_sys \<Rightarrow> tp_sys option" where
  "worker_runs 0 i s = Some s"
| "worker_runs (Suc n) i s = (case worker_step i s of None \<Rightarrow> None | Some t \<Rightarrow> worker_runs n i t)"

lemma worker_takes:
  assumes "wk s i \<in> {AtLoop, AtPop, Woken}" "\<not> stopping (tpool s)" "task_head (tpool s) = te # ts"
  shows "\<exists>n\<le>3. \<exists>t. worker_runs n i s = Some t \<and> wk t i = Running te \<and> task_head (tpool t) = ts"
proof -
  consider "wk s i = AtPop" | "wk s i = AtLoop" | "wk s i = Woken" using assms(1) by auto
  then show ?thesis
  proof cases
    case 1
    then have "\<exists>t. worker_runs 1 i s = Some t \<and> wk t i = Running te \<and> task_head (tpool t) = ts"
      using assms by (simp add: task_pop_def)
    then show ?thesis by (intro exI [of _ "1 :: nat"]) simp
  next
    case 2
    then have "\<exists>t. worker_runs 2 i s = Some t \<and> wk t i = Running te \<and> task_head (tpool t) = ts"
      using assms by (simp add: task_pop_def numeral_2_eq_2)
    then show ?thesis by (intro exI [of _ "2 :: nat"]) simp
  next
    case 3
    then have "\<exists>t. worker_runs 3 i s = Some t \<and> wk t i = Running te \<and> task_head (tpool t) = ts"
      using assms by (simp add: task_pop_def numeral_3_eq_3)
    then show ?thesis by (intro exI [of _ "3 :: nat"]) simp
  qed
qed

lemma worker_returns:
  assumes "wk s i \<in> {AtLoop, AtPop, Woken, Returned}" "stopping (tpool s)"
  shows "\<exists>n\<le>3. \<exists>t. worker_runs n i s = Some t \<and> wk t i = Returned"
proof -
  consider "wk s i = Returned" | "wk s i = AtLoop" | "wk s i = AtPop \<or> wk s i = Woken" using assms(1) by auto
  then show ?thesis
  proof cases
    case 1
    then show ?thesis by (intro exI [of _ 0]) simp
  next
    case 2
    then show ?thesis using assms by (intro exI [of _ 1]) simp
  next
    case 3
    then show ?thesis using assms by (intro exI [of _ 2]) (auto simp: numeral_2_eq_2)
  qed
qed

text \<open>C7. No wake-up is lost. In every state the threads can reach, a worker that is not busy and finds
  the queue not empty needs at most three steps of its own to be running the first task of the
  queue, so no worker sleeps while a task waits; and once the pool is told to stop, each worker
  returns within three steps of its own after the task it runs, so the join of \<open>taskpool_stop\<close> ends.\<close>

theorem taskpool_no_lost_wakeup:
  assumes "taskpool_init arr new w = Some tp" "tp_reach tp s" "wk s i \<noteq> Absent" "\<forall>te. wk s i \<noteq> Running te"
  shows "if stopping (tpool s) then \<exists>n\<le>3. \<exists>t. worker_runs n i s = Some t \<and> wk t i = Returned
    else case task_head (tpool s) of [] \<Rightarrow> wk s i \<noteq> Returned
      | te # ts \<Rightarrow> \<exists>n\<le>3. \<exists>t. worker_runs n i s = Some t \<and> wk t i = Running te \<and> task_head (tpool t) = ts"
proof -
  have ok: "idle_ok s" using tp_reach_inv(2) [OF assms(2,1)] by (simp add: workers_inv_def)
  show ?thesis
  proof (cases "stopping (tpool s)")
    case True
    then have "wk s i \<in> {AtLoop, AtPop, Woken, Returned}" using ok assms(3,4) by (cases "wk s i") (auto simp: idle_ok_def)
    from worker_returns [OF this True] True show ?thesis by simp
  next
    case False
    show ?thesis
    proof (cases "task_head (tpool s)")
      case Nil
      then show ?thesis using ok False by (auto simp: idle_ok_def)
    next
      case (Cons te ts)
      then have "wk s i \<in> {AtLoop, AtPop, Woken}" using ok False assms(3,4) by (cases "wk s i") (auto simp: idle_ok_def)
      from worker_takes [OF this False Cons] False Cons show ?thesis by simp
    qed
  qed
qed

text \<open>Two workers, and two tasks pushed while the first worker sleeps.\<close>

definition te1 :: task where "te1 = \<lparr>task_f = 1, task_data = 10\<rparr>"
definition te2 :: task where "te2 = \<lparr>task_f = 2, task_data = 20\<rparr>"
definition tp2 :: taskpool where
  "tp2 = \<lparr>stopping = True, tasks = 0, workers = 2, task_head = [], threads = [0, 1]\<rparr>"

lemma tp2_init: "taskpool_init (\<lambda>_. True) (\<lambda>_. True) 2 = Some tp2"
  by (simp add: taskpool_init_def tp2_def Let_def eval_nat_numeral)

definition ts_sleep :: tp_sys where
  "ts_sleep = (tp_new tp2)\<lparr>tpool := tp2\<lparr>stopping := False\<rparr>, wk := (\<lambda>_. Absent)(0 := Asleep), starting := Some 1\<rparr>"

lemma ts_sleep_reach: "tp_reach tp2 ts_sleep"
proof -
  let ?s1 = "(tp_new tp2)\<lparr>tpool := tp2\<lparr>stopping := False\<rparr>, starting := Some 0\<rparr>"
  let ?s2 = "?s1\<lparr>wk := (\<lambda>_. Absent)(0 := AtLoop), starting := Some 1\<rparr>"
  let ?s3 = "?s2\<lparr>wk := (\<lambda>_. Absent)(0 := AtPop)\<rparr>"
  have "tp_step (tp_new tp2) ?s1" using start_call [of "tp_new tp2"] by (simp add: tp_new_def tp2_def)
  moreover have "tp_step ?s1 ?s2" using start_one [of ?s1 0] by (simp add: tp_new_def tp2_def)
  moreover have "tp_step ?s2 ?s3" by (rule work [of 0]) (simp add: tp_new_def tp2_def)
  moreover have "tp_step ?s3 ts_sleep"
    by (rule work [of 0]) (simp add: tp_new_def tp2_def ts_sleep_def task_pop_def)
  ultimately show ?thesis using tp_next [of tp2] tp_init [of tp2] by metis
qed

definition ts_two :: tp_sys where
  "ts_two = ts_sleep\<lparr>tpool := tp2\<lparr>stopping := False, tasks := 2, task_head := [te1, te2]\<rparr>,
     wk := (\<lambda>_. Absent)(0 := Woken), pushed := [te1, te2]\<rparr>"

lemma ts_two_reach: "tp_reach tp2 ts_two"
proof -
  let ?s = "ts_sleep\<lparr>tpool := tp2\<lparr>stopping := False, tasks := 1, task_head := [te1]\<rparr>, wk := (\<lambda>_. Absent)(0 := Woken), pushed := [te1]\<rparr>"
  have b: "broadcast ((\<lambda>_. Absent)(0 := Asleep)) = (\<lambda>_. Absent)(0 := Woken)" "broadcast ((\<lambda>_. Absent)(0 := Woken)) = (\<lambda>_. Absent)(0 := Woken)"
    by (auto simp: broadcast_def fun_eq_iff)
  have "tp_step ts_sleep ?s" using push [of te1 ts_sleep]
    by (simp add: ts_sleep_def tp_new_def tp2_def task_push_def b)
  moreover have "tp_step ?s ts_two" using push [of te2 ?s]
    by (simp add: ts_two_def tp_new_def tp2_def task_push_def b)
  ultimately show ?thesis using tp_next [of tp2] ts_sleep_reach by metis
qed

theorem taskpool_in_order_witness:
  "tp_reach tp2 ts_two \<and> pushed ts_two = begun ts_two @ task_head (tpool ts_two) \<and> tasks (tpool ts_two) = 2"
  using taskpool_in_order [OF tp2_init ts_two_reach] ts_two_reach by (simp add: ts_two_def)

theorem taskpool_no_lost_wakeup_witness:
  "tp_reach tp2 ts_two \<and> (\<exists>n t. worker_runs n 0 ts_two = Some t \<and> wk t 0 = Running te1 \<and> task_head (tpool t) = [te2])"
  using taskpool_no_lost_wakeup [OF tp2_init ts_two_reach, of 0] ts_two_reach
  by (auto simp: ts_two_def ts_sleep_def tp_new_def)

end
