(* ===== verification/EvLoop.thy ===== *)
theory EvLoop
  imports Ev Taskpool
begin

text \<open>
  The threads of \<^verbatim>\<open>src/src/ev/ev.c\<close>: other threads hand their operations on the descriptor set to the thread
  of the loop and sleep until it has done them (\<open>ev_fdset_ctl\<close>, \<open>ev_fdset_run_task\<close>, \<open>ev_fdset_poll\<close>), and the
  loops are started on a task pool (\<open>__ev_init\<close>, \<open>ev_hndl\<close>). The set itself is that of \<open>Ev\<close>, the wait groups and
  the pool are those of \<open>Taskpool\<close>. What a function does under a lock is one step.
\<close>

section \<open>Tasks\<close>

text \<open>The task of a caller is on its stack: one for each caller. The result of the handler is 0 or minus an
  error number.\<close>

record ev_task =
  t_wg :: waitgroup
  t_rc :: "errno option"
  t_op :: int
  t_fd :: nat

text \<open>\<open>ev_task_init\<close>, with the \<open>waitgroup_add\<close> of \<open>ev_fdset_run_task\<close>.\<close>

definition ev_task_init :: "int \<Rightarrow> nat \<Rightarrow> ev_task" where
  "ev_task_init op a = \<lparr>t_wg = waitgroup_add waitgroup_init, t_rc = None, t_op = op, t_fd = a\<rparr>"

text \<open>\<open>fd_async_task_hndl\<close>.\<close>

definition fd_async_task_hndl :: "evset \<Rightarrow> ev_task \<Rightarrow> ctl_res" where
  "fd_async_task_hndl es ts = ev_fdset_ctl es (t_op ts) (t_fd ts)"

text \<open>The table \<open>fds_ctl_vfptr\<close>: an operation it does not have is refused before a task is made.\<close>

definition fds_ctl_known :: "int \<Rightarrow> bool" where
  "fds_ctl_known op \<longleftrightarrow> op = EV_ADD \<or> op = EV_DEL \<or> op = EV_MOD"

text \<open>Where a caller of \<open>ev_fdset_ctl\<close> is: outside, about to queue its task, about to test the wait group, asleep,
  returning; a call that was refused.\<close>

datatype caller = CIdle | CPosting | CChecking | CSleeping | CRet "errno option" | CRefused

text \<open>Where the loop is: at the start of \<open>ev_fdset_poll\<close>, in the walk over the tasks, between the handler of a task
  and its \<open>waitgroup_done\<close>, in the handlers of the ready descriptors.\<close>

datatype loop_pc = LTop | LTasks | LDone nat | LHandlers

text \<open>What happened to the set, in order.\<close>

datatype ev_entry = EvTask nat int nat "errno option" | EvHandler int nat "errno option"
  | EvWait "(nat \<times> u32) list" "(int \<Rightarrow> u32) option"

record loop_sys =
  l_set :: evset
  l_head :: "nat list"
  l_batch :: "nat list"
  l_pc :: loop_pc
  l_task :: "nat \<Rightarrow> ev_task"
  l_call :: "nat \<Rightarrow> caller"
  l_log :: "ev_entry list"
  l_calls :: "nat \<Rightarrow> nat"

definition loop_new :: "evset \<Rightarrow> loop_sys" where
  "loop_new es = \<lparr>l_set = es, l_head = [], l_batch = [], l_pc = LTop, l_task = (\<lambda>_. ev_task_init EV_ADD 0),
     l_call = (\<lambda>_. CIdle), l_log = [], l_calls = (\<lambda>_. 0)\<rparr>"

section \<open>Steps\<close>

text \<open>The steps of a caller.\<close>

definition call_step :: "nat \<Rightarrow> int \<Rightarrow> nat \<Rightarrow> loop_sys \<Rightarrow> loop_sys" where
  "call_step k op a s =
     (if fds_ctl_known op
      then s\<lparr>l_task := (l_task s)(k := ev_task_init op a), l_call := (l_call s)(k := CPosting),
             l_calls := (l_calls s)(k := l_calls s k + 1)\<rparr>
      else s\<lparr>l_call := (l_call s)(k := CRefused)\<rparr>)"

definition post_step :: "nat \<Rightarrow> loop_sys \<Rightarrow> loop_sys" where
  "post_step k s = s\<lparr>l_head := l_head s @ [k], l_call := (l_call s)(k := CChecking)\<rparr>"

definition check_step :: "nat \<Rightarrow> loop_sys \<Rightarrow> loop_sys" where
  "check_step k s =
     s\<lparr>l_call := (l_call s)(k := if waitgroup_waits (t_wg (l_task s k)) then CSleeping else CRet (t_rc (l_task s k)))\<rparr>"

text \<open>The steps of the loop in \<open>ev_fdset_poll\<close>.\<close>

definition splice_step :: "loop_sys \<Rightarrow> loop_sys" where
  "splice_step s = s\<lparr>l_batch := l_head s @ l_batch s, l_head := [], l_pc := LTasks\<rparr>"

definition exec_step :: "nat \<Rightarrow> loop_sys \<Rightarrow> loop_sys cres" where
  "exec_step k s =
     cbind (fd_async_task_hndl (l_set s) (l_task s k)) (\<lambda>(rc, es).
       Ok (s\<lparr>l_set := es, l_batch := tl (l_batch s), l_task := (l_task s)(k := (l_task s k)\<lparr>t_rc := rc\<rparr>), l_pc := LDone k,
             l_log := l_log s @ [EvTask k (t_op (l_task s k)) (t_fd (l_task s k)) rc]\<rparr>))"

definition done_step :: "nat \<Rightarrow> loop_sys \<Rightarrow> loop_sys" where
  "done_step k s =
     (let (wakes, wg) = waitgroup_done (t_wg (l_task s k))
      in s\<lparr>l_task := (l_task s)(k := (l_task s k)\<lparr>t_wg := wg\<rparr>), l_pc := LTasks,
           l_call := (if wakes \<and> l_call s k = CSleeping then (l_call s)(k := CChecking) else l_call s)\<rparr>)"

definition wait_step :: "(nat \<times> u32) list \<Rightarrow> (int \<Rightarrow> u32) option \<Rightarrow> loop_sys \<Rightarrow> loop_sys" where
  "wait_step answer revents s =
     s\<lparr>l_set := (case eventpoll_wait (l_set s) EV_MAXEVENTS answer revents of (_, es) \<Rightarrow> es), l_pc := LHandlers,
       l_log := l_log s @ [EvWait answer revents]\<rparr>"

definition handler_step :: "int \<Rightarrow> nat \<Rightarrow> loop_sys \<Rightarrow> loop_sys cres" where
  "handler_step op a s =
     cbind (ev_fdset_ctl (l_set s) op a) (\<lambda>(rc, es). Ok (s\<lparr>l_set := es, l_log := l_log s @ [EvHandler op a rc]\<rparr>))"

inductive loop_step :: "loop_sys \<Rightarrow> loop_sys \<Rightarrow> bool" where
  call: "l_call s k = CIdle \<Longrightarrow> loop_step s (call_step k op a s)"
| post: "l_call s k = CPosting \<Longrightarrow> loop_step s (post_step k s)"
| check: "l_call s k = CChecking \<Longrightarrow> loop_step s (check_step k s)"
| unasked: "l_call s k = CSleeping \<Longrightarrow> loop_step s (s\<lparr>l_call := (l_call s)(k := CChecking)\<rparr>)"
| leaves: "l_call s k = CRet r \<or> l_call s k = CRefused \<Longrightarrow> loop_step s (s\<lparr>l_call := (l_call s)(k := CIdle)\<rparr>)"
| splice: "l_pc s = LTop \<Longrightarrow> loop_step s (splice_step s)"
| exec: "l_pc s = LTasks \<Longrightarrow> l_batch s = k # b \<Longrightarrow> exec_step k s = Ok t \<Longrightarrow> loop_step s t"
| dones: "l_pc s = LDone k \<Longrightarrow> loop_step s (done_step k s)"
| waits: "l_pc s = LTasks \<Longrightarrow> l_batch s = [] \<Longrightarrow> loop_step s (wait_step answer revents s)"
| handler: "l_pc s = LHandlers \<Longrightarrow> handler_step op a s = Ok t \<Longrightarrow> loop_step s t"
| turn: "l_pc s = LHandlers \<Longrightarrow> loop_step s (s\<lparr>l_pc := LTop\<rparr>)"

inductive loop_reach :: "evset \<Rightarrow> loop_sys \<Rightarrow> bool" for es where
  loop_init: "loop_reach es (loop_new es)"
| loop_next: "loop_reach es s \<Longrightarrow> loop_step s t \<Longrightarrow> loop_reach es t"

section \<open>Invariant\<close>

text \<open>The log, run by one thread.\<close>

fun replay :: "ev_entry list \<Rightarrow> evset \<Rightarrow> evset option" where
  "replay [] es = Some es"
| "replay (EvTask k op a rc # l) es =
     (case ev_fdset_ctl es op a of Ok (r, es) \<Rightarrow> if r = rc then replay l es else None | _ \<Rightarrow> None)"
| "replay (EvHandler op a rc # l) es =
     (case ev_fdset_ctl es op a of Ok (r, es) \<Rightarrow> if r = rc then replay l es else None | _ \<Rightarrow> None)"
| "replay (EvWait answer revents # l) es =
     (case eventpoll_wait es EV_MAXEVENTS answer revents of (_, es) \<Rightarrow> replay l es)"

text \<open>The entries of one caller.\<close>

fun entries_of :: "nat \<Rightarrow> ev_entry list \<Rightarrow> (int \<times> nat \<times> errno option) list" where
  "entries_of k [] = []"
| "entries_of k (EvTask j op a rc # l) = (if j = k then (op, a, rc) # entries_of k l else entries_of k l)"
| "entries_of k (_ # l) = entries_of k l"

lemma entries_of_append [simp]: "entries_of k (l @ l') = entries_of k l @ entries_of k l'"
  by (induction k l rule: entries_of.induct) simp_all

lemma replay_append: "replay (l @ l') es = (case replay l es of None \<Rightarrow> None | Some es \<Rightarrow> replay l' es)"
  by (induction l es rule: replay.induct) (auto split: cres.splits prod.splits)

text \<open>A caller's task is queued, served, or neither.\<close>

definition task_pending :: "loop_sys \<Rightarrow> nat \<Rightarrow> bool" where
  "task_pending s k \<longleftrightarrow> k \<in> set (l_head s @ l_batch s)"

definition served :: "loop_sys \<Rightarrow> nat \<Rightarrow> errno option \<Rightarrow> bool" where
  "served s k r \<longleftrightarrow> length (entries_of k (l_log s)) = l_calls s k \<and>
     (\<exists>es. entries_of k (l_log s) = es @ [(t_op (l_task s k), t_fd (l_task s k), r)])"

definition caller_ok :: "loop_sys \<Rightarrow> nat \<Rightarrow> bool" where
  "caller_ok s k \<longleftrightarrow>
     (case l_call s k of
        CPosting \<Rightarrow> Suc (length (entries_of k (l_log s))) = l_calls s k \<and> \<not> task_pending s k \<and> l_pc s \<noteq> LDone k \<and> t_wg (l_task s k) = 1
      | CChecking \<Rightarrow>
          (if task_pending s k then Suc (length (entries_of k (l_log s))) = l_calls s k \<and> l_pc s \<noteq> LDone k \<and> t_wg (l_task s k) = 1
           else served s k (t_rc (l_task s k)) \<and> t_wg (l_task s k) = (if l_pc s = LDone k then 1 else 0))
      | CSleeping \<Rightarrow>
          (if task_pending s k then Suc (length (entries_of k (l_log s))) = l_calls s k \<and> l_pc s \<noteq> LDone k \<and> t_wg (l_task s k) = 1
           else served s k (t_rc (l_task s k)) \<and> t_wg (l_task s k) = 1 \<and> l_pc s = LDone k)
      | CRet r \<Rightarrow> served s k r \<and> \<not> task_pending s k \<and> l_pc s \<noteq> LDone k
      | _ \<Rightarrow> length (entries_of k (l_log s)) = l_calls s k \<and> \<not> task_pending s k \<and> l_pc s \<noteq> LDone k)"

definition loop_inv :: "evset \<Rightarrow> loop_sys \<Rightarrow> bool" where
  "loop_inv es s \<longleftrightarrow> replay (l_log s) es = Some (l_set s) \<and> distinct (l_head s @ l_batch s) \<and>
     (l_pc s = LTop \<or> l_pc s = LHandlers \<longrightarrow> l_batch s = []) \<and> (\<forall>k. caller_ok s k)"

lemma caller_ok_same:
  assumes "l_call t j = l_call s j" "task_pending t j = task_pending s j" "l_task t j = l_task s j"
    "entries_of j (l_log t) = entries_of j (l_log s)" "l_calls t j = l_calls s j" "(l_pc t = LDone j) = (l_pc s = LDone j)"
  shows "caller_ok t j = caller_ok s j"
  using assms by (simp add: caller_ok_def served_def split: caller.split)

lemmas loop_steps = call_step_def post_step_def check_step_def splice_step_def done_step_def wait_step_def

lemma wg_tests [simp]: "waitgroup_waits 1" "\<not> waitgroup_waits 0" "waitgroup_done 1 = (True, 0)" "waitgroup_done 0 = (False, -1)"
  by (simp_all add: waitgroup_waits_def waitgroup_done_def waitgroup_decr_def)

lemma task_init_sel [simp]:
  "t_wg (ev_task_init op a) = 1" "t_op (ev_task_init op a) = op" "t_fd (ev_task_init op a) = a"
  by (simp_all add: ev_task_init_def waitgroup_add_def waitgroup_incr_def waitgroup_init_def)

lemma exec_stepD:
  assumes "exec_step k s = Ok t"
  obtains rc es where "ev_fdset_ctl (l_set s) (t_op (l_task s k)) (t_fd (l_task s k)) = Ok (rc, es)"
    "t = s\<lparr>l_set := es, l_batch := tl (l_batch s), l_task := (l_task s)(k := (l_task s k)\<lparr>t_rc := rc\<rparr>), l_pc := LDone k,
       l_log := l_log s @ [EvTask k (t_op (l_task s k)) (t_fd (l_task s k)) rc]\<rparr>"
  using assms by (auto simp: exec_step_def fd_async_task_hndl_def cbind_eq_Ok)

lemma handler_stepD:
  assumes "handler_step op a s = Ok t"
  obtains rc es where "ev_fdset_ctl (l_set s) op a = Ok (rc, es)" "t = s\<lparr>l_set := es, l_log := l_log s @ [EvHandler op a rc]\<rparr>"
  using assms by (auto simp: handler_step_def cbind_eq_Ok)

text \<open>The caller that moves, or whose task the loop works on.\<close>

lemma call_step_ok: "l_call s k = CIdle \<Longrightarrow> caller_ok s k \<Longrightarrow> caller_ok (call_step k op a s) k"
  by (simp add: call_step_def caller_ok_def task_pending_def)

lemma post_step_ok: "l_call s k = CPosting \<Longrightarrow> caller_ok s k \<Longrightarrow> caller_ok (post_step k s) k"
  by (simp add: post_step_def caller_ok_def task_pending_def)

lemma check_step_ok: "l_call s k = CChecking \<Longrightarrow> caller_ok s k \<Longrightarrow> caller_ok (check_step k s) k"
  by (auto simp: check_step_def caller_ok_def task_pending_def served_def split: if_splits)

lemma exec_step_ok:
  assumes "exec_step k s = Ok t" "l_batch s = k # b" "distinct (l_head s @ l_batch s)" "caller_ok s k"
  shows "caller_ok t k"
proof -
  from assms(1) obtain rc es where t: "t = s\<lparr>l_set := es, l_batch := tl (l_batch s),
    l_task := (l_task s)(k := (l_task s k)\<lparr>t_rc := rc\<rparr>), l_pc := LDone k,
       l_log := l_log s @ [EvTask k (t_op (l_task s k)) (t_fd (l_task s k)) rc]\<rparr>" by (rule exec_stepD)
  have p: "task_pending s k" "\<not> task_pending t k" using assms(2,3) t by (auto simp: task_pending_def)
  then have "l_call s k = CChecking \<or> l_call s k = CSleeping" using assms(4) by (auto simp: caller_ok_def split: caller.splits)
  then show ?thesis using assms(4) p t by (auto simp: caller_ok_def served_def)
qed

lemma done_step_ok:
  assumes "l_pc s = LDone k" "caller_ok s k"
  shows "caller_ok (done_step k s) k"
proof -
  have "\<not> task_pending s k" "l_call s k = CChecking \<or> l_call s k = CSleeping"
    using assms by (auto simp: caller_ok_def split: caller.splits if_splits)
  then show ?thesis using assms by (auto simp: caller_ok_def served_def done_step_def task_pending_def)
qed

lemma loop_inv_step:
  assumes "loop_step s t" "loop_inv es s"
  shows "loop_inv es t"
proof -
  have keep: "loop_inv es t" if r: "replay (l_log t) es = Some (l_set t)" and d: "distinct (l_head t @ l_batch t)"
    and p: "l_pc t = LTop \<or> l_pc t = LHandlers \<longrightarrow> l_batch t = []" and k: "caller_ok t k"
    and j: "\<And>j. j \<noteq> k \<Longrightarrow> l_call t j = l_call s j \<and> task_pending t j = task_pending s j \<and> l_task t j = l_task s j \<and>
      entries_of j (l_log t) = entries_of j (l_log s) \<and> l_calls t j = l_calls s j \<and> (l_pc t = LDone j) = (l_pc s = LDone j)" for k
  proof -
    have "caller_ok t j" for j
      using k assms(2) j [of j] caller_ok_same [of t j s] by (cases "j = k") (auto simp: loop_inv_def)
    then show ?thesis using r d p by (simp add: loop_inv_def)
  qed
  have inv: "replay (l_log s) es = Some (l_set s)" "distinct (l_head s @ l_batch s)"
    "l_pc s = LTop \<or> l_pc s = LHandlers \<longrightarrow> l_batch s = []" "\<And>k. caller_ok s k" using assms(2) by (auto simp: loop_inv_def)
  from assms(1) show ?thesis
  proof (cases rule: loop_step.cases)
    case (call k op a)
    show ?thesis by (rule keep [of k]) (use call inv call_step_ok in \<open>auto simp: call_step_def task_pending_def\<close>)
  next
    case (post k)
    have "\<not> task_pending s k" using inv(4) [of k] post by (simp add: caller_ok_def)
    then show ?thesis by (intro keep [of k]) (use post inv post_step_ok in \<open>auto simp: post_step_def task_pending_def\<close>)
  next
    case (check k)
    show ?thesis by (rule keep [of k]) (use check inv check_step_ok in \<open>auto simp: check_step_def task_pending_def\<close>)
  next
    case (unasked k)
    have "caller_ok t k" using inv(4) [of k] unasked by (auto simp: caller_ok_def task_pending_def served_def split: if_splits)
    then show ?thesis by (intro keep [of k]) (use unasked inv in \<open>auto simp: task_pending_def\<close>)
  next
    case (leaves k r)
    have "caller_ok t k" using inv(4) [of k] leaves by (auto simp: caller_ok_def task_pending_def served_def)
    then show ?thesis by (intro keep [of k]) (use leaves inv in \<open>auto simp: task_pending_def\<close>)
  next
    case splice
    have pt: "task_pending t j = task_pending s j" for j using splice by (simp add: splice_step_def task_pending_def)
    have "caller_ok t j" for j
      using inv(4) [of j] caller_ok_same [of t j s] pt [of j] splice by (auto simp: splice_step_def)
    then show ?thesis using splice inv by (simp add: loop_inv_def splice_step_def)
  next
    case (exec k b)
    from exec(3) obtain rc fs where e: "ev_fdset_ctl (l_set s) (t_op (l_task s k)) (t_fd (l_task s k)) = Ok (rc, fs)"
      "t = s\<lparr>l_set := fs, l_batch := tl (l_batch s), l_task := (l_task s)(k := (l_task s k)\<lparr>t_rc := rc\<rparr>), l_pc := LDone k,
         l_log := l_log s @ [EvTask k (t_op (l_task s k)) (t_fd (l_task s k)) rc]\<rparr>" by (rule exec_stepD)
    have "caller_ok t k" by (rule exec_step_ok [OF exec(3,2) inv(2,4)])
    then show ?thesis by (intro keep [of k]) (use exec e inv in \<open>auto simp: replay_append task_pending_def\<close>)
  next
    case (dones k)
    have one: "t_wg (l_task s k) = 1" using inv(4) [of k] dones(2) by (auto simp: caller_ok_def split: caller.splits if_splits)
    have ok: "caller_ok t k" using done_step_ok [OF dones(2) inv(4)] dones(1) by simp
    have t: "t = s\<lparr>l_task := (l_task s)(k := (l_task s k)\<lparr>t_wg := 0\<rparr>), l_pc := LTasks,
        l_call := (if l_call s k = CSleeping then (l_call s)(k := CChecking) else l_call s)\<rparr>"
      using dones(1) one by (simp add: done_step_def)
    have sel: "l_log t = l_log s" "l_set t = l_set s" "l_head t = l_head s" "l_batch t = l_batch s" "l_pc t = LTasks"
      "l_calls t = l_calls s" "\<And>j. j \<noteq> k \<Longrightarrow> l_call t j = l_call s j \<and> l_task t j = l_task s j" using t by simp_all
    show ?thesis by (rule keep [OF _ _ _ ok]) (use inv dones(2) sel in \<open>auto simp: task_pending_def\<close>)
  next
    case (waits answer revents)
    have pt: "task_pending t j = task_pending s j" for j using waits by (simp add: wait_step_def task_pending_def)
    have "caller_ok t j" for j
      using inv(4) [of j] caller_ok_same [of t j s] pt [of j] waits by (auto simp: wait_step_def)
    then show ?thesis using waits inv by (simp add: loop_inv_def wait_step_def replay_append split: prod.splits)
  next
    case (handler op a)
    from handler(2) obtain rc fs where e: "ev_fdset_ctl (l_set s) op a = Ok (rc, fs)"
      "t = s\<lparr>l_set := fs, l_log := l_log s @ [EvHandler op a rc]\<rparr>" by (rule handler_stepD)
    have pt: "task_pending t j = task_pending s j" for j using e(2) by (simp add: task_pending_def)
    have "caller_ok t j" for j
      using inv(4) [of j] caller_ok_same [of t j s] pt [of j] e(2) by auto
    then show ?thesis using e inv handler(1) by (simp add: loop_inv_def replay_append)
  next
    case turn
    have pt: "task_pending t j = task_pending s j" for j using turn by (simp add: task_pending_def)
    have "caller_ok t j" for j
      using inv(4) [of j] caller_ok_same [of t j s] pt [of j] turn by auto
    then show ?thesis using turn inv by (simp add: loop_inv_def)
  qed
qed

lemma loop_reach_inv: "loop_reach es s \<Longrightarrow> loop_inv es s"
proof (induction rule: loop_reach.induct)
  case loop_init
  show ?case by (simp add: loop_inv_def loop_new_def caller_ok_def task_pending_def)
qed (rule loop_inv_step)

section \<open>The loops\<close>

text \<open>\<open>ev_add_gtask\<close> and \<open>ev_pop_gtask\<close>.\<close>

definition ev_add_gtask :: "'a \<Rightarrow> 'a list \<Rightarrow> 'a list" where
  "ev_add_gtask ts ev_tasks = ev_tasks @ [ts]"

definition ev_pop_gtask :: "'a list \<Rightarrow> 'a option \<times> 'a list" where
  "ev_pop_gtask ev_tasks = (case ev_tasks of [] \<Rightarrow> (None, []) | ts # r \<Rightarrow> (Some ts, r))"

definition EV_MAXPROCESSORS :: nat where "EV_MAXPROCESSORS = 32"

text \<open>What \<open>sscanf\<close> finds in the environment variable: nothing to read, no number, a number.\<close>

datatype scan = ScanEnd | ScanFail | ScanInt i32

definition ev_processors_init :: "i32 \<Rightarrow> scan option \<Rightarrow> i32" where
  "ev_processors_init online max_cpus =
     (let n = (if sint online < 1 then 1 else online)
      in case max_cpus of
           Some ScanFail \<Rightarrow> 1
         | Some (ScanInt v) \<Rightarrow> v
         | _ \<Rightarrow> n)"

text \<open>The loop of \<open>__ev_init\<close>: \<open>ev_hndl\<close> returns at exit only, so each loop needs a worker of its own; without
  one, \<open>waitgroup_wait\<close> never returns (\<open>None\<close>). The loops are an array of \<open>EV_MAXPROCESSORS\<close>.\<close>

fun start_loops :: "nat \<Rightarrow> nat \<Rightarrow> int \<Rightarrow> nat cres option" where
  "start_loops 0 i n = Some (Ok i)"
| "start_loops (Suc k) i n =
     (if i \<ge> EV_MAXPROCESSORS then Some Undef
      else if int i \<ge> n then None
      else start_loops k (i + 1) n)"

text \<open>\<open>__ev_init\<close>: the number of loops. The result of \<open>taskpool_init\<close> is not looked at: without the array of
  threads \<open>taskpool_start\<close> reads a null pointer, and without any thread the first loop is waited for
  in vain.\<close>

definition ev_init :: "(u64 \<Rightarrow> bool) \<Rightarrow> (nat \<Rightarrow> bool) \<Rightarrow> i32 \<Rightarrow> scan option \<Rightarrow> nat cres option" where
  "ev_init arr new online max_cpus =
     (let n = ev_processors_init online max_cpus
      in case taskpool_init arr new n of
           Some tp \<Rightarrow> start_loops (nat (sint n)) 0 (workers tp)
         | None \<Rightarrow> if sint n \<le> 0 then Some (Ok 0)
                  else if \<not> arr (word_of_int (sizeof_thread * sint n)) then Some Undef
                  else start_loops (nat (sint n)) 0 0)"

text \<open>\<open>ev_get_loop\<close>: the remainder of C has the sign of the dividend.\<close>

definition ev_get_loop :: "i32 \<Rightarrow> i32 \<Rightarrow> nat cres" where
  "ev_get_loop processors hash =
     (if processors = 0 then Undef
      else let r = sgn (sint hash) * (\<bar>sint hash\<bar> mod \<bar>sint processors\<bar>)
           in if r < 0 \<or> r \<ge> int EV_MAXPROCESSORS then Undef else Ok (nat r))"

text \<open>A turn of \<open>ev_hndl\<close>: \<open>poll\<close> is what \<open>ev_fdset_poll\<close> does to the loop, \<open>run\<close> what the handler of a task does;
  \<open>None\<close> when the loop returns.\<close>

definition ev_hndl_turn :: "('l \<Rightarrow> 'l) \<Rightarrow> ('t \<Rightarrow> 'l \<Rightarrow> 'l) \<Rightarrow> bool \<Rightarrow> 'l \<times> 't list \<Rightarrow> ('l \<times> 't list) option" where
  "ev_hndl_turn poll run stopped = (\<lambda>(el, ev_tasks).
     if stopped then None
     else let el = poll el
          in case ev_pop_gtask ev_tasks of
               (Some ts, ev_tasks) \<Rightarrow> Some (run ts el, ev_tasks)
             | (None, ev_tasks) \<Rightarrow> Some (el, ev_tasks))"

text \<open>\<open>__ev_exit\<close>: the loops are told to stop; then the pool is stopped as in \<open>Taskpool\<close>.\<close>

fun ev_exit :: "nat \<Rightarrow> nat \<Rightarrow> (nat \<Rightarrow> bool) \<Rightarrow> (nat \<Rightarrow> bool) cres" where
  "ev_exit 0 i stopped = Ok stopped"
| "ev_exit (Suc k) i stopped = (if i \<ge> EV_MAXPROCESSORS then Undef else ev_exit k (i + 1) (stopped(i := True)))"

lemma ev_exit_stops:
  "i + k \<le> EV_MAXPROCESSORS \<Longrightarrow>
   \<exists>stopped'. ev_exit k i stopped = Ok stopped' \<and> (\<forall>j. stopped' j \<longleftrightarrow> stopped j \<or> (i \<le> j \<and> j < i + k))"
proof (induction k i stopped rule: ev_exit.induct)
  case (2 k i stopped)
  have i: "\<not> i \<ge> EV_MAXPROCESSORS" "i + 1 + k \<le> EV_MAXPROCESSORS" using 2(2) by simp_all
  from 2(1) [OF i] obtain stopped' where s: "ev_exit k (i + 1) (stopped(i := True)) = Ok stopped'"
    "\<forall>j. stopped' j \<longleftrightarrow> (stopped(i := True)) j \<or> (i + 1 \<le> j \<and> j < i + 1 + k)" by blast
  have "(j = i \<or> i + 1 \<le> j \<and> j < i + 1 + k) \<longleftrightarrow> i \<le> j \<and> j < i + Suc k" for j by arith
  with s(2) have "\<forall>j. stopped' j \<longleftrightarrow> stopped j \<or> (i \<le> j \<and> j < i + Suc k)" by (metis fun_upd_apply)
  then show ?case using s(1) i(1) by (simp del: fun_upd_apply)
qed auto

text \<open>The global tasks are a queue: the loops run them in the order in which they were handed over, each once.\<close>

definition ev_take_gtask :: "'t list \<Rightarrow> ('t \<times> 't list) option" where
  "ev_take_gtask ev_tasks = (case ev_pop_gtask ev_tasks of (None, _) \<Rightarrow> None | (Some ts, r) \<Rightarrow> Some (ts, r))"

interpretation gtq: fifo "\<lambda>ev_tasks. ev_tasks" "\<lambda>_. True" ev_add_gtask ev_take_gtask
  by unfold_locales (auto simp: ev_add_gtask_def ev_take_gtask_def ev_pop_gtask_def split: list.splits)

lemma gtasks_in_order: "fifo_run ev_add_gtask ev_take_gtask ops [] = (out, rest) \<Longrightarrow> out @ rest = enqueued ops"
  by (drule gtq.run_conserves [OF TrueI]) simp

lemma start_loops_ok:
  "i + k \<le> EV_MAXPROCESSORS \<Longrightarrow> int (i + k) \<le> n \<Longrightarrow> start_loops k i n = Some (Ok (i + k))"
  by (induction k i n rule: start_loops.induct) auto

lemma start_loops_too_many:
  "i \<le> EV_MAXPROCESSORS \<Longrightarrow> EV_MAXPROCESSORS < i + k \<Longrightarrow> int EV_MAXPROCESSORS \<le> n \<Longrightarrow> start_loops k i n = Some Undef"
  by (induction k i n rule: start_loops.induct) auto

lemma new_threads_all: "new_threads (\<lambda>_. True) is = is"
  by (induction "is") simp_all

lemma taskpool_init_all:
  "0 < sint n \<Longrightarrow> \<exists>tp. taskpool_init (\<lambda>_. True) (\<lambda>_. True) n = Some tp \<and> workers tp = sint n"
  by (simp add: taskpool_init_def new_threads_all Let_def)

text \<open>A machine with more than \<open>EV_MAXPROCESSORS\<close> processors, or a larger value in the environment, makes
  \<open>__ev_init\<close> write behind the array of loops.\<close>

lemma ev_init_too_many:
  assumes "int EV_MAXPROCESSORS < sint (ev_processors_init online env)"
  shows "ev_init (\<lambda>_. True) (\<lambda>_. True) online env = Some Undef"
proof -
  let ?n = "ev_processors_init online env"
  have "0 < sint ?n" using assms by simp
  from taskpool_init_all [OF this] obtain tp where "taskpool_init (\<lambda>_. True) (\<lambda>_. True) ?n = Some tp" "workers tp = sint ?n" by blast
  with assms show ?thesis by (simp add: ev_init_def Let_def start_loops_too_many)
qed

lemma ev_init_zero: "ev_init (\<lambda>_. True) (\<lambda>_. True) online (Some (ScanInt 0)) = Some (Ok 0)" "ev_get_loop 0 hash = Undef"
  by (simp_all add: ev_init_def ev_processors_init_def taskpool_init_def ev_get_loop_def Let_def)

lemma ev_get_loop_negative:
  assumes "0 < sint n" "sint hash < 0" "\<bar>sint hash\<bar> mod sint n \<noteq> 0"
  shows "ev_get_loop n hash = Undef"
proof -
  have "0 \<le> \<bar>sint hash\<bar> mod sint n" using assms(1) by simp
  with assms(3) have "0 < \<bar>sint hash\<bar> mod sint n" by simp
  with assms(1,2) show ?thesis by (simp add: ev_get_loop_def Let_def)
qed

section \<open>Properties\<close>

text \<open>C6. Operations that other threads hand to an event loop are atomic. In every state that callers, loop and
  handlers can reach together, the descriptor set is the one a single thread gets by doing the
  operations done so far one after the other; a caller that returns has had its operation done
  exactly once since it called, and returns the result it had; and a caller sleeps only while its
  task is queued or being finished, so it is never left asleep.\<close>

theorem ev_fdset_ctl_atomic:
  assumes "loop_reach es s"
  shows "replay (l_log s) es = Some (l_set s) \<and>
    (case l_call s k of
       CRet r \<Rightarrow> length (entries_of k (l_log s)) = l_calls s k \<and>
         last (entries_of k (l_log s)) = (t_op (l_task s k), t_fd (l_task s k), r)
     | CSleeping \<Rightarrow> k \<in> set (l_head s @ l_batch s) \<or> l_pc s = LDone k
     | _ \<Rightarrow> True)"
proof -
  have i: "replay (l_log s) es = Some (l_set s)" "caller_ok s k" using loop_reach_inv [OF assms] by (auto simp: loop_inv_def)
  then show ?thesis
    by (auto simp: caller_ok_def served_def task_pending_def split: caller.splits if_splits)
qed

text \<open>A caller adds a descriptor: it sleeps, the loop does the operation and wakes it.\<close>

definition set1 :: evset where
  "set1 = \<lparr>ev_backend = Poll, fdds = [], fd_size = 0, ev_store = (\<lambda>_. fdd_init), ep_answers = [], ep_calls = []\<rparr>"

lemma set1_add: "\<exists>es. ev_fdset_ctl set1 EV_ADD 7 = Ok (None, es)"
  by (simp add: ev_fdset_ctl_def ev_fdset_add_def eventpoll_ctl_def eventpoll_add_def set1_def upd_fd_def fdd_init_def Let_def)

theorem ev_fdset_ctl_atomic_witness:
  "\<exists>s. loop_reach set1 s \<and> l_call s 5 = CRet None \<and> entries_of 5 (l_log s) = [(EV_ADD, 7, None)] \<and>
     replay (l_log s) set1 = Some (l_set s)"
proof -
  define s1 where "s1 = post_step 5 (call_step 5 EV_ADD 7 (loop_new set1))"
  define s2 where "s2 = splice_step (check_step 5 s1)"
  obtain es where es: "ev_fdset_ctl set1 EV_ADD 7 = Ok (None, es)" using set1_add by blast
  have sel: "l_call (loop_new set1) 5 = CIdle" "l_call (call_step 5 EV_ADD 7 (loop_new set1)) 5 = CPosting"
    "l_call s1 5 = CChecking" "l_pc (check_step 5 s1) = LTop"
    by (simp_all add: loop_new_def call_step_def fds_ctl_known_def s1_def post_step_def check_step_def)
  have s2: "l_set s2 = set1" "l_batch s2 = [5]" "l_pc s2 = LTasks" "l_task s2 5 = ev_task_init EV_ADD 7" "l_call s2 5 = CSleeping" "l_log s2 = []"
    by (simp_all add: s2_def s1_def splice_step_def check_step_def post_step_def call_step_def fds_ctl_known_def loop_new_def)
  obtain s3 where s3: "exec_step 5 s2 = Ok s3" "l_pc s3 = LDone 5" "l_call s3 5 = CSleeping" "t_wg (l_task s3 5) = 1"
    "t_rc (l_task s3 5) = None" "l_log s3 = [EvTask 5 EV_ADD 7 None]"
    using es s2 by (simp add: exec_step_def fd_async_task_hndl_def)
  define s4 where "s4 = check_step 5 (done_step 5 s3)"
  have s4: "l_call (done_step 5 s3) 5 = CChecking" "l_call s4 5 = CRet None" "l_log s4 = [EvTask 5 EV_ADD 7 None]"
    using s3 by (simp_all add: s4_def done_step_def check_step_def)
  have "loop_reach set1 s1" unfolding s1_def
    by (rule loop_next [OF loop_next [OF loop_init call [OF sel(1)]] post [OF sel(2)]])
  then have "loop_reach set1 s2" unfolding s2_def
    by (rule loop_next [OF loop_next [OF _ check [OF sel(3)]] splice [OF sel(4)]])
  then have "loop_reach set1 s3" by (rule loop_next [OF _ exec [OF s2(3,2) s3(1)]])
  then have "loop_reach set1 s4" unfolding s4_def
    by (rule loop_next [OF loop_next [OF _ dones [OF s3(2)]] check [OF s4(1)]])
  with ev_fdset_ctl_atomic [OF this, of 5] s4(2,3) show ?thesis by (intro exI [of _ s4]) simp
qed

end
