(* ===== verification/Conhash.thy ===== *)
theory Conhash
  imports StrRb Md5 Sio
begin

text \<open>
  Consistent hashing, \<^verbatim>\<open>src/src/utils/consistent_hash.c\<close>, and the load balancer over it,
  \<^verbatim>\<open>src/src/sp/reqrep/lbs_conhash.c\<close>. A key has a hundred entries in a search tree, under digests of the key and
  their number. The entries are blocks of memory: a map from addresses, which says what is allocated. The tree
  is that of \<open>StrRb\<close>, the digest that of \<open>Md5\<close>.
\<close>

section \<open>The ring\<close>

text \<open>\<open>size\<close> is an \<open>int\<close>; keys are shorter than 2 GB.\<close>

record conhash_entry =
  ce_owner :: "nat option"
  ce_md5 :: "byte list"
  ce_vsize :: i32
  ce_vno :: i32
  ce_size :: nat
  ce_key :: "byte list"

record consistent_hash =
  v_rb_tree :: str_map
  ch_head :: "nat list"
  ch_ent :: "nat \<Rightarrow> conhash_entry option"
  ch_next :: nat

text \<open>\<open>conhash_ventry_alloc\<close>: the digest is taken over the fields \<open>vsize\<close>, \<open>vno\<close>, \<open>size\<close> and \<open>key\<close>, which are next to
  each other. \<open>al\<close> says if the block can be had, \<open>junk\<close> is what the buffer of the digest held before.\<close>

definition conhash_ventry_alloc :: "bool \<Rightarrow> byte list \<Rightarrow> byte list \<Rightarrow> nat \<Rightarrow> i32 \<Rightarrow> i32 \<Rightarrow> conhash_entry option" where
  "conhash_ventry_alloc al junk key n vsize vno =
     (if \<not> al then None
      else let ce = \<lparr>ce_owner = None, ce_md5 = replicate 16 0, ce_vsize = vsize, ce_vno = vno, ce_size = n,
                 ce_key = take n key\<rparr>;
               md5s = md5_process (md5_init junk)
                 (le32 (ce_vsize ce) @ le32 (ce_vno ce) @ le32 (of_nat (ce_size ce)) @ ce_key ce)
           in Some (ce\<lparr>ce_md5 := md5_done md5s\<rparr>))"

definition conhash_entry_free :: "nat \<Rightarrow> consistent_hash \<Rightarrow> consistent_hash" where
  "conhash_entry_free e ch = ch\<lparr>ch_ent := (ch_ent ch)(e := None)\<rparr>"

text \<open>The key of an entry in the tree: \<open>v_rbe\<close> points to its digest.\<close>

definition vkey :: "(nat \<Rightarrow> conhash_entry option) \<Rightarrow> nat \<Rightarrow> byte list" where
  "vkey ents a = (case ents a of Some ce \<Rightarrow> ce_md5 ce | None \<Rightarrow> [])"

definition CONHASH_DEFAULT_VNODES :: nat where "CONHASH_DEFAULT_VNODES = 100"

definition consistent_hash_init :: consistent_hash where
  "consistent_hash_init = \<lparr>v_rb_tree = str_rb_init, ch_head = [], ch_ent = (\<lambda>_. None), ch_next = 0\<rparr>"

text \<open>\<open>consistent_hash_destroy\<close>; \<open>n\<close> bounds the walks in the tree, the number of its entries the loop.\<close>

fun destroy_loop :: "nat \<Rightarrow> nat \<Rightarrow> consistent_hash \<Rightarrow> consistent_hash cres option" where
  "destroy_loop n 0 ch = None"
| "destroy_loop n (Suc k) ch =
     (case str_rb_min n (v_rb_tree ch) of
        None \<Rightarrow> None
      | Some None \<Rightarrow> Some (Ok ch)
      | Some (Some e) \<Rightarrow>
          obind (str_rb_delete n e (v_rb_tree ch)) (\<lambda>m. destroy_loop n k (conhash_entry_free e (ch\<lparr>v_rb_tree := m\<rparr>))))"

definition consistent_hash_destroy :: "nat \<Rightarrow> consistent_hash \<Rightarrow> consistent_hash cres option" where
  "consistent_hash_destroy n ch = destroy_loop n n ch"

text \<open>The loop of \<open>consistent_hash_add\<close>: if it got through, and the entries made.\<close>

fun add_vnodes :: "nat \<Rightarrow> (nat \<Rightarrow> bool) \<Rightarrow> byte list \<Rightarrow> byte list \<Rightarrow> nat option \<Rightarrow> nat \<Rightarrow> nat \<Rightarrow> nat list \<Rightarrow> consistent_hash \<Rightarrow>
    (bool \<times> nat list \<times> consistent_hash) cres option" where
  "add_vnodes n al junk key own 0 i head ch = Some (Ok (True, head, ch))"
| "add_vnodes n al junk key own (Suc k) i head ch =
     (case conhash_ventry_alloc (al i) junk key (length key) (of_nat CONHASH_DEFAULT_VNODES) (of_nat i) of
        None \<Rightarrow> Some (Ok (False, head, ch))
      | Some ce \<Rightarrow>
          let vce = ch_next ch;
              ch = ch\<lparr>ch_ent := (ch_ent ch)(vce \<mapsto> ce\<lparr>ce_owner := own\<rparr>), ch_next := vce + 1\<rparr>
          in obind (str_rb_insert (vkey (ch_ent ch)) n vce (v_rb_tree ch)) (\<lambda>(ok, m).
               if ok then add_vnodes n al junk key own k (i + 1) (head @ [vce]) (ch\<lparr>v_rb_tree := m\<rparr>)
               else Some (Ok (False, head, conhash_entry_free vce (ch\<lparr>v_rb_tree := m\<rparr>)))))"

fun drop_vnodes :: "nat \<Rightarrow> nat list \<Rightarrow> consistent_hash \<Rightarrow> consistent_hash cres option" where
  "drop_vnodes n [] ch = Some (Ok ch)"
| "drop_vnodes n (vce # head) ch =
     obind (str_rb_delete n vce (v_rb_tree ch)) (\<lambda>m. drop_vnodes n head (conhash_entry_free vce (ch\<lparr>v_rb_tree := m\<rparr>)))"

definition consistent_hash_add :: "nat \<Rightarrow> (nat \<Rightarrow> bool) \<Rightarrow> byte list \<Rightarrow> byte list \<Rightarrow> nat option \<Rightarrow> consistent_hash \<Rightarrow>
    (errno option \<times> consistent_hash) cres option" where
  "consistent_hash_add n al junk key own ch =
     obind (add_vnodes n al junk key own CONHASH_DEFAULT_VNODES 0 [] ch) (\<lambda>(full, head, ch).
       if full then Some (Ok (None, ch\<lparr>ch_head := head @ ch_head ch\<rparr>))
       else obind (drop_vnodes n head ch) (\<lambda>ch. Some (Ok (Some ENOMEM, ch))))"

text \<open>\<open>consistent_hash_get\<close>: the digest of the key is computed, and the key itself looked for.\<close>

definition consistent_hash_get :: "nat \<Rightarrow> byte list \<Rightarrow> byte list \<Rightarrow> consistent_hash \<Rightarrow> nat option cres option" where
  "consistent_hash_get n junk key ch =
     (let md5 = md5_done (md5_process (md5_init junk) key)
      in case str_rb_find_leaf (vkey (ch_ent ch)) n key (v_rb_tree ch) of
           None \<Rightarrow> None
         | Some None \<Rightarrow> Some (Ok None)
         | Some (Some rb_entry) \<Rightarrow> Some (case ch_ent ch rb_entry of None \<Rightarrow> Undef | Some ce \<Rightarrow> Ok (ce_owner ce)))"

text \<open>\<open>consistent_hash_rm\<close>: a walk over the list as it is at the start, which may unlink the entry it is at.\<close>

fun rm_walk :: "nat \<Rightarrow> byte list \<Rightarrow> nat \<Rightarrow> nat list \<Rightarrow> consistent_hash \<Rightarrow> consistent_hash cres option" where
  "rm_walk n key len [] ch = Some (Ok ch)"
| "rm_walk n key len (vce # l) ch =
     (case ch_ent ch vce of
        None \<Rightarrow> Some Undef
      | Some ce \<Rightarrow>
          if ce_size ce \<noteq> len \<or> memcmp (ce_key ce) key len \<noteq> 0 then rm_walk n key len l ch
          else let ch = ch\<lparr>ch_head := remove1 vce (ch_head ch)\<rparr>
               in obind (str_rb_delete n vce (v_rb_tree ch)) (\<lambda>m.
                    rm_walk n key len l (conhash_entry_free vce (ch\<lparr>v_rb_tree := m\<rparr>))))"

definition consistent_hash_rm :: "nat \<Rightarrow> byte list \<Rightarrow> consistent_hash \<Rightarrow> consistent_hash cres option" where
  "consistent_hash_rm n key ch = rm_walk n key (length key) (ch_head ch) ch"

section \<open>The load balancer\<close>

record conhash_lbs =
  cl_owner :: nat
  cl_tgs :: consistent_hash

definition conhash_select :: "nat \<Rightarrow> byte list \<Rightarrow> msgbuf \<Rightarrow> conhash_lbs \<Rightarrow> nat option cres option" where
  "conhash_select n junk ubuf cl =
     (let len = min (sint (usize ubuf)) 16
      in if len < 0 then Some Undef else consistent_hash_get n junk (take (nat len) (ubase ubuf)) (cl_tgs cl))"

definition conhash_new :: "bool \<Rightarrow> nat \<Rightarrow> conhash_lbs cres" where
  "conhash_new al reqep = (if \<not> al then Undef else Ok \<lparr>cl_owner = reqep, cl_tgs = consistent_hash_init\<rparr>)"

definition conhash_free :: "nat \<Rightarrow> conhash_lbs \<Rightarrow> unit cres option" where
  "conhash_free n cl = obind (consistent_hash_destroy n (cl_tgs cl)) (\<lambda>_. Some (Ok ()))"

definition conhash_add :: "nat \<Rightarrow> (nat \<Rightarrow> bool) \<Rightarrow> byte list \<Rightarrow> byte list \<Rightarrow> nat \<Rightarrow> conhash_lbs \<Rightarrow> conhash_lbs cres option" where
  "conhash_add n al junk uuid tg cl =
     obind (consistent_hash_add n al junk uuid (Some tg) (cl_tgs cl)) (\<lambda>(_, ch). Some (Ok (cl\<lparr>cl_tgs := ch\<rparr>)))"

definition conhash_rm :: "nat \<Rightarrow> byte list \<Rightarrow> conhash_lbs \<Rightarrow> conhash_lbs cres option" where
  "conhash_rm n uuid cl = obind (consistent_hash_rm n uuid (cl_tgs cl)) (\<lambda>ch. Some (Ok (cl\<lparr>cl_tgs := ch\<rparr>)))"

section \<open>The tree of a ring\<close>

text \<open>The tree has the allocated entries, and no two with the same digest.\<close>

definition tree_ok :: "consistent_hash \<Rightarrow> bool" where
  "tree_ok ch \<longleftrightarrow> (\<exists>t. str_holds (vkey (ch_ent ch)) (v_rb_tree ch) t \<and> set (inorder t) = dom (ch_ent ch))"

definition room :: "nat \<Rightarrow> consistent_hash \<Rightarrow> bool" where
  "room n ch \<longleftrightarrow> dom (ch_ent ch) \<subseteq> {..<ch_next ch} \<and> ch_next ch < n"

lemma tree_size:
  assumes "str_holds K m t" "set (inorder t) \<subseteq> {..<k}"
  shows "length (inorder t) \<le> k" "rheight t \<le> k"
proof -
  have "distinct (inorder t)" using assms(1) by (simp add: str_holds_def held_def)
  then have "length (inorder t) = card (set (inorder t))" by (simp add: distinct_card)
  also have "\<dots> \<le> k" using card_mono [OF _ assms(2)] by simp
  finally show "length (inorder t) \<le> k" .
  then show "rheight t \<le> k" using height_length [of t] by simp
qed

lemma vkey_upd: "a \<noteq> e \<Longrightarrow> vkey (f(e := x)) a = vkey f a"
  by (simp add: vkey_def)

lemma vkey_in: "set (inorder t) = dom f \<Longrightarrow> vkey f ` set (inorder t) = ce_md5 ` ran f"
  by (auto simp: vkey_def ran_def image_def dom_def)

text \<open>Linking an entry.\<close>

lemma insert_entry:
  assumes t: "tree_ok ch" and r: "room n ch" and e: "ch_ent ch e = None"
    and f: "f = (ch_ent ch)(e \<mapsto> ce)"
  shows "if ce_md5 ce \<in> ce_md5 ` ran (ch_ent ch)
    then \<exists>m. str_rb_insert (vkey f) n e (v_rb_tree ch) = Some (Ok (False, m)) \<and> tree_ok (ch\<lparr>v_rb_tree := m\<rparr>)
    else \<exists>m. str_rb_insert (vkey f) n e (v_rb_tree ch) = Some (Ok (True, m)) \<and> tree_ok (ch\<lparr>v_rb_tree := m, ch_ent := f\<rparr>)"
proof -
  from t obtain t where h: "str_holds (vkey (ch_ent ch)) (v_rb_tree ch) t" "set (inorder t) = dom (ch_ent ch)"
    by (auto simp: tree_ok_def)
  have new: "e \<notin> set (inorder t)" using h(2) e by auto
  have same: "vkey f a = vkey (ch_ent ch) a" if "a \<in> set (inorder t)" for a using that new vkey_upd f by metis
  have hf: "str_holds (vkey f) (v_rb_tree ch) t" using h(1) str_holds_cong [of t, OF same] by simp
  have n: "rheight t < n" using tree_size(2) [OF h(1), of "ch_next ch"] h(2) r by (simp add: room_def)
  have "vkey f ` set (inorder t) = ce_md5 ` ran (ch_ent ch)" using vkey_in [OF h(2)] same by force
  then have key: "vkey f e = ce_md5 ce" "str_map_of (vkey f) t (ce_md5 ce) = None \<longleftrightarrow> ce_md5 ce \<notin> ce_md5 ` ran (ch_ent ch)"
    by (simp_all add: f vkey_def str_map_of_None)
  note ins = str_rb_insert_ok [OF hf n new, unfolded key(1)]
  show ?thesis
  proof (cases "str_map_of (vkey f) t (ce_md5 ce)")
    case None
    with ins obtain m t' where m: "str_rb_insert (vkey f) n e (v_rb_tree ch) = Some (Ok (True, m))"
      "str_holds (vkey f) m t'" "mset (inorder t') = add_mset e (mset (inorder t))" by auto
    have "set (inorder t') = dom f" using arg_cong [OF m(3), of set_mset] h(2) f by auto
    then show ?thesis using None key(2) m by (auto simp: tree_ok_def)
  next
    case (Some a)
    then have "str_rb_insert (vkey f) n e (v_rb_tree ch) = Some (Ok (False, (v_rb_tree ch)\<lparr>str_size := str_size (v_rb_tree ch) + 1\<rparr>))"
      using ins by simp
    moreover have "str_holds (vkey (ch_ent ch)) ((v_rb_tree ch)\<lparr>str_size := str_size (v_rb_tree ch) + 1\<rparr>) t"
      using h(1) by (simp add: str_holds_def)
    ultimately show ?thesis using Some key(2) h(2) by (auto simp: tree_ok_def)
  qed
qed

text \<open>Unlinking and freeing one.\<close>

lemma delete_entry:
  assumes t: "tree_ok ch" and r: "room n ch" and e: "e \<in> dom (ch_ent ch)"
  shows "\<exists>m. str_rb_delete n e (v_rb_tree ch) = Some (Ok m) \<and> tree_ok (conhash_entry_free e (ch\<lparr>v_rb_tree := m\<rparr>))"
proof -
  from t obtain t where h: "str_holds (vkey (ch_ent ch)) (v_rb_tree ch) t" "set (inorder t) = dom (ch_ent ch)"
    by (auto simp: tree_ok_def)
  have n: "length (inorder t) \<le> n" using tree_size(1) [OF h(1), of "ch_next ch"] h(2) r by (simp add: room_def)
  have i: "e \<in> set (inorder t)" using e h(2) by simp
  from str_rb_delete_ok [OF h(1) n i] obtain m t' where
    d: "str_rb_delete n e (v_rb_tree ch) = Some (Ok m)" "str_holds (vkey (ch_ent ch)) m t'" "inorder t' = remove1 e (inorder t)"
    by blast
  have "distinct (inorder t)" using h(1) by (simp add: str_holds_def held_def)
  then have s: "set (inorder t') = dom (ch_ent ch) - {e}" using d(3) h(2) by simp
  have "vkey ((ch_ent ch)(e := None)) a = vkey (ch_ent ch) a" if "a \<in> set (inorder t')" for a
    using that s by (intro vkey_upd) auto
  then have "str_holds (vkey ((ch_ent ch)(e := None))) m t'" using d(2) str_holds_cong [of t'] by metis
  then show ?thesis using d(1) s by (auto simp: tree_ok_def conhash_entry_free_def)
qed

lemma room_free: "room n ch \<Longrightarrow> room n (conhash_entry_free e (ch\<lparr>v_rb_tree := m\<rparr>))"
  by (auto simp: room_def conhash_entry_free_def)

section \<open>The operations\<close>

text \<open>The entries of a key, by RFC 1321.\<close>

definition vdigest :: "byte list \<Rightarrow> nat \<Rightarrow> byte list" where
  "vdigest key i = rfc_md5 (le32 100 @ le32 (of_nat i) @ le32 (of_nat (length key)) @ key)"

definition vnode :: "byte list \<Rightarrow> nat option \<Rightarrow> nat \<Rightarrow> conhash_entry" where
  "vnode key own i = \<lparr>ce_owner = own, ce_md5 = vdigest key i, ce_vsize = 100, ce_vno = of_nat i, ce_size = length key, ce_key = key\<rparr>"

lemma vnode_sel [simp]:
  "ce_owner (vnode key own i) = own" "ce_md5 (vnode key own i) = vdigest key i" "ce_size (vnode key own i) = length key"
  "ce_key (vnode key own i) = key"
  by (simp_all add: vnode_def)

lemma ventry_alloc:
  assumes "length junk = 64"
  shows "case conhash_ventry_alloc al junk key (length key) (of_nat CONHASH_DEFAULT_VNODES) (of_nat i) of
     None \<Rightarrow> \<not> al | Some ce \<Rightarrow> al \<and> ce\<lparr>ce_owner := own\<rparr> = vnode key own i"
  using md5_pieces [OF md5_init_holds [OF assms], of "[le32 100 @ le32 (of_nat i) @ le32 (of_nat (length key)) @ key]"]
  by (simp add: conhash_ventry_alloc_def vnode_def vdigest_def CONHASH_DEFAULT_VNODES_def Let_def)

text \<open>The memory with the first \<open>j\<close> entries of a key at \<open>b\<close> and up.\<close>

definition with_vnodes :: "(nat \<Rightarrow> conhash_entry option) \<Rightarrow> byte list \<Rightarrow> nat option \<Rightarrow> nat \<Rightarrow> nat \<Rightarrow> nat \<Rightarrow> conhash_entry option" where
  "with_vnodes f key own b j = (\<lambda>a. if b \<le> a \<and> a < b + j then Some (vnode key own (a - b)) else f a)"

lemma with_vnodes_0 [simp]: "with_vnodes f key own b 0 = f"
  by (rule ext) (auto simp add: with_vnodes_def)

lemma with_vnodes_Suc: "(with_vnodes f key own b j)(b + j \<mapsto> vnode key own j) = with_vnodes f key own b (Suc j)"
  by (rule ext) (auto simp: with_vnodes_def)

lemma with_vnodes_dom: "dom (with_vnodes f key own b j) = dom f \<union> {b..<b + j}"
  by (auto simp: with_vnodes_def split: if_splits)

lemma with_vnodes_ran: "dom f \<subseteq> {..<b} \<Longrightarrow> ran (with_vnodes f key own b j) = ran f \<union> vnode key own ` {..<j}"
proof (induction j)
  case (Suc j)
  have "with_vnodes f key own b j (b + j) = None" using Suc.prems by (auto simp: with_vnodes_def subset_iff domIff)
  then show ?case using Suc by (subst with_vnodes_Suc [symmetric]) (auto simp: lessThan_Suc)
qed simp

text \<open>A key can be added when its entries can be allocated and their digests are new.\<close>

definition digest_new :: "byte list set \<Rightarrow> byte list \<Rightarrow> nat \<Rightarrow> bool" where
  "digest_new D key i \<longleftrightarrow> vdigest key i \<notin> D \<and> vdigest key i \<notin> vdigest key ` {..<i}"

lemma split_range: "(\<forall>l. i \<le> l \<and> l < i + Suc k \<longrightarrow> P l) \<longleftrightarrow> P i \<and> (\<forall>l. Suc i \<le> l \<and> l < Suc i + k \<longrightarrow> P l)" for i :: nat
proof -
  have "i \<le> l \<and> l < i + Suc k \<longleftrightarrow> l = i \<or> (Suc i \<le> l \<and> l < Suc i + k)" for l by arith
  then show ?thesis by auto
qed

lemma add_vnodes_ok:
  assumes "dom f \<subseteq> {..<b}" "length junk = 64" "b + i + k < n"
    and "ch_ent ch = with_vnodes f key own b i" "ch_next ch = b + i" "tree_ok ch"
  shows "\<exists>full j ch'. add_vnodes n al junk key own k i [b..<b + i] ch = Some (Ok (full, [b..<b + j], ch')) \<and>
    ch_ent ch' = with_vnodes f key own b j \<and> tree_ok ch' \<and> ch_head ch' = ch_head ch \<and>
    b + j \<le> ch_next ch' \<and> ch_next ch' \<le> b + i + k \<and> (full \<longrightarrow> j = i + k) \<and>
    (full \<longleftrightarrow> (\<forall>l. i \<le> l \<and> l < i + k \<longrightarrow> al l \<and> digest_new (ce_md5 ` ran f) key l))"
  using assms(3-)
proof (induction k arbitrary: i ch)
  case 0
  then show ?case by (intro exI [of _ True] exI [of _ i] exI [of _ ch]) auto
next
  case (Suc k)
  let ?D = "ce_md5 ` ran f"
  have not: "\<not> (\<forall>l. i \<le> l \<and> l < i + Suc k \<longrightarrow> al l \<and> digest_new ?D key l)" if "\<not> (al i \<and> digest_new ?D key i)"
    using that by (intro notI) (drule spec [of _ i], simp)
  show ?case
  proof (cases "conhash_ventry_alloc (al i) junk key (length key) (of_nat CONHASH_DEFAULT_VNODES) (of_nat i)")
    case None
    then have "\<not> al i" using ventry_alloc [OF assms(2), of "al i" own key i] by simp
    then show ?thesis using None Suc.prems not by (intro exI [of _ False] exI [of _ i] exI [of _ ch]) simp
  next
    case (Some ce)
    then have ce: "al i" "ce\<lparr>ce_owner := own\<rparr> = vnode key own i" using ventry_alloc [OF assms(2), of "al i" own key i] by simp_all
    have room: "room n ch" using Suc.prems(1-3) assms(1) by (auto simp: room_def with_vnodes_dom)
    have free: "ch_ent ch (b + i) = None" using Suc.prems(2) assms(1) by (auto simp: with_vnodes_def subset_iff domIff)
    have md5s: "vdigest key i \<in> ce_md5 ` ran (ch_ent ch) \<longleftrightarrow> \<not> digest_new ?D key i"
      by (simp add: Suc.prems(2) with_vnodes_ran [OF assms(1)] digest_new_def image_Un image_image)
    have upd: "(ch_ent ch)(b + i \<mapsto> vnode key own i) = with_vnodes f key own b (Suc i)"
      by (simp add: Suc.prems(2) with_vnodes_Suc)
    note ins = insert_entry [OF Suc.prems(4) room free HOL.refl, of "vnode key own i", unfolded upd vnode_sel]
    show ?thesis
    proof (cases "digest_new ?D key i")
      case True
      with ins md5s obtain m where m: "str_rb_insert (vkey (with_vnodes f key own b (Suc i))) n (b + i) (v_rb_tree ch) = Some (Ok (True, m))"
        "tree_ok (ch\<lparr>v_rb_tree := m, ch_ent := with_vnodes f key own b (Suc i)\<rparr>)" by auto
      let ?ch = "ch\<lparr>ch_ent := with_vnodes f key own b (Suc i), ch_next := b + i + 1, v_rb_tree := m\<rparr>"
      have t: "tree_ok ?ch" using m(2) by (simp add: tree_ok_def)
      have "b + Suc i + k < n" using Suc.prems(1) by simp
      from Suc.IH [OF this, of ?ch] t obtain full j ch' where r:
        "add_vnodes n al junk key own k (Suc i) [b..<b + Suc i] ?ch = Some (Ok (full, [b..<b + j], ch'))"
        "ch_ent ch' = with_vnodes f key own b j" "tree_ok ch'" "ch_head ch' = ch_head ch" "b + j \<le> ch_next ch'"
        "ch_next ch' \<le> b + Suc i + k" "full \<longrightarrow> j = Suc i + k"
        "full \<longleftrightarrow> (\<forall>l. Suc i \<le> l \<and> l < Suc i + k \<longrightarrow> al l \<and> digest_new ?D key l)" by auto
      have st: "add_vnodes n al junk key own (Suc k) i [b..<b + i] ch = Some (Ok (full, [b..<b + j], ch'))"
        using r(1) Some ce m(1) Suc.prems(3) upd by (simp add: Let_def)
      have "full \<longleftrightarrow> (\<forall>l. i \<le> l \<and> l < i + Suc k \<longrightarrow> al l \<and> digest_new ?D key l)"
        unfolding split_range [of i k] using r(8) ce(1) True by simp
      with st r(2-7) show ?thesis by (intro exI [of _ full] exI [of _ j] exI [of _ ch']) simp
    next
      case False
      with ins md5s obtain m where m: "str_rb_insert (vkey (with_vnodes f key own b (Suc i))) n (b + i) (v_rb_tree ch) = Some (Ok (False, m))"
        "tree_ok (ch\<lparr>v_rb_tree := m\<rparr>)" by auto
      let ?ch = "conhash_entry_free (b + i) (ch\<lparr>ch_ent := with_vnodes f key own b (Suc i), ch_next := b + i + 1, v_rb_tree := m\<rparr>)"
      have e: "ch_ent ?ch = with_vnodes f key own b i"
        using free Suc.prems(2) by (simp add: conhash_entry_free_def with_vnodes_Suc [symmetric] fun_upd_idem)
      then have t: "tree_ok ?ch" using m(2) Suc.prems(2) by (simp add: tree_ok_def conhash_entry_free_def)
      have "add_vnodes n al junk key own (Suc k) i [b..<b + i] ch = Some (Ok (False, [b..<b + i], ?ch))"
        using Some ce m(1) Suc.prems(3) upd by (simp add: Let_def)
      with e t not False show ?thesis
        by (intro exI [of _ False] exI [of _ i] exI [of _ ?ch]) (simp add: conhash_entry_free_def)
    qed
  qed
qed

text \<open>Unlinking and freeing a list of entries.\<close>

lemma drop_vnodes_ok:
  assumes "tree_ok ch" "room n ch" "distinct L" "set L \<subseteq> dom (ch_ent ch)"
  shows "\<exists>m. drop_vnodes n L ch = Some (Ok (ch\<lparr>v_rb_tree := m, ch_ent := ch_ent ch |` (- set L)\<rparr>)) \<and>
    tree_ok (ch\<lparr>v_rb_tree := m, ch_ent := ch_ent ch |` (- set L)\<rparr>)"
  using assms
proof (induction L arbitrary: ch)
  case Nil
  then show ?case by (intro exI [of _ "v_rb_tree ch"]) (simp add: restrict_map_def)
next
  case (Cons a L)
  from delete_entry [OF Cons.prems(1,2), of a] Cons.prems(4) obtain m where
    m: "str_rb_delete n a (v_rb_tree ch) = Some (Ok m)" "tree_ok (conhash_entry_free a (ch\<lparr>v_rb_tree := m\<rparr>))" by auto
  let ?ch = "conhash_entry_free a (ch\<lparr>v_rb_tree := m\<rparr>)"
  have e: "ch_ent ?ch |` (- set L) = ch_ent ch |` (- set (a # L))"
    by (rule ext) (simp add: conhash_entry_free_def restrict_map_def)
  have "set L \<subseteq> dom (ch_ent ?ch)" using Cons.prems(3,4) by (auto simp: conhash_entry_free_def)
  from Cons.IH [OF m(2) room_free [OF Cons.prems(2)] _ this] Cons.prems(3) obtain m' where
    "drop_vnodes n L ?ch = Some (Ok (?ch\<lparr>v_rb_tree := m', ch_ent := ch_ent ?ch |` (- set L)\<rparr>))"
    "tree_ok (?ch\<lparr>v_rb_tree := m', ch_ent := ch_ent ?ch |` (- set L)\<rparr>)" by auto
  then show ?case unfolding e using m(1) by (intro exI [of _ m']) (simp add: conhash_entry_free_def)
qed

text \<open>The ring has the hundred entries of every key of \<open>m\<close>, and nothing else is allocated.\<close>

definition vnodes_of :: "(byte list \<rightharpoonup> nat option) \<Rightarrow> conhash_entry set" where
  "vnodes_of m = {vnode key own i | key own i. m key = Some own \<and> i < CONHASH_DEFAULT_VNODES}"

lemma vnodes_ofI: "m key = Some own \<Longrightarrow> i < CONHASH_DEFAULT_VNODES \<Longrightarrow> vnode key own i \<in> vnodes_of m"
  unfolding vnodes_of_def by blast

lemma vnodes_ofE:
  assumes "ce \<in> vnodes_of m"
  obtains key own i where "ce = vnode key own i" "m key = Some own" "i < CONHASH_DEFAULT_VNODES"
  using assms unfolding vnodes_of_def by blast

definition ring :: "consistent_hash \<Rightarrow> (byte list \<rightharpoonup> nat option) \<Rightarrow> bool" where
  "ring ch m \<longleftrightarrow> tree_ok ch \<and> set (ch_head ch) = dom (ch_ent ch) \<and> distinct (ch_head ch) \<and>
     dom (ch_ent ch) \<subseteq> {..<ch_next ch} \<and> ran (ch_ent ch) = vnodes_of m"

text \<open>When \<open>consistent_hash_add\<close> succeeds.\<close>

definition can_add :: "(nat \<Rightarrow> bool) \<Rightarrow> byte list \<Rightarrow> (byte list \<rightharpoonup> nat option) \<Rightarrow> bool" where
  "can_add al key m \<longleftrightarrow> (\<forall>i<CONHASH_DEFAULT_VNODES. al i \<and> digest_new (ce_md5 ` vnodes_of m) key i)"

lemma ring_init: "ring consistent_hash_init Map.empty"
  unfolding ring_def tree_ok_def consistent_hash_init_def vnodes_of_def
  by (auto intro!: exI [of _ RLeaf])

lemma vnodes_upd:
  assumes "m key = None"
  shows "vnodes_of (m(key \<mapsto> own)) = vnodes_of m \<union> vnode key own ` {..<CONHASH_DEFAULT_VNODES}"
proof
  show "vnodes_of (m(key \<mapsto> own)) \<subseteq> vnodes_of m \<union> vnode key own ` {..<CONHASH_DEFAULT_VNODES}"
    by (auto elim!: vnodes_ofE intro!: vnodes_ofI split: if_splits)
  show "vnodes_of m \<union> vnode key own ` {..<CONHASH_DEFAULT_VNODES} \<subseteq> vnodes_of (m(key \<mapsto> own))"
    using assms by (auto elim!: vnodes_ofE intro!: vnodes_ofI)
qed

lemma can_add_new: "can_add al key m \<Longrightarrow> m key = None"
proof (rule ccontr)
  assume c: "can_add al key m" and "m key \<noteq> None"
  then obtain own where "m key = Some own" by auto
  then have "vnode key own 0 \<in> vnodes_of m" by (intro vnodes_ofI) (simp_all add: CONHASH_DEFAULT_VNODES_def)
  then have "vdigest key 0 \<in> ce_md5 ` vnodes_of m" by force
  with c show False by (auto simp: can_add_def digest_new_def CONHASH_DEFAULT_VNODES_def)
qed

lemma add_ok:
  assumes r: "ring ch m" and junk: "length junk = 64" and n: "ch_next ch + CONHASH_DEFAULT_VNODES < n"
  shows "\<exists>ch'. consistent_hash_add n al junk key own ch = Some (Ok (if can_add al key m then None else Some ENOMEM, ch')) \<and>
    ring ch' (if can_add al key m then m(key \<mapsto> own) else m) \<and> ch_next ch' \<le> ch_next ch + CONHASH_DEFAULT_VNODES"
proof -
  let ?b = "ch_next ch"
  have f: "dom (ch_ent ch) \<subseteq> {..<?b}" "tree_ok ch" using r by (auto simp: ring_def)
  from add_vnodes_ok [OF f(1) junk, of 0 CONHASH_DEFAULT_VNODES n ch key own al] f n obtain full j ch1 where
    a: "add_vnodes n al junk key own CONHASH_DEFAULT_VNODES 0 [] ch = Some (Ok (full, [?b..<?b + j], ch1))"
      "ch_ent ch1 = with_vnodes (ch_ent ch) key own ?b j" "tree_ok ch1" "ch_head ch1 = ch_head ch" "?b + j \<le> ch_next ch1"
      "ch_next ch1 \<le> ?b + CONHASH_DEFAULT_VNODES" "full \<longrightarrow> j = CONHASH_DEFAULT_VNODES"
      "full \<longleftrightarrow> (\<forall>l<CONHASH_DEFAULT_VNODES. al l \<and> digest_new (ce_md5 ` ran (ch_ent ch)) key l)" by auto
  have full: "full \<longleftrightarrow> can_add al key m" using a(8) r by (simp add: can_add_def ring_def)
  show ?thesis
  proof (cases full)
    case True
    let ?ch = "ch1\<lparr>ch_head := [?b..<?b + j] @ ch_head ch\<rparr>"
    have "m key = None" using True full can_add_new by blast
    then have v: "vnodes_of (m(key \<mapsto> own)) = vnodes_of m \<union> vnode key own ` {..<j}" using vnodes_upd a(7) True by simp
    have fresh: "set [?b..<?b + j] \<inter> set (ch_head ch) = {}" using r by (auto simp: ring_def)
    have "ring ?ch (m(key \<mapsto> own))"
      unfolding ring_def using r a(2,3,5) v fresh f(1)
      by (auto simp: ring_def tree_ok_def with_vnodes_dom with_vnodes_ran [OF f(1)])
    then show ?thesis using True full a(1,4,6) by (simp add: consistent_hash_add_def)
  next
    case False
    have room: "room n ch1" using a(2,5,6) f(1) n by (auto simp: room_def with_vnodes_dom)
    have sub: "set [?b..<?b + j] \<subseteq> dom (ch_ent ch1)" using a(2) by (auto simp: with_vnodes_dom)
    have fresh: "ch_ent ch a = None" if "?b \<le> a" for a using f(1) that by (auto simp: domIff subset_iff leD)
    have e: "ch_ent ch1 |` (- set [?b..<?b + j]) = ch_ent ch"
      unfolding a(2) by (rule ext) (use fresh in \<open>auto simp: with_vnodes_def restrict_map_def\<close>)
    from drop_vnodes_ok [OF a(3) room _ sub] obtain mm where
      d: "drop_vnodes n [?b..<?b + j] ch1 = Some (Ok (ch1\<lparr>v_rb_tree := mm, ch_ent := ch_ent ch\<rparr>))"
        "tree_ok (ch1\<lparr>v_rb_tree := mm, ch_ent := ch_ent ch\<rparr>)" unfolding e by auto
    have "ring (ch1\<lparr>v_rb_tree := mm, ch_ent := ch_ent ch\<rparr>) m" using r d(2) a(4,5) by (auto simp: ring_def)
    then show ?thesis using False full a(1,6) d(1) by (simp add: consistent_hash_add_def)
  qed
qed

lemma memcmp_eq: "length xs = length ys \<Longrightarrow> memcmp xs ys (length ys) = 0 \<longleftrightarrow> xs = ys"
proof (induction xs ys "length ys" rule: memcmp.induct)
  case (2 x xs y ys n)
  then show ?case by auto
qed auto

lemma rm_walk_ok:
  assumes "tree_ok ch" "room n ch" "distinct L" "set L \<subseteq> dom (ch_ent ch)" "distinct (ch_head ch)"
    and "\<forall>ce \<in> ran (ch_ent ch). ce_size ce = length (ce_key ce)"
  shows "\<exists>m. rm_walk n key (length key) L ch = Some (Ok (ch\<lparr>v_rb_tree := m,
      ch_ent := ch_ent ch |` {a. a \<in> set L \<longrightarrow> ce_key (the (ch_ent ch a)) \<noteq> key},
      ch_head := filter (\<lambda>a. a \<in> set L \<longrightarrow> ce_key (the (ch_ent ch a)) \<noteq> key) (ch_head ch)\<rparr>)) \<and>
    tree_ok (ch\<lparr>v_rb_tree := m, ch_ent := ch_ent ch |` {a. a \<in> set L \<longrightarrow> ce_key (the (ch_ent ch a)) \<noteq> key}\<rparr>)"
  using assms
proof (induction L arbitrary: ch)
  case Nil
  then show ?case by (intro exI [of _ "v_rb_tree ch"]) (simp add: restrict_map_def)
next
  case (Cons a L)
  from Cons.prems(4) obtain ce where ce: "ch_ent ch a = Some ce" by auto
  then have "ce_size ce = length (ce_key ce)" using Cons.prems(6) by (auto simp: ran_def)
  then have cmp: "ce_size ce \<noteq> length key \<or> memcmp (ce_key ce) key (length key) \<noteq> 0 \<longleftrightarrow> ce_key ce \<noteq> key"
    using memcmp_eq by metis
  show ?case
  proof (cases "ce_key ce = key")
    case False
    then have e: "{b. b \<in> set (a # L) \<longrightarrow> ce_key (the (ch_ent ch b)) \<noteq> key} = {b. b \<in> set L \<longrightarrow> ce_key (the (ch_ent ch b)) \<noteq> key}"
      "filter (\<lambda>b. b \<in> set (a # L) \<longrightarrow> ce_key (the (ch_ent ch b)) \<noteq> key) (ch_head ch) =
       filter (\<lambda>b. b \<in> set L \<longrightarrow> ce_key (the (ch_ent ch b)) \<noteq> key) (ch_head ch)"
      using ce by auto
    show ?thesis unfolding e using Cons.IH [of ch] Cons.prems False ce cmp by simp
  next
    case True
    let ?h = "ch\<lparr>ch_head := remove1 a (ch_head ch)\<rparr>"
    have t: "tree_ok ?h" "room n ?h" "a \<in> dom (ch_ent ?h)" using Cons.prems(1,2) ce by (auto simp: tree_ok_def room_def)
    from delete_entry [OF t] obtain m where
      m: "str_rb_delete n a (v_rb_tree ch) = Some (Ok m)" "tree_ok (conhash_entry_free a (?h\<lparr>v_rb_tree := m\<rparr>))" by auto
    let ?ch = "conhash_entry_free a (?h\<lparr>v_rb_tree := m\<rparr>)"
    have sel: "ch_ent ?ch = (ch_ent ch)(a := None)" "ch_head ?ch = remove1 a (ch_head ch)" by (simp_all add: conhash_entry_free_def)
    have L: "a \<notin> set L" "distinct L" "set L \<subseteq> dom (ch_ent ?ch)" using Cons.prems(3,4) sel by auto
    have key: "ce_key (the (ch_ent ?ch b)) = ce_key (the (ch_ent ch b))" if "b \<in> set L" for b using that L(1) sel by auto
    have e: "ch_ent ?ch |` {b. b \<in> set L \<longrightarrow> ce_key (the (ch_ent ?ch b)) \<noteq> key} =
        ch_ent ch |` {b. b \<in> set (a # L) \<longrightarrow> ce_key (the (ch_ent ch b)) \<noteq> key}"
      by (rule ext) (use sel L(1) ce True key in \<open>auto simp: restrict_map_def\<close>)
    have h: "filter (\<lambda>b. b \<in> set L \<longrightarrow> ce_key (the (ch_ent ?ch b)) \<noteq> key) (ch_head ?ch) =
        filter (\<lambda>b. b \<in> set (a # L) \<longrightarrow> ce_key (the (ch_ent ch b)) \<noteq> key) (ch_head ch)"
      unfolding sel(2) sel(1)
      unfolding distinct_remove1_removeAll [OF Cons.prems(5)] removeAll_filter_not_eq filter_filter
      by (rule filter_cong [OF HOL.refl]) (use L(1) ce True in auto)
    have sz: "\<forall>ce \<in> ran (ch_ent ?ch). ce_size ce = length (ce_key ce)" using Cons.prems(6) unfolding sel by (auto simp: ran_def)
    have dh: "distinct (ch_head ?ch)" using Cons.prems(5) unfolding sel by simp
    from Cons.IH [OF m(2) room_free [OF t(2)] L(2,3) dh sz] obtain m' where
      "rm_walk n key (length key) L ?ch = Some (Ok (?ch\<lparr>v_rb_tree := m',
        ch_ent := ch_ent ?ch |` {b. b \<in> set L \<longrightarrow> ce_key (the (ch_ent ?ch b)) \<noteq> key},
        ch_head := filter (\<lambda>b. b \<in> set L \<longrightarrow> ce_key (the (ch_ent ?ch b)) \<noteq> key) (ch_head ?ch)\<rparr>))"
      "tree_ok (?ch\<lparr>v_rb_tree := m', ch_ent := ch_ent ?ch |` {b. b \<in> set L \<longrightarrow> ce_key (the (ch_ent ?ch b)) \<noteq> key}\<rparr>)"
      by blast
    note this [unfolded e h]
    then show ?thesis using m(1) ce cmp True
      by (intro exI [of _ m']) (simp add: conhash_entry_free_def tree_ok_def Let_def)
  qed
qed

lemma rm_ok:
  assumes r: "ring ch m" and n: "ch_next ch < n"
  shows "\<exists>ch'. consistent_hash_rm n key ch = Some (Ok ch') \<and> ring ch' (m(key := None)) \<and> ch_next ch' = ch_next ch"
proof -
  have room: "room n ch" and sub: "set (ch_head ch) \<subseteq> dom (ch_ent ch)" and t: "tree_ok ch" and d: "distinct (ch_head ch)"
    using r n by (auto simp: ring_def room_def)
  have sz: "\<forall>ce \<in> ran (ch_ent ch). ce_size ce = length (ce_key ce)" using r by (auto simp: ring_def vnodes_of_def)
  let ?keep = "{a. a \<in> set (ch_head ch) \<longrightarrow> ce_key (the (ch_ent ch a)) \<noteq> key}"
  from rm_walk_ok [OF t room d sub d sz, of key] obtain mm where
    w: "rm_walk n key (length key) (ch_head ch) ch = Some (Ok (ch\<lparr>v_rb_tree := mm, ch_ent := ch_ent ch |` ?keep,
          ch_head := filter (\<lambda>a. a \<in> set (ch_head ch) \<longrightarrow> ce_key (the (ch_ent ch a)) \<noteq> key) (ch_head ch)\<rparr>))"
      "tree_ok (ch\<lparr>v_rb_tree := mm, ch_ent := ch_ent ch |` ?keep\<rparr>)" by blast
  have dom: "set (ch_head ch) = dom (ch_ent ch)" "dom (ch_ent ch) \<subseteq> {..<ch_next ch}" using r by (simp_all add: ring_def)
  have "ran (ch_ent ch |` ?keep) = {ce \<in> ran (ch_ent ch). ce_key ce \<noteq> key}"
    unfolding dom(1) by (force simp: ran_def restrict_map_def split: if_splits)
  also have "\<dots> = vnodes_of (m(key := None))"
  proof -
    have "{ce \<in> vnodes_of m. ce_key ce \<noteq> key} \<subseteq> vnodes_of (m(key := None))"
      by (auto elim!: vnodes_ofE intro!: vnodes_ofI)
    moreover have "vnodes_of (m(key := None)) \<subseteq> {ce \<in> vnodes_of m. ce_key ce \<noteq> key}"
      by (auto elim!: vnodes_ofE intro!: vnodes_ofI split: if_splits)
    ultimately show ?thesis using r by (simp add: ring_def subset_antisym)
  qed
  finally have "ring (ch\<lparr>v_rb_tree := mm, ch_ent := ch_ent ch |` ?keep,
      ch_head := filter (\<lambda>a. a \<in> set (ch_head ch) \<longrightarrow> ce_key (the (ch_ent ch a)) \<noteq> key) (ch_head ch)\<rparr>) (m(key := None))"
    using w(2) d dom by (auto simp: ring_def tree_ok_def)
  then show ?thesis using w(1) by (simp add: consistent_hash_rm_def)
qed

lemma find_leaf_ok:
  assumes h: "str_holds K m t" and n: "rheight t < n"
  shows "\<exists>r. str_rb_find_leaf K n x m = Some r \<and>
    (case r of None \<Rightarrow> inorder t = [] | Some a \<Rightarrow> a \<in> set (inorder t))"
proof -
  have s: "held (str_tree m) t" "sorted (map K (inorder t))" using h by (auto simp: str_holds_def)
  from str.walk_tree [OF s n, of x] obtain r where
    r: "rb_walk (\<lambda>a. str_cmp (K a) x) n (rb_root (str_tree m)) None (str_tree m) = Some r"
      "str.walked K x t (set (inorder t)) r" by blast
  show ?thesis
  proof (cases r)
    case (Inl a)
    then show ?thesis using r by (simp add: str_rb_find_leaf_def str.walked_def)
  next
    case (Inr link)
    then obtain k where k: "link = link_at k" "t = plug k RLeaf" using r(2) by (auto simp: str.walked_def)
    have "set (inorder t) = set (paddrs k)" unfolding k(2) by (simp add: plug_set)
    then have "case map_option fst link of None \<Rightarrow> inorder t = [] | Some a \<Rightarrow> a \<in> set (inorder t)"
      unfolding k(1) using k(2) by (cases k rule: link_at.cases) auto
    then show ?thesis using r(1) Inr by (simp add: str_rb_find_leaf_def)
  qed
qed

lemma get_ok:
  assumes r: "ring ch m" and n: "ch_next ch < n"
  shows "\<exists>own. consistent_hash_get n junk key ch = Some (Ok own) \<and> (own = None \<and> m = Map.empty \<or> own \<in> ran m)"
proof -
  from r obtain t where h: "str_holds (vkey (ch_ent ch)) (v_rb_tree ch) t" "set (inorder t) = dom (ch_ent ch)"
    "dom (ch_ent ch) \<subseteq> {..<ch_next ch}" "ran (ch_ent ch) = vnodes_of m" by (auto simp: ring_def tree_ok_def)
  have "rheight t < n" using tree_size(2) [OF h(1), of "ch_next ch"] h(2,3) n by simp
  from find_leaf_ok [OF h(1) this, of key] obtain a where
    a: "str_rb_find_leaf (vkey (ch_ent ch)) n key (v_rb_tree ch) = Some a"
      "case a of None \<Rightarrow> inorder t = [] | Some a \<Rightarrow> a \<in> set (inorder t)" by blast
  show ?thesis
  proof (cases a)
    case None
    then have "dom (ch_ent ch) = {}" using a(2) h(2) by simp
    then have "ran (ch_ent ch) = {}" by (simp add: dom_eq_empty_conv)
    then have "m key' = None" for key'
      using h(4) vnodes_ofI [of m key' _ 0] by (cases "m key'") (auto simp: CONHASH_DEFAULT_VNODES_def)
    then show ?thesis using a(1) None by (auto simp: consistent_hash_get_def)
  next
    case (Some e)
    then obtain ce where ce: "ch_ent ch e = Some ce" using a(2) h(2) by auto
    then have "ce \<in> vnodes_of m" using h(4) by (auto simp: ran_def)
    then have "ce_owner ce \<in> ran m" by (auto simp: vnodes_of_def ran_def)
    then show ?thesis using a(1) Some ce by (simp add: consistent_hash_get_def)
  qed
qed

lemma destroy_loop_ok:
  "tree_ok ch \<Longrightarrow> room n ch \<Longrightarrow> card (dom (ch_ent ch)) < k \<Longrightarrow>
   \<exists>ch'. destroy_loop n k ch = Some (Ok ch') \<and> ch_ent ch' = Map.empty"
proof (induction k arbitrary: ch)
  case (Suc k)
  from Suc.prems(1) obtain t where h: "str_holds (vkey (ch_ent ch)) (v_rb_tree ch) t" "set (inorder t) = dom (ch_ent ch)"
    by (auto simp: tree_ok_def)
  have n: "length (inorder t) \<le> n" using tree_size(1) [OF h(1), of "ch_next ch"] h(2) Suc.prems(2) by (simp add: room_def)
  have mn: "str_rb_min n (v_rb_tree ch) = Some (case inorder t of [] \<Rightarrow> None | a # _ \<Rightarrow> Some a)"
    using rb_first_ok(1) [OF _ n, of "str_tree (v_rb_tree ch)"] h(1) by (simp add: str_rb_min_def rb_first_def str_holds_def)
  show ?case
  proof (cases "inorder t")
    case Nil
    then show ?thesis using mn h(2) by auto
  next
    case (Cons e l)
    then have e: "e \<in> dom (ch_ent ch)" using h(2) by auto
    from delete_entry [OF Suc.prems(1,2) e] obtain m where
      m: "str_rb_delete n e (v_rb_tree ch) = Some (Ok m)" "tree_ok (conhash_entry_free e (ch\<lparr>v_rb_tree := m\<rparr>))" by auto
    have "finite (dom (ch_ent ch))" using h(2) finite_set by metis
    then have "card (dom (ch_ent (conhash_entry_free e (ch\<lparr>v_rb_tree := m\<rparr>)))) < k"
      using e Suc.prems(3) card_gt_0_iff [of "dom (ch_ent ch)"] by (auto simp: conhash_entry_free_def card_Diff_singleton)
    from Suc.IH [OF m(2) room_free [OF Suc.prems(2)] this] show ?thesis using mn Cons m(1) by simp
  qed
qed simp

lemma destroy_ok:
  assumes "ring ch m" "ch_next ch < n"
  shows "\<exists>ch'. consistent_hash_destroy n ch = Some (Ok ch') \<and> ch_ent ch' = Map.empty"
proof -
  have "card (dom (ch_ent ch)) \<le> ch_next ch" using assms(1) card_mono [of "{..<ch_next ch}"] by (force simp: ring_def)
  then show ?thesis unfolding consistent_hash_destroy_def
    by (intro destroy_loop_ok) (use assms in \<open>auto simp: ring_def room_def\<close>)
qed

section \<open>Properties\<close>

text \<open>Uses of a ring, with their results.\<close>

datatype ch_op = ChAdd "nat \<Rightarrow> bool" "byte list" nat | ChRm "byte list" | ChGet "byte list"
datatype ch_ans = ChAdded "errno option" | ChRemoved | ChGot "nat option"

fun ch_run :: "nat \<Rightarrow> byte list \<Rightarrow> ch_op list \<Rightarrow> consistent_hash \<Rightarrow> (ch_ans list \<times> consistent_hash) cres option" where
  "ch_run n junk [] ch = Some (Ok ([], ch))"
| "ch_run n junk (ChAdd al key own # ops) ch =
     obind (consistent_hash_add n al junk key (Some own) ch) (\<lambda>(rc, ch).
       obind (ch_run n junk ops ch) (\<lambda>(as, ch). Some (Ok (ChAdded rc # as, ch))))"
| "ch_run n junk (ChRm key # ops) ch =
     obind (consistent_hash_rm n key ch) (\<lambda>ch.
       obind (ch_run n junk ops ch) (\<lambda>(as, ch). Some (Ok (ChRemoved # as, ch))))"
| "ch_run n junk (ChGet key # ops) ch =
     obind (consistent_hash_get n junk key ch) (\<lambda>r.
       obind (ch_run n junk ops ch) (\<lambda>(as, ch). Some (Ok (ChGot r # as, ch))))"

text \<open>The same on a map from keys to owners.\<close>

fun ch_map :: "ch_op list \<Rightarrow> (byte list \<rightharpoonup> nat option) \<Rightarrow> byte list \<rightharpoonup> nat option" where
  "ch_map [] m = m"
| "ch_map (ChAdd al key own # ops) m = ch_map ops (if can_add al key m then m(key \<mapsto> Some own) else m)"
| "ch_map (ChRm key # ops) m = ch_map ops (m(key := None))"
| "ch_map (ChGet key # ops) m = ch_map ops m"

fun ch_answers :: "ch_op list \<Rightarrow> (byte list \<rightharpoonup> nat option) \<Rightarrow> ch_ans list \<Rightarrow> bool" where
  "ch_answers [] m as \<longleftrightarrow> as = []"
| "ch_answers (ChAdd al key own # ops) m as \<longleftrightarrow> (case as of [] \<Rightarrow> False | r # as \<Rightarrow>
     r = ChAdded (if can_add al key m then None else Some ENOMEM) \<and>
     ch_answers ops (if can_add al key m then m(key \<mapsto> Some own) else m) as)"
| "ch_answers (ChRm key # ops) m as \<longleftrightarrow> (case as of [] \<Rightarrow> False | r # as \<Rightarrow> r = ChRemoved \<and> ch_answers ops (m(key := None)) as)"
| "ch_answers (ChGet key # ops) m as \<longleftrightarrow> (case as of [] \<Rightarrow> False | r # as \<Rightarrow>
     (r = ChGot None \<and> m = Map.empty \<or> (\<exists>own. r = ChGot own \<and> own \<in> ran m)) \<and> ch_answers ops m as)"

lemma ch_run_ok:
  "ring ch m \<Longrightarrow> length junk = 64 \<Longrightarrow> ch_next ch + CONHASH_DEFAULT_VNODES * length ops < n \<Longrightarrow>
   \<exists>as ch'. ch_run n junk ops ch = Some (Ok (as, ch')) \<and> ch_answers ops m as \<and> ring ch' (ch_map ops m) \<and> ch_next ch' < n"
proof (induction ops arbitrary: ch m)
  case (Cons p ops)
  have n: "ch_next ch + CONHASH_DEFAULT_VNODES < n" "ch_next ch < n"
    using Cons.prems(3) by (auto simp: CONHASH_DEFAULT_VNODES_def)
  show ?case
  proof (cases p)
    case (ChAdd al key own)
    from add_ok [OF Cons.prems(1,2) n(1), of al key "Some own"] obtain ch1 where
      a: "consistent_hash_add n al junk key (Some own) ch = Some (Ok (if can_add al key m then None else Some ENOMEM, ch1))"
        "ring ch1 (if can_add al key m then m(key \<mapsto> Some own) else m)" "ch_next ch1 \<le> ch_next ch + CONHASH_DEFAULT_VNODES" by blast
    have "ch_next ch1 + CONHASH_DEFAULT_VNODES * length ops < n" using a(3) Cons.prems(3) by simp
    from Cons.IH [OF a(2) Cons.prems(2) this] obtain as ch' where
      "ch_run n junk ops ch1 = Some (Ok (as, ch'))" "ch_answers ops (if can_add al key m then m(key \<mapsto> Some own) else m) as"
      "ring ch' (ch_map ops (if can_add al key m then m(key \<mapsto> Some own) else m))" "ch_next ch' < n" by blast
    then show ?thesis using ChAdd a by (intro exI [of _ "ChAdded (if can_add al key m then None else Some ENOMEM) # as"] exI [of _ ch']) simp
  next
    case (ChRm key)
    from rm_ok [OF Cons.prems(1) n(2), of key] obtain ch1 where
      a: "consistent_hash_rm n key ch = Some (Ok ch1)" "ring ch1 (m(key := None))" "ch_next ch1 = ch_next ch" by blast
    have "ch_next ch1 + CONHASH_DEFAULT_VNODES * length ops < n" using a(3) Cons.prems(3) by simp
    from Cons.IH [OF a(2) Cons.prems(2) this] obtain as ch' where
      "ch_run n junk ops ch1 = Some (Ok (as, ch'))" "ch_answers ops (m(key := None)) as"
      "ring ch' (ch_map ops (m(key := None)))" "ch_next ch' < n" by blast
    then show ?thesis using ChRm a by (intro exI [of _ "ChRemoved # as"] exI [of _ ch']) simp
  next
    case (ChGet key)
    from get_ok [OF Cons.prems(1) n(2), of junk key] obtain own where
      a: "consistent_hash_get n junk key ch = Some (Ok own)" "own = None \<and> m = Map.empty \<or> own \<in> ran m" by blast
    have "ch_next ch + CONHASH_DEFAULT_VNODES * length ops < n" using Cons.prems(3) by simp
    from Cons.IH [OF Cons.prems(1,2) this] obtain as ch' where
      "ch_run n junk ops ch = Some (Ok (as, ch'))" "ch_answers ops m as"
      "ring ch' (ch_map ops m)" "ch_next ch' < n" by blast
    then show ?thesis using ChGet a by (intro exI [of _ "ChGot own # as"] exI [of _ ch']) simp
  qed
qed simp

text \<open>C11. The ring over any sequence of operations is a map from keys to owners. Adding a key makes all its hundred
  entries or none: when a block cannot be had or a digest is taken (always so for a key that is in the ring) it
  fails and leaves the ring as it was; removing a key removes its entries and no other; a key that is looked for gets
  an owner in the ring, and none only when the ring is empty. No entry is ever lost: those allocated are those of the
  list, the hundred of each key, and destroying the ring frees them all. Walks as long as the entries
  ever made are enough.\<close>

theorem conhash_is_map:
  assumes "length junk = 64" "CONHASH_DEFAULT_VNODES * length ops < n"
  shows "\<exists>as ch ch'. ch_run n junk ops consistent_hash_init = Some (Ok (as, ch)) \<and> ch_answers ops Map.empty as \<and>
    set (ch_head ch) = dom (ch_ent ch) \<and> ran (ch_ent ch) = vnodes_of (ch_map ops Map.empty) \<and>
    consistent_hash_destroy n ch = Some (Ok ch') \<and> ch_ent ch' = Map.empty"
proof -
  have "ch_next consistent_hash_init + CONHASH_DEFAULT_VNODES * length ops < n" using assms(2) by (simp add: consistent_hash_init_def)
  from ch_run_ok [OF ring_init assms(1) this] obtain as ch where
    r: "ch_run n junk ops consistent_hash_init = Some (Ok (as, ch))" "ch_answers ops Map.empty as"
      "ring ch (ch_map ops Map.empty)" "ch_next ch < n" by blast
  from destroy_ok [OF r(3,4)] r show ?thesis by (auto simp: ring_def)
qed

text \<open>A key is added, which fails as the fiftieth block cannot be had; another is added and removed; a look-up finds nobody.\<close>

theorem conhash_is_map_witness:
  "\<exists>r ch. ch_run 500 (replicate 64 0) [ChAdd (\<lambda>i. i < 50) [1] 7, ChAdd (\<lambda>_. True) [2] 8, ChRm [2], ChGet [3]] consistent_hash_init =
     Some (Ok ([ChAdded (Some ENOMEM), ChAdded r, ChRemoved, ChGot None], ch))"
proof -
  have no: "\<not> can_add (\<lambda>i. i < 50) [1] Map.empty"
    unfolding can_add_def by (intro notI) (drule spec [of _ 50], simp add: CONHASH_DEFAULT_VNODES_def)
  have e: "(if b then Map.empty([2] \<mapsto> Some 8) else Map.empty)([2] := None) = (Map.empty :: byte list \<rightharpoonup> nat option)" for b
    by (cases b) auto
  let ?ops = "[ChAdd (\<lambda>i. i < 50) [1] 7, ChAdd (\<lambda>_. True) [2] 8, ChRm [2], ChGet [3]]"
  from conhash_is_map [of "replicate 64 0" ?ops 500] obtain as ch where
    r: "ch_run 500 (replicate 64 0) ?ops consistent_hash_init = Some (Ok (as, ch))" "ch_answers ?ops Map.empty as"
    by (auto simp: CONHASH_DEFAULT_VNODES_def)
  then show ?thesis using no e by (auto split: list.splits simp del: ch_run.simps)
qed

end
