(* ===== verification/Mstats.thy ===== *)
theory Mstats
  imports Prelude
begin

text \<open>
  The statistics of \<^verbatim>\<open>src/src/utils/mstats_base.h\<close> and \<^verbatim>\<open>mstats_base.c\<close>: counters of events, in all and for
  the current and the last second, minute, hour and day, with warnings above a threshold that can be
  read from a string. The arrays of a structure that \<open>DEFINE_MSTATS\<close> makes are functions of the type of statistic,
  the level and the key; a key beyond \<open>kr\<close> is outside of the array. The counters are 64 bits wide and wrap around.
\<close>

section \<open>Counters\<close>

datatype mst = MST_NOW | MST_LAST | MST_MIN | MST_MAX | MST_AVG

datatype msl = MSL_A | MSL_S | MSL_M | MSL_H | MSL_D

record mstats_base =
  kr :: nat
  level :: "msl \<Rightarrow> u64"
  keys :: "mst \<Rightarrow> msl \<Rightarrow> nat \<Rightarrow> u64"
  keys_counter :: "msl \<Rightarrow> nat \<Rightarrow> u64"
  thres :: "msl \<Rightarrow> nat \<Rightarrow> u64"
  timestamp :: "msl \<Rightarrow> u64"
  trigger_counter :: "msl \<Rightarrow> u64"
  warnf :: "msl \<Rightarrow> bool"

fun level_init :: "msl \<Rightarrow> u64" where
  "level_init MSL_A = 0"
| "level_init MSL_S = 1000"
| "level_init MSL_M = 60000"
| "level_init MSL_H = 3600000"
| "level_init MSL_D = 86400000"

text \<open>The initialiser that \<open>DEFINE_MSTATS\<close> makes for \<open>n\<close> keys, at the time \<open>now\<close>.\<close>

definition mstats_init :: "nat \<Rightarrow> u64 \<Rightarrow> mstats_base" where
  "mstats_init n now = \<lparr>kr = n, level = level_init, keys = (\<lambda>_ _ _. 0), keys_counter = (\<lambda>_ _. 0), thres = (\<lambda>_ _. 0),
     timestamp = (\<lambda>_. now), trigger_counter = (\<lambda>_. 0), warnf = (\<lambda>_. False)\<rparr>"

definition set_key :: "mst \<Rightarrow> msl \<Rightarrow> nat \<Rightarrow> u64 \<Rightarrow> mstats_base \<Rightarrow> mstats_base" where
  "set_key st sl key v ms = ms\<lparr>keys := (keys ms)(st := (keys ms st)(sl := (keys ms st sl)(key := v)))\<rparr>"

text \<open>\<open>mstats_base_incrs\<close>: one round of its loop, and the loop.\<close>

definition incrs_level :: "nat \<Rightarrow> i32 \<Rightarrow> msl \<Rightarrow> mstats_base \<Rightarrow> mstats_base" where
  "incrs_level key val sl ms =
     (let v = scast val :: u64;
          ms = set_key MST_NOW sl key (keys ms MST_NOW sl key + v) ms;
          ms = ms\<lparr>keys_counter := (keys_counter ms)(sl := (keys_counter ms sl)(key := keys_counter ms sl key + 1))\<rparr>;
          mn = keys ms MST_MIN sl key;
          ms = (if mn = 0 \<or> sint mn > sint v then set_key MST_MIN sl key v ms else ms);
          mx = keys ms MST_MAX sl key
      in if mx = 0 \<or> sint mx < sint v then set_key MST_MAX sl key v ms else ms)"

definition mstats_base_incrs :: "nat \<Rightarrow> i32 \<Rightarrow> mstats_base \<Rightarrow> mstats_base cres" where
  "mstats_base_incrs key val ms =
     (if key < kr ms then Ok (fold (incrs_level key val) [MSL_A, MSL_S, MSL_M, MSL_H, MSL_D] ms) else Undef)"

definition mstats_base_incr :: "nat \<Rightarrow> mstats_base \<Rightarrow> mstats_base cres" where
  "mstats_base_incr key ms = mstats_base_incrs key 1 ms"

definition mstats_base_fetch :: "mst \<Rightarrow> msl \<Rightarrow> nat \<Rightarrow> mstats_base \<Rightarrow> u64 cres" where
  "mstats_base_fetch st sl key ms = (if key < kr ms then Ok (keys ms st sl key) else Undef)"

definition mstats_base_set_warnf :: "msl \<Rightarrow> bool \<Rightarrow> mstats_base \<Rightarrow> mstats_base" where
  "mstats_base_set_warnf sl f ms = ms\<lparr>warnf := (warnf ms)(sl := f)\<rparr>"

definition mstats_base_set_thres :: "msl \<Rightarrow> nat \<Rightarrow> u64 \<Rightarrow> mstats_base \<Rightarrow> mstats_base cres" where
  "mstats_base_set_thres sl key v ms =
     (if key < kr ms then Ok (ms\<lparr>thres := (thres ms)(sl := (thres ms sl)(key := v))\<rparr>) else Undef)"

text \<open>\<open>trigger_one_key_stat\<close>: a round for one key, for one level, and the loop; with the calls of the warning functions:
  level, key, threshold and the four values.\<close>

type_synonym warning = "msl \<times> nat \<times> u64 \<times> u64 \<times> u64 \<times> u64 \<times> u64"

definition trigger_key :: "msl \<Rightarrow> nat \<Rightarrow> warning list \<times> mstats_base \<Rightarrow> warning list \<times> mstats_base" where
  "trigger_key sl key = (\<lambda>(ws, ms).
     let all = keys ms MST_NOW sl key;
         w = (if warnf ms sl \<and> sint all > sint (thres ms sl key)
              then [(sl, key, thres ms sl key, all, keys ms MST_MIN sl key, keys ms MST_MAX sl key, keys ms MST_AVG sl key)]
              else [])
     in (ws @ w, set_key MST_NOW sl key 0 (set_key MST_LAST sl key all ms)))"

definition trigger_level :: "u64 \<Rightarrow> msl \<Rightarrow> warning list \<times> mstats_base \<Rightarrow> warning list \<times> mstats_base" where
  "trigger_level now sl = (\<lambda>(ws, ms).
     if sint (now - timestamp ms sl) \<le> sint (level ms sl) then (ws, ms)
     else fold (trigger_key sl) [0..<kr ms]
            (ws, ms\<lparr>trigger_counter := (trigger_counter ms)(sl := trigger_counter ms sl + 1),
                    timestamp := (timestamp ms)(sl := now)\<rparr>))"

definition mstats_base_emit :: "u64 \<Rightarrow> mstats_base \<Rightarrow> warning list \<times> mstats_base" where
  "mstats_base_emit now ms = fold (trigger_level now) [MSL_S, MSL_M, MSL_H, MSL_D] ([], ms)"

section \<open>Thresholds from a string\<close>

text \<open>\<open>strstr\<close> and \<open>atoi\<close> of the standard library. A number that does not fit is undefined.\<close>

fun strstr :: "string \<Rightarrow> string \<Rightarrow> string option" where
  "strstr [] key = (if key = [] then Some [] else None)"
| "strstr (c # s) key = (if take (length key) (c # s) = key then Some (c # s) else strstr s key)"

definition digit :: "char \<Rightarrow> int option" where
  "digit c = (if 48 \<le> (of_char c :: int) \<and> (of_char c :: int) \<le> 57 then Some (of_char c - 48) else None)"

fun digits :: "int \<Rightarrow> string \<Rightarrow> int" where
  "digits a [] = a"
| "digits a (c # s) = (case digit c of None \<Rightarrow> a | Some d \<Rightarrow> digits (10 * a + d) s)"

definition is_space :: "char \<Rightarrow> bool" where
  "is_space c \<longleftrightarrow> (of_char c :: int) = 32 \<or> (9 \<le> (of_char c :: int) \<and> (of_char c :: int) \<le> 13)"

definition atoi :: "string \<Rightarrow> int cres" where
  "atoi s =
     (let n = (case dropWhile is_space s of
                 [] \<Rightarrow> 0
               | c # r \<Rightarrow> if c = CHR ''-'' then - digits 0 r else if c = CHR ''+'' then digits 0 r else digits 0 (c # r))
      in if - (2 ^ 31) \<le> n \<and> n < 2 ^ 31 then Ok n else Undef)"

text \<open>\<open>mstats_base_parse\<close>: the level and the value that follow \<open>key\<close>, as in \<open>key:s:100;\<close>; the failure of \<open>strdup\<close> is not
  tested.\<close>

fun level_letter :: "char \<Rightarrow> msl option" where
  "level_letter c =
     (if c = CHR ''s'' then Some MSL_S else if c = CHR ''m'' then Some MSL_M
      else if c = CHR ''h'' then Some MSL_H else if c = CHR ''d'' then Some MSL_D else None)"

definition mstats_base_parse :: "bool \<Rightarrow> string \<Rightarrow> string \<Rightarrow> (msl \<times> int) option cres" where
  "mstats_base_parse dup str key =
     (case strstr str key of
        None \<Rightarrow> Ok None
      | Some pos \<Rightarrow>
          if length key + 4 > length pos then Ok None
          else let pos = drop (length key + 1) pos
               in case level_letter (hd pos) of
                    None \<Rightarrow> Ok None
                  | Some tr \<Rightarrow>
                      let newstr = takeWhile (\<lambda>c. c \<noteq> CHR '';'') (drop 2 pos)
                      in if \<not> dup then Undef
                         else cbind (atoi newstr) (\<lambda>v. Ok (Some (tr, if v \<le> 0 then 1 else v))))"

text \<open>\<open>mstats_base_init\<close>: \<open>items\<close> has the name of each key; the loop starts at 1.\<close>

fun init_loop :: "bool \<Rightarrow> (nat \<times> string) list \<Rightarrow> string \<Rightarrow> mstats_base \<Rightarrow> mstats_base cres" where
  "init_loop dup [] ss ms = Ok ms"
| "init_loop dup ((i, item) # items) ss ms =
     cbind (mstats_base_parse dup ss item) (\<lambda>r.
       case r of
         None \<Rightarrow> init_loop dup items ss ms
       | Some (sl, val) \<Rightarrow> cbind (mstats_base_set_thres sl i (word_of_int val) ms) (init_loop dup items ss))"

definition mstats_base_init :: "bool \<Rightarrow> string list \<Rightarrow> string \<Rightarrow> mstats_base \<Rightarrow> mstats_base cres" where
  "mstats_base_init dup items ss ms = init_loop dup (zip [1..<length items] (tl items)) ss ms"

text \<open>A threshold is found by its name, and also by a name that another one ends with.\<close>

lemma parse_examples:
  "mstats_base_parse True ''begin:s:7;in:m:90;'' ''begin'' = Ok (Some (MSL_S, 7))"
  "mstats_base_parse True ''begin:s:7;in:m:90;'' ''in'' = Ok (Some (MSL_S, 7))"
  "mstats_base_parse True ''in:m:90;'' ''in'' = Ok (Some (MSL_M, 90))"
  by code_simp+

section \<open>What the operations do to a counter\<close>

fun incr_key :: "mst \<Rightarrow> u64 \<Rightarrow> u64 \<Rightarrow> u64" where
  "incr_key MST_NOW v x = x + v"
| "incr_key MST_MIN v x = (if x = 0 \<or> sint x > sint v then v else x)"
| "incr_key MST_MAX v x = (if x = 0 \<or> sint x < sint v then v else x)"
| "incr_key _ v x = x"

lemma incrs_level_sel [simp]:
  "keys (incrs_level key val sl ms) st sl' k =
     (if sl' = sl \<and> k = key then incr_key st (scast val) (keys ms st sl' k) else keys ms st sl' k)"
  "timestamp (incrs_level key val sl ms) = timestamp ms" "kr (incrs_level key val sl ms) = kr ms"
  "level (incrs_level key val sl ms) = level ms"
  by (cases st; simp add: incrs_level_def set_key_def Let_def)+

lemma incrs_ok:
  assumes "key < kr ms"
  obtains ms' where "mstats_base_incrs key val ms = Ok ms'" "timestamp ms' = timestamp ms" "kr ms' = kr ms" "level ms' = level ms"
    "\<And>st sl k. keys ms' st sl k = (if k = key then incr_key st (scast val) (keys ms st sl k) else keys ms st sl k)"
proof -
  let ?ms = "fold (incrs_level key val) [MSL_A, MSL_S, MSL_M, MSL_H, MSL_D] ms"
  have "keys ?ms st sl k = (if k = key then incr_key st (scast val) (keys ms st sl k) else keys ms st sl k)" for st sl k
    by (cases sl) simp_all
  then show ?thesis using that [of ?ms] assms by (simp add: mstats_base_incrs_def)
qed

fun turn_key :: "mst \<Rightarrow> (mst \<Rightarrow> u64) \<Rightarrow> u64" where
  "turn_key MST_NOW x = 0"
| "turn_key MST_LAST x = x MST_NOW"
| "turn_key st x = x st"

lemma trigger_key_sel [simp]:
  "keys (snd (trigger_key sl key p)) st sl' k =
     (if sl' = sl \<and> k = key then turn_key st (\<lambda>st. keys (snd p) st sl' k) else keys (snd p) st sl' k)"
  "timestamp (snd (trigger_key sl key p)) = timestamp (snd p)" "kr (snd (trigger_key sl key p)) = kr (snd p)"
  "level (snd (trigger_key sl key p)) = level (snd p)"
  by (cases st; cases p; simp add: trigger_key_def set_key_def Let_def)+

lemma trigger_keys_sel:
  "keys (snd (fold (trigger_key sl) [0..<n] p)) st sl' k =
     (if sl' = sl \<and> k < n then turn_key st (\<lambda>st. keys (snd p) st sl' k) else keys (snd p) st sl' k) \<and>
   timestamp (snd (fold (trigger_key sl) [0..<n] p)) = timestamp (snd p) \<and>
   kr (snd (fold (trigger_key sl) [0..<n] p)) = kr (snd p) \<and> level (snd (fold (trigger_key sl) [0..<n] p)) = level (snd p)"
proof (induction n arbitrary: st)
  case (Suc n)
  then show ?case by (cases st) (auto simp: less_Suc_eq)
qed simp

definition due :: "u64 \<Rightarrow> msl \<Rightarrow> u64 \<Rightarrow> u64 \<Rightarrow> bool" where
  "due now sl ts len \<longleftrightarrow> sl \<noteq> MSL_A \<and> sint (now - ts) > sint len"

lemma trigger_level_sel [simp]:
  "k < kr (snd p) \<Longrightarrow> keys (snd (trigger_level now sl p)) st sl' k =
     (if sl' = sl \<and> \<not> sint (now - timestamp (snd p) sl) \<le> sint (level (snd p) sl)
      then turn_key st (\<lambda>st. keys (snd p) st sl' k) else keys (snd p) st sl' k)"
  "timestamp (snd (trigger_level now sl p)) sl' =
     (if sl' = sl \<and> \<not> sint (now - timestamp (snd p) sl) \<le> sint (level (snd p) sl) then now else timestamp (snd p) sl')"
  "kr (snd (trigger_level now sl p)) = kr (snd p)" "level (snd (trigger_level now sl p)) = level (snd p)"
  by (cases p; simp add: trigger_level_def trigger_keys_sel)+

lemma emit_ok:
  obtains ws ms' where "mstats_base_emit now ms = (ws, ms')" "kr ms' = kr ms" "level ms' = level ms"
    "\<And>sl. timestamp ms' sl = (if due now sl (timestamp ms sl) (level ms sl) then now else timestamp ms sl)"
    "\<And>st sl k. k < kr ms \<Longrightarrow> keys ms' st sl k =
       (if due now sl (timestamp ms sl) (level ms sl) then turn_key st (\<lambda>st. keys ms st sl k) else keys ms st sl k)"
proof -
  let ?r = "mstats_base_emit now ms"
  have t: "timestamp (snd ?r) sl = (if due now sl (timestamp ms sl) (level ms sl) then now else timestamp ms sl)" for sl
    by (cases sl) (simp_all add: mstats_base_emit_def due_def)
  have k: "keys (snd ?r) st sl k =
      (if due now sl (timestamp ms sl) (level ms sl) then turn_key st (\<lambda>st. keys ms st sl k) else keys ms st sl k)"
    if "k < kr ms" for st sl k
    using that by (cases sl) (simp_all add: mstats_base_emit_def due_def)
  show ?thesis by (rule that [of "fst ?r" "snd ?r"]) (use t k in \<open>simp_all add: mstats_base_emit_def\<close>)
qed

section \<open>Properties\<close>

text \<open>Uses of the statistics, and what they mean: the window of a key at a level (its start, its values and those of
  the one before), and all values of a key.\<close>

datatype ms_op = MIncr nat i32 | MEmit u64

fun ms_run :: "ms_op list \<Rightarrow> mstats_base \<Rightarrow> (warning list \<times> mstats_base) cres" where
  "ms_run [] ms = Ok ([], ms)"
| "ms_run (MIncr key val # ops) ms = cbind (mstats_base_incrs key val ms) (ms_run ops)"
| "ms_run (MEmit now # ops) ms =
     (case mstats_base_emit now ms of (ws, ms) \<Rightarrow> cbind (ms_run ops ms) (\<lambda>(ws', ms). Ok (ws @ ws', ms)))"

fun window :: "msl \<Rightarrow> nat \<Rightarrow> ms_op list \<Rightarrow> u64 \<times> i32 list \<times> i32 list \<Rightarrow> u64 \<times> i32 list \<times> i32 list" where
  "window sl key [] w = w"
| "window sl key (MIncr k v # ops) (ts, cur, prev) = window sl key ops (ts, if k = key then cur @ [v] else cur, prev)"
| "window sl key (MEmit now # ops) (ts, cur, prev) =
     window sl key ops (if due now sl ts (level_init sl) then (now, [], cur) else (ts, cur, prev))"

fun vals_of :: "nat \<Rightarrow> ms_op list \<Rightarrow> i32 list" where
  "vals_of key [] = []"
| "vals_of key (MIncr k v # ops) = (if k = key then v # vals_of key ops else vals_of key ops)"
| "vals_of key (MEmit now # ops) = vals_of key ops"

definition total :: "i32 list \<Rightarrow> u64" where
  "total vs = sum_list (map scast vs)"

fun ops_keys :: "ms_op list \<Rightarrow> nat set" where
  "ops_keys [] = {}"
| "ops_keys (MIncr k v # ops) = insert k (ops_keys ops)"
| "ops_keys (MEmit now # ops) = ops_keys ops"

text \<open>The least and the greatest of positive values.\<close>

definition extremes :: "i32 list \<Rightarrow> u64 \<Rightarrow> u64 \<Rightarrow> bool" where
  "extremes vs mn mx \<longleftrightarrow> (if vs = [] then mn = 0 \<and> mx = 0
     else sint mn = Min (sint ` set vs) \<and> sint mx = Max (sint ` set vs))"

lemma sint_scast64: "sint (scast (v :: i32) :: u64) = sint v"
  by (rule sint_up_scast) (simp add: is_up)

lemma extremes_snoc:
  assumes "extremes vs mn mx" "\<forall>v\<in>set (vs @ [v]). 0 < sint v"
  shows "extremes (vs @ [v]) (incr_key MST_MIN (scast v) mn) (incr_key MST_MAX (scast v) mx)"
proof (cases "vs = []")
  case True
  then show ?thesis using assms by (simp add: extremes_def sint_scast64)
next
  case False
  have "0 < sint x" if "x \<in> set vs" for x using that assms(2) by simp
  then have "0 < Min (sint ` set vs)" "0 < Max (sint ` set vs)" using False by (simp_all add: Max_gr_iff) (metis ex_in_conv set_empty)
  moreover have "sint mn = Min (sint ` set vs)" "sint mx = Max (sint ` set vs)" using assms(1) False by (auto simp: extremes_def)
  moreover define a b where "a = Min (sint ` set vs)" "b = Max (sint ` set vs)"
  ultimately have ab: "mn \<noteq> 0" "mx \<noteq> 0" "sint mn = a" "sint mx = b" by auto
  have "Min (sint ` set (vs @ [v])) = min (sint v) a" "Max (sint ` set (vs @ [v])) = max (sint v) b" using False a_b_def by simp_all
  then show ?thesis using ab by (simp add: extremes_def sint_scast64 min_def max_def)
qed

lemma ms_run_ok:
  assumes "ops_keys ops \<subseteq> {..<kr ms}" "key < kr ms" "level ms = level_init" "timestamp ms sl = ts"
    "keys ms MST_NOW sl key = total cur" "keys ms MST_LAST sl key = total prev"
    "\<forall>v\<in>set (vs @ vals_of key ops). 0 < sint v \<Longrightarrow> extremes vs (keys ms MST_MIN sl key) (keys ms MST_MAX sl key)"
  shows "\<exists>ws ms'. ms_run ops ms = Ok (ws, ms') \<and>
    (case window sl key ops (ts, cur, prev) of (ts', cur', prev') \<Rightarrow>
       timestamp ms' sl = ts' \<and> keys ms' MST_NOW sl key = total cur' \<and> keys ms' MST_LAST sl key = total prev') \<and>
    ((\<forall>v\<in>set (vs @ vals_of key ops). 0 < sint v) \<longrightarrow>
       extremes (vs @ vals_of key ops) (keys ms' MST_MIN sl key) (keys ms' MST_MAX sl key)) \<and>
    keys ms' MST_AVG sl key = keys ms MST_AVG sl key"
  using assms
proof (induction ops arbitrary: ms ts cur prev vs)
  case (Cons p ops)
  show ?case
  proof (cases p)
    case (MIncr k v)
    then have "k < kr ms" using Cons.prems(1) by simp
    then obtain m1 where m1: "mstats_base_incrs k v ms = Ok m1" "timestamp m1 = timestamp ms" "kr m1 = kr ms" "level m1 = level ms"
      "\<And>st sl j. keys m1 st sl j = (if j = k then incr_key st (scast v) (keys ms st sl j) else keys ms st sl j)"
      by (rule incrs_ok [of k ms v]) blast
    let ?cur = "if k = key then cur @ [v] else cur" and ?vs = "if k = key then vs @ [v] else vs"
    have vals: "vs @ vals_of key (p # ops) = ?vs @ vals_of key ops" using MIncr by simp
    have ex: "extremes ?vs (keys m1 MST_MIN sl key) (keys m1 MST_MAX sl key)"
      if "\<forall>x\<in>set (?vs @ vals_of key ops). 0 < sint x"
      using extremes_snoc [OF Cons.prems(7) [unfolded vals, OF that], of v] Cons.prems(7) [unfolded vals, OF that] that m1(5)
      by (cases "key = k") (simp_all del: incr_key.simps)
    show ?thesis unfolding vals
      using Cons.IH [of m1 ts ?cur prev ?vs] Cons.prems(1-6) MIncr m1 ex by (auto simp: total_def)
  next
    case (MEmit now)
    obtain ws m1 where m1: "mstats_base_emit now ms = (ws, m1)" "kr m1 = kr ms" "level m1 = level ms"
      "\<And>sl. timestamp m1 sl = (if due now sl (timestamp ms sl) (level ms sl) then now else timestamp ms sl)"
      "\<And>st sl k. k < kr ms \<Longrightarrow> keys m1 st sl k =
         (if due now sl (timestamp ms sl) (level ms sl) then turn_key st (\<lambda>st. keys ms st sl k) else keys ms st sl k)"
      by (rule emit_ok [of now ms]) blast
    have k: "keys m1 st sl key =
       (if due now sl ts (level_init sl) then turn_key st (\<lambda>st. keys ms st sl key) else keys ms st sl key)" for st
      using m1(5) [OF Cons.prems(2)] Cons.prems(3,4) by simp
    show ?thesis
    proof (cases "due now sl ts (level_init sl)")
      case True
      have "\<exists>ws ms'. ms_run ops m1 = Ok (ws, ms') \<and>
        (case window sl key ops (now, [], cur) of (ts', cur', prev') \<Rightarrow>
           timestamp ms' sl = ts' \<and> keys ms' MST_NOW sl key = total cur' \<and> keys ms' MST_LAST sl key = total prev') \<and>
        ((\<forall>v\<in>set (vs @ vals_of key ops). 0 < sint v) \<longrightarrow>
           extremes (vs @ vals_of key ops) (keys ms' MST_MIN sl key) (keys ms' MST_MAX sl key)) \<and>
        keys ms' MST_AVG sl key = keys m1 MST_AVG sl key"
        by (rule Cons.IH) (use Cons.prems MEmit m1(2-4) k True in \<open>simp_all add: total_def\<close>)
      then show ?thesis using MEmit True m1(1) k by fastforce
    next
      case False
      have "\<exists>ws ms'. ms_run ops m1 = Ok (ws, ms') \<and>
        (case window sl key ops (ts, cur, prev) of (ts', cur', prev') \<Rightarrow>
           timestamp ms' sl = ts' \<and> keys ms' MST_NOW sl key = total cur' \<and> keys ms' MST_LAST sl key = total prev') \<and>
        ((\<forall>v\<in>set (vs @ vals_of key ops). 0 < sint v) \<longrightarrow>
           extremes (vs @ vals_of key ops) (keys ms' MST_MIN sl key) (keys ms' MST_MAX sl key)) \<and>
        keys ms' MST_AVG sl key = keys m1 MST_AVG sl key"
        by (rule Cons.IH) (use Cons.prems MEmit m1(2-4) k False in \<open>simp_all add: total_def\<close>)
      then show ?thesis using MEmit False m1(1) k by fastforce
    qed
  qed
qed auto

text \<open>C40. The statistics of a key at a level are those of its windows: after any increments and emissions the value now
  is the sum of the values since the last emission that came later than the length of the level
  after the one before, the last value is the sum of the window before that, and in all it is the sum of all
  values. The least and the greatest are those of all values since the start, not of a window, provided that all are
  positive, and the average is never computed.\<close>

theorem mstats_windows:
  assumes "ops_keys ops \<subseteq> {..<n}" "key < n"
  shows "\<exists>ws ms. ms_run ops (mstats_init n t0) = Ok (ws, ms) \<and>
    (case window sl key ops (t0, [], []) of (ts, cur, prev) \<Rightarrow>
       keys ms MST_NOW sl key = total cur \<and> keys ms MST_LAST sl key = total prev) \<and>
    ((\<forall>v\<in>set (vals_of key ops). 0 < sint v) \<longrightarrow> extremes (vals_of key ops) (keys ms MST_MIN sl key) (keys ms MST_MAX sl key)) \<and>
    keys ms MST_AVG sl key = 0"
proof -
  have i: "kr (mstats_init n t0) = n" "level (mstats_init n t0) = level_init" "timestamp (mstats_init n t0) sl = t0"
    "\<And>st sl k. keys (mstats_init n t0) st sl k = 0" by (simp_all add: mstats_init_def)
  have r: "\<exists>ws ms'. ms_run ops (mstats_init n t0) = Ok (ws, ms') \<and>
    (case window sl key ops (t0, [], []) of (ts', cur', prev') \<Rightarrow>
       timestamp ms' sl = ts' \<and> keys ms' MST_NOW sl key = total cur' \<and> keys ms' MST_LAST sl key = total prev') \<and>
    ((\<forall>v\<in>set ([] @ vals_of key ops). 0 < sint v) \<longrightarrow>
       extremes ([] @ vals_of key ops) (keys ms' MST_MIN sl key) (keys ms' MST_MAX sl key)) \<and>
    keys ms' MST_AVG sl key = keys (mstats_init n t0) MST_AVG sl key"
    by (rule ms_run_ok) (use assms i in \<open>simp_all add: total_def extremes_def\<close>)
  then show ?thesis unfolding i(4) append_Nil by (elim exE conjE) (intro exI conjI, assumption, simp split: prod.splits, assumption+)
qed

theorem mstats_windows_witness:
  "\<exists>ws ms. ms_run [MIncr 1 5, MEmit 500, MIncr 1 3, MEmit 1100, MIncr 1 9] (mstats_init 3 0) = Ok (ws, ms) \<and>
     keys ms MST_NOW MSL_S 1 = 9 \<and> keys ms MST_LAST MSL_S 1 = 8 \<and> sint (keys ms MST_MIN MSL_S 1) = 3 \<and>
     sint (keys ms MST_MAX MSL_S 1) = 9 \<and> keys ms MST_AVG MSL_S 1 = 0"
  using mstats_windows [of "[MIncr 1 5, MEmit 500, MIncr 1 3, MEmit 1100, MIncr 1 9]" 3 1 0 MSL_S]
  by (auto simp: due_def total_def extremes_def simp del: ms_run.simps)

end
