(* ===== verification/Spec2Isabelle.thy ===== *)
theory Spec2Isabelle
  imports Hlist Crc16 Md5 Broadcast EvLoop Conhash Mstats
begin

text \<open>
  \<^bold>\<open>A verification development of xio\<close>, a C library of sockets with message framing over TCP,
  local and in-process transports, and of scalability protocols on top of them (\<^verbatim>\<open>src/src\<close>).

  \<^bold>\<open>The program.\<close> A user's message is a buffer \<open>ubuf\<close> inside a \<open>struct msgbuf\<close>; it may carry
  control messages (\<^verbatim>\<open>msgbuf/\<close>). A socket (\<open>struct sockbase\<close>, \<^verbatim>\<open>socket/\<close>) has a receive and a send
  queue of messages, an accept queue and a list of poll entries it notifies. A TCP or IPC
  connection (\<^verbatim>\<open>socket/sio/\<close>) moves messages between its queues and a kernel socket (\<^verbatim>\<open>rex/\<close>) when
  the event loop (\<^verbatim>\<open>ev/\<close>) tells it to; bytes read wait in a paged buffer (\<^verbatim>\<open>utils/bufio.c\<close>) until
  they form a message. Sockets of one process talk over the in-process transport without either. Poll
  sets (\<^verbatim>\<open>poll/\<close>) collect what sockets notify. Endpoints of the scalability protocols (\<^verbatim>\<open>sp/\<close>) join sockets to a
  pattern, requests and replies, publishing, or a bus; one thread waits on a poll set and moves the messages of
  all of them. The event loops run on a pool of threads, and other threads hand them their operations.

  \<^bold>\<open>Theories\<close>, in the order of their imports:
  \<^item> \<open>Prelude\<close>: machine integers (\<open>u32\<close>, \<open>i32\<close> and so on, words read with \<open>unat\<close> or \<open>sint\<close>), the
    outcome \<open>cres\<close> of a C call (\<open>Ok\<close>, \<open>Err errno\<close>, \<open>Bug\<close> for a \<open>BUG_ON\<close>, \<open>Undef\<close> for undefined
    behaviour), C strings, little-endian integers.
  \<^item> \<open>Interfaces\<close>: the contracts as locales, \<open>fifo\<close> for queues and \<open>byte_queue\<close> for byte buffers.
  \<^item> \<open>ListHead\<close>, \<open>Hlist\<close>: \<^verbatim>\<open>utils/list.h\<close> on an explicit store of nodes, the doubly linked rings and the
    lists with a single pointer as head; every operation refines one on lists, and a walk may remove the entry it is
    at. Later theories use lists.
  \<^item> \<open>Bufio\<close>: \<^verbatim>\<open>utils/bufio.c\<close>; \<open>bio_bytes\<close> abstracts a buffer to its bytes, and the buffer is a
    \<open>byte_queue\<close>. \<open>mem\<close> is the number of pages the allocator still gives.
  \<^item> \<open>Crc16\<close>: \<^verbatim>\<open>utils/crc16.c\<close>, equal to the bit-serial definition of the code.
  \<^item> \<open>Msgbuf\<close>: \<^verbatim>\<open>msgbuf/msgbuf.c\<close>: a message is a tree; \<open>wire\<close> is its byte image; \<open>uctl\<close> edits the
    children; \<open>msgbuf_serialize\<close> and \<open>msgbuf_install_iovs\<close> send it in parts; \<open>msgbuf_deserialize\<close>
    reads one back (fuel: one level for four bytes is enough, \<open>deserialize_terminates\<close>).
  \<^item> \<open>MsgbufHead\<close>: \<^verbatim>\<open>msgbuf/msgbuf_head.c\<close>, a \<open>fifo\<close>, and the send queue as a whole.
  \<^item> \<open>Sock\<close>: one socket, from \<^verbatim>\<open>socket/sockbase.c\<close>, \<^verbatim>\<open>recv.c\<close>, \<^verbatim>\<open>send.c\<close>, \<^verbatim>\<open>listen.c\<close>, \<^verbatim>\<open>close.c\<close> and
    \<^verbatim>\<open>eventnotify.c\<close>. What an operation does to other objects is its output.
  \<^item> \<open>Rex\<close>: \<^verbatim>\<open>rex/rex_posix.c\<close> over a kernel given by the list of its answers.
  \<^item> \<open>SockOpt\<close>: the option tables of the transports; \<open>Arrays\<close>, \<open>Sockaddr\<close>: \<^verbatim>\<open>utils/str_array.c\<close>,
    \<^verbatim>\<open>utils/unorder_p_array.c\<close>, \<^verbatim>\<open>socket/sockaddr.c\<close>.
  \<^item> \<open>Efd\<close>, \<open>Ev\<close>: \<^verbatim>\<open>utils/efd.c\<close> and \<^verbatim>\<open>ev/\<close>: the sets of watched descriptors over epoll, poll and
    select, and user signals as a state machine with the threads that signal.
  \<^item> \<open>Sio\<close>: \<^verbatim>\<open>socket/sio/sio.c\<close> over all of these: the receive path, the send path, the handler of
    the event loop, and the interleaving of senders with it.
  \<^item> \<open>Pool\<close>, \<open>Xpoll\<close>: the tables of descriptors, and poll sets (\<^verbatim>\<open>poll/\<close>): entries, references,
    notifications and waiting, as an invariant over a store of polls and entries.
  \<^item> \<open>Krb\<close>, \<open>KrbErase\<close>, \<open>StrRb\<close>: the red-black trees of \<^verbatim>\<open>utils/krb.c\<close> on a heap of nodes with
    parent pointers, insertion and erasing refined to trees with the colour and height invariants, and
    the maps over them (\<^verbatim>\<open>utils/str_rb.c\<close>, \<^verbatim>\<open>utils/i64_rb.c\<close>).
  \<^item> \<open>World\<close>: all the sockets of a process, with the in-process transport (\<^verbatim>\<open>socket/inproc/\<close>), listeners on several
    addresses (\<^verbatim>\<open>socket/mix/\<close>), listeners of the kernel (\<^verbatim>\<open>socket/sio/sio_listener.c\<close>), and the calls of the
    user; \<open>WorldInv\<close>: its invariant \<open>wok\<close> (tables, references, poll entries) and what the calls
    do; \<open>Inproc\<close>: a pair of connected in-process sockets is a pair of queues, with the receivers that sleep at them and
    are woken, and how they come to be connected; \<open>Level\<close>: what a poll set reports is what the sockets are ready for, under
    any run of sends, receives and control calls.
  \<^item> \<open>Rr\<close>, \<open>Lbs\<close>: the routing header of requests (\<^verbatim>\<open>sp/reqrep/rr.h\<close>) as bytes, and the load balancers
    (\<^verbatim>\<open>lbs_rrbin.c\<close>, \<^verbatim>\<open>lbs_ulhash.c\<close>) with the contract \<open>load_balancer\<close>, which the first keeps and the second
    breaks.
  \<^item> \<open>Sp\<close>: \<^verbatim>\<open>sp/\<close> over \<open>World\<close>: endpoints with their targets and references, all operations of the five kinds
    of endpoint and of proxies, the rounds of the event thread, and the calls of the user; \<open>SpRun\<close>: a request
    goes from \<open>sp_send\<close> through both event threads to \<open>sp_recv\<close> and its reply back, and the crashes that the code
    allows; \<open>Broadcast\<close>: a publisher and a bus queue every message for every connection it is meant for, and the
    event thread watches each connection whose queue is not empty.
  \<^item> \<open>Md5\<close>: \<^verbatim>\<open>utils/md5.c\<close>, equal to RFC 1321; \<open>Conhash\<close>: \<^verbatim>\<open>utils/consistent_hash.c\<close> over \<open>StrRb\<close> and \<open>Md5\<close> with
    its memory, and \<^verbatim>\<open>sp/reqrep/lbs_conhash.c\<close>.
  \<^item> \<open>Taskpool\<close>: \<^verbatim>\<open>utils/waitgroup.c\<close> and \<^verbatim>\<open>utils/taskpool.c\<close>, the threads as a step relation in which a sleeper
    may wake for no reason; \<open>EvLoop\<close>: the threads of \<^verbatim>\<open>ev/ev.c\<close>: operations on a set of descriptors that any thread
    hands to a loop, and starting and stopping the loops.
  \<^item> \<open>Mstats\<close>: \<^verbatim>\<open>utils/mstats_base.c\<close>, counters over windows of time.

  \<^bold>\<open>Conventions.\<close> An operation under a mutex is one step. An operation that waits on a condition
  variable is two: the first ends in \<open>Blocked\<close>, the second starts when the waiter is woken. The broadcasts on such
  variables are logged in the state (\<open>wake\<close>); \<open>run_chan\<close> lets the sleepers go on that the log says are woken.
  Addresses are natural numbers. A loop that is not bounded by its data has fuel, and running out of
  it is \<open>None\<close>; the theorems say how much is enough.

  \<^bold>\<open>Bounds.\<close> The walks in a red-black tree take its height, those of \<open>Conhash\<close> the number of entries ever made; a
  walk over a list one more than its length; \<open>msgbuf_deserialize\<close> one level for four bytes, the
  least a message takes. The operations of
  \<open>World\<close> and \<open>Sp\<close> pass one bound \<open>n\<close> to all of their loops, and the theorems on them say which is enough.

  \<^bold>\<open>Interfaces.\<close> The contracts are the locales \<open>fifo\<close>, \<open>byte_queue\<close>, \<open>id_pool\<close>, \<open>load_balancer\<close>, \<open>search_order\<close> and
  \<open>strict_order\<close>, each interpreted in the theory of the component that provides the operations: message queues,
  the queue of a task pool and the global tasks are \<open>fifo\<close>, the paged buffer a \<open>byte_queue\<close>, the tables of
  sockets, polls and endpoints \<open>id_pool\<close>, weighted round robin a \<open>load_balancer\<close>, the comparisons of the two
  kinds of map the orders.

  \<^bold>\<open>Simplifications.\<close> The count of \<open>bio_prefetch\<close> that \<open>sio_connector_rcv\<close> puts into an \<open>int\<close> is not cut to 32 bits, the
  number of tasks of a pool has no bound, and sums of the counters wrap around at 64 bits, where C leaves
  the overflow undefined. The event that \<open>SpRun\<close> hands to the thread of the endpoints is \<open>XPOLLIN\<close> alone.

  \<^bold>\<open>Not modelled.\<close> The wrappers of \<^verbatim>\<open>malloc\<close>, of atomic counters and of the thread library (\<^verbatim>\<open>utils/alloc.c\<close>,
  \<^verbatim>\<open>atomic*.c\<close>, \<^verbatim>\<open>mutex.c\<close>, \<^verbatim>\<open>spinlock.c\<close>, \<^verbatim>\<open>condition.c\<close>, \<^verbatim>\<open>thread.c\<close>): an allocation is an argument that may fail, a
  lock makes a function one step. The clock, the paths and the log (\<^verbatim>\<open>timer.c\<close>, \<^verbatim>\<open>filepath.c\<close>, \<^verbatim>\<open>log.h\<close>), the block
  cache \<^verbatim>\<open>mem_cache.h\<close> that no part uses, the calls of the counters in the other parts (no decision depends on
  them), the constructor of the library, the Windows and kqueue back ends, the language bindings, the tests and
  tools.
\<close>

end
